(* ===== verification/Prelude.thy ===== *)
theory Prelude
  imports Main "HOL-Library.Word" "HOL-Library.Monad_Syntax"
begin

text \<open>
  Shared vocabulary of the development: the machine integer types of the C sources, arrays with
  C's failure modes written out, and the generic lemmas on lists, options and words that the
  component theories use.

  Conventions used everywhere.  A C function that may stop the process (a failed \<open>assert\<close>, a call
  of \<open>exit\<close>, an access outside an object, a read of memory that was never written, a loop that
  does not end) is a function into \<open>option\<close>: \<open>None\<close> is that outcome and \<open>Some\<close> carries the
  new state and the C result.  Theorems of the form \<open>f s = Some r\<close> therefore include absence of
  all of these.  A C pointer is an address; \<open>NULL\<close> is \<open>None\<close> of type \<open>addr option\<close>.
\<close>

unbundle bit_operations_syntax

type_synonym u8 = "8 word"
type_synonym u16 = "16 word"
type_synonym u32 = "32 word"
type_synonym u64 = "64 word"

text \<open>Addresses of heap objects.\<close>

type_synonym addr = nat

text \<open>\<open>cdefs\<close> collects the unfolding rules of the operations, \<open>inv_defs\<close> those of the
  well-formedness invariants.\<close>

named_theorems cdefs
named_theorems inv_defs

section \<open>Guards\<close>

text \<open>An \<open>assert\<close>: the process stops unless the condition holds.\<close>

definition c_assert :: "bool \<Rightarrow> unit option" where
  "c_assert b = (if b then Some () else None)"

lemma c_assert_True [simp]: "c_assert True = Some ()"
  and c_assert_False [simp]: "c_assert False = None"
  by (simp_all add: c_assert_def)

lemma c_assert_eq_Some [simp]: "c_assert b = Some u \<longleftrightarrow> b"
  by (simp add: c_assert_def)

lemma c_assert_bind_eq_Some [simp]:
  "Option.bind (c_assert b) f = Some x \<longleftrightarrow> b \<and> f () = Some x"
  by (cases b) simp_all

section \<open>Arrays\<close>

text \<open>
  An array obtained from \<open>malloc\<close> holds indeterminate values until it is written, so its model is
  a list of \<open>'a option\<close>.  \<open>arr_get\<close> reads a cell and fails outside the array and on a cell that
  was never written; \<open>arr_set\<close> writes a cell and fails outside the array.
\<close>

definition arr_get :: "'a option list \<Rightarrow> nat \<Rightarrow> 'a option" where
  "arr_get xs i = (if i < length xs then xs ! i else None)"

definition arr_set :: "'a list \<Rightarrow> nat \<Rightarrow> 'a \<Rightarrow> 'a list option" where
  "arr_set xs i x = (if i < length xs then Some (xs[i := x]) else None)"

lemma arr_get_in [simp]: "i < length xs \<Longrightarrow> arr_get xs i = xs ! i"
  by (simp add: arr_get_def)

lemma arr_set_in [simp]: "i < length xs \<Longrightarrow> arr_set xs i x = Some (xs[i := x])"
  by (simp add: arr_set_def)

lemma arr_set_eq_Some:
  "arr_set xs i x = Some ys \<longleftrightarrow> i < length xs \<and> ys = xs[i := x]"
  by (auto simp: arr_set_def)

section \<open>Options and maps\<close>

lemma bind_map_of_Some [simp]: "m k = Some v \<Longrightarrow> Option.bind (m k) f = f v"
  by simp

lemma option_ext: "(\<And>x. a = Some x \<longleftrightarrow> b = Some x) \<Longrightarrow> a = b"
  by (metis not_None_eq)

end
