(* ===== verification/Ring.thy ===== *)
theory Ring
  imports Prelude
begin

text \<open>
  The circular arrays of the message queue (\<open>skynet_mq.c\<close>) and of the network packet queue
  (\<open>lua-netpack.c\<close>), and the interface both provide: a first-in first-out queue.
  \<open>ring_list buf h n\<close> is the sequence of the \<open>n\<close> cells that start at index \<open>h\<close> and wrap
  around at the end of the array.
\<close>

definition ring_list :: "'a list \<Rightarrow> nat \<Rightarrow> nat \<Rightarrow> 'a list" where
  "ring_list buf h n = map (\<lambda>i. buf ! ((h + i) mod length buf)) [0..<n]"

definition ring_len :: "nat \<Rightarrow> nat \<Rightarrow> nat \<Rightarrow> nat" where
  "ring_len cap h t = (if h \<le> t then t - h else t + cap - h)"

lemma length_ring_list [simp]: "length (ring_list buf h n) = n"
  by (simp add: ring_list_def)

lemma ring_list_0 [simp]: "ring_list buf h 0 = []"
  by (simp add: ring_list_def)

lemma ring_list_nth: "i < n \<Longrightarrow> ring_list buf h n ! i = buf ! ((h + i) mod length buf)"
  by (simp add: ring_list_def)

lemma ring_len_less: "h < cap \<Longrightarrow> t < cap \<Longrightarrow> ring_len cap h t < cap"
  by (auto simp: ring_len_def)

lemma ring_len_eq_0: "h < cap \<Longrightarrow> t < cap \<Longrightarrow> ring_len cap h t = 0 \<longleftrightarrow> h = t"
  by (auto simp: ring_len_def)

lemma ring_len_self [simp]: "ring_len cap h h = 0"
  by (simp add: ring_len_def)

text \<open>The tail index is the head index advanced by the length.\<close>

lemma ring_tail: "h < cap \<Longrightarrow> t < cap \<Longrightarrow> (h + ring_len cap h t) mod cap = t"
  by (auto simp: ring_len_def mod_if)

text \<open>Advancing the tail, unless it meets the head, makes the queue one longer; advancing the head
  makes it one shorter.  Both C files advance with a comparison instead of a division.\<close>

definition ring_next :: "nat \<Rightarrow> nat \<Rightarrow> nat" where
  "ring_next cap i = (if Suc i \<ge> cap then 0 else Suc i)"

lemma ring_next_less: "i < cap \<Longrightarrow> ring_next cap i < cap"
  by (auto simp: ring_next_def)

lemma ring_next_mod: "i < cap \<Longrightarrow> ring_next cap i = Suc i mod cap"
  by (auto simp: ring_next_def mod_if)

lemma ring_len_push:
  "h < cap \<Longrightarrow> t < cap \<Longrightarrow> ring_next cap t \<noteq> h
    \<Longrightarrow> ring_len cap h (ring_next cap t) = Suc (ring_len cap h t)"
  by (auto simp: ring_len_def ring_next_def split: if_splits)

lemma ring_len_full:
  "h < cap \<Longrightarrow> t < cap \<Longrightarrow> ring_next cap t = h \<Longrightarrow> Suc (ring_len cap h t) = cap"
  by (auto simp: ring_len_def ring_next_def split: if_splits)

lemma ring_len_pop:
  "h < cap \<Longrightarrow> t < cap \<Longrightarrow> h \<noteq> t
    \<Longrightarrow> ring_len cap h t = Suc (ring_len cap (ring_next cap h) t)"
  by (auto simp: ring_len_def ring_next_def split: if_splits)

lemma ring_list_Cons:
  assumes "h < length buf"
  shows "ring_list buf h (Suc n) = buf ! h # ring_list buf (ring_next (length buf) h) n"
proof (rule nth_equalityI)
  fix i assume "i < length (ring_list buf h (Suc n))"
  then show "ring_list buf h (Suc n) ! i = (buf ! h # ring_list buf (ring_next (length buf) h) n) ! i"
    using assms
    by (cases i) (simp_all add: ring_list_nth ring_next_mod mod_add_left_eq del: upt_Suc)
qed simp

text \<open>Writing the cell just past the end appends to the sequence.\<close>

lemma ring_index_neq:
  assumes "i < n" "n < (cap::nat)"
  shows "(h + i) mod cap \<noteq> (h + n) mod cap"
proof
  assume "(h + i) mod cap = (h + n) mod cap"
  then have "cap dvd (h + n) - (h + i)"
    using assms by (intro mod_eq_dvd_iff_nat[THEN iffD1]) auto
  moreover have "(h + n) - (h + i) = n - i" "0 < n - i" "n - i < cap"
    using assms by auto
  ultimately show False
    by (metis dvd_imp_le leD)
qed

lemma ring_list_snoc:
  assumes "n < length buf"
  shows "ring_list (buf[(h + n) mod length buf := x]) h (Suc n) = ring_list buf h n @ [x]"
proof (rule nth_equalityI)
  fix i assume "i < length (ring_list (buf[(h + n) mod length buf := x]) h (Suc n))"
  then consider "i < n" | "i = n" by fastforce
  then show "ring_list (buf[(h + n) mod length buf := x]) h (Suc n) ! i = (ring_list buf h n @ [x]) ! i"
  proof cases
    case 1
    with assms have "(h + i) mod length buf \<noteq> (h + n) mod length buf"
      by (intro ring_index_neq)
    with 1 show ?thesis by (simp add: ring_list_nth nth_append)
  next
    case 2
    have "(h + n) mod length buf < length buf"
      using assms by (intro mod_less_divisor) linarith
    with 2 show ?thesis by (simp add: ring_list_nth nth_append)
  qed
qed simp

text \<open>Copying all cells to the front of a larger array keeps the sequence.\<close>

lemma ring_list_copy:
  assumes "cap = length buf" "0 < cap"
  shows "ring_list (map (\<lambda>i. buf ! ((h + i) mod cap)) [0..<cap] @ rest) 0 cap = ring_list buf h cap"
  using assms by (intro nth_equalityI) (auto simp: ring_list_nth nth_append)

lemma ring_list_cong:
  "(\<And>i. i < n \<Longrightarrow> buf ! ((h + i) mod length buf) = buf' ! ((h + i) mod length buf'))
    \<Longrightarrow> ring_list buf h n = ring_list buf' h n"
  by (simp add: ring_list_def)

lemma set_ring_list:
  "n \<le> length buf \<Longrightarrow> set (ring_list buf h n) \<subseteq> set buf"
  by (auto simp: ring_list_def intro!: nth_mem mod_less_divisor)

section \<open>The interface of a first-in first-out queue\<close>

text \<open>
  An operation sequence and its meaning on a plain list: the specification every queue of the
  program is compared with.  The outputs are the values the removals return, in order.
\<close>

datatype 'm qop = Enq 'm | Deq

fun spec_run :: "'m qop list \<Rightarrow> 'm list \<Rightarrow> 'm list \<times> 'm option list" where
  "spec_run [] ms = (ms, [])"
| "spec_run (Enq m # ops) ms = spec_run ops (ms @ [m])"
| "spec_run (Deq # ops) ms =
     (case ms of
        [] \<Rightarrow> (let (r, out) = spec_run ops [] in (r, None # out))
      | m # ms' \<Rightarrow> (let (r, out) = spec_run ops ms' in (r, Some m # out)))"

text \<open>The same sequence run by an implementation.\<close>

fun impl_run :: "('m \<Rightarrow> 'q \<Rightarrow> 'q option) \<Rightarrow> ('q \<Rightarrow> ('q \<times> 'm option) option)
    \<Rightarrow> 'm qop list \<Rightarrow> 'q \<Rightarrow> ('q \<times> 'm option list) option" where
  "impl_run enq deq [] q = Some (q, [])"
| "impl_run enq deq (Enq m # ops) q = do { q' \<leftarrow> enq m q; impl_run enq deq ops q' }"
| "impl_run enq deq (Deq # ops) q =
     do { (q', r) \<leftarrow> deq q; (q'', out) \<leftarrow> impl_run enq deq ops q'; Some (q'', r # out) }"

text \<open>
  \<open>rep q ms\<close> says that the concrete queue \<open>q\<close> is well formed and stands for the sequence \<open>ms\<close>,
  \<open>ok q m\<close> that \<open>m\<close> may be added to \<open>q\<close>.  Adding and removing return; adding appends,
  removing takes the oldest element and reports an empty queue as such.
\<close>

locale fifo =
  fixes rep :: "'q \<Rightarrow> 'm list \<Rightarrow> bool"
    and ok :: "'q \<Rightarrow> 'm \<Rightarrow> bool"
    and enq :: "'m \<Rightarrow> 'q \<Rightarrow> 'q option"
    and deq :: "'q \<Rightarrow> ('q \<times> 'm option) option"
  assumes enq: "rep q ms \<Longrightarrow> ok q m \<Longrightarrow> \<exists>q'. enq m q = Some q' \<and> rep q' (ms @ [m])"
    and deq_Nil: "rep q [] \<Longrightarrow> \<exists>q'. deq q = Some (q', None) \<and> rep q' []"
    and deq_Cons: "rep q (m # ms) \<Longrightarrow> \<exists>q'. deq q = Some (q', Some m) \<and> rep q' ms"
begin

lemma deq_exec:
  "rep q ms \<Longrightarrow> deq q = Some (q', r)
    \<Longrightarrow> rep q' (tl ms) \<and> r = (case ms of [] \<Rightarrow> None | m # _ \<Rightarrow> Some m)"
  by (cases ms) (auto dest: deq_Nil deq_Cons)

lemma enq_exec: "rep q ms \<Longrightarrow> ok q m \<Longrightarrow> enq m q = Some q' \<Longrightarrow> rep q' (ms @ [m])"
  by (auto dest: enq)

lemma deq_returns: "rep q ms \<Longrightarrow> \<exists>q' r. deq q = Some (q', r)"
  by (cases ms) (auto dest: deq_Nil deq_Cons)

text \<open>A provider that accepts every element refines the specification on every operation
  sequence, with the same outputs.\<close>

lemma run_refines:
  assumes "\<And>q m. ok q m" and "rep q ms"
  shows "\<exists>q'. impl_run enq deq ops q = Some (q', snd (spec_run ops ms))
            \<and> rep q' (fst (spec_run ops ms))"
  using assms(2)
proof (induction ops arbitrary: q ms)
  case Nil
  then show ?case by simp
next
  case (Cons opn ops)
  show ?case
  proof (cases opn)
    case (Enq m)
    from enq[OF Cons.prems assms(1)] obtain q'
      where "enq m q = Some q'" "rep q' (ms @ [m])" by blast
    with Cons.IH[of q' "ms @ [m]"] Enq show ?thesis by auto
  next
    case Deq
    show ?thesis
    proof (cases ms)
      case Nil
      with Cons.prems obtain q' where "deq q = Some (q', None)" "rep q' []"
        using deq_Nil by blast
      with Cons.IH[of q' "[]"] Deq Nil show ?thesis by (auto split: prod.splits)
    next
      case (Cons m ms')
      with \<open>rep q ms\<close> obtain q' where "deq q = Some (q', Some m)" "rep q' ms'"
        using deq_Cons by blast
      with Cons.IH[of q' ms'] Deq Cons show ?thesis by (auto split: prod.splits)
    qed
  qed
qed

end

end
