(* ===== verification/Mq.thy ===== *)
theory Mq
  imports Ring
begin

text \<open>
  The message queues of \<open>skynet-src/skynet_mq.c\<close>: one circular, growing array of messages per
  service, and the global queue, a linked list (through the \<open>next\<close> fields) of the service queues
  that have work.  The heap \<open>mq_heap\<close> holds the \<open>struct message_queue\<close> objects by address;
  the state record is extensible, so that the node state of the server extends it.  Every
  operation is one critical section of its spin lock and is therefore one atomic function here.
\<close>

section \<open>State\<close>

record 'd skynet_message =
  msg_source :: u32
  msg_session :: int
  msg_data :: 'd
  msg_sz :: u64

definition DEFAULT_QUEUE_SIZE :: nat where [cdefs]: "DEFAULT_QUEUE_SIZE = 64"
definition MQ_IN_GLOBAL :: int where [cdefs]: "MQ_IN_GLOBAL = 1"
definition MQ_OVERLOAD :: int where [cdefs]: "MQ_OVERLOAD = 1024"

text \<open>Capacity and indices are \<open>int\<close> in the code; doubling the capacity overflows only beyond \<open>2\<^sup>3\<^sup>0\<close> messages in one queue.\<close>

record 'd message_queue =
  mq_handle :: u32
  mq_cap :: nat
  mq_head :: nat
  mq_tail :: nat
  mq_release :: int
  mq_in_global :: int
  mq_overload :: int
  mq_overload_threshold :: int
  mq_queue :: "'d skynet_message option list"
  mq_next :: "addr option"

text \<open>\<open>gq_head\<close> and \<open>gq_tail\<close> are the fields of \<open>struct global_queue\<close>; \<open>mq_fresh\<close> is the
  next address the allocator hands out.\<close>

record 'd mqs =
  mq_heap :: "addr \<rightharpoonup> 'd message_queue"
  mq_fresh :: addr
  gq_head :: "addr option"
  gq_tail :: "addr option"

section \<open>The global queue\<close>

definition skynet_globalmq_push :: "addr \<Rightarrow> ('d, 'z) mqs_scheme \<Rightarrow> ('d, 'z) mqs_scheme option" where
  "skynet_globalmq_push a s = do {
     queue \<leftarrow> mq_heap s a;
     c_assert (mq_next queue = None);
     (case gq_tail s of
        Some t \<Rightarrow> do {
          tq \<leftarrow> mq_heap s t;
          Some (s\<lparr>mq_heap := (mq_heap s)(t \<mapsto> tq\<lparr>mq_next := Some a\<rparr>), gq_tail := Some a\<rparr>) }
      | None \<Rightarrow> Some (s\<lparr>gq_head := Some a, gq_tail := Some a\<rparr>)) }"

definition skynet_globalmq_pop :: "('d, 'z) mqs_scheme \<Rightarrow> (('d, 'z) mqs_scheme \<times> addr option) option" where
  "skynet_globalmq_pop s =
     (case gq_head s of
        None \<Rightarrow> Some (s, None)
      | Some a \<Rightarrow> do {
          mq \<leftarrow> mq_heap s a;
          let s1 = s\<lparr>gq_head := mq_next mq\<rparr>;
          s2 \<leftarrow> (if mq_next mq = None
                  then do { c_assert (gq_tail s = Some a); Some (s1\<lparr>gq_tail := None\<rparr>) }
                  else Some s1);
          Some (s2\<lparr>mq_heap := (mq_heap s)(a \<mapsto> mq\<lparr>mq_next := None\<rparr>)\<rparr>, Some a) })"

definition skynet_mq_init :: "('d, 'z) mqs_scheme \<Rightarrow> ('d, 'z) mqs_scheme" where
  "skynet_mq_init s = s\<lparr>gq_head := None, gq_tail := None\<rparr>"

section \<open>One service queue\<close>

definition mq_new :: "u32 \<Rightarrow> 'd message_queue" where
  "mq_new handle = \<lparr>
     mq_handle = handle, mq_cap = DEFAULT_QUEUE_SIZE, mq_head = 0, mq_tail = 0,
     mq_release = 0, mq_in_global = MQ_IN_GLOBAL,
     mq_overload = 0, mq_overload_threshold = MQ_OVERLOAD,
     mq_queue = replicate DEFAULT_QUEUE_SIZE None, mq_next = None\<rparr>"

definition skynet_mq_create :: "u32 \<Rightarrow> ('d, 'z) mqs_scheme \<Rightarrow> ('d, 'z) mqs_scheme \<times> addr" where
  "skynet_mq_create handle s =
     (s\<lparr>mq_heap := (mq_heap s)(mq_fresh s \<mapsto> mq_new handle), mq_fresh := Suc (mq_fresh s)\<rparr>,
      mq_fresh s)"

definition mq_free :: "addr \<Rightarrow> ('d, 'z) mqs_scheme \<Rightarrow> ('d, 'z) mqs_scheme option" where
  "mq_free a s = do {
     q \<leftarrow> mq_heap s a;
     c_assert (mq_next q = None);
     Some (s\<lparr>mq_heap := (mq_heap s)(a := None)\<rparr>) }"

definition skynet_mq_handle :: "addr \<Rightarrow> ('d, 'z) mqs_scheme \<Rightarrow> u32 option" where
  "skynet_mq_handle a s = map_option mq_handle (mq_heap s a)"

definition mq_length :: "'d message_queue \<Rightarrow> int" where
  "mq_length q =
     (let head = int (mq_head q); tail = int (mq_tail q); cap = int (mq_cap q)
      in if head \<le> tail then tail - head else tail + cap - head)"

definition skynet_mq_length :: "addr \<Rightarrow> ('d, 'z) mqs_scheme \<Rightarrow> int option" where
  "skynet_mq_length a s = map_option mq_length (mq_heap s a)"

definition skynet_mq_overload :: "addr \<Rightarrow> ('d, 'z) mqs_scheme \<Rightarrow> (('d, 'z) mqs_scheme \<times> int) option" where
  "skynet_mq_overload a s = do {
     q \<leftarrow> mq_heap s a;
     if mq_overload q \<noteq> 0
     then Some (s\<lparr>mq_heap := (mq_heap s)(a \<mapsto> q\<lparr>mq_overload := 0\<rparr>)\<rparr>, mq_overload q)
     else Some (s, 0) }"

text \<open>The \<open>while\<close> loop of \<open>skynet_mq_pop\<close> that raises the threshold; with a threshold of 0 it
  would not end.\<close>

partial_function (option) mq_overload_loop :: "int \<Rightarrow> int \<Rightarrow> int \<Rightarrow> (int \<times> int) option" where
  "mq_overload_loop n overload threshold =
     (if n > threshold then mq_overload_loop n n (threshold * 2)
      else Some (overload, threshold))"

definition mq_pop :: "'d message_queue \<Rightarrow> ('d message_queue \<times> 'd skynet_message option) option" where
  "mq_pop q =
     (if mq_head q \<noteq> mq_tail q then do {
        message \<leftarrow> arr_get (mq_queue q) (mq_head q);
        let head = (if Suc (mq_head q) \<ge> mq_cap q then 0 else Suc (mq_head q));
        let len = int (mq_tail q) - int head;
        let n = (if len < 0 then len + int (mq_cap q) else len);
        (overload, threshold) \<leftarrow> mq_overload_loop n (mq_overload q) (mq_overload_threshold q);
        Some (q\<lparr>mq_head := head, mq_overload := overload, mq_overload_threshold := threshold\<rparr>,
              Some message) }
      else Some (q\<lparr>mq_overload_threshold := MQ_OVERLOAD, mq_in_global := 0\<rparr>, None))"

definition skynet_mq_pop ::
    "addr \<Rightarrow> ('d, 'z) mqs_scheme \<Rightarrow> (('d, 'z) mqs_scheme \<times> 'd skynet_message option) option" where
  "skynet_mq_pop a s = do {
     q \<leftarrow> mq_heap s a;
     (q', r) \<leftarrow> mq_pop q;
     Some (s\<lparr>mq_heap := (mq_heap s)(a \<mapsto> q')\<rparr>, r) }"

definition expand_queue :: "'d message_queue \<Rightarrow> 'd message_queue" where
  "expand_queue q =
     (let cap = mq_cap q;
          new_queue = map (\<lambda>i. mq_queue q ! ((mq_head q + i) mod cap)) [0..<cap] @ replicate cap None
      in q\<lparr>mq_head := 0, mq_tail := cap, mq_cap := cap * 2, mq_queue := new_queue\<rparr>)"

definition mq_push :: "'d skynet_message \<Rightarrow> 'd message_queue \<Rightarrow> 'd message_queue option" where
  "mq_push message q = do {
     queue \<leftarrow> arr_set (mq_queue q) (mq_tail q) (Some message);
     let tail = (if Suc (mq_tail q) \<ge> mq_cap q then 0 else Suc (mq_tail q));
     let q1 = q\<lparr>mq_queue := queue, mq_tail := tail\<rparr>;
     Some (if mq_head q1 = mq_tail q1 then expand_queue q1 else q1) }"

definition skynet_mq_push ::
    "addr \<Rightarrow> 'd skynet_message \<Rightarrow> ('d, 'z) mqs_scheme \<Rightarrow> ('d, 'z) mqs_scheme option" where
  "skynet_mq_push a message s = do {
     q \<leftarrow> mq_heap s a;
     q1 \<leftarrow> mq_push message q;
     if mq_in_global q1 = 0
     then skynet_globalmq_push a
            (s\<lparr>mq_heap := (mq_heap s)(a \<mapsto> q1\<lparr>mq_in_global := MQ_IN_GLOBAL\<rparr>)\<rparr>)
     else Some (s\<lparr>mq_heap := (mq_heap s)(a \<mapsto> q1)\<rparr>) }"

definition skynet_mq_mark_release :: "addr \<Rightarrow> ('d, 'z) mqs_scheme \<Rightarrow> ('d, 'z) mqs_scheme option" where
  "skynet_mq_mark_release a s = do {
     q \<leftarrow> mq_heap s a;
     c_assert (mq_release q = 0);
     let s1 = s\<lparr>mq_heap := (mq_heap s)(a \<mapsto> q\<lparr>mq_release := 1\<rparr>)\<rparr>;
     if mq_in_global q \<noteq> MQ_IN_GLOBAL then skynet_globalmq_push a s1 else Some s1 }"

text \<open>\<open>drop_func\<close> is the callback of the caller; it may change the rest of the state.\<close>

partial_function (option) drop_queue ::
    "addr \<Rightarrow> ('d skynet_message \<Rightarrow> ('d, 'z) mqs_scheme \<Rightarrow> ('d, 'z) mqs_scheme option)
      \<Rightarrow> ('d, 'z) mqs_scheme \<Rightarrow> ('d, 'z) mqs_scheme option" where
  "drop_queue a drop_func s =
     Option.bind (skynet_mq_pop a s) (\<lambda>(s1, r).
       case r of
         Some msg \<Rightarrow> Option.bind (drop_func msg s1) (\<lambda>s2. drop_queue a drop_func s2)
       | None \<Rightarrow> mq_free a s1)"

definition skynet_mq_release ::
    "addr \<Rightarrow> ('d skynet_message \<Rightarrow> ('d, 'z) mqs_scheme \<Rightarrow> ('d, 'z) mqs_scheme option)
      \<Rightarrow> ('d, 'z) mqs_scheme \<Rightarrow> ('d, 'z) mqs_scheme option" where
  "skynet_mq_release a drop_func s = do {
     q \<leftarrow> mq_heap s a;
     if mq_release q \<noteq> 0 then drop_queue a drop_func s else skynet_globalmq_push a s }"

section \<open>A service queue is a first-in first-out queue\<close>

text \<open>\<open>mq_rep q ms\<close>: the indices of \<open>q\<close> are in range, the array has the recorded capacity, and
  the cells from head to tail have been written and hold \<open>ms\<close>.\<close>

definition mq_rep :: "'d message_queue \<Rightarrow> 'd skynet_message list \<Rightarrow> bool" where
  [inv_defs]: "mq_rep q ms \<longleftrightarrow>
     0 < mq_cap q \<and> length (mq_queue q) = mq_cap q \<and> mq_head q < mq_cap q \<and> mq_tail q < mq_cap q
     \<and> 0 < mq_overload_threshold q
     \<and> ring_list (mq_queue q) (mq_head q) (ring_len (mq_cap q) (mq_head q) (mq_tail q)) = map Some ms"

lemma mq_rep_length_ring:
  "mq_rep q ms \<Longrightarrow> ring_len (mq_cap q) (mq_head q) (mq_tail q) = length ms"
  unfolding mq_rep_def by (metis length_map length_ring_list)

lemma mq_rep_inj: "mq_rep q ms \<Longrightarrow> mq_rep q ms' \<Longrightarrow> ms = ms'"
  by (simp add: mq_rep_def inj_map_eq_map)

lemma mq_rep_new: "mq_rep (mq_new h) []"
  by (simp add: mq_rep_def mq_new_def cdefs)

lemma mq_length_rep: "mq_rep q ms \<Longrightarrow> mq_length q = int (length ms)"
  using mq_rep_length_ring[of q ms]
  by (auto simp: mq_length_def mq_rep_def ring_len_def Let_def split: if_splits)

text \<open>The queue frame: what the ring of messages depends on.\<close>

lemma mq_rep_frame [simp]:
  "mq_rep (q\<lparr>mq_next := x\<rparr>) ms = mq_rep q ms"
  "mq_rep (q\<lparr>mq_in_global := i\<rparr>) ms = mq_rep q ms"
  "mq_rep (q\<lparr>mq_release := i\<rparr>) ms = mq_rep q ms"
  "mq_rep (q\<lparr>mq_overload := i\<rparr>) ms = mq_rep q ms"
  by (simp_all add: mq_rep_def)

subsection \<open>The overload threshold\<close>

lemma mq_overload_loop_result:
  assumes "0 < th"
  shows "\<exists>ov' th'. mq_overload_loop n ov th = Some (ov', th') \<and> n \<le> th' \<and> th \<le> th'
           \<and> (if n > th then ov' = n \<and> th' < 2 * n else ov' = ov \<and> th' = th)"
  using assms
proof (induction "nat (n - th)" arbitrary: ov th rule: less_induct)
  case less
  show ?case
  proof (cases "n > th")
    case False
    then show ?thesis by (simp add: mq_overload_loop.simps)
  next
    case True
    with less.prems have "nat (n - th * 2) < nat (n - th)" by auto
    with less obtain ov' th' where
      "mq_overload_loop n n (th * 2) = Some (ov', th')" "n \<le> th'" "th * 2 \<le> th'"
      "if n > th * 2 then ov' = n \<and> th' < 2 * n else ov' = n \<and> th' = th * 2"
      by (metis mult_pos_pos zero_less_numeral)
    with True less.prems show ?thesis
      by (subst mq_overload_loop.simps) (auto split: if_splits)
  qed
qed

subsection \<open>Push and pop\<close>

lemma mq_push_rep:
  assumes "mq_rep q ms"
  shows "\<exists>q'. mq_push m q = Some q' \<and> mq_rep q' (ms @ [m]) \<and> mq_in_global q' = mq_in_global q
            \<and> mq_next q' = mq_next q \<and> mq_release q' = mq_release q \<and> mq_handle q' = mq_handle q
            \<and> mq_cap q' = (if Suc (length ms) = mq_cap q then 2 * mq_cap q else mq_cap q)"
proof -
  let ?cap = "mq_cap q" and ?h = "mq_head q" and ?t = "mq_tail q"
  let ?buf = "(mq_queue q)[?t := Some m]" and ?t' = "ring_next ?cap ?t"
  let ?q1 = "q\<lparr>mq_queue := ?buf, mq_tail := ?t'\<rparr>"
  note wf = assms[unfolded mq_rep_def] and len = mq_rep_length_ring[OF assms]
  have push: "mq_push m q = Some (if ?h = ?t' then expand_queue ?q1 else ?q1)"
    using wf by (simp add: mq_push_def ring_next_def Let_def)
  have lt: "length ms < ?cap"
    using wf len ring_len_less by metis
  have t: "(?h + length ms) mod length (mq_queue q) = ?t"
    using wf len ring_tail by metis
  have snoc: "ring_list ?buf ?h (Suc (length ms)) = map Some (ms @ [m])"
    using ring_list_snoc[of "length ms" "mq_queue q" ?h "Some m"] lt wf t len by simp
  show ?thesis
  proof (cases "?h = ?t'")
    case False
    have "ring_len ?cap ?h ?t' = Suc (length ms)"
      using ring_len_push[of ?h ?cap ?t] wf len False by auto
    moreover have "?t' < ?cap"
      using wf ring_next_less by blast
    ultimately have "mq_rep ?q1 (ms @ [m])"
      using wf snoc by (simp add: mq_rep_def)
    moreover have "Suc (length ms) \<noteq> ?cap"
      using \<open>ring_len ?cap ?h ?t' = _\<close> \<open>?t' < ?cap\<close> wf ring_len_less by (metis less_irrefl)
    ultimately show ?thesis using push False by simp
  next
    case True
    have full: "Suc (length ms) = ?cap"
      using ring_len_full[of ?h ?cap ?t] wf len True by metis
    have "ring_list (map (\<lambda>i. ?buf ! ((?h + i) mod ?cap)) [0..<?cap] @ replicate ?cap None) 0 ?cap
        = ring_list ?buf ?h ?cap"
      using wf by (intro ring_list_copy) auto
    then have "mq_rep (expand_queue ?q1) (ms @ [m])"
      using wf snoc full by (simp add: mq_rep_def expand_queue_def ring_len_def Let_def)
    then show ?thesis
      using push True full by (simp add: expand_queue_def Let_def)
  qed
qed

lemma mq_pop_empty:
  assumes "mq_rep q []"
  shows "mq_pop q = Some (q\<lparr>mq_overload_threshold := MQ_OVERLOAD, mq_in_global := 0\<rparr>, None)"
    and "mq_rep (q\<lparr>mq_overload_threshold := MQ_OVERLOAD, mq_in_global := 0\<rparr>) []"
  using assms mq_rep_length_ring[OF assms] ring_len_eq_0[of "mq_head q" "mq_cap q" "mq_tail q"]
  by (auto simp: mq_pop_def mq_rep_def cdefs)

lemma mq_pop_cons:
  assumes "mq_rep q (m # ms)"
  shows "\<exists>q'. mq_pop q = Some (q', Some m) \<and> mq_rep q' ms \<and> mq_in_global q' = mq_in_global q
            \<and> mq_next q' = mq_next q \<and> mq_release q' = mq_release q \<and> mq_handle q' = mq_handle q
            \<and> int (length ms) \<le> mq_overload_threshold q'
            \<and> mq_overload q' = (if int (length ms) > mq_overload_threshold q
                                then int (length ms) else mq_overload q)"
proof -
  let ?cap = "mq_cap q" and ?h = "mq_head q" and ?t = "mq_tail q"
  let ?h' = "ring_next ?cap ?h" and ?n = "int (length ms)"
  note wf = assms[unfolded mq_rep_def] and len = mq_rep_length_ring[OF assms]
  have ne: "?h \<noteq> ?t" using len by (auto simp: ring_len_def)
  have h': "?h' < ?cap" using wf ring_next_less by blast
  have len': "ring_len ?cap ?h' ?t = length ms"
    using ring_len_pop[of ?h ?cap ?t] wf len ne by auto
  then have n: "(if int ?t - int ?h' < 0 then int ?t - int ?h' + int ?cap else int ?t - int ?h') = ?n"
    using h' wf by (auto simp: ring_len_def split: if_splits)
  have "mq_queue q ! ?h # ring_list (mq_queue q) ?h' (length ms) = map Some (m # ms)"
    using ring_list_Cons[of ?h "mq_queue q" "length ms"] wf len by simp
  then have hd: "mq_queue q ! ?h = Some m" and tl: "ring_list (mq_queue q) ?h' (length ms) = map Some ms"
    by auto
  from wf obtain ov th where loop: "mq_overload_loop ?n (mq_overload q) (mq_overload_threshold q) = Some (ov, th)"
      "?n \<le> th" "mq_overload_threshold q \<le> th"
      "if ?n > mq_overload_threshold q then ov = ?n \<and> th < 2 * ?n
       else ov = mq_overload q \<and> th = mq_overload_threshold q"
    using mq_overload_loop_result by blast
  let ?q' = "q\<lparr>mq_head := ?h', mq_overload := ov, mq_overload_threshold := th\<rparr>"
  have "mq_pop q = Some (?q', Some m)"
    unfolding mq_pop_def Let_def ring_next_def[symmetric] n
    using wf ne hd loop(1) by simp
  moreover have "mq_rep ?q' ms"
    using wf h' len' tl loop(3) by (simp add: mq_rep_def)
  ultimately show ?thesis using loop by (auto split: if_splits)
qed

interpretation mq: fifo mq_rep "\<lambda>_ _. True" mq_push mq_pop
proof
  fix q :: "'a message_queue" and ms m
  assume "mq_rep q ms"
  then show "\<exists>q'. mq_push m q = Some q' \<and> mq_rep q' (ms @ [m])"
    using mq_push_rep by blast
next
  fix q :: "'a message_queue"
  assume "mq_rep q []"
  then show "\<exists>q'. mq_pop q = Some (q', None) \<and> mq_rep q' []"
    using mq_pop_empty by blast
next
  fix q :: "'a message_queue" and m ms
  assume "mq_rep q (m # ms)"
  then show "\<exists>q'. mq_pop q = Some (q', Some m) \<and> mq_rep q' ms"
    using mq_pop_cons by blast
qed

section \<open>The global queue is a first-in first-out queue of distinct service queues\<close>

primrec mq_chain :: "(addr \<rightharpoonup> 'd message_queue) \<Rightarrow> addr option \<Rightarrow> addr list \<Rightarrow> bool" where
  "mq_chain H p [] \<longleftrightarrow> p = None"
| "mq_chain H p (a # as) \<longleftrightarrow>
     p = Some a \<and> (case H a of None \<Rightarrow> False | Some q \<Rightarrow> mq_chain H (mq_next q) as)"

text \<open>\<open>gq_rep s as\<close>: following \<open>next\<close> from the head visits exactly \<open>as\<close>, without repetition, up
  to the tail, and a queue outside the list has a null \<open>next\<close>.\<close>

definition gq_rep :: "('d, 'z) mqs_scheme \<Rightarrow> addr list \<Rightarrow> bool" where
  [inv_defs]: "gq_rep s as \<longleftrightarrow>
     mq_chain (mq_heap s) (gq_head s) as \<and> distinct as
     \<and> gq_tail s = (if as = [] then None else Some (last as))
     \<and> (\<forall>a q. mq_heap s a = Some q \<longrightarrow> a \<notin> set as \<longrightarrow> mq_next q = None)"

text \<open>The heap with the links of the global queue erased: what operations on the global queue
  leave unchanged.\<close>

definition mq_contents :: "('d, 'z) mqs_scheme \<Rightarrow> addr \<rightharpoonup> 'd message_queue" where
  "mq_contents s = (\<lambda>a. map_option (mq_next_update (\<lambda>_. None)) (mq_heap s a))"

lemma mq_chain_upd_other: "t \<notin> set as \<Longrightarrow> mq_chain (H(t := x)) p as = mq_chain H p as"
  by (induction as arbitrary: p) (auto split: option.splits)

lemma mq_chain_dom: "mq_chain H p as \<Longrightarrow> a \<in> set as \<Longrightarrow> \<exists>q. H a = Some q"
  by (induction as arbitrary: p) (auto split: option.splits)

lemma mq_chain_next_last:
  "mq_chain H p as \<Longrightarrow> a \<in> set as \<Longrightarrow> distinct as \<Longrightarrow> H a = Some q
    \<Longrightarrow> mq_next q = None \<longleftrightarrow> a = last as"
proof (induction as arbitrary: p)
  case (Cons b bs)
  then show ?case by (cases bs) (auto split: option.splits)
qed simp

lemma mq_chain_snoc:
  assumes "mq_chain H p (as @ [t])" "distinct (as @ [t])" "H t = Some tq" "a \<notin> set (as @ [t])"
    and "H a = Some q" "mq_next q = None"
  shows "mq_chain (H(t \<mapsto> tq\<lparr>mq_next := Some a\<rparr>)) p (as @ [t, a])"
  using assms
proof (induction as arbitrary: p)
  case (Cons b bs)
  then show ?case by (auto split: option.splits)
qed auto

lemma gq_rep_contents_push:
  assumes rep: "gq_rep s as" and a: "mq_heap s a = Some q" and fresh: "a \<notin> set as"
  shows "\<exists>s'. skynet_globalmq_push a s = Some s' \<and> gq_rep s' (as @ [a])
            \<and> mq_contents s' = mq_contents s \<and> mq_fresh s' = mq_fresh s \<and> mqs.more s' = mqs.more s"
proof (cases as rule: rev_cases)
  case Nil
  have "mq_next q = None" using rep a fresh by (auto simp: gq_rep_def)
  with Nil rep a show ?thesis
    by (auto simp: skynet_globalmq_push_def gq_rep_def mq_contents_def)
next
  case (snoc bs t)
  have nq: "mq_next q = None" using rep a fresh by (auto simp: gq_rep_def)
  from rep snoc obtain tq where tq: "mq_heap s t = Some tq"
    using mq_chain_dom by (fastforce simp: gq_rep_def)
  let ?H = "(mq_heap s)(t \<mapsto> tq\<lparr>mq_next := Some a\<rparr>)"
  let ?s' = "s\<lparr>mq_heap := ?H, gq_tail := Some a\<rparr>"
  have "mq_chain ?H (gq_head s) (bs @ [t, a])"
    using rep snoc tq fresh a nq by (intro mq_chain_snoc) (auto simp: gq_rep_def)
  then have "gq_rep ?s' (as @ [a])"
    using rep snoc fresh by (auto simp: gq_rep_def)
  moreover have "mq_contents ?s' = mq_contents s"
    using tq by (auto simp: mq_contents_def)
  moreover have "skynet_globalmq_push a s = Some ?s'"
    using rep snoc a nq tq by (simp add: skynet_globalmq_push_def gq_rep_def)
  ultimately show ?thesis by simp
qed

lemma gq_pop_Nil: "gq_rep s [] \<Longrightarrow> skynet_globalmq_pop s = Some (s, None)"
  by (simp add: skynet_globalmq_pop_def gq_rep_def)

lemma gq_rep_contents_pop:
  assumes rep: "gq_rep s (a # as)"
  shows "\<exists>s'. skynet_globalmq_pop s = Some (s', Some a) \<and> gq_rep s' as
            \<and> mq_contents s' = mq_contents s \<and> mq_fresh s' = mq_fresh s \<and> mqs.more s' = mqs.more s"
proof -
  from rep obtain q where q: "mq_heap s a = Some q" "mq_chain (mq_heap s) (mq_next q) as"
    by (auto simp: gq_rep_def split: option.splits)
  let ?H = "(mq_heap s)(a \<mapsto> q\<lparr>mq_next := None\<rparr>)"
  let ?s' = "s\<lparr>gq_head := mq_next q, gq_tail := (if mq_next q = None then None else gq_tail s),
               mq_heap := ?H\<rparr>"
  have nn: "mq_next q = None \<longleftrightarrow> as = []"
    using q(2) by (cases as) (auto)
  have "skynet_globalmq_pop s = Some (?s', Some a)"
    using rep q nn by (auto simp: skynet_globalmq_pop_def gq_rep_def Let_def)
  moreover have "gq_rep ?s' as"
    using rep q nn by (auto simp: gq_rep_def mq_chain_upd_other)
  moreover have "mq_contents ?s' = mq_contents s"
    using q by (auto simp: mq_contents_def)
  ultimately show ?thesis by simp
qed

text \<open>The condition under which a queue may be pushed: it exists and is not linked, as the
  \<open>assert\<close> of the code and its tail pointer say.\<close>

definition gq_ok :: "('d, 'z) mqs_scheme \<Rightarrow> addr \<Rightarrow> bool" where
  "gq_ok s a \<longleftrightarrow> gq_tail s \<noteq> Some a
     \<and> (case mq_heap s a of None \<Rightarrow> False | Some q \<Rightarrow> mq_next q = None)"

lemma gq_ok_iff: "gq_rep s as \<Longrightarrow> gq_ok s a \<longleftrightarrow> a \<notin> set as \<and> mq_heap s a \<noteq> None"
  using mq_chain_next_last[of "mq_heap s" "gq_head s" as a]
  by (auto simp: gq_ok_def gq_rep_def split: option.splits if_splits)

interpretation gq: fifo gq_rep gq_ok skynet_globalmq_push skynet_globalmq_pop
proof
  fix s :: "('a, 'b) mqs_scheme" and as a
  assume "gq_rep s as" "gq_ok s a"
  then show "\<exists>s'. skynet_globalmq_push a s = Some s' \<and> gq_rep s' (as @ [a])"
    using gq_rep_contents_push[of s as a] by (auto simp: gq_ok_iff)
next
  fix s :: "('a, 'b) mqs_scheme"
  assume "gq_rep s []"
  then show "\<exists>s'. skynet_globalmq_pop s = Some (s', None) \<and> gq_rep s' []"
    by (simp add: gq_pop_Nil)
next
  fix s :: "('a, 'b) mqs_scheme" and a as
  assume "gq_rep s (a # as)"
  then show "\<exists>s'. skynet_globalmq_pop s = Some (s', Some a) \<and> gq_rep s' as"
    using gq_rep_contents_pop by blast
qed

lemma gq_rep_heap_upd:
  "gq_rep s as \<Longrightarrow> mq_heap s a = Some q \<Longrightarrow> mq_next q' = mq_next q
    \<Longrightarrow> gq_rep (s\<lparr>mq_heap := (mq_heap s)(a \<mapsto> q')\<rparr>) as"
proof -
  assume rep: "gq_rep s as" and a: "mq_heap s a = Some q" and nx: "mq_next q' = mq_next q"
  have "mq_chain ((mq_heap s)(a \<mapsto> q')) p bs = mq_chain (mq_heap s) p bs" for p bs
    using a nx by (induction bs arbitrary: p) (auto split: option.splits)
  with rep a nx show ?thesis by (auto simp: gq_rep_def)
qed

lemma gq_rep_init: "(\<forall>a q. mq_heap s a = Some q \<longrightarrow> mq_next q = None) \<Longrightarrow> gq_rep (skynet_mq_init s) []"
  by (simp add: gq_rep_def skynet_mq_init_def)

section \<open>Operations on the heap of queues\<close>

text \<open>What an operation on the queue at \<open>a\<close> leaves unchanged: every other queue up to its link,
  the allocator, and the rest of the node state.\<close>

definition mq_frame :: "addr \<Rightarrow> ('d, 'z) mqs_scheme \<Rightarrow> ('d, 'z) mqs_scheme \<Rightarrow> bool" where
  "mq_frame a s s' \<longleftrightarrow> (\<forall>b. b \<noteq> a \<longrightarrow> mq_contents s' b = mq_contents s b)
     \<and> mq_fresh s' = mq_fresh s \<and> mqs.more s' = mqs.more s"

lemma mq_frame_refl [simp]: "mq_frame a s s"
  by (simp add: mq_frame_def)

lemma mq_contents_upd:
  "mq_contents (s\<lparr>mq_heap := (mq_heap s)(a \<mapsto> q)\<rparr>) = (mq_contents s)(a \<mapsto> q\<lparr>mq_next := None\<rparr>)"
  by (auto simp: mq_contents_def)

lemma mq_contents_Some:
  "mq_contents s a = Some q \<longleftrightarrow> (\<exists>q0. mq_heap s a = Some q0 \<and> q = q0\<lparr>mq_next := None\<rparr>)"
  by (auto simp: mq_contents_def)

lemma mq_frame_upd [simp]: "mq_frame a s (s\<lparr>mq_heap := (mq_heap s)(a \<mapsto> q)\<rparr>)"
  by (simp add: mq_frame_def mq_contents_upd)

text \<open>A push puts the message at the end and, on a queue that is not scheduled, schedules it.\<close>

lemma skynet_mq_push_spec:
  assumes gq: "gq_rep s gs" and q: "mq_heap s a = Some q" and rep: "mq_rep q ms"
    and out: "mq_in_global q = 0 \<Longrightarrow> a \<notin> set gs"
  shows "\<exists>s' q'. skynet_mq_push a m s = Some s' \<and> mq_heap s' a = Some q' \<and> mq_rep q' (ms @ [m])
           \<and> mq_in_global q' = (if mq_in_global q = 0 then 1 else mq_in_global q)
           \<and> mq_release q' = mq_release q \<and> mq_handle q' = mq_handle q
           \<and> gq_rep s' (if mq_in_global q = 0 then gs @ [a] else gs) \<and> mq_frame a s s'"
proof -
  from mq_push_rep[OF rep, of m] obtain q1 where q1: "mq_push m q = Some q1" "mq_rep q1 (ms @ [m])"
      "mq_in_global q1 = mq_in_global q" "mq_next q1 = mq_next q" "mq_release q1 = mq_release q"
      "mq_handle q1 = mq_handle q"
    by blast
  show ?thesis
  proof (cases "mq_in_global q = 0")
    case False
    with q q1 gq show ?thesis
      by (auto simp: skynet_mq_push_def intro: gq_rep_heap_upd)
  next
    case True
    let ?q2 = "q1\<lparr>mq_in_global := 1\<rparr>" and ?s1 = "s\<lparr>mq_heap := (mq_heap s)(a \<mapsto> q1\<lparr>mq_in_global := 1\<rparr>)\<rparr>"
    have "gq_rep ?s1 gs" using gq q q1 by (intro gq_rep_heap_upd) auto
    from gq_rep_contents_push[OF this, of a ?q2] out True obtain s' where
      s': "skynet_globalmq_push a ?s1 = Some s'" "gq_rep s' (gs @ [a])"
        "mq_contents s' = mq_contents ?s1" "mq_fresh s' = mq_fresh s" "mqs.more s' = mqs.more s"
      by auto
    then have "mq_contents s' a = Some (?q2\<lparr>mq_next := None\<rparr>)"
      by (simp add: mq_contents_upd)
    then obtain q' where "mq_heap s' a = Some q'" "q'\<lparr>mq_next := None\<rparr> = ?q2\<lparr>mq_next := None\<rparr>"
      by (auto simp: mq_contents_Some)
    moreover from this(2) q1 have "mq_rep q' (ms @ [m])" "mq_in_global q' = 1"
        "mq_release q' = mq_release q" "mq_handle q' = mq_handle q"
      by (metis mq_rep_frame(1,2), (metis message_queue.select_convs message_queue.surjective
           message_queue.update_convs)+)
    ultimately show ?thesis
      using q q1 s' True by (auto simp: skynet_mq_push_def cdefs mq_frame_def mq_contents_upd)
  qed
qed

lemma skynet_mq_pop_Cons:
  assumes "mq_heap s a = Some q" "mq_rep q (m # ms)"
  shows "\<exists>s' q'. skynet_mq_pop a s = Some (s', Some m) \<and> s' = s\<lparr>mq_heap := (mq_heap s)(a \<mapsto> q')\<rparr>
           \<and> mq_rep q' ms \<and> mq_in_global q' = mq_in_global q \<and> mq_release q' = mq_release q
           \<and> mq_handle q' = mq_handle q \<and> mq_next q' = mq_next q"
  using mq_pop_cons[OF assms(2)] assms(1) by (auto simp: skynet_mq_pop_def)

lemma skynet_mq_pop_Nil:
  assumes "mq_heap s a = Some q" "mq_rep q []"
  shows "\<exists>s' q'. skynet_mq_pop a s = Some (s', None) \<and> s' = s\<lparr>mq_heap := (mq_heap s)(a \<mapsto> q')\<rparr>
           \<and> mq_rep q' [] \<and> mq_in_global q' = 0 \<and> mq_release q' = mq_release q
           \<and> mq_handle q' = mq_handle q \<and> mq_next q' = mq_next q"
  using mq_pop_empty[OF assms(2)] assms(1) by (auto simp: skynet_mq_pop_def)

lemma skynet_mq_mark_release_spec:
  assumes gq: "gq_rep s gs" and q: "mq_heap s a = Some q" and r: "mq_release q = 0"
    and out: "mq_in_global q \<noteq> 1 \<Longrightarrow> a \<notin> set gs"
  shows "\<exists>s' q'. skynet_mq_mark_release a s = Some s' \<and> mq_heap s' a = Some q'
           \<and> q'\<lparr>mq_next := None\<rparr> = q\<lparr>mq_release := 1, mq_next := None\<rparr>
           \<and> gq_rep s' (if mq_in_global q \<noteq> 1 then gs @ [a] else gs) \<and> mq_frame a s s'"
proof -
  let ?q1 = "q\<lparr>mq_release := 1\<rparr>"
  let ?s1 = "s\<lparr>mq_heap := (mq_heap s)(a \<mapsto> ?q1)\<rparr>"
  have gq1: "gq_rep ?s1 gs" using gq q by (intro gq_rep_heap_upd) auto
  show ?thesis
  proof (cases "mq_in_global q = 1")
    case True
    with q r gq1 show ?thesis by (auto simp: skynet_mq_mark_release_def cdefs)
  next
    case False
    with gq_rep_contents_push[OF gq1, of a ?q1] out obtain s' where
      s': "skynet_globalmq_push a ?s1 = Some s'" "gq_rep s' (gs @ [a])"
        "mq_contents s' = mq_contents ?s1" "mq_fresh s' = mq_fresh s" "mqs.more s' = mqs.more s"
      by auto
    then have "mq_contents s' a = Some (?q1\<lparr>mq_next := None\<rparr>)"
      by (simp add: mq_contents_upd)
    then obtain q' where "mq_heap s' a = Some q'" "q'\<lparr>mq_next := None\<rparr> = ?q1\<lparr>mq_next := None\<rparr>"
      by (auto simp: mq_contents_Some)
    with s' q r False show ?thesis
      by (auto simp: skynet_mq_mark_release_def cdefs mq_frame_def mq_contents_upd)
  qed
qed

section \<open>Properties\<close>

text \<open>A message for the concrete instances.\<close>

definition demo_msg :: "nat skynet_message" where
  "demo_msg = \<lparr>msg_source = 2, msg_session = 7, msg_data = 42, msg_sz = 8\<rparr>"


text \<open>C4: a service queue started by \<open>skynet_mq_create\<close> behaves, on every sequence of pushes and
  pops, exactly as a first-in first-out list: no message is lost, duplicated or reordered by the
  circular array or by its growth, no array access is out of range, and pop reports emptiness
  exactly when the list is empty.\<close>

theorem mq_refines_fifo:
  "\<exists>q'. impl_run mq_push mq_pop ops (mq_new h) = Some (q', snd (spec_run ops []))
      \<and> mq_rep q' (fst (spec_run ops []))"
  by (rule mq.run_refines) (simp_all add: mq_rep_new)

text \<open>The array grows exactly when a push would fill it (its capacity doubles), so one cell
  always stays free and a full queue is never taken for an empty one.\<close>

lemma mq_push_growth:
  assumes "mq_rep q ms" and "mq_push m q = Some q'"
  shows "mq_cap q' = (if Suc (length ms) = mq_cap q then 2 * mq_cap q else mq_cap q)
       \<and> length (ms @ [m]) < mq_cap q'"
proof -
  from mq_push_rep[OF assms(1), of m] assms(2) have q': "mq_rep q' (ms @ [m])"
      "mq_cap q' = (if Suc (length ms) = mq_cap q then 2 * mq_cap q else mq_cap q)"
    by auto
  have "length (ms @ [m]) < mq_cap q'"
    using q'(1) ring_len_less mq_rep_length_ring[OF q'(1)] unfolding mq_rep_def by metis
  with q' show ?thesis by simp
qed

lemma mq_push_growth_witness:
  "\<exists>q'. mq_push demo_msg (mq_new 1) = Some q' \<and> mq_cap q' = 64 \<and> Suc 0 < mq_cap q'"
proof -
  obtain q' where q': "mq_push demo_msg (mq_new 1) = Some q'"
    using mq_push_rep[OF mq_rep_new] by blast
  show ?thesis
    using mq_push_growth[OF mq_rep_new q'] q' by (simp add: mq_new_def cdefs)
qed

text \<open>The overload warning. A pop that leaves \<open>n\<close> messages behind reports \<open>n\<close> as overload
  exactly when \<open>n\<close> exceeds the threshold, and then raises the threshold to at least \<open>n\<close> but below
  twice \<open>n\<close>, so the next report needs the queue to grow; a pop on an empty queue resets it.\<close>

lemma mq_pop_overload:
  assumes "mq_rep q (m # ms)" and "mq_pop q = Some (q', r)"
  shows "int (length ms) \<le> mq_overload_threshold q'
    \<and> (if int (length ms) > mq_overload_threshold q
       then mq_overload q' = int (length ms) \<and> mq_overload_threshold q' < 2 * int (length ms)
       else mq_overload q' = mq_overload q \<and> mq_overload_threshold q' = mq_overload_threshold q)"
proof -
  have th: "0 < mq_overload_threshold q" using assms(1) by (simp add: mq_rep_def)
  have ne: "mq_head q \<noteq> mq_tail q"
    using mq_rep_length_ring[OF assms(1)] by (auto simp: ring_len_def)
  have n: "(if int (mq_tail q) - int (ring_next (mq_cap q) (mq_head q)) < 0
      then int (mq_tail q) - int (ring_next (mq_cap q) (mq_head q)) + int (mq_cap q)
      else int (mq_tail q) - int (ring_next (mq_cap q) (mq_head q))) = int (length ms)"
    using mq_rep_length_ring[OF assms(1)] ring_len_pop[of "mq_head q" "mq_cap q" "mq_tail q"] ne assms(1)
      ring_next_less[of "mq_head q" "mq_cap q"]
    by (auto simp: mq_rep_def ring_len_def split: if_splits)
  show ?thesis
    using assms(2) ne mq_overload_loop_result[OF th, of "int (length ms)" "mq_overload q"]
    unfolding mq_pop_def Let_def ring_next_def[symmetric] n
    by (auto split: bind_splits if_splits)
qed

lemma mq_pop_overload_witness:
  "\<exists>q q' r. mq_push demo_msg (mq_new 1) = Some q \<and> mq_rep q [demo_msg] \<and> mq_pop q = Some (q', r)
      \<and> 0 \<le> mq_overload_threshold q'"
proof -
  obtain q where q: "mq_push demo_msg (mq_new 1) = Some q" "mq_rep q [demo_msg]"
    using mq_push_rep[OF mq_rep_new, of demo_msg 1] by auto
  obtain q' r where q': "mq_pop q = Some (q', r)"
    using mq.deq_returns[OF q(2)] by blast
  show ?thesis
    using mq_pop_overload[OF q(2) q'] q q' by auto
qed

lemma drop_queue_returns:
  assumes "mq_heap s a = Some q" "mq_rep q ms" "mq_next q = None"
    and drop: "\<And>m s. mq_heap s a \<noteq> None
          \<Longrightarrow> \<exists>s'. drop_func m s = Some s' \<and> mq_heap s' a = mq_heap s a"
  shows "\<exists>s'. drop_queue a drop_func s = Some s' \<and> mq_heap s' a = None"
  using assms(1-3)
proof (induction ms arbitrary: s q)
  case Nil
  from skynet_mq_pop_Nil[OF Nil(1,2)] Nil(3) show ?case
    by (subst drop_queue.simps) (auto simp: mq_free_def)
next
  case (Cons m ms)
  from skynet_mq_pop_Cons[OF Cons.prems(1,2)] obtain q' where
    q': "skynet_mq_pop a s = Some (s\<lparr>mq_heap := (mq_heap s)(a \<mapsto> q')\<rparr>, Some m)" "mq_rep q' ms"
      "mq_next q' = mq_next q"
    by auto
  from drop[of "s\<lparr>mq_heap := (mq_heap s)(a \<mapsto> q')\<rparr>" m] obtain s2 where
    s2: "drop_func m (s\<lparr>mq_heap := (mq_heap s)(a \<mapsto> q')\<rparr>) = Some s2" "mq_heap s2 a = Some q'"
    by auto
  with Cons.IH[of s2 q'] Cons.prems(3) q' show ?case
    by (subst drop_queue.simps) auto
qed

text \<open>C5: \<open>_drop_queue\<close> on a queue that is being released ends, hands every remaining message to
  the drop callback once and in order, and frees the queue.  The callback that is observed here
  records its argument in the rest of the state.\<close>

theorem drop_queue_order:
  assumes "mq_heap s a = Some q" "mq_rep q ms" "mq_next q = None"
  shows "\<exists>s'. drop_queue a (\<lambda>m s. Some (s\<lparr>mqs.more := mqs.more s @ [m]\<rparr>)) s = Some s'
            \<and> mqs.more s' = mqs.more s @ ms \<and> mq_heap s' a = None"
  using assms
proof (induction ms arbitrary: s q)
  case Nil
  from skynet_mq_pop_Nil[OF Nil(1,2)] Nil(3) show ?case
    by (subst drop_queue.simps) (auto simp: mq_free_def)
next
  case (Cons m ms)
  from skynet_mq_pop_Cons[OF Cons.prems(1,2)] obtain q' where
    q': "skynet_mq_pop a s = Some (s\<lparr>mq_heap := (mq_heap s)(a \<mapsto> q')\<rparr>, Some m)" "mq_rep q' ms"
      "mq_next q' = mq_next q"
    by auto
  with Cons.IH[of "s\<lparr>mq_heap := (mq_heap s)(a \<mapsto> q'), mqs.more := mqs.more s @ [m]\<rparr>" q'] Cons.prems(3)
  show ?case by (subst drop_queue.simps) auto
qed

theorem drop_queue_order_witness:
  "\<exists>q s'. mq_push demo_msg (mq_new 1) = Some q
     \<and> drop_queue 0 (\<lambda>m s. Some (s\<lparr>mqs.more := mqs.more s @ [m]\<rparr>))
         \<lparr>mq_heap = [0 \<mapsto> q], mq_fresh = 1, gq_head = None, gq_tail = None, \<dots> = []\<rparr> = Some s'
     \<and> mqs.more s' = [demo_msg] \<and> mq_heap s' 0 = None"
proof -
  obtain q where q: "mq_push demo_msg (mq_new 1) = Some q" "mq_rep q [demo_msg]" "mq_next q = None"
    using mq_push_rep[OF mq_rep_new, of demo_msg 1] by (auto simp: mq_new_def)
  let ?s = "\<lparr>mq_heap = [0 \<mapsto> q], mq_fresh = 1, gq_head = None, gq_tail = None, \<dots> = []\<rparr>"
  have "mq_heap ?s 0 = Some q" by simp
  from drop_queue_order[OF this q(2,3)] q(1) show ?thesis by auto
qed

end
