(* ===== verification/Dispatch.thy ===== *)
theory Dispatch
  imports Mq
begin

text \<open>
  The scheduling protocol of the service queues: several threads run the critical sections of
  \<open>skynet_context_message_dispatch\<close>, \<open>skynet_context_new\<close>, \<open>skynet_context_push\<close> and
  \<open>delete_context\<close> (\<open>skynet_server.c\<close>) in any order.  A thread holds a queue from the moment it
  takes it out of the global queue (or creates it) until it puts it back, finds it empty or frees
  it.  The step relation has one rule per critical section; the invariant shows that a queue is
  never held twice and never lost.
\<close>

record 'd sched =
  sys :: "'d mqs"
  held :: "nat \<Rightarrow> addr list"

definition release_held :: "nat \<Rightarrow> addr \<Rightarrow> (nat \<Rightarrow> addr list) \<Rightarrow> nat \<Rightarrow> addr list" where
  "release_held w a h = h(w := remove1 a (h w))"

definition acquire_held :: "nat \<Rightarrow> addr \<Rightarrow> (nat \<Rightarrow> addr list) \<Rightarrow> nat \<Rightarrow> addr list" where
  "acquire_held w a h = h(w := a # h w)"

text \<open>
  The rules, with the code they stand for.
  \<^item> \<open>create\<close>: \<open>skynet_mq_create\<close> in \<open>skynet_context_new\<close>; the new queue is held by its creator.
  \<^item> \<open>put\<close>: \<open>skynet_globalmq_push\<close>, at the end of \<open>skynet_context_new\<close>, at the end of a
    dispatch round, and in \<open>skynet_mq_release\<close> of a queue not yet marked.
  \<^item> \<open>take\<close>: \<open>skynet_globalmq_pop\<close>.
  \<^item> \<open>push\<close>: \<open>skynet_mq_push\<close> by a thread that owns a reference of the service, so that its queue
    is not marked for release.
  \<^item> \<open>pop_msg\<close>, \<open>pop_empty\<close>: \<open>skynet_mq_pop\<close> by the holder; on an empty queue the dispatch
    round gives the queue up.
  \<^item> \<open>mark\<close>: \<open>skynet_mq_mark_release\<close> in \<open>delete_context\<close>.
  \<^item> \<open>free\<close>: the last iteration of \<open>_drop_queue\<close>, by the holder of a marked queue.
\<close>

inductive sched_step :: "'d sched \<Rightarrow> 'd sched \<Rightarrow> bool" where
  create: "skynet_mq_create h (sys S) = (s', a)
    \<Longrightarrow> sched_step S (S\<lparr>sys := s', held := acquire_held w a (held S)\<rparr>)"
| put: "a \<in> set (held S w) \<Longrightarrow> skynet_globalmq_push a (sys S) = Some s'
    \<Longrightarrow> sched_step S (S\<lparr>sys := s', held := release_held w a (held S)\<rparr>)"
| take: "skynet_globalmq_pop (sys S) = Some (s', Some a)
    \<Longrightarrow> sched_step S (S\<lparr>sys := s', held := acquire_held w a (held S)\<rparr>)"
| push: "mq_heap (sys S) a = Some q \<Longrightarrow> mq_release q = 0 \<Longrightarrow> skynet_mq_push a m (sys S) = Some s'
    \<Longrightarrow> sched_step S (S\<lparr>sys := s'\<rparr>)"
| pop_msg: "a \<in> set (held S w) \<Longrightarrow> skynet_mq_pop a (sys S) = Some (s', Some m)
    \<Longrightarrow> sched_step S (S\<lparr>sys := s'\<rparr>)"
| pop_empty: "a \<in> set (held S w) \<Longrightarrow> mq_heap (sys S) a = Some q \<Longrightarrow> mq_release q = 0
    \<Longrightarrow> skynet_mq_pop a (sys S) = Some (s', None)
    \<Longrightarrow> sched_step S (S\<lparr>sys := s', held := release_held w a (held S)\<rparr>)"
| mark: "mq_heap (sys S) a = Some q \<Longrightarrow> mq_release q = 0 \<Longrightarrow> skynet_mq_mark_release a (sys S) = Some s'
    \<Longrightarrow> sched_step S (S\<lparr>sys := s'\<rparr>)"
| free: "a \<in> set (held S w) \<Longrightarrow> mq_heap (sys S) a = Some q \<Longrightarrow> mq_release q \<noteq> 0
    \<Longrightarrow> skynet_mq_pop a (sys S) = Some (s1, None) \<Longrightarrow> mq_free a s1 = Some s'
    \<Longrightarrow> sched_step S (S\<lparr>sys := s', held := release_held w a (held S)\<rparr>)"

definition sched_init :: "'d sched" where
  "sched_init = \<lparr>sys = \<lparr>mq_heap = Map.empty, mq_fresh = 0, gq_head = None, gq_tail = None\<rparr>,
                 held = (\<lambda>_. [])\<rparr>"

inductive sched_reachable :: "'d sched \<Rightarrow> bool" where
  init: "sched_reachable sched_init"
| step: "sched_reachable S \<Longrightarrow> sched_step S T \<Longrightarrow> sched_reachable T"

section \<open>The invariant\<close>

text \<open>\<open>queue_ok q b\<close>: the queue is well formed, and \<open>b\<close> (whether it is in the global queue or
  held) agrees with its flags; a queue that is not scheduled is empty.\<close>

definition queue_ok :: "'d message_queue \<Rightarrow> bool \<Rightarrow> bool" where
  "queue_ok q b \<longleftrightarrow> (\<exists>ms. mq_rep q ms \<and> mq_in_global q \<in> {0, 1} \<and> mq_release q \<in> {0, 1}
     \<and> (b \<longleftrightarrow> mq_in_global q = 1 \<or> mq_release q = 1)
     \<and> (mq_in_global q = 0 \<longrightarrow> mq_release q = 0 \<longrightarrow> ms = []))"

definition owned :: "addr list \<Rightarrow> (nat \<Rightarrow> addr list) \<Rightarrow> addr set" where
  "owned gs h = set gs \<union> (\<Union>w. set (h w))"

definition exclusive :: "addr list \<Rightarrow> (nat \<Rightarrow> addr list) \<Rightarrow> bool" where
  "exclusive gs h \<longleftrightarrow> (\<forall>w. distinct (h w) \<and> set (h w) \<inter> set gs = {})
     \<and> (\<forall>w v. w \<noteq> v \<longrightarrow> set (h w) \<inter> set (h v) = {})"

definition sched_inv :: "'d sched \<Rightarrow> addr list \<Rightarrow> bool" where
  "sched_inv S gs \<longleftrightarrow> gq_rep (sys S) gs \<and> exclusive gs (held S)
     \<and> owned gs (held S) \<subseteq> dom (mq_contents (sys S))
     \<and> (\<forall>a \<in> dom (mq_contents (sys S)). a < mq_fresh (sys S))
     \<and> (\<forall>a q. mq_contents (sys S) a = Some q \<longrightarrow> queue_ok q (a \<in> owned gs (held S)))"

lemma queue_ok_next [simp]: "queue_ok (q\<lparr>mq_next := x\<rparr>) b = queue_ok q b"
  by (simp add: queue_ok_def)

lemma owned_acquire: "owned gs (acquire_held w a h) = insert a (owned gs h)"
  by (auto simp: owned_def acquire_held_def split: if_splits)

lemma owned_snoc: "owned (gs @ [a]) h = insert a (owned gs h)"
  by (auto simp: owned_def)

lemma owned_Cons: "owned (a # gs) h = insert a (owned gs h)"
  by (auto simp: owned_def)

lemma owned_heldI: "a \<in> set (h w) \<Longrightarrow> a \<in> owned gs h"
  by (auto simp: owned_def)

lemma owned_release:
  "exclusive gs h \<Longrightarrow> a \<in> set (h w) \<Longrightarrow> owned gs (release_held w a h) = owned gs h - {a}"
  unfolding owned_def exclusive_def release_held_def
  by (auto split: if_splits) (metis disjoint_iff)+

lemma exclusive_acquire:
  "exclusive gs h \<Longrightarrow> a \<notin> owned gs h \<Longrightarrow> exclusive gs (acquire_held w a h)"
  by (auto simp: owned_def exclusive_def acquire_held_def)

lemma exclusive_release: "exclusive gs h \<Longrightarrow> exclusive gs (release_held w a h)"
  unfolding exclusive_def release_held_def using notin_set_remove1 set_remove1_subset
  by (auto simp: disjoint_iff)

lemma exclusive_put: "exclusive gs h \<Longrightarrow> a \<notin> owned gs h \<Longrightarrow> exclusive (gs @ [a]) h"
  by (auto simp: owned_def exclusive_def)

lemma exclusive_tl: "exclusive (a # gs) h \<Longrightarrow> exclusive gs h"
  by (auto simp: exclusive_def)

lemma exclusive_hd: "exclusive (a # gs) h \<Longrightarrow> distinct (a # gs) \<Longrightarrow> a \<notin> owned gs h"
  by (auto simp: owned_def exclusive_def)

lemmas own_simps = owned_acquire owned_snoc owned_Cons owned_release
lemmas excl_intros = exclusive_acquire exclusive_release exclusive_put

text \<open>The frame rule of the invariant: an operation on the queue at \<open>a\<close> only has to say what
  happens to \<open>a\<close>.\<close>

lemma sched_inv_frame:
  assumes inv: "sched_inv S gs" and fr: "mq_frame a (sys S) s'"
    and gq: "gq_rep s' gs'" and ex: "exclusive gs' h'"
    and own: "owned gs' h' - {a} = owned gs (held S) - {a}"
    and a: "mq_contents s' a = Some (q'\<lparr>mq_next := None\<rparr>)" "queue_ok q' (a \<in> owned gs' h')"
    and old: "mq_contents (sys S) a \<noteq> None"
  shows "sched_inv (S\<lparr>sys := s', held := h'\<rparr>) gs'"
proof -
  have eq: "b \<noteq> a \<Longrightarrow> mq_contents s' b = mq_contents (sys S) b" for b
    using fr by (simp add: mq_frame_def)
  have own': "b \<noteq> a \<Longrightarrow> b \<in> owned gs' h' \<longleftrightarrow> b \<in> owned gs (held S)" for b
    using own by blast
  have dom: "dom (mq_contents s') = dom (mq_contents (sys S))"
    using eq a(1) old by (auto simp: dom_def) (metis option.distinct(1))+
  have "owned gs' h' \<subseteq> dom (mq_contents s')"
    using inv own' a(1) dom unfolding sched_inv_def by (metis domI subsetD subsetI)
  moreover have "queue_ok q (b \<in> owned gs' h')" if "mq_contents s' b = Some q" for b q
    using that inv eq own' a unfolding sched_inv_def by (cases "b = a") auto
  ultimately show ?thesis
    using inv gq ex dom fr by (simp add: sched_inv_def mq_frame_def)
qed

section \<open>Every step keeps the invariant\<close>

lemma sched_inv_queue:
  assumes "sched_inv S gs" "mq_heap (sys S) a = Some q"
  shows "queue_ok q (a \<in> owned gs (held S))" "mq_contents (sys S) a = Some (q\<lparr>mq_next := None\<rparr>)"
    "a < mq_fresh (sys S)"
proof -
  show c: "mq_contents (sys S) a = Some (q\<lparr>mq_next := None\<rparr>)"
    using assms(2) by (simp add: mq_contents_def)
  with assms(1) show "a < mq_fresh (sys S)" by (auto simp: sched_inv_def)
  from assms(1) c have "queue_ok (q\<lparr>mq_next := None\<rparr>) (a \<in> owned gs (held S))"
    unfolding sched_inv_def by blast
  then show "queue_ok q (a \<in> owned gs (held S))" by simp
qed

lemma sched_inv_owned:
  assumes "sched_inv S gs" "a \<in> owned gs (held S)"
  obtains q where "mq_heap (sys S) a = Some q" "queue_ok q True"
proof -
  from assms obtain q0 where "mq_contents (sys S) a = Some q0"
    unfolding sched_inv_def by blast
  then obtain q where q: "mq_heap (sys S) a = Some q" by (auto simp: mq_contents_Some)
  with sched_inv_queue(1)[OF assms(1) this] assms(2) that show thesis by simp
qed

lemma mq_contents_heap: "mq_contents s a = Some q0 \<Longrightarrow> mq_contents s' = mq_contents s
    \<Longrightarrow> \<exists>q. mq_heap s' a = Some q \<and> q\<lparr>mq_next := None\<rparr> = q0"
  by (metis mq_contents_Some)

lemma sched_inv_init: "sched_inv sched_init []"
  by (simp add: sched_inv_def sched_init_def gq_rep_def exclusive_def owned_def mq_contents_def)

lemma queue_ok_new: "queue_ok (mq_new h) True"
  using mq_rep_new by (auto simp: queue_ok_def mq_new_def cdefs)

lemma step_create:
  assumes inv: "sched_inv S gs" and c: "skynet_mq_create h (sys S) = (s', a)"
  shows "sched_inv (S\<lparr>sys := s', held := acquire_held w a (held S)\<rparr>) gs"
proof -
  let ?s = "sys S"
  from c have a: "a = mq_fresh ?s"
    and s': "s' = ?s\<lparr>mq_heap := (mq_heap ?s)(a \<mapsto> mq_new h), mq_fresh := Suc (mq_fresh ?s)\<rparr>"
    by (auto simp: skynet_mq_create_def)
  have fresh: "mq_contents ?s a = None"
    using inv a unfolding sched_inv_def by (metis domIff less_irrefl)
  then have hp: "mq_heap ?s a = None" by (simp add: mq_contents_def)
  have no: "a \<notin> owned gs (held S)"
    using inv fresh unfolding sched_inv_def by auto
  then have "a \<notin> set gs" by (simp add: owned_def)
  with inv hp have gq: "gq_rep s' gs"
    by (auto simp: sched_inv_def gq_rep_def s' mq_chain_upd_other mq_new_def)
  have co: "mq_contents s' = (mq_contents ?s)(a \<mapsto> mq_new h)"
    by (auto simp: s' mq_contents_def mq_new_def)
  show ?thesis
    using inv gq no co a queue_ok_new[of h]
    by (auto simp: sched_inv_def owned_acquire exclusive_acquire s' less_Suc_eq)
qed

lemma step_put:
  assumes inv: "sched_inv S gs" and w: "a \<in> set (held S w)"
    and p: "skynet_globalmq_push a (sys S) = Some s'"
  shows "sched_inv (S\<lparr>sys := s', held := release_held w a (held S)\<rparr>) (gs @ [a])"
proof -
  have ex: "exclusive gs (held S)" and gq: "gq_rep (sys S) gs" using inv by (auto simp: sched_inv_def)
  from inv w obtain q where q: "mq_heap (sys S) a = Some q" "queue_ok q True"
    by (metis sched_inv_owned owned_heldI)
  have "a \<notin> set gs" using ex w by (auto simp: exclusive_def)
  with gq_rep_contents_push[OF gq q(1)] p have s': "gq_rep s' (gs @ [a])"
      "mq_contents s' = mq_contents (sys S)" "mq_frame a (sys S) s'"
    by (auto simp: mq_frame_def)
  have "exclusive (gs @ [a]) (release_held w a (held S))"
    using ex w by (intro excl_intros) (auto simp: owned_release)
  moreover have "owned (gs @ [a]) (release_held w a (held S)) = owned gs (held S)"
    using ex w by (auto simp: own_simps owned_heldI)
  moreover have "a \<in> owned gs (held S)" using w by (rule owned_heldI)
  ultimately show ?thesis
    using q s' sched_inv_queue(2)[OF inv q(1)]
    by (intro sched_inv_frame[OF inv s'(3,1)]) auto
qed

lemma step_take:
  assumes inv: "sched_inv S gs" and p: "skynet_globalmq_pop (sys S) = Some (s', Some a)"
  shows "\<exists>gs'. gs = a # gs' \<and> sched_inv (S\<lparr>sys := s', held := acquire_held w a (held S)\<rparr>) gs'"
proof -
  have gq: "gq_rep (sys S) gs" using inv by (simp add: sched_inv_def)
  with p obtain gs' where gs: "gs = a # gs'"
    using gq.deq_exec[OF gq p] by (cases gs) auto
  from gq_rep_contents_pop[of "sys S" a gs'] gq gs p have s': "gq_rep s' gs'"
      "mq_contents s' = mq_contents (sys S)" "mq_frame a (sys S) s'"
    by (auto simp: mq_frame_def)
  have ex: "exclusive (a # gs') (held S)" and di: "distinct (a # gs')"
    using inv gs by (auto simp: sched_inv_def gq_rep_def)
  from inv gs obtain q where q: "mq_heap (sys S) a = Some q" "queue_ok q True"
    by (metis sched_inv_owned owned_Cons insertI1)
  have "exclusive gs' (acquire_held w a (held S))"
    using exclusive_tl[OF ex] exclusive_hd[OF ex di] by (rule exclusive_acquire)
  moreover have "owned gs' (acquire_held w a (held S)) = owned gs (held S)"
    by (simp add: own_simps gs)
  ultimately have "sched_inv (S\<lparr>sys := s', held := acquire_held w a (held S)\<rparr>) gs'"
    using q s' sched_inv_queue(2)[OF inv q(1)]
    by (intro sched_inv_frame[OF inv s'(3,1)]) (auto simp: gs owned_Cons)
  with gs show ?thesis by blast
qed

lemma mq_contents_of_heap: "mq_heap s a = Some q \<Longrightarrow> mq_contents s a = Some (q\<lparr>mq_next := None\<rparr>)"
  by (simp add: mq_contents_def)

lemma step_push:
  assumes inv: "sched_inv S gs" and q: "mq_heap (sys S) a = Some q" "mq_release q = 0"
    and p: "skynet_mq_push a m (sys S) = Some s'"
  shows "\<exists>gs'. sched_inv (S\<lparr>sys := s'\<rparr>) gs'"
proof -
  note ok = sched_inv_queue[OF inv q(1)]
  then obtain ms where ms: "mq_rep q ms" by (auto simp: queue_ok_def)
  let ?gs = "if mq_in_global q = 0 then gs @ [a] else gs"
  have no: "mq_in_global q = 0 \<Longrightarrow> a \<notin> owned gs (held S)"
    using ok(1) q(2) by (auto simp: queue_ok_def)
  then have "mq_in_global q = 0 \<Longrightarrow> a \<notin> set gs" by (simp add: owned_def)
  with skynet_mq_push_spec[of "sys S" gs a q ms m] inv q ms p obtain q' where
    s': "mq_heap s' a = Some q'" "mq_rep q' (ms @ [m])"
      "mq_in_global q' = (if mq_in_global q = 0 then 1 else mq_in_global q)"
      "mq_release q' = 0" "gq_rep s' ?gs" "mq_frame a (sys S) s'"
    by (auto simp: sched_inv_def)
  have "exclusive ?gs (held S)"
    using inv no by (auto simp: sched_inv_def intro: exclusive_put)
  moreover have "queue_ok q' (a \<in> owned ?gs (held S))"
    using ok(1) s' q(2) by (auto simp: queue_ok_def owned_snoc)
  ultimately have "sched_inv (S\<lparr>sys := s', held := held S\<rparr>) ?gs"
    using s' ok by (intro sched_inv_frame[OF inv s'(6,5), where q' = q'])
      (auto simp: owned_snoc mq_contents_of_heap)
  then show ?thesis by auto
qed

lemma step_pop_msg:
  assumes inv: "sched_inv S gs" and w: "a \<in> set (held S w)"
    and p: "skynet_mq_pop a (sys S) = Some (s', Some m)"
  shows "sched_inv (S\<lparr>sys := s'\<rparr>) gs"
proof -
  from inv w obtain q where q: "mq_heap (sys S) a = Some q" "queue_ok q True"
    by (metis sched_inv_owned owned_heldI)
  then obtain ms where ms: "mq_rep q ms" by (auto simp: queue_ok_def)
  obtain m' ms' where cons: "ms = m' # ms'"
    using p skynet_mq_pop_Nil[OF q(1)] ms by (cases ms) auto
  with skynet_mq_pop_Cons[OF q(1), of m' ms'] ms p obtain q' where
    s': "s' = sys S\<lparr>mq_heap := (mq_heap (sys S))(a \<mapsto> q')\<rparr>" "mq_rep q' ms'"
      "mq_in_global q' = mq_in_global q" "mq_release q' = mq_release q" "mq_next q' = mq_next q"
    by auto
  have "queue_ok q' True"
    using q(2) s' by (auto simp: queue_ok_def)
  moreover have "gq_rep s' gs"
    using inv q(1) s' by (auto simp: sched_inv_def intro: gq_rep_heap_upd)
  ultimately have "sched_inv (S\<lparr>sys := s', held := held S\<rparr>) gs"
    using s' w inv sched_inv_queue(2)[OF inv q(1)]
    by (intro sched_inv_frame[OF inv, where q' = q'])
      (auto simp: mq_contents_of_heap owned_heldI sched_inv_def)
  then show ?thesis by simp
qed

lemma step_pop_empty:
  assumes inv: "sched_inv S gs" and w: "a \<in> set (held S w)"
    and q: "mq_heap (sys S) a = Some q" "mq_release q = 0"
    and p: "skynet_mq_pop a (sys S) = Some (s', None)"
  shows "sched_inv (S\<lparr>sys := s', held := release_held w a (held S)\<rparr>) gs"
proof -
  note ok = sched_inv_queue[OF inv q(1)]
  have ex: "exclusive gs (held S)" using inv by (simp add: sched_inv_def)
  from ok obtain ms where ms: "mq_rep q ms" by (auto simp: queue_ok_def)
  have nil: "ms = []"
    using p skynet_mq_pop_Cons[OF q(1)] ms by (cases ms) auto
  with skynet_mq_pop_Nil[OF q(1)] ms p obtain q' where
    s': "s' = sys S\<lparr>mq_heap := (mq_heap (sys S))(a \<mapsto> q')\<rparr>" "mq_rep q' []"
      "mq_in_global q' = 0" "mq_release q' = mq_release q" "mq_next q' = mq_next q"
    by auto
  have "queue_ok q' (a \<in> owned gs (release_held w a (held S)))"
    using s' q(2) ex w by (auto simp: queue_ok_def owned_release)
  moreover have "gq_rep s' gs"
    using inv q(1) s' by (auto simp: sched_inv_def intro: gq_rep_heap_upd)
  ultimately show ?thesis
    using s' w ex ok(2)
    by (intro sched_inv_frame[OF inv, where q' = q'])
      (auto simp: mq_contents_of_heap owned_release exclusive_release)
qed

lemma step_mark:
  assumes inv: "sched_inv S gs" and q: "mq_heap (sys S) a = Some q" "mq_release q = 0"
    and p: "skynet_mq_mark_release a (sys S) = Some s'"
  shows "\<exists>gs'. sched_inv (S\<lparr>sys := s'\<rparr>) gs'"
proof -
  note ok = sched_inv_queue[OF inv q(1)]
  let ?gs = "if mq_in_global q \<noteq> 1 then gs @ [a] else gs"
  have no: "mq_in_global q \<noteq> 1 \<Longrightarrow> a \<notin> owned gs (held S)"
    using ok(1) q(2) by (auto simp: queue_ok_def)
  then have "mq_in_global q \<noteq> 1 \<Longrightarrow> a \<notin> set gs" by (simp add: owned_def)
  with skynet_mq_mark_release_spec[of "sys S" gs a q] inv q p obtain q' where
    s': "mq_heap s' a = Some q'" "q'\<lparr>mq_next := None\<rparr> = q\<lparr>mq_release := 1, mq_next := None\<rparr>"
      "gq_rep s' ?gs" "mq_frame a (sys S) s'"
    by (auto simp: sched_inv_def)
  have "queue_ok (q'\<lparr>mq_next := None\<rparr>) (a \<in> owned ?gs (held S))"
    unfolding s'(2) using ok(1) q(2) by (auto simp: queue_ok_def owned_snoc)
  moreover have "exclusive ?gs (held S)"
    using inv no by (auto simp: sched_inv_def intro: exclusive_put)
  ultimately have "sched_inv (S\<lparr>sys := s', held := held S\<rparr>) ?gs"
    using s'(1,3,4) ok by (intro sched_inv_frame[OF inv s'(4,3), where q' = q'])
      (auto simp: owned_snoc mq_contents_of_heap)
  then show ?thesis by auto
qed

lemma step_free:
  assumes inv: "sched_inv S gs" and w: "a \<in> set (held S w)" and q: "mq_heap (sys S) a = Some q"
    and p: "skynet_mq_pop a (sys S) = Some (s1, None)" and f: "mq_free a s1 = Some s'"
  shows "sched_inv (S\<lparr>sys := s', held := release_held w a (held S)\<rparr>) gs"
proof -
  have ex: "exclusive gs (held S)" and gq: "gq_rep (sys S) gs" using inv by (auto simp: sched_inv_def)
  then have na: "a \<notin> set gs" using w by (auto simp: exclusive_def)
  from p q have s1: "\<exists>q'. s1 = sys S\<lparr>mq_heap := (mq_heap (sys S))(a \<mapsto> q')\<rparr>"
    by (auto simp: skynet_mq_pop_def split: bind_splits)
  with f have s': "s' = sys S\<lparr>mq_heap := (mq_heap (sys S))(a := None)\<rparr>"
    by (auto simp: mq_free_def split: bind_splits)
  then have co: "mq_contents s' = (mq_contents (sys S))(a := None)"
    by (auto simp: mq_contents_def)
  have "gq_rep s' gs"
    using gq na s' by (auto simp: gq_rep_def mq_chain_upd_other)
  then show ?thesis
    using inv ex w co s'
    by (auto simp: sched_inv_def owned_release exclusive_release)
qed

theorem sched_step_inv: "sched_step S T \<Longrightarrow> sched_inv S gs \<Longrightarrow> \<exists>gs'. sched_inv T gs'"
  by (induction rule: sched_step.induct)
    (auto dest: step_create step_put step_take step_push step_pop_msg step_pop_empty step_mark step_free)

lemma sched_reachable_inv: "sched_reachable S \<Longrightarrow> \<exists>gs. sched_inv S gs"
  by (induction rule: sched_reachable.induct) (auto intro: sched_inv_init dest: sched_step_inv)

section \<open>What the protocol guarantees\<close>

text \<open>C1: in every reachable state of the scheduling protocol, whatever the interleaving of the
  threads' critical sections, no service queue is held by two threads: a service never runs its
  callback in two worker threads at once.\<close>

theorem dispatch_mutual_exclusion:
  assumes "sched_reachable S" and "a \<in> set (held S w)" and "a \<in> set (held S v)"
  shows "w = v"
  using sched_reachable_inv[OF assms(1)] assms(2,3)
  unfolding sched_inv_def exclusive_def by blast

text \<open>C2: no wake-up is lost: in every reachable state a service queue that holds a message, or that
  is marked for release, is in the global queue or held by a thread, so some worker will come to
  it.\<close>

theorem dispatch_no_lost_queue:
  assumes "sched_reachable S" and "mq_heap (sys S) a = Some q"
    and "mq_length q \<noteq> 0 \<or> mq_release q \<noteq> 0"
  shows "\<exists>gs. gq_rep (sys S) gs \<and> (a \<in> set gs \<or> (\<exists>w. a \<in> set (held S w)))"
proof -
  from sched_reachable_inv[OF assms(1)] obtain gs where inv: "sched_inv S gs" by blast
  note ok = sched_inv_queue(1)[OF inv assms(2)]
  have "a \<in> owned gs (held S)"
    using ok assms(3) by (auto simp: queue_ok_def mq_length_rep)
  with inv show ?thesis by (auto simp: sched_inv_def owned_def)
qed

lemma reachable_mq_pop_returns:
  assumes inv: "sched_inv S gs" and w: "a \<in> set (held S w)"
  shows "\<exists>r. skynet_mq_pop a (sys S) = Some r"
proof -
  from inv w obtain q where q: "mq_heap (sys S) a = Some q" "queue_ok q True"
    by (metis sched_inv_owned owned_heldI)
  then obtain ms where "mq_rep q ms" by (auto simp: queue_ok_def)
  with q(1) mq.deq_returns[of q ms] show ?thesis by (auto simp: skynet_mq_pop_def)
qed

lemma reachable_globalmq_push_returns:
  assumes inv: "sched_inv S gs" and w: "a \<in> set (held S w)"
  shows "\<exists>s'. skynet_globalmq_push a (sys S) = Some s'"
proof -
  have gq: "gq_rep (sys S) gs" and ex: "exclusive gs (held S)"
    using inv by (auto simp: sched_inv_def)
  from inv w obtain q where q: "mq_heap (sys S) a = Some q"
    by (metis sched_inv_owned owned_heldI)
  have "a \<notin> set gs" using ex w by (auto simp: exclusive_def)
  with gq.enq[OF gq, of a] gq_ok_iff[OF gq, of a] q show ?thesis by auto
qed

lemma reachable_mq_push_returns:
  assumes inv: "sched_inv S gs" and q: "mq_heap (sys S) a = Some q" "mq_release q = 0"
  shows "\<exists>s'. skynet_mq_push a m (sys S) = Some s'"
    and "\<exists>s'. skynet_mq_mark_release a (sys S) = Some s'"
proof -
  note ok = sched_inv_queue(1)[OF inv q(1)]
  then obtain ms where ms: "mq_rep q ms" by (auto simp: queue_ok_def)
  have out: "mq_in_global q \<noteq> 1 \<Longrightarrow> a \<notin> set gs"
    using ok q(2) by (auto simp: queue_ok_def owned_def)
  have gq: "gq_rep (sys S) gs" using inv by (simp add: sched_inv_def)
  from skynet_mq_push_spec[OF gq q(1) ms] out show "\<exists>s'. skynet_mq_push a m (sys S) = Some s'"
    by auto
  from skynet_mq_mark_release_spec[OF gq q(1,2)] out
  show "\<exists>s'. skynet_mq_mark_release a (sys S) = Some s'" by auto
qed

text \<open>C3: no operation of the protocol aborts in a reachable state: the assertions of
  \<open>skynet_globalmq_push\<close> and \<open>skynet_globalmq_pop\<close> hold, no array index is out of range, no
  uninitialised message is read and the threshold loop ends, for the holder of a queue and for
  every sender to a queue that is not marked for release.\<close>

theorem dispatch_no_abort:
  assumes "sched_reachable S"
  shows "(\<exists>r. skynet_globalmq_pop (sys S) = Some r)
    \<and> (\<forall>a w. a \<in> set (held S w) \<longrightarrow> (\<exists>r. skynet_mq_pop a (sys S) = Some r)
                \<and> (\<exists>s'. skynet_globalmq_push a (sys S) = Some s'))
    \<and> (\<forall>a q m. mq_heap (sys S) a = Some q \<and> mq_release q = 0
          \<longrightarrow> (\<exists>s'. skynet_mq_push a m (sys S) = Some s')
            \<and> (\<exists>s'. skynet_mq_mark_release a (sys S) = Some s'))"
proof -
  from sched_reachable_inv[OF assms] obtain gs where inv: "sched_inv S gs" by blast
  then have "\<exists>r. skynet_globalmq_pop (sys S) = Some r"
    using gq.deq_returns[of "sys S" gs] by (auto simp: sched_inv_def)
  then show ?thesis
    using reachable_mq_pop_returns[OF inv] reachable_globalmq_push_returns[OF inv]
      reachable_mq_push_returns[OF inv] by blast
qed

section \<open>A concrete run\<close>

text \<open>Thread 3 creates the queue of service 1, and another thread sends it a message.\<close>

definition sched_demo :: "nat sched" where
  "sched_demo =
     \<lparr>sys = the (skynet_mq_push 0 demo_msg (fst (skynet_mq_create 1 (sys sched_init)))),
      held = (\<lambda>_. [])(3 := [0])\<rparr>"

definition demo_queue :: "nat message_queue" where
  "demo_queue = (mq_new 1)\<lparr>mq_queue := Some demo_msg # replicate 63 None, mq_tail := 1\<rparr>"

lemma demo_push:
  "skynet_mq_push 0 demo_msg (fst (skynet_mq_create 1 (sys sched_init)))
    = Some \<lparr>mq_heap = [0 \<mapsto> demo_queue], mq_fresh = 1, gq_head = None, gq_tail = None\<rparr>"
  by (simp add: skynet_mq_push_def skynet_mq_create_def sched_init_def mq_push_def mq_new_def
      demo_queue_def cdefs arr_set_def numeral_eq_Suc)

lemma demo_heap: "mq_heap (sys sched_demo) 0 = Some demo_queue"
  by (simp add: sched_demo_def demo_push)

lemma demo_held: "held sched_demo 3 = [0]"
  by (simp add: sched_demo_def)

lemma demo_length: "mq_length demo_queue = 1"
  by (simp add: demo_queue_def mq_length_def mq_new_def)

lemma demo_reachable: "sched_reachable sched_demo"
proof -
  let ?S1 = "sched_init\<lparr>sys := fst (skynet_mq_create 1 (sys sched_init)),
                        held := acquire_held 3 0 (held (sched_init :: nat sched))\<rparr>"
  let ?s1 = "fst (skynet_mq_create 1 (sys (sched_init :: nat sched)))"
  have "sched_step (sched_init :: nat sched) ?S1"
    by (rule sched_step.create[of 1]) (simp add: skynet_mq_create_def sched_init_def)
  moreover have "sched_step ?S1 (?S1\<lparr>sys := sys sched_demo\<rparr>)"
    by (rule sched_step.push[of _ 0 "mq_new 1" demo_msg])
      (simp_all add: sched_demo_def demo_push,
       simp_all add: skynet_mq_create_def sched_init_def mq_new_def)
  moreover have "?S1\<lparr>sys := sys sched_demo\<rparr> = sched_demo"
    by (simp add: sched_demo_def sched_init_def acquire_held_def)
  ultimately show ?thesis
    by (metis sched_reachable.intros)
qed

theorem dispatch_mutual_exclusion_witness:
  "sched_reachable sched_demo \<and> 0 \<in> set (held sched_demo 3)
    \<and> \<not> (\<exists>v. v \<noteq> 3 \<and> 0 \<in> set (held sched_demo v))"
  using dispatch_mutual_exclusion[OF demo_reachable, of 0 3] demo_reachable demo_held by auto

theorem dispatch_no_lost_queue_witness:
  "\<exists>gs. gq_rep (sys sched_demo) gs \<and> (0 \<in> set gs \<or> (\<exists>w. 0 \<in> set (held sched_demo w)))"
  using dispatch_no_lost_queue[OF demo_reachable demo_heap] demo_length by simp

theorem dispatch_no_abort_witness:
  "sched_reachable sched_demo \<and> (\<exists>r. skynet_mq_pop 0 (sys sched_demo) = Some r)"
proof -
  have "0 \<in> set (held sched_demo 3)" by (simp add: demo_held)
  with dispatch_no_abort[OF demo_reachable] demo_reachable show ?thesis by blast
qed

end
