(* ===== verification/Handle.thy ===== *)
theory Handle
  imports Prelude "HOL-Library.Char_ord" "HOL-Library.List_Lexorder"
begin

text \<open>
  The handle storage of \<open>skynet-src/skynet_handle.c\<close>: an open hash table from 32-bit service
  handles to contexts whose size is a power of two, and an array of service names sorted by
  \<open>strcmp\<close>.  A context is an address; \<open>ho\<close> is the reading of the field \<open>handle\<close> of a context
  (\<open>skynet_context_handle\<close>), which belongs to the server.
\<close>

section \<open>State\<close>

definition HANDLE_MASK :: u32 where "HANDLE_MASK = 0xffffff"
definition HANDLE_REMOTE_SHIFT :: nat where "HANDLE_REMOTE_SHIFT = 24"
definition DEFAULT_SLOT_SIZE :: nat where [cdefs]: "DEFAULT_SLOT_SIZE = 4"
definition MAX_SLOT_SIZE :: nat where "MAX_SLOT_SIZE = 0x40000000"

record handle_name =
  hn_name :: string
  hn_handle :: u32

record handle_storage =
  hs_harbor :: u32
  hs_handle_index :: u32
  hs_slot_size :: nat
  hs_slot :: "addr option list"
  hs_name_cap :: nat
  hs_name_count :: nat
  hs_name :: "handle_name option list"

section \<open>Operations on the slots\<close>

definition slot_hash :: "nat \<Rightarrow> u32 \<Rightarrow> nat" where
  "slot_hash n handle = unat (handle AND of_nat (n - 1))"

text \<open>The inner loop of \<open>skynet_handle_register\<close>: the first handle, from \<open>handle_index\<close> on, whose
  slot is free.\<close>

fun register_scan :: "handle_storage \<Rightarrow> nat list \<Rightarrow> u32 option" where
  "register_scan s [] = None"
| "register_scan s (i # is) =
     (let handle = (of_nat i + hs_handle_index s) AND HANDLE_MASK
      in if hs_slot s ! slot_hash (hs_slot_size s) handle = None then Some handle
         else register_scan s is)"

text \<open>The loop that moves the contexts to a table of \<open>n\<close> slots.\<close>

fun rehash :: "(addr \<Rightarrow> u32) \<Rightarrow> nat \<Rightarrow> addr option list \<Rightarrow> addr option list \<Rightarrow> addr option list option" where
  "rehash ho n [] new_slot = Some new_slot"
| "rehash ho n (p # ps) new_slot = do {
     ctx \<leftarrow> p;
     let hash = slot_hash n (ho ctx);
     c_assert (hash < length new_slot \<and> new_slot ! hash = None);
     rehash ho n ps (new_slot[hash := Some ctx]) }"

partial_function (option) skynet_handle_register ::
    "(addr \<Rightarrow> u32) \<Rightarrow> addr \<Rightarrow> handle_storage \<Rightarrow> (handle_storage \<times> u32) option" where
  "skynet_handle_register ho ctx s =
     (case register_scan s [0..<hs_slot_size s] of
        Some handle \<Rightarrow>
          Some (s\<lparr>hs_slot := (hs_slot s)[slot_hash (hs_slot_size s) handle := Some ctx],
                  hs_handle_index := handle + 1\<rparr>, handle OR hs_harbor s)
      | None \<Rightarrow>
          (if hs_slot_size s * 2 - 1 \<le> unat HANDLE_MASK then
             Option.bind (rehash ho (hs_slot_size s * 2) (hs_slot s) (replicate (hs_slot_size s * 2) None))
               (\<lambda>new_slot. skynet_handle_register ho ctx
                  (s\<lparr>hs_slot := new_slot, hs_slot_size := hs_slot_size s * 2\<rparr>))
           else None))"

text \<open>The lookup of \<open>skynet_handle_grab\<close> and of the critical section of \<open>skynet_handle_retire\<close>.\<close>

definition handle_find :: "(addr \<Rightarrow> u32) \<Rightarrow> handle_storage \<Rightarrow> u32 \<Rightarrow> addr option" where
  "handle_find ho s handle =
     (case hs_slot s ! slot_hash (hs_slot_size s) handle of
        Some ctx \<Rightarrow> if ho ctx = handle then Some ctx else None
      | None \<Rightarrow> None)"

section \<open>Operations on the names\<close>

text \<open>\<open>strcmp\<close>: the sign of the comparison of the bytes, as unsigned characters.\<close>

fun c_strcmp :: "string \<Rightarrow> string \<Rightarrow> int" where
  "c_strcmp [] [] = 0"
| "c_strcmp [] (b # bs) = -1"
| "c_strcmp (a # as) [] = 1"
| "c_strcmp (a # as) (b # bs) =
     (if (of_char a :: nat) < of_char b then -1 else if (of_char b :: nat) < of_char a then 1 else c_strcmp as bs)"

definition arr_geti :: "'a option list \<Rightarrow> int \<Rightarrow> 'a option" where
  "arr_geti xs i = (if 0 \<le> i then arr_get xs (nat i) else None)"

text \<open>The binary search of \<open>skynet_handle_findname\<close> and \<open>_insert_name\<close>: the handle of the name,
  or the place where it would have to be inserted.\<close>

function name_search :: "handle_name option list \<Rightarrow> string \<Rightarrow> int \<Rightarrow> int \<Rightarrow> (int + u32) option" where
  "name_search names name begin end =
     (if begin \<le> end then
        (let mid = (begin + end) div 2
         in case arr_geti names mid of
              None \<Rightarrow> None
            | Some n \<Rightarrow>
                (let c = c_strcmp (hn_name n) name
                 in if c = 0 then Some (Inr (hn_handle n))
                    else if c < 0 then name_search names name (mid + 1) end
                    else name_search names name begin (mid - 1)))
      else Some (Inl begin))"
  by pat_completeness auto
termination
  by (relation "measure (\<lambda>(ns, n, b, e). nat (e + 1 - b))") auto

declare name_search.simps [simp del]

definition skynet_handle_findname :: "handle_storage \<Rightarrow> string \<Rightarrow> u32 option" where
  "skynet_handle_findname s name = do {
     r \<leftarrow> name_search (hs_name s) name 0 (int (hs_name_count s) - 1);
     Some (case r of Inl _ \<Rightarrow> 0 | Inr handle \<Rightarrow> handle) }"

definition insert_name_before ::
    "string \<Rightarrow> u32 \<Rightarrow> nat \<Rightarrow> handle_storage \<Rightarrow> handle_storage option" where
  "insert_name_before name handle before s = do {
     (cap, arr) \<leftarrow>
       (if hs_name_count s \<ge> hs_name_cap s then do {
          let cap = hs_name_cap s * 2;
          c_assert (cap \<le> MAX_SLOT_SIZE);
          let n0 = replicate cap None;
          let n1 = fold (\<lambda>i n. n[i := hs_name s ! i]) [0..<before] n0;
          let n2 = fold (\<lambda>i n. n[i + 1 := hs_name s ! i]) [before..<hs_name_count s] n1;
          Some (cap, n2) }
        else
          Some (hs_name_cap s,
                fold (\<lambda>i a. a[i := a ! (i - 1)]) (rev [Suc before..<Suc (hs_name_count s)]) (hs_name s)));
     arr' \<leftarrow> arr_set arr before (Some \<lparr>hn_name = name, hn_handle = handle\<rparr>);
     Some (s\<lparr>hs_name_cap := cap, hs_name := arr', hs_name_count := hs_name_count s + 1\<rparr>) }"

text \<open>The result is the name that was stored, \<open>None\<close> for a name that is taken.\<close>

definition skynet_handle_namehandle ::
    "u32 \<Rightarrow> string \<Rightarrow> handle_storage \<Rightarrow> (handle_storage \<times> string option) option" where
  "skynet_handle_namehandle handle name s = do {
     r \<leftarrow> name_search (hs_name s) name 0 (int (hs_name_count s) - 1);
     (case r of
        Inr _ \<Rightarrow> Some (s, None)
      | Inl begin \<Rightarrow> do {
          s' \<leftarrow> insert_name_before name handle (nat begin) s;
          Some (s', Some name) }) }"

text \<open>The loop of \<open>skynet_handle_retire\<close> that removes the names of a handle: \<open>i\<close> reads, \<open>j\<close> writes.\<close>

fun retire_names :: "u32 \<Rightarrow> nat list \<Rightarrow> handle_name option list \<Rightarrow> nat \<Rightarrow> (handle_name option list \<times> nat) option" where
  "retire_names handle [] names j = Some (names, j)"
| "retire_names handle (i # is) names j = do {
     n \<leftarrow> arr_get names i;
     if hn_handle n = handle then retire_names handle is names j
     else retire_names handle is (if i \<noteq> j then names[j := Some n] else names) (j + 1) }"

text \<open>The critical section of \<open>skynet_handle_retire\<close>: the context to release, if the handle is
  registered.\<close>

definition handle_retire ::
    "(addr \<Rightarrow> u32) \<Rightarrow> u32 \<Rightarrow> handle_storage \<Rightarrow> (handle_storage \<times> addr option) option" where
  "handle_retire ho handle s =
     (case handle_find ho s handle of
        Some ctx \<Rightarrow> do {
          (names, j) \<leftarrow> retire_names handle [0..<hs_name_count s] (hs_name s) 0;
          Some (s\<lparr>hs_slot := (hs_slot s)[slot_hash (hs_slot_size s) handle := None],
                  hs_name := names, hs_name_count := j\<rparr>, Some ctx) }
      | None \<Rightarrow> Some (s, None))"

definition skynet_handle_init :: "u32 \<Rightarrow> handle_storage" where
  "skynet_handle_init harbor = \<lparr>
     hs_harbor = push_bit HANDLE_REMOTE_SHIFT (harbor AND 0xff),
     hs_handle_index = 1, hs_slot_size = DEFAULT_SLOT_SIZE,
     hs_slot = replicate DEFAULT_SLOT_SIZE None,
     hs_name_cap = 2, hs_name_count = 0, hs_name = replicate 2 None\<rparr>"

section \<open>The slots represent a map from handles to contexts\<close>

lemma unat_take_bit_word: "unat (take_bit k (h :: 'a::len word)) = unat h mod 2 ^ k"
  using unsigned_take_bit_eq[of k h, where ?'a = nat] by (simp only: take_bit_eq_mod[of k "unat h"])

lemma slot_hash_take_bit: "slot_hash (2 ^ k) h = unat (take_bit k h)"
  by (simp add: slot_hash_def take_bit_eq_mask mask_eq_exp_minus_1 of_nat_diff)

lemma slot_hash_mod: "slot_hash (2 ^ k) h = unat h mod 2 ^ k"
  by (simp add: slot_hash_take_bit unat_take_bit_word)

lemma slot_hash_less: "slot_hash (2 ^ k) h < 2 ^ k"
  by (simp add: slot_hash_mod)

lemma HANDLE_MASK_take_bit: "h AND HANDLE_MASK = take_bit 24 h"
  by (simp add: HANDLE_MASK_def take_bit_eq_mask mask_eq_exp_minus_1)

lemma unat_HANDLE_MASK: "unat HANDLE_MASK = 2 ^ 24 - 1"
  by (simp add: HANDLE_MASK_def)

definition hs_wf :: "(addr \<Rightarrow> u32) \<Rightarrow> handle_storage \<Rightarrow> bool" where
  [inv_defs]: "hs_wf ho s \<longleftrightarrow> (\<exists>k \<le> 24. hs_slot_size s = 2 ^ k) \<and> length (hs_slot s) = hs_slot_size s
     \<and> hs_harbor s AND HANDLE_MASK = 0
     \<and> (\<forall>i c. i < hs_slot_size s \<longrightarrow> hs_slot s ! i = Some c
          \<longrightarrow> slot_hash (hs_slot_size s) (ho c) = i \<and> ho c AND NOT HANDLE_MASK = hs_harbor s)"

lemma handle_find_Some:
  "handle_find ho s h = Some c \<longleftrightarrow> hs_slot s ! slot_hash (hs_slot_size s) h = Some c \<and> ho c = h"
  by (auto simp: handle_find_def split: option.splits if_splits)

lemma handle_find_None_free:
  "hs_slot s ! slot_hash (hs_slot_size s) h = None \<Longrightarrow> handle_find ho s h = None"
  by (simp add: handle_find_def)

lemma handle_find_index:
  assumes "hs_wf ho s" "i < hs_slot_size s" "hs_slot s ! i = Some c"
  shows "handle_find ho s (ho c) = Some c"
  using assms by (auto simp: hs_wf_def handle_find_Some)

subsection \<open>Registration\<close>

lemma register_scan_hash:
  assumes "k \<le> 24"
  shows "slot_hash (2 ^ k) ((of_nat i + idx) AND HANDLE_MASK) = (i + unat idx) mod 2 ^ k"
proof -
  have "slot_hash (2 ^ k) ((of_nat i + idx) AND HANDLE_MASK) = unat (take_bit k (of_nat i + idx))"
    using assms by (simp add: slot_hash_take_bit HANDLE_MASK_take_bit min_absorb1)
  also have "\<dots> = (i mod 2 ^ 32 + unat idx) mod 2 ^ 32 mod 2 ^ k"
    by (simp add: unat_take_bit_word unat_word_ariths unat_of_nat)
  also have "\<dots> = (i + unat idx) mod 2 ^ k"
  proof -
    have "(2::nat) ^ k dvd 2 ^ 32" using assms by (intro le_imp_power_dvd) simp
    then show ?thesis by (simp add: mod_mod_cancel mod_add_left_eq)
  qed
  finally show ?thesis .
qed

lemma mod_cover: "j < (n::nat) \<Longrightarrow> \<exists>i < n. (i + m) mod n = j"
proof (rule exI[of _ "(j + (n - m mod n)) mod n"], intro conjI)
  assume j: "j < n"
  then show "(j + (n - m mod n)) mod n < n" by simp
  have "((j + (n - m mod n)) mod n + m) mod n = (j + (n - m mod n) + m mod n) mod n"
    by (metis mod_add_left_eq mod_add_right_eq)
  also have "j + (n - m mod n) + m mod n = j + n"
    using j mod_less_divisor[of n m] by linarith
  finally show "((j + (n - m mod n)) mod n + m) mod n = j"
    using j by simp
qed

lemma mod_cover_ball:
  assumes "0 < n"
  shows "(\<forall>i \<in> set [0..<n]. P ((i + m) mod n)) \<longleftrightarrow> (\<forall>j < n. P j)"
proof (intro iffI allI impI ballI)
  fix j assume "\<forall>i \<in> set [0..<n]. P ((i + m) mod n)" "j < n"
  moreover from mod_cover[OF this(2), of m] obtain i where "i < n" "(i + m) mod n = j" by blast
  ultimately show "P j" by (metis atLeastLessThan_iff atLeastLessThan_upt zero_le)
qed (use assms in auto)

lemma register_scan_Some:
  "register_scan s is = Some h \<Longrightarrow> hs_slot s ! slot_hash (hs_slot_size s) h = None
     \<and> take_bit 24 h = h"
  by (induction "is") (auto simp: Let_def HANDLE_MASK_take_bit split: if_splits)

lemma register_scan_None:
  "register_scan s is = None \<longleftrightarrow>
     (\<forall>i \<in> set is. hs_slot s ! slot_hash (hs_slot_size s) ((of_nat i + hs_handle_index s) AND HANDLE_MASK) \<noteq> None)"
  by (induction "is") (auto simp: Let_def)

lemma register_scan_full:
  assumes "hs_wf ho s"
  shows "register_scan s [0..<hs_slot_size s] = None \<longleftrightarrow> (\<forall>i < hs_slot_size s. hs_slot s ! i \<noteq> None)"
proof -
  from assms obtain k where k: "k \<le> 24" "hs_slot_size s = 2 ^ k" by (auto simp: hs_wf_def)
  from mod_cover_ball[of "2 ^ k" "\<lambda>j. hs_slot s ! j \<noteq> None" "unat (hs_handle_index s)"]
  show ?thesis
    unfolding register_scan_None k(2) register_scan_hash[OF k(1)] by simp
qed

lemma slot_hash_harbor:
  assumes "k \<le> 24" "harbor AND HANDLE_MASK = 0"
  shows "slot_hash (2 ^ k) (h OR harbor) = slot_hash (2 ^ k) h"
proof -
  have "take_bit k harbor = take_bit k (take_bit 24 harbor)"
    using assms(1) by (simp add: min_absorb1)
  also have "take_bit 24 harbor = 0"
    using assms(2) by (simp add: HANDLE_MASK_take_bit)
  finally show ?thesis by (simp add: slot_hash_take_bit take_bit_or)
qed

lemma handle_harbor_part:
  assumes "take_bit 24 h = h" "harbor AND HANDLE_MASK = 0"
  shows "(h OR harbor) AND NOT HANDLE_MASK = harbor"
proof (rule bit_eqI)
  fix n
  have m: "HANDLE_MASK = mask 24"
    by (simp add: HANDLE_MASK_def mask_eq_exp_minus_1)
  have "bit h n \<Longrightarrow> n < 24"
    using assms(1) by (metis bit_take_bit_iff)
  moreover have "n < 24 \<Longrightarrow> \<not> bit harbor n"
    using assms(2) by (metis HANDLE_MASK_take_bit bit_0_eq bit_take_bit_iff bot_apply bot_bool_def)
  moreover have "bit harbor n \<Longrightarrow> n < 32"
    using bit_imp_le_length[of harbor n] by simp
  ultimately show "bit ((h OR harbor) AND NOT HANDLE_MASK) n = bit harbor n"
    by (auto simp: m bit_simps)
qed

text \<open>Putting a context in the free slot of a handle extends the map.\<close>

lemma register_store:
  fixes h :: u32
  assumes wf: "hs_wf ho s" and new: "Some c \<notin> set (hs_slot s)"
    and h: "hs_slot s ! slot_hash (hs_slot_size s) h = None" "take_bit 24 h = h"
    and s': "s' = s\<lparr>hs_slot := (hs_slot s)[slot_hash (hs_slot_size s) h := Some c], hs_handle_index := h + 1\<rparr>"
    and g: "g = h OR hs_harbor s"
  shows "handle_find ho s g = None" "hs_wf (ho(c := g)) s'"
    "handle_find (ho(c := g)) s' = (handle_find ho s)(g \<mapsto> c)"
proof -
  from wf obtain k where k: "k \<le> 24" "hs_slot_size s = 2 ^ k" by (auto simp: hs_wf_def)
  have hb: "hs_harbor s AND HANDLE_MASK = 0" and len: "length (hs_slot s) = 2 ^ k"
    using wf k by (auto simp: hs_wf_def)
  have gh: "slot_hash (2 ^ k) g = slot_hash (2 ^ k) h"
    unfolding g by (rule slot_hash_harbor[OF k(1) hb])
  show free: "handle_find ho s g = None"
    using h(1) gh k by (simp add: handle_find_None_free)
  have old: "j < 2 ^ k \<Longrightarrow> hs_slot s ! j = Some d \<Longrightarrow> d \<noteq> c" for j d
    using new len by (metis nth_mem)
  show "hs_wf (ho(c := g)) s'"
    using wf k gh len old handle_harbor_part[OF h(2) hb] slot_hash_less[of k h]
    by (auto simp: hs_wf_def s' nth_list_update g)
  show "handle_find (ho(c := g)) s' = (handle_find ho s)(g \<mapsto> c)"
  proof
    fix x
    have lt: "slot_hash (2 ^ k) x < 2 ^ k" by (rule slot_hash_less)
    show "handle_find (ho(c := g)) s' x = ((handle_find ho s)(g \<mapsto> c)) x"
      using h(1) gh k len old[OF lt] slot_hash_less[of k h]
      by (auto simp: handle_find_def s' nth_list_update split: option.splits)
  qed
qed

text \<open>Moving the contexts: with distinct target slots that are free, the loop succeeds and the new
  table holds exactly the old contexts in their slots.\<close>

lemma rehash_spec:
  assumes "\<forall>p \<in> set ps. p \<noteq> None"
    and "distinct (map (\<lambda>p. slot_hash n (ho (the p))) ps)"
    and "\<forall>p \<in> set ps. slot_hash n (ho (the p)) < length new \<and> new ! slot_hash n (ho (the p)) = None"
  shows "\<exists>new'. rehash ho n ps new = Some new' \<and> length new' = length new
           \<and> (\<forall>i < length new. \<forall>c. new' ! i = Some c \<longleftrightarrow>
                new ! i = Some c \<or> Some c \<in> set ps \<and> slot_hash n (ho c) = i)"
  using assms
proof (induction ps arbitrary: new)
  case Nil
  then show ?case by simp
next
  case (Cons p ps)
  then obtain d where p: "p = Some d" by auto
  let ?h = "slot_hash n (ho d)" and ?new = "new[slot_hash n (ho d) := Some d]"
  have h: "?h < length new" "new ! ?h = None"
    using Cons.prems(3) p by auto
  have "\<forall>q \<in> set ps. slot_hash n (ho (the q)) \<noteq> ?h"
    using Cons.prems(2) p by (auto simp: image_iff)
  with Cons.prems have "\<exists>new'. rehash ho n ps ?new = Some new' \<and> length new' = length ?new
           \<and> (\<forall>i < length ?new. \<forall>c. new' ! i = Some c \<longleftrightarrow>
                ?new ! i = Some c \<or> Some c \<in> set ps \<and> slot_hash n (ho c) = i)"
    by (intro Cons.IH) auto
  then show ?case
    using h p by (auto simp: nth_list_update)
qed

lemma hs_wf_hashes_distinct:
  assumes wf: "hs_wf ho s" and full: "\<forall>i < hs_slot_size s. hs_slot s ! i \<noteq> None"
    and k: "hs_slot_size s = 2 ^ k"
  shows "distinct (map (\<lambda>p. slot_hash (2 ^ Suc k) (ho (the p))) (hs_slot s))"
proof -
  have len: "length (hs_slot s) = 2 ^ k" using wf k by (simp add: hs_wf_def)
  have pos: "slot_hash (2 ^ k) (ho (the (hs_slot s ! i))) = i" if "i < 2 ^ k" for i
    using wf full k that unfolding hs_wf_def by (metis option.collapse)
  have "slot_hash (2 ^ k) h = slot_hash (2 ^ Suc k) h mod 2 ^ k" for h
    unfolding slot_hash_mod by (metis le_imp_power_dvd lessI less_imp_le mod_mod_cancel)
  then have "i = slot_hash (2 ^ Suc k) (ho (the (hs_slot s ! i))) mod 2 ^ k" if "i < 2 ^ k" for i
    using pos[OF that] by simp
  then have "inj_on (\<lambda>i. slot_hash (2 ^ Suc k) (ho (the (hs_slot s ! i)))) {..<2 ^ k}"
    by (intro inj_onI) (metis lessThan_iff)
  then show ?thesis
    unfolding distinct_conv_nth length_map len inj_on_def by (metis len lessThan_iff nth_map)
qed

text \<open>Growing the table keeps the map and leaves room.\<close>

lemma rehash_grow:
  assumes wf: "hs_wf ho s" and full: "\<forall>i < hs_slot_size s. hs_slot s ! i \<noteq> None"
    and small: "hs_slot_size s < 2 ^ 24"
  shows "\<exists>new. rehash ho (hs_slot_size s * 2) (hs_slot s) (replicate (hs_slot_size s * 2) None) = Some new
     \<and> set (hs_slot s) = set new - {None}
     \<and> hs_wf ho (s\<lparr>hs_slot := new, hs_slot_size := hs_slot_size s * 2\<rparr>)
     \<and> handle_find ho (s\<lparr>hs_slot := new, hs_slot_size := hs_slot_size s * 2\<rparr>) = handle_find ho s
     \<and> (\<exists>i < hs_slot_size s * 2. new ! i = None)"
proof -
  from wf obtain k where k: "k \<le> 24" "hs_slot_size s = 2 ^ k" by (auto simp: hs_wf_def)
  have k': "Suc k \<le> 24" using small k
    by (metis le_neq_implies_less less_eq_Suc_le less_irrefl)
  have sz: "hs_slot_size s * 2 = 2 ^ Suc k" using k by simp
  have len: "length (hs_slot s) = 2 ^ k" using wf k by (simp add: hs_wf_def)
  have all: "\<forall>p \<in> set (hs_slot s). p \<noteq> None" using full len k by (metis in_set_conv_nth)
  let ?r = "replicate (2 ^ Suc k) None :: addr option list"
  have "\<exists>new. rehash ho (2 ^ Suc k) (hs_slot s) ?r = Some new \<and> length new = length ?r
      \<and> (\<forall>i < length ?r. \<forall>c. new ! i = Some c \<longleftrightarrow>
           ?r ! i = Some c \<or> Some c \<in> set (hs_slot s) \<and> slot_hash (2 ^ Suc k) (ho c) = i)"
    using slot_hash_less[of "Suc k"]
    by (intro rehash_spec all hs_wf_hashes_distinct[OF wf full k(2)]) (simp del: power_Suc)
  then obtain new where new: "rehash ho (2 ^ Suc k) (hs_slot s) (replicate (2 ^ Suc k) None) = Some new"
      "length new = 2 ^ Suc k"
      "\<And>i c. i < 2 ^ Suc k \<Longrightarrow> new ! i = Some c \<longleftrightarrow> Some c \<in> set (hs_slot s) \<and> slot_hash (2 ^ Suc k) (ho c) = i"
    by (auto simp del: power_Suc)
  let ?s' = "s\<lparr>hs_slot := new, hs_slot_size := hs_slot_size s * 2\<rparr>"
  have mem: "Some c \<in> set (hs_slot s) \<longleftrightarrow> Some c \<in> set new" for c
    using new(2) new(3) slot_hash_less[of "Suc k"] by (metis in_set_conv_nth)
  then have sets: "set (hs_slot s) = set new - {None}"
    using all by (auto; metis option.exhaust_sel)
  have hb: "Some c \<in> set (hs_slot s) \<Longrightarrow> ho c AND NOT HANDLE_MASK = hs_harbor s
      \<and> hs_slot s ! slot_hash (2 ^ k) (ho c) = Some c" for c
    using wf len k(2) unfolding hs_wf_def by (metis in_set_conv_nth)
  have at: "hs_slot s ! slot_hash (2 ^ k) h = Some c \<Longrightarrow> Some c \<in> set (hs_slot s)" for h c
    using len slot_hash_less[of k h] by (metis nth_mem)
  have wf': "hs_wf ho ?s'"
    using wf k' sz new(2,3) hb by (auto simp: hs_wf_def simp del: power_Suc)
  have "handle_find ho ?s' h = handle_find ho s h" for h
  proof (rule option.expand)
    have find: "handle_find ho ?s' h = Some c \<longleftrightarrow> handle_find ho s h = Some c" for c
      using new(3)[OF slot_hash_less, of h c] hb[of c] at[of h c] k(2) sz
      unfolding handle_find_Some by (auto simp del: power_Suc)
    then show "(handle_find ho ?s' h = None) = (handle_find ho s h = None)"
      by (metis not_None_eq)
    show "the (handle_find ho ?s' h) = the (handle_find ho s h)"
      using find by (metis not_None_eq)
  qed
  moreover have "\<exists>i < 2 ^ Suc k. new ! i = None"
  proof (rule ccontr)
    assume "\<not> ?thesis"
    then have "\<forall>i < 2 ^ Suc k. new ! i \<in> set (hs_slot s) \<and> slot_hash (2 ^ Suc k) (ho (the (new ! i))) = i"
      using new(3) by (metis option.collapse)
    then have "inj_on (\<lambda>i. new ! i) {..<2 ^ Suc k}" "(\<lambda>i. new ! i) ` {..<2 ^ Suc k} \<subseteq> set (hs_slot s)"
      by (auto intro!: inj_onI simp del: power_Suc) (metis)
    then have "card {..<2 ^ Suc k :: nat} \<le> card (set (hs_slot s))"
      by (intro card_inj_on_le) auto
    also have "\<dots> \<le> 2 ^ k" using card_length[of "hs_slot s"] len by simp
    finally show False by simp
  qed
  ultimately show ?thesis
    using new(1) wf' sz sets by (auto simp del: power_Suc)
qed

lemma set_update_None:
  assumes "i < length xs" "xs ! i = None"
  shows "Some x \<in> set (xs[i := Some c]) \<longleftrightarrow> x = c \<or> Some x \<in> set xs"
proof -
  have "set xs = set (take i xs) \<union> {None} \<union> set (drop (Suc i) xs)"
    using id_take_nth_drop[OF assms(1)] assms(2) by (metis Un_insert_right append.simps(1) insert_is_Un
        list.simps(15) set_append sup_bot.right_neutral sup_commute)
  moreover have "set (xs[i := Some c]) = set (take i xs) \<union> {Some c} \<union> set (drop (Suc i) xs)"
    using assms(1) by (simp add: upd_conv_take_nth_drop)
  ultimately show ?thesis by auto
qed

definition registered :: "handle_storage \<Rightarrow> addr set" where
  "registered s = {c. Some c \<in> set (hs_slot s)}"

lemma registered_iff:
  assumes "hs_wf ho s"
  shows "c \<in> registered s \<longleftrightarrow> handle_find ho s (ho c) = Some c"
proof -
  from assms obtain k where k: "hs_slot_size s = 2 ^ k" "length (hs_slot s) = 2 ^ k"
    by (auto simp: hs_wf_def)
  show ?thesis
    using assms k slot_hash_less[of k "ho c"] handle_find_index[OF assms]
    unfolding registered_def handle_find_Some by (auto simp: in_set_conv_nth)
qed

lemma register_room:
  assumes wf: "hs_wf ho s" and new: "c \<notin> registered s" and room: "\<exists>i < hs_slot_size s. hs_slot s ! i = None"
  shows "\<exists>s' h. skynet_handle_register ho c s = Some (s', h) \<and> handle_find ho s h = None
     \<and> hs_wf (ho(c := h)) s' \<and> handle_find (ho(c := h)) s' = (handle_find ho s)(h \<mapsto> c)
     \<and> registered s' = insert c (registered s) \<and> hs_name s' = hs_name s \<and> hs_name_cap s' = hs_name_cap s
     \<and> hs_name_count s' = hs_name_count s \<and> hs_harbor s' = hs_harbor s"
proof -
  from room register_scan_full[OF wf] obtain h where
    h: "register_scan s [0..<hs_slot_size s] = Some h" by fastforce
  from wf obtain k where k: "hs_slot_size s = 2 ^ k" "length (hs_slot s) = 2 ^ k"
    by (auto simp: hs_wf_def)
  let ?i = "slot_hash (hs_slot_size s) h"
  let ?s' = "s\<lparr>hs_slot := (hs_slot s)[?i := Some c], hs_handle_index := h + 1\<rparr>"
  from register_scan_Some[OF h] have free: "hs_slot s ! ?i = None" "take_bit 24 h = h" by auto
  have "registered ?s' = insert c (registered s)"
  proof -
    have "?i < length (hs_slot s)" using k slot_hash_less by simp
    with free show ?thesis by (auto simp: registered_def set_update_None)
  qed
  moreover have "skynet_handle_register ho c s = Some (?s', h OR hs_harbor s)"
    using h by (subst skynet_handle_register.simps) simp
  ultimately show ?thesis
    using register_store[OF wf _ free refl refl, of c] new
    by (auto simp: registered_def)
qed

lemma register_spec:
  assumes wf: "hs_wf ho s" and new: "c \<notin> registered s"
    and room: "hs_slot_size s < 2 ^ 24 \<or> (\<exists>i < hs_slot_size s. hs_slot s ! i = None)"
  shows "\<exists>s' h. skynet_handle_register ho c s = Some (s', h) \<and> handle_find ho s h = None
     \<and> hs_wf (ho(c := h)) s' \<and> handle_find (ho(c := h)) s' = (handle_find ho s)(h \<mapsto> c)
     \<and> registered s' = insert c (registered s) \<and> hs_name s' = hs_name s \<and> hs_name_cap s' = hs_name_cap s
     \<and> hs_name_count s' = hs_name_count s \<and> hs_harbor s' = hs_harbor s"
proof (cases "\<exists>i < hs_slot_size s. hs_slot s ! i = None")
  case True
  from register_room[OF wf new True] show ?thesis .
next
  case False
  then have full: "\<forall>i < hs_slot_size s. hs_slot s ! i \<noteq> None" by auto
  have small: "hs_slot_size s < 2 ^ 24" using room False by blast
  from rehash_grow[OF wf full small] obtain new' where
    n: "rehash ho (hs_slot_size s * 2) (hs_slot s) (replicate (hs_slot_size s * 2) None) = Some new'"
      "set (hs_slot s) = set new' - {None}"
      "hs_wf ho (s\<lparr>hs_slot := new', hs_slot_size := hs_slot_size s * 2\<rparr>)" (is "hs_wf ho ?s1")
      "handle_find ho (s\<lparr>hs_slot := new', hs_slot_size := hs_slot_size s * 2\<rparr>) = handle_find ho s"
      "\<exists>i < hs_slot_size s * 2. new' ! i = None"
    by blast
  have guard: "hs_slot_size s * 2 - 1 \<le> unat HANDLE_MASK"
  proof -
    from wf obtain k where k: "k \<le> 24" "hs_slot_size s = 2 ^ k" by (auto simp: hs_wf_def)
    with small have "Suc k \<le> 24"
      by (metis le_neq_implies_less less_eq_Suc_le less_irrefl)
    then have "(2::nat) ^ Suc k \<le> 2 ^ 24" by (intro power_increasing) auto
    with k show ?thesis by (simp add: unat_HANDLE_MASK)
  qed
  have reg: "registered ?s1 = registered s"
    using n(2) by (auto simp: registered_def)
  have "skynet_handle_register ho c s = skynet_handle_register ho c ?s1"
    using register_scan_full[OF wf] full guard n(1)
    by (subst skynet_handle_register.simps) simp
  with register_room[OF n(3), of c] n(4,5) new reg show ?thesis by auto
qed

section \<open>The names represent a map from names to handles\<close>

lemma c_strcmp_eq_0 [simp]: "c_strcmp a b = 0 \<longleftrightarrow> a = b"
  by (induction a b rule: c_strcmp.induct) auto

lemma c_strcmp_less_0 [simp]: "c_strcmp a b < 0 \<longleftrightarrow> a < b"
  by (induction a b rule: c_strcmp.induct) (auto simp: less_char_def)

definition names_rep :: "handle_storage \<Rightarrow> handle_name list \<Rightarrow> bool" where
  [inv_defs]: "names_rep s ns \<longleftrightarrow> take (hs_name_count s) (hs_name s) = map Some ns
     \<and> length ns = hs_name_count s \<and> length (hs_name s) = hs_name_cap s \<and> 0 < hs_name_cap s
     \<and> sorted_wrt (<) (map hn_name ns)"

definition names_map :: "handle_name list \<Rightarrow> string \<rightharpoonup> u32" where
  "names_map ns = map_of (map (\<lambda>n. (hn_name n, hn_handle n)) ns)"

lemma names_rep_nth:
  "names_rep s ns \<Longrightarrow> i < length ns \<Longrightarrow> i < length (hs_name s) \<and> hs_name s ! i = Some (ns ! i)"
  unfolding names_rep_def by (metis length_map length_take min_less_iff_conj nth_map nth_take)

lemma names_sorted_less:
  "names_rep s ns \<Longrightarrow> i < j \<Longrightarrow> j < length ns \<Longrightarrow> hn_name (ns ! i) < hn_name (ns ! j)"
  using sorted_wrt_nth_less[of "(<)" "map hn_name ns" i j] by (simp add: names_rep_def)

lemma names_sorted_le:
  "names_rep s ns \<Longrightarrow> i \<le> j \<Longrightarrow> j < length ns \<Longrightarrow> hn_name (ns ! i) \<le> hn_name (ns ! j)"
  using names_sorted_less[of s ns i j] by (cases "i = j") auto

lemma names_distinct: "names_rep s ns \<Longrightarrow> distinct (map hn_name ns)"
  unfolding names_rep_def by (meson strict_sorted_iff)

lemma names_map_Some:
  "names_rep s ns \<Longrightarrow> names_map ns name = Some h \<longleftrightarrow> (\<exists>i < length ns. hn_name (ns ! i) = name \<and> hn_handle (ns ! i) = h)"
  using names_distinct[of s ns] unfolding names_map_def
  by (subst map_of_eq_Some_iff) (auto simp: comp_def in_set_conv_nth intro!: image_eqI nth_mem)

lemma names_map_None: "names_map ns name = None \<longleftrightarrow> (\<forall>n \<in> set ns. hn_name n \<noteq> name)"
  by (auto simp: names_map_def map_of_eq_None_iff image_iff)

text \<open>The binary search ends, stays inside the array and finds the name or its place.\<close>

definition search_result :: "handle_name list \<Rightarrow> string \<Rightarrow> int + u32 \<Rightarrow> bool" where
  "search_result ns name r = (case r of
     Inr h \<Rightarrow> (\<exists>i < length ns. hn_name (ns ! i) = name \<and> hn_handle (ns ! i) = h)
   | Inl j \<Rightarrow> 0 \<le> j \<and> nat j \<le> length ns \<and> (\<forall>i < nat j. hn_name (ns ! i) < name)
       \<and> (\<forall>i < length ns. nat j \<le> i \<longrightarrow> name < hn_name (ns ! i)))"

lemma name_search_correct:
  assumes rep: "names_rep s ns"
  shows "0 \<le> b \<Longrightarrow> b \<le> e + 1 \<Longrightarrow> e < int (length ns)
    \<Longrightarrow> (\<forall>i < nat b. hn_name (ns ! i) < name)
    \<Longrightarrow> (\<forall>i < length ns. e < int i \<longrightarrow> name < hn_name (ns ! i))
    \<Longrightarrow> \<exists>r. name_search (hs_name s) name b e = Some r \<and> search_result ns name r"
proof (induction "hs_name s" name b e rule: name_search.induct)
  case (1 name b e)
  show ?case
  proof (cases "b \<le> e")
    case False
    with "1.prems" show ?thesis
      by (subst name_search.simps) (auto simp: search_result_def)
  next
    case True
    let ?m = "(b + e) div 2"
    have m: "b \<le> ?m" "?m \<le> e" using True by auto
    with "1.prems" have mi: "nat ?m < length ns" by linarith
    note at = names_rep_nth[OF rep mi]
    have get: "arr_geti (hs_name s) ?m = Some (ns ! nat ?m)"
      using at m "1.prems"(1) by (simp add: arr_geti_def)
    consider "hn_name (ns ! nat ?m) = name" | "hn_name (ns ! nat ?m) < name" | "name < hn_name (ns ! nat ?m)"
      by fastforce
    then show ?thesis
    proof cases
      case 1
      then show ?thesis
        using True get mi by (subst name_search.simps) (auto simp: Let_def search_result_def)
    next
      case 2
      have below: "hn_name (ns ! i) < name" if "i < nat (?m + 1)" for i
      proof -
        have "i \<le> nat ?m" using that m "1.prems"(1) by linarith
        from names_sorted_le[OF rep this mi] 2 show ?thesis by (rule order_le_less_trans)
      qed
      have ne: "c_strcmp (hn_name (ns ! nat ?m)) name \<noteq> 0" "c_strcmp (hn_name (ns ! nat ?m)) name < 0"
        using 2 by auto
      have "\<exists>r. name_search (hs_name s) name (?m + 1) e = Some r \<and> search_result ns name r"
        using True get m "1.prems" below ne by (intro "1.hyps"(1)) auto
      then show ?thesis
        using ne True get by (subst name_search.simps) (simp add: Let_def)
    next
      case 3
      have above: "name < hn_name (ns ! i)" if "i < length ns" "?m - 1 < int i" for i
        using 3 names_sorted_le[OF rep _ that(1), of "nat ?m"] that(2) by (simp add: order_less_le_trans)
      have ne: "c_strcmp (hn_name (ns ! nat ?m)) name \<noteq> 0" "\<not> c_strcmp (hn_name (ns ! nat ?m)) name < 0"
        using 3 by auto
      have "\<exists>r. name_search (hs_name s) name b (?m - 1) = Some r \<and> search_result ns name r"
        using True get m "1.prems" above ne by (intro "1.hyps"(2)) auto
      then show ?thesis
        using ne True get by (subst name_search.simps) (simp add: Let_def)
    qed
  qed
qed

lemma name_search_total:
  assumes "names_rep s ns"
  shows "\<exists>r. name_search (hs_name s) name 0 (int (hs_name_count s) - 1) = Some r \<and> search_result ns name r"
  using assms by (intro name_search_correct[OF assms]) (auto simp: names_rep_def)

lemma findname_spec:
  assumes "names_rep s ns"
  shows "skynet_handle_findname s name = Some (case names_map ns name of None \<Rightarrow> 0 | Some h \<Rightarrow> h)"
proof -
  from name_search_total[OF assms, of name] obtain r where
    r: "name_search (hs_name s) name 0 (int (hs_name_count s) - 1) = Some r" "search_result ns name r" by blast
  show ?thesis
  proof (cases r)
    case (Inr h)
    with r(2) have "names_map ns name = Some h"
      by (simp add: search_result_def names_map_Some[OF assms])
    with r Inr show ?thesis by (simp add: skynet_handle_findname_def)
  next
    case (Inl j)
    have "hn_name (ns ! i) \<noteq> name" if "i < length ns" for i
      using r(2) Inl that by (cases "i < nat j") (auto simp: search_result_def)
    then have "names_map ns name = None"
      unfolding names_map_None by (metis in_set_conv_nth)
    with r Inl show ?thesis by (simp add: skynet_handle_findname_def)
  qed
qed

subsection \<open>Insertion\<close>

text \<open>The element-moving loops of \<open>_insert_name_before\<close>, cell by cell.\<close>

lemma shift_loop:
  assumes "b \<le> n" "n < length (a :: 'a list)"
  shows "length (fold (\<lambda>i a. a[i := a ! (i - 1)]) (rev [Suc b..<Suc n]) a) = length a \<and>
    (\<forall>i < length a. fold (\<lambda>i a. a[i := a ! (i - 1)]) (rev [Suc b..<Suc n]) a ! i
       = (if b < i \<and> i \<le> n then a ! (i - 1) else a ! i))"
  using assms
proof (induction n arbitrary: a)
  case 0
  then show ?case by simp
next
  case (Suc n)
  show ?case
  proof (cases "b \<le> n")
    case True
    with Suc.prems have step: "rev [Suc b..<Suc (Suc n)] = Suc n # rev [Suc b..<Suc n]" by simp
    let ?a = "a[Suc n := a ! n]" and ?F = "fold (\<lambda>i a. a[i := a ! (i - 1)]) (rev [Suc b..<Suc n])"
    from True Suc.prems Suc.IH[of ?a] have IH: "length (?F ?a) = length a"
        "\<And>i. i < length a \<Longrightarrow> ?F ?a ! i = (if b < i \<and> i \<le> n then ?a ! (i - 1) else ?a ! i)"
      by auto
    have "?F ?a ! i = (if b < i \<and> i \<le> Suc n then a ! (i - 1) else a ! i)" if "i < length a" for i
      using IH(2)[OF that] True that by (cases "i = Suc n") auto
    with IH(1) step show ?thesis by simp
  next
    case False
    with Suc.prems have "b = Suc n" by simp
    then show ?thesis by auto
  qed
qed

lemma copy_loop:
  assumes "b \<le> length a"
  shows "length (fold (\<lambda>i n. n[i := src ! i]) [0..<b] a) = length a \<and>
    (\<forall>i < length a. fold (\<lambda>i n. n[i := src ! i]) [0..<b] a ! i = (if i < b then src ! i else a ! i))"
  using assms by (induction b) (auto simp: nth_list_update)

lemma copy_shift_loop:
  assumes "b \<le> c" "c < length a"
  shows "length (fold (\<lambda>i n. n[i + 1 := src ! i]) [b..<c] a) = length a \<and>
    (\<forall>i < length a. fold (\<lambda>i n. n[i + 1 := src ! i]) [b..<c] a ! i
       = (if b < i \<and> i \<le> c then src ! (i - 1) else a ! i))"
  using assms
proof (induction c)
  case (Suc c)
  then show ?case
    by (cases "b \<le> c") (auto simp: nth_list_update less_Suc_eq_le le_Suc_eq)
qed simp

definition insert_at :: "nat \<Rightarrow> 'a \<Rightarrow> 'a list \<Rightarrow> 'a list" where
  "insert_at b x xs = take b xs @ x # drop b xs"

lemma length_insert_at [simp]: "length (insert_at b x xs) = Suc (length xs)"
  by (simp add: insert_at_def)

lemma insert_at_nth:
  "b \<le> length xs \<Longrightarrow> i \<le> length xs
    \<Longrightarrow> insert_at b x xs ! i = (if i < b then xs ! i else if i = b then x else xs ! (i - 1))"
  by (auto simp: insert_at_def nth_append nth_Cons' min_absorb2)

lemma take_eq_mapI:
  "length ys = n \<Longrightarrow> n \<le> length xs \<Longrightarrow> (\<And>i. i < n \<Longrightarrow> xs ! i = Some (ys ! i)) \<Longrightarrow> take n xs = map Some ys"
  by (rule nth_equalityI) auto

lemma insert_name_before_spec:
  assumes rep: "names_rep s ns" and b: "b \<le> length ns"
    and room: "hs_name_count s < hs_name_cap s \<or> hs_name_cap s * 2 \<le> MAX_SLOT_SIZE"
  shows "\<exists>s'. insert_name_before name h b s = Some s'
     \<and> take (Suc (length ns)) (hs_name s') = map Some (insert_at b \<lparr>hn_name = name, hn_handle = h\<rparr> ns)
     \<and> hs_name_count s' = Suc (length ns) \<and> length (hs_name s') = hs_name_cap s' \<and> 0 < hs_name_cap s'
     \<and> s' = s\<lparr>hs_name_cap := hs_name_cap s', hs_name := hs_name s', hs_name_count := hs_name_count s'\<rparr>"
proof -
  let ?nn = "\<lparr>hn_name = name, hn_handle = h\<rparr>" and ?c = "hs_name_count s" and ?cap = "hs_name_cap s"
  have c: "length ns = ?c" "length (hs_name s) = ?cap" "0 < ?cap"
    using rep by (auto simp: names_rep_def)
  note at = names_rep_nth[OF rep]
  have cc: "?c \<le> ?cap"
    using rep unfolding names_rep_def by (metis length_map length_take min.cobounded1)
  obtain cap arr where arr: "length arr = cap" "?c < cap"
      "\<And>i. i \<le> ?c \<Longrightarrow> i \<noteq> b \<Longrightarrow> arr ! i = Some (insert_at b ?nn ns ! i)"
      "insert_name_before name h b s
         = Some (s\<lparr>hs_name_cap := cap, hs_name := arr[b := Some ?nn], hs_name_count := ?c + 1\<rparr>)"
  proof (cases "?c \<ge> ?cap")
    case True
    let ?n1 = "fold (\<lambda>i n. n[i := hs_name s ! i]) [0..<b] (replicate (?cap * 2) None)"
    let ?n2 = "fold (\<lambda>i n. n[i + 1 := hs_name s ! i]) [b..<?c] ?n1"
    have n1: "length ?n1 = ?cap * 2" "\<And>i. i < b \<Longrightarrow> ?n1 ! i = hs_name s ! i"
      using copy_loop[of b "replicate (?cap * 2) None" "hs_name s"] b c cc by auto
    have n2: "length ?n2 = ?cap * 2" "\<And>i. i < ?cap * 2 \<Longrightarrow>
        ?n2 ! i = (if b < i \<and> i \<le> ?c then hs_name s ! (i - 1) else ?n1 ! i)"
      using copy_shift_loop[of b ?c ?n1 "hs_name s"] b c cc n1 by auto
    show thesis
    proof (rule that[of ?n2 "?cap * 2"])
      show "?n2 ! i = Some (insert_at b ?nn ns ! i)" if "i \<le> ?c" "i \<noteq> b" for i
        using that n1(2) n2(2)[of i] at b c cc by (auto simp: insert_at_nth)
      show "insert_name_before name h b s
         = Some (s\<lparr>hs_name_cap := ?cap * 2, hs_name := ?n2[b := Some ?nn], hs_name_count := ?c + 1\<rparr>)"
        using True room n2(1) b c cc by (simp add: insert_name_before_def Let_def)
    qed (use n2 c cc in auto)
  next
    case False
    let ?n2 = "fold (\<lambda>i a. a[i := a ! (i - 1)]) (rev [Suc b..<Suc ?c]) (hs_name s)"
    have n2: "length ?n2 = ?cap" "\<And>i. i < ?cap \<Longrightarrow>
        ?n2 ! i = (if b < i \<and> i \<le> ?c then hs_name s ! (i - 1) else hs_name s ! i)"
      using shift_loop[of b ?c "hs_name s"] b c False by auto
    show thesis
    proof (rule that[of ?n2 ?cap])
      show "?n2 ! i = Some (insert_at b ?nn ns ! i)" if "i \<le> ?c" "i \<noteq> b" for i
        using that n2(2)[of i] at b c False by (auto simp: insert_at_nth)
      show "insert_name_before name h b s
         = Some (s\<lparr>hs_name_cap := ?cap, hs_name := ?n2[b := Some ?nn], hs_name_count := ?c + 1\<rparr>)"
        using False n2(1) b c by (simp add: insert_name_before_def)
    qed (use n2 False in auto)
  qed
  have "take (Suc ?c) (arr[b := Some ?nn]) = map Some (insert_at b ?nn ns)"
    using arr(1,2,3) b c
    by (intro take_eq_mapI) (auto simp: nth_list_update insert_at_nth less_Suc_eq_le)
  with arr c show ?thesis by auto
qed

lemma map_of_insert_at:
  "k \<notin> fst ` set xs \<Longrightarrow> map_of (insert_at b (k, v) xs) = (map_of xs)(k \<mapsto> v)"
proof -
  assume k: "k \<notin> fst ` set xs"
  have "map_of (as @ (k, v) # bs) = (map_of (as @ bs))(k \<mapsto> v)" if "k \<notin> fst ` set as" for as bs
    using that by (induction as) (auto simp: fun_upd_twist)
  from this[of "take b xs" "drop b xs"] k show ?thesis
    unfolding insert_at_def by (metis append_take_drop_id image_Un set_append UnCI)
qed

lemma names_map_insert_at:
  assumes "names_map ns name = None"
  shows "names_map (insert_at b \<lparr>hn_name = name, hn_handle = h\<rparr> ns) = (names_map ns)(name \<mapsto> h)"
proof -
  let ?f = "\<lambda>n. (hn_name n, hn_handle n)"
  have eq: "map ?f (insert_at b \<lparr>hn_name = name, hn_handle = h\<rparr> ns) = insert_at b (name, h) (map ?f ns)"
    by (simp add: insert_at_def take_map drop_map)
  have "name \<notin> fst ` set (map ?f ns)"
    using assms by (auto simp: names_map_None image_iff)
  then show ?thesis
    unfolding names_map_def eq by (rule map_of_insert_at)
qed

lemma sorted_insert_at:
  fixes x :: "'a :: linorder"
  assumes "sorted_wrt (<) xs" "b \<le> length xs" "\<forall>i < b. xs ! i < x" "\<forall>i < length xs. b \<le> i \<longrightarrow> x < xs ! i"
  shows "sorted_wrt (<) (insert_at b x xs)"
proof -
  have lo: "y < x" if "y \<in> set (take b xs)" for y
    using that assms(2,3) by (auto simp: in_set_conv_nth)
  have hi: "x < y" if "y \<in> set (drop b xs)" for y
    using that assms(4) by (auto simp: in_set_conv_nth)
  show ?thesis
    using lo hi assms(1) by (auto simp: insert_at_def sorted_wrt_append sorted_wrt_take sorted_wrt_drop
        intro: less_trans)
qed

lemma namehandle_new:
  assumes rep: "names_rep s ns" and new: "names_map ns name = None"
    and room: "hs_name_count s < hs_name_cap s \<or> hs_name_cap s * 2 \<le> MAX_SLOT_SIZE"
  shows "\<exists>s' ns'. skynet_handle_namehandle h name s = Some (s', Some name) \<and> names_rep s' ns'
     \<and> names_map ns' = (names_map ns)(name \<mapsto> h)
     \<and> s' = s\<lparr>hs_name_cap := hs_name_cap s', hs_name := hs_name s', hs_name_count := hs_name_count s'\<rparr>"
proof -
  from name_search_total[OF rep, of name] obtain r where
    r: "name_search (hs_name s) name 0 (int (hs_name_count s) - 1) = Some r" "search_result ns name r" by blast
  have "r \<noteq> Inr g" for g
    using r(2) new names_map_Some[OF rep, of name g] by (auto simp: search_result_def)
  then obtain j where j: "r = Inl j" by (cases r) auto
  let ?b = "nat j" and ?nn = "\<lparr>hn_name = name, hn_handle = h\<rparr>"
  have b: "?b \<le> length ns" "\<forall>i < ?b. hn_name (ns ! i) < name"
      "\<forall>i < length ns. ?b \<le> i \<longrightarrow> name < hn_name (ns ! i)"
    using r(2) j by (auto simp: search_result_def)
  from insert_name_before_spec[OF rep b(1) room, of name h] obtain s' where
    s': "insert_name_before name h ?b s = Some s'"
      "take (Suc (length ns)) (hs_name s') = map Some (insert_at ?b ?nn ns)"
      "hs_name_count s' = Suc (length ns)" "length (hs_name s') = hs_name_cap s'" "0 < hs_name_cap s'"
      "s' = s\<lparr>hs_name_cap := hs_name_cap s', hs_name := hs_name s', hs_name_count := hs_name_count s'\<rparr>"
    by blast
  have "sorted_wrt (<) (insert_at ?b name (map hn_name ns))"
    using rep b by (intro sorted_insert_at) (auto simp: names_rep_def)
  then have "sorted_wrt (<) (map hn_name (insert_at ?b ?nn ns))"
    by (simp add: insert_at_def take_map drop_map)
  with s' have "names_rep s' (insert_at ?b ?nn ns)" by (simp add: names_rep_def)
  with s' r(1) j names_map_insert_at[OF new, of ?b h] show ?thesis
    by (auto simp: skynet_handle_namehandle_def)
qed

lemma namehandle_taken:
  assumes rep: "names_rep s ns" and old: "names_map ns name = Some g"
  shows "skynet_handle_namehandle h name s = Some (s, None)"
proof -
  from name_search_total[OF rep, of name] obtain r where
    r: "name_search (hs_name s) name 0 (int (hs_name_count s) - 1) = Some r" "search_result ns name r" by blast
  from old obtain i where i: "i < length ns" "hn_name (ns ! i) = name"
    by (auto simp: names_map_Some[OF rep])
  have "r \<noteq> Inl j" for j
  proof
    assume "r = Inl j"
    with r(2) have "\<forall>i < nat j. hn_name (ns ! i) < name"
        "\<forall>i < length ns. nat j \<le> i \<longrightarrow> name < hn_name (ns ! i)"
      by (auto simp: search_result_def)
    with i show False by (metis leI less_irrefl)
  qed
  with r show ?thesis by (cases r) (auto simp: skynet_handle_namehandle_def)
qed

subsection \<open>Retiring a handle\<close>

lemma retire_names_loop:
  assumes "j \<le> i" "i \<le> n" "n \<le> length names" "length ns = n" "\<forall>k. i \<le> k \<and> k < n \<longrightarrow> names ! k = Some (ns ! k)"
  shows "\<exists>names' j'. retire_names h [i..<n] names j = Some (names', j') \<and> length names' = length names
     \<and> take j' names' = take j names @ map Some (filter (\<lambda>x. hn_handle x \<noteq> h) (drop i ns)) \<and> j' \<le> n"
  using assms
proof (induction "n - i" arbitrary: i j names)
  case 0
  then show ?case by simp
next
  case (Suc d)
  then have i: "i < n" and at: "arr_get names i = Some (ns ! i)" by auto
  have dr: "drop i ns = ns ! i # drop (Suc i) ns"
    using i Suc.prems(4) by (simp add: Cons_nth_drop_Suc)
  have up: "[i..<n] = i # [Suc i..<n]" using i by (simp add: upt_conv_Cons)
  show ?case
  proof (cases "hn_handle (ns ! i) = h")
    case True
    from Suc.hyps(1)[of "Suc i" j names] Suc.hyps(2) Suc.prems i show ?thesis
      using True at unfolding up dr by auto
  next
    case False
    let ?names = "if i \<noteq> j then names[j := Some (ns ! i)] else names"
    have tk: "take (Suc j) ?names = take j names @ [Some (ns ! i)]"
      using i at Suc.prems(1,3) by (auto simp: take_Suc_conv_app_nth)
    have len: "length ?names = length names" by simp
    have "\<exists>names' j'. retire_names h [Suc i..<n] ?names (Suc j) = Some (names', j')
       \<and> length names' = length ?names
       \<and> take j' names' = take (Suc j) ?names @ map Some (filter (\<lambda>x. hn_handle x \<noteq> h) (drop (Suc i) ns)) \<and> j' \<le> n"
      using Suc.hyps(2) Suc.prems i by (intro Suc.hyps(1)) auto
    then show ?thesis
      using False at unfolding up dr tk len by auto
  qed
qed

lemma retire_names_spec:
  assumes rep: "names_rep s ns"
  shows "\<exists>names' j'. retire_names h [0..<hs_name_count s] (hs_name s) 0 = Some (names', j')
     \<and> names_rep (s\<lparr>hs_name := names', hs_name_count := j'\<rparr>) (filter (\<lambda>x. hn_handle x \<noteq> h) ns)"
proof -
  have c: "length ns = hs_name_count s" "hs_name_count s \<le> length (hs_name s)"
    using rep unfolding names_rep_def by (auto, metis length_map length_take min.cobounded1)
  from retire_names_loop[of 0 0 "hs_name_count s" "hs_name s" ns h] c names_rep_nth[OF rep]
  obtain names' j' where r: "retire_names h [0..<hs_name_count s] (hs_name s) 0 = Some (names', j')"
      "length names' = length (hs_name s)" "take j' names' = map Some (filter (\<lambda>x. hn_handle x \<noteq> h) ns)"
      "j' \<le> hs_name_count s"
    by auto
  have "length (filter (\<lambda>x. hn_handle x \<noteq> h) ns) = j'"
    using r c by (metis length_map length_take min_absorb2 order_trans)
  moreover have "sorted_wrt (<) (map hn_name (filter (\<lambda>x. hn_handle x \<noteq> h) ns))"
    using rep by (simp add: names_rep_def sorted_wrt_map sorted_wrt_filter)
  ultimately show ?thesis
    using r rep by (auto simp: names_rep_def)
qed

lemma slot_update_None:
  assumes "i < length xs" "xs ! i = Some c" "\<forall>j < length xs. xs ! j = Some c \<longrightarrow> j = i"
  shows "Some x \<in> set (xs[i := None]) \<longleftrightarrow> x \<noteq> c \<and> Some x \<in> set xs"
proof -
  have "set xs = insert (Some c) (set (take i xs) \<union> set (drop (Suc i) xs))"
    using id_take_nth_drop[OF assms(1)] assms(2)
    by (metis Un_insert_right list.simps(15) set_append)
  moreover have "set (xs[i := None]) = insert None (set (take i xs) \<union> set (drop (Suc i) xs))"
    using assms(1) by (simp add: upd_conv_take_nth_drop)
  moreover have "Some c \<notin> set (take i xs)"
  proof
    assume "Some c \<in> set (take i xs)"
    then obtain j where "j < length xs" "j < i" "xs ! j = Some c"
      by (auto simp: in_set_conv_nth)
    with assms(3) show False by blast
  qed
  moreover have "Some c \<notin> set (drop (Suc i) xs)"
  proof
    assume "Some c \<in> set (drop (Suc i) xs)"
    then obtain j where "j < length xs - Suc i" "xs ! (Suc i + j) = Some c"
      by (auto simp: in_set_conv_nth)
    then have "Suc i + j < length xs" by linarith
    with assms(3)[rule_format, of "Suc i + j"] \<open>xs ! (Suc i + j) = Some c\<close> show False by simp
  qed
  ultimately show ?thesis by auto
qed

lemma handle_retire_absent:
  "handle_find ho s h = None \<Longrightarrow> handle_retire ho h s = Some (s, None)"
  by (simp add: handle_retire_def)

lemma handle_retire_present:
  assumes wf: "hs_wf ho s" and rep: "names_rep s ns" and c: "handle_find ho s h = Some c"
  shows "\<exists>s'. handle_retire ho h s = Some (s', Some c) \<and> hs_wf ho s'
     \<and> handle_find ho s' = (handle_find ho s)(h := None) \<and> registered s' = registered s - {c}
     \<and> names_rep s' (filter (\<lambda>x. hn_handle x \<noteq> h) ns) \<and> hs_slot_size s' = hs_slot_size s"
proof -
  from wf obtain k where k: "hs_slot_size s = 2 ^ k" "length (hs_slot s) = 2 ^ k"
    by (auto simp: hs_wf_def)
  let ?i = "slot_hash (hs_slot_size s) h"
  have i: "?i < length (hs_slot s)" "hs_slot s ! ?i = Some c" "ho c = h"
    using c k slot_hash_less[of k h] by (auto simp: handle_find_Some)
  have uniq: "j < length (hs_slot s) \<Longrightarrow> hs_slot s ! j = Some c \<Longrightarrow> j = ?i" for j
    using wf i(3) by (auto simp: hs_wf_def)
  from retire_names_spec[OF rep, of h] obtain names' j' where
    r: "retire_names h [0..<hs_name_count s] (hs_name s) 0 = Some (names', j')"
      "names_rep (s\<lparr>hs_name := names', hs_name_count := j'\<rparr>) (filter (\<lambda>x. hn_handle x \<noteq> h) ns)"
    by blast
  let ?s' = "s\<lparr>hs_slot := (hs_slot s)[?i := None], hs_name := names', hs_name_count := j'\<rparr>"
  have "handle_retire ho h s = Some (?s', Some c)"
    using c r(1) by (simp add: handle_retire_def)
  moreover have "hs_wf ho ?s'"
    using wf i(1) by (auto simp: hs_wf_def nth_list_update)
  moreover have "handle_find ho ?s' = (handle_find ho s)(h := None)"
  proof
    fix x
    show "handle_find ho ?s' x = ((handle_find ho s)(h := None)) x"
    proof (cases "slot_hash (hs_slot_size s) x = ?i")
      case True
      then have "handle_find ho ?s' x = None" using i(1) by (simp add: handle_find_def)
      moreover have "x \<noteq> h \<Longrightarrow> handle_find ho s x = None"
        using True i(2,3) by (simp add: handle_find_def)
      ultimately show ?thesis by simp
    next
      case False
      then show ?thesis by (auto simp: handle_find_def)
    qed
  qed
  moreover have "registered ?s' = registered s - {c}"
  proof -
    have "\<forall>j < length (hs_slot s). hs_slot s ! j = Some c \<longrightarrow> j = ?i" by (intro allI impI uniq)
    from slot_update_None[OF i(1,2) this] show ?thesis by (auto simp: registered_def)
  qed
  moreover have "names_rep ?s' (filter (\<lambda>x. hn_handle x \<noteq> h) ns)"
    using r(2) by (simp add: names_rep_def)
  ultimately show ?thesis by simp
qed

section \<open>The registry interface\<close>

text \<open>
  What the server relies on: a partial map from handles to contexts that \<open>register\<close> extends at a
  handle nobody has, and \<open>retire\<close> cuts.  The field \<open>handle\<close> of the new context is set to the
  result of \<open>register\<close>, as \<open>skynet_context_new\<close> does.
\<close>

locale registry =
  fixes inv :: "('c \<Rightarrow> 'h) \<Rightarrow> 's \<Rightarrow> bool"
    and find :: "('c \<Rightarrow> 'h) \<Rightarrow> 's \<Rightarrow> 'h \<Rightarrow> 'c option"
    and members :: "'s \<Rightarrow> 'c set"
    and room :: "'s \<Rightarrow> bool"
    and register :: "('c \<Rightarrow> 'h) \<Rightarrow> 'c \<Rightarrow> 's \<Rightarrow> ('s \<times> 'h) option"
    and retire :: "('c \<Rightarrow> 'h) \<Rightarrow> 'h \<Rightarrow> 's \<Rightarrow> ('s \<times> 'c option) option"
  assumes find_member: "inv ho s \<Longrightarrow> find ho s h = Some c \<Longrightarrow> c \<in> members s \<and> ho c = h"
    and member_find: "inv ho s \<Longrightarrow> c \<in> members s \<Longrightarrow> find ho s (ho c) = Some c"
    and register: "inv ho s \<Longrightarrow> c \<notin> members s \<Longrightarrow> room s \<Longrightarrow>
          \<exists>s' h. register ho c s = Some (s', h) \<and> find ho s h = None \<and> inv (ho(c := h)) s'
            \<and> find (ho(c := h)) s' = (find ho s)(h \<mapsto> c)"
    and retire: "inv ho s \<Longrightarrow>
          \<exists>s'. retire ho h s = Some (s', find ho s h) \<and> inv ho s' \<and> find ho s' = (find ho s)(h := None)"
begin

text \<open>A registered context is found under its handle and under no other; two registered contexts
  have different handles.\<close>

lemma members_inj: "inv ho s \<Longrightarrow> c \<in> members s \<Longrightarrow> d \<in> members s \<Longrightarrow> ho c = ho d \<Longrightarrow> c = d"
  by (metis member_find option.inject)

lemma members_find: "inv ho s \<Longrightarrow> c \<in> members s \<longleftrightarrow> find ho s (ho c) = Some c"
  using find_member member_find by blast

lemma register_members:
  assumes "inv ho s" "c \<notin> members s" "room s" "register ho c s = Some (s', h)"
  shows "members s' = insert c (members s)" "\<forall>d \<in> members s. ho d \<noteq> h"
proof -
  from register[OF assms(1-3)] assms(4) have r: "find ho s h = None" "inv (ho(c := h)) s'"
      "find (ho(c := h)) s' = (find ho s)(h \<mapsto> c)"
    by auto
  show dis: "\<forall>d \<in> members s. ho d \<noteq> h"
    using r(1) member_find[OF assms(1)] by auto
  have "d \<in> members s' \<longleftrightarrow> d = c \<or> d \<in> members s" for d
    unfolding members_find[OF r(2)] r(3)
    using members_find[OF assms(1), of d] dis r(1) assms(2) find_member[OF assms(1)]
    by (cases "d = c") auto
  then show "members s' = insert c (members s)" by auto
qed

lemma retire_members:
  assumes "inv ho s" "retire ho h s = Some (s', r)"
  shows "members s' = {c \<in> members s. ho c \<noteq> h}"
proof -
  from retire[OF assms(1), of h] assms(2) have r: "inv ho s'" "find ho s' = (find ho s)(h := None)"
    by auto
  show ?thesis
    using members_find[OF r(1)] members_find[OF assms(1)] r(2) by (auto split: if_splits)
qed

end

definition storage_inv :: "(addr \<Rightarrow> u32) \<Rightarrow> handle_storage \<Rightarrow> bool" where
  "storage_inv ho s \<longleftrightarrow> hs_wf ho s \<and> (\<exists>ns. names_rep s ns)"

definition storage_room :: "handle_storage \<Rightarrow> bool" where
  "storage_room s \<longleftrightarrow> hs_slot_size s < 2 ^ 24 \<or> (\<exists>i < hs_slot_size s. hs_slot s ! i = None)"

lemma names_rep_cong:
  "hs_name s' = hs_name s \<Longrightarrow> hs_name_cap s' = hs_name_cap s \<Longrightarrow> hs_name_count s' = hs_name_count s
    \<Longrightarrow> names_rep s' ns = names_rep s ns"
  by (simp add: names_rep_def)

interpretation storage: registry storage_inv handle_find registered storage_room
  skynet_handle_register handle_retire
proof
  fix ho :: "addr \<Rightarrow> u32" and s h c
  assume "storage_inv ho s" "handle_find ho s h = Some c"
  then show "c \<in> registered s \<and> ho c = h"
    using registered_iff[of ho s c] by (auto simp: storage_inv_def handle_find_Some)
next
  fix ho :: "addr \<Rightarrow> u32" and s c
  assume "storage_inv ho s" "c \<in> registered s"
  then show "handle_find ho s (ho c) = Some c"
    using registered_iff[of ho s c] by (auto simp: storage_inv_def)
next
  fix ho :: "addr \<Rightarrow> u32" and s c
  assume "storage_inv ho s" "c \<notin> registered s" "storage_room s"
  then show "\<exists>s' h. skynet_handle_register ho c s = Some (s', h) \<and> handle_find ho s h = None
      \<and> storage_inv (ho(c := h)) s' \<and> handle_find (ho(c := h)) s' = (handle_find ho s)(h \<mapsto> c)"
    using register_spec[of ho s c] names_rep_cong[of _ s]
    unfolding storage_inv_def storage_room_def by metis
next
  fix ho :: "addr \<Rightarrow> u32" and s h
  assume inv: "storage_inv ho s"
  show "\<exists>s'. handle_retire ho h s = Some (s', handle_find ho s h) \<and> storage_inv ho s'
      \<and> handle_find ho s' = (handle_find ho s)(h := None)"
  proof (cases "handle_find ho s h")
    case None
    then show ?thesis using inv by (auto simp: handle_retire_absent fun_upd_idem)
  next
    case (Some c)
    with inv obtain ns where "hs_wf ho s" "names_rep s ns" by (auto simp: storage_inv_def)
    from handle_retire_present[OF this Some] Some show ?thesis by (auto simp: storage_inv_def)
  qed
qed

section \<open>Properties\<close>

lemma storage_inv_init: "storage_inv ho (skynet_handle_init harbor)"
proof -
  have "hs_wf ho (skynet_handle_init harbor)"
    unfolding hs_wf_def
  proof (intro conjI)
    show "\<exists>k\<le>24. hs_slot_size (skynet_handle_init harbor) = 2 ^ k"
      by (intro exI[of _ 2]) (simp add: skynet_handle_init_def cdefs)
    show "hs_harbor (skynet_handle_init harbor) AND HANDLE_MASK = 0"
      by (simp add: skynet_handle_init_def HANDLE_MASK_take_bit HANDLE_REMOTE_SHIFT_def take_bit_push_bit)
  qed (auto simp: skynet_handle_init_def cdefs less_Suc_eq numeral_eq_Suc)
  moreover have "names_rep (skynet_handle_init harbor) []"
    by (simp add: names_rep_def skynet_handle_init_def)
  ultimately show ?thesis by (auto simp: storage_inv_def)
qed

lemma storage_room_init: "storage_room (skynet_handle_init harbor)"
  by (simp add: storage_room_def skynet_handle_init_def cdefs)

text \<open>C8: registering a context always succeeds while fewer than \<open>2 ^ 24\<close> slots are in use (growing
  and rehashing the table when it is full, without hitting an assertion); the handle it returns is
  carried by no registered context, the context is found under it from then on, and every other
  handle is resolved as before.\<close>

theorem register_unique_handle:
  assumes "storage_inv ho s" and "c \<notin> registered s" and "storage_room s"
  shows "\<exists>s' h. skynet_handle_register ho c s = Some (s', h) \<and> (\<forall>d \<in> registered s. ho d \<noteq> h)
     \<and> storage_inv (ho(c := h)) s' \<and> registered s' = insert c (registered s)
     \<and> handle_find (ho(c := h)) s' = (handle_find ho s)(h \<mapsto> c)"
  using storage.register[OF assms] storage.register_members[OF assms] by metis

theorem register_unique_handle_witness:
  "\<exists>s' h. skynet_handle_register (\<lambda>_. 0) 5 (skynet_handle_init 1) = Some (s', h)
     \<and> registered s' = {5} \<and> handle_find ((\<lambda>_. 0)(5 := h)) s' h = Some 5"
proof -
  have "registered (skynet_handle_init 1) = {}"
    by (simp add: registered_def skynet_handle_init_def cdefs)
  with register_unique_handle[OF storage_inv_init, of 5 1 "\<lambda>_. 0"] storage_room_init
  show ?thesis by fastforce
qed

text \<open>C9: giving a name to a handle. A new name is stored, the sorted array stays sorted (also when
  it grows), the name resolves to the handle and every other name as before; a name that is taken
  is refused and nothing changes.\<close>

theorem namehandle_findname:
  assumes "names_rep s ns" and "hs_name_count s < hs_name_cap s \<or> hs_name_cap s * 2 \<le> MAX_SLOT_SIZE"
  shows "\<exists>s' r ns'. skynet_handle_namehandle h name s = Some (s', r) \<and> names_rep s' ns'
     \<and> (if name \<in> dom (names_map ns) then s' = s \<and> r = None
        else r = Some name \<and> skynet_handle_findname s' name = Some h
             \<and> (\<forall>x. x \<noteq> name \<longrightarrow> skynet_handle_findname s' x = skynet_handle_findname s x))"
proof (cases "names_map ns name")
  case None
  from namehandle_new[OF assms(1) None assms(2), of h] obtain s' ns' where
    s': "skynet_handle_namehandle h name s = Some (s', Some name)" "names_rep s' ns'"
      "names_map ns' = (names_map ns)(name \<mapsto> h)"
    by blast
  with None findname_spec[OF s'(2)] findname_spec[OF assms(1)] show ?thesis
    by (intro exI[of _ s'] exI[of _ "Some name"] exI[of _ ns']) auto
next
  case (Some g)
  from namehandle_taken[OF assms(1) Some, of h] Some assms(1) show ?thesis by auto
qed

theorem namehandle_findname_witness:
  "\<exists>s'. skynet_handle_namehandle 9 ''launcher'' (skynet_handle_init 1) = Some (s', Some ''launcher'')
     \<and> skynet_handle_findname s' ''launcher'' = Some 9"
proof -
  have r: "names_rep (skynet_handle_init 1) []"
    by (simp add: names_rep_def skynet_handle_init_def)
  have room: "hs_name_count (skynet_handle_init 1) < hs_name_cap (skynet_handle_init 1)
      \<or> hs_name_cap (skynet_handle_init 1) * 2 \<le> MAX_SLOT_SIZE"
    by (simp add: skynet_handle_init_def)
  from namehandle_findname[OF r room, of 9 "''launcher''"] show ?thesis
    by (auto simp: names_map_def)
qed

lemma names_map_filter:
  assumes "names_rep s ns" "names_rep s' (filter (\<lambda>x. hn_handle x \<noteq> h) ns)"
  shows "names_map (filter (\<lambda>x. hn_handle x \<noteq> h) ns) name
     = (case names_map ns name of None \<Rightarrow> None | Some g \<Rightarrow> if g = h then None else Some g)"
proof -
  have iff: "names_map (filter (\<lambda>x. hn_handle x \<noteq> h) ns) name = Some g
      \<longleftrightarrow> names_map ns name = Some g \<and> g \<noteq> h" for g
  proof -
    have m: "names_map ms name = Some g \<longleftrightarrow> (\<exists>n \<in> set ms. hn_name n = name \<and> hn_handle n = g)"
      if "names_rep t ms" for t ms
      unfolding names_map_Some[OF that] by (metis in_set_conv_nth)
    show ?thesis unfolding m[OF assms(1)] m[OF assms(2)] by auto
  qed
  show ?thesis
    by (rule option_ext, unfold iff) (auto split: option.splits)
qed

text \<open>C10: retiring a registered handle hands back its context, the handle is resolved no more while
  every other handle is, and all names of the handle, and only those, are gone.\<close>

theorem handle_retire_forgets:
  assumes "hs_wf ho s" and "names_rep s ns" and "handle_find ho s h = Some c"
  shows "\<exists>s'. handle_retire ho h s = Some (s', Some c) \<and> storage_inv ho s'
     \<and> handle_find ho s' = (handle_find ho s)(h := None)
     \<and> (\<forall>name. skynet_handle_findname s' name = Some (case names_map ns name of
            None \<Rightarrow> 0 | Some g \<Rightarrow> if g = h then 0 else g))"
proof -
  from handle_retire_present[OF assms] obtain s' where
    s': "handle_retire ho h s = Some (s', Some c)" "hs_wf ho s'"
      "handle_find ho s' = (handle_find ho s)(h := None)"
      "names_rep s' (filter (\<lambda>x. hn_handle x \<noteq> h) ns)"
    by blast
  then show ?thesis
    using names_map_filter[OF assms(2) s'(4)] findname_spec[OF s'(4)]
    by (intro exI[of _ s']) (auto simp: storage_inv_def split: option.splits)
qed

theorem handle_retire_forgets_witness:
  "\<exists>s h s'. skynet_handle_register (\<lambda>_. 0) 5 (skynet_handle_init 1) = Some (s, h)
     \<and> handle_retire ((\<lambda>_. 0)(5 := h)) h s = Some (s', Some 5)
     \<and> handle_find ((\<lambda>_. 0)(5 := h)) s' h = None"
proof -
  have "registered (skynet_handle_init 1) = {}"
    by (simp add: registered_def skynet_handle_init_def cdefs)
  with storage.register[OF storage_inv_init, of 5 1 "\<lambda>_. 0"] storage_room_init obtain s h where
    s: "skynet_handle_register (\<lambda>_. 0) 5 (skynet_handle_init 1) = Some (s, h)"
      "storage_inv ((\<lambda>_. 0)(5 := h)) s" "handle_find ((\<lambda>_. 0)(5 := h)) s h = Some 5"
    by auto
  then obtain ns where "hs_wf ((\<lambda>_. 0)(5 := h)) s" "names_rep s ns" by (auto simp: storage_inv_def)
  from handle_retire_forgets[OF this s(3)] s(1) show ?thesis by auto
qed

text \<open>Handle 0 is not reserved. The comment in \<open>skynet_handle_init\<close> reserves handle 0 for the
  system and only the first \<open>handle_index\<close> respects it: once the index has reached
  \<open>0xffffff\<close>, two registrations in a well-formed table of harbor 0 return \<open>0xffffff\<close> and then
  0.\<close>

lemma register_wraps_to_zero:
  "storage_inv (\<lambda>_. 0) ((skynet_handle_init 0)\<lparr>hs_handle_index := 0xffffff\<rparr>)
   \<and> (\<exists>s1 s2. skynet_handle_register (\<lambda>_. 0) 5 ((skynet_handle_init 0)\<lparr>hs_handle_index := 0xffffff\<rparr>)
                = Some (s1, 0xffffff)
            \<and> skynet_handle_register ((\<lambda>_. 0)(5 := 0xffffff)) 6 s1 = Some (s2, 0))"
proof (intro conjI)
  show "storage_inv (\<lambda>_. 0) ((skynet_handle_init 0)\<lparr>hs_handle_index := 0xffffff\<rparr>)"
    using storage_inv_init[of "\<lambda>_. 0" 0] by (simp add: storage_inv_def hs_wf_def names_rep_def)
  let ?s0 = "(skynet_handle_init 0)\<lparr>hs_handle_index := 0xffffff\<rparr>"
  let ?s1 = "?s0\<lparr>hs_slot := [None, None, None, Some 5], hs_handle_index := 0x1000000\<rparr>"
  let ?s2 = "?s0\<lparr>hs_slot := [Some 6, None, None, Some 5], hs_handle_index := 1\<rparr>"
  have upd: "(replicate 4 None)[3 := Some 5] = [None, None, None, Some (5 :: addr)]"
    by (simp add: numeral_eq_Suc)
  have "register_scan ?s0 [0..<hs_slot_size ?s0] = Some 0xffffff"
    by (simp add: skynet_handle_init_def cdefs HANDLE_MASK_def slot_hash_def upt_rec)
  then have "skynet_handle_register (\<lambda>_. 0) 5 ?s0 = Some (?s1, 0xffffff)"
    using upd by (subst skynet_handle_register.simps) (simp add: skynet_handle_init_def cdefs slot_hash_def)
  moreover have "register_scan ?s1 [0..<hs_slot_size ?s1] = Some 0"
    by (simp add: skynet_handle_init_def cdefs HANDLE_MASK_def slot_hash_def upt_rec)
  then have "skynet_handle_register ((\<lambda>_. 0)(5 := 0xffffff)) 6 ?s1 = Some (?s2, 0)"
    by (subst skynet_handle_register.simps) (simp add: skynet_handle_init_def cdefs slot_hash_def)
  ultimately show "\<exists>s1 s2. skynet_handle_register (\<lambda>_. 0) 5 ?s0 = Some (s1, 0xffffff)
            \<and> skynet_handle_register ((\<lambda>_. 0)(5 := 0xffffff)) 6 s1 = Some (s2, 0)"
    by blast
qed

end
