(* ===== verification/Timer.thy ===== *)
theory Timer
  imports Prelude "HOL-Library.Multiset"
begin

text \<open>
  The hierarchical timing wheel of \<open>skynet-src/skynet_timer.c\<close>: 256 near slots and four levels of
  64 slots, indexed by the digits of the 32-bit expiry time.  A fixed-size array of lists is a
  function from the index; a \<open>struct link_list\<close> is the list of its nodes (\<open>link\<close> appends at the
  tail pointer, \<open>link_clear\<close> takes all nodes).  The clock of the machine is an argument of the
  functions that read it.
\<close>

section \<open>State and operations\<close>

record timer_event =
  te_handle :: u32
  te_session :: int

record timer_node =
  tn_expire :: u32
  tn_event :: timer_event

record timer =
  tm_near :: "nat \<Rightarrow> timer_node list"
  tm_t :: "nat \<Rightarrow> nat \<Rightarrow> timer_node list"
  tm_time :: u32
  tm_starttime :: u32
  tm_current :: u64
  tm_current_point :: u64

definition TIME_NEAR_SHIFT :: nat where [cdefs]: "TIME_NEAR_SHIFT = 8"
definition TIME_NEAR :: u32 where [cdefs]: "TIME_NEAR = push_bit TIME_NEAR_SHIFT 1"
definition TIME_LEVEL_SHIFT :: nat where [cdefs]: "TIME_LEVEL_SHIFT = 6"
definition TIME_LEVEL :: u32 where [cdefs]: "TIME_LEVEL = push_bit TIME_LEVEL_SHIFT 1"
definition TIME_NEAR_MASK :: u32 where [cdefs]: "TIME_NEAR_MASK = TIME_NEAR - 1"
definition TIME_LEVEL_MASK :: u32 where [cdefs]: "TIME_LEVEL_MASK = TIME_LEVEL - 1"

definition link_clear :: "timer_node list \<Rightarrow> timer_node list \<times> timer_node list" where
  "link_clear l = ([], l)"

definition link_node :: "timer_node list \<Rightarrow> timer_node \<Rightarrow> timer_node list" where
  "link_node l node = l @ [node]"

text \<open>The loop of \<open>add_node\<close> that looks for the level.\<close>

function add_level :: "u32 \<Rightarrow> u32 \<Rightarrow> nat \<Rightarrow> u32 \<Rightarrow> nat" where
  "add_level time current_time i m =
     (if i < 3 then
        (if time OR (m - 1) = current_time OR (m - 1) then i
         else add_level time current_time (i + 1) (push_bit TIME_LEVEL_SHIFT m))
      else i)"
  by pat_completeness auto
termination
  by (relation "measure (\<lambda>(t, c, i, m). 3 - i)") auto

declare add_level.simps [simp del]

definition add_node :: "timer \<Rightarrow> timer_node \<Rightarrow> timer" where
  "add_node T node =
     (let time = tn_expire node; current_time = tm_time T
      in if time OR TIME_NEAR_MASK = current_time OR TIME_NEAR_MASK then
           (let idx = unat (time AND TIME_NEAR_MASK)
            in T\<lparr>tm_near := (tm_near T)(idx := link_node (tm_near T idx) node)\<rparr>)
         else
           (let i = add_level time current_time 0 (push_bit TIME_LEVEL_SHIFT TIME_NEAR);
                idx = unat (drop_bit (TIME_NEAR_SHIFT + i * TIME_LEVEL_SHIFT) time AND TIME_LEVEL_MASK)
            in T\<lparr>tm_t := (tm_t T)(i := (tm_t T i)(idx := link_node (tm_t T i idx) node))\<rparr>))"

definition timer_add :: "timer \<Rightarrow> timer_event \<Rightarrow> int \<Rightarrow> timer" where
  "timer_add T event time = add_node T \<lparr>tn_expire = of_int time + tm_time T, tn_event = event\<rparr>"

definition move_list :: "timer \<Rightarrow> nat \<Rightarrow> nat \<Rightarrow> timer" where
  "move_list T level idx =
     (let (l, current) = link_clear (tm_t T level idx)
      in fold (\<lambda>node T. add_node T node) current
           (T\<lparr>tm_t := (tm_t T)(level := (tm_t T level)(idx := l))\<rparr>))"

text \<open>The loop of \<open>timer_shift\<close>.  \<open>mask\<close> is a signed \<open>int\<close> there: shifting it past the
  fourth level would overflow.\<close>

function shift_loop :: "timer \<Rightarrow> u32 \<Rightarrow> u32 \<Rightarrow> u32 \<Rightarrow> nat \<Rightarrow> timer option" where
  "shift_loop T ct m time i =
     (if ct AND (m - 1) = 0 then
        (let idx = unat (time AND TIME_LEVEL_MASK)
         in if idx \<noteq> 0 then Some (move_list T i idx)
            else if i \<ge> 3 then None
            else shift_loop T ct (push_bit TIME_LEVEL_SHIFT m) (drop_bit TIME_LEVEL_SHIFT time) (i + 1))
      else Some T)"
  by pat_completeness auto
termination
  by (relation "measure (\<lambda>(T, ct, m, time, i). 4 - i)") auto

declare shift_loop.simps [simp del]

definition timer_shift :: "timer \<Rightarrow> timer option" where
  "timer_shift T =
     (let ct = tm_time T + 1; T1 = T\<lparr>tm_time := ct\<rparr>
      in if ct = 0 then Some (move_list T1 3 0)
         else shift_loop T1 ct TIME_NEAR (drop_bit TIME_NEAR_SHIFT ct) 0)"

text \<open>The nodes that are dispatched, in order, are the second component of the results below; the
  server turns each into a message (\<open>dispatch_list\<close>).\<close>

definition timer_execute :: "timer \<Rightarrow> timer \<times> timer_node list" where
  "timer_execute T =
     (let idx = unat (tm_time T AND TIME_NEAR_MASK); (l, current) = link_clear (tm_near T idx)
      in if tm_near T idx \<noteq> [] then (T\<lparr>tm_near := (tm_near T)(idx := l)\<rparr>, current) else (T, []))"

definition timer_update :: "timer \<Rightarrow> (timer \<times> timer_node list) option" where
  "timer_update T =
     (let (T1, fired1) = timer_execute T
      in do { T2 \<leftarrow> timer_shift T1;
              let (T3, fired2) = timer_execute T2;
              Some (T3, fired1 @ fired2) })"

definition timer_create_timer :: timer where
  "timer_create_timer = \<lparr>tm_near = (\<lambda>_. []), tm_t = (\<lambda>_ _. []), tm_time = 0, tm_starttime = 0,
     tm_current = 0, tm_current_point = 0\<rparr>"

fun timer_updates :: "nat \<Rightarrow> timer \<Rightarrow> (timer \<times> timer_node list) option" where
  "timer_updates 0 T = Some (T, [])"
| "timer_updates (Suc n) T = do {
     (T1, f1) \<leftarrow> timer_update T;
     (T2, f2) \<leftarrow> timer_updates n T1;
     Some (T2, f1 @ f2) }"

text \<open>\<open>cp\<close> is the value of \<open>gettime()\<close>; the second component says whether the clock went back
  (the case the code reports).  The loop counter is an \<open>int\<close>, which a difference of \<open>2 ^ 31\<close>
  or more would overflow.\<close>

definition skynet_updatetime :: "u64 \<Rightarrow> timer \<Rightarrow> (timer \<times> bool \<times> timer_node list) option" where
  "skynet_updatetime cp T =
     (if cp < tm_current_point T then Some (T\<lparr>tm_current_point := cp\<rparr>, True, [])
      else if cp \<noteq> tm_current_point T then
        (let diff = ucast (cp - tm_current_point T) :: u32;
             T1 = T\<lparr>tm_current_point := cp, tm_current := tm_current T + ucast diff\<rparr>
         in do { _ \<leftarrow> c_assert (unat diff < 2 ^ 31);
                 (T2, fired) \<leftarrow> timer_updates (unat diff) T1;
                 Some (T2, False, fired) })
      else Some (T, False, []))"

text \<open>\<open>systime\<close> and \<open>gettime\<close>, from the seconds and nanoseconds of \<open>clock_gettime\<close>.\<close>

definition systime :: "int \<Rightarrow> int \<Rightarrow> u32 \<times> u32" where
  "systime tv_sec tv_nsec = (of_int tv_sec, of_int (tv_nsec div 10000000))"

definition gettime :: "int \<Rightarrow> int \<Rightarrow> u64" where
  "gettime tv_sec tv_nsec = of_int tv_sec * 100 + of_int (tv_nsec div 10000000)"

definition skynet_timer_init :: "int \<times> int \<Rightarrow> int \<times> int \<Rightarrow> timer" where
  "skynet_timer_init realtime monotonic =
     (let (sec, cs) = systime (fst realtime) (snd realtime)
      in timer_create_timer\<lparr>tm_starttime := sec, tm_current := ucast cs,
           tm_current_point := gettime (fst monotonic) (snd monotonic)\<rparr>)"

definition skynet_starttime :: "timer \<Rightarrow> u32" where
  "skynet_starttime T = tm_starttime T"

definition skynet_now :: "timer \<Rightarrow> u64" where
  "skynet_now T = tm_current T"

section \<open>Where a node belongs\<close>

text \<open>
  The wheel as one table: \<open>slot T L\<close> is the list at a location.  \<open>loc e t\<close> is the location of a
  node that expires at \<open>e\<close> when the time is \<open>t\<close>: the near slot of its last eight bits if \<open>e\<close> and
  \<open>t\<close> are in the same block of 256 ticks, otherwise the slot of its digit at the first level
  whose block they share, otherwise its top digit.
\<close>

datatype location = Near nat | Lvl nat nat

definition slot :: "timer \<Rightarrow> location \<Rightarrow> timer_node list" where
  "slot T L = (case L of Near i \<Rightarrow> tm_near T i | Lvl k j \<Rightarrow> tm_t T k j)"

definition same_block :: "nat \<Rightarrow> u32 \<Rightarrow> u32 \<Rightarrow> bool" where
  "same_block k e t \<longleftrightarrow> unat e div 2 ^ k = unat t div 2 ^ k"

definition loc :: "u32 \<Rightarrow> u32 \<Rightarrow> location" where
  "loc e t =
     (if same_block 8 e t then Near (unat e mod 2 ^ 8)
      else if same_block 14 e t then Lvl 0 (unat e div 2 ^ 8 mod 64)
      else if same_block 20 e t then Lvl 1 (unat e div 2 ^ 14 mod 64)
      else if same_block 26 e t then Lvl 2 (unat e div 2 ^ 20 mod 64)
      else Lvl 3 (unat e div 2 ^ 26 mod 64))"

lemma slot_Near [simp]: "slot T (Near i) = tm_near T i"
  and slot_Lvl [simp]: "slot T (Lvl k j) = tm_t T k j"
  by (simp_all add: slot_def)

lemma u32_lt: "unat (x :: u32) < 2 ^ 32"
  using unsigned_less[of x, where 'a = nat] by simp

lemma or_mask_eq_iff:
  "x OR mask k = y OR mask k \<longleftrightarrow> drop_bit k x = drop_bit k (y :: 'a::len word)"
proof
  assume "x OR mask k = y OR mask k"
  then have "bit x (k + n) = bit y (k + n)" for n
    by (metis bit_mask_iff bit_or_iff le_add1 linorder_not_le)
  then show "drop_bit k x = drop_bit k y"
    by (intro bit_eqI) (simp add: bit_drop_bit_eq)
next
  assume d: "drop_bit k x = drop_bit k y"
  show "x OR mask k = y OR mask k"
  proof (rule bit_eqI)
    fix n
    have "k \<le> n \<Longrightarrow> bit x n = bit y n"
      using d by (metis bit_drop_bit_eq comp_apply le_add_diff_inverse)
    then show "bit (x OR mask k) n = bit (y OR mask k) n"
      by (cases "k \<le> n") (auto simp: bit_or_iff bit_mask_iff bit_imp_le_length dest: bit_imp_le_length)
  qed
qed

lemma same_block_or:
  assumes "m = 2 ^ k" "k < 32"
  shows "x OR (m - 1) = y OR (m - 1) \<longleftrightarrow> same_block k x y"
proof -
  have "m - 1 = mask k" using assms by (simp add: mask_eq_exp_minus_1)
  then show ?thesis
    by (simp only: or_mask_eq_iff same_block_def word_unat_eq_iff[of "drop_bit k x"] unat_drop_bit_eq
        drop_bit_nat_def)
qed

lemma unat_and_mask: "unat (x AND (2 ^ k - 1) :: 'a::len word) = unat x mod 2 ^ k"
proof -
  have "x AND (2 ^ k - 1) = take_bit k x" by (simp add: take_bit_eq_mask mask_eq_exp_minus_1)
  then show ?thesis by (simp only: unsigned_take_bit_eq take_bit_nat_def)
qed

lemma near_index: "unat (x AND TIME_NEAR_MASK) = unat x mod 2 ^ 8"
  using unat_and_mask[of x 8] by (simp add: cdefs)

lemma digit_index: "unat (drop_bit k x AND TIME_LEVEL_MASK) = unat x div 2 ^ k mod 64"
  using unat_and_mask[of "drop_bit k x" 6] by (simp add: cdefs unat_drop_bit_eq drop_bit_nat_def)

lemma same_block_near: "x OR TIME_NEAR_MASK = y OR TIME_NEAR_MASK \<longleftrightarrow> same_block 8 x y"
  using same_block_or[of 256 8 x y] by (simp add: cdefs)

lemma add_level_eq:
  "add_level e t 0 (push_bit TIME_LEVEL_SHIFT TIME_NEAR) =
     (if same_block 14 e t then 0 else if same_block 20 e t then 1 else if same_block 26 e t then 2 else 3)"
  using same_block_or[of "2 ^ 14" 14 e t] same_block_or[of "2 ^ 20" 20 e t]
    same_block_or[of "2 ^ 26" 26 e t]
  by (simp add: add_level.simps cdefs)

text \<open>\<open>add_node\<close> appends the node at its location and touches nothing else.\<close>

lemma slot_add_node:
  "slot (add_node T n) = (slot T)(loc (tn_expire n) (tm_time T) := slot T (loc (tn_expire n) (tm_time T)) @ [n])"
proof
  fix L
  show "slot (add_node T n) L
      = ((slot T)(loc (tn_expire n) (tm_time T) := slot T (loc (tn_expire n) (tm_time T)) @ [n])) L"
    unfolding add_node_def Let_def add_level_eq same_block_near near_index digit_index link_node_def
      loc_def
    unfolding TIME_NEAR_SHIFT_def TIME_LEVEL_SHIFT_def
    by (cases L) auto
qed

lemma tm_time_add_node [simp]: "tm_time (add_node T n) = tm_time T"
  by (simp add: add_node_def Let_def)

lemma tm_time_fold_add [simp]: "tm_time (fold (\<lambda>node T. add_node T node) ns T) = tm_time T"
  by (induction ns arbitrary: T) auto

section \<open>One tick\<close>

text \<open>The list that \<open>timer_shift\<close> moves when the time becomes \<open>t\<close>.\<close>

definition shift_target :: "u32 \<Rightarrow> location option" where
  "shift_target t =
     (if unat t mod 2 ^ 8 \<noteq> 0 then None
      else if unat t div 2 ^ 8 mod 64 \<noteq> 0 then Some (Lvl 0 (unat t div 2 ^ 8 mod 64))
      else if unat t div 2 ^ 14 mod 64 \<noteq> 0 then Some (Lvl 1 (unat t div 2 ^ 14 mod 64))
      else if unat t div 2 ^ 20 mod 64 \<noteq> 0 then Some (Lvl 2 (unat t div 2 ^ 20 mod 64))
      else Some (Lvl 3 (unat t div 2 ^ 26 mod 64)))"

definition move_loc :: "timer \<Rightarrow> location option \<Rightarrow> timer" where
  "move_loc T L = (case L of Some (Lvl k j) \<Rightarrow> move_list T k j | _ \<Rightarrow> T)"

lemma and_mask_0: "x AND (2 ^ k - 1) = (0::u32) \<longleftrightarrow> unat x mod 2 ^ k = 0"
  using unat_and_mask[of x k] by (metis unat_eq_zero)

lemma mod_pow_split: "(x::nat) mod 2 ^ (a + b) = 0 \<longleftrightarrow> x mod 2 ^ a = 0 \<and> x div 2 ^ a mod 2 ^ b = 0"
  by (auto simp: power_add mod_mult2_eq)

lemma shift_loop_step:
  assumes "m = 2 ^ d"
  shows "shift_loop T ct m (drop_bit d ct) i =
     (if unat ct mod 2 ^ d \<noteq> 0 then Some T
      else if unat ct div 2 ^ d mod 64 \<noteq> 0 then Some (move_list T i (unat ct div 2 ^ d mod 64))
      else if i \<ge> 3 then None
      else shift_loop T ct (push_bit 6 m) (drop_bit (6 + d) ct) (i + 1))"
  unfolding assms
  by (subst shift_loop.simps, cases "unat ct mod 2 ^ d = 0")
    (simp_all only: Let_def digit_index and_mask_0 TIME_LEVEL_SHIFT_def drop_bit_drop_bit
      if_True if_False not_False_eq_True not_True_eq_False simp_thms)

lemma shift_loop_eq:
  "shift_loop T ct (2 ^ 8) (drop_bit 8 ct) 0 =
     (if unat ct mod 2 ^ 8 \<noteq> 0 then Some T
      else if unat ct div 2 ^ 8 mod 64 \<noteq> 0 then Some (move_list T 0 (unat ct div 2 ^ 8 mod 64))
      else if unat ct mod 2 ^ 14 \<noteq> 0 then Some T
      else if unat ct div 2 ^ 14 mod 64 \<noteq> 0 then Some (move_list T 1 (unat ct div 2 ^ 14 mod 64))
      else if unat ct mod 2 ^ 20 \<noteq> 0 then Some T
      else if unat ct div 2 ^ 20 mod 64 \<noteq> 0 then Some (move_list T 2 (unat ct div 2 ^ 20 mod 64))
      else if unat ct mod 2 ^ 26 \<noteq> 0 then Some T
      else if unat ct div 2 ^ 26 mod 64 \<noteq> 0 then Some (move_list T 3 (unat ct div 2 ^ 26 mod 64))
      else None)"
proof -
  have p: "push_bit 6 (2 ^ 8) = (2 ^ 14 :: u32)" "push_bit 6 (2 ^ 14) = (2 ^ 20 :: u32)"
    "push_bit 6 (2 ^ 20) = (2 ^ 26 :: u32)" by simp_all
  have n: "6 + 8 = (14::nat)" "6 + 14 = (20::nat)" "6 + 20 = (26::nat)" "0 + 1 = (1::nat)" "1 + 1 = (2::nat)"
    "2 + 1 = (3::nat)" "\<not> 3 \<le> (0::nat)" "\<not> 3 \<le> (1::nat)" "\<not> 3 \<le> (2::nat)" by simp_all
  show ?thesis
    by (simp only: shift_loop_step[of "2 ^ 8" 8] shift_loop_step[of "2 ^ 14" 14]
        shift_loop_step[of "2 ^ 20" 20] shift_loop_step[of "2 ^ 26" 26] p n if_False order.refl if_True)
qed

lemma timer_shift_target:
  "timer_shift T = Some (move_loc (T\<lparr>tm_time := tm_time T + 1\<rparr>) (shift_target (tm_time T + 1)))"
proof (cases "tm_time T + 1 = 0")
  case True
  then show ?thesis by (simp add: timer_shift_def move_loc_def shift_target_def Let_def)
next
  case False
  let ?ct = "tm_time T + 1" and ?T = "T\<lparr>tm_time := tm_time T + 1\<rparr>"
  define x where "x = unat ?ct"
  have "x < 2 ^ 32" using u32_lt[of ?ct] by (simp only: x_def)
  have "x \<noteq> 0" using False by (simp add: x_def unat_eq_zero)
  have z14: "x mod 2 ^ 14 = 0" if "x mod 2 ^ 8 = 0" "x div 2 ^ 8 mod 64 = 0"
    using that mod_pow_split[of x 8 6] by simp
  have z20: "x mod 2 ^ 20 = 0" if "x mod 2 ^ 14 = 0" "x div 2 ^ 14 mod 64 = 0"
    using that mod_pow_split[of x 14 6] by simp
  have z26: "x mod 2 ^ 26 = 0" if "x mod 2 ^ 20 = 0" "x div 2 ^ 20 mod 64 = 0"
    using that mod_pow_split[of x 20 6] by simp
  have z32: "x div 2 ^ 26 mod 64 \<noteq> 0" if "x mod 2 ^ 26 = 0"
    using that \<open>x \<noteq> 0\<close> \<open>x < 2 ^ 32\<close> mod_pow_split[of x 26 6] by (auto simp: mod_less)
  have "TIME_NEAR = 2 ^ 8" by (simp add: cdefs)
  then have "timer_shift T = shift_loop ?T ?ct (2 ^ 8) (drop_bit 8 ?ct) 0"
    using False by (simp only: timer_shift_def Let_def TIME_NEAR_SHIFT_def if_False)
  also have "\<dots> = Some (move_loc ?T (shift_target ?ct))"
    unfolding shift_loop_eq shift_target_def x_def[symmetric]
    by (cases "x mod 2 ^ 8 = 0"; cases "x div 2 ^ 8 mod 64 = 0"; cases "x div 2 ^ 14 mod 64 = 0";
        cases "x div 2 ^ 20 mod 64 = 0")
      (simp_all only: z14 z20 z26 z32 move_loc_def option.case location.case if_True if_False
        not_False_eq_True not_True_eq_False simp_thms)
  finally show ?thesis .
qed

text \<open>Arithmetic of one tick, for a node that expires later: \<open>e\<close> is ahead of \<open>t\<close> by less than
  \<open>2 ^ 31\<close> ticks, as the \<open>int\<close> delay of \<open>skynet_timeout\<close> guarantees.\<close>

definition ahead :: "u32 \<Rightarrow> u32 \<Rightarrow> bool" where
  "ahead e t \<longleftrightarrow> 0 < unat (e - t) \<and> unat (e - t) < 2 ^ 31"

lemma same_block_mono: "same_block k e t \<Longrightarrow> k \<le> l \<Longrightarrow> same_block l e t"
  unfolding same_block_def by (metis div_mult2_eq le_add_diff_inverse power_add)

lemma ahead_same_block_less:
  assumes "ahead e t" "same_block k e t" "k \<le> 26"
  shows "unat t < unat e"
proof (rule ccontr)
  assume le: "\<not> unat t < unat e"
  from assms have "same_block 26 e t" by (blast intro: same_block_mono)
  then have "unat t - unat e < 2 ^ 26"
    unfolding same_block_def by (metis div_mult_mod_eq add_diff_cancel_left less_imp_diff_less mod_less_divisor
        zero_less_numeral zero_less_power)
  moreover have "unat (e - t) = (if unat e = unat t then 0 else 2 ^ 32 - (unat t - unat e))"
    using le u32_lt[of t] u32_lt[of e]
    by (auto simp: unat_sub_if_size word_size not_less)
  ultimately show False using assms(1) by (auto simp: ahead_def split: if_splits)
qed

lemma unat_tick: "unat (t + 1 :: u32) = (if unat t = 2 ^ 32 - 1 then 0 else unat t + 1)"
  using u32_lt[of t] by (auto simp: unat_word_ariths mod_less)

lemma tick_block:
  assumes "unat (t + 1 :: u32) mod 2 ^ k \<noteq> 0"
  shows "same_block k e (t + 1) = same_block k e t"
proof -
  have "unat (t + 1) = unat t + 1" using assms by (auto simp: unat_tick split: if_splits)
  moreover from this assms have "(unat t + 1) div 2 ^ k = unat t div 2 ^ k"
    by (metis Suc_eq_plus1 div_Suc)
  ultimately show ?thesis by (simp add: same_block_def)
qed

lemma tick_new_block:
  assumes "ahead e t" "unat (t + 1) mod 2 ^ k = 0" "k \<le> 26"
  shows "\<not> same_block k e t"
proof
  assume sb: "same_block k e t"
  from ahead_same_block_less[OF assms(1) sb assms(3)] have lt: "unat t < unat e" .
  then have t1: "unat (t + 1) = unat t + 1" using u32_lt[of e] by (auto simp: unat_tick)
  have "(unat t + 1) div 2 ^ k = Suc (unat t div 2 ^ k)"
    using assms(2) t1 by (simp add: div_Suc)
  moreover have "(unat t + 1) div 2 ^ k \<le> unat e div 2 ^ k"
    using lt by (intro div_le_mono) simp
  ultimately show False using sb by (simp add: same_block_def)
qed


lemma same_block_at_tick:
  assumes "ahead e t" "unat (t + 1) mod 2 ^ k = 0" "k \<le> 26" "j \<le> k"
  shows "\<not> same_block j e t"
  using tick_new_block[OF assms(1-3)] same_block_mono[OF _ assms(4)] by blast

lemma mod_pow_mono: "(x::nat) mod 2 ^ k \<noteq> 0 \<Longrightarrow> k \<le> l \<Longrightarrow> x mod 2 ^ l \<noteq> 0"
  by (metis le_add_diff_inverse mod_pow_split)

text \<open>A node that is not in the list \<open>timer_shift\<close> moves is still at the right place afterwards.\<close>

lemma loc_tick:
  assumes a: "ahead e t" and nt: "shift_target (t + 1) \<noteq> Some (loc e t)"
  shows "loc e (t + 1) = loc e t"
proof -
  let ?x = "unat (t + 1)"
  have new: "?x mod 2 ^ k = 0 \<Longrightarrow> k \<le> 26 \<Longrightarrow> j \<le> k \<Longrightarrow> \<not> same_block j e t" for j k
    by (rule same_block_at_tick[OF a])
  have old: "?x mod 2 ^ k \<noteq> 0 \<Longrightarrow> k \<le> j \<Longrightarrow> same_block j e (t + 1) = same_block j e t" for j k
    using tick_block mod_pow_mono by blast
  have mono: "\<not> same_block k e (t + 1) \<Longrightarrow> j \<le> k \<Longrightarrow> \<not> same_block j e (t + 1)" for j k
    using same_block_mono by blast
  have dig: "same_block k e (t + 1) \<Longrightarrow> unat e div 2 ^ k mod 64 = ?x div 2 ^ k mod 64" for k
    by (simp only: same_block_def)
  consider (none) "?x mod 2 ^ 8 \<noteq> 0"
    | (l0) "?x mod 2 ^ 8 = 0" "?x mod 2 ^ 14 \<noteq> 0"
    | (l1) "?x mod 2 ^ 14 = 0" "?x mod 2 ^ 20 \<noteq> 0"
    | (l2) "?x mod 2 ^ 20 = 0" "?x mod 2 ^ 26 \<noteq> 0"
    | (l3) "?x mod 2 ^ 26 = 0" by blast
  then show ?thesis
  proof cases
    case none
    show ?thesis unfolding loc_def by (simp only: old[OF none] order.refl numeral_le_iff le_num_simps)
  next
    case l0
    have d: "?x div 2 ^ 8 mod 64 \<noteq> 0" using l0 mod_pow_split[of ?x 8 6] by simp
    have "\<not> same_block 8 e (t + 1)"
      using nt l0 d dig[of 8] old[OF l0(2), of 14] new[OF l0(1), of 8] same_block_mono[of 8 e "t + 1" 14]
      by (auto simp: shift_target_def loc_def)
    then show ?thesis
      using new[OF l0(1), of 8] old[OF l0(2), of 14] old[OF l0(2), of 20] old[OF l0(2), of 26]
      by (simp add: loc_def)
  next
    case l1
    have d: "?x div 2 ^ 14 mod 64 \<noteq> 0" "?x mod 2 ^ 8 = 0" "?x div 2 ^ 8 mod 64 = 0"
      using l1 mod_pow_split[of ?x 14 6] mod_pow_split[of ?x 8 6] by simp_all
    have "\<not> same_block 14 e (t + 1)"
      using nt l1 d dig[of 14] old[OF l1(2), of 20] new[OF l1(1), of 8] new[OF l1(1), of 14]
        same_block_mono[of 14 e "t + 1" 20]
      by (auto simp: shift_target_def loc_def)
    then show ?thesis
      using mono[of 14 8] new[OF l1(1), of 8] new[OF l1(1), of 14] old[OF l1(2), of 20] old[OF l1(2), of 26]
      by (simp add: loc_def)
  next
    case l2
    have d: "?x div 2 ^ 20 mod 64 \<noteq> 0" "?x mod 2 ^ 8 = 0" "?x div 2 ^ 8 mod 64 = 0" "?x div 2 ^ 14 mod 64 = 0"
      using l2 mod_pow_split[of ?x 20 6] mod_pow_split[of ?x 14 6] mod_pow_split[of ?x 8 6] by simp_all
    have "\<not> same_block 20 e (t + 1)"
      using nt l2 d dig[of 20] old[OF l2(2), of 26] new[OF l2(1), of 8] new[OF l2(1), of 14]
        new[OF l2(1), of 20] same_block_mono[of 20 e "t + 1" 26]
      by (auto simp: shift_target_def loc_def)
    then show ?thesis
      using mono[of 20 8] mono[of 20 14] new[OF l2(1), of 8] new[OF l2(1), of 14] new[OF l2(1), of 20]
        old[OF l2(2), of 26]
      by (simp add: loc_def)
  next
    case l3
    have d: "?x mod 2 ^ 8 = 0" "?x div 2 ^ 8 mod 64 = 0" "?x div 2 ^ 14 mod 64 = 0" "?x div 2 ^ 20 mod 64 = 0"
      using l3 mod_pow_split[of ?x 20 6] mod_pow_split[of ?x 14 6] mod_pow_split[of ?x 8 6] by simp_all
    have "\<not> same_block 26 e (t + 1)"
      using nt d dig[of 26] new[OF l3, of 8] new[OF l3, of 14] new[OF l3, of 20] new[OF l3, of 26]
      by (auto simp: shift_target_def loc_def)
    then show ?thesis
      using mono[of 26 8] mono[of 26 14] mono[of 26 20]
        new[OF l3, of 8] new[OF l3, of 14] new[OF l3, of 20] new[OF l3, of 26]
      by (simp add: loc_def)
  qed
qed

lemma ahead_tick: "ahead e t \<Longrightarrow> e \<noteq> t + 1 \<Longrightarrow> ahead e (t + 1)"
  and ahead_dist: "ahead e t \<Longrightarrow> unat (e - (t + 1)) = unat (e - t) - 1"
  and ahead_irrefl: "\<not> ahead e e"
proof -
  have *: "unat (x - 1) = unat x - 1" if "0 < unat x" for x :: u32
    using that by (intro unat_minus_one) auto
  show d: "unat (e - (t + 1)) = unat (e - t) - 1" if "ahead e t"
    using that *[of "e - t"] by (simp add: ahead_def algebra_simps)
  show "ahead e (t + 1)" if "ahead e t" "e \<noteq> t + 1"
  proof -
    have "unat (e - (t + 1)) \<noteq> 0" using that(2) by (simp only: unat_eq_zero right_minus_eq not_False_eq_True)
    then show ?thesis using that d[OF that(1)] by (auto simp: ahead_def)
  qed
  show "\<not> ahead e e" by (simp add: ahead_def)
qed

section \<open>The wheel as a multiset of pending nodes\<close>

definition wheel_ok :: "timer \<Rightarrow> bool" where
  "wheel_ok T \<longleftrightarrow> (\<forall>L. \<forall>n \<in> set (slot T L). loc (tn_expire n) (tm_time T) = L \<and> ahead (tn_expire n) (tm_time T))"

definition locations :: "location set" where
  "locations = Near ` {..<256} \<union> (\<lambda>(k, j). Lvl k j) ` ({..<4} \<times> {..<64})"

definition pending :: "timer \<Rightarrow> timer_node multiset" where
  "pending T = (\<Sum>L \<in> locations. mset (slot T L))"

lemma finite_locations [simp]: "finite locations"
  by (simp add: locations_def)

lemma loc_in_locations [simp]: "loc e t \<in> locations"
  by (auto simp: loc_def locations_def)

lemma wheel_okD:
  assumes "wheel_ok T" "n \<in> set (slot T L)"
  shows "L = loc (tn_expire n) (tm_time T)" and "ahead (tn_expire n) (tm_time T)"
  using assms by (auto simp: wheel_ok_def)

lemma count_pending:
  assumes "wheel_ok T"
  shows "count (pending T) n = count (mset (slot T (loc (tn_expire n) (tm_time T)))) n"
proof -
  have z: "count (mset (slot T L)) n = 0" if "L \<in> locations - {loc (tn_expire n) (tm_time T)}" for L
    using that wheel_okD(1)[OF assms, of n L] by (auto simp: count_eq_zero_iff)
  have "count (pending T) n = (\<Sum>L \<in> locations. count (mset (slot T L)) n)"
    by (simp add: pending_def count_sum)
  also have "\<dots> = count (mset (slot T (loc (tn_expire n) (tm_time T)))) n"
    using z by (subst sum.remove[of _ "loc (tn_expire n) (tm_time T)"]) (simp_all add: sum.neutral)
  finally show ?thesis .
qed

lemma pending_ahead:
  assumes "wheel_ok T" "n \<in># pending T"
  shows "ahead (tn_expire n) (tm_time T)"
  using assms count_pending[OF assms(1), of n] wheel_okD(2)[OF assms(1), of n]
  by (metis count_greater_zero_iff set_mset_mset)

lemma slot_create [simp]: "slot timer_create_timer L = []"
  by (cases L) (simp_all add: timer_create_timer_def)

lemma wheel_ok_create: "wheel_ok timer_create_timer"
  and pending_create: "pending timer_create_timer = {#}"
  by (simp_all add: wheel_ok_def pending_def)

lemma slot_fold_add:
  "slot (fold (\<lambda>node T. add_node T node) ns T) L
     = slot T L @ filter (\<lambda>n. loc (tn_expire n) (tm_time T) = L) ns"
  by (induction ns arbitrary: T) (auto simp: slot_add_node)

lemma wheel_ok_add_node:
  assumes "wheel_ok T" "ahead (tn_expire n) (tm_time T)"
  shows "wheel_ok (add_node T n)" and "pending (add_node T n) = add_mset n (pending T)"
proof -
  show ok: "wheel_ok (add_node T n)"
    using assms by (auto simp: wheel_ok_def slot_add_node)
  show "pending (add_node T n) = add_mset n (pending T)"
    by (rule multiset_eqI) (auto simp: count_pending[OF ok] count_pending[OF assms(1)] slot_add_node)
qed

lemma wheel_ok_timer_add:
  assumes "wheel_ok T" "0 < d" "d < 2 ^ 31"
  shows "wheel_ok (timer_add T ev d)"
    and "pending (timer_add T ev d) = add_mset \<lparr>tn_expire = tm_time T + of_int d, tn_event = ev\<rparr> (pending T)"
    and "tm_time (timer_add T ev d) = tm_time T"
proof -
  have "unat (of_int d :: u32) = nat d"
    using assms by (simp add: unat_eq_nat_uint uint_word_of_int_eq take_bit_int_eq_self)
  then have a: "ahead (tm_time T + of_int d) (tm_time T)"
    using assms by (simp add: ahead_def)
  show "wheel_ok (timer_add T ev d)"
    and "pending (timer_add T ev d) = add_mset \<lparr>tn_expire = tm_time T + of_int d, tn_event = ev\<rparr> (pending T)"
    using wheel_ok_add_node[OF assms(1), of "\<lparr>tn_expire = tm_time T + of_int d, tn_event = ev\<rparr>"] a
    by (simp_all add: timer_add_def add.commute)
qed (simp add: timer_add_def)

text \<open>\<open>timer_shift\<close> puts every node where it belongs at the new time; only nodes that expire at
  that very time are no longer ahead.\<close>

lemma slot_move_loc:
  "slot (move_loc T (Some (Lvl k j))) L = (if L = Lvl k j then [] else slot T L)
      @ filter (\<lambda>n. loc (tn_expire n) (tm_time T) = L) (slot T (Lvl k j))"
  unfolding move_loc_def option.case location.case move_list_def link_clear_def Let_def split slot_fold_add
  by (cases L) auto

lemma shift_target_cases:
  obtains "shift_target t = None" | k j where "shift_target t = Some (Lvl k j)"
proof -
  have "shift_target t = None \<or> (\<exists>k j. shift_target t = Some (Lvl k j))"
    unfolding shift_target_def by (simp only: split: if_split) blast
  then show ?thesis using that by blast
qed

lemma timer_shift_slots:
  assumes ok: "wheel_ok T" and sh: "timer_shift T = Some T'"
  shows "mset (slot T' L) = filter_mset (\<lambda>n. loc (tn_expire n) (tm_time T + 1) = L) (pending T)"
    and "tm_time T' = tm_time T + 1"
proof -
  let ?T1 = "T\<lparr>tm_time := tm_time T + 1\<rparr>" and ?t = "tm_time T + 1"
  have T': "T' = move_loc ?T1 (shift_target ?t)"
    using sh by (simp add: timer_shift_target)
  have s1: "slot ?T1 = slot T" by (simp add: slot_def fun_eq_iff split: location.split)
  show time: "tm_time T' = ?t"
    by (cases rule: shift_target_cases[of ?t]) (auto simp: T' move_loc_def move_list_def link_clear_def)
  have stay: "loc (tn_expire n) ?t = L0" if "n \<in> set (slot T L0)" "shift_target ?t \<noteq> Some L0" for n :: timer_node and L0
    using loc_tick[of "tn_expire n" "tm_time T"] wheel_okD[OF ok that(1)] that(2) by metis
  show "mset (slot T' L) = filter_mset (\<lambda>n. loc (tn_expire n) ?t = L) (pending T)"
  proof (rule multiset_eqI)
    fix n :: timer_node
    let ?L0 = "loc (tn_expire n) (tm_time T)"
    have old: "count (mset (slot T L0)) n = (if L0 = ?L0 then count (pending T) n else 0)" for L0
      using wheel_okD(1)[OF ok, of n L0] by (auto simp: count_pending[OF ok] count_eq_zero_iff)
    have mv: "loc (tn_expire n) ?t = ?L0 \<or> count (pending T) n = 0" if "shift_target ?t \<noteq> Some ?L0"
      using stay[of n ?L0] that by (metis count_pending[OF ok] count_eq_zero_iff set_mset_mset)
    show "count (mset (slot T' L)) n = count (filter_mset (\<lambda>n. loc (tn_expire n) ?t = L) (pending T)) n"
    proof (cases rule: shift_target_cases[of ?t])
      case 1
      then show ?thesis using mv old[of L] by (auto simp: T' move_loc_def s1)
    next
      case (2 k j)
      then show ?thesis
        using mv old[of L] old[of "Lvl k j"]
        by (auto simp: T' 2 slot_move_loc s1)
    qed
  qed
qed

lemma slot_timer_execute:
  assumes "timer_execute T = (T', fired)"
  shows "slot T' = (slot T)(Near (unat (tm_time T) mod 2 ^ 8) := [])"
    and "fired = slot T (Near (unat (tm_time T) mod 2 ^ 8))" and "tm_time T' = tm_time T"
proof -
  show "slot T' = (slot T)(Near (unat (tm_time T) mod 2 ^ 8) := [])"
  proof
    fix L
    show "slot T' L = ((slot T)(Near (unat (tm_time T) mod 2 ^ 8) := [])) L"
      using assms unfolding timer_execute_def near_index Let_def link_clear_def split
      by (cases L) (auto split: if_splits)
  qed
qed (use assms in \<open>auto simp: timer_execute_def near_index Let_def link_clear_def split: if_splits\<close>)

lemma loc_Near_now: "loc e t = Near (unat t mod 2 ^ 8) \<longleftrightarrow> e = t"
proof
  assume "loc e t = Near (unat t mod 2 ^ 8)"
  then have "same_block 8 e t" "unat e mod 2 ^ 8 = unat t mod 2 ^ 8"
    by (auto simp: loc_def split: if_splits)
  then show "e = t" unfolding same_block_def by (metis div_mult_mod_eq word_unat_eq_iff)
qed (simp add: loc_def same_block_def)

text \<open>One tick fires exactly the pending nodes that expire at the new time and keeps the others.\<close>

lemma timer_update_spec:
  assumes ok: "wheel_ok T"
  shows "\<exists>T' fired. timer_update T = Some (T', fired) \<and> wheel_ok T' \<and> tm_time T' = tm_time T + 1
     \<and> mset fired = filter_mset (\<lambda>n. tn_expire n = tm_time T + 1) (pending T)
     \<and> pending T' = filter_mset (\<lambda>n. tn_expire n \<noteq> tm_time T + 1) (pending T)"
proof -
  let ?t = "tm_time T + 1"
  obtain T1 f1 where e1: "timer_execute T = (T1, f1)" by fastforce
  have near0: "slot T (Near (unat (tm_time T) mod 2 ^ 8)) = []"
  proof (rule ccontr)
    assume "slot T (Near (unat (tm_time T) mod 2 ^ 8)) \<noteq> []"
    then obtain n where "n \<in> set (slot T (Near (unat (tm_time T) mod 2 ^ 8)))" by fastforce
    from wheel_okD[OF ok this] show False by (metis ahead_irrefl loc_Near_now)
  qed
  have f1: "f1 = []" and s1: "slot T1 = slot T" and t1: "tm_time T1 = tm_time T"
    using slot_timer_execute[OF e1] near0 by (auto simp del: slot_Near)
  have ok1: "wheel_ok T1" and p1: "pending T1 = pending T"
    using ok by (simp_all add: wheel_ok_def pending_def s1 t1)
  obtain T2 where sh: "timer_shift T1 = Some T2" by (simp add: timer_shift_target)
  note s2 = timer_shift_slots[OF ok1 sh, unfolded t1 p1]
  obtain T3 f2 where e2: "timer_execute T2 = (T3, f2)" by fastforce
  note s3 = slot_timer_execute[OF e2, unfolded s2(2)]
  have upd: "timer_update T = Some (T3, f2)"
    by (simp add: timer_update_def e1 sh e2 f1)
  have f2: "mset f2 = filter_mset (\<lambda>n. tn_expire n = ?t) (pending T)"
    unfolding s3(2) s2(1) loc_Near_now ..
  have s3': "mset (slot T3 L) = filter_mset (\<lambda>n. loc (tn_expire n) ?t = L \<and> tn_expire n \<noteq> ?t) (pending T)" for L
  proof (cases "L = Near (unat ?t mod 2 ^ 8)")
    case True
    have "(loc (tn_expire n) ?t = L \<and> tn_expire n \<noteq> ?t) = False" for n :: timer_node
      unfolding True loc_Near_now by blast
    then show ?thesis unfolding s3(1) True by (simp only: fun_upd_same mset.simps filter_mset_False)
  next
    case False
    have "(loc (tn_expire n) ?t = L \<and> tn_expire n \<noteq> ?t) = (loc (tn_expire n) ?t = L)" for n :: timer_node
      using False loc_Near_now by metis
    then show ?thesis unfolding s3(1) by (simp only: fun_upd_other[OF False] s2(1))
  qed
  have ok3: "wheel_ok T3"
    unfolding wheel_ok_def s3(3)
  proof (intro allI ballI)
    fix L n assume "n \<in> set (slot T3 L)"
    then have "n \<in># filter_mset (\<lambda>n. loc (tn_expire n) ?t = L \<and> tn_expire n \<noteq> ?t) (pending T)"
      by (simp flip: s3' set_mset_mset del: set_mset_filter)
    then show "loc (tn_expire n) ?t = L \<and> ahead (tn_expire n) ?t"
      using pending_ahead[OF ok] ahead_tick by auto
  qed
  have "pending T3 = filter_mset (\<lambda>n. tn_expire n \<noteq> ?t) (pending T)"
    by (rule multiset_eqI) (simp add: count_pending[OF ok3] s3' s3(3))
  with upd ok3 s3(3) f2 show ?thesis by blast
qed

section \<open>The contract of a timer and its clients\<close>

text \<open>A script of calls: \<open>TAdd\<close> is \<open>timer_add\<close>, \<open>Tick\<close> is \<open>timer_update\<close>.  \<open>timer_run\<close> gives the
  list of the nodes fired by each tick.\<close>

datatype timer_op = TAdd timer_event int | Tick

fun timer_run :: "('t \<Rightarrow> timer_event \<Rightarrow> int \<Rightarrow> 't) \<Rightarrow> ('t \<Rightarrow> ('t \<times> timer_node list) option)
    \<Rightarrow> timer_op list \<Rightarrow> 't \<Rightarrow> timer_node list list option" where
  "timer_run add tick [] T = Some []"
| "timer_run add tick (TAdd ev d # ops) T = timer_run add tick ops (add T ev d)"
| "timer_run add tick (Tick # ops) T = do {
     (T1, fired) \<leftarrow> tick T; log \<leftarrow> timer_run add tick ops T1; Some (fired # log) }"

definition ticks :: "timer_op list \<Rightarrow> nat" where
  "ticks ops = length (filter (\<lambda>x. x = Tick) ops)"

definition delays_ok :: "timer_op list \<Rightarrow> bool" where
  "delays_ok ops \<longleftrightarrow> (\<forall>x \<in> set ops. case x of TAdd ev d \<Rightarrow> 0 < d \<and> d < 2 ^ 31 | Tick \<Rightarrow> True)"

definition adds_event :: "timer_event \<Rightarrow> timer_op list \<Rightarrow> bool" where
  "adds_event ev ops \<longleftrightarrow> (\<exists>d. TAdd ev d \<in> set ops)"

lemma script_simps [simp]:
  "ticks [] = 0" "ticks (TAdd e d # ops) = ticks ops" "ticks (Tick # ops) = Suc (ticks ops)"
  "delays_ok []" "delays_ok (TAdd e d # ops) \<longleftrightarrow> 0 < d \<and> d < 2 ^ 31 \<and> delays_ok ops"
  "delays_ok (Tick # ops) = delays_ok ops"
  "\<not> adds_event ev []" "adds_event ev (TAdd e d # ops) \<longleftrightarrow> e = ev \<or> adds_event ev ops"
  "adds_event ev (Tick # ops) = adds_event ev ops"
  by (auto simp: ticks_def delays_ok_def adds_event_def)

locale timer_service =
  fixes ok :: "'t \<Rightarrow> bool"
    and now :: "'t \<Rightarrow> u32"
    and todo :: "'t \<Rightarrow> timer_node multiset"
    and add :: "'t \<Rightarrow> timer_event \<Rightarrow> int \<Rightarrow> 't"
    and tick :: "'t \<Rightarrow> ('t \<times> timer_node list) option"
  assumes add_ok: "ok T \<Longrightarrow> 0 < d \<Longrightarrow> d < 2 ^ 31 \<Longrightarrow> ok (add T ev d)"
    and add_now: "ok T \<Longrightarrow> 0 < d \<Longrightarrow> d < 2 ^ 31 \<Longrightarrow> now (add T ev d) = now T"
    and add_todo: "ok T \<Longrightarrow> 0 < d \<Longrightarrow> d < 2 ^ 31 \<Longrightarrow>
      todo (add T ev d) = add_mset \<lparr>tn_expire = now T + of_int d, tn_event = ev\<rparr> (todo T)"
    and todo_ahead: "ok T \<Longrightarrow> n \<in># todo T \<Longrightarrow> ahead (tn_expire n) (now T)"
    and tick_spec: "ok T \<Longrightarrow> \<exists>T' fired. tick T = Some (T', fired) \<and> ok T' \<and> now T' = now T + 1
      \<and> mset fired = filter_mset (\<lambda>n. tn_expire n = now T + 1) (todo T)
      \<and> todo T' = filter_mset (\<lambda>n. tn_expire n \<noteq> now T + 1) (todo T)"
begin

lemma run_returns: "ok T \<Longrightarrow> delays_ok ops \<Longrightarrow> \<exists>log. timer_run add tick ops T = Some log \<and> length log = ticks ops"
proof (induction ops arbitrary: T)
  case (Cons x ops)
  show ?case
  proof (cases x)
    case (TAdd ev d)
    with Cons show ?thesis using add_ok by simp
  next
    case Tick
    with Cons.prems obtain T' fired where "tick T = Some (T', fired)" "ok T'"
      using tick_spec by blast
    with Cons Tick show ?thesis by fastforce
  qed
qed simp

lemma run_silent:
  "ok T \<Longrightarrow> delays_ok ops \<Longrightarrow> \<not> adds_event ev ops \<Longrightarrow> filter_mset (\<lambda>n. tn_event n = ev) (todo T) = {#} \<Longrightarrow>
    timer_run add tick ops T = Some log \<Longrightarrow> k < length log \<Longrightarrow> filter (\<lambda>n. tn_event n = ev) (log ! k) = []"
proof (induction ops arbitrary: T log k)
  case (Cons x ops)
  show ?case
  proof (cases x)
    case (TAdd ev' d)
    with Cons.prems show ?thesis
      by (intro Cons.IH[of "add T ev' d"]) (auto simp: add_ok add_todo)
  next
    case Tick
    from Cons.prems(1) obtain T' fired where t: "tick T = Some (T', fired)" "ok T'"
      "mset fired = filter_mset (\<lambda>n. tn_expire n = now T + 1) (todo T)"
      "todo T' = filter_mset (\<lambda>n. tn_expire n \<noteq> now T + 1) (todo T)"
      using tick_spec by blast
    from t(1) Cons.prems(5) Tick obtain log' where
      log: "timer_run add tick ops T' = Some log'" "log = fired # log'"
      by (auto split: bind_splits)
    have none: "tn_event n \<noteq> ev" if "n \<in># todo T" for n
      using Cons.prems(4) that by (auto simp: filter_mset_eq_mempty_iff)
    have "set fired \<subseteq> set_mset (todo T)"
      by (metis t(3) set_mset_mset multiset_filter_subset set_mset_mono)
    with none have f0: "filter (\<lambda>n. tn_event n = ev) fired = []" by (auto simp: filter_empty_conv)
    show ?thesis
    proof (cases k)
      case (Suc j)
      with Cons.prems log Tick t(2) none show ?thesis
        by (auto intro!: Cons.IH[of T'] simp: t(4) filter_mset_eq_mempty_iff)
    qed (use f0 log in simp)
  qed
qed simp

lemma run_fires:
  "ok T \<Longrightarrow> delays_ok ops \<Longrightarrow> \<not> adds_event ev ops \<Longrightarrow> filter_mset (\<lambda>n. tn_event n = ev) (todo T) = {#m#} \<Longrightarrow>
    unat (tn_expire m - now T) = Suc d \<Longrightarrow> timer_run add tick ops T = Some log \<Longrightarrow> k < length log \<Longrightarrow>
    filter (\<lambda>n. tn_event n = ev) (log ! k) = (if k = d then [m] else [])"
proof (induction ops arbitrary: T log k d)
  case (Cons x ops)
  show ?case
  proof (cases x)
    case (TAdd ev' d')
    with Cons.prems show ?thesis
      by (intro Cons.IH[of "add T ev' d'"]) (auto simp: add_ok add_todo add_now)
  next
    case Tick
    from Cons.prems(1) obtain T' fired where t: "tick T = Some (T', fired)" "ok T'" "now T' = now T + 1"
      "mset fired = filter_mset (\<lambda>n. tn_expire n = now T + 1) (todo T)"
      "todo T' = filter_mset (\<lambda>n. tn_expire n \<noteq> now T + 1) (todo T)"
      using tick_spec by blast
    from t(1) Cons.prems(6) Tick obtain log' where
      log: "timer_run add tick ops T' = Some log'" "log = fired # log'"
      by (auto split: bind_splits)
    have "m \<in># todo T"
      using multiset_filter_subset[of "\<lambda>n. tn_event n = ev" "todo T"] unfolding Cons.prems(4) by simp
    then have a: "ahead (tn_expire m) (now T)" using todo_ahead Cons.prems(1) by blast
    have ev: "filter_mset (\<lambda>n. tn_event n = ev) (filter_mset P (todo T)) = filter_mset P {#m#}" for P
      unfolding Cons.prems(4)[symmetric] filter_filter_mset by (simp only: conj_commute)
    have due: "tn_expire m = now T + 1 \<longleftrightarrow> d = 0"
      using ahead_dist[OF a] Cons.prems(5) by (auto simp: unat_eq_zero)
    have fired_ev: "mset (filter (\<lambda>n. tn_event n = ev) fired) = (if d = 0 then {#m#} else {#})"
      unfolding mset_filter t(4) ev by (simp add: due)
    show ?thesis
    proof (cases k)
      case 0
      have "filter (\<lambda>n. tn_event n = ev) fired = (if d = 0 then [m] else [])"
        using fired_ev by (cases "d = 0") (simp_all only: if_True if_False simp_thms mset_single_iff mset_zero_iff)
      then show ?thesis using 0 log(2) by auto
    next
      case (Suc j)
      have todo': "filter_mset (\<lambda>n. tn_event n = ev) (todo T') = (if d = 0 then {#} else {#m#})"
        unfolding t(5) ev by (simp add: due)
      show ?thesis
      proof (cases d)
        case 0
        with Suc todo' log Cons.prems Tick t(2) show ?thesis
          by (auto intro!: run_silent[of T' ops])
      next
        case (Suc d')
        then have "filter (\<lambda>n. tn_event n = ev) (log' ! j) = (if j = d' then [m] else [])"
          using \<open>k = Suc j\<close> todo' log Cons.prems(2,3,5,7) Tick t(2,3) ahead_dist[OF a]
          by (intro Cons.IH[of T' d']) auto
        then show ?thesis using Suc \<open>k = Suc j\<close> log(2) by simp
      qed
    qed
  qed
qed simp

lemma run_prefix:
  "ok T \<Longrightarrow> delays_ok pre \<Longrightarrow> \<not> adds_event ev pre \<Longrightarrow> filter_mset (\<lambda>n. tn_event n = ev) (todo T) = {#} \<Longrightarrow>
    \<exists>T' log0. ok T' \<and> filter_mset (\<lambda>n. tn_event n = ev) (todo T') = {#} \<and> length log0 = ticks pre
      \<and> timer_run add tick pre T = Some log0
      \<and> (\<forall>ops. timer_run add tick (pre @ ops) T = map_option (\<lambda>log. log0 @ log) (timer_run add tick ops T'))"
proof (induction pre arbitrary: T)
  case Nil
  then show ?case by (intro exI[of _ T] exI[of _ "[]"]) (simp add: option.map_ident)
next
  case (Cons x pre)
  show ?case
  proof (cases x)
    case (TAdd ev' d)
    with Cons.prems have "ok (add T ev' d)" "filter_mset (\<lambda>n. tn_event n = ev) (todo (add T ev' d)) = {#}"
      by (auto simp: add_ok add_todo)
    with Cons TAdd show ?thesis by simp
  next
    case Tick
    from Cons.prems(1) obtain T1 fired where t: "tick T = Some (T1, fired)" "ok T1"
      "todo T1 = filter_mset (\<lambda>n. tn_expire n \<noteq> now T + 1) (todo T)"
      using tick_spec by blast
    from Cons.prems(4) have "filter_mset (\<lambda>n. tn_event n = ev) (todo T1) = {#}" by (simp add: t(3))
    moreover have "delays_ok pre" "\<not> adds_event ev pre" using Cons.prems(2,3) Tick by simp_all
    ultimately obtain T' log0 where
      IH: "ok T'" "filter_mset (\<lambda>n. tn_event n = ev) (todo T') = {#}"
      "length log0 = ticks pre" "timer_run add tick pre T1 = Some log0"
      "\<And>ops. timer_run add tick (pre @ ops) T1 = map_option (\<lambda>log. log0 @ log) (timer_run add tick ops T')"
      using Cons.IH[OF t(2)] by blast
    have "timer_run add tick (x # pre) T = Some (fired # log0)"
      and "timer_run add tick ((x # pre) @ ops) T = map_option (\<lambda>log. (fired # log0) @ log) (timer_run add tick ops T')" for ops
      using IH(4,5) Tick t(1) by (simp, cases "timer_run add tick ops T'") simp_all
    with IH(1-3) Tick show ?thesis by (intro exI[of _ T'] exI[of _ "fired # log0"]) simp
  qed
qed

lemma fires_once:
  assumes "ok T" "todo T = {#}" "delays_ok (pre @ TAdd ev d # post)" "\<not> adds_event ev (pre @ post)"
  shows "\<exists>log. timer_run add tick (pre @ TAdd ev d # post) T = Some log \<and> length log = ticks (pre @ post)
    \<and> (\<forall>k < length log. map tn_event (filter (\<lambda>n. tn_event n = ev) (log ! k)) = (if Suc k = ticks pre + nat d then [ev] else []))"
proof -
  have dl: "delays_ok pre" "delays_ok post" "0 < d" "d < 2 ^ 31" and ae: "\<not> adds_event ev pre" "\<not> adds_event ev post"
    using assms(3,4) by (auto simp: delays_ok_def adds_event_def)
  from run_prefix[OF assms(1) dl(1) ae(1)] assms(2) obtain T1 log0 where
    p: "ok T1" "filter_mset (\<lambda>n. tn_event n = ev) (todo T1) = {#}" "length log0 = ticks pre"
      "timer_run add tick pre T = Some log0"
      "\<And>ops. timer_run add tick (pre @ ops) T = map_option (\<lambda>log. log0 @ log) (timer_run add tick ops T1)"
    by auto
  let ?m = "\<lparr>tn_expire = now T1 + of_int d, tn_event = ev\<rparr>"
  have ok2: "ok (add T1 ev d)" "filter_mset (\<lambda>n. tn_event n = ev) (todo (add T1 ev d)) = {#?m#}"
    "now (add T1 ev d) = now T1"
    using p(1,2) dl by (auto simp: add_ok add_todo add_now)
  obtain log1 where r: "timer_run add tick post (add T1 ev d) = Some log1" "length log1 = ticks post"
    using run_returns[OF ok2(1) dl(2)] by blast
  have "unat (of_int d :: u32) = nat d"
    using dl by (simp add: unat_eq_nat_uint uint_word_of_int_eq take_bit_int_eq_self)
  then have due: "unat (tn_expire ?m - now (add T1 ev d)) = Suc (nat d - 1)"
    using dl ok2(3) by simp
  have log: "timer_run add tick (pre @ TAdd ev d # post) T = Some (log0 @ log1)"
    using p(5) r(1) by simp
  have "map tn_event (filter (\<lambda>n. tn_event n = ev) ((log0 @ log1) ! k)) = (if Suc k = ticks pre + nat d then [ev] else [])"
    if "k < length (log0 @ log1)" for k
  proof (cases "k < length log0")
    case True
    then have "filter (\<lambda>n. tn_event n = ev) (log0 ! k) = []"
      using run_silent[OF assms(1) dl(1) ae(1) _ p(4)] assms(2) by simp
    with True p(3) dl(3) show ?thesis by (simp add: nth_append)
  next
    case False
    with that have "filter (\<lambda>n. tn_event n = ev) (log1 ! (k - length log0)) = (if k - length log0 = nat d - 1 then [?m] else [])"
      by (intro run_fires[OF ok2(1) dl(2) ae(2) ok2(2) due r(1)]) simp
    with False p(3) dl(3) show ?thesis by (auto simp: nth_append)
  qed
  with log p(3) r(2) show ?thesis by (auto simp: ticks_def)
qed

end

interpretation wheel: timer_service wheel_ok tm_time pending timer_add timer_update
  by unfold_locales
    (use wheel_ok_timer_add pending_ahead timer_update_spec in auto)

text \<open>Several ticks in a row, the loop of \<open>skynet_updatetime\<close>.\<close>

lemma timer_updates_spec:
  assumes "wheel_ok T"
  shows "\<exists>T' fired. timer_updates n T = Some (T', fired) \<and> wheel_ok T' \<and> tm_time T' = tm_time T + of_nat n
     \<and> mset fired = filter_mset (\<lambda>m. unat (tn_expire m - tm_time T) \<le> n) (pending T)
     \<and> pending T' = filter_mset (\<lambda>m. n < unat (tn_expire m - tm_time T)) (pending T)"
  using assms
proof (induction n arbitrary: T)
  case 0
  have pos: "0 < unat (tn_expire m - tm_time T)" if "m \<in># pending T" for m
    using pending_ahead[OF 0 that] by (simp add: ahead_def)
  then have "filter_mset (\<lambda>m. 0 < unat (tn_expire m - tm_time T)) (pending T) = filter_mset (\<lambda>_. True) (pending T)"
    by (intro filter_mset_cong) auto
  with 0 pos show ?case by (auto intro!: exI[of _ T])
next
  case (Suc n)
  let ?t = "tm_time T"
  obtain T1 f1 where u: "timer_update T = Some (T1, f1)" "wheel_ok T1" "tm_time T1 = ?t + 1"
    "mset f1 = filter_mset (\<lambda>n. tn_expire n = ?t + 1) (pending T)"
    "pending T1 = filter_mset (\<lambda>n. tn_expire n \<noteq> ?t + 1) (pending T)"
    using timer_update_spec[OF Suc.prems] by blast
  obtain T2 f2 where r: "timer_updates n T1 = Some (T2, f2)" "wheel_ok T2" "tm_time T2 = tm_time T1 + of_nat n"
    "mset f2 = filter_mset (\<lambda>m. unat (tn_expire m - (?t + 1)) \<le> n) (pending T1)"
    "pending T2 = filter_mset (\<lambda>m. n < unat (tn_expire m - (?t + 1))) (pending T1)"
    using Suc.IH[OF u(2)] u(3) by auto
  have d: "unat (tn_expire m - (?t + 1)) = unat (tn_expire m - ?t) - 1"
      "tn_expire m = ?t + 1 \<longleftrightarrow> unat (tn_expire m - ?t) = 1" if "m \<in># pending T" for m
    using ahead_dist[OF pending_ahead[OF Suc.prems that]] pending_ahead[OF Suc.prems that]
    by (auto simp: ahead_def unat_eq_zero)
  have "mset (f1 @ f2) = filter_mset (\<lambda>m. unat (tn_expire m - ?t) \<le> Suc n) (pending T)" (is "?A = ?B")
  proof (rule multiset_eqI)
    fix x
    show "count ?A x = count ?B x"
      by (cases "x \<in># pending T") (use d[of x] in \<open>auto simp: u(4,5) r(4) not_in_iff\<close>)
  qed
  moreover have "pending T2 = filter_mset (\<lambda>m. Suc n < unat (tn_expire m - ?t)) (pending T)" (is "?A = ?B")
  proof (rule multiset_eqI)
    fix x
    show "count ?A x = count ?B x"
      by (cases "x \<in># pending T") (use d[of x] in \<open>auto simp: u(5) r(5) not_in_iff\<close>)
  qed
  ultimately show ?case using u(1,3) r(1,2,3) by (simp add: algebra_simps)
qed

section \<open>Properties\<close>

text \<open>C6: A timeout fires once and on time.  In every script of calls of \<open>timer_add\<close> (with the positive
  \<open>int\<close> delays that \<open>skynet_timeout\<close> passes) and \<open>timer_update\<close> on a fresh wheel, an event added
  with delay \<open>d\<close> after the script \<open>pre\<close> is dispatched exactly once, by the \<open>d\<close>-th tick after it
  was added and by no other, whatever is added before and afterwards, across level cascades and
  across the wrap of the 32-bit time; no call aborts.\<close>

theorem timeout_fires_once:
  assumes "delays_ok (pre @ TAdd ev d # post)" "\<not> adds_event ev (pre @ post)"
  shows "\<exists>log. timer_run timer_add timer_update (pre @ TAdd ev d # post) timer_create_timer = Some log
    \<and> length log = ticks (pre @ post)
    \<and> (\<forall>k < length log. map tn_event (filter (\<lambda>n. tn_event n = ev) (log ! k)) = (if Suc k = ticks pre + nat d then [ev] else []))"
  using wheel.fires_once[OF wheel_ok_create pending_create assms] .

definition demo_event :: "int \<Rightarrow> timer_event" where
  "demo_event s = \<lparr>te_handle = 7, te_session = s\<rparr>"

definition demo_pre :: "timer_op list" where
  "demo_pre = [TAdd (demo_event 1) 300, Tick]"

definition demo_post :: "timer_op list" where
  "demo_post = [Tick, TAdd (demo_event 3) 1, Tick]"

theorem timeout_fires_once_witness:
  "\<exists>log. timer_run timer_add timer_update (demo_pre @ TAdd (demo_event 2) 2 # demo_post) timer_create_timer = Some log
    \<and> map tn_event (filter (\<lambda>n. tn_event n = demo_event 2) (log ! 1)) = []
    \<and> map tn_event (filter (\<lambda>n. tn_event n = demo_event 2) (log ! 2)) = [demo_event 2]"
proof -
  have "delays_ok (demo_pre @ TAdd (demo_event 2) 2 # demo_post)" "\<not> adds_event (demo_event 2) (demo_pre @ demo_post)"
    by (simp_all add: demo_pre_def demo_post_def demo_event_def)
  from timeout_fires_once[OF this] obtain log where
    "timer_run timer_add timer_update (demo_pre @ TAdd (demo_event 2) 2 # demo_post) timer_create_timer = Some log"
    "length log = ticks (demo_pre @ demo_post)"
    "\<And>k. k < length log \<Longrightarrow> map tn_event (filter (\<lambda>n. tn_event n = demo_event 2) (log ! k))
       = (if Suc k = ticks demo_pre + nat 2 then [demo_event 2] else [])" by blast
  moreover from this(2) have "length log = 3" "ticks demo_pre = 1" by (simp_all add: demo_pre_def demo_post_def)
  ultimately show ?thesis by (intro exI[of _ log]) simp
qed

text \<open>C7: \<open>timer_update\<close> refines the abstract timer, whose state is a time and the multiset of the
  pending nodes: on a well-formed wheel it does not abort, fires (with multiplicity) exactly the
  pending nodes that expire at the new time, keeps exactly the others, and keeps the wheel
  well-formed; and \<open>timer_add\<close> adds one pending node and keeps it well-formed.\<close>

theorem timer_refines_multiset:
  assumes "wheel_ok T" "0 < d" "d < 2 ^ 31"
  shows "wheel_ok (timer_add T ev d)
    \<and> pending (timer_add T ev d) = add_mset \<lparr>tn_expire = tm_time T + of_int d, tn_event = ev\<rparr> (pending T)
    \<and> (\<exists>T' fired. timer_update T = Some (T', fired) \<and> wheel_ok T' \<and> tm_time T' = tm_time T + 1
         \<and> mset fired = filter_mset (\<lambda>n. tn_expire n = tm_time T + 1) (pending T)
         \<and> pending T' = filter_mset (\<lambda>n. tn_expire n \<noteq> tm_time T + 1) (pending T))"
  using wheel_ok_timer_add[OF assms] timer_update_spec[OF assms(1)] by blast

theorem timer_refines_multiset_witness:
  "wheel_ok (timer_add timer_create_timer (demo_event 1) 20000)
   \<and> pending (timer_add timer_create_timer (demo_event 1) 20000) = {#\<lparr>tn_expire = 20000, tn_event = demo_event 1\<rparr>#}"
  using timer_refines_multiset[OF wheel_ok_create, of 20000 "demo_event 1"]
  by (simp add: pending_create) (simp add: timer_create_timer_def)

text \<open>\<open>skynet_updatetime\<close> catches up with the machine's clock: when \<open>gettime()\<close> has advanced by
  \<open>c\<close> hundredths of a second since the last call (less than \<open>2 ^ 31\<close>), it does not abort, moves
  \<open>current\<close>, \<open>current_point\<close> and the wheel forward by \<open>c\<close>, dispatches exactly the pending
  nodes that are due within \<open>c\<close> ticks and keeps the others.\<close>

lemma updatetime_catches_up:
  assumes "wheel_ok T" "c < 2 ^ 31" "cp = tm_current_point T + of_nat c" "unat (tm_current_point T) + c < 2 ^ 64"
  shows "\<exists>T' fired. skynet_updatetime cp T = Some (T', False, fired) \<and> wheel_ok T'
     \<and> tm_time T' = tm_time T + of_nat c
     \<and> mset fired = filter_mset (\<lambda>m. unat (tn_expire m - tm_time T) \<le> c) (pending T)
     \<and> pending T' = filter_mset (\<lambda>m. c < unat (tn_expire m - tm_time T)) (pending T)"
proof -
  have c: "unat (of_nat c :: u64) = c" "unat (ucast (of_nat c :: u64) :: u32) = c"
    using assms(2) by (simp_all add: unsigned_ucast_eq unat_of_nat take_bit_nat_eq_self)
  have cp: "unat cp = unat (tm_current_point T) + c"
    unfolding assms(3) using assms(4) c(1) by (simp add: unat_word_ariths)
  then have ge: "\<not> cp < tm_current_point T" by (simp add: word_less_nat_alt)
  show ?thesis
  proof (cases "c = 0")
    case True
    have "cp = tm_current_point T" using assms(3) True by simp
    with True show ?thesis
      using timer_updates_spec[OF assms(1), of 0] by (auto simp: skynet_updatetime_def)
  next
    case False
    let ?T1 = "T\<lparr>tm_current_point := cp, tm_current := tm_current T + ucast (of_nat c :: u32)\<rparr>"
    have "cp \<noteq> tm_current_point T" using cp False by auto
    moreover have "ucast (cp - tm_current_point T) = (of_nat c :: u32)"
      using assms(3) c by (metis add_diff_cancel_left' of_nat_unat)
    moreover have "slot ?T1 = slot T" by (simp add: slot_def fun_eq_iff split: location.split)
    then have "wheel_ok ?T1" "pending ?T1 = pending T"
      using assms(1) by (simp_all add: wheel_ok_def pending_def)
    moreover have "unat (of_nat c :: u32) = c" using assms(2) by (simp add: unat_of_nat)
    ultimately show ?thesis
      using timer_updates_spec[of ?T1 c] ge assms(2) by (auto simp: skynet_updatetime_def Let_def)
  qed
qed

lemma updatetime_catches_up_witness:
  "\<exists>T' fired. skynet_updatetime 3 (timer_add timer_create_timer (demo_event 1) 2) = Some (T', False, fired)
     \<and> tm_time T' = 3 \<and> pending T' = {#} \<and> map tn_event fired = [demo_event 1]"
proof -
  let ?T = "timer_add timer_create_timer (demo_event 1) 2"
  let ?n = "\<lparr>tn_expire = 2, tn_event = demo_event 1\<rparr> :: timer_node"
  have T: "wheel_ok ?T" "pending ?T = {#?n#}" "tm_time ?T = 0" "tm_current_point ?T = 0"
    using wheel_ok_timer_add[OF wheel_ok_create, of 2 "demo_event 1"] pending_create
    by (simp_all add: timer_create_timer_def timer_add_def add_node_def Let_def)
  from updatetime_catches_up[OF T(1), of 3 3] T(2-4) obtain T' fired where
    "skynet_updatetime 3 ?T = Some (T', False, fired)" "tm_time T' = 3" "mset fired = {#?n#}" "pending T' = {#}"
    by auto
  moreover from this(3) have "fired = [?n]" by (simp only: mset_single_iff)
  ultimately show ?thesis by auto
qed

end
