(* ===== verification/Cstr.thy ===== *)
theory Cstr
  imports Prelude
begin

text \<open>
  The functions of the C library on strings that the server uses: \<open>strtoul\<close>, \<open>strtol\<close>, the
  conversions \<open>%d\<close>, \<open>%u\<close>, \<open>%x\<close> and \<open>%08x\<close> of \<open>sprintf\<close>, \<open>%s\<close> of \<open>sscanf\<close>, \<open>strsep\<close>
  and \<open>strchr\<close>, for an LP64 machine and the C locale.  A C string is the list of its characters
  before the terminating zero.
\<close>

section \<open>Conversions\<close>

text \<open>Conversion of an integer to a 32-bit \<open>int\<close>.\<close>

definition to_int32 :: "int \<Rightarrow> int" where
  "to_int32 x = (x + 2 ^ 31) mod 2 ^ 32 - 2 ^ 31"

definition c_isspace :: "char \<Rightarrow> bool" where
  "c_isspace c \<longleftrightarrow> of_char c \<in> {32, 9, 10, 11, 12, 13 :: nat}"

definition digit_val :: "char \<Rightarrow> nat option" where
  "digit_val c =
     (let n = of_char c :: nat
      in if 48 \<le> n \<and> n \<le> 57 then Some (n - 48)
         else if 97 \<le> n \<and> n \<le> 122 then Some (n - 87)
         else if 65 \<le> n \<and> n \<le> 90 then Some (n - 55)
         else None)"

definition is_digit :: "nat \<Rightarrow> char \<Rightarrow> bool" where
  "is_digit b c \<longleftrightarrow> (case digit_val c of Some d \<Rightarrow> d < b | None \<Rightarrow> False)"

definition digits_val :: "nat \<Rightarrow> string \<Rightarrow> nat" where
  "digits_val b s = foldl (\<lambda>a c. a * b + the (digit_val c)) 0 s"

definition scan_sign :: "string \<Rightarrow> bool \<times> string" where
  "scan_sign s =
     (case s of c # cs \<Rightarrow> if c = CHR ''-'' then (True, cs) else if c = CHR ''+'' then (False, cs) else (False, s)
      | [] \<Rightarrow> (False, s))"

text \<open>The prefix \<open>0x\<close> counts only in front of a hexadecimal digit; base 0 is decided by the prefix.\<close>

definition scan_base :: "nat \<Rightarrow> string \<Rightarrow> nat \<times> string" where
  "scan_base b s =
     (case s of
        z # x # d # cs \<Rightarrow>
          if (b = 0 \<or> b = 16) \<and> z = CHR ''0'' \<and> (x = CHR ''x'' \<or> x = CHR ''X'') \<and> is_digit 16 d
          then (16, d # cs)
          else ((if b = 0 then if z = CHR ''0'' then 8 else 10 else b), s)
      | z # _ \<Rightarrow> ((if b = 0 then if z = CHR ''0'' then 8 else 10 else b), s)
      | [] \<Rightarrow> (b, s))"

definition scan_number :: "nat \<Rightarrow> string \<Rightarrow> bool \<times> nat" where
  "scan_number base s =
     (let (neg, s1) = scan_sign (dropWhile c_isspace s);
          (b, s2) = scan_base base s1
      in (neg, digits_val b (takeWhile (is_digit b) s2)))"

definition c_strtoul :: "string \<Rightarrow> nat \<Rightarrow> u64" where
  "c_strtoul s base =
     (let (neg, v) = scan_number base s
      in if v \<ge> 2 ^ 64 then - 1 else if neg then - of_nat v else of_nat v)"

definition c_strtol :: "string \<Rightarrow> nat \<Rightarrow> int" where
  "c_strtol s base =
     (let (neg, v) = scan_number base s; x = (if neg then - int v else int v)
      in max (- (2 ^ 63)) (min (2 ^ 63 - 1) x))"

section \<open>Formatting\<close>

definition digit_char :: "nat \<Rightarrow> char" where
  "digit_char d = char_of (if d < 10 then 48 + d else 87 + d)"

function nat_string :: "nat \<Rightarrow> nat \<Rightarrow> string" where
  "nat_string b n =
     (if b < 2 \<or> n < b then [digit_char n] else nat_string b (n div b) @ [digit_char (n mod b)])"
  by pat_completeness auto
termination
  by (relation "measure snd") auto

declare nat_string.simps [simp del]

text \<open>\<open>%d\<close>, \<open>%u\<close>, \<open>%x\<close> and \<open>%08x\<close>.\<close>

definition fmt_d :: "int \<Rightarrow> string" where
  "fmt_d i = (if i < 0 then CHR ''-'' # nat_string 10 (nat (- i)) else nat_string 10 (nat i))"

definition fmt_u :: "'a::len word \<Rightarrow> string" where
  "fmt_u w = nat_string 10 (unat w)"

definition fmt_x :: "u32 \<Rightarrow> string" where
  "fmt_x w = nat_string 16 (unat w)"

definition pad0 :: "nat \<Rightarrow> string \<Rightarrow> string" where
  "pad0 n s = replicate (n - length s) (CHR ''0'') @ s"

section \<open>Words of a string\<close>

text \<open>One \<open>%s\<close> of \<open>sscanf\<close>: the word and the rest, nothing at the end of the input.\<close>

definition scan_word :: "string \<Rightarrow> string option \<times> string" where
  "scan_word s =
     (let t = dropWhile c_isspace s
      in if t = [] then (None, []) else (Some (takeWhile (\<lambda>c. \<not> c_isspace c) t), dropWhile (\<lambda>c. \<not> c_isspace c) t))"

text \<open>\<open>strsep\<close>: the token and the rest, \<open>None\<close> for a null pointer.\<close>

definition c_strsep :: "string option \<Rightarrow> string \<Rightarrow> string option \<times> string option" where
  "c_strsep stringp delim =
     (case stringp of
        None \<Rightarrow> (None, None)
      | Some s \<Rightarrow>
          (let tok = takeWhile (\<lambda>c. c \<notin> set delim) s; rest = dropWhile (\<lambda>c. c \<notin> set delim) s
           in (Some tok, if rest = [] then None else Some (tl rest))))"

definition c_strchr :: "string \<Rightarrow> char \<Rightarrow> string option" where
  "c_strchr s c = (let rest = dropWhile (\<lambda>x. x \<noteq> c) s in if rest = [] then None else Some rest)"

section \<open>Round trips\<close>

lemma digit_val_digit_char: "d < 16 \<Longrightarrow> digit_val (digit_char d) = Some d"
  by (auto simp: digit_val_def digit_char_def Let_def)

lemma is_digit_digit_char [simp]: "d < b \<Longrightarrow> b \<le> 16 \<Longrightarrow> is_digit b (digit_char d)"
  by (simp add: is_digit_def digit_val_digit_char)

lemma digits_val_snoc: "digits_val b (s @ [c]) = digits_val b s * b + the (digit_val c)"
  by (simp add: digits_val_def)

lemma nat_string_digits:
  assumes "2 \<le> b" "b \<le> 16"
  shows "list_all (is_digit b) (nat_string b n) \<and> digits_val b (nat_string b n) = n \<and> nat_string b n \<noteq> []"
proof (induction n rule: less_induct)
  case (less n)
  show ?case
  proof (cases "n < b")
    case True
    with assms show ?thesis
      by (subst (1 2 3) nat_string.simps) (simp add: digits_val_def digit_val_digit_char)
  next
    case False
    then have "n div b < n" using assms by (simp add: div_less_dividend)
    note IH = less.IH[OF this]
    have "n mod b < b" using assms by simp
    moreover from this assms have "n mod b < 16" by linarith
    ultimately show ?thesis
      using False assms IH
      by (subst (1 2 3) nat_string.simps) (simp add: digits_val_snoc digit_val_digit_char)
  qed
qed

text \<open>Characters that are digits are not skipped, are not signs and are no prefix.\<close>

lemma digit_not_special:
  assumes "is_digit 16 c"
  shows "\<not> c_isspace c" "c \<noteq> CHR ''-''" "c \<noteq> CHR ''+''" "c \<noteq> CHR ''x''" "c \<noteq> CHR ''X''"
proof -
  show "\<not> c_isspace c"
    using assms by (auto simp: is_digit_def digit_val_def c_isspace_def Let_def split: if_splits)
  have "\<not> is_digit 16 (CHR ''-'')" "\<not> is_digit 16 (CHR ''+'')" "\<not> is_digit 16 (CHR ''x'')"
    "\<not> is_digit 16 (CHR ''X'')"
    by (simp_all add: is_digit_def digit_val_def)
  with assms show "c \<noteq> CHR ''-''" "c \<noteq> CHR ''+''" "c \<noteq> CHR ''x''" "c \<noteq> CHR ''X''" by auto
qed

lemma is_digit_mono: "is_digit b c \<Longrightarrow> b \<le> b' \<Longrightarrow> is_digit b' c"
  by (auto simp: is_digit_def split: option.splits)

lemma scan_number_digits:
  assumes "list_all (is_digit b) s" "s \<noteq> []" "2 \<le> b" "b \<le> 16"
  shows "scan_number b s = (False, digits_val b s)"
proof -
  have d: "is_digit 16 c" if "c \<in> set s" for c
    using that assms by (auto simp: list_all_iff intro: is_digit_mono)
  obtain c cs where s: "s = c # cs" using assms(2) by (cases s) auto
  note sp = digit_not_special[OF d]
  have 1: "dropWhile c_isspace s = s" using sp(1)[of c] s by simp
  have 2: "scan_sign s = (False, s)" using sp(2,3)[of c] s by (simp add: scan_sign_def)
  have 3: "scan_base b s = (b, s)"
    using sp(4,5) assms(3) s by (auto simp: scan_base_def split: list.splits)
  have 4: "takeWhile (is_digit b) s = s" using assms(1) by (simp add: list_all_iff takeWhile_eq_all_conv)
  show ?thesis unfolding scan_number_def 1 2 Let_def split 3 4 ..
qed

lemma strtoul_digits:
  assumes "list_all (is_digit 16) s" "s \<noteq> []" "digits_val 16 s < 2 ^ 64"
  shows "c_strtoul s 16 = of_nat (digits_val 16 s)"
  using scan_number_digits[OF assms(1,2)] assms(3) by (simp add: c_strtoul_def)

lemma ucast_ucast_u64 [simp]: "ucast (ucast (h :: u32) :: u64) = h"
  by (rule bit_word_eqI) (simp add: bit_simps)

lemma strtoul_fmt_x: "ucast (c_strtoul (fmt_x h) 16) = h"
proof -
  have "unat h < 2 ^ 64" using unsigned_less[of h, where 'a = nat] by (simp add: order_less_trans)
  with nat_string_digits[of 16 "unat h"] strtoul_digits[of "fmt_x h"] show ?thesis
    by (simp add: fmt_x_def)
qed

lemma strtol_fmt_d:
  assumes "0 \<le> i" "i < 2 ^ 63"
  shows "c_strtol (fmt_d i) 10 = i"
  using scan_number_digits[of 10 "nat_string 10 (nat i)"] nat_string_digits[of 10 "nat i"] assms
  by (simp add: c_strtol_def fmt_d_def)

end
