(* ===== verification/Node.thy ===== *)
theory Node
  imports Mq Handle Timer Cstr
begin

text \<open>
  The state of one skynet node: the services (\<open>struct skynet_context\<close>), the queues, the handle
  storage, the timer, the loaded modules, the environment, the monitors of the worker threads and
  the memory blocks that messages carry; and the small components that only read or write it:
  \<open>skynet_env.c\<close>, \<open>skynet_module.c\<close>, \<open>skynet_monitor.c\<close> (without the check, which needs the
  server).

  The code of services is loaded at run time with \<open>dlopen\<close>; it is a parameter of the model, the
  record \<open>services\<close>, together with the clock of the thread and the file system.
\<close>

section \<open>State\<close>

definition GLOBALNAME_LENGTH :: nat where [cdefs]: "GLOBALNAME_LENGTH = 16"
definition MAX_MODULE_TYPE :: nat where [cdefs]: "MAX_MODULE_TYPE = 32"
definition MESSAGE_TYPE_SHIFT :: nat where [cdefs]: "MESSAGE_TYPE_SHIFT = 56"
definition MESSAGE_TYPE_MASK :: u64 where [cdefs]: "MESSAGE_TYPE_MASK = drop_bit 8 (- 1)"
definition PTYPE_TEXT :: u32 where [cdefs]: "PTYPE_TEXT = 0"
definition PTYPE_RESPONSE :: u32 where [cdefs]: "PTYPE_RESPONSE = 1"
definition PTYPE_CLIENT :: u32 where [cdefs]: "PTYPE_CLIENT = 3"
definition PTYPE_SYSTEM :: u32 where [cdefs]: "PTYPE_SYSTEM = 4"
definition PTYPE_HARBOR :: u32 where [cdefs]: "PTYPE_HARBOR = 5"
definition PTYPE_SOCKET :: u32 where [cdefs]: "PTYPE_SOCKET = 6"
definition PTYPE_ERROR :: u32 where [cdefs]: "PTYPE_ERROR = 7"
definition PTYPE_TAG_DONTCOPY :: u32 where [cdefs]: "PTYPE_TAG_DONTCOPY = 0x10000"
definition PTYPE_TAG_ALLOCSESSION :: u32 where [cdefs]: "PTYPE_TAG_ALLOCSESSION = 0x20000"

text \<open>A pointer to a block of memory; \<open>None\<close> is \<open>NULL\<close>.\<close>

type_synonym ptr = "addr option"

text \<open>The name of a destination is not written when the destination is given by handle.\<close>

record remote_name =
  rn_name :: "string option"
  rn_handle :: u32

record remote_message =
  rm_destination :: remote_name
  rm_message :: ptr
  rm_sz :: u64

text \<open>\<open>struct skynet_socket_message\<close> and the text that follows it in the same block.\<close>

record skynet_socket_message =
  sm_type :: int
  sm_id :: int
  sm_ud :: int
  sm_buffer :: ptr
  sm_text :: "u8 list"

datatype block = Bytes "u8 option list" | Remote remote_message | Socket skynet_socket_message

record skynet_context =
  cx_instance :: u64
  cx_mod :: nat
  cx_cb_ud :: u64
  cx_cb :: "nat option"
  cx_queue :: "addr option"
  cx_logfile :: "nat option"
  cx_cpu_cost :: u64
  cx_cpu_start :: u64
  cx_result :: string
  cx_handle :: u32
  cx_session_id :: int
  cx_ref :: int
  cx_message_count :: int
  cx_init :: bool
  cx_endless :: bool
  cx_profile :: bool

text \<open>A function pointer of a module is the number of the loaded function.\<close>

record skynet_module =
  mod_name :: string
  mod_module :: nat
  mod_create :: "nat option"
  mod_init :: "nat option"
  mod_release :: "nat option"
  mod_signal :: "nat option"

record skynet_monitor =
  mon_version :: int
  mon_check_version :: int
  mon_source :: u32
  mon_destination :: u32

text \<open>
  The node.  \<open>nd_ctx\<close> is the heap of contexts, \<open>nd_mem\<close> that of message data and \<open>nd_files\<close> the
  text written to the open log files (each with its next free address); \<open>nd_H\<close> and \<open>nd_TI\<close> are
  \<open>H\<close> and \<open>TI\<close>; \<open>nd_total\<close>, \<open>nd_monitor_exit\<close>, \<open>nd_profile\<close> the fields of \<open>G_NODE\<close>;
  \<open>nd_current\<close> the thread-specific value of \<open>G_NODE.handle_key\<close>; \<open>nd_HARBOR\<close> and \<open>nd_REMOTE\<close>
  the variables of \<open>skynet_harbor.c\<close>; \<open>nd_logger\<close> the static variable of \<open>skynet_error\<close>;
  \<open>nd_path\<close> and \<open>nd_modules\<close> the module table; \<open>nd_env\<close> the globals of the environment.
\<close>

record node = "addr option mqs" +
  nd_ctx :: "addr \<rightharpoonup> skynet_context"
  nd_ctx_fresh :: addr
  nd_mem :: "addr \<rightharpoonup> block"
  nd_mem_fresh :: addr
  nd_files :: "nat \<rightharpoonup> string"
  nd_files_fresh :: nat
  nd_H :: handle_storage
  nd_TI :: timer
  nd_total :: int
  nd_monitor_exit :: u32
  nd_profile :: bool
  nd_current :: u32
  nd_HARBOR :: u32
  nd_REMOTE :: "addr option"
  nd_logger :: u32
  nd_path :: string
  nd_modules :: "skynet_module list"
  nd_env :: "string \<rightharpoonup> string"
  nd_mon :: "skynet_monitor list"

record services =
  ext_dlopen :: "string \<Rightarrow> nat option"
  ext_dlsym :: "nat \<Rightarrow> string \<Rightarrow> nat option"
  ext_create :: "nat \<Rightarrow> node \<Rightarrow> (node \<times> u64) option"
  ext_init :: "nat \<Rightarrow> u64 \<Rightarrow> addr \<Rightarrow> string option \<Rightarrow> node \<Rightarrow> (node \<times> int) option"
  ext_release :: "nat \<Rightarrow> u64 \<Rightarrow> node \<Rightarrow> node option"
  ext_signal :: "nat \<Rightarrow> u64 \<Rightarrow> int \<Rightarrow> node \<Rightarrow> node option"
  ext_cb :: "nat \<Rightarrow> addr \<Rightarrow> u64 \<Rightarrow> u32 \<Rightarrow> int \<Rightarrow> u32 \<Rightarrow> ptr \<Rightarrow> u64 \<Rightarrow> node \<Rightarrow> (node \<times> int) option"
  ext_thread_time :: "node \<Rightarrow> u64"
  ext_fopen :: "string \<Rightarrow> bool"
  ext_ctime :: "int \<Rightarrow> string"

section \<open>Memory\<close>

definition mem_alloc :: "block \<Rightarrow> node \<Rightarrow> node \<times> addr" where
  "mem_alloc b s = (s\<lparr>nd_mem := (nd_mem s)(nd_mem_fresh s \<mapsto> b), nd_mem_fresh := Suc (nd_mem_fresh s)\<rparr>,
                    nd_mem_fresh s)"

text \<open>\<open>skynet_free\<close>: nothing for \<open>NULL\<close>; a pointer that is not live must not be freed.\<close>

definition skynet_free :: "ptr \<Rightarrow> node \<Rightarrow> node option" where
  "skynet_free p s =
     (case p of
        None \<Rightarrow> Some s
      | Some a \<Rightarrow> do { _ \<leftarrow> nd_mem s a; Some (s\<lparr>nd_mem := (nd_mem s)(a := None)\<rparr>) })"

text \<open>Reading \<open>n\<close> bytes from a block.\<close>

definition mem_bytes :: "addr \<Rightarrow> nat \<Rightarrow> node \<Rightarrow> u8 option list option" where
  "mem_bytes a n s = do {
     b \<leftarrow> nd_mem s a;
     (case b of Bytes bs \<Rightarrow> if n \<le> length bs then Some (take n bs) else None | _ \<Rightarrow> None) }"

definition str_bytes :: "string \<Rightarrow> u8 option list" where
  "str_bytes t = map (\<lambda>c. Some (of_nat (of_char c))) t @ [Some 0]"

definition ctx_upd :: "addr \<Rightarrow> (skynet_context \<Rightarrow> skynet_context) \<Rightarrow> node \<Rightarrow> node option" where
  "ctx_upd c f s = do { x \<leftarrow> nd_ctx s c; Some (s\<lparr>nd_ctx := (nd_ctx s)(c \<mapsto> f x)\<rparr>) }"

text \<open>A 32-bit counter with atomic or two's complement arithmetic.\<close>

definition int_inc :: "int \<Rightarrow> int" where
  "int_inc i = to_int32 (i + 1)"

definition int_dec :: "int \<Rightarrow> int" where
  "int_dec i = to_int32 (i - 1)"

section \<open>Environment (\<open>skynet_env.c\<close>)\<close>

definition skynet_getenv :: "string \<Rightarrow> node \<Rightarrow> string option" where
  "skynet_getenv key s = nd_env s key"

definition skynet_setenv :: "string \<Rightarrow> string \<Rightarrow> node \<Rightarrow> node option" where
  "skynet_setenv key value s = do {
     c_assert (nd_env s key = None);
     Some (s\<lparr>nd_env := (nd_env s)(key \<mapsto> value)\<rparr>) }"

section \<open>Modules (\<open>skynet_module.c\<close>)\<close>

text \<open>
  The search of \<open>_try_open\<close> along the path: the templates between semicolons, each with the first
  \<open>?\<close> replaced by the name; a template without \<open>?\<close> ends the process.  The result says which
  library was opened, if any.
\<close>

fun try_open :: "(string \<Rightarrow> nat option) \<Rightarrow> string \<Rightarrow> string list \<Rightarrow> nat option option" where
  "try_open dlopen name [] = Some None"
| "try_open dlopen name (tmpl # ts) =
     (if tmpl = [] then try_open dlopen name ts
      else if CHR ''?'' \<notin> set tmpl then None
      else (case dlopen (takeWhile (\<lambda>c. c \<noteq> CHR ''?'') tmpl @ name @ tl (dropWhile (\<lambda>c. c \<noteq> CHR ''?'') tmpl)) of
              Some dl \<Rightarrow> Some (Some dl)
            | None \<Rightarrow> try_open dlopen name ts))"

fun split_path :: "string \<Rightarrow> string \<Rightarrow> string list" where
  "split_path acc [] = [rev acc]"
| "split_path acc (c # cs) = (if c = CHR '';'' then rev acc # split_path [] cs else split_path (c # acc) cs)"

fun query_index :: "string \<Rightarrow> skynet_module list \<Rightarrow> nat \<Rightarrow> nat option" where
  "query_index name [] i = None"
| "query_index name (m # ms) i = (if c_strcmp (mod_name m) name = 0 then Some i else query_index name ms (i + 1))"

definition module_query :: "string \<Rightarrow> node \<Rightarrow> nat option" where
  "module_query name s = query_index name (nd_modules s) 0"

definition open_sym :: "services \<Rightarrow> string \<Rightarrow> nat \<Rightarrow> skynet_module" where
  "open_sym E name dl = \<lparr>mod_name = name, mod_module = dl,
     mod_create = ext_dlsym E dl (name @ ''_create''), mod_init = ext_dlsym E dl (name @ ''_init''),
     mod_release = ext_dlsym E dl (name @ ''_release''), mod_signal = ext_dlsym E dl (name @ ''_signal'')\<rparr>"

definition skynet_module_query :: "services \<Rightarrow> string \<Rightarrow> node \<Rightarrow> (node \<times> nat option) option" where
  "skynet_module_query E name s =
     (case module_query name s of
        Some i \<Rightarrow> Some (s, Some i)
      | None \<Rightarrow>
          if length (nd_modules s) < MAX_MODULE_TYPE then do {
            dl \<leftarrow> try_open (ext_dlopen E) name (split_path [] (nd_path s));
            Some (case dl of
                    None \<Rightarrow> (s, None)
                  | Some d \<Rightarrow>
                      (let m = open_sym E name d
                       in if mod_init m = None then (s, None)
                          else (s\<lparr>nd_modules := nd_modules s @ [m]\<rparr>, Some (length (nd_modules s))))) }
          else Some (s, None))"

definition skynet_module_insert :: "skynet_module \<Rightarrow> node \<Rightarrow> node option" where
  "skynet_module_insert m s = do {
     c_assert (module_query (mod_name m) s = None \<and> length (nd_modules s) < MAX_MODULE_TYPE);
     Some (s\<lparr>nd_modules := nd_modules s @ [m]\<rparr>) }"

definition module_get :: "nat \<Rightarrow> node \<Rightarrow> skynet_module option" where
  "module_get i s = (if i < length (nd_modules s) then Some (nd_modules s ! i) else None)"

definition skynet_module_instance_create :: "services \<Rightarrow> nat \<Rightarrow> node \<Rightarrow> (node \<times> u64) option" where
  "skynet_module_instance_create E i s = do {
     m \<leftarrow> module_get i s;
     (case mod_create m of Some f \<Rightarrow> ext_create E f s | None \<Rightarrow> Some (s, - 1)) }"

definition skynet_module_instance_init ::
    "services \<Rightarrow> nat \<Rightarrow> u64 \<Rightarrow> addr \<Rightarrow> string option \<Rightarrow> node \<Rightarrow> (node \<times> int) option" where
  "skynet_module_instance_init E i inst ctx parm s = do {
     m \<leftarrow> module_get i s;
     f \<leftarrow> mod_init m;
     ext_init E f inst ctx parm s }"

definition skynet_module_instance_release :: "services \<Rightarrow> nat \<Rightarrow> u64 \<Rightarrow> node \<Rightarrow> node option" where
  "skynet_module_instance_release E i inst s = do {
     m \<leftarrow> module_get i s;
     (case mod_release m of Some f \<Rightarrow> ext_release E f inst s | None \<Rightarrow> Some s) }"

definition skynet_module_instance_signal :: "services \<Rightarrow> nat \<Rightarrow> u64 \<Rightarrow> int \<Rightarrow> node \<Rightarrow> node option" where
  "skynet_module_instance_signal E i inst sig s = do {
     m \<leftarrow> module_get i s;
     (case mod_signal m of Some f \<Rightarrow> ext_signal E f inst sig s | None \<Rightarrow> Some s) }"

definition skynet_module_init :: "string \<Rightarrow> node \<Rightarrow> node" where
  "skynet_module_init path s = s\<lparr>nd_modules := [], nd_path := path\<rparr>"

section \<open>Monitors of the worker threads (\<open>skynet_monitor.c\<close>)\<close>

definition skynet_monitor_new :: skynet_monitor where
  "skynet_monitor_new = \<lparr>mon_version = 0, mon_check_version = 0, mon_source = 0, mon_destination = 0\<rparr>"

definition skynet_monitor_trigger :: "nat \<Rightarrow> u32 \<Rightarrow> u32 \<Rightarrow> node \<Rightarrow> node option" where
  "skynet_monitor_trigger sm source destination s =
     (if sm < length (nd_mon s) then
        (let m = nd_mon s ! sm
         in Some (s\<lparr>nd_mon := (nd_mon s)[sm := m\<lparr>mon_source := source, mon_destination := destination,
                                              mon_version := int_inc (mon_version m)\<rparr>]\<rparr>))
      else None)"

end
