(* ===== verification/Server.thy ===== *)
theory Server
  imports Node
begin

text \<open>
  The server of \<open>skynet-src/skynet_server.c\<close> and the components that call into it: contexts and
  their reference counts, sending and dispatching messages, retiring handles
  (\<open>skynet_handle.c\<close>), timeouts (\<open>skynet_timer.c\<close>), the harbor (\<open>skynet_harbor.c\<close>), error
  reports (\<open>skynet_error.c\<close>), message logs (\<open>skynet_log.c\<close>), the endless-loop check
  (\<open>skynet_monitor.c\<close>) and the text commands of services.  Each function is the whole C function;
  a call of service code is a call of the parameter \<open>E\<close>, which may change the node.
\<close>

section \<open>Contexts\<close>

definition skynet_context_handle :: "addr \<Rightarrow> node \<Rightarrow> u32 option" where
  "skynet_context_handle c s = map_option cx_handle (nd_ctx s c)"

text \<open>The reading of the handle of a context that the handle storage uses.\<close>

definition ctx_ho :: "node \<Rightarrow> addr \<Rightarrow> u32" where
  "ctx_ho s c = (case nd_ctx s c of Some x \<Rightarrow> cx_handle x | None \<Rightarrow> 0)"

definition skynet_context_total :: "node \<Rightarrow> int" where
  "skynet_context_total s = nd_total s"

definition context_inc :: "node \<Rightarrow> node" where
  "context_inc s = s\<lparr>nd_total := int_inc (nd_total s)\<rparr>"

definition context_dec :: "node \<Rightarrow> node" where
  "context_dec s = s\<lparr>nd_total := int_dec (nd_total s)\<rparr>"

definition id_to_hex :: "u32 \<Rightarrow> string" where
  "id_to_hex i =
     CHR '':'' # map (\<lambda>k. ''0123456789ABCDEF'' ! unat (drop_bit ((7 - k) * 4) i AND 0xf)) [0..<8]"

definition skynet_context_newsession :: "addr \<Rightarrow> node \<Rightarrow> (node \<times> int) option" where
  "skynet_context_newsession c s = do {
     x \<leftarrow> nd_ctx s c;
     let session = int_inc (cx_session_id x);
     if session \<le> 0 then do { s1 \<leftarrow> ctx_upd c (cx_session_id_update (\<lambda>_. 1)) s; Some (s1, 1) }
     else do { s1 \<leftarrow> ctx_upd c (cx_session_id_update (\<lambda>_. session)) s; Some (s1, session) } }"

definition skynet_context_grab :: "addr \<Rightarrow> node \<Rightarrow> node option" where
  "skynet_context_grab c s = ctx_upd c (cx_ref_update int_inc) s"

definition skynet_context_reserve :: "addr \<Rightarrow> node \<Rightarrow> node option" where
  "skynet_context_reserve c s = do { s1 \<leftarrow> skynet_context_grab c s; Some (context_dec s1) }"

text \<open>\<open>fclose\<close> of a log file; closing it twice is an error.\<close>

definition c_fclose :: "nat \<Rightarrow> node \<Rightarrow> node option" where
  "c_fclose f s = do { _ \<leftarrow> nd_files s f; Some (s\<lparr>nd_files := (nd_files s)(f := None)\<rparr>) }"

definition c_fprintf :: "nat \<Rightarrow> string \<Rightarrow> node \<Rightarrow> node option" where
  "c_fprintf f text s = do { t \<leftarrow> nd_files s f; Some (s\<lparr>nd_files := (nd_files s)(f \<mapsto> t @ text)\<rparr>) }"

definition delete_context :: "services \<Rightarrow> addr \<Rightarrow> node \<Rightarrow> node option" where
  "delete_context E c s = do {
     x \<leftarrow> nd_ctx s c;
     s1 \<leftarrow> (case cx_logfile x of Some f \<Rightarrow> c_fclose f s | None \<Rightarrow> Some s);
     s2 \<leftarrow> skynet_module_instance_release E (cx_mod x) (cx_instance x) s1;
     x2 \<leftarrow> nd_ctx s2 c;
     q \<leftarrow> cx_queue x2;
     s3 \<leftarrow> skynet_mq_mark_release q s2;
     Some (context_dec (s3\<lparr>nd_ctx := (nd_ctx s3)(c := None)\<rparr>)) }"

definition skynet_context_release :: "services \<Rightarrow> addr \<Rightarrow> node \<Rightarrow> (node \<times> addr option) option" where
  "skynet_context_release E c s = do {
     s1 \<leftarrow> ctx_upd c (cx_ref_update int_dec) s;
     x \<leftarrow> nd_ctx s1 c;
     if cx_ref x = 0 then do { s2 \<leftarrow> delete_context E c s1; Some (s2, None) }
     else Some (s1, Some c) }"

section \<open>Handles (\<open>skynet_handle.c\<close>, with the contexts)\<close>

text \<open>Reading a slot dereferences the context it holds.\<close>

definition slot_live :: "u32 \<Rightarrow> node \<Rightarrow> bool" where
  "slot_live handle s =
     (case hs_slot (nd_H s) ! slot_hash (hs_slot_size (nd_H s)) handle of
        Some c \<Rightarrow> nd_ctx s c \<noteq> None | None \<Rightarrow> True)"

definition skynet_handle_grab :: "u32 \<Rightarrow> node \<Rightarrow> (node \<times> addr option) option" where
  "skynet_handle_grab handle s = do {
     c_assert (slot_live handle s);
     (case handle_find (ctx_ho s) (nd_H s) handle of
        Some c \<Rightarrow> do { s1 \<leftarrow> skynet_context_grab c s; Some (s1, Some c) }
      | None \<Rightarrow> Some (s, None)) }"

text \<open>Only growing the table reads the registered contexts.\<close>

definition handle_register :: "addr \<Rightarrow> node \<Rightarrow> (node \<times> u32) option" where
  "handle_register c s = do {
     c_assert (register_scan (nd_H s) [0..<hs_slot_size (nd_H s)] \<noteq> None
       \<or> list_all (\<lambda>p. case p of Some c \<Rightarrow> nd_ctx s c \<noteq> None | None \<Rightarrow> True) (hs_slot (nd_H s)));
     (H', h) \<leftarrow> skynet_handle_register (ctx_ho s) c (nd_H s);
     Some (s\<lparr>nd_H := H'\<rparr>, h) }"

definition skynet_handle_retire :: "services \<Rightarrow> u32 \<Rightarrow> node \<Rightarrow> (node \<times> bool) option" where
  "skynet_handle_retire E handle s = do {
     c_assert (slot_live handle s);
     (H', r) \<leftarrow> handle_retire (ctx_ho s) handle (nd_H s);
     let s1 = s\<lparr>nd_H := H'\<rparr>;
     (case r of
        Some c \<Rightarrow> do { (s2, _) \<leftarrow> skynet_context_release E c s1; Some (s2, True) }
      | None \<Rightarrow> Some (s1, False)) }"

text \<open>One pass of \<open>skynet_handle_retireall\<close> over the slots; the size is read at each step.\<close>

partial_function (option) retireall_pass :: "services \<Rightarrow> nat \<Rightarrow> nat \<Rightarrow> node \<Rightarrow> (node \<times> nat) option" where
  "retireall_pass E i n s =
     (if i < hs_slot_size (nd_H s) then
        (case hs_slot (nd_H s) ! i of
           None \<Rightarrow> retireall_pass E (i + 1) n s
         | Some c \<Rightarrow>
             Option.bind (skynet_context_handle c s) (\<lambda>handle.
               if handle \<noteq> 0 then
                 Option.bind (skynet_handle_retire E handle s) (\<lambda>(s1, r).
                   retireall_pass E (i + 1) (if r then n + 1 else n) s1)
               else retireall_pass E (i + 1) n s))
      else Some (s, n))"

partial_function (option) skynet_handle_retireall :: "services \<Rightarrow> node \<Rightarrow> node option" where
  "skynet_handle_retireall E s =
     Option.bind (retireall_pass E 0 0 s) (\<lambda>(s1, n).
       if n = 0 then Some s1 else skynet_handle_retireall E s1)"

section \<open>Pushing messages\<close>

text \<open>The result is the C result: -1 for an unknown handle, otherwise 0.\<close>

definition skynet_context_push ::
    "services \<Rightarrow> u32 \<Rightarrow> ptr skynet_message \<Rightarrow> node \<Rightarrow> (node \<times> int) option" where
  "skynet_context_push E handle message s = do {
     (s1, r) \<leftarrow> skynet_handle_grab handle s;
     (case r of
        None \<Rightarrow> Some (s1, - 1)
      | Some c \<Rightarrow> do {
          x \<leftarrow> nd_ctx s1 c;
          q \<leftarrow> cx_queue x;
          s2 \<leftarrow> skynet_mq_push q message s1;
          (s3, _) \<leftarrow> skynet_context_release E c s2;
          Some (s3, 0) }) }"

definition skynet_context_endless :: "services \<Rightarrow> u32 \<Rightarrow> node \<Rightarrow> node option" where
  "skynet_context_endless E handle s = do {
     (s1, r) \<leftarrow> skynet_handle_grab handle s;
     (case r of
        None \<Rightarrow> Some s1
      | Some c \<Rightarrow> do {
          s2 \<leftarrow> ctx_upd c (cx_endless_update (\<lambda>_. True)) s1;
          (s3, _) \<leftarrow> skynet_context_release E c s2;
          Some s3 }) }"

definition skynet_context_send ::
    "addr \<Rightarrow> ptr \<Rightarrow> u64 \<Rightarrow> u32 \<Rightarrow> u32 \<Rightarrow> int \<Rightarrow> node \<Rightarrow> node option" where
  "skynet_context_send c msg sz source type session s = do {
     x \<leftarrow> nd_ctx s c;
     q \<leftarrow> cx_queue x;
     skynet_mq_push q \<lparr>msg_source = source, msg_session = session, msg_data = msg,
       msg_sz = sz OR push_bit MESSAGE_TYPE_SHIFT (ucast type)\<rparr> s }"

text \<open>
  \<open>skynet_error\<close>, with the formatted text.  The buffer of the copy is the text if it fits in
  \<open>LOG_MESSAGE_SIZE\<close>, otherwise the first doubling of it that holds the text.
\<close>

definition LOG_MESSAGE_SIZE :: nat where [cdefs]: "LOG_MESSAGE_SIZE = 256"

function error_bufsize :: "nat \<Rightarrow> nat \<Rightarrow> nat" where
  "error_bufsize len max_size =
     (if len < 2 * max_size \<or> max_size = 0 then 2 * max_size else error_bufsize len (2 * max_size))"
  by pat_completeness auto
termination
  by (relation "measure (\<lambda>(len, max_size). Suc len - max_size)") auto

definition error_block :: "string \<Rightarrow> block" where
  "error_block text =
     (let len = length text
      in if len < LOG_MESSAGE_SIZE then Bytes (str_bytes text)
         else Bytes (str_bytes text @ replicate (error_bufsize len LOG_MESSAGE_SIZE - len - 1) None))"

definition skynet_error :: "services \<Rightarrow> addr option \<Rightarrow> string \<Rightarrow> node \<Rightarrow> node option" where
  "skynet_error E context text s = do {
     logger \<leftarrow> (if nd_logger s = 0 then skynet_handle_findname (nd_H s) ''logger'' else Some (nd_logger s));
     let s0 = s\<lparr>nd_logger := logger\<rparr>;
     if logger = 0 then Some s0
     else do {
       let (s1, data) = mem_alloc (error_block text) s0;
       source \<leftarrow> (case context of None \<Rightarrow> Some 0 | Some c \<Rightarrow> skynet_context_handle c s1);
       (s2, _) \<leftarrow> skynet_context_push E logger
         \<lparr>msg_source = source, msg_session = 0, msg_data = Some data,
          msg_sz = of_nat (length text) OR push_bit MESSAGE_TYPE_SHIFT (ucast PTYPE_TEXT)\<rparr> s1;
       Some s2 } }"

section \<open>Harbor (\<open>skynet_harbor.c\<close>)\<close>

definition skynet_harbor_send :: "addr \<Rightarrow> u32 \<Rightarrow> int \<Rightarrow> node \<Rightarrow> node option" where
  "skynet_harbor_send rmsg source session s = do {
     b \<leftarrow> nd_mem s rmsg;
     (case b of
        Remote r \<Rightarrow> do {
          let type = (ucast (drop_bit MESSAGE_TYPE_SHIFT (rm_sz r)) :: u32);
          let s1 = s\<lparr>nd_mem := (nd_mem s)(rmsg \<mapsto> Remote (r\<lparr>rm_sz := rm_sz r AND MESSAGE_TYPE_MASK\<rparr>))\<rparr>;
          c_assert (type \<noteq> PTYPE_SYSTEM \<and> type \<noteq> PTYPE_HARBOR);
          remote \<leftarrow> nd_REMOTE s;
          skynet_context_send remote (Some rmsg) 40 source type session s1 }
      | _ \<Rightarrow> None) }"

definition skynet_harbor_message_isremote :: "u32 \<Rightarrow> node \<Rightarrow> bool option" where
  "skynet_harbor_message_isremote handle s = do {
     c_assert (nd_HARBOR s \<noteq> - 1);
     let h = handle AND NOT HANDLE_MASK;
     Some (h \<noteq> nd_HARBOR s \<and> h \<noteq> 0) }"

definition skynet_harbor_init :: "u32 \<Rightarrow> node \<Rightarrow> node" where
  "skynet_harbor_init harbor s = s\<lparr>nd_HARBOR := push_bit HANDLE_REMOTE_SHIFT harbor\<rparr>"

definition skynet_harbor_start :: "addr \<Rightarrow> node \<Rightarrow> node option" where
  "skynet_harbor_start c s = do { s1 \<leftarrow> skynet_context_reserve c s; Some (s1\<lparr>nd_REMOTE := Some c\<rparr>) }"

definition skynet_harbor_exit :: "services \<Rightarrow> node \<Rightarrow> node option" where
  "skynet_harbor_exit E s =
     (case nd_REMOTE s of
        Some c \<Rightarrow> do { (s1, _) \<leftarrow> skynet_context_release E c (s\<lparr>nd_REMOTE := None\<rparr>); Some s1 }
      | None \<Rightarrow> Some (s\<lparr>nd_REMOTE := None\<rparr>))"

definition skynet_isremote :: "u32 \<Rightarrow> node \<Rightarrow> (bool \<times> int) option" where
  "skynet_isremote handle s = do {
     ret \<leftarrow> skynet_harbor_message_isremote handle s;
     Some (ret, int (unat (drop_bit HANDLE_REMOTE_SHIFT handle))) }"

section \<open>Sending\<close>

definition filter_args ::
    "addr option \<Rightarrow> u32 \<Rightarrow> int \<Rightarrow> ptr \<Rightarrow> u64 \<Rightarrow> node \<Rightarrow> (node \<times> int \<times> ptr \<times> u64) option" where
  "filter_args context type session data sz s = do {
     let needcopy = (type AND PTYPE_TAG_DONTCOPY = 0);
     let allocsession = (type AND PTYPE_TAG_ALLOCSESSION \<noteq> 0);
     (s1, session') \<leftarrow>
       (if allocsession then do {
          c_assert (session = 0);
          c \<leftarrow> context;
          skynet_context_newsession c s }
        else Some (s, session));
     (s2, data') \<leftarrow>
       (case data of
          Some a \<Rightarrow>
            if needcopy then do {
              bs \<leftarrow> mem_bytes a (unat sz) s1;
              let (s2, msg) = mem_alloc (Bytes (bs @ [Some 0])) s1;
              Some (s2, Some msg) }
            else Some (s1, data)
        | None \<Rightarrow> Some (s1, data));
     Some (s2, session', data', sz OR push_bit MESSAGE_TYPE_SHIFT (ucast (type AND 0xff))) }"

definition source_of :: "addr option \<Rightarrow> u32 \<Rightarrow> node \<Rightarrow> u32 option" where
  "source_of context source s =
     (if source = 0 then Option.bind context (\<lambda>c. skynet_context_handle c s) else Some source)"

definition skynet_send ::
    "services \<Rightarrow> addr option \<Rightarrow> u32 \<Rightarrow> u32 \<Rightarrow> u32 \<Rightarrow> int \<Rightarrow> ptr \<Rightarrow> u64 \<Rightarrow> node \<Rightarrow> (node \<times> int) option" where
  "skynet_send E context source destination type session data sz s =
     (if sz AND MESSAGE_TYPE_MASK \<noteq> sz then do {
        s1 \<leftarrow> skynet_error E context (''The message to '' @ fmt_x destination @ '' is too large'') s;
        s2 \<leftarrow> (if type AND PTYPE_TAG_DONTCOPY \<noteq> 0 then skynet_free data s1 else Some s1);
        Some (s2, - 1) }
      else do {
        (s1, session', data', sz') \<leftarrow> filter_args context type session data sz s;
        source' \<leftarrow> source_of context source s1;
        if destination = 0 then Some (s1, session')
        else do {
          remote \<leftarrow> skynet_harbor_message_isremote destination s1;
          if remote then do {
            let (s2, rmsg) = mem_alloc (Remote \<lparr>
              rm_destination = \<lparr>rn_name = None, rn_handle = destination\<rparr>,
              rm_message = data', rm_sz = sz'\<rparr>) s1;
            s3 \<leftarrow> skynet_harbor_send rmsg source' session' s2;
            Some (s3, session') }
          else do {
            (s2, r) \<leftarrow> skynet_context_push E destination \<lparr>msg_source = source', msg_session = session',
              msg_data = data', msg_sz = sz'\<rparr> s1;
            if r \<noteq> 0 then do { s3 \<leftarrow> skynet_free data' s2; Some (s3, - 1) }
            else Some (s2, session') } } })"

definition copy_name :: "string \<Rightarrow> string" where
  "copy_name addr =
     (let name = take GLOBALNAME_LENGTH addr
      in name @ replicate (GLOBALNAME_LENGTH - length name) (CHR 0x00))"

definition skynet_sendname ::
    "services \<Rightarrow> addr option \<Rightarrow> u32 \<Rightarrow> string \<Rightarrow> u32 \<Rightarrow> int \<Rightarrow> ptr \<Rightarrow> u64 \<Rightarrow> node \<Rightarrow> (node \<times> int) option" where
  "skynet_sendname E context source addr type session data sz s = do {
     source' \<leftarrow> source_of context source s;
     (if addr \<noteq> [] \<and> hd addr = CHR '':'' then
        skynet_send E context source' (ucast (c_strtoul (tl addr) 16)) type session data sz s
      else if addr \<noteq> [] \<and> hd addr = CHR ''.'' then do {
        des \<leftarrow> skynet_handle_findname (nd_H s) (tl addr);
        if des = 0 then do {
          s1 \<leftarrow> (if type AND PTYPE_TAG_DONTCOPY \<noteq> 0 then skynet_free data s else Some s);
          Some (s1, - 1) }
        else skynet_send E context source' des type session data sz s }
      else do {
        (s1, session', data', sz') \<leftarrow> filter_args context type session data sz s;
        let (s2, rmsg) = mem_alloc (Remote \<lparr>
          rm_destination = \<lparr>rn_name = Some (copy_name addr), rn_handle = 0\<rparr>,
          rm_message = data', rm_sz = sz'\<rparr>) s1;
        s3 \<leftarrow> skynet_harbor_send rmsg source' session' s2;
        Some (s3, session') }) }"

definition drop_message :: "services \<Rightarrow> u32 \<Rightarrow> ptr skynet_message \<Rightarrow> node \<Rightarrow> node option" where
  "drop_message E handle msg s = do {
     s1 \<leftarrow> skynet_free (msg_data msg) s;
     c_assert (handle \<noteq> 0);
     (s2, _) \<leftarrow> skynet_send E None handle (msg_source msg) PTYPE_ERROR 0 None 0 s1;
     Some s2 }"

section \<open>Launching\<close>

definition context_fresh :: "nat \<Rightarrow> u64 \<Rightarrow> bool \<Rightarrow> skynet_context" where
  "context_fresh m inst prof = \<lparr>cx_instance = inst, cx_mod = m, cx_cb_ud = 0, cx_cb = None, cx_queue = None,
     cx_logfile = None, cx_cpu_cost = 0, cx_cpu_start = 0, cx_result = [], cx_handle = 0,
     cx_session_id = 0, cx_ref = 2, cx_message_count = 0, cx_init = False, cx_endless = False,
     cx_profile = prof\<rparr>"

definition ctx_malloc :: "skynet_context \<Rightarrow> node \<Rightarrow> node \<times> addr" where
  "ctx_malloc x s =
     (s\<lparr>nd_ctx := (nd_ctx s)(nd_ctx_fresh s \<mapsto> x), nd_ctx_fresh := Suc (nd_ctx_fresh s)\<rparr>, nd_ctx_fresh s)"

text \<open>The part of \<open>skynet_context_new\<close> before the init function of the module runs.  Between the registration and the assignment of the handle
  the code has a moment in which the context is registered with handle 0; here the two are one step.\<close>

definition context_create ::
    "services \<Rightarrow> string \<Rightarrow> node \<Rightarrow> (node \<times> (nat \<times> u64 \<times> addr \<times> addr) option) option" where
  "context_create E name s = do {
     (s1, m) \<leftarrow> skynet_module_query E name s;
     (case m of
        None \<Rightarrow> Some (s1, None)
      | Some md \<Rightarrow> do {
          (s2, inst) \<leftarrow> skynet_module_instance_create E md s1;
          if inst = 0 then Some (s2, None)
          else do {
            let (s3, ctx) = ctx_malloc (context_fresh md inst (nd_profile s2)) s2;
            (s4, h) \<leftarrow> handle_register ctx s3;
            s5 \<leftarrow> ctx_upd ctx (cx_handle_update (\<lambda>_. h)) s4;
            let (s6, queue) = skynet_mq_create h s5;
            s7 \<leftarrow> ctx_upd ctx (cx_queue_update (\<lambda>_. Some queue)) s6;
            Some (context_inc s7, Some (md, inst, ctx, queue)) } }) }"

definition skynet_context_new ::
    "services \<Rightarrow> string \<Rightarrow> string option \<Rightarrow> node \<Rightarrow> (node \<times> addr option) option" where
  "skynet_context_new E name param s = do {
     (s1, cr) \<leftarrow> context_create E name s;
     (case cr of
        None \<Rightarrow> Some (s1, None)
      | Some (md, inst, ctx, queue) \<Rightarrow> do {
          (s2, r) \<leftarrow> skynet_module_instance_init E md inst ctx param s1;
          if r = 0 then do {
            (s3, ret) \<leftarrow> skynet_context_release E ctx s2;
            s4 \<leftarrow> (if ret \<noteq> None then ctx_upd ctx (cx_init_update (\<lambda>_. True)) s3 else Some s3);
            s5 \<leftarrow> skynet_globalmq_push queue s4;
            s6 \<leftarrow> (if ret \<noteq> None
                    then skynet_error E ret
                           (''LAUNCH '' @ name @ '' '' @ (case param of Some p \<Rightarrow> p | None \<Rightarrow> [])) s5
                    else Some s5);
            Some (s6, ret) }
          else do {
            s3 \<leftarrow> skynet_error E (Some ctx) (''FAILED launch '' @ name) s2;
            handle \<leftarrow> skynet_context_handle ctx s3;
            (s4, _) \<leftarrow> skynet_context_release E ctx s3;
            (s5, _) \<leftarrow> skynet_handle_retire E handle s4;
            s6 \<leftarrow> skynet_mq_release queue (drop_message E handle) s5;
            Some (s6, None) } }) }"

definition skynet_callback :: "addr \<Rightarrow> u64 \<Rightarrow> nat option \<Rightarrow> node \<Rightarrow> node option" where
  "skynet_callback c ud cb s = ctx_upd c (\<lambda>x. x\<lparr>cx_cb := cb, cx_cb_ud := ud\<rparr>) s"

section \<open>Message logs (\<open>skynet_log.c\<close>)\<close>

definition skynet_log_open :: "services \<Rightarrow> addr \<Rightarrow> u32 \<Rightarrow> node \<Rightarrow> (node \<times> nat option) option" where
  "skynet_log_open E ctx handle s =
     (case skynet_getenv ''logpath'' s of
        None \<Rightarrow> Some (s, None)
      | Some logpath \<Rightarrow> do {
          let tmp = logpath @ ''/'' @ pad0 8 (fmt_x handle) @ ''.log'';
          if ext_fopen E tmp then do {
            let f = nd_files_fresh s;
            let s1 = s\<lparr>nd_files := (nd_files s)(f \<mapsto> []), nd_files_fresh := Suc f\<rparr>;
            let starttime = skynet_starttime (nd_TI s1);
            let currenttime = skynet_now (nd_TI s1);
            let ti = sint (ucast starttime + currenttime div 100);
            s2 \<leftarrow> skynet_error E (Some ctx) (''Open log file '' @ tmp) s1;
            s3 \<leftarrow> c_fprintf f (''open time: '' @ fmt_u (ucast currenttime :: u32) @ '' '' @ ext_ctime E ti) s2;
            Some (s3, Some f) }
          else do {
            s1 \<leftarrow> skynet_error E (Some ctx) (''Open log file '' @ tmp @ '' fail'') s;
            Some (s1, None) } })"

definition skynet_log_close :: "services \<Rightarrow> addr \<Rightarrow> nat \<Rightarrow> u32 \<Rightarrow> node \<Rightarrow> node option" where
  "skynet_log_close E ctx f handle s = do {
     s1 \<leftarrow> skynet_error E (Some ctx) (''Close log file :'' @ pad0 8 (fmt_x handle)) s;
     s2 \<leftarrow> c_fprintf f (''close time: '' @ fmt_u (ucast (skynet_now (nd_TI s1)) :: u32) @ [CHR 0x0A]) s1;
     c_fclose f s2 }"

text \<open>The text of \<open>log_blob\<close>; a byte that was never written is not printed.\<close>

fun blob_text :: "u8 option list \<Rightarrow> string option" where
  "blob_text [] = Some []"
| "blob_text (b # bs) = do { x \<leftarrow> b; t \<leftarrow> blob_text bs; Some (pad0 2 (nat_string 16 (unat x)) @ t) }"

definition log_blob :: "nat \<Rightarrow> ptr \<Rightarrow> nat \<Rightarrow> node \<Rightarrow> node option" where
  "log_blob f buffer sz s =
     (if sz = 0 then Some s
      else do { a \<leftarrow> buffer; bs \<leftarrow> mem_bytes a sz s; t \<leftarrow> blob_text bs; c_fprintf f t s })"

text \<open>The field width of \<open>%*s\<close> is a minimum: the text is printed up to its terminating zero, so it
  must have one.\<close>

definition log_socket :: "nat \<Rightarrow> skynet_socket_message \<Rightarrow> node \<Rightarrow> node option" where
  "log_socket f m s = do {
     s1 \<leftarrow> c_fprintf f (''[socket] '' @ fmt_d (sm_type m) @ '' '' @ fmt_d (sm_id m) @ '' '' @ fmt_d (sm_ud m) @ '' '') s;
     s2 \<leftarrow> (case sm_buffer m of
               None \<Rightarrow> do {
                 c_assert (0 \<in> set (sm_text m));
                 c_fprintf f (''['' @ map (\<lambda>b. char_of (unat b)) (takeWhile (\<lambda>b. b \<noteq> 0) (sm_text m)) @ '']'') s1 }
             | Some b \<Rightarrow> log_blob f (Some b) (unat (of_int (sm_ud m) :: u64)) s1);
     c_fprintf f [CHR 0x0A] s2 }"

definition skynet_log_output :: "nat \<Rightarrow> u32 \<Rightarrow> u32 \<Rightarrow> int \<Rightarrow> ptr \<Rightarrow> u64 \<Rightarrow> node \<Rightarrow> node option" where
  "skynet_log_output f source type session buffer sz s =
     (if type = PTYPE_SOCKET then do {
        a \<leftarrow> buffer;
        b \<leftarrow> nd_mem s a;
        (case b of Socket m \<Rightarrow> log_socket f m s | _ \<Rightarrow> None) }
      else do {
        let ti = (ucast (skynet_now (nd_TI s)) :: u32);
        s1 \<leftarrow> c_fprintf f ('':'' @ pad0 8 (fmt_x source) @ '' '' @ fmt_d (int (unat type)) @ '' ''
                            @ fmt_d session @ '' '' @ fmt_u ti @ '' '') s;
        s2 \<leftarrow> log_blob f buffer (unat sz) s1;
        c_fprintf f [CHR 0x0A] s2 })"

section \<open>Dispatching\<close>

definition dispatch_message :: "services \<Rightarrow> addr \<Rightarrow> ptr skynet_message \<Rightarrow> node \<Rightarrow> node option" where
  "dispatch_message E c msg s = do {
     x \<leftarrow> nd_ctx s c;
     c_assert (cx_init x);
     let s0 = s\<lparr>nd_current := cx_handle x\<rparr>;
     let type = (ucast (drop_bit MESSAGE_TYPE_SHIFT (msg_sz msg)) :: u32);
     let sz = msg_sz msg AND MESSAGE_TYPE_MASK;
     s1 \<leftarrow> (case cx_logfile x of
               Some f \<Rightarrow> skynet_log_output f (msg_source msg) type (msg_session msg) (msg_data msg) sz s0
             | None \<Rightarrow> Some s0);
     s2 \<leftarrow> ctx_upd c (cx_message_count_update int_inc) s1;
     x2 \<leftarrow> nd_ctx s2 c;
     cb \<leftarrow> cx_cb x2;
     (s4, reserve_msg) \<leftarrow>
       (if cx_profile x2 then do {
          s3 \<leftarrow> ctx_upd c (cx_cpu_start_update (\<lambda>_. ext_thread_time E s2)) s2;
          (s4, r) \<leftarrow> ext_cb E cb c (cx_cb_ud x2) type (msg_session msg) (msg_source msg) (msg_data msg) sz s3;
          s5 \<leftarrow> ctx_upd c (\<lambda>y. y\<lparr>cx_cpu_cost := cx_cpu_cost y + (ext_thread_time E s4 - cx_cpu_start y)\<rparr>) s4;
          Some (s5, r) }
        else ext_cb E cb c (cx_cb_ud x2) type (msg_session msg) (msg_source msg) (msg_data msg) sz s2);
     if reserve_msg = 0 then skynet_free (msg_data msg) s4 else Some s4 }"

partial_function (option) skynet_context_dispatchall :: "services \<Rightarrow> addr \<Rightarrow> addr \<Rightarrow> node \<Rightarrow> node option" where
  "skynet_context_dispatchall E c q s =
     Option.bind (skynet_mq_pop q s) (\<lambda>(s1, r).
       case r of
         None \<Rightarrow> Some s1
       | Some msg \<Rightarrow> Option.bind (dispatch_message E c msg s1) (skynet_context_dispatchall E c q))"

text \<open>What one iteration of the loop of \<open>skynet_context_message_dispatch\<close> does with the message
  it has popped.\<close>

definition dispatch_popped ::
    "services \<Rightarrow> nat \<Rightarrow> u32 \<Rightarrow> addr \<Rightarrow> addr \<Rightarrow> ptr skynet_message \<Rightarrow> node \<Rightarrow> node option" where
  "dispatch_popped E sm handle c q msg s = do {
     (s1, overload) \<leftarrow> skynet_mq_overload q s;
     s2 \<leftarrow> (if overload \<noteq> 0
             then skynet_error E (Some c) (''May overload, message queue length = '' @ fmt_d overload) s1
             else Some s1);
     s3 \<leftarrow> skynet_monitor_trigger sm (msg_source msg) handle s2;
     x \<leftarrow> nd_ctx s3 c;
     s4 \<leftarrow> (if cx_cb x = None then skynet_free (msg_data msg) s3 else dispatch_message E c msg s3);
     skynet_monitor_trigger sm 0 0 s4 }"

text \<open>The iterations after the first one: \<open>k\<close> of them are left.  The result says whether the queue
  ran empty.\<close>

fun dispatch_rest ::
    "services \<Rightarrow> nat \<Rightarrow> u32 \<Rightarrow> addr \<Rightarrow> addr \<Rightarrow> nat \<Rightarrow> node \<Rightarrow> (node \<times> bool) option" where
  "dispatch_rest E sm handle c q 0 s = Some (s, False)"
| "dispatch_rest E sm handle c q (Suc k) s = do {
     (s1, r) \<leftarrow> skynet_mq_pop q s;
     (case r of
        None \<Rightarrow> Some (s1, True)
      | Some msg \<Rightarrow> do {
          s2 \<leftarrow> dispatch_popped E sm handle c q msg s1;
          dispatch_rest E sm handle c q k s2 }) }"

text \<open>The loop: the first pop fixes the number of iterations, from the length that is left and the
  weight.\<close>

definition dispatch_loop ::
    "services \<Rightarrow> nat \<Rightarrow> u32 \<Rightarrow> addr \<Rightarrow> addr \<Rightarrow> int \<Rightarrow> node \<Rightarrow> (node \<times> bool) option" where
  "dispatch_loop E sm handle c q weight s = do {
     (s1, r) \<leftarrow> skynet_mq_pop q s;
     (case r of
        None \<Rightarrow> Some (s1, True)
      | Some msg \<Rightarrow> do {
          len \<leftarrow> skynet_mq_length q s1;
          let n = (if weight \<ge> 0 then len div 2 ^ nat weight else 1);
          s2 \<leftarrow> dispatch_popped E sm handle c q msg s1;
          dispatch_rest E sm handle c q (nat (n - 1)) s2 }) }"

definition dispatch_queue ::
    "services \<Rightarrow> nat \<Rightarrow> addr \<Rightarrow> int \<Rightarrow> node \<Rightarrow> (node \<times> addr option) option" where
  "dispatch_queue E sm q weight s = do {
     handle \<leftarrow> skynet_mq_handle q s;
     (s1, r) \<leftarrow> skynet_handle_grab handle s;
     (case r of
        None \<Rightarrow> do {
          s2 \<leftarrow> skynet_mq_release q (drop_message E handle) s1;
          skynet_globalmq_pop s2 }
      | Some c \<Rightarrow> do {
          (s2, emptied) \<leftarrow> dispatch_loop E sm handle c q weight s1;
          if emptied then do {
            (s3, _) \<leftarrow> skynet_context_release E c s2;
            skynet_globalmq_pop s3 }
          else do {
            x \<leftarrow> nd_ctx s2 c;
            c_assert (cx_queue x = Some q);
            (s3, nq) \<leftarrow> skynet_globalmq_pop s2;
            (case nq of
               Some q' \<Rightarrow> do {
                 s4 \<leftarrow> skynet_globalmq_push q s3;
                 (s5, _) \<leftarrow> skynet_context_release E c s4;
                 Some (s5, Some q') }
             | None \<Rightarrow> do {
                 (s4, _) \<leftarrow> skynet_context_release E c s3;
                 Some (s4, Some q) }) } }) }"

definition skynet_context_message_dispatch ::
    "services \<Rightarrow> nat \<Rightarrow> addr option \<Rightarrow> int \<Rightarrow> node \<Rightarrow> (node \<times> addr option) option" where
  "skynet_context_message_dispatch E sm q weight s =
     (case q of
        Some a \<Rightarrow> dispatch_queue E sm a weight s
      | None \<Rightarrow> do {
          (s1, r) \<leftarrow> skynet_globalmq_pop s;
          (case r of None \<Rightarrow> Some (s1, None) | Some a \<Rightarrow> dispatch_queue E sm a weight s1) })"

definition skynet_monitor_check :: "services \<Rightarrow> nat \<Rightarrow> node \<Rightarrow> node option" where
  "skynet_monitor_check E sm s =
     (if sm < length (nd_mon s) then
        (let m = nd_mon s ! sm
         in if mon_version m = mon_check_version m then
              (if mon_destination m \<noteq> 0 then do {
                 s1 \<leftarrow> skynet_context_endless E (mon_destination m) s;
                 skynet_error E None
                   (''A message from [ :'' @ pad0 8 (fmt_x (mon_source m)) @ '' ] to [ :''
                    @ pad0 8 (fmt_x (mon_destination m)) @ '' ] maybe in an endless loop (version = ''
                    @ fmt_d (mon_version m) @ '')'') s1 }
               else Some s)
            else Some (s\<lparr>nd_mon := (nd_mon s)[sm := m\<lparr>mon_check_version := mon_version m\<rparr>]\<rparr>))
      else None)"

section \<open>Timeouts (\<open>skynet_timer.c\<close>, with the contexts)\<close>

definition timer_message :: "int \<Rightarrow> ptr skynet_message" where
  "timer_message session = \<lparr>msg_source = 0, msg_session = session, msg_data = None,
     msg_sz = push_bit MESSAGE_TYPE_SHIFT (ucast PTYPE_RESPONSE)\<rparr>"

fun dispatch_list :: "services \<Rightarrow> timer_node list \<Rightarrow> node \<Rightarrow> node option" where
  "dispatch_list E [] s = Some s"
| "dispatch_list E (n # ns) s = do {
     (s1, _) \<leftarrow> skynet_context_push E (te_handle (tn_event n)) (timer_message (te_session (tn_event n))) s;
     dispatch_list E ns s1 }"

text \<open>\<open>timer_execute\<close> of the node: a pass takes the whole list of the slot and dispatches it; the
  slot is read again afterwards.\<close>

partial_function (option) node_timer_execute :: "services \<Rightarrow> node \<Rightarrow> node option" where
  "node_timer_execute E s =
     (case timer_execute (nd_TI s) of (T, fired) \<Rightarrow>
        if fired \<noteq> [] then
          Option.bind (dispatch_list E fired (s\<lparr>nd_TI := T\<rparr>)) (node_timer_execute E)
        else Some s)"

definition node_timer_update :: "services \<Rightarrow> node \<Rightarrow> node option" where
  "node_timer_update E s = do {
     s1 \<leftarrow> node_timer_execute E s;
     T \<leftarrow> timer_shift (nd_TI s1);
     node_timer_execute E (s1\<lparr>nd_TI := T\<rparr>) }"

fun node_timer_updates :: "services \<Rightarrow> nat \<Rightarrow> node \<Rightarrow> node option" where
  "node_timer_updates E 0 s = Some s"
| "node_timer_updates E (Suc n) s = do { s1 \<leftarrow> node_timer_update E s; node_timer_updates E n s1 }"

definition node_updatetime :: "services \<Rightarrow> u64 \<Rightarrow> node \<Rightarrow> node option" where
  "node_updatetime E cp s =
     (let T = nd_TI s
      in if cp < tm_current_point T then do {
           s1 \<leftarrow> skynet_error E None (''time diff error: change from '' @ fmt_d (sint cp) @ '' to ''
                   @ fmt_d (sint (tm_current_point T))) s;
           Some (s1\<lparr>nd_TI := (nd_TI s1)\<lparr>tm_current_point := cp\<rparr>\<rparr>) }
         else if cp \<noteq> tm_current_point T then do {
           let diff = (ucast (cp - tm_current_point T) :: u32);
           c_assert (unat diff < 2 ^ 31);
           node_timer_updates E (unat diff)
             (s\<lparr>nd_TI := T\<lparr>tm_current_point := cp, tm_current := tm_current T + ucast diff\<rparr>\<rparr>) }
         else Some s)"

definition skynet_timeout :: "services \<Rightarrow> u32 \<Rightarrow> int \<Rightarrow> int \<Rightarrow> node \<Rightarrow> (node \<times> int) option" where
  "skynet_timeout E handle time session s =
     (if time \<le> 0 then do {
        (s1, r) \<leftarrow> skynet_context_push E handle (timer_message session) s;
        Some (s1, if r \<noteq> 0 then - 1 else session) }
      else Some (s\<lparr>nd_TI := timer_add (nd_TI s) \<lparr>te_handle = handle, te_session = session\<rparr> time\<rparr>, session))"

end
