(* ===== verification/Mailbox.thy ===== *)
theory Mailbox
  imports Server
begin

text \<open>
  The abstract view of a node: a map from the handles of services to their mailboxes, the lists of
  messages in their queues.  The invariant \<open>node_inv\<close> ties contexts, handles and queues together;
  the operations of the server are shown to keep it and to act on the mailboxes as specified.
\<close>

section \<open>The invariant\<close>

definition mq_list :: "'d message_queue \<Rightarrow> 'd skynet_message list" where
  "mq_list q = map the (ring_list (mq_queue q) (mq_head q) (ring_len (mq_cap q) (mq_head q) (mq_tail q)))"

lemma mq_list_rep: "mq_rep q ms \<Longrightarrow> mq_list q = ms"
  by (simp add: mq_list_def mq_rep_def comp_def)

definition ctx_mq :: "node \<Rightarrow> addr \<Rightarrow> addr option" where
  "ctx_mq s c = Option.bind (nd_ctx s c) cx_queue"

definition mailbox :: "node \<Rightarrow> u32 \<Rightarrow> ptr skynet_message list option" where
  "mailbox s h = do {
     c \<leftarrow> handle_find (ctx_ho s) (nd_H s) h;
     q \<leftarrow> ctx_mq s c;
     map_option mq_list (mq_heap s q) }"

text \<open>A queue agrees with the global queue: one that is neither scheduled nor marked is not linked.\<close>

definition queues_inv :: "('d, 'z) mqs_scheme \<Rightarrow> bool" where
  [inv_defs]: "queues_inv s \<longleftrightarrow> (\<exists>gs. gq_rep s gs \<and> (\<forall>a Q. mq_heap s a = Some Q \<longrightarrow>
      a < mq_fresh s \<and> (\<exists>ms. mq_rep Q ms) \<and> mq_in_global Q \<in> {0, 1}
      \<and> (mq_release Q = 0 \<longrightarrow> mq_in_global Q = 0 \<longrightarrow> a \<notin> set gs)))"

text \<open>Every context has its own queue, not marked for release and with the handle of the context;
  a registered context is live and the handle storage holds a reference of it.\<close>

definition ctxs_inv :: "node \<Rightarrow> bool" where
  [inv_defs]: "ctxs_inv s \<longleftrightarrow>
     (\<forall>c x. nd_ctx s c = Some x \<longrightarrow> c < nd_ctx_fresh s \<and> 0 \<le> cx_ref x \<and> cx_ref x < 2 ^ 31 - 1 \<and> cx_mod x < length (nd_modules s)
        \<and> (\<exists>q Q. cx_queue x = Some q \<and> mq_heap s q = Some Q \<and> mq_release Q = 0 \<and> mq_handle Q = cx_handle x))
     \<and> (\<forall>c d q. ctx_mq s c = Some q \<longrightarrow> ctx_mq s d = Some q \<longrightarrow> c = d)
     \<and> (\<forall>c \<in> registered (nd_H s). \<exists>x. nd_ctx s c = Some x \<and> 1 \<le> cx_ref x)"

definition node_inv :: "node \<Rightarrow> bool" where
  [inv_defs]: "node_inv s \<longleftrightarrow> queues_inv s \<and> ctxs_inv s \<and> storage_inv (ctx_ho s) (nd_H s)
     \<and> (\<forall>a. nd_mem s a \<noteq> None \<longrightarrow> a < nd_mem_fresh s)"

lemma mq_frame_eq:
  "mq_frame a s s' \<Longrightarrow> s' = s\<lparr>mq_heap := mq_heap s', gq_head := gq_head s', gq_tail := gq_tail s'\<rparr>"
  by (cases s; cases s') (simp add: mq_frame_def)

lemma to_int32_id [simp]: "- (2 ^ 31) \<le> i \<Longrightarrow> i < 2 ^ 31 \<Longrightarrow> to_int32 i = i"
  by (simp add: to_int32_def)

lemma int_inc_small: "0 \<le> i \<Longrightarrow> i < 2 ^ 31 - 1 \<Longrightarrow> int_inc i = i + 1"
  by (simp add: int_inc_def)

lemma int_dec_small: "0 < i \<Longrightarrow> i < 2 ^ 31 \<Longrightarrow> int_dec i = i - 1"
  by (simp add: int_dec_def)

lemma node_invD:
  assumes "node_inv s"
  shows "queues_inv s" "ctxs_inv s" "storage_inv (ctx_ho s) (nd_H s)" "\<And>a. nd_mem s a \<noteq> None \<Longrightarrow> a < nd_mem_fresh s"
  using assms by (auto simp: node_inv_def)

lemma registered_ctx:
  assumes "node_inv s" "handle_find (ctx_ho s) (nd_H s) h = Some c"
  obtains x q Q where "nd_ctx s c = Some x" "1 \<le> cx_ref x" "cx_ref x < 2 ^ 31 - 1" "cx_handle x = h"
    "cx_queue x = Some q" "mq_heap s q = Some Q" "mq_release Q = 0" "mq_handle Q = h" "ctx_mq s c = Some q"
proof -
  have "c \<in> registered (nd_H s)" "ctx_ho s c = h"
    using storage.find_member[OF node_invD(3)[OF assms(1)] assms(2)] by auto
  moreover from this(1) obtain x where x: "nd_ctx s c = Some x" "1 \<le> cx_ref x"
    using node_invD(2)[OF assms(1)] by (auto simp: ctxs_inv_def)
  moreover from x(1) obtain q Q where "cx_ref x < 2 ^ 31 - 1" "cx_queue x = Some q" "mq_heap s q = Some Q"
      "mq_release Q = 0" "mq_handle Q = cx_handle x"
    using node_invD(2)[OF assms(1)] unfolding ctxs_inv_def by blast
  ultimately show thesis using that by (auto simp: ctx_ho_def ctx_mq_def)
qed

lemma slot_live_inv: "node_inv s \<Longrightarrow> slot_live h s"
proof -
  assume inv: "node_inv s"
  have "slot_hash (hs_slot_size (nd_H s)) h < length (hs_slot (nd_H s))"
    using node_invD(3)[OF inv] slot_hash_less by (auto simp: storage_inv_def hs_wf_def)
  then have "c \<in> registered (nd_H s)" if "hs_slot (nd_H s) ! slot_hash (hs_slot_size (nd_H s)) h = Some c" for c
    using that by (metis mem_Collect_eq nth_mem registered_def)
  then show ?thesis
    using node_invD(2)[OF inv] by (fastforce simp: slot_live_def ctxs_inv_def split: option.split)
qed

section \<open>Frames\<close>

text \<open>A change of the queues that keeps which queues exist, their handles and their release marks
  keeps the invariant of the contexts.\<close>

lemma ctx_ho_queues [simp]:
  "ctx_ho (s\<lparr>mq_heap := A, gq_head := B, gq_tail := C\<rparr>) = ctx_ho s"
  "ctx_mq (s\<lparr>mq_heap := A, gq_head := B, gq_tail := C\<rparr>) = ctx_mq s"
  by (auto simp: ctx_ho_def ctx_mq_def fun_eq_iff)

lemma same_upto_next:
  assumes "R'\<lparr>mq_next := None\<rparr> = R\<lparr>mq_next := None\<rparr>"
  shows "mq_rep R' ms = mq_rep R ms" "mq_list R' = mq_list R" "mq_in_global R' = mq_in_global R"
    "mq_release R' = mq_release R" "mq_handle R' = mq_handle R"
  using assms by (cases R; cases R'; simp add: mq_rep_def mq_list_def)+

lemma mq_frame_other:
  assumes "mq_frame q s s'" "a \<noteq> q"
  shows "mq_heap s' a = Some R' \<Longrightarrow> \<exists>R. mq_heap s a = Some R \<and> R'\<lparr>mq_next := None\<rparr> = R\<lparr>mq_next := None\<rparr>"
    and "mq_heap s a = Some R \<Longrightarrow> \<exists>R'. mq_heap s' a = Some R' \<and> R'\<lparr>mq_next := None\<rparr> = R\<lparr>mq_next := None\<rparr>"
proof -
  have "mq_contents s' a = mq_contents s a" using assms by (simp add: mq_frame_def)
  then show "mq_heap s' a = Some R' \<Longrightarrow> \<exists>R. mq_heap s a = Some R \<and> R'\<lparr>mq_next := None\<rparr> = R\<lparr>mq_next := None\<rparr>"
    and "mq_heap s a = Some R \<Longrightarrow> \<exists>R'. mq_heap s' a = Some R' \<and> R'\<lparr>mq_next := None\<rparr> = R\<lparr>mq_next := None\<rparr>"
    by (cases "mq_heap s a"; cases "mq_heap s' a"; simp add: mq_contents_def)+
qed

lemma ctxs_inv_frame:
  assumes "ctxs_inv s" and fr: "mq_frame q s s'" and q: "mq_heap s q = Some Q" "mq_heap s' q = Some Q'"
    and same: "mq_release Q' = mq_release Q" "mq_handle Q' = mq_handle Q"
  shows "ctxs_inv s'"
proof -
  have s': "s' = s\<lparr>mq_heap := mq_heap s', gq_head := gq_head s', gq_tail := gq_tail s'\<rparr>"
    using fr by (rule mq_frame_eq)
  have keep: "\<exists>R'. mq_heap s' a = Some R' \<and> mq_release R' = mq_release R \<and> mq_handle R' = mq_handle R"
    if "mq_heap s a = Some R" for a R
  proof (cases "a = q")
    case True
    with that q same show ?thesis by auto
  next
    case False
    from mq_frame_other(2)[OF fr this that] obtain R' where
      "mq_heap s' a = Some R'" "R'\<lparr>mq_next := None\<rparr> = R\<lparr>mq_next := None\<rparr>" by blast
    then show ?thesis using same_upto_next(4,5) by blast
  qed
  have f: "nd_ctx s' = nd_ctx s" "nd_ctx_fresh s' = nd_ctx_fresh s" "nd_H s' = nd_H s" "ctx_mq s' = ctx_mq s"
    "nd_modules s' = nd_modules s"
    by (subst s', simp)+
  show ?thesis
    using assms(1) keep unfolding ctxs_inv_def f by metis
qed

lemma mq_chain_inj: "mq_chain H p as \<Longrightarrow> mq_chain H p bs \<Longrightarrow> as = bs"
proof (induction as arbitrary: p bs)
  case Nil
  then show ?case by (cases bs) auto
next
  case (Cons a as)
  then show ?case by (cases bs) (auto split: option.splits)
qed

lemma gq_rep_inj: "gq_rep s as \<Longrightarrow> gq_rep s bs \<Longrightarrow> as = bs"
  using mq_chain_inj by (auto simp: gq_rep_def)

lemma queues_inv_frame:
  assumes inv: "queues_inv s" and fr: "mq_frame q s s'" and gq: "gq_rep s gs" "gq_rep s' gs'"
    and gs: "set gs' - {q} = set gs - {q}"
    and q: "mq_heap s q \<noteq> None" "mq_heap s' q = Some Q'" "mq_rep Q' ms" "mq_in_global Q' \<in> {0, 1}"
      "mq_release Q' = 0 \<longrightarrow> mq_in_global Q' = 0 \<longrightarrow> q \<notin> set gs'"
  shows "queues_inv s'"
  unfolding queues_inv_def
proof (intro exI[of _ gs'] conjI allI impI gq(2))
  fix a R' assume R': "mq_heap s' a = Some R'"
  have fresh: "mq_fresh s' = mq_fresh s" using fr by (simp add: mq_frame_def)
  obtain gs0 where gs0: "gq_rep s gs0" and I: "\<And>a Q. mq_heap s a = Some Q \<Longrightarrow> a < mq_fresh s \<and> (\<exists>ms. mq_rep Q ms)
      \<and> mq_in_global Q \<in> {0, 1} \<and> (mq_release Q = 0 \<longrightarrow> mq_in_global Q = 0 \<longrightarrow> a \<notin> set gs0)"
    using inv by (auto simp: queues_inv_def)
  have "gs0 = gs" using gs0 gq(1) gq_rep_inj by blast
  note I = I[unfolded this]
  have "a < mq_fresh s' \<and> (\<exists>ms. mq_rep R' ms) \<and> mq_in_global R' \<in> {0, 1}
      \<and> (mq_release R' = 0 \<longrightarrow> mq_in_global R' = 0 \<longrightarrow> a \<notin> set gs')"
  proof (cases "a = q")
    case True
    with q R' I[of q] fresh show ?thesis by auto
  next
    case False
    from mq_frame_other(1)[OF fr this R'] obtain R where R: "mq_heap s a = Some R"
      "R'\<lparr>mq_next := None\<rparr> = R\<lparr>mq_next := None\<rparr>" by blast
    have "a \<in> set gs' \<longleftrightarrow> a \<in> set gs" using False gs by (metis Diff_iff singletonD)
    then show ?thesis
      using I[OF R(1)] fresh by (simp add: same_upto_next[OF R(2)])
  qed
  then show "a < mq_fresh s'" "\<exists>ms. mq_rep R' ms" "mq_in_global R' \<in> {0, 1}"
    "mq_release R' = 0 \<Longrightarrow> mq_in_global R' = 0 \<Longrightarrow> a \<notin> set gs'" by auto
qed

lemma queues_inv_push:
  assumes inv: "queues_inv s" and Q: "mq_heap s q = Some Q" "mq_release Q = 0"
  shows "\<exists>s' Q'. skynet_mq_push q m s = Some s' \<and> queues_inv s' \<and> mq_heap s' q = Some Q'
    \<and> mq_list Q' = mq_list Q @ [m] \<and> mq_release Q' = 0 \<and> mq_handle Q' = mq_handle Q \<and> mq_frame q s s'"
proof -
  from inv Q obtain gs ms where gs: "gq_rep s gs" and ms: "mq_rep Q ms" and g: "mq_in_global Q \<in> {0, 1}"
    and out: "mq_in_global Q = 0 \<Longrightarrow> q \<notin> set gs"
    unfolding queues_inv_def by blast
  from skynet_mq_push_spec[OF gs Q(1) ms out, of m] obtain s' Q' where
    s': "skynet_mq_push q m s = Some s'" "mq_heap s' q = Some Q'" "mq_rep Q' (ms @ [m])"
      "mq_in_global Q' = (if mq_in_global Q = 0 then 1 else mq_in_global Q)"
      "mq_release Q' = mq_release Q" "mq_handle Q' = mq_handle Q"
      "gq_rep s' (if mq_in_global Q = 0 then gs @ [q] else gs)" "mq_frame q s s'"
    by blast
  have "queues_inv s'"
    using s' g Q(1) by (intro queues_inv_frame[OF inv s'(8) gs s'(7), where Q' = Q' and ms = "ms @ [m]"]) auto
  with s' Q(2) ms show ?thesis by (auto simp: mq_list_rep)
qed

section \<open>Pushing a message\<close>

lemma ctx_ref_frame [simp]:
  "nd_ctx s c = Some x \<Longrightarrow> ctx_ho (s\<lparr>nd_ctx := (nd_ctx s)(c \<mapsto> x\<lparr>cx_ref := r\<rparr>)\<rparr>) = ctx_ho s"
  by (auto simp: ctx_ho_def fun_eq_iff)

lemma mq_push_rest:
  "skynet_mq_push q m (s\<lparr>nd_ctx := C\<rparr>) = map_option (\<lambda>s'. s'\<lparr>nd_ctx := C\<rparr>) (skynet_mq_push q m s)"
  by (cases s) (auto simp: skynet_mq_push_def skynet_globalmq_push_def bind_eq_Some_conv
      split: option.splits bind_splits if_splits)

lemma ref_update_simps [simp]:
  "cx_ref_update int_inc x = x\<lparr>cx_ref := int_inc (cx_ref x)\<rparr>"
  "cx_ref_update int_dec x = x\<lparr>cx_ref := int_dec (cx_ref x)\<rparr>"
  "cx_message_count_update int_inc x = x\<lparr>cx_message_count := int_inc (cx_message_count x)\<rparr>"
  by (cases x, simp)+

text \<open>A grab and a release around an operation that leaves the context alone cancel.\<close>

lemma release_after_grab:
  assumes "nd_ctx s c = Some x" "1 \<le> cx_ref x" "cx_ref x < 2 ^ 31 - 1"
    and "nd_ctx s' = (nd_ctx s)(c \<mapsto> x\<lparr>cx_ref := cx_ref x + 1\<rparr>)"
  shows "skynet_context_release E c s' = Some (s'\<lparr>nd_ctx := nd_ctx s\<rparr>, Some c)"
  using assms by (auto simp: skynet_context_release_def ctx_upd_def int_dec_small fun_upd_idem)

lemma context_push_dead:
  "node_inv s \<Longrightarrow> handle_find (ctx_ho s) (nd_H s) h = None \<Longrightarrow> skynet_context_push E h m s = Some (s, - 1)"
  by (simp add: skynet_context_push_def skynet_handle_grab_def slot_live_inv)

text \<open>What a push to a live service does: one message at the end of its mailbox, nothing else.\<close>

lemma context_push_live:
  assumes inv: "node_inv s" and f: "handle_find (ctx_ho s) (nd_H s) h = Some c"
  shows "\<exists>s' q Q Q'. skynet_context_push E h m s = Some (s', 0) \<and> queues_inv s' \<and> ctx_mq s c = Some q
    \<and> mq_heap s q = Some Q \<and> mq_heap s' q = Some Q' \<and> mq_list Q' = mq_list Q @ [m]
    \<and> mq_release Q' = mq_release Q \<and> mq_handle Q' = mq_handle Q \<and> mq_frame q s s'"
proof -
  obtain x q Q where x: "nd_ctx s c = Some x" "1 \<le> cx_ref x" "cx_ref x < 2 ^ 31 - 1" "cx_handle x = h"
    and q: "cx_queue x = Some q" "mq_heap s q = Some Q" "mq_release Q = 0" "mq_handle Q = h" "ctx_mq s c = Some q"
    by (rule registered_ctx[OF inv f])
  let ?C = "(nd_ctx s)(c \<mapsto> x\<lparr>cx_ref := cx_ref x + 1\<rparr>)"
  from queues_inv_push[OF node_invD(1)[OF inv] q(2,3), of m] obtain s1 Q' where
    s1: "skynet_mq_push q m s = Some s1" "queues_inv s1" "mq_heap s1 q = Some Q'" "mq_list Q' = mq_list Q @ [m]"
      "mq_release Q' = 0" "mq_handle Q' = mq_handle Q" "mq_frame q s s1"
    by blast
  have ctx1: "nd_ctx s1 = nd_ctx s"
    by (subst mq_frame_eq[OF s1(7)]) simp
  have g: "skynet_handle_grab h s = Some (s\<lparr>nd_ctx := ?C\<rparr>, Some c)"
    using x f slot_live_inv[OF inv]
    by (simp add: skynet_handle_grab_def skynet_context_grab_def ctx_upd_def int_inc_small)
  have p: "skynet_mq_push q m (s\<lparr>nd_ctx := ?C\<rparr>) = Some (s1\<lparr>nd_ctx := ?C\<rparr>)"
    by (simp add: mq_push_rest s1(1))
  have r: "skynet_context_release E c (s1\<lparr>nd_ctx := ?C\<rparr>) = Some (s1\<lparr>nd_ctx := ?C, nd_ctx := nd_ctx s\<rparr>, Some c)"
    by (rule release_after_grab[OF x(1-3)]) simp
  have "s1\<lparr>nd_ctx := nd_ctx s\<rparr> = s1" using ctx1 by simp
  then have "skynet_context_push E h m s = Some (s1, 0)"
    using g p r q(1) by (simp add: skynet_context_push_def)
  with s1 q show ?thesis by auto
qed

text \<open>The queues of two registered handles differ.\<close>

lemma mailbox_upd:
  assumes inv: "node_inv s" and f: "handle_find (ctx_ho s) (nd_H s) h = Some c" and q: "ctx_mq s c = Some q"
    and fr: "mq_frame q s s'" and Q': "mq_heap s' q = Some Q'"
  shows "mailbox s' = (mailbox s)(h \<mapsto> mq_list Q')"
proof
  fix g
  have s': "s' = s\<lparr>mq_heap := mq_heap s', gq_head := gq_head s', gq_tail := gq_tail s'\<rparr>"
    using fr by (rule mq_frame_eq)
  have H: "ctx_ho s' = ctx_ho s" "nd_H s' = nd_H s" "ctx_mq s' = ctx_mq s" by (subst s', simp)+
  show "mailbox s' g = ((mailbox s)(h \<mapsto> mq_list Q')) g"
  proof (cases "g = h")
    case True
    with f q Q' H show ?thesis by (simp add: mailbox_def)
  next
    case False
    show ?thesis
    proof (cases "handle_find (ctx_ho s) (nd_H s) g")
      case None
      with False H show ?thesis by (simp add: mailbox_def)
    next
      case (Some d)
      obtain x q1 Q where d: "nd_ctx s d = Some x" "1 \<le> cx_ref x" "cx_ref x < 2 ^ 31 - 1" "cx_handle x = g"
        "cx_queue x = Some q1" "mq_heap s q1 = Some Q" "mq_release Q = 0" "mq_handle Q = g" "ctx_mq s d = Some q1"
        by (rule registered_ctx[OF inv Some])
      have "d \<noteq> c" using f Some False by (auto simp: handle_find_Some)
      then have "q1 \<noteq> q" using node_invD(2)[OF inv] q d(9) unfolding ctxs_inv_def by blast
      from mq_frame_other(2)[OF fr this d(6)] obtain R where
        R: "mq_heap s' q1 = Some R" "R\<lparr>mq_next := None\<rparr> = Q\<lparr>mq_next := None\<rparr>" by blast
      with False Some d H show ?thesis by (simp add: mailbox_def same_upto_next(2)[OF R(2)])
    qed
  qed
qed

lemma mailbox_None_iff:
  assumes "node_inv s"
  shows "mailbox s h = None \<longleftrightarrow> handle_find (ctx_ho s) (nd_H s) h = None"
proof (cases "handle_find (ctx_ho s) (nd_H s) h")
  case (Some c)
  obtain x q Q where "nd_ctx s c = Some x" "1 \<le> cx_ref x" "cx_ref x < 2 ^ 31 - 1" "cx_handle x = h"
      "cx_queue x = Some q" "mq_heap s q = Some Q" "mq_release Q = 0" "mq_handle Q = h" "ctx_mq s c = Some q"
    by (rule registered_ctx[OF assms Some])
  with Some show ?thesis by (simp add: mailbox_def)
qed (simp add: mailbox_def)

text \<open>The specification of a push on the abstract node.\<close>

definition same_but_queues :: "node \<Rightarrow> node \<Rightarrow> bool" where
  "same_but_queues s s' \<longleftrightarrow>
     s' = s\<lparr>mq_heap := mq_heap s', gq_head := gq_head s', gq_tail := gq_tail s'\<rparr>"

lemma context_push_spec:
  assumes inv: "node_inv s"
  shows "\<exists>s' r. skynet_context_push E h m s = Some (s', r) \<and> node_inv s' \<and> same_but_queues s s'
    \<and> (case mailbox s h of
         None \<Rightarrow> r = - 1 \<and> s' = s
       | Some ms \<Rightarrow> r = 0 \<and> mailbox s' = (mailbox s)(h \<mapsto> ms @ [m]))"
proof (cases "handle_find (ctx_ho s) (nd_H s) h")
  case None
  with context_push_dead[OF inv] inv mailbox_None_iff[OF inv, of h] show ?thesis
    by (auto simp: same_but_queues_def)
next
  case (Some c)
  from context_push_live[OF inv Some, of E m] obtain s' q Q Q' where
    p: "skynet_context_push E h m s = Some (s', 0)" "queues_inv s'" "ctx_mq s c = Some q" "mq_heap s q = Some Q"
      "mq_heap s' q = Some Q'" "mq_list Q' = mq_list Q @ [m]" "mq_release Q' = mq_release Q"
      "mq_handle Q' = mq_handle Q" "mq_frame q s s'"
    by blast
  note s' = mq_frame_eq[OF p(9)]
  have f: "nd_H s' = nd_H s" "ctx_ho s' = ctx_ho s" "nd_mem s' = nd_mem s" "nd_mem_fresh s' = nd_mem_fresh s"
    by (subst s', simp)+
  have "node_inv s'"
    using inv p(2) ctxs_inv_frame[OF node_invD(2)[OF inv] p(9,4,5,7,8)]
    by (simp add: node_inv_def f)
  moreover have "mailbox s h = Some (mq_list Q)"
    using Some p(3,4) by (simp add: mailbox_def)
  moreover have "mailbox s' = (mailbox s)(h \<mapsto> mq_list Q')"
    by (rule mailbox_upd[OF inv Some p(3,9,5)])
  ultimately show ?thesis using p(1,6) s' by (auto simp: same_but_queues_def)
qed

section \<open>Mail services\<close>

text \<open>Delivering a message on the abstract node: messages to handles nobody has are dropped.\<close>

fun deliver :: "'h \<times> 'm \<Rightarrow> ('h \<rightharpoonup> 'm list) \<Rightarrow> 'h \<rightharpoonup> 'm list" where
  "deliver (h, m) B = (case B h of None \<Rightarrow> B | Some ms \<Rightarrow> B(h \<mapsto> ms @ [m]))"

text \<open>The contract of a push, and what follows for sequences of pushes.\<close>

locale mail_service =
  fixes inv :: "'s \<Rightarrow> bool"
    and box :: "'s \<Rightarrow> 'h \<rightharpoonup> 'm list"
    and same :: "'s \<Rightarrow> 's \<Rightarrow> bool"
    and push :: "'h \<Rightarrow> 'm \<Rightarrow> 's \<Rightarrow> ('s \<times> int) option"
  assumes push: "inv s \<Longrightarrow> \<exists>s' r. push h m s = Some (s', r) \<and> inv s' \<and> same s s'
      \<and> box s' = deliver (h, m) (box s) \<and> r = (if box s h = None then - 1 else 0)"
    and same_refl: "same s s"
    and same_trans: "same s t \<Longrightarrow> same t u \<Longrightarrow> same s u"
begin

lemma push_all:
  assumes step: "\<And>n ns s. run (n # ns) s = Option.bind (push (fst (env n)) (snd (env n)) s) (\<lambda>(s1, _). run ns s1)"
    and stop: "\<And>s. run [] s = Some s"
  shows "inv s \<Longrightarrow> \<exists>s'. run ns s = Some s' \<and> inv s' \<and> same s s' \<and> box s' = fold deliver (map env ns) (box s)"
proof (induction ns arbitrary: s)
  case Nil
  then show ?case by (simp add: stop same_refl)
next
  case (Cons n ns)
  from push[OF Cons.prems, of "fst (env n)" "snd (env n)"] obtain s1 r where
    p: "push (fst (env n)) (snd (env n)) s = Some (s1, r)" "inv s1" "same s s1" "box s1 = deliver (env n) (box s)"
    by auto
  from Cons.IH[OF p(2)] p same_trans show ?case by (fastforce simp: step)
qed

end

lemma same_but_queues_refl: "same_but_queues s s"
  by (simp add: same_but_queues_def)

lemma same_but_queues_trans: "same_but_queues s t \<Longrightarrow> same_but_queues t u \<Longrightarrow> same_but_queues s u"
  unfolding same_but_queues_def by (cases s; cases t; cases u) simp

interpretation mail: mail_service node_inv mailbox same_but_queues "skynet_context_push E"
proof unfold_locales
  fix s h m
  assume "node_inv s"
  from context_push_spec[OF this, of E h m] show "\<exists>s' r. skynet_context_push E h m s = Some (s', r) \<and> node_inv s'
      \<and> same_but_queues s s' \<and> mailbox s' = deliver (h, m) (mailbox s)
      \<and> r = (if mailbox s h = None then - 1 else 0)"
    by (auto split: option.splits)
qed (auto intro: same_but_queues_refl same_but_queues_trans)

lemma dispatch_list_spec:
  assumes "node_inv s"
  shows "\<exists>s'. dispatch_list E ns s = Some s' \<and> node_inv s' \<and> same_but_queues s s'
    \<and> mailbox s' = fold deliver (map (\<lambda>n. (te_handle (tn_event n), timer_message (te_session (tn_event n)))) ns) (mailbox s)"
  by (rule mail.push_all[where E = E]) (simp_all add: assms)

section \<open>Frames of the other fields\<close>

lemma node_inv_TI [simp]: "node_inv (s\<lparr>nd_TI := T\<rparr>) = node_inv s"
  and mailbox_TI [simp]: "mailbox (s\<lparr>nd_TI := T\<rparr>) = mailbox s"
  and node_inv_logger [simp]: "node_inv (s\<lparr>nd_logger := l\<rparr>) = node_inv s"
  and mailbox_logger [simp]: "mailbox (s\<lparr>nd_logger := l\<rparr>) = mailbox s"
  by (simp_all add: node_inv_def queues_inv_def ctxs_inv_def gq_rep_def ctx_ho_def[abs_def] ctx_mq_def[abs_def]
      mailbox_def[abs_def])

lemma node_inv_mem:
  assumes "node_inv s" "\<And>a. M a \<noteq> None \<Longrightarrow> a < n"
  shows "node_inv (s\<lparr>nd_mem := M, nd_mem_fresh := n\<rparr>)"
  using assms by (auto simp: node_inv_def queues_inv_def ctxs_inv_def gq_rep_def ctx_ho_def[abs_def] ctx_mq_def[abs_def])

lemma mailbox_mem [simp]: "mailbox (s\<lparr>nd_mem := M\<rparr>) = mailbox s" "mailbox (s\<lparr>nd_mem_fresh := n\<rparr>) = mailbox s"
  by (simp_all add: mailbox_def[abs_def] ctx_ho_def[abs_def] ctx_mq_def[abs_def])

lemma mem_alloc_spec:
  assumes "node_inv s" "mem_alloc b s = (s', a)"
  shows "node_inv s'" "mailbox s' = mailbox s" "nd_mem s' = (nd_mem s)(a \<mapsto> b)" "nd_mem s a = None"
    "nd_H s' = nd_H s" "nd_ctx s' = nd_ctx s"
proof -
  from assms(2) have e: "a = nd_mem_fresh s"
    "s' = s\<lparr>nd_mem := (nd_mem s)(a \<mapsto> b), nd_mem_fresh := Suc (nd_mem_fresh s)\<rparr>"
    by (auto simp: mem_alloc_def)
  show "node_inv s'" unfolding e(2)
    using assms(1) node_invD(4)[OF assms(1)] by (intro node_inv_mem) (auto simp: e(1) less_Suc_eq split: if_splits)
  show "nd_mem s a = None" using node_invD(4)[OF assms(1), of a] e(1) by (metis less_irrefl)
qed (use assms(2) in \<open>auto simp: mem_alloc_def\<close>)

lemma skynet_free_spec:
  assumes "node_inv s" "nd_mem s a \<noteq> None"
  shows "\<exists>s'. skynet_free (Some a) s = Some s' \<and> node_inv s' \<and> mailbox s' = mailbox s
    \<and> nd_mem s' = (nd_mem s)(a := None)"
proof -
  let ?s = "s\<lparr>nd_mem := (nd_mem s)(a := None)\<rparr>"
  have "node_inv (s\<lparr>nd_mem := (nd_mem s)(a := None), nd_mem_fresh := nd_mem_fresh s\<rparr>)"
    using node_invD(4)[OF assms(1)] by (intro node_inv_mem[OF assms(1)]) (auto split: if_splits)
  moreover have "s\<lparr>nd_mem := (nd_mem s)(a := None), nd_mem_fresh := nd_mem_fresh s\<rparr> = ?s" by simp
  ultimately show ?thesis using assms(2) by (auto simp: skynet_free_def)
qed

section \<open>Sending\<close>

lemma same_but_queues_fields:
  assumes "same_but_queues s s'"
  shows "nd_mem s' = nd_mem s" "nd_mem_fresh s' = nd_mem_fresh s" "nd_H s' = nd_H s" "nd_ctx s' = nd_ctx s"
    "nd_TI s' = nd_TI s" "nd_HARBOR s' = nd_HARBOR s" "nd_logger s' = nd_logger s" "nd_total s' = nd_total s"
    "nd_modules s' = nd_modules s"
  by (subst assms[unfolded same_but_queues_def], simp)+

text \<open>The part of \<open>skynet_send\<close> after the arguments have been filtered, for a local destination.\<close>

lemma send_local:
  assumes ok: "sz AND MESSAGE_TYPE_MASK = sz" and fa: "filter_args context type session data sz s = Some (s1, session', data', sz')"
    and inv: "node_inv s1" and src: "source_of context source s1 = Some source'"
    and dest: "destination \<noteq> 0" "skynet_harbor_message_isremote destination s1 = Some False"
    and data: "\<And>a. data' = Some a \<Longrightarrow> nd_mem s1 a \<noteq> None"
  shows "\<exists>s' r. skynet_send E context source destination type session data sz s = Some (s', r) \<and> node_inv s'
    \<and> (case mailbox s1 destination of
         Some ms \<Rightarrow> r = session' \<and> nd_mem s' = nd_mem s1 \<and> mailbox s' = (mailbox s1)(destination \<mapsto> ms @
           [\<lparr>msg_source = source', msg_session = session', msg_data = data', msg_sz = sz'\<rparr>])
       | None \<Rightarrow> r = - 1 \<and> mailbox s' = mailbox s1
           \<and> nd_mem s' = (case data' of None \<Rightarrow> nd_mem s1 | Some a \<Rightarrow> (nd_mem s1)(a := None)))"
proof -
  let ?m = "\<lparr>msg_source = source', msg_session = session', msg_data = data', msg_sz = sz'\<rparr>"
  from context_push_spec[OF inv, of E destination ?m] obtain s2 r where
    p: "skynet_context_push E destination ?m s1 = Some (s2, r)" "node_inv s2" "same_but_queues s1 s2"
      "case mailbox s1 destination of None \<Rightarrow> r = - 1 \<and> s2 = s1
       | Some ms \<Rightarrow> r = 0 \<and> mailbox s2 = (mailbox s1)(destination \<mapsto> ms @ [?m])"
    by blast
  have send: "skynet_send E context source destination type session data sz s =
      (if r \<noteq> 0 then do { s3 \<leftarrow> skynet_free data' s2; Some (s3, - 1) } else Some (s2, session'))"
    using ok fa src dest p(1) by (simp add: skynet_send_def)
  show ?thesis
  proof (cases "mailbox s1 destination")
    case (Some ms)
    with p send show ?thesis by (auto simp: same_but_queues_fields)
  next
    case None
    with p(4) have r: "r = - 1" "s2 = s1" by auto
    show ?thesis
    proof (cases data')
      case None
      with r send inv \<open>mailbox s1 destination = None\<close> show ?thesis by (simp add: skynet_free_def)
    next
      case (Some a)
      with skynet_free_spec[OF inv data[OF Some]] r send \<open>mailbox s1 destination = None\<close> show ?thesis by auto
    qed
  qed
qed

text \<open>Filtering the arguments of a plain message (copied, with the given session).\<close>

lemma filter_args_copy:
  assumes inv: "node_inv s" and "type AND PTYPE_TAG_DONTCOPY = 0" "type AND PTYPE_TAG_ALLOCSESSION = 0"
    and "mem_bytes a (unat sz) s = Some bs"
  shows "\<exists>s1 b. filter_args context type session (Some a) sz s
      = Some (s1, session, Some b, sz OR push_bit MESSAGE_TYPE_SHIFT (ucast (type AND 0xff)))
    \<and> node_inv s1 \<and> mailbox s1 = mailbox s \<and> nd_mem s b = None \<and> nd_mem s1 = (nd_mem s)(b \<mapsto> Bytes (bs @ [Some 0]))
    \<and> nd_H s1 = nd_H s \<and> nd_ctx s1 = nd_ctx s \<and> nd_HARBOR s1 = nd_HARBOR s"
proof -
  obtain s1 b where al: "mem_alloc (Bytes (bs @ [Some 0])) s = (s1, b)" by fastforce
  note m = mem_alloc_spec[OF inv al]
  have "nd_HARBOR s1 = nd_HARBOR s" using al by (auto simp: mem_alloc_def)
  with m al assms(2-4) show ?thesis by (auto simp: filter_args_def)
qed

section \<open>The type of a message in the high byte of its size\<close>

lemma MESSAGE_TYPE_MASK_mask: "MESSAGE_TYPE_MASK = mask 56"
  by (simp add: MESSAGE_TYPE_MASK_def mask_eq_exp_minus_1)

lemma type_byte_high:
  fixes sz :: u64 and type :: u32
  assumes "sz AND MESSAGE_TYPE_MASK = sz"
  shows "ucast (drop_bit MESSAGE_TYPE_SHIFT (sz OR push_bit MESSAGE_TYPE_SHIFT (ucast (type AND 0xff)))) = type AND 0xff"
    and "(sz OR push_bit MESSAGE_TYPE_SHIFT (ucast (type AND 0xff))) AND MESSAGE_TYPE_MASK = sz"
proof -
  have low: "bit sz n \<Longrightarrow> n < 56" for n
    using assms unfolding MESSAGE_TYPE_MASK_mask by (metis bit_and_iff bit_mask_iff)
  have ff: "(0xff :: u32) = mask 8" by (simp add: mask_eq_exp_minus_1)
  show "ucast (drop_bit MESSAGE_TYPE_SHIFT (sz OR push_bit MESSAGE_TYPE_SHIFT (ucast (type AND 0xff)))) = type AND 0xff"
    unfolding ff MESSAGE_TYPE_SHIFT_def by (rule bit_word_eqI) (use low in \<open>auto simp: bit_simps\<close>)
  show "(sz OR push_bit MESSAGE_TYPE_SHIFT (ucast (type AND 0xff))) AND MESSAGE_TYPE_MASK = sz"
    unfolding ff MESSAGE_TYPE_SHIFT_def MESSAGE_TYPE_MASK_mask
    by (rule bit_word_eqI) (use low in \<open>auto simp: bit_simps\<close>)
qed

section \<open>Releasing and retiring\<close>

lemma handle_find_cong:
  assumes "\<And>c. c \<in> registered H \<Longrightarrow> ho' c = ho c" "\<exists>k \<le> 24. hs_slot_size H = 2 ^ k" "length (hs_slot H) = hs_slot_size H"
  shows "handle_find ho' H = handle_find ho H"
proof
  fix h
  have "slot_hash (hs_slot_size H) h < length (hs_slot H)" using assms(2,3) slot_hash_less by auto
  then have "ho' c = ho c" if "hs_slot H ! slot_hash (hs_slot_size H) h = Some c" for c
    using assms(1)[of c] that by (metis mem_Collect_eq nth_mem registered_def)
  then show "handle_find ho' H h = handle_find ho H h"
    by (simp add: handle_find_def split: option.split)
qed

lemma storage_inv_cong:
  assumes "storage_inv ho H" "\<And>c. c \<in> registered H \<Longrightarrow> ho' c = ho c"
  shows "storage_inv ho' H"
proof -
  have "ho' c = ho c" if "i < length (hs_slot H)" "hs_slot H ! i = Some c" for i c
    using assms(2)[of c] that by (metis mem_Collect_eq nth_mem registered_def)
  with assms(1) show ?thesis by (auto simp: storage_inv_def hs_wf_def)
qed


text \<open>What the server relies on when it calls the release function of a module: it returns, and it
  does not create, register or retire services (it may send messages and free memory).\<close>

definition release_ok :: "services \<Rightarrow> bool" where
  "release_ok E \<longleftrightarrow> (\<forall>f inst s. node_inv s \<longrightarrow> (\<exists>s'. ext_release E f inst s = Some s' \<and> node_inv s'
     \<and> nd_ctx s' = nd_ctx s \<and> nd_ctx_fresh s' = nd_ctx_fresh s \<and> nd_H s' = nd_H s \<and> nd_modules s' = nd_modules s
     \<and> nd_total s' = nd_total s))"

lemma instance_release_spec:
  assumes "release_ok E" "node_inv s" "i < length (nd_modules s)"
  shows "\<exists>s'. skynet_module_instance_release E i inst s = Some s' \<and> node_inv s' \<and> nd_ctx s' = nd_ctx s
    \<and> nd_H s' = nd_H s \<and> nd_total s' = nd_total s"
proof (cases "mod_release (nd_modules s ! i)")
  case None
  with assms show ?thesis by (simp add: skynet_module_instance_release_def module_get_def)
next
  case (Some f)
  from assms(1,2) obtain s' where "ext_release E f inst s = Some s'" "node_inv s'" "nd_ctx s' = nd_ctx s"
      "nd_H s' = nd_H s" "nd_total s' = nd_total s"
    unfolding release_ok_def by meson
  with Some assms(3) show ?thesis by (simp add: skynet_module_instance_release_def module_get_def)
qed

definition logfile_ok :: "skynet_context \<Rightarrow> node \<Rightarrow> bool" where
  "logfile_ok x s = (case cx_logfile x of None \<Rightarrow> True | Some f \<Rightarrow> nd_files s f \<noteq> None)"

lemma node_inv_files [simp]: "node_inv (s\<lparr>nd_files := F\<rparr>) = node_inv s"
  by (simp add: node_inv_def queues_inv_def ctxs_inv_def gq_rep_def ctx_ho_def[abs_def] ctx_mq_def[abs_def])

lemma ctx_of:
  assumes "node_inv s" "nd_ctx s c = Some x"
  obtains q Q where "cx_queue x = Some q" "mq_heap s q = Some Q" "mq_release Q = 0" "mq_handle Q = cx_handle x"
    "0 \<le> cx_ref x" "cx_ref x < 2 ^ 31 - 1" "cx_mod x < length (nd_modules s)"
  using assms unfolding node_inv_def ctxs_inv_def by blast

text \<open>Removing a context whose queue has been marked.\<close>

lemma node_inv_remove:
  assumes inv: "node_inv s" and c: "nd_ctx s c = Some x" "cx_queue x = Some q" "c \<notin> registered (nd_H s)"
    and m: "skynet_mq_mark_release q s = Some s1"
  shows "node_inv (context_dec (s1\<lparr>nd_ctx := (nd_ctx s1)(c := None)\<rparr>))" "mq_frame q s s1"
    "\<exists>Q. mq_heap s1 q = Some Q \<and> mq_release Q = 1"
proof -
  obtain q' Q where Q: "cx_queue x = Some q'" "mq_heap s q' = Some Q" "mq_release Q = 0" "mq_handle Q = cx_handle x"
    "0 \<le> cx_ref x" "cx_ref x < 2 ^ 31 - 1" "cx_mod x < length (nd_modules s)"
    by (rule ctx_of[OF inv c(1)])
  have [simp]: "q' = q" using Q(1) c(2) by simp
  have "mq_heap s q = Some Q" using Q(2) by simp
  with node_invD(1)[OF inv] obtain gs ms where gs: "gq_rep s gs" and ms: "mq_rep Q ms" and g: "mq_in_global Q \<in> {0, 1}"
    and "mq_release Q = 0 \<longrightarrow> mq_in_global Q = 0 \<longrightarrow> q \<notin> set gs"
    unfolding queues_inv_def by blast
  with Q(3) have out: "mq_in_global Q \<noteq> 1 \<Longrightarrow> q \<notin> set gs" by auto
  from skynet_mq_mark_release_spec[OF gs _ Q(3) out] Q(2) m obtain Q' where
    Q': "mq_heap s1 q = Some Q'" "Q'\<lparr>mq_next := None\<rparr> = (Q\<lparr>mq_release := 1\<rparr>)\<lparr>mq_next := None\<rparr>"
      "gq_rep s1 (if mq_in_global Q \<noteq> 1 then gs @ [q] else gs)" and fr: "mq_frame q s s1"
    by auto
  show "mq_frame q s s1" by (rule fr)
  note sim = same_upto_next[OF Q'(2)]
  show "\<exists>Q. mq_heap s1 q = Some Q \<and> mq_release Q = 1" using Q'(1) sim(4) by simp
  have qi: "queues_inv s1"
    using Q' Q(2) g ms sim by (intro queues_inv_frame[OF node_invD(1)[OF inv] fr gs Q'(3), where Q' = Q' and ms = ms]) auto
  note s1 = mq_frame_eq[OF fr]
  have f: "nd_ctx s1 = nd_ctx s" "nd_ctx_fresh s1 = nd_ctx_fresh s" "nd_H s1 = nd_H s" "nd_modules s1 = nd_modules s"
    "nd_mem s1 = nd_mem s" "nd_mem_fresh s1 = nd_mem_fresh s" "ctx_mq s1 = ctx_mq s"
    by (subst s1, simp)+
  have cq: "ctx_mq s c = Some q" using c by (simp add: ctx_mq_def)
  let ?s = "context_dec (s1\<lparr>nd_ctx := (nd_ctx s1)(c := None)\<rparr>)"
  have dq: "ctx_mq ?s d = (if d = c then None else ctx_mq s d)" for d
    by (simp add: ctx_mq_def context_dec_def f)
  have "ctxs_inv ?s"
    unfolding ctxs_inv_def dq
  proof (intro conjI allI impI ballI)
    fix d y assume "nd_ctx ?s d = Some y"
    then have d: "d \<noteq> c" "nd_ctx s d = Some y" by (auto simp: context_dec_def f split: if_splits)
    obtain qd Qd where y: "cx_queue y = Some qd" "mq_heap s qd = Some Qd" "mq_release Qd = 0" "mq_handle Qd = cx_handle y"
      "0 \<le> cx_ref y" "cx_ref y < 2 ^ 31 - 1" "cx_mod y < length (nd_modules s)"
      by (rule ctx_of[OF inv d(2)])
    have "qd \<noteq> q"
      using node_invD(2)[OF inv] cq d y(1) unfolding ctxs_inv_def by (metis bind.bind_lunit ctx_mq_def)
    from mq_frame_other(2)[OF fr this y(2)] obtain R where "mq_heap s1 qd = Some R" "R\<lparr>mq_next := None\<rparr> = Qd\<lparr>mq_next := None\<rparr>"
      by blast
    with y same_upto_next(4,5)[of R Qd] show "\<exists>q Q. cx_queue y = Some q \<and> mq_heap ?s q = Some Q \<and> mq_release Q = 0 \<and> mq_handle Q = cx_handle y"
      by (auto simp: context_dec_def)
    show "0 \<le> cx_ref y" "cx_ref y < 2 ^ 31 - 1" "cx_mod y < length (nd_modules ?s)" "d < nd_ctx_fresh ?s"
      using y node_invD(2)[OF inv] d(2) f by (auto simp: context_dec_def ctxs_inv_def)
  next
    fix d e qe assume "(if d = c then None else ctx_mq s d) = Some qe" "(if e = c then None else ctx_mq s e) = Some qe"
    then show "d = e" using node_invD(2)[OF inv] unfolding ctxs_inv_def by (auto split: if_splits)
  next
    fix d assume "d \<in> registered (nd_H ?s)"
    then have "d \<in> registered (nd_H s)" by (simp add: context_dec_def f)
    with c(3) node_invD(2)[OF inv] show "\<exists>y. nd_ctx ?s d = Some y \<and> 1 \<le> cx_ref y"
      by (auto simp: context_dec_def f ctxs_inv_def)
  qed
  moreover have "storage_inv (ctx_ho ?s) (nd_H ?s)"
  proof -
    have ho: "ctx_ho ?s d = ctx_ho s d" if "d \<in> registered (nd_H s)" for d
      using that c(3) by (cases "d = c") (simp_all add: ctx_ho_def context_dec_def f)
    have H: "nd_H ?s = nd_H s" by (simp add: context_dec_def f)
    show ?thesis unfolding H by (rule storage_inv_cong[OF node_invD(3)[OF inv] ho])
  qed
  moreover have "queues_inv ?s" using qi by (simp add: queues_inv_def gq_rep_def context_dec_def)
  ultimately show "node_inv ?s"
    using node_invD(4)[OF inv] by (auto simp: node_inv_def context_dec_def f)
qed

lemma delete_context_spec:
  assumes inv: "node_inv s" and E: "release_ok E" and c: "nd_ctx s c = Some x" "c \<notin> registered (nd_H s)" "logfile_ok x s"
  shows "\<exists>s' q Q. delete_context E c s = Some s' \<and> node_inv s' \<and> nd_ctx s' = (nd_ctx s)(c := None) \<and> nd_H s' = nd_H s
    \<and> nd_total s' = int_dec (nd_total s) \<and> cx_queue x = Some q \<and> mq_heap s' q = Some Q \<and> mq_release Q = 1"
proof -
  obtain q Q where Q: "cx_queue x = Some q" "mq_heap s q = Some Q" "mq_release Q = 0" "mq_handle Q = cx_handle x"
    "0 \<le> cx_ref x" "cx_ref x < 2 ^ 31 - 1" "cx_mod x < length (nd_modules s)"
    by (rule ctx_of[OF inv c(1)])
  obtain s1 where s1: "(case cx_logfile x of Some f \<Rightarrow> c_fclose f s | None \<Rightarrow> Some s) = Some s1" "node_inv s1"
      "nd_ctx s1 = nd_ctx s" "nd_H s1 = nd_H s" "nd_modules s1 = nd_modules s" "nd_total s1 = nd_total s"
    using c(3) inv by (auto simp: logfile_ok_def c_fclose_def split: option.splits)
  obtain s2 where s2: "skynet_module_instance_release E (cx_mod x) (cx_instance x) s1 = Some s2" "node_inv s2"
      "nd_ctx s2 = nd_ctx s" "nd_H s2 = nd_H s" "nd_total s2 = nd_total s"
    using instance_release_spec[OF E s1(2), of "cx_mod x" "cx_instance x"] Q(7) s1(3-6) by auto
  have c2: "nd_ctx s2 c = Some x" "c \<notin> registered (nd_H s2)" using s2 c by auto
  obtain q2 Q2 where Q2: "cx_queue x = Some q2" "mq_heap s2 q2 = Some Q2" "mq_release Q2 = 0" "mq_handle Q2 = cx_handle x"
    "0 \<le> cx_ref x" "cx_ref x < 2 ^ 31 - 1" "cx_mod x < length (nd_modules s2)"
    by (rule ctx_of[OF s2(2) c2(1)])
  have heap2: "mq_heap s2 q = Some Q2" using Q2(1,2) Q(1) by simp
  with node_invD(1)[OF s2(2)] obtain gs where gs: "gq_rep s2 gs"
    and g: "mq_in_global Q2 \<in> {0, 1}" "mq_release Q2 = 0 \<longrightarrow> mq_in_global Q2 = 0 \<longrightarrow> q \<notin> set gs"
    unfolding queues_inv_def by blast
  with Q2(3) have "mq_in_global Q2 \<noteq> 1 \<Longrightarrow> q \<notin> set gs" by auto
  from skynet_mq_mark_release_spec[OF gs heap2 Q2(3) this] obtain s3 where m: "skynet_mq_mark_release q s2 = Some s3"
    by blast
  note r = node_inv_remove[OF s2(2) c2(1) Q(1) c2(2) m]
  have f: "nd_ctx s3 = nd_ctx s2" "nd_H s3 = nd_H s2" "nd_total s3 = nd_total s2"
    by (subst mq_frame_eq[OF r(2)], simp)+
  have d: "delete_context E c s = Some (context_dec (s3\<lparr>nd_ctx := (nd_ctx s3)(c := None)\<rparr>))"
    using c(1) s1(1) s2(1) c2(1) Q(1) m by (simp add: delete_context_def)
  with r(1,3) Q(1) s2 f show ?thesis by (auto simp: context_dec_def)
qed

lemma node_inv_ctx_ref:
  assumes inv: "node_inv s" and c: "nd_ctx s c = Some x" and r: "0 \<le> r" "r < 2 ^ 31 - 1" "c \<in> registered (nd_H s) \<Longrightarrow> 1 \<le> r"
  shows "node_inv (s\<lparr>nd_ctx := (nd_ctx s)(c \<mapsto> x\<lparr>cx_ref := r\<rparr>)\<rparr>)"
proof -
  let ?s = "s\<lparr>nd_ctx := (nd_ctx s)(c \<mapsto> x\<lparr>cx_ref := r\<rparr>)\<rparr>"
  have q: "ctx_mq ?s = ctx_mq s" using c by (auto simp: ctx_mq_def fun_eq_iff)
  have "ctxs_inv ?s"
    using node_invD(2)[OF inv] c r unfolding ctxs_inv_def q by auto
  moreover have "queues_inv ?s" using node_invD(1)[OF inv] by (simp add: queues_inv_def gq_rep_def)
  ultimately show ?thesis
    using inv c by (simp add: node_inv_def)
qed

lemma mailbox_ctx_ref:
  assumes "nd_ctx s c = Some x"
  shows "mailbox (s\<lparr>nd_ctx := (nd_ctx s)(c \<mapsto> x\<lparr>cx_ref := r\<rparr>)\<rparr>) = mailbox s"
proof -
  let ?s = "s\<lparr>nd_ctx := (nd_ctx s)(c \<mapsto> x\<lparr>cx_ref := r\<rparr>)\<rparr>"
  have "ctx_mq ?s = ctx_mq s" "ctx_ho ?s = ctx_ho s" using assms by (auto simp: ctx_mq_def ctx_ho_def fun_eq_iff)
  then show ?thesis by (simp add: mailbox_def[abs_def])
qed

lemma node_inv_retired:
  assumes inv: "node_inv s" and r: "handle_retire (ctx_ho s) h (nd_H s) = Some (H', q)"
  shows "node_inv (s\<lparr>nd_H := H'\<rparr>)" "q = handle_find (ctx_ho s) (nd_H s) h"
    "handle_find (ctx_ho s) H' = (handle_find (ctx_ho s) (nd_H s))(h := None)"
    "registered H' = {c \<in> registered (nd_H s). ctx_ho s c \<noteq> h}"
proof -
  from storage.retire[OF node_invD(3)[OF inv], of h] r have H': "storage_inv (ctx_ho s) H'"
      "handle_find (ctx_ho s) H' = (handle_find (ctx_ho s) (nd_H s))(h := None)" "q = handle_find (ctx_ho s) (nd_H s) h"
    by auto
  show reg: "registered H' = {c \<in> registered (nd_H s). ctx_ho s c \<noteq> h}"
    by (rule storage.retire_members[OF node_invD(3)[OF inv] r])
  have ho: "ctx_ho (s\<lparr>nd_H := H'\<rparr>) = ctx_ho s" "ctx_mq (s\<lparr>nd_H := H'\<rparr>) = ctx_mq s"
    by (auto simp: ctx_ho_def ctx_mq_def fun_eq_iff)
  have "ctxs_inv (s\<lparr>nd_H := H'\<rparr>)"
    using node_invD(2)[OF inv] reg unfolding ctxs_inv_def ho by auto
  moreover have "queues_inv (s\<lparr>nd_H := H'\<rparr>)" using node_invD(1)[OF inv] by (simp add: queues_inv_def gq_rep_def)
  ultimately show "node_inv (s\<lparr>nd_H := H'\<rparr>)"
    using inv H'(1) by (simp add: node_inv_def ho)
qed (use storage.retire[OF node_invD(3)[OF inv], of h] r in auto)

text \<open>Retiring a handle: nobody is found under it afterwards, whether or not other threads still
  hold references of the context.\<close>

lemma handle_retire_spec:
  assumes inv: "node_inv s" and E: "release_ok E" and files: "\<And>c x. nd_ctx s c = Some x \<Longrightarrow> logfile_ok x s"
  shows "\<exists>s'. skynet_handle_retire E h s = Some (s', mailbox s h \<noteq> None) \<and> node_inv s'
    \<and> handle_find (ctx_ho s') (nd_H s') = (handle_find (ctx_ho s) (nd_H s))(h := None)"
proof -
  from storage.retire[OF node_invD(3)[OF inv], of h] obtain H' where
    r: "handle_retire (ctx_ho s) h (nd_H s) = Some (H', handle_find (ctx_ho s) (nd_H s) h)" by blast
  note ret = node_inv_retired[OF inv r]
  let ?s = "s\<lparr>nd_H := H'\<rparr>"
  show ?thesis
  proof (cases "handle_find (ctx_ho s) (nd_H s) h")
    case None
    have "ctx_ho ?s = ctx_ho s" by (auto simp: ctx_ho_def fun_eq_iff)
    with None r ret slot_live_inv[OF inv] mailbox_None_iff[OF inv, of h] show ?thesis
      by (auto simp: skynet_handle_retire_def)
  next
    case (Some c)
    obtain x q Q where x: "nd_ctx s c = Some x" "1 \<le> cx_ref x" "cx_ref x < 2 ^ 31 - 1" "cx_handle x = h"
      "cx_queue x = Some q" "mq_heap s q = Some Q" "mq_release Q = 0" "mq_handle Q = h" "ctx_mq s c = Some q"
      by (rule registered_ctx[OF inv Some])
    let ?x = "x\<lparr>cx_ref := cx_ref x - 1\<rparr>"
    let ?s2 = "?s\<lparr>nd_ctx := (nd_ctx s)(c \<mapsto> ?x)\<rparr>"
    have nr: "c \<notin> registered H'" using ret(4) Some by (auto simp: handle_find_Some)
    have inv2: "node_inv ?s2"
      using node_inv_ctx_ref[OF ret(1), of c x "cx_ref x - 1"] x nr by simp
    have ho2: "ctx_ho ?s2 = ctx_ho s" using x by (auto simp: ctx_ho_def fun_eq_iff)
    have rel: "skynet_context_release E c ?s = (if cx_ref x = 1 then map_option (\<lambda>s. (s, None)) (delete_context E c ?s2) else Some (?s2, Some c))"
      using x by (simp add: skynet_context_release_def ctx_upd_def int_dec_small map_conv_bind_option comp_def)
    have mb: "mailbox s h \<noteq> None" using Some mailbox_None_iff[OF inv, of h] by auto
    have start: "skynet_handle_retire E h s = map_option (\<lambda>(s2, _). (s2, True)) (skynet_context_release E c ?s)"
      using r Some slot_live_inv[OF inv] by (cases "skynet_context_release E c ?s") (auto simp: skynet_handle_retire_def)
    show ?thesis
    proof (cases "cx_ref x = 1")
      case False
      with start rel inv2 ho2 mb ret(3) show ?thesis by simp
    next
      case True
      have "nd_ctx ?s2 c = Some ?x" "c \<notin> registered (nd_H ?s2)" "logfile_ok ?x ?s2"
        using nr files[OF x(1)] by (auto simp: logfile_ok_def split: option.splits)
      from delete_context_spec[OF inv2 E this] obtain s' where
        s': "delete_context E c ?s2 = Some s'" "node_inv s'" "nd_ctx s' = (nd_ctx s)(c := None)" "nd_H s' = H'"
        by auto
      have "handle_find (ctx_ho s') H' = handle_find (ctx_ho s) H'"
      proof (rule handle_find_cong)
        fix d assume "d \<in> registered H'"
        with nr have "d \<noteq> c" by auto
        then show "ctx_ho s' d = ctx_ho s d" by (simp add: ctx_ho_def s'(3))
      qed (use node_invD(3)[OF ret(1)] in \<open>auto simp: storage_inv_def hs_wf_def\<close>)
      with s' True start rel mb ret(3) show ?thesis by simp
    qed
  qed
qed

end
