(* ===== verification/Command.thy ===== *)
theory Command
  imports Server
begin

text \<open>
  The text commands of services, \<open>skynet_command\<close> in \<open>skynet-src/skynet_server.c\<close>.  A command
  returns the text it points to (\<open>None\<close> for \<open>NULL\<close>); where the C code formats into
  \<open>context->result\<close> the field is updated.  Parameters are C strings; a null parameter is \<open>None\<close>
  and dereferencing it fails.
\<close>

section \<open>Names and handles\<close>

text \<open>\<open>str[0]\<close>; the first character of the empty string is the terminating zero.\<close>

definition str0 :: "string \<Rightarrow> char" where
  "str0 t = (case t of [] \<Rightarrow> CHR 0x00 | c # _ \<Rightarrow> c)"

definition skynet_queryname :: "services \<Rightarrow> addr \<Rightarrow> string \<Rightarrow> node \<Rightarrow> (node \<times> u32) option" where
  "skynet_queryname E context name s =
     (if str0 name = CHR '':'' then Some (s, ucast (c_strtoul (tl name) 16))
      else if str0 name = CHR ''.'' then do {
        h \<leftarrow> skynet_handle_findname (nd_H s) (tl name);
        Some (s, h) }
      else do {
        s1 \<leftarrow> skynet_error E (Some context) (''Don't support query global name '' @ name) s;
        Some (s1, 0) })"

definition tohandle :: "services \<Rightarrow> addr \<Rightarrow> string \<Rightarrow> node \<Rightarrow> (node \<times> u32) option" where
  "tohandle E context param s =
     (if str0 param = CHR '':'' then Some (s, ucast (c_strtoul (tl param) 16))
      else if str0 param = CHR ''.'' then do {
        h \<leftarrow> skynet_handle_findname (nd_H s) (tl param);
        Some (s, h) }
      else do {
        s1 \<leftarrow> skynet_error E (Some context) (''Can't convert '' @ param @ '' to handle'') s;
        Some (s1, 0) })"

definition handle_exit :: "services \<Rightarrow> addr \<Rightarrow> u32 \<Rightarrow> node \<Rightarrow> node option" where
  "handle_exit E context handle s = do {
     own \<leftarrow> skynet_context_handle context s;
     let handle' = (if handle = 0 then own else handle);
     s1 \<leftarrow> skynet_error E (Some context) (if handle = 0 then ''KILL self'' else ''KILL :'' @ fmt_x handle) s;
     s2 \<leftarrow> (if nd_monitor_exit s1 \<noteq> 0 then do {
               (s2, _) \<leftarrow> skynet_send E (Some context) handle' (nd_monitor_exit s1) PTYPE_CLIENT 0 None 0 s1;
               Some s2 }
             else Some s1);
     (s3, _) \<leftarrow> skynet_handle_retire E handle' s2;
     Some s3 }"

section \<open>Commands\<close>

type_synonym cmd_result = "(node \<times> string option) option"

definition set_result :: "addr \<Rightarrow> string \<Rightarrow> node \<Rightarrow> cmd_result" where
  "set_result c text s = do { s1 \<leftarrow> ctx_upd c (cx_result_update (\<lambda>_. text)) s; Some (s1, Some text) }"

definition cmd_timeout :: "services \<Rightarrow> addr \<Rightarrow> string option \<Rightarrow> node \<Rightarrow> cmd_result" where
  "cmd_timeout E c param s = do {
     p \<leftarrow> param;
     let ti = to_int32 (c_strtol p 10);
     (s1, session) \<leftarrow> skynet_context_newsession c s;
     handle \<leftarrow> skynet_context_handle c s1;
     (s2, _) \<leftarrow> skynet_timeout E handle ti session s1;
     set_result c (fmt_d session) s2 }"

definition cmd_reg :: "services \<Rightarrow> addr \<Rightarrow> string option \<Rightarrow> node \<Rightarrow> cmd_result" where
  "cmd_reg E c param s = do {
     handle \<leftarrow> skynet_context_handle c s;
     (case param of
        None \<Rightarrow> set_result c (CHR '':'' # fmt_x handle) s
      | Some p \<Rightarrow>
          if p = [] then set_result c (CHR '':'' # fmt_x handle) s
          else if str0 p = CHR ''.'' then do {
            (H', r) \<leftarrow> skynet_handle_namehandle handle (tl p) (nd_H s);
            Some (s\<lparr>nd_H := H'\<rparr>, r) }
          else do {
            s1 \<leftarrow> skynet_error E (Some c) (''Can't register global name '' @ p @ '' in C'') s;
            Some (s1, None) }) }"

definition cmd_query :: "services \<Rightarrow> addr \<Rightarrow> string option \<Rightarrow> node \<Rightarrow> cmd_result" where
  "cmd_query E c param s = do {
     p \<leftarrow> param;
     if str0 p = CHR ''.'' then do {
       handle \<leftarrow> skynet_handle_findname (nd_H s) (tl p);
       if handle \<noteq> 0 then set_result c (CHR '':'' # fmt_x handle) s else Some (s, None) }
     else Some (s, None) }"

text \<open>\<open>sscanf\<close> leaves \<open>name\<close> and \<open>handle\<close> unwritten when the parameter has fewer words.\<close>

definition cmd_name :: "services \<Rightarrow> addr \<Rightarrow> string option \<Rightarrow> node \<Rightarrow> cmd_result" where
  "cmd_name E c param s = do {
     p \<leftarrow> param;
     let (name, rest) = scan_word p;
     let (handle, _) = scan_word rest;
     h \<leftarrow> handle;
     if str0 h \<noteq> CHR '':'' then Some (s, None)
     else do {
       let handle_id = (ucast (c_strtoul (tl h) 16) :: u32);
       if handle_id = 0 then Some (s, None)
       else do {
         n \<leftarrow> name;
         if str0 n = CHR ''.'' then do {
           (H', r) \<leftarrow> skynet_handle_namehandle handle_id (tl n) (nd_H s);
           Some (s\<lparr>nd_H := H'\<rparr>, r) }
         else do {
           s1 \<leftarrow> skynet_error E (Some c) (''Can't set global name '' @ n @ '' in C'') s;
           Some (s1, None) } } } }"

definition cmd_exit :: "services \<Rightarrow> addr \<Rightarrow> string option \<Rightarrow> node \<Rightarrow> cmd_result" where
  "cmd_exit E c param s = do { s1 \<leftarrow> handle_exit E c 0 s; Some (s1, None) }"

definition cmd_kill :: "services \<Rightarrow> addr \<Rightarrow> string option \<Rightarrow> node \<Rightarrow> cmd_result" where
  "cmd_kill E c param s = do {
     p \<leftarrow> param;
     (s1, handle) \<leftarrow> tohandle E c p s;
     s2 \<leftarrow> (if handle \<noteq> 0 then handle_exit E c handle s1 else Some s1);
     Some (s2, None) }"

definition cmd_launch :: "services \<Rightarrow> addr \<Rightarrow> string option \<Rightarrow> node \<Rightarrow> cmd_result" where
  "cmd_launch E c param s = do {
     p \<leftarrow> param;
     let (md, rest) = c_strsep (Some p) ('' '' @ [CHR 0x09, CHR 0x0D, CHR 0x0A]);
     let (args, _) = c_strsep rest [CHR 0x0D, CHR 0x0A];
     m \<leftarrow> md;
     (s1, inst) \<leftarrow> skynet_context_new E m args s;
     (case inst of
        None \<Rightarrow> Some (s1, None)
      | Some i \<Rightarrow> do { h \<leftarrow> skynet_context_handle i s1; set_result c (id_to_hex h) s1 }) }"

definition cmd_getenv :: "services \<Rightarrow> addr \<Rightarrow> string option \<Rightarrow> node \<Rightarrow> cmd_result" where
  "cmd_getenv E c param s = do { p \<leftarrow> param; Some (s, skynet_getenv p s) }"

definition cmd_setenv :: "services \<Rightarrow> addr \<Rightarrow> string option \<Rightarrow> node \<Rightarrow> cmd_result" where
  "cmd_setenv E c param s = do {
     p \<leftarrow> param;
     let key = takeWhile (\<lambda>x. x \<noteq> CHR '' '') p;
     let rest = dropWhile (\<lambda>x. x \<noteq> CHR '' '') p;
     if rest = [] then Some (s, None)
     else do { s1 \<leftarrow> skynet_setenv key (tl rest) s; Some (s1, None) } }"

definition cmd_starttime :: "services \<Rightarrow> addr \<Rightarrow> string option \<Rightarrow> node \<Rightarrow> cmd_result" where
  "cmd_starttime E c param s = set_result c (fmt_u (skynet_starttime (nd_TI s))) s"

definition cmd_abort :: "services \<Rightarrow> addr \<Rightarrow> string option \<Rightarrow> node \<Rightarrow> cmd_result" where
  "cmd_abort E c param s = do { s1 \<leftarrow> skynet_handle_retireall E s; Some (s1, None) }"

definition cmd_monitor :: "services \<Rightarrow> addr \<Rightarrow> string option \<Rightarrow> node \<Rightarrow> cmd_result" where
  "cmd_monitor E c param s =
     (if param = None \<or> param = Some [] then
        (if nd_monitor_exit s \<noteq> 0 then set_result c (CHR '':'' # fmt_x (nd_monitor_exit s)) s
         else Some (s, None))
      else do {
        p \<leftarrow> param;
        (s1, handle) \<leftarrow> tohandle E c p s;
        Some (s1\<lparr>nd_monitor_exit := handle\<rparr>, None) })"

text \<open>A count of microseconds as seconds with six decimals, what \<open>%lf\<close> prints for counts below
  \<open>2 ^ 52\<close> (142 years).\<close>

definition fmt_micro :: "u64 \<Rightarrow> string" where
  "fmt_micro t = nat_string 10 (unat t div 1000000) @ ''.'' @ pad0 6 (nat_string 10 (unat t mod 1000000))"

definition cmd_stat :: "services \<Rightarrow> addr \<Rightarrow> string option \<Rightarrow> node \<Rightarrow> cmd_result" where
  "cmd_stat E c param s = do {
     p \<leftarrow> param;
     x \<leftarrow> nd_ctx s c;
     if p = ''mqlen'' then do {
       q \<leftarrow> cx_queue x;
       len \<leftarrow> skynet_mq_length q s;
       set_result c (fmt_d len) s }
     else if p = ''endless'' then
       (if cx_endless x then do {
          s1 \<leftarrow> ctx_upd c (cx_endless_update (\<lambda>_. False)) s;
          set_result c ''1'' s1 }
        else set_result c ''0'' s)
     else if p = ''cpu'' then set_result c (fmt_micro (cx_cpu_cost x)) s
     else if p = ''time'' then
       (if cx_profile x then set_result c (fmt_micro (ext_thread_time E s - cx_cpu_start x)) s
        else set_result c ''0'' s)
     else if p = ''message'' then set_result c (fmt_d (cx_message_count x)) s
     else set_result c [] s }"

definition cmd_logon :: "services \<Rightarrow> addr \<Rightarrow> string option \<Rightarrow> node \<Rightarrow> cmd_result" where
  "cmd_logon E c param s = do {
     p \<leftarrow> param;
     (s1, handle) \<leftarrow> tohandle E c p s;
     if handle = 0 then Some (s1, None)
     else do {
       (s2, r) \<leftarrow> skynet_handle_grab handle s1;
       (case r of
          None \<Rightarrow> Some (s2, None)
        | Some ctx \<Rightarrow> do {
            x \<leftarrow> nd_ctx s2 ctx;
            s3 \<leftarrow> (if cx_logfile x = None then do {
                     (s3, f) \<leftarrow> skynet_log_open E c handle s2;
                     (case f of
                        None \<Rightarrow> Some s3
                      | Some file \<Rightarrow> do {
                          x3 \<leftarrow> nd_ctx s3 ctx;
                          if cx_logfile x3 = None then ctx_upd ctx (cx_logfile_update (\<lambda>_. Some file)) s3
                          else c_fclose file s3 }) }
                   else Some s2);
            (s4, _) \<leftarrow> skynet_context_release E ctx s3;
            Some (s4, None) }) } }"

definition cmd_logoff :: "services \<Rightarrow> addr \<Rightarrow> string option \<Rightarrow> node \<Rightarrow> cmd_result" where
  "cmd_logoff E c param s = do {
     p \<leftarrow> param;
     (s1, handle) \<leftarrow> tohandle E c p s;
     if handle = 0 then Some (s1, None)
     else do {
       (s2, r) \<leftarrow> skynet_handle_grab handle s1;
       (case r of
          None \<Rightarrow> Some (s2, None)
        | Some ctx \<Rightarrow> do {
            x \<leftarrow> nd_ctx s2 ctx;
            s3 \<leftarrow> (case cx_logfile x of
                      None \<Rightarrow> Some s2
                    | Some f \<Rightarrow> do {
                        s3 \<leftarrow> ctx_upd ctx (cx_logfile_update (\<lambda>_. None)) s2;
                        skynet_log_close E c f handle s3 });
            (s4, _) \<leftarrow> skynet_context_release E ctx s3;
            Some (s4, None) }) } }"

definition cmd_signal :: "services \<Rightarrow> addr \<Rightarrow> string option \<Rightarrow> node \<Rightarrow> cmd_result" where
  "cmd_signal E c param s = do {
     p \<leftarrow> param;
     (s1, handle) \<leftarrow> tohandle E c p s;
     if handle = 0 then Some (s1, None)
     else do {
       (s2, r) \<leftarrow> skynet_handle_grab handle s1;
       (case r of
          None \<Rightarrow> Some (s2, None)
        | Some ctx \<Rightarrow> do {
            let sig = (case c_strchr p (CHR '' '') of Some t \<Rightarrow> to_int32 (c_strtol t 0) | None \<Rightarrow> 0);
            x \<leftarrow> nd_ctx s2 ctx;
            s3 \<leftarrow> skynet_module_instance_signal E (cx_mod x) (cx_instance x) sig s2;
            (s4, _) \<leftarrow> skynet_context_release E ctx s3;
            Some (s4, None) }) } }"

definition cmd_funcs :: "(string \<times> (services \<Rightarrow> addr \<Rightarrow> string option \<Rightarrow> node \<Rightarrow> cmd_result)) list" where
  "cmd_funcs =
    [(''TIMEOUT'', cmd_timeout), (''REG'', cmd_reg), (''QUERY'', cmd_query), (''NAME'', cmd_name),
     (''EXIT'', cmd_exit), (''KILL'', cmd_kill), (''LAUNCH'', cmd_launch), (''GETENV'', cmd_getenv),
     (''SETENV'', cmd_setenv), (''STARTTIME'', cmd_starttime), (''ABORT'', cmd_abort),
     (''MONITOR'', cmd_monitor), (''STAT'', cmd_stat), (''LOGON'', cmd_logon), (''LOGOFF'', cmd_logoff),
     (''SIGNAL'', cmd_signal)]"

definition skynet_command :: "services \<Rightarrow> addr \<Rightarrow> string \<Rightarrow> string option \<Rightarrow> node \<Rightarrow> cmd_result" where
  "skynet_command E context cmd param s =
     (case map_of cmd_funcs cmd of Some f \<Rightarrow> f E context param s | None \<Rightarrow> Some (s, None))"

end
