(* ===== verification/Services.thy ===== *)
theory Services
  imports Mailbox Command
begin

text \<open>
  Properties of the server on the abstract view of a node: sending, timers, retirement, sessions
  and the textual form of handles.  The concrete node of the instances has one service.
\<close>

section \<open>A concrete node\<close>

text \<open>The start state of \<open>skynet_start\<close> before any service is launched, with harbor 0.\<close>

definition node0 :: node where
  "node0 = \<lparr>mq_heap = Map.empty, mq_fresh = 0, gq_head = None, gq_tail = None,
     nd_ctx = Map.empty, nd_ctx_fresh = 0, nd_mem = Map.empty, nd_mem_fresh = 0, nd_files = Map.empty,
     nd_files_fresh = 0, nd_H = skynet_handle_init 0, nd_TI = timer_create_timer, nd_total = 0,
     nd_monitor_exit = 0, nd_profile = False, nd_current = 0, nd_HARBOR = 0, nd_REMOTE = None,
     nd_logger = 0, nd_path = ''./?.so'', nd_modules = [], nd_env = Map.empty, nd_mon = []\<rparr>"

text \<open>A world in which every library exists and its functions do nothing: the create function returns
  7, and the init function sets a callback if its parameter is not ``bad''.\<close>

definition world0 :: services where
  "world0 = \<lparr>ext_dlopen = (\<lambda>_. Some 0), ext_dlsym = (\<lambda>_ _. Some 0),
     ext_create = (\<lambda>_ s. Some (s, 7)),
     ext_init = (\<lambda>_ _ c p s. if p = Some ''bad'' then Some (s, 1) else do { s1 \<leftarrow> skynet_callback c 7 (Some 0) s; Some (s1, 0) }),
     ext_release = (\<lambda>_ _ s. Some s), ext_signal = (\<lambda>_ _ _ s. Some s),
     ext_cb = (\<lambda>_ _ _ _ _ _ _ _ s. Some (s, 0)), ext_thread_time = (\<lambda>_. 0), ext_fopen = (\<lambda>_. True),
     ext_ctime = (\<lambda>_. [])\<rparr>"

lemma release_ok_world0: "release_ok world0"
  by (simp add: release_ok_def world0_def)

lemma node_inv_node0: "node_inv node0"
proof -
  have "gq_rep node0 []" by (simp add: gq_rep_def node0_def)
  then have "queues_inv node0" by (auto simp: queues_inv_def node0_def)
  moreover have "storage_inv (ctx_ho node0) (nd_H node0)" by (simp add: node0_def storage_inv_init)
  moreover have "registered (nd_H node0) = {}"
    by (auto simp: registered_def node0_def skynet_handle_init_def DEFAULT_SLOT_SIZE_def)
  ultimately show ?thesis by (auto simp: node_inv_def ctxs_inv_def node0_def ctx_mq_def)
qed

section \<open>Launching a service\<close>

lemma node_inv_modules:
  assumes "node_inv s"
  shows "node_inv (s\<lparr>nd_modules := nd_modules s @ [m]\<rparr>)" "mailbox (s\<lparr>nd_modules := M\<rparr>) = mailbox s"
  using assms
  by (fastforce simp: node_inv_def queues_inv_def ctxs_inv_def gq_rep_def ctx_ho_def[abs_def] ctx_mq_def[abs_def])
    (simp add: mailbox_def[abs_def] ctx_ho_def[abs_def] ctx_mq_def[abs_def])

lemma query_index_bound: "query_index name ms i = Some j \<Longrightarrow> i \<le> j \<and> j < i + length ms \<and> mod_name (ms ! (j - i)) = name"
proof (induction ms arbitrary: i)
  case (Cons m ms)
  show ?case
  proof (cases "mod_name m = name")
    case False
    with Cons.prems Cons.IH[of "Suc i"] show ?thesis by (auto simp: nth_Cons' Suc_le_eq)
  qed (use Cons.prems in auto)
qed simp

lemma module_query_spec:
  assumes "node_inv s" "skynet_module_query E name s = Some (s1, Some md)"
  shows "node_inv s1" "mailbox s1 = mailbox s" "md < length (nd_modules s1)" "mod_name (nd_modules s1 ! md) = name"
    "nd_ctx s1 = nd_ctx s" "nd_ctx_fresh s1 = nd_ctx_fresh s" "nd_H s1 = nd_H s" "nd_total s1 = nd_total s" "nd_profile s1 = nd_profile s"
    "mq_fresh s1 = mq_fresh s" "mq_heap s1 = mq_heap s" "gq_head s1 = gq_head s" "gq_tail s1 = gq_tail s"
proof -
  have "s1 = s \<and> module_query name s = Some md
      \<or> (\<exists>d. s1 = s\<lparr>nd_modules := nd_modules s @ [open_sym E name d]\<rparr> \<and> md = length (nd_modules s))"
    using assms(2)
    by (auto simp: skynet_module_query_def Let_def bind_eq_Some_conv split: option.splits if_splits)
  then consider "s1 = s" "module_query name s = Some md"
    | d where "s1 = s\<lparr>nd_modules := nd_modules s @ [open_sym E name d]\<rparr>" "md = length (nd_modules s)" by blast
  then have "node_inv s1 \<and> mailbox s1 = mailbox s \<and> md < length (nd_modules s1) \<and> mod_name (nd_modules s1 ! md) = name
    \<and> nd_ctx s1 = nd_ctx s \<and> nd_ctx_fresh s1 = nd_ctx_fresh s \<and> nd_H s1 = nd_H s \<and> nd_total s1 = nd_total s \<and> nd_profile s1 = nd_profile s
    \<and> mq_fresh s1 = mq_fresh s \<and> mq_heap s1 = mq_heap s \<and> gq_head s1 = gq_head s \<and> gq_tail s1 = gq_tail s"
  proof cases
    case 1
    with assms(1) query_index_bound[of name "nd_modules s" 0 md] show ?thesis by (simp add: module_query_def)
  next
    case 2
    with node_inv_modules[OF assms(1)] show ?thesis by (simp add: open_sym_def)
  qed
  then show "node_inv s1" "mailbox s1 = mailbox s" "md < length (nd_modules s1)" "mod_name (nd_modules s1 ! md) = name"
    "nd_ctx s1 = nd_ctx s" "nd_ctx_fresh s1 = nd_ctx_fresh s" "nd_H s1 = nd_H s" "nd_total s1 = nd_total s" "nd_profile s1 = nd_profile s"
    "mq_fresh s1 = mq_fresh s" "mq_heap s1 = mq_heap s" "gq_head s1 = gq_head s" "gq_tail s1 = gq_tail s" by blast+
qed

lemma queues_inv_new:
  assumes "queues_inv s"
  shows "queues_inv (s\<lparr>mq_heap := (mq_heap s)(mq_fresh s \<mapsto> mq_new h), mq_fresh := Suc (mq_fresh s)\<rparr>)"
    and "gq_ok (s\<lparr>mq_heap := (mq_heap s)(mq_fresh s \<mapsto> mq_new h), mq_fresh := Suc (mq_fresh s)\<rparr>) (mq_fresh s)"
proof -
  let ?s = "s\<lparr>mq_heap := (mq_heap s)(mq_fresh s \<mapsto> mq_new h), mq_fresh := Suc (mq_fresh s)\<rparr>"
  obtain gs where gs: "gq_rep s gs" and I: "\<And>a Q. mq_heap s a = Some Q \<Longrightarrow> a < mq_fresh s \<and> (\<exists>ms. mq_rep Q ms)
      \<and> mq_in_global Q \<in> {0, 1} \<and> (mq_release Q = 0 \<longrightarrow> mq_in_global Q = 0 \<longrightarrow> a \<notin> set gs)"
    using assms unfolding queues_inv_def by blast
  have no: "mq_fresh s \<notin> set gs"
    using gs I mq_chain_dom[of "mq_heap s" "gq_head s" gs] unfolding gq_rep_def by (metis less_irrefl)
  have "gq_rep ?s gs"
    using gs no by (auto simp: gq_rep_def mq_chain_upd_other mq_new_def)
  moreover have "\<exists>ms. mq_rep (mq_new h) ms" "mq_in_global (mq_new h) = 1"
    using mq_rep_new by (auto simp: mq_new_def MQ_IN_GLOBAL_def)
  ultimately show "queues_inv ?s"
    unfolding queues_inv_def by (intro exI[of _ gs]) (use I in \<open>fastforce simp: less_Suc_eq split: if_splits\<close>)
  show "gq_ok ?s (mq_fresh s)" using gq_ok_iff[OF \<open>gq_rep ?s gs\<close>] no by simp
qed

text \<open>Everything \<open>skynet_context_new\<close> does before it calls the init function of the module.\<close>

definition launched :: "nat \<Rightarrow> u64 \<Rightarrow> handle_storage \<Rightarrow> u32 \<Rightarrow> node \<Rightarrow> node" where
  "launched md inst H' h s = s\<lparr>
     mq_heap := (mq_heap s)(mq_fresh s \<mapsto> mq_new h), mq_fresh := Suc (mq_fresh s),
     nd_ctx := (nd_ctx s)(nd_ctx_fresh s \<mapsto> (context_fresh md inst (nd_profile s))\<lparr>
       cx_handle := h, cx_queue := Some (mq_fresh s)\<rparr>),
     nd_ctx_fresh := Suc (nd_ctx_fresh s), nd_H := H', nd_total := int_inc (nd_total s)\<rparr>"

lemma launched_inv:
  assumes inv: "node_inv s" and md: "md < length (nd_modules s)"
    and ho: "ho = (ctx_ho s)(nd_ctx_fresh s := 0)"
    and reg: "skynet_handle_register ho (nd_ctx_fresh s) (nd_H s) = Some (H', h)" and room: "storage_room (nd_H s)"
  shows "node_inv (launched md inst H' h s)" "mailbox s h = None"
    "mailbox (launched md inst H' h s) = (mailbox s)(h \<mapsto> [])"
    "registered H' = insert (nd_ctx_fresh s) (registered (nd_H s))"
    "handle_find (ctx_ho (launched md inst H' h s)) H' h = Some (nd_ctx_fresh s)"
proof -
  let ?c = "nd_ctx_fresh s" and ?q = "mq_fresh s" and ?s = "launched md inst H' h s"
  have free: "nd_ctx s ?c = None"
    using node_invD(2)[OF inv] unfolding ctxs_inv_def by (metis less_irrefl not_None_eq)
  have nr: "?c \<notin> registered (nd_H s)"
    using node_invD(2)[OF inv] free unfolding ctxs_inv_def by auto
  have ho_s: "ho = ctx_ho s" unfolding ho using free by (auto simp: ctx_ho_def fun_eq_iff)
  from storage.register[OF node_invD(3)[OF inv] nr room] reg have
    r: "handle_find (ctx_ho s) (nd_H s) h = None" "storage_inv ((ctx_ho s)(?c := h)) H'"
      "handle_find ((ctx_ho s)(?c := h)) H' = (handle_find (ctx_ho s) (nd_H s))(h \<mapsto> ?c)"
    by (auto simp: ho_s)
  show reg': "registered H' = insert ?c (registered (nd_H s))"
    by (rule storage.register_members(1)[OF node_invD(3)[OF inv] nr room reg[unfolded ho_s]])
  have ho': "ctx_ho ?s = (ctx_ho s)(?c := h)"
    by (auto simp: ctx_ho_def launched_def context_fresh_def fun_eq_iff)
  show "mailbox s h = None" using r(1) mailbox_None_iff[OF inv] by simp
  show "handle_find (ctx_ho ?s) H' h = Some ?c" by (simp add: ho' r(3))
  have cm: "ctx_mq ?s d = (if d = ?c then Some ?q else ctx_mq s d)" for d
    by (simp add: ctx_mq_def launched_def)
  have qfresh: "a < ?q" if "mq_heap s a \<noteq> None" for a
    using that node_invD(1)[OF inv] unfolding queues_inv_def by blast
  have cq: "\<exists>q Q. cx_queue x = Some q \<and> q \<noteq> ?q \<and> mq_heap s q = Some Q \<and> mq_release Q = 0 \<and> mq_handle Q = cx_handle x"
    if "nd_ctx s d = Some x" for d x
    using that node_invD(2)[OF inv] qfresh unfolding ctxs_inv_def by (metis less_irrefl option.discI)
  have "ctxs_inv ?s"
    unfolding ctxs_inv_def cm
  proof (intro conjI allI impI ballI)
    fix d x assume d: "nd_ctx ?s d = Some x"
    show "\<exists>q Q. cx_queue x = Some q \<and> mq_heap ?s q = Some Q \<and> mq_release Q = 0 \<and> mq_handle Q = cx_handle x"
    proof (cases "d = ?c")
      case True
      with d show ?thesis by (auto simp: launched_def mq_new_def)
    next
      case False
      with d cq[of d x] show ?thesis by (auto simp: launched_def)
    qed
    show "d < nd_ctx_fresh ?s" "0 \<le> cx_ref x" "cx_ref x < 2 ^ 31 - 1" "cx_mod x < length (nd_modules ?s)"
      using d node_invD(2)[OF inv] md
      by (auto simp: launched_def context_fresh_def ctxs_inv_def less_Suc_eq split: if_splits)
  next
    fix d e qe assume "(if d = ?c then Some ?q else ctx_mq s d) = Some qe" "(if e = ?c then Some ?q else ctx_mq s e) = Some qe"
    moreover have "ctx_mq s e \<noteq> Some ?q" for e
      using cq[of e] by (auto simp: ctx_mq_def bind_eq_Some_conv)
    ultimately show "d = e" using node_invD(2)[OF inv] unfolding ctxs_inv_def by (metis option.inject)
  next
    fix d assume "d \<in> registered (nd_H ?s)"
    then have "d = ?c \<or> d \<in> registered (nd_H s)" using reg' by (simp add: launched_def)
    then show "\<exists>x. nd_ctx ?s d = Some x \<and> 1 \<le> cx_ref x"
      using node_invD(2)[OF inv] nr unfolding ctxs_inv_def by (cases "d = ?c") (auto simp: launched_def context_fresh_def)
  qed
  moreover have "queues_inv ?s"
    using queues_inv_new(1)[OF node_invD(1)[OF inv], of h]
    by (simp add: launched_def queues_inv_def gq_rep_def)
  moreover have "nd_H ?s = H'" "nd_mem ?s = nd_mem s" "nd_mem_fresh ?s = nd_mem_fresh s"
    by (simp_all add: launched_def)
  ultimately show "node_inv ?s"
    using r(2) node_invD(4)[OF inv] by (simp add: node_inv_def ho')
  have heap: "mq_heap ?s = (mq_heap s)(?q \<mapsto> mq_new h)" "nd_H ?s = H'" by (simp_all add: launched_def)
  show "mailbox ?s = (mailbox s)(h \<mapsto> [])"
  proof
    fix g
    show "mailbox ?s g = ((mailbox s)(h \<mapsto> [])) g"
    proof (cases "g = h")
      case True
      then show ?thesis
        using mq_list_rep[OF mq_rep_new] by (simp add: mailbox_def ho' r(3) cm heap)
    next
      case False
      show ?thesis
      proof (cases "handle_find (ctx_ho s) (nd_H s) g")
        case None
        with False show ?thesis by (simp add: mailbox_def ho' r(3) heap)
      next
        case (Some d)
        obtain x q Q where x: "nd_ctx s d = Some x" "1 \<le> cx_ref x" "cx_ref x < 2 ^ 31 - 1" "cx_handle x = g"
          "cx_queue x = Some q" "mq_heap s q = Some Q" "mq_release Q = 0" "mq_handle Q = g" "ctx_mq s d = Some q"
          by (rule registered_ctx[OF inv Some])
        have "d \<noteq> ?c" "q \<noteq> ?q" using x(1) free qfresh[of q] x(6) by auto
        with False Some x show ?thesis by (simp add: mailbox_def ho' r(3) cm heap)
      qed
    qed
  qed
qed

text \<open>The contract of the create function: it makes the instance and leaves the node alone.\<close>

definition create_ok :: "services \<Rightarrow> bool" where
  "create_ok E \<longleftrightarrow> (\<forall>f s. \<exists>inst. ext_create E f s = Some (s, inst))"

lemma context_create_spec:
  assumes inv: "node_inv s" and q: "skynet_module_query E name s = Some (s1, Some md)"
    and cr: "skynet_module_instance_create E md s1 = Some (s1, inst)" "inst \<noteq> 0" and room: "storage_room (nd_H s)"
  shows "\<exists>H' h. context_create E name s
      = Some (launched md inst H' h s1, Some (md, inst, nd_ctx_fresh s1, mq_fresh s1))
    \<and> skynet_handle_register ((ctx_ho s1)(nd_ctx_fresh s1 := 0)) (nd_ctx_fresh s1) (nd_H s1) = Some (H', h)"
proof -
  note s1 = module_query_spec[OF inv q]
  let ?c = "nd_ctx_fresh s1" and ?x = "context_fresh md inst (nd_profile s1)"
  let ?s3 = "s1\<lparr>nd_ctx := (nd_ctx s1)(?c \<mapsto> ?x), nd_ctx_fresh := Suc ?c\<rparr>"
  have ho3: "ctx_ho ?s3 = (ctx_ho s1)(?c := 0)" by (auto simp: ctx_ho_def context_fresh_def)
  have free: "nd_ctx s1 ?c = None"
    using node_invD(2)[OF s1(1)] unfolding ctxs_inv_def by (metis less_irrefl not_None_eq)
  have nr: "?c \<notin> registered (nd_H s1)"
    using node_invD(2)[OF s1(1)] free unfolding ctxs_inv_def by auto
  have ho_s: "(ctx_ho s1)(?c := 0) = ctx_ho s1" using free by (auto simp: ctx_ho_def fun_eq_iff)
  from storage.register[OF node_invD(3)[OF s1(1)] nr] room s1(7) obtain H' h where
    reg: "skynet_handle_register ((ctx_ho s1)(?c := 0)) ?c (nd_H s1) = Some (H', h)"
    by (auto simp: ho_s)
  have live: "list_all (\<lambda>p. case p of Some c \<Rightarrow> nd_ctx ?s3 c \<noteq> None | None \<Rightarrow> True) (hs_slot (nd_H ?s3))"
    using node_invD(2)[OF s1(1)] by (auto simp: list_all_iff ctxs_inv_def registered_def split: option.split)
  have hr: "handle_register ?c ?s3 = Some (?s3\<lparr>nd_H := H'\<rparr>, h)"
    unfolding handle_register_def ho3 by (simp only: live simp_thms c_assert_True) (simp add: reg)
  have "context_create E name s = Some (launched md inst H' h s1, Some (md, inst, ?c, mq_fresh s1))"
    using q cr hr
    by (simp add: context_create_def ctx_malloc_def ctx_upd_def skynet_mq_create_def context_inc_def launched_def context_fresh_def)
  with reg show ?thesis by blast
qed

text \<open>The fields of a context that handles, queues and reference counts depend on.\<close>

definition ctx_core :: "skynet_context \<Rightarrow> u32 \<times> addr option \<times> int \<times> nat" where
  "ctx_core x = (cx_handle x, cx_queue x, cx_ref x, cx_mod x)"

lemma node_inv_core:
  assumes inv: "node_inv s" and x: "nd_ctx s c = Some x" "ctx_core y = ctx_core x"
  shows "node_inv (s\<lparr>nd_ctx := (nd_ctx s)(c \<mapsto> y)\<rparr>)" "mailbox (s\<lparr>nd_ctx := (nd_ctx s)(c \<mapsto> y)\<rparr>) = mailbox s"
proof -
  let ?s = "s\<lparr>nd_ctx := (nd_ctx s)(c \<mapsto> y)\<rparr>"
  have f: "cx_handle y = cx_handle x" "cx_queue y = cx_queue x" "cx_ref y = cx_ref x" "cx_mod y = cx_mod x"
    using x(2) by (simp_all add: ctx_core_def)
  have q: "ctx_mq ?s = ctx_mq s" "ctx_ho ?s = ctx_ho s" using x f by (auto simp: ctx_mq_def ctx_ho_def fun_eq_iff)
  have "ctxs_inv ?s"
    using node_invD(2)[OF inv] x f unfolding ctxs_inv_def q by auto
  moreover have "queues_inv ?s" using node_invD(1)[OF inv] by (simp add: queues_inv_def gq_rep_def)
  ultimately show "node_inv ?s" using inv by (simp add: node_inv_def q)
  show "mailbox ?s = mailbox s" by (simp add: mailbox_def[abs_def] q)
qed

lemma skynet_error_spec:
  assumes inv: "node_inv s" and c: "\<And>c. context = Some c \<Longrightarrow> nd_ctx s c \<noteq> None"
  shows "\<exists>s' l m. skynet_error E context text s = Some s' \<and> node_inv s' \<and> nd_ctx s' = nd_ctx s \<and> nd_H s' = nd_H s
    \<and> nd_total s' = nd_total s \<and> nd_modules s' = nd_modules s \<and> nd_TI s' = nd_TI s \<and> nd_monitor_exit s' = nd_monitor_exit s
    \<and> nd_HARBOR s' = nd_HARBOR s \<and> nd_files s' = nd_files s
    \<and> (mailbox s' = mailbox s \<or> (mailbox s' = deliver (l, m) (mailbox s) \<and> l = nd_logger s' \<and> (\<forall>c. context = Some c \<longrightarrow> msg_source m = ctx_ho s c)))"
proof -
  from node_invD(3)[OF inv] obtain ns where ns: "names_rep (nd_H s) ns" by (auto simp: storage_inv_def)
  obtain logger where l: "(if nd_logger s = 0 then skynet_handle_findname (nd_H s) ''logger'' else Some (nd_logger s)) = Some logger"
    using findname_spec[OF ns, of "''logger''"] that by (cases "nd_logger s = 0") simp_all
  let ?s0 = "s\<lparr>nd_logger := logger\<rparr>"
  show ?thesis
  proof (cases "logger = 0")
    case True
    with l inv show ?thesis by (auto simp: skynet_error_def)
  next
    case False
    obtain s1 a where al: "mem_alloc (error_block text) ?s0 = (s1, a)" by fastforce
    have inv0: "node_inv ?s0" using inv by simp
    note m = mem_alloc_spec[OF inv0 al]
    have f1: "nd_ctx s1 = nd_ctx s" "nd_H s1 = nd_H s" "nd_total s1 = nd_total s" "nd_modules s1 = nd_modules s" "nd_TI s1 = nd_TI s"
      "nd_monitor_exit s1 = nd_monitor_exit s" "nd_HARBOR s1 = nd_HARBOR s" "nd_files s1 = nd_files s"
      using al by (auto simp: mem_alloc_def)
    have lg: "nd_logger s1 = logger" using al by (auto simp: mem_alloc_def)
    obtain source where src: "(case context of None \<Rightarrow> Some 0 | Some c \<Rightarrow> skynet_context_handle c s1) = Some source"
      using c f1(1) by (cases "context") (auto simp: skynet_context_handle_def)
    let ?m = "\<lparr>msg_source = source, msg_session = 0, msg_data = Some a,
          msg_sz = of_nat (length text) OR push_bit MESSAGE_TYPE_SHIFT (ucast PTYPE_TEXT)\<rparr>"
    from mail.push[OF m(1), of E logger ?m] obtain s2 r where
      p: "skynet_context_push E logger ?m s1 = Some (s2, r)" "node_inv s2" "same_but_queues s1 s2"
        "mailbox s2 = deliver (logger, ?m) (mailbox s1)" by blast
    have "msg_source ?m = ctx_ho s c" if "context = Some c" for c
      using src f1(1) that by (auto simp: skynet_context_handle_def ctx_ho_def)
    moreover have "skynet_error E context text s = Some s2"
      using l False al src p(1) by (simp add: skynet_error_def)
    moreover have "nd_monitor_exit s2 = nd_monitor_exit s1" "nd_files s2 = nd_files s1"
      by (subst p(3)[unfolded same_but_queues_def], simp)+
    ultimately show ?thesis
      using p m(2) f1 lg same_but_queues_fields[OF p(3)] by (intro exI[of _ s2] exI[of _ logger] exI[of _ ?m]) simp
  qed
qed

text \<open>The contract of an init function that accepts: it returns 0 and may set the callback, send messages, start timers, register
  names, take references and launch other services, as long as the new service stays registered with its queue and the reference of the launcher,
  and the queue, which counts as scheduled, is not put into the global queue.\<close>

definition launch_ok :: "addr \<Rightarrow> addr \<Rightarrow> u32 \<Rightarrow> node \<Rightarrow> bool" where
  "launch_ok c q h s \<longleftrightarrow> node_inv s \<and> (\<exists>x. nd_ctx s c = Some x \<and> cx_handle x = h \<and> cx_queue x = Some q \<and> 2 \<le> cx_ref x)
     \<and> c \<in> registered (nd_H s) \<and> gq_ok s q \<and> (\<exists>Q. mq_heap s q = Some Q \<and> mq_in_global Q = 1)"

definition init_accepts :: "services \<Rightarrow> nat \<Rightarrow> u64 \<Rightarrow> addr \<Rightarrow> addr \<Rightarrow> string option \<Rightarrow> node \<Rightarrow> bool" where
  "init_accepts E f inst c q parm s \<longleftrightarrow> (\<exists>s'. ext_init E f inst c parm s = Some (s', 0) \<and> launch_ok c q (ctx_ho s c) s')"

lemma node_inv_globalmq_push:
  assumes inv: "node_inv s" and q: "gq_ok s q" "mq_heap s q = Some Q" "mq_in_global Q = 1"
  shows "\<exists>s'. skynet_globalmq_push q s = Some s' \<and> node_inv s' \<and> mailbox s' = mailbox s \<and> same_but_queues s s'"
proof -
  from node_invD(1)[OF inv] q(2) obtain gs ms where gs: "gq_rep s gs" and ms: "mq_rep Q ms" unfolding queues_inv_def by blast
  have no: "q \<notin> set gs" using gq_ok_iff[OF gs] q(1) by blast
  from gq_rep_contents_push[OF gs q(2) no] obtain s' where
    s': "skynet_globalmq_push q s = Some s'" "gq_rep s' (gs @ [q])" "mq_contents s' = mq_contents s"
      and fr: "mq_frame q s s'"
    by (auto simp: mq_frame_def)
  have "mq_contents s' q = Some (Q\<lparr>mq_next := None\<rparr>)" using s'(3) q(2) by (simp add: mq_contents_def)
  then obtain Q' where Q': "mq_heap s' q = Some Q'" "Q'\<lparr>mq_next := None\<rparr> = Q\<lparr>mq_next := None\<rparr>"
    by (auto simp: mq_contents_Some)
  note sim = same_upto_next[OF Q'(2)]
  have "queues_inv s'"
    using Q'(1) q ms sim by (intro queues_inv_frame[OF node_invD(1)[OF inv] fr gs s'(2), where Q' = Q' and ms = ms]) auto
  moreover have "ctxs_inv s'"
    by (rule ctxs_inv_frame[OF node_invD(2)[OF inv] fr q(2) Q'(1) sim(4,5)])
  moreover note e = mq_frame_eq[OF fr]
  moreover have f: "nd_H s' = nd_H s" "ctx_ho s' = ctx_ho s" "ctx_mq s' = ctx_mq s" "nd_mem s' = nd_mem s" "nd_mem_fresh s' = nd_mem_fresh s"
    by (subst e, simp)+
  ultimately have "node_inv s'" using inv by (simp add: node_inv_def)
  moreover have "map_option mq_list (mq_heap s' a) = map_option mq_list (mq_heap s a)" for a
  proof -
    have "mq_contents s' a = mq_contents s a" using s'(3) by simp
    then show ?thesis
      using same_upto_next(2) by (cases "mq_heap s a"; cases "mq_heap s' a") (auto simp: mq_contents_def)
  qed
  then have "mailbox s' = mailbox s" by (simp add: mailbox_def[abs_def] f)
  ultimately show ?thesis using s'(1) e by (auto simp: same_but_queues_def)
qed

lemma deliver_dom [simp]: "dom (deliver (h, m) B) = dom B"
  by (auto split: option.split)

lemma launch_ok_launched:
  assumes inv: "node_inv s" and md: "md < length (nd_modules s)" and room: "storage_room (nd_H s)"
    and reg: "skynet_handle_register ((ctx_ho s)(nd_ctx_fresh s := 0)) (nd_ctx_fresh s) (nd_H s) = Some (H', h)"
  shows "launch_ok (nd_ctx_fresh s) (mq_fresh s) h (launched md inst H' h s)" "ctx_ho (launched md inst H' h s) (nd_ctx_fresh s) = h"
proof -
  note L = launched_inv[OF inv md refl reg room]
  have "gq_ok (launched md inst H' h s) (mq_fresh s)"
    using queues_inv_new(2)[OF node_invD(1)[OF inv], of h] by (simp add: launched_def gq_ok_def)
  then show "launch_ok (nd_ctx_fresh s) (mq_fresh s) h (launched md inst H' h s)"
    using L(1)[of inst] L(4) by (simp add: launch_ok_def) (simp add: launched_def context_fresh_def mq_new_def MQ_IN_GLOBAL_def)
  show "ctx_ho (launched md inst H' h s) (nd_ctx_fresh s) = h" by (simp add: ctx_ho_def launched_def)
qed

lemma launch_ok_mailbox: "launch_ok c q h s \<Longrightarrow> h \<in> dom (mailbox s)"
proof -
  assume a: "launch_ok c q h s"
  then have "ctx_ho s c = h" "ctx_mq s c = Some q" "mq_heap s q \<noteq> None" by (auto simp: launch_ok_def ctx_ho_def ctx_mq_def)
  moreover have "handle_find (ctx_ho s) (nd_H s) (ctx_ho s c) = Some c"
    using a node_invD(3)[of s] storage.member_find by (auto simp: launch_ok_def)
  ultimately show ?thesis by (auto simp: mailbox_def)
qed

text \<open>C18: Launching a service whose module accepts: it does not abort, the new service gets a handle
  that nobody had and its init function runs with an empty mailbox under this handle, the other mailboxes as before.  At the end the mailboxes are those that the init function left,
  with at most one line of the new service for the logger; the service is registered, has the references that init left without that of the launcher, and is marked initialised.\<close>

theorem launch_registers:
  assumes inv: "node_inv s" and room: "storage_room (nd_H s)"
    and q: "skynet_module_query E name s = Some (s1, Some md)"
    and cr: "skynet_module_instance_create E md s1 = Some (s1, inst)" "inst \<noteq> 0"
    and f: "mod_init (nd_modules s1 ! md) = Some f"
    and init: "\<And>sL c mq. context_create E name s = Some (sL, Some (md, inst, c, mq)) \<Longrightarrow> init_accepts E f inst c mq param sL"
  shows "\<exists>sL c mq h s2 x2 s' x. context_create E name s = Some (sL, Some (md, inst, c, mq)) \<and> mailbox s h = None \<and> mailbox sL = (mailbox s)(h \<mapsto> [])
    \<and> ext_init E f inst c param sL = Some (s2, 0) \<and> nd_ctx s2 c = Some x2
    \<and> skynet_context_new E name param s = Some (s', Some c) \<and> node_inv s' \<and> h \<in> dom (mailbox s')
    \<and> nd_ctx s' c = Some x \<and> cx_handle x = h \<and> cx_ref x = cx_ref x2 - 1 \<and> cx_init x
    \<and> (mailbox s' = mailbox s2 \<or> (\<exists>m. msg_source m = h \<and> mailbox s' = deliver (nd_logger s', m) (mailbox s2)))"
proof -
  note s1 = module_query_spec[OF inv q]
  let ?c = "nd_ctx_fresh s1" and ?q = "mq_fresh s1"
  obtain H' h where cc: "context_create E name s = Some (launched md inst H' h s1, Some (md, inst, ?c, ?q))"
    and reg: "skynet_handle_register ((ctx_ho s1)(?c := 0)) ?c (nd_H s1) = Some (H', h)"
    using context_create_spec[OF inv q cr room] by blast
  let ?L = "launched md inst H' h s1"
  have room1: "storage_room (nd_H s1)" using room s1(7) by simp
  have L: "mailbox s1 h = None" "mailbox ?L = (mailbox s1)(h \<mapsto> [])"
    using launched_inv(2-3)[OF s1(1,3) refl reg room1] by blast+
  note ok = launch_ok_launched[OF s1(1,3) room1 reg, of inst]
  from init[OF cc] obtain s2 where i: "ext_init E f inst ?c param ?L = Some (s2, 0)" and l2: "launch_ok ?c ?q h s2"
    unfolding init_accepts_def ok(2) by blast
  then obtain x Q where x: "node_inv s2" "nd_ctx s2 ?c = Some x" "cx_handle x = h" "cx_queue x = Some ?q" "2 \<le> cx_ref x"
    and g: "gq_ok s2 ?q" "mq_heap s2 ?q = Some Q" "mq_in_global Q = 1" unfolding launch_ok_def by blast
  have ref: "cx_ref x < 2 ^ 31 - 1" using ctx_of[OF x(1,2)] by blast
  have ii: "skynet_module_instance_init E md inst ?c param ?L = Some (s2, 0)"
    using s1(3) f i by (simp add: skynet_module_instance_init_def module_get_def launched_def)
  let ?x1 = "x\<lparr>cx_ref := cx_ref x - 1\<rparr>" and ?x2 = "x\<lparr>cx_ref := cx_ref x - 1, cx_init := True\<rparr>"
  let ?s3 = "s2\<lparr>nd_ctx := (nd_ctx s2)(?c \<mapsto> ?x1)\<rparr>" and ?s4 = "s2\<lparr>nd_ctx := (nd_ctx s2)(?c \<mapsto> ?x2)\<rparr>"
  have rel: "skynet_context_release E ?c s2 = Some (?s3, Some ?c)"
    using x ref by (simp add: skynet_context_release_def ctx_upd_def int_dec_small)
  have inv3: "node_inv ?s3" by (rule node_inv_ctx_ref[OF x(1,2)]) (use x(5) ref in simp_all)
  have inv4: "node_inv ?s4" and mb4: "mailbox ?s4 = mailbox ?s3"
    using node_inv_core[OF inv3, of ?c ?x1 ?x2] by (simp_all add: ctx_core_def)
  have mb3: "mailbox ?s3 = mailbox s2" by (rule mailbox_ctx_ref[OF x(2)])
  have "gq_ok ?s4 ?q" "mq_heap ?s4 ?q = Some Q" using g by (simp_all add: gq_ok_def)
  from node_inv_globalmq_push[OF inv4 this g(3)] obtain s5 where
    s5: "skynet_globalmq_push ?q ?s4 = Some s5" "node_inv s5" "mailbox s5 = mailbox ?s4" "same_but_queues ?s4 s5" by blast
  note f5 = same_but_queues_fields[OF s5(4)]
  have "\<And>c. Some ?c = Some c \<Longrightarrow> nd_ctx s5 c \<noteq> None" using f5(4) by auto
  from skynet_error_spec[OF s5(2) this] obtain s6 l m where
    s6: "skynet_error E (Some ?c) (''LAUNCH '' @ name @ '' '' @ (case param of Some p \<Rightarrow> p | None \<Rightarrow> [])) s5 = Some s6"
      "node_inv s6" "nd_ctx s6 = nd_ctx s5"
      "mailbox s6 = mailbox s5 \<or> (mailbox s6 = deliver (l, m) (mailbox s5) \<and> l = nd_logger s6 \<and> msg_source m = ctx_ho s5 ?c)" by blast
  have upd: "ctx_upd ?c (cx_init_update (\<lambda>_. True)) ?s3 = Some ?s4" by (simp add: ctx_upd_def)
  have new: "skynet_context_new E name param s = Some (s6, Some ?c)"
    using cc ii rel upd s5(1) s6(1) by (simp add: skynet_context_new_def)
  have c6: "nd_ctx s6 ?c = Some ?x2" using s6(3) f5(4) by simp
  have "ctx_ho s5 ?c = h" using f5(4) x(3) by (simp add: ctx_ho_def)
  with s6(4) have mb: "mailbox s6 = mailbox s2 \<or> (\<exists>m. msg_source m = h \<and> mailbox s6 = deliver (nd_logger s6, m) (mailbox s2))"
    unfolding s5(3) mb4 mb3 by blast
  then have "dom (mailbox s6) = dom (mailbox s2)" using deliver_dom by metis
  then have dm: "h \<in> dom (mailbox s6)" using launch_ok_mailbox[OF l2] by simp
  have L': "mailbox s h = None" "mailbox ?L = (mailbox s)(h \<mapsto> [])" using L s1(2) by simp_all
  have x2: "cx_handle ?x2 = h" "cx_ref ?x2 = cx_ref x - 1" "cx_init ?x2" using x(3) by simp_all
  from cc L' i x(2) new s6(2) dm c6 x2 mb show ?thesis by blast
qed

lemma storage_room_node0: "storage_room (nd_H node0)"
  by (simp add: node0_def storage_room_init)

text \<open>The module that \<open>world0\<close> loads under a name.\<close>

definition module0 :: "string \<Rightarrow> skynet_module" where
  "module0 name = open_sym world0 name 0"

lemma query_world0:
  "skynet_module_query world0 ''a'' node0 = Some (node0\<lparr>nd_modules := [module0 ''a'']\<rparr>, Some 0)"
  by (simp add: skynet_module_query_def module_query_def node0_def module0_def open_sym_def world0_def
      MAX_MODULE_TYPE_def Let_def)

text \<open>A node with one service, under handle 1.\<close>

definition node1 :: node where
  "node1 = launched 0 7 ((skynet_handle_init 0)\<lparr>hs_slot := [None, Some 0, None, None], hs_handle_index := 2\<rparr>) 1
     (node0\<lparr>nd_modules := [module0 ''a'']\<rparr>)"

lemma node1_register:
  "skynet_handle_register ((ctx_ho node0)(0 := 0)) 0 (skynet_handle_init 0)
     = Some ((skynet_handle_init 0)\<lparr>hs_slot := [None, Some 0, None, None], hs_handle_index := 2\<rparr>, 1)"
proof -
  have upd: "(replicate 4 None)[1 := Some 0] = [None, Some 0, None, None :: addr option]"
    by (simp add: numeral_eq_Suc)
  have "register_scan (skynet_handle_init 0) [0..<hs_slot_size (skynet_handle_init 0)] = Some 1"
    by (simp add: skynet_handle_init_def cdefs HANDLE_MASK_def slot_hash_def upt_rec)
  then show ?thesis
    using upd by (subst skynet_handle_register.simps) (simp add: skynet_handle_init_def cdefs slot_hash_def)
qed

lemma mailbox_node0: "mailbox node0 h = None"
  unfolding mailbox_None_iff[OF node_inv_node0]
  using storage.find_member[OF node_invD(3)[OF node_inv_node0], of h]
  by (cases "handle_find (ctx_ho node0) (nd_H node0) h")
    (auto simp: node0_def registered_def skynet_handle_init_def DEFAULT_SLOT_SIZE_def)

lemma node1_spec: "node_inv node1" "mailbox node1 = [1 \<mapsto> []]"
proof -
  let ?s = "node0\<lparr>nd_modules := [module0 ''a'']\<rparr>"
  have inv: "node_inv ?s" and room: "storage_room (nd_H ?s)"
    using module_query_spec(1)[OF node_inv_node0 query_world0] storage_room_node0 by simp_all
  have m: "0 < length (nd_modules ?s)" by simp
  have fr: "nd_ctx_fresh ?s = 0" "nd_H ?s = skynet_handle_init 0" by (simp_all add: node0_def)
  have ho: "ctx_ho ?s = ctx_ho node0" by (simp add: ctx_ho_def fun_eq_iff)
  note reg = node1_register[folded ho]
  note L = launched_inv(1,3)[OF inv m refl _ room, unfolded fr, OF reg]
  show "node_inv node1" using L(1) by (simp add: node1_def)
  have "mailbox ?s = Map.empty" using node_inv_modules(2)[OF node_inv_node0] mailbox_node0 by auto
  with L(2) show "mailbox node1 = [1 \<mapsto> []]" by (simp add: node1_def)
qed

lemma node1_fields:
  "nd_HARBOR node1 = 0" "nd_mem node1 = Map.empty" "nd_mem_fresh node1 = 0" "nd_logger node1 = 0"
  "nd_TI node1 = timer_create_timer" "nd_files node1 = Map.empty"
  by (simp_all add: node1_def launched_def node0_def)

section \<open>The logger and the harbor service\<close>

text \<open>What the init functions of the services under \<open>service-src\<close> do to the node keeps the contract.\<close>

lemma launch_ok_callback: "launch_ok c q h s \<Longrightarrow> \<exists>s'. skynet_callback c ud cb s = Some s' \<and> launch_ok c q h s'
    \<and> nd_H s' = nd_H s \<and> map_option cx_ref (nd_ctx s' c) = map_option cx_ref (nd_ctx s c)"
proof -
  assume a: "launch_ok c q h s"
  then obtain x where x: "node_inv s" "nd_ctx s c = Some x" "cx_handle x = h" "cx_queue x = Some q" "2 \<le> cx_ref x" unfolding launch_ok_def by blast
  let ?x = "x\<lparr>cx_cb := cb, cx_cb_ud := ud\<rparr>"
  have "node_inv (s\<lparr>nd_ctx := (nd_ctx s)(c \<mapsto> ?x)\<rparr>)" using node_inv_core(1)[OF x(1,2), of ?x] by (simp add: ctx_core_def)
  with a x show ?thesis by (simp add: skynet_callback_def ctx_upd_def launch_ok_def gq_ok_def)
qed

definition name_room :: "handle_storage \<Rightarrow> bool" where
  "name_room H \<longleftrightarrow> hs_name_count H < hs_name_cap H \<or> hs_name_cap H * 2 \<le> MAX_SLOT_SIZE"

lemma launch_ok_reg:
  assumes "launch_ok c q h s" "name_room (nd_H s)"
  shows "\<exists>s' r. skynet_command E c ''REG'' (Some (CHR ''.'' # name)) s = Some (s', r) \<and> launch_ok c q h s'"
proof -
  obtain x where x: "node_inv s" "nd_ctx s c = Some x" "cx_handle x = h" using assms(1) unfolding launch_ok_def by blast
  obtain ns where ns: "names_rep (nd_H s) ns" and wf: "hs_wf (ctx_ho s) (nd_H s)" using node_invD(3)[OF x(1)] by (auto simp: storage_inv_def)
  obtain H' r ns' where H': "skynet_handle_namehandle h name (nd_H s) = Some (H', r)" "names_rep H' ns'"
    "hs_slot H' = hs_slot (nd_H s)" "hs_slot_size H' = hs_slot_size (nd_H s)" "hs_handle_index H' = hs_handle_index (nd_H s)" "hs_harbor H' = hs_harbor (nd_H s)"
  proof (cases "names_map ns name")
    case None
    from namehandle_new[OF ns None, of h] assms(2) obtain H' ns' where n: "skynet_handle_namehandle h name (nd_H s) = Some (H', Some name)" "names_rep H' ns'"
      "H' = (nd_H s)\<lparr>hs_name_cap := hs_name_cap H', hs_name := hs_name H', hs_name_count := hs_name_count H'\<rparr>" unfolding name_room_def by blast
    have "hs_slot H' = hs_slot (nd_H s)" "hs_slot_size H' = hs_slot_size (nd_H s)" "hs_handle_index H' = hs_handle_index (nd_H s)" "hs_harbor H' = hs_harbor (nd_H s)"
      by (subst n(3), simp)+
    with n(1,2) that show thesis by blast
  next
    case (Some k)
    from namehandle_taken[OF ns Some, of h] ns that show thesis by blast
  qed
  let ?s = "s\<lparr>nd_H := H'\<rparr>"
  have "ctx_ho ?s = ctx_ho s" "ctx_mq ?s = ctx_mq s" by (simp_all add: ctx_ho_def[abs_def] ctx_mq_def[abs_def])
  moreover have "registered H' = registered (nd_H s)" by (simp add: registered_def H'(3))
  moreover have "hs_wf (ctx_ho s) H'" using wf by (simp add: hs_wf_def H')
  ultimately have "node_inv ?s" using x(1) H'(2)
    by (auto simp: node_inv_def queues_inv_def ctxs_inv_def gq_rep_def storage_inv_def)
  with assms(1) have "launch_ok c q h ?s" using \<open>registered H' = registered (nd_H s)\<close> by (simp add: launch_ok_def gq_ok_def)
  moreover have "skynet_command E c ''REG'' (Some (CHR ''.'' # name)) s = Some (?s, r)"
    using x H'(1) by (simp add: skynet_command_def cmd_funcs_def cmd_reg_def skynet_context_handle_def str0_def)
  ultimately show ?thesis by blast
qed

lemma node_inv_total [simp]: "node_inv (s\<lparr>nd_total := t\<rparr>) = node_inv s" "node_inv (s\<lparr>nd_REMOTE := r\<rparr>) = node_inv s"
  by (simp_all add: node_inv_def queues_inv_def ctxs_inv_def gq_rep_def ctx_ho_def[abs_def] ctx_mq_def[abs_def])

lemma launch_ok_harbor_start:
  assumes "launch_ok c q h s" "nd_ctx s c = Some x" "cx_ref x < 2 ^ 31 - 2"
  shows "\<exists>s'. skynet_harbor_start c s = Some s' \<and> launch_ok c q h s' \<and> nd_REMOTE s' = Some c"
proof -
  have x: "node_inv s" "cx_handle x = h" "cx_queue x = Some q" "2 \<le> cx_ref x" using assms(1,2) unfolding launch_ok_def by auto
  let ?s = "s\<lparr>nd_ctx := (nd_ctx s)(c \<mapsto> x\<lparr>cx_ref := cx_ref x + 1\<rparr>)\<rparr>"
  have "node_inv ?s" by (rule node_inv_ctx_ref[OF x(1) assms(2)]) (use x(4) assms(3) in simp_all)
  then have "node_inv ((context_dec ?s)\<lparr>nd_REMOTE := Some c\<rparr>)"
    by (simp add: context_dec_def)
  moreover have "skynet_harbor_start c s = Some ((context_dec ?s)\<lparr>nd_REMOTE := Some c\<rparr>)"
    using assms(2,3) x(4) by (simp add: skynet_harbor_start_def skynet_context_reserve_def skynet_context_grab_def ctx_upd_def int_inc_small)
  ultimately show ?thesis using assms(1) x by (simp add: launch_ok_def gq_ok_def context_dec_def)
qed

text \<open>\<open>logger_init\<close> of \<open>service_logger.c\<close>, as far as the node sees it; the struct of the logger and its file are the instance.\<close>

definition logger_init :: "services \<Rightarrow> nat \<Rightarrow> u64 \<Rightarrow> addr \<Rightarrow> string option \<Rightarrow> node \<Rightarrow> (node \<times> int) option" where
  "logger_init E logger_cb inst ctx parm s =
     (if (case parm of Some p \<Rightarrow> ext_fopen E p | None \<Rightarrow> True) then do {
        s1 \<leftarrow> skynet_callback ctx inst (Some logger_cb) s;
        (s2, _) \<leftarrow> skynet_command E ctx ''REG'' (Some ''.logger'') s1;
        Some (s2, 0) }
      else Some (s, 1))"

lemma logger_init_ok:
  assumes "launch_ok c q h s" "name_room (nd_H s)" "case parm of Some p \<Rightarrow> ext_fopen E p | None \<Rightarrow> True"
  shows "\<exists>s'. logger_init E cb inst c parm s = Some (s', 0) \<and> launch_ok c q h s'"
proof -
  obtain s1 where s1: "skynet_callback c inst (Some cb) s = Some s1" "launch_ok c q h s1" "nd_H s1 = nd_H s"
    using launch_ok_callback[OF assms(1)] by blast
  with launch_ok_reg[OF s1(2), of E "''logger''"] assms(2,3) show ?thesis by (auto simp: logger_init_def)
qed

text \<open>The start of the logger on an empty node.\<close>

definition world_logger :: services where
  "world_logger = world0\<lparr>ext_init := logger_init world0\<rparr>"

lemma query_logger:
  "skynet_module_query world_logger ''logger'' node0 = Some (node0\<lparr>nd_modules := [module0 ''logger'']\<rparr>, Some 0)"
  "skynet_module_instance_create world_logger 0 (node0\<lparr>nd_modules := [module0 ''logger'']\<rparr>) = Some (node0\<lparr>nd_modules := [module0 ''logger'']\<rparr>, 7)"
  "mod_init (nd_modules (node0\<lparr>nd_modules := [module0 ''logger'']\<rparr>) ! 0) = Some 0"
  by (simp_all add: skynet_module_query_def module_query_def node0_def module0_def open_sym_def world_logger_def world0_def
      MAX_MODULE_TYPE_def skynet_module_instance_create_def module_get_def Let_def)

lemma logger_accepts:
  assumes "context_create world_logger ''logger'' node0 = Some (sL, Some (0, 7, c, mq))"
  shows "init_accepts world_logger 0 7 c mq None sL"
proof -
  let ?s = "node0\<lparr>nd_modules := [module0 ''logger'']\<rparr>"
  have s: "node_inv ?s" "0 < length (nd_modules ?s)" "storage_room (nd_H ?s)" "ctx_ho ?s = ctx_ho node0"
    using module_query_spec(1)[OF node_inv_node0 query_logger(1)] storage_room_node0 by (simp_all add: ctx_ho_def fun_eq_iff)
  obtain H' h where cc: "sL = launched 0 7 H' h ?s" "c = nd_ctx_fresh ?s" "mq = mq_fresh ?s"
    and reg: "skynet_handle_register ((ctx_ho ?s)(nd_ctx_fresh ?s := 0)) (nd_ctx_fresh ?s) (nd_H ?s) = Some (H', h)"
    using context_create_spec[OF node_inv_node0 query_logger(1,2) _ storage_room_node0] assms by auto
  have "H' = (skynet_handle_init 0)\<lparr>hs_slot := [None, Some 0, None, None], hs_handle_index := 2\<rparr>"
    using reg node1_register unfolding s(4) by (simp add: node0_def)
  then have "name_room (nd_H sL)" unfolding cc by (simp add: launched_def name_room_def skynet_handle_init_def)
  from logger_init_ok[OF _ this, where parm = None and E = world0 and c = c and q = mq and h = h] launch_ok_launched[OF s(1-3) reg, of 7]
  show ?thesis unfolding init_accepts_def cc(2,3)[symmetric] cc(1)[symmetric] by (simp add: world_logger_def)
qed

theorem launch_registers_witness:
  "\<exists>sL c mq h s2 x2 s' x. context_create world_logger ''logger'' node0 = Some (sL, Some (0, 7, c, mq)) \<and> mailbox sL = (mailbox node0)(h \<mapsto> [])
    \<and> logger_init world0 0 7 c None sL = Some (s2, 0) \<and> nd_ctx s2 c = Some x2
    \<and> skynet_context_new world_logger ''logger'' None node0 = Some (s', Some c) \<and> node_inv s' \<and> h \<in> dom (mailbox s')
    \<and> nd_ctx s' c = Some x \<and> cx_handle x = h \<and> cx_ref x = cx_ref x2 - 1 \<and> cx_init x
    \<and> (mailbox s' = mailbox s2 \<or> (\<exists>m. msg_source m = h \<and> mailbox s' = deliver (nd_logger s', m) (mailbox s2)))"
proof -
  have e: "ext_init world_logger = logger_init world0" by (simp add: world_logger_def)
  have "(7 :: u64) \<noteq> 0" by simp
  from launch_registers[OF node_inv_node0 storage_room_node0 query_logger(1,2) this query_logger(3) logger_accepts]
  show ?thesis unfolding e by blast
qed

section \<open>Sending\<close>

lemma isremote_frame: "nd_HARBOR s' = nd_HARBOR s \<Longrightarrow> skynet_harbor_message_isremote h s' = skynet_harbor_message_isremote h s"
  by (simp add: skynet_harbor_message_isremote_def)

text \<open>C17: Sending a message to a live local service: the call does not abort and returns the
  session; exactly one message is added, at the end of the mailbox of the destination, with the
  given source and session, the type in the high byte of its size, and a fresh zero-terminated copy
  of the data; the caller's memory is unchanged.\<close>

theorem send_delivers:
  assumes inv: "node_inv s" and sz: "sz AND MESSAGE_TYPE_MASK = sz"
    and dest: "destination \<noteq> 0" "skynet_harbor_message_isremote destination s = Some False" "mailbox s destination = Some ms"
    and src: "source \<noteq> 0" and type: "type AND PTYPE_TAG_DONTCOPY = 0" "type AND PTYPE_TAG_ALLOCSESSION = 0"
    and data: "mem_bytes a (unat sz) s = Some bs"
  shows "\<exists>s' b. skynet_send E context source destination type session (Some a) sz s = Some (s', session) \<and> node_inv s'
    \<and> nd_mem s b = None \<and> nd_mem s' = (nd_mem s)(b \<mapsto> Bytes (bs @ [Some 0]))
    \<and> mailbox s' = (mailbox s)(destination \<mapsto> ms @ [\<lparr>msg_source = source, msg_session = session, msg_data = Some b,
         msg_sz = sz OR push_bit MESSAGE_TYPE_SHIFT (ucast (type AND 0xff))\<rparr>])"
proof -
  obtain s1 b where fa: "filter_args context type session (Some a) sz s
      = Some (s1, session, Some b, sz OR push_bit MESSAGE_TYPE_SHIFT (ucast (type AND 0xff)))"
    and s1: "node_inv s1" "mailbox s1 = mailbox s" "nd_mem s b = None" "nd_mem s1 = (nd_mem s)(b \<mapsto> Bytes (bs @ [Some 0]))"
      "nd_HARBOR s1 = nd_HARBOR s"
    using filter_args_copy[OF inv type data, of "context" session] by blast
  have so: "source_of context source s1 = Some source" using src by (simp add: source_of_def)
  have ir: "skynet_harbor_message_isremote destination s1 = Some False"
    using dest(2) isremote_frame[OF s1(5)] by simp
  have dm: "\<And>x. Some b = Some x \<Longrightarrow> nd_mem s1 x \<noteq> None" using s1(4) by auto
  from send_local[OF sz fa s1(1) so dest(1) ir dm, of E] dest(3) s1 show ?thesis
    by auto
qed

theorem send_delivers_witness:
  "\<exists>s' b. skynet_send world0 None 5 1 10 3 (Some 9) 2 (node1\<lparr>nd_mem := [9 \<mapsto> Bytes [Some 7, Some 8]], nd_mem_fresh := 10\<rparr>) = Some (s', 3)
    \<and> nd_mem s' b = Some (Bytes [Some 7, Some 8, Some 0])
    \<and> mailbox s' 1 = Some [\<lparr>msg_source = 5, msg_session = 3, msg_data = Some b, msg_sz = 0x0a00000000000002\<rparr>]"
proof -
  let ?s = "node1\<lparr>nd_mem := [9 \<mapsto> Bytes [Some 7, Some 8]], nd_mem_fresh := 10\<rparr>"
  have inv: "node_inv ?s" by (rule node_inv_mem[OF node1_spec(1)]) (auto split: if_splits)
  have mb: "mailbox ?s 1 = Some []" by (simp add: node1_spec)
  have ir: "skynet_harbor_message_isremote 1 ?s = Some False"
    by (simp add: skynet_harbor_message_isremote_def node1_fields HANDLE_MASK_def)
  have sz: "(2 :: u64) AND MESSAGE_TYPE_MASK = 2" by (simp add: MESSAGE_TYPE_MASK_def mask_eq_exp_minus_1)
  have db: "mem_bytes 9 (unat (2 :: u64)) ?s = Some [Some 7, Some 8]" by (simp add: mem_bytes_def)
  have ty: "(10 :: u32) AND PTYPE_TAG_DONTCOPY = 0" "(10 :: u32) AND PTYPE_TAG_ALLOCSESSION = 0" by (simp_all add: cdefs)
  from send_delivers[OF inv sz _ ir mb _ ty db, of 5 world0 None 3] show ?thesis
    by (auto simp: MESSAGE_TYPE_SHIFT_def)
qed

text \<open>C21: Sending to a handle nobody has leaks nothing: the call returns -1, no mailbox changes, and
  the copy that was made for the message is freed again.\<close>

theorem send_dead_no_leak:
  assumes inv: "node_inv s" and sz: "sz AND MESSAGE_TYPE_MASK = sz"
    and dest: "destination \<noteq> 0" "skynet_harbor_message_isremote destination s = Some False" "mailbox s destination = None"
    and src: "source \<noteq> 0" and type: "type AND PTYPE_TAG_DONTCOPY = 0" "type AND PTYPE_TAG_ALLOCSESSION = 0"
    and data: "mem_bytes a (unat sz) s = Some bs"
  shows "\<exists>s'. skynet_send E context source destination type session (Some a) sz s = Some (s', - 1) \<and> node_inv s'
    \<and> mailbox s' = mailbox s \<and> nd_mem s' = nd_mem s"
proof -
  obtain s1 b where fa: "filter_args context type session (Some a) sz s
      = Some (s1, session, Some b, sz OR push_bit MESSAGE_TYPE_SHIFT (ucast (type AND 0xff)))"
    and s1: "node_inv s1" "mailbox s1 = mailbox s" "nd_mem s b = None" "nd_mem s1 = (nd_mem s)(b \<mapsto> Bytes (bs @ [Some 0]))"
      "nd_HARBOR s1 = nd_HARBOR s"
    using filter_args_copy[OF inv type data, of "context" session] by blast
  have so: "source_of context source s1 = Some source" using src by (simp add: source_of_def)
  have ir: "skynet_harbor_message_isremote destination s1 = Some False"
    using dest(2) isremote_frame[OF s1(5)] by simp
  have dm: "\<And>x. Some b = Some x \<Longrightarrow> nd_mem s1 x \<noteq> None" using s1(4) by auto
  have "(nd_mem s1)(b := None) = nd_mem s" using s1(3,4) by auto
  with send_local[OF sz fa s1(1) so dest(1) ir dm, of E] dest(3) s1(2) show ?thesis
    by auto
qed

theorem send_dead_no_leak_witness:
  "\<exists>s'. skynet_send world0 None 5 2 10 3 (Some 9) 2 (node1\<lparr>nd_mem := [9 \<mapsto> Bytes [Some 7, Some 8]], nd_mem_fresh := 10\<rparr>) = Some (s', - 1)
    \<and> nd_mem s' = [9 \<mapsto> Bytes [Some 7, Some 8]] \<and> mailbox s' = [1 \<mapsto> []]"
proof -
  let ?s = "node1\<lparr>nd_mem := [9 \<mapsto> Bytes [Some 7, Some 8]], nd_mem_fresh := 10\<rparr>"
  have inv: "node_inv ?s" by (rule node_inv_mem[OF node1_spec(1)]) (auto split: if_splits)
  have mb: "mailbox ?s 2 = None" "mailbox ?s = [1 \<mapsto> []]" by (simp_all add: node1_spec)
  have ir: "skynet_harbor_message_isremote 2 ?s = Some False"
    by (simp add: skynet_harbor_message_isremote_def node1_fields HANDLE_MASK_def)
  have sz: "(2 :: u64) AND MESSAGE_TYPE_MASK = 2" by (simp add: MESSAGE_TYPE_MASK_def mask_eq_exp_minus_1)
  have db: "mem_bytes 9 (unat (2 :: u64)) ?s = Some [Some 7, Some 8]" by (simp add: mem_bytes_def)
  have ty: "(10 :: u32) AND PTYPE_TAG_DONTCOPY = 0" "(10 :: u32) AND PTYPE_TAG_ALLOCSESSION = 0" by (simp_all add: cdefs)
  from send_dead_no_leak[OF inv sz _ ir mb(1) _ ty db, of 5 world0 None 3] mb(2) show ?thesis by auto
qed

text \<open>The type travels in the high byte of the size: for a size that \<open>skynet_send\<close> accepts, what
  \<open>dispatch_message\<close> (and \<open>skynet_harbor_send\<close>) reads back from the size that \<open>_filter_args\<close> built
  is the low byte of the type and the size itself.\<close>

lemma message_type_roundtrip:
  assumes "sz AND MESSAGE_TYPE_MASK = sz" "filter_args context type session data sz s = Some (s1, session', data', sz')"
  shows "ucast (drop_bit MESSAGE_TYPE_SHIFT sz') = type AND 0xff \<and> sz' AND MESSAGE_TYPE_MASK = sz"
proof -
  have "sz' = sz OR push_bit MESSAGE_TYPE_SHIFT (ucast (type AND 0xff))"
    using assms(2) by (auto simp: filter_args_def Let_def bind_eq_Some_conv)
  with type_byte_high[OF assms(1), of type] show ?thesis by simp
qed

lemma message_type_roundtrip_witness:
  "\<exists>sz'. filter_args None 0x10007 3 None 5 node0 = Some (node0, 3, None, sz')
     \<and> ucast (drop_bit MESSAGE_TYPE_SHIFT sz') = (7 :: u32) \<and> sz' AND MESSAGE_TYPE_MASK = 5"
proof -
  have fa: "filter_args None 0x10007 3 None 5 node0 = Some (node0, 3, None, 5 OR push_bit MESSAGE_TYPE_SHIFT (ucast (0x10007 AND 0xff :: u32)))"
    by (simp add: filter_args_def cdefs)
  have sz: "(5 :: u64) AND MESSAGE_TYPE_MASK = 5" by (simp add: MESSAGE_TYPE_MASK_def mask_eq_exp_minus_1)
  from message_type_roundtrip[OF sz fa] fa show ?thesis by auto
qed

section \<open>Retirement\<close>

text \<open>C19: After \<open>skynet_handle_retire\<close> of a handle (as in \<open>EXIT\<close> and \<open>KILL\<close>) the node is well formed,
  exactly that handle is gone from the mailboxes, and a push to it is refused, also when other
  threads still hold references of the context; the release function of the module may run.\<close>

theorem retired_unreachable:
  assumes inv: "node_inv s" and E: "release_ok E" and files: "\<forall>c x. nd_ctx s c = Some x \<longrightarrow> logfile_ok x s"
  shows "\<exists>s'. skynet_handle_retire E h s = Some (s', mailbox s h \<noteq> None) \<and> node_inv s'
    \<and> dom (mailbox s') = dom (mailbox s) - {h} \<and> skynet_context_push E h m s' = Some (s', - 1)"
proof -
  from handle_retire_spec[OF inv E, of h] files obtain s' where
    s': "skynet_handle_retire E h s = Some (s', mailbox s h \<noteq> None)" "node_inv s'"
      "handle_find (ctx_ho s') (nd_H s') = (handle_find (ctx_ho s) (nd_H s))(h := None)"
    by blast
  have "mailbox s' g = None \<longleftrightarrow> g = h \<or> mailbox s g = None" for g
    unfolding mailbox_None_iff[OF s'(2)] mailbox_None_iff[OF inv] s'(3) by simp
  then have "dom (mailbox s') = dom (mailbox s) - {h}" by (intro set_eqI) (auto simp: domIff)
  with s' context_push_dead[OF s'(2), of h E m] show ?thesis by auto
qed

theorem retired_unreachable_witness:
  "\<exists>s'. skynet_handle_retire world0 1 node1 = Some (s', True) \<and> mailbox s' = Map.empty
     \<and> skynet_context_push world0 1 (timer_message 4) s' = Some (s', - 1)"
proof -
  have "\<forall>c x. nd_ctx node1 c = Some x \<longrightarrow> logfile_ok x node1"
    by (auto simp: node1_def launched_def node0_def logfile_ok_def context_fresh_def split: if_splits)
  from retired_unreachable[OF node1_spec(1) release_ok_world0 this, of 1 "timer_message 4"] show ?thesis
    by (auto simp: node1_spec(2))
qed

section \<open>Sessions\<close>

text \<open>A new session of a service is always positive, also when the counter wraps: it is the
  previous session plus one, or 1 after \<open>2 ^ 31 - 1\<close>, and it is the one the context remembers.\<close>

lemma newsession_positive:
  assumes "nd_ctx s c = Some x" "0 \<le> cx_session_id x" "cx_session_id x < 2 ^ 31"
  shows "\<exists>s'. skynet_context_newsession c s = Some (s', if cx_session_id x = 2 ^ 31 - 1 then 1 else cx_session_id x + 1)
    \<and> (\<exists>y. nd_ctx s' c = Some y \<and> 0 < cx_session_id y \<and> cx_session_id y < 2 ^ 31
         \<and> cx_session_id y = (if cx_session_id x = 2 ^ 31 - 1 then 1 else cx_session_id x + 1))"
proof (cases "cx_session_id x = 2 ^ 31 - 1")
  case True
  then have "int_inc (cx_session_id x) = - (2 ^ 31)" by (simp add: int_inc_def to_int32_def)
  with True assms(1) show ?thesis by (simp add: skynet_context_newsession_def ctx_upd_def Let_def)
next
  case False
  with assms(2,3) have "int_inc (cx_session_id x) = cx_session_id x + 1" by (simp add: int_inc_small)
  with False assms show ?thesis by (auto simp: skynet_context_newsession_def ctx_upd_def Let_def)
qed

lemma newsession_positive_witness:
  "\<exists>s'. skynet_context_newsession 0 node1 = Some (s', 1)"
proof -
  have "nd_ctx node1 0 = Some ((context_fresh 0 7 False)\<lparr>cx_handle := 1, cx_queue := Some 0\<rparr>)"
    by (simp add: node1_def launched_def node0_def)
  from newsession_positive[OF this] show ?thesis by (auto simp: context_fresh_def)
qed

section \<open>Handles as text\<close>

lemma hex_digit_upper: "d < 16 \<Longrightarrow> digit_val (''0123456789ABCDEF'' ! d) = Some d"
  by (cases "d = 0 \<or> d = 1 \<or> d = 2 \<or> d = 3 \<or> d = 4 \<or> d = 5 \<or> d = 6 \<or> d = 7")
    (auto simp: digit_val_def less_Suc_eq numeral_eq_Suc)

lemma nibble: "unat (drop_bit (k * 4) (h :: u32) AND 0xf) = unat h div 16 ^ k mod 16"
proof -
  have "(0xf :: u32) = mask 4" by (simp add: mask_eq_exp_minus_1)
  then have "unat (drop_bit (k * 4) h AND 0xf) = unat (take_bit 4 (drop_bit (k * 4) h))"
    by (simp add: take_bit_eq_mask)
  also have "\<dots> = unat h div 2 ^ (k * 4) mod 2 ^ 4"
    by (simp only: unat_take_bit_word unat_drop_bit_eq drop_bit_nat_def)
  also have "(2::nat) ^ (k * 4) = 16 ^ k" using power_mult[of "2::nat" 4 k] by (simp add: mult.commute)
  finally show ?thesis by simp
qed

lemma nibble_step: "(x :: nat) div 16 ^ Suc k * 16 + x div 16 ^ k mod 16 = x div 16 ^ k"
proof -
  have "x div 16 ^ Suc k = x div 16 ^ k div 16" by (simp only: power_Suc2 div_mult2_eq)
  then show ?thesis using div_mult_mod_eq[of "x div 16 ^ k" 16] by simp
qed

lemma nibbles_value: "foldl (\<lambda>a k. a * 16 + x div 16 ^ k mod 16) (x div 16 ^ n) (rev [0..<n]) = (x :: nat)"
proof (induction n)
  case (Suc n)
  have "rev [0..<Suc n] = n # rev [0..<n]" by simp
  then have "foldl (\<lambda>a k. a * 16 + x div 16 ^ k mod 16) (x div 16 ^ Suc n) (rev [0..<Suc n])
      = foldl (\<lambda>a k. a * 16 + x div 16 ^ k mod 16) (x div 16 ^ n) (rev [0..<n])"
    by (simp only: foldl_Cons nibble_step)
  with Suc show ?case by simp
qed simp

lemma id_to_hex_digits:
  "list_all (is_digit 16) (tl (id_to_hex h)) \<and> digits_val 16 (tl (id_to_hex h)) = unat h \<and> tl (id_to_hex h) \<noteq> []"
proof -
  let ?c = "\<lambda>k. ''0123456789ABCDEF'' ! unat (drop_bit (k * 4) h AND 0xf)"
  have e: "tl (id_to_hex h) = map ?c (rev [0..<8])"
    by (simp add: id_to_hex_def upt_rec)
  have d: "digit_val (?c k) = Some (unat h div 16 ^ k mod 16)" for k
    unfolding nibble by (intro hex_digit_upper) simp
  have "digits_val 16 (map ?c ks) = foldl (\<lambda>a k. a * 16 + unat h div 16 ^ k mod 16) 0 ks" for ks
    by (simp add: digits_val_def foldl_map d)
  moreover have "unat h div 16 ^ 8 = 0" using unsigned_less[of h, where 'a = nat] by simp
  ultimately have "digits_val 16 (tl (id_to_hex h)) = unat h"
    unfolding e using nibbles_value[of "unat h" 8] by simp
  moreover have "list_all (is_digit 16) (tl (id_to_hex h))"
    unfolding e by (simp add: list_all_iff is_digit_def d)
  ultimately show ?thesis by (simp add: e)
qed

text \<open>The two textual forms of a handle, \<open>:%x\<close> (commands \<open>REG\<close>, \<open>QUERY\<close>, \<open>MONITOR\<close>) and the eight
  upper-case digits of \<open>id_to_hex\<close> (command \<open>LAUNCH\<close>), are read back by \<open>tohandle\<close> and
  \<open>skynet_queryname\<close> as that handle, for every 32-bit handle.\<close>

lemma handle_text_roundtrip:
  "tohandle E c (id_to_hex h) s = Some (s, h) \<and> tohandle E c (CHR '':'' # fmt_x h) s = Some (s, h)
   \<and> skynet_queryname E c (id_to_hex h) s = Some (s, h) \<and> skynet_queryname E c (CHR '':'' # fmt_x h) s = Some (s, h)"
proof -
  have "unat h < 2 ^ 64" using unsigned_less[of h, where 'a = nat] by (simp add: order_less_trans)
  then have "ucast (c_strtoul (tl (id_to_hex h)) 16) = h"
    using strtoul_digits[of "tl (id_to_hex h)"] id_to_hex_digits[of h] by simp
  moreover have "id_to_hex h = CHR '':'' # tl (id_to_hex h)" by (simp add: id_to_hex_def)
  then have "str0 (id_to_hex h) = CHR '':''" by (metis list.simps(5) str0_def)
  moreover have "str0 (CHR '':'' # fmt_x h) = CHR '':''" by (simp add: str0_def)
  ultimately show ?thesis by (simp add: tohandle_def skynet_queryname_def strtoul_fmt_x)
qed

section \<open>Findings\<close>

text \<open>The command \<open>NAME\<close> with a single word (a name and no handle) reads the array \<open>handle\<close>, which
  \<open>sscanf\<close> has not written: the behaviour is undefined, whatever the state of the node.\<close>

lemma cmd_name_unwritten: "skynet_command E c ''NAME'' (Some ''.launcher'') s = None"
  by (simp add: skynet_command_def cmd_funcs_def cmd_name_def scan_word_def c_isspace_def)

text \<open>\<open>log_socket\<close> prints the text that follows a socket message with \<open>%*s\<close>, whose number is a
  minimum width: for a text without a terminating zero, which is what the socket layer attaches, it
  reads past the end of the block.\<close>

lemma log_socket_overread:
  "sm_buffer m = None \<Longrightarrow> 0 \<notin> set (sm_text m) \<Longrightarrow> log_socket f m s = None"
  by (simp add: log_socket_def bind_eq_None_conv)

lemma log_socket_overread_witness:
  "log_socket 0 \<lparr>sm_type = 2, sm_id = 1, sm_ud = 0, sm_buffer = None, sm_text = [49, 50, 55]\<rparr> node0 = None"
  by (rule log_socket_overread) simp_all

section \<open>Timers and the mailboxes\<close>

lemma node_timer_execute_spec:
  assumes inv: "node_inv s" and ex: "timer_execute (nd_TI s) = (T, fired)"
  shows "\<exists>s'. node_timer_execute E s = Some s' \<and> node_inv s' \<and> nd_TI s' = T
    \<and> mailbox s' = fold deliver (map (\<lambda>n. (te_handle (tn_event n), timer_message (te_session (tn_event n)))) fired) (mailbox s)"
proof (cases "fired = []")
  case True
  then have "T = nd_TI s" using ex by (auto simp: timer_execute_def Let_def link_clear_def split: if_splits)
  with True inv ex show ?thesis by (subst node_timer_execute.simps) simp
next
  case False
  have inv': "node_inv (s\<lparr>nd_TI := T\<rparr>)" using inv by simp
  from dispatch_list_spec[OF this, of E fired] obtain s1 where
    s1: "dispatch_list E fired (s\<lparr>nd_TI := T\<rparr>) = Some s1" "node_inv s1" "same_but_queues (s\<lparr>nd_TI := T\<rparr>) s1"
      "mailbox s1 = fold deliver (map (\<lambda>n. (te_handle (tn_event n), timer_message (te_session (tn_event n)))) fired) (mailbox s)"
    by auto
  have T: "nd_TI s1 = T" using same_but_queues_fields(5)[OF s1(3)] by simp
  have "timer_execute T = (T, [])"
    using ex by (auto simp: timer_execute_def Let_def link_clear_def split: if_splits)
  then have "node_timer_execute E s1 = Some s1" by (subst node_timer_execute.simps) (simp add: T)
  with s1 ex False T show ?thesis by (subst node_timer_execute.simps) auto
qed

text \<open>C20: One tick of the node's timer: it does not abort, and the mailboxes afterwards are those
  before with one response message (source 0, the session of the event) delivered per pending timer
  that expires at the new time, in the order of the wheel; the other timers stay pending.\<close>

theorem tick_delivers:
  assumes inv: "node_inv s" and wh: "wheel_ok (nd_TI s)"
  shows "\<exists>s' fired. node_timer_update E s = Some s' \<and> node_inv s' \<and> wheel_ok (nd_TI s')
    \<and> tm_time (nd_TI s') = tm_time (nd_TI s) + 1
    \<and> mset fired = filter_mset (\<lambda>n. tn_expire n = tm_time (nd_TI s) + 1) (pending (nd_TI s))
    \<and> pending (nd_TI s') = filter_mset (\<lambda>n. tn_expire n \<noteq> tm_time (nd_TI s) + 1) (pending (nd_TI s))
    \<and> mailbox s' = fold deliver (map (\<lambda>n. (te_handle (tn_event n), timer_message (te_session (tn_event n)))) fired) (mailbox s)"
proof -
  obtain T1 f1 T2 T3 f2 where e: "timer_execute (nd_TI s) = (T1, f1)" "timer_shift T1 = Some T2" "timer_execute T2 = (T3, f2)"
    by (metis timer_shift_target surj_pair)
  have upd: "timer_update (nd_TI s) = Some (T3, f1 @ f2)" by (simp add: timer_update_def e)
  note U = timer_update_spec[OF wh, unfolded upd]
  from node_timer_execute_spec[OF inv e(1), of E] obtain s1 where
    s1: "node_timer_execute E s = Some s1" "node_inv s1" "nd_TI s1 = T1"
      "mailbox s1 = fold deliver (map (\<lambda>n. (te_handle (tn_event n), timer_message (te_session (tn_event n)))) f1) (mailbox s)"
    by blast
  have "node_inv (s1\<lparr>nd_TI := T2\<rparr>)" "timer_execute (nd_TI (s1\<lparr>nd_TI := T2\<rparr>)) = (T3, f2)" using s1(2) e(3) by simp_all
  from node_timer_execute_spec[OF this, of E] obtain s2 where
    s2: "node_timer_execute E (s1\<lparr>nd_TI := T2\<rparr>) = Some s2" "node_inv s2" "nd_TI s2 = T3"
      "mailbox s2 = fold deliver (map (\<lambda>n. (te_handle (tn_event n), timer_message (te_session (tn_event n)))) f2) (mailbox s1)"
    by auto
  have "node_timer_update E s = Some s2" using s1 e(2) s2(1) by (simp add: node_timer_update_def)
  with s1(4) s2 U show ?thesis by (intro exI[of _ s2] exI[of _ "f1 @ f2"]) auto
qed

theorem tick_delivers_witness:
  "\<exists>s'. node_timer_update world0 (node1\<lparr>nd_TI := timer_add timer_create_timer \<lparr>te_handle = 1, te_session = 9\<rparr> 1\<rparr>) = Some s'
     \<and> mailbox s' 1 = Some [timer_message 9]"
proof -
  let ?T = "timer_add timer_create_timer \<lparr>te_handle = 1, te_session = 9\<rparr> 1"
  let ?n = "\<lparr>tn_expire = 1, tn_event = \<lparr>te_handle = 1, te_session = 9\<rparr>\<rparr> :: timer_node"
  have T: "wheel_ok ?T" "pending ?T = {#?n#}" "tm_time ?T = 0"
    using wheel_ok_timer_add[OF wheel_ok_create, of 1 "\<lparr>te_handle = 1, te_session = 9\<rparr>"] pending_create
    by (simp_all add: timer_create_timer_def)
  have "node_inv (node1\<lparr>nd_TI := ?T\<rparr>)" "wheel_ok (nd_TI (node1\<lparr>nd_TI := ?T\<rparr>))" by (simp_all add: node1_spec T)
  from tick_delivers[OF this, of world0] obtain s' fired where
    s': "node_timer_update world0 (node1\<lparr>nd_TI := ?T\<rparr>) = Some s'" "mset fired = {#?n#}"
      "mailbox s' = fold deliver (map (\<lambda>n. (te_handle (tn_event n), timer_message (te_session (tn_event n)))) fired) (mailbox node1)"
    by (auto simp: T)
  from s'(2) have "fired = [?n]" by (simp only: mset_single_iff)
  with s'(1,3) show ?thesis by (simp add: node1_spec(2))
qed

end
