(* ===== verification/Bytes.thy ===== *)
theory Bytes
  imports Prelude
begin

text \<open>
  Bytes in memory: little-endian and big-endian layouts of integers, two's complement readings,
  and the outcome of a C function that a Lua state calls: a value, a Lua error (\<open>luaL_error\<close>, which
  unwinds the call) or a violation (an access outside an object).
\<close>

section \<open>Integer layouts\<close>

definition le_bytes :: "nat \<Rightarrow> nat \<Rightarrow> u8 list" where
  "le_bytes n x = map (\<lambda>i. of_nat (x div 256 ^ i mod 256)) [0..<n]"

definition be_bytes :: "nat \<Rightarrow> nat \<Rightarrow> u8 list" where
  "be_bytes n x = rev (le_bytes n x)"

fun le_val :: "u8 list \<Rightarrow> nat" where
  "le_val [] = 0"
| "le_val (b # bs) = unat b + 256 * le_val bs"

definition be_val :: "u8 list \<Rightarrow> nat" where
  "be_val bs = le_val (rev bs)"

text \<open>The signed reading of a \<open>k\<close>-bit pattern and the pattern of a signed number.\<close>

definition to_signed :: "nat \<Rightarrow> nat \<Rightarrow> int" where
  "to_signed k x = (if x < 2 ^ (k - 1) then int x else int x - 2 ^ k)"

definition of_signed :: "nat \<Rightarrow> int \<Rightarrow> nat" where
  "of_signed k v = nat (v mod 2 ^ k)"

lemma length_le_bytes [simp]: "length (le_bytes n x) = n"
  by (simp add: le_bytes_def)

lemma length_be_bytes [simp]: "length (be_bytes n x) = n"
  by (simp add: be_bytes_def)

lemma le_bytes_Suc: "le_bytes (Suc n) x = of_nat (x mod 256) # le_bytes n (x div 256)"
proof -
  have "[0..<Suc n] = 0 # map Suc [0..<n]" by (simp add: map_Suc_upt upt_conv_Cons)
  then have "le_bytes (Suc n) x = of_nat (x div 256 ^ 0 mod 256) # map (\<lambda>i. of_nat (x div 256 ^ Suc i mod 256)) [0..<n]"
    unfolding le_bytes_def by (simp add: comp_def)
  then show ?thesis by (simp add: le_bytes_def div_mult2_eq)
qed

lemma le_bytes_0 [simp]: "le_bytes 0 x = []"
  by (simp add: le_bytes_def)

lemma unat_byte: "unat (of_nat (x mod 256) :: u8) = x mod 256"
  by (simp add: unat_of_nat)

lemma le_val_bytes: "le_val (le_bytes n x) = x mod 256 ^ n"
proof (induction n arbitrary: x)
  case (Suc n)
  have "x mod 256 ^ Suc n = x mod 256 + 256 * (x div 256 mod 256 ^ n)"
    by (simp add: mod_mult2_eq)
  with Suc show ?case by (simp add: le_bytes_Suc unat_byte)
qed simp

lemma le_bytes_val: "le_bytes (length bs) (le_val bs) = bs"
proof (induction bs)
  case (Cons b bs)
  have "unat b < 256" using unsigned_less[of b, where 'a = nat] by simp
  with Cons show ?case by (simp add: le_bytes_Suc)
qed simp

lemma be_val_bytes: "be_val (be_bytes n x) = x mod 256 ^ n"
  by (simp add: be_val_def be_bytes_def le_val_bytes)

lemma le_val_less: "le_val bs < 256 ^ length bs"
proof (induction bs)
  case (Cons b bs)
  have "unat b < 256" using unsigned_less[of b, where 'a = nat] by simp
  with Cons show ?case by simp
qed simp

lemma be_val_less: "be_val bs < 256 ^ length bs"
  using le_val_less[of "rev bs"] by (simp add: be_val_def)

lemma to_of_signed:
  assumes "0 < k" "- (2 ^ (k - 1)) \<le> v" "v < 2 ^ (k - 1)"
  shows "to_signed k (of_signed k v) = v"
proof -
  have k: "(2::int) ^ k = 2 * 2 ^ (k - 1)" using assms(1) by (simp flip: power_Suc)
  show ?thesis
  proof (cases "0 \<le> v")
    case True
    then have "v mod 2 ^ k = v" using assms(3) k by (intro mod_pos_pos_trivial) auto
    with True assms(3) show ?thesis by (simp add: to_signed_def of_signed_def nat_less_iff)
  next
    case False
    have "v mod 2 ^ k = v + 2 ^ k"
      using False assms(2) k mod_add_self2[of v "2 ^ k"] mod_pos_pos_trivial[of "v + 2 ^ k" "2 ^ k"] by auto
    moreover have "2 ^ (k - 1) \<le> v + 2 ^ k" using assms(2) k by auto
    moreover from this have "0 \<le> v + 2 ^ k" by (rule order_trans[rotated]) simp
    ultimately show ?thesis by (simp add: to_signed_def of_signed_def nat_less_iff)
  qed
qed

text \<open>Shifting and disjunction of disjoint fields add them.\<close>

lemma shift_or_add: "b < 2 ^ k \<Longrightarrow> push_bit k a OR b = a * 2 ^ k + (b :: nat)"
proof -
  assume b: "b < 2 ^ k"
  have "push_bit k a AND b = 0"
  proof (rule bit_eqI)
    fix n
    have "\<not> bit b n" if "k \<le> n"
    proof -
      have "b < 2 ^ n" using b power_increasing[OF that, of "2 :: nat"] by (simp add: order.strict_trans2)
      then show ?thesis by (simp add: bit_iff_odd)
    qed
    then show "bit (push_bit k a AND b) n = bit 0 n" by (auto simp: bit_simps)
  qed
  then have "push_bit k a OR b = push_bit k a + b" by (simp add: disjunctive_add_eq_or)
  then show ?thesis by (simp add: push_bit_eq_mult)
qed

lemma unat_u8: "unat (b :: u8) < 256"
  using unsigned_less[of b, where 'a = nat] by simp

section \<open>Words and their bytes\<close>

lemma ff_mask: "0xff = (mask 8 :: 'a :: len word)"
  by (simp add: mask_eq_exp_minus_1)

lemma ucast_ff [simp]: "ucast ((x :: u32) AND 0xff) = (ucast x :: u8)" "ucast ((y :: u64) AND 0xff) = (ucast y :: u8)"
  unfolding ff_mask by (rule bit_word_eqI; simp add: bit_simps)+

lemma bit_byte_less: "bit (a :: u8) n \<Longrightarrow> n < 8"
  using bit_imp_le_length[of a n] by simp

text \<open>A 32 bit word and its four bytes determine each other.\<close>

lemma join_bytes:
  "ucast (ucast r :: u8) OR push_bit 8 (ucast (ucast (drop_bit 8 r) :: u8))
     OR push_bit 16 (ucast (ucast (drop_bit 16 r) :: u8)) OR push_bit 24 (ucast (ucast (drop_bit 24 r) :: u8)) = (r :: u32)"
  (is "?l = r")
proof (rule bit_word_eqI)
  fix n
  assume "n < LENGTH(32)"
  then have "n < 32" by simp
  then consider "n < 8" | "8 \<le> n" "n < 16" | "16 \<le> n" "n < 24" | "24 \<le> n" "n < 32" by linarith
  then show "bit ?l n = bit r n" by cases (auto simp: bit_simps)
qed

lemma split_bytes:
  fixes a b c d :: u8
  defines "w \<equiv> ucast a OR push_bit 8 (ucast b) OR push_bit 16 (ucast c) OR push_bit 24 (ucast d) :: u32"
  shows "ucast w = a" "ucast (drop_bit 8 w) = b" "ucast (drop_bit 16 w) = c" "ucast (drop_bit 24 w) = d"
  unfolding w_def by (rule bit_word_eqI; auto simp: bit_simps dest: bit_byte_less)+

section \<open>Outcomes\<close>

datatype 'a lr = Ret 'a | Raise | Bad

definition lbind :: "'a lr \<Rightarrow> ('a \<Rightarrow> 'b lr) \<Rightarrow> 'b lr" where
  "lbind m f = (case m of Ret x \<Rightarrow> f x | Raise \<Rightarrow> Raise | Bad \<Rightarrow> Bad)"

lemma lbind_simps [simp]: "lbind (Ret x) f = f x" "lbind Raise f = Raise" "lbind Bad f = Bad"
  by (simp_all add: lbind_def)

lemma lbind_cong [fundef_cong]: "m = m' \<Longrightarrow> (\<And>x. m' = Ret x \<Longrightarrow> f x = g x) \<Longrightarrow> lbind m f = lbind m' g"
  by (simp add: lbind_def split: lr.split)

lemma lbind_eq_Ret: "lbind m f = Ret y \<longleftrightarrow> (\<exists>x. m = Ret x \<and> f x = Ret y)"
  by (simp add: lbind_def split: lr.split)

lemma lbind_Bad: "lbind m f = Bad \<longleftrightarrow> m = Bad \<or> (\<exists>x. m = Ret x \<and> f x = Bad)"
  by (simp add: lbind_def split: lr.split)

end
