(* ===== verification/Seri.thy ===== *)
theory Seri
  imports Bytes
begin

text \<open>
  The serializer of Lua values, \<open>lualib-src/lua-seri.c\<close>: a chain of 128-byte blocks that is written
  to, a reader over a byte buffer, and the recursive pack and unpack functions.  The Lua values are
  those the code distinguishes; a table is what the code sees of it: the elements \<open>1..rawlen\<close> and
  the pairs in the order of \<open>lua_next\<close>, or, for a table with a \<open>__pairs\<close> metamethod, the
  pairs that its iterator yields.
\<close>

section \<open>Values\<close>

text \<open>A real number is its 64-bit pattern, a light userdata its address; \<open>LOther\<close> stands for
  functions, threads and full userdata.\<close>

datatype lua_val = LNil | LBool bool | LInt int | LReal u64 | LStr "u8 list" | LPtr u64
  | LTab "lua_val list" "(lua_val \<times> lua_val) list"
  | LMeta "(lua_val \<times> lua_val) list"
  | LOther

definition TYPE_NIL :: nat where [cdefs]: "TYPE_NIL = 0"
definition TYPE_BOOLEAN :: nat where [cdefs]: "TYPE_BOOLEAN = 1"
definition TYPE_NUMBER :: nat where [cdefs]: "TYPE_NUMBER = 2"
definition TYPE_NUMBER_ZERO :: nat where [cdefs]: "TYPE_NUMBER_ZERO = 0"
definition TYPE_NUMBER_BYTE :: nat where [cdefs]: "TYPE_NUMBER_BYTE = 1"
definition TYPE_NUMBER_WORD :: nat where [cdefs]: "TYPE_NUMBER_WORD = 2"
definition TYPE_NUMBER_DWORD :: nat where [cdefs]: "TYPE_NUMBER_DWORD = 4"
definition TYPE_NUMBER_QWORD :: nat where [cdefs]: "TYPE_NUMBER_QWORD = 6"
definition TYPE_NUMBER_REAL :: nat where [cdefs]: "TYPE_NUMBER_REAL = 8"
definition TYPE_USERDATA :: nat where [cdefs]: "TYPE_USERDATA = 3"
definition TYPE_SHORT_STRING :: nat where [cdefs]: "TYPE_SHORT_STRING = 4"
definition TYPE_LONG_STRING :: nat where [cdefs]: "TYPE_LONG_STRING = 5"
definition TYPE_TABLE :: nat where [cdefs]: "TYPE_TABLE = 6"
definition MAX_COOKIE :: nat where [cdefs]: "MAX_COOKIE = 32"
definition BLOCK_SIZE :: nat where [cdefs]: "BLOCK_SIZE = 128"
definition MAX_DEPTH :: nat where [cdefs]: "MAX_DEPTH = 32"

text \<open>\<open>lua_rawset\<close> raises an error for a key that is not a number: exponent bits all set, mantissa not zero.\<close>

definition is_nan :: "lua_val \<Rightarrow> bool" where
  "is_nan v = (case v of LReal x \<Rightarrow> unat x div 2 ^ 52 mod 2048 = 2047 \<and> unat x mod 2 ^ 52 \<noteq> 0 | _ \<Rightarrow> False)"

text \<open>\<open>t | v << 3\<close>, stored in a byte.\<close>

definition COMBINE_TYPE :: "nat \<Rightarrow> int \<Rightarrow> u8" where
  "COMBINE_TYPE t v = of_nat t OR push_bit 3 (of_int v)"

section \<open>Writing\<close>

text \<open>\<open>wb_done\<close> are the blocks before the current one, \<open>wb_buf\<close> is the buffer of the current block.  The length is an
  \<open>int\<close>: from \<open>2\<^sup>3\<^sup>1\<close> bytes on it wraps around.\<close>

definition wrap32 :: "int \<Rightarrow> int" where
  "wrap32 n = to_signed 32 (of_signed 32 n)"

record write_block =
  wb_done :: "u8 option list list"
  wb_buf :: "u8 option list"
  wb_ptr :: nat
  wb_len :: int

definition blk_alloc :: "u8 option list" where
  "blk_alloc = replicate BLOCK_SIZE None"

definition wb_init :: write_block where
  "wb_init = \<lparr>wb_done = [], wb_buf = blk_alloc, wb_ptr = 0, wb_len = 0\<rparr>"

text \<open>Linking a fresh block.\<close>

definition wb_next :: "write_block \<Rightarrow> write_block" where
  "wb_next b = b\<lparr>wb_done := wb_done b @ [wb_buf b], wb_buf := blk_alloc, wb_ptr := 0\<rparr>"

text \<open>\<open>memcpy\<close> into the current block.\<close>

definition wb_copy :: "write_block \<Rightarrow> u8 list \<Rightarrow> write_block" where
  "wb_copy b bs = b\<lparr>wb_buf := take (wb_ptr b) (wb_buf b) @ map Some bs @ drop (wb_ptr b + length bs) (wb_buf b),
     wb_ptr := wb_ptr b + length bs, wb_len := wrap32 (wb_len b + int (length bs))\<rparr>"

text \<open>The position is below the block size when data is copied: it is never above it, and at the
  block size a fresh block has just been linked.\<close>

function wb_push :: "write_block \<Rightarrow> u8 list \<Rightarrow> write_block" where
  "wb_push b buf =
     (let b1 = (if wb_ptr b = BLOCK_SIZE then wb_next b else b)
      in if wb_ptr b1 + length buf \<le> BLOCK_SIZE then wb_copy b1 buf
         else if wb_ptr b1 < BLOCK_SIZE then
           (let copy = BLOCK_SIZE - wb_ptr b1
            in wb_push (wb_copy b1 (take copy buf)) (drop copy buf))
         else b1)"
  by pat_completeness auto
termination
  by (relation "measure (\<lambda>(b, buf). length buf)") (auto simp: Let_def)

declare wb_push.simps [simp del]

definition wb_nil :: "write_block \<Rightarrow> write_block" where
  "wb_nil b = wb_push b [of_nat TYPE_NIL]"

definition wb_boolean :: "write_block \<Rightarrow> bool \<Rightarrow> write_block" where
  "wb_boolean b x = wb_push b [COMBINE_TYPE TYPE_BOOLEAN (if x then 1 else 0)]"

definition wb_integer :: "write_block \<Rightarrow> int \<Rightarrow> write_block" where
  "wb_integer b v =
     (if v = 0 then wb_push b [COMBINE_TYPE TYPE_NUMBER (int TYPE_NUMBER_ZERO)]
      else if v \<noteq> to_signed 32 (of_signed 32 v) then
        wb_push (wb_push b [COMBINE_TYPE TYPE_NUMBER (int TYPE_NUMBER_QWORD)]) (le_bytes 8 (of_signed 64 v))
      else if v < 0 then
        wb_push (wb_push b [COMBINE_TYPE TYPE_NUMBER (int TYPE_NUMBER_DWORD)]) (le_bytes 4 (of_signed 32 v))
      else if v < 0x100 then
        wb_push (wb_push b [COMBINE_TYPE TYPE_NUMBER (int TYPE_NUMBER_BYTE)]) (le_bytes 1 (of_signed 8 v))
      else if v < 0x10000 then
        wb_push (wb_push b [COMBINE_TYPE TYPE_NUMBER (int TYPE_NUMBER_WORD)]) (le_bytes 2 (of_signed 16 v))
      else
        wb_push (wb_push b [COMBINE_TYPE TYPE_NUMBER (int TYPE_NUMBER_DWORD)]) (le_bytes 4 (of_signed 32 v)))"

definition wb_real :: "write_block \<Rightarrow> u64 \<Rightarrow> write_block" where
  "wb_real b v = wb_push (wb_push b [COMBINE_TYPE TYPE_NUMBER (int TYPE_NUMBER_REAL)]) (le_bytes 8 (unat v))"

definition wb_pointer :: "write_block \<Rightarrow> u64 \<Rightarrow> write_block" where
  "wb_pointer b v = wb_push (wb_push b [of_nat TYPE_USERDATA]) (le_bytes 8 (unat v))"

text \<open>The length is an \<open>int\<close>, cast from the \<open>size_t\<close> of the string.\<close>

definition wb_string :: "write_block \<Rightarrow> u8 list \<Rightarrow> write_block" where
  "wb_string b str =
     (let len = to_signed 32 (of_signed 32 (int (length str))); data = take (nat len) str
      in if len < int MAX_COOKIE then
           (let b1 = wb_push b [COMBINE_TYPE TYPE_SHORT_STRING len]
            in if len > 0 then wb_push b1 data else b1)
         else
           (let b2 = (if len < 0x10000
                      then wb_push (wb_push b [COMBINE_TYPE TYPE_LONG_STRING 2]) (le_bytes 2 (nat len))
                      else wb_push (wb_push b [COMBINE_TYPE TYPE_LONG_STRING 4]) (le_bytes 4 (nat len)))
            in wb_push b2 data))"

definition wb_table_head :: "write_block \<Rightarrow> nat \<Rightarrow> write_block" where
  "wb_table_head b array_size =
     (if array_size \<ge> MAX_COOKIE - 1
      then wb_integer (wb_push b [COMBINE_TYPE TYPE_TABLE (int (MAX_COOKIE - 1))]) (int array_size)
      else wb_push b [COMBINE_TYPE TYPE_TABLE (int array_size)])"

text \<open>The pairs that \<open>wb_table_hash\<close> skips: the elements of the array part, already written.\<close>

definition in_array :: "nat \<Rightarrow> lua_val \<Rightarrow> bool" where
  "in_array array_size k = (case k of LInt x \<Rightarrow> 0 < x \<and> x \<le> int array_size | _ \<Rightarrow> False)"

text \<open>
  \<open>pack_one\<close>, with \<open>wb_table_array\<close> (\<open>pack_elems\<close>), \<open>wb_table_hash\<close> and \<open>wb_table_metapairs\<close>
  (\<open>pack_pairs\<close>, for the latter with array size 0: nothing is skipped).  A Lua error is raised for a nesting of more than \<open>MAX_DEPTH\<close> and for a value
  without serialization.
\<close>

function pack_one :: "nat \<Rightarrow> lua_val \<Rightarrow> write_block \<Rightarrow> write_block lr"
  and pack_elems :: "nat \<Rightarrow> lua_val list \<Rightarrow> write_block \<Rightarrow> write_block lr"
  and pack_pairs :: "nat \<Rightarrow> nat \<Rightarrow> (lua_val \<times> lua_val) list \<Rightarrow> write_block \<Rightarrow> write_block lr" where
  "pack_one depth v b =
     (if depth > MAX_DEPTH then Raise
      else (case v of
          LNil \<Rightarrow> Ret (wb_nil b)
        | LInt x \<Rightarrow> Ret (wb_integer b x)
        | LReal x \<Rightarrow> Ret (wb_real b x)
        | LBool x \<Rightarrow> Ret (wb_boolean b x)
        | LStr str \<Rightarrow> Ret (wb_string b str)
        | LPtr x \<Rightarrow> Ret (wb_pointer b x)
        | LTab elems pairs \<Rightarrow>
            lbind (pack_elems (depth + 1) elems (wb_table_head b (length elems)))
              (\<lambda>b1. pack_pairs (depth + 1) (length elems) pairs b1)
        | LMeta pairs \<Rightarrow> pack_pairs (depth + 1) 0 pairs (wb_push b [COMBINE_TYPE TYPE_TABLE 0])
        | LOther \<Rightarrow> Raise))"
| "pack_elems depth [] b = Ret b"
| "pack_elems depth (v # vs) b = lbind (pack_one depth v b) (pack_elems depth vs)"
| "pack_pairs depth array_size [] b = Ret (wb_nil b)"
| "pack_pairs depth array_size ((k, v) # ps) b =
     (if in_array array_size k then pack_pairs depth array_size ps b
      else lbind (pack_one depth k b) (\<lambda>b1. lbind (pack_one depth v b1) (pack_pairs depth array_size ps)))"
  by pat_completeness auto
termination
  by (relation "measure (case_sum (\<lambda>(d, v, b). size v) (case_sum (\<lambda>(d, vs, b). size_list size vs)
        (\<lambda>(d, n, ps, b). size_list (size_prod size size) ps)))") auto

declare pack_one.simps [simp del]

text \<open>The loop of \<open>seri\<close>: what it copies to the buffer.\<close>

fun seri_loop :: "u8 option list list \<Rightarrow> int \<Rightarrow> u8 option list option" where
  "seri_loop bs len =
     (if len \<le> 0 then Some []
      else (case bs of
          [] \<Rightarrow> None
        | b # rest \<Rightarrow>
            if len \<ge> int BLOCK_SIZE then map_option (\<lambda>t. take BLOCK_SIZE b @ t) (seri_loop rest (len - int BLOCK_SIZE))
            else Some (take (nat len) b)))"

declare seri_loop.simps [simp del]

text \<open>\<open>seri\<close>: the first \<open>len\<close> bytes of the chain in one buffer.  The allocation of a negative length, a huge \<open>size_t\<close>, stops
  the process.\<close>

definition seri :: "u8 option list list \<Rightarrow> int \<Rightarrow> u8 option list option" where
  "seri bs len = (if len < 0 then None else seri_loop bs len)"

text \<open>\<open>luaseri_pack\<close> of the arguments.\<close>

definition luaseri_pack :: "lua_val list \<Rightarrow> u8 option list lr" where
  "luaseri_pack args =
     lbind (pack_elems 0 args wb_init) (\<lambda>b.
       case seri (wb_done b @ [wb_buf b]) (wb_len b) of Some out \<Rightarrow> Ret out | None \<Rightarrow> Bad)"

section \<open>Reading\<close>

record read_block =
  rb_buffer :: "u8 list"
  rb_len :: int
  rb_ptr :: int

definition rball_init :: "u8 list \<Rightarrow> int \<Rightarrow> read_block" where
  "rball_init buffer sz = \<lparr>rb_buffer = buffer, rb_len = sz, rb_ptr = 0\<rparr>"

text \<open>\<open>rb_read\<close> returns the position of the data; the length may be negative.\<close>

definition rb_read :: "read_block \<Rightarrow> int \<Rightarrow> (int \<times> read_block) option" where
  "rb_read rb sz =
     (if rb_len rb < sz then None
      else Some (rb_ptr rb, rb\<lparr>rb_ptr := rb_ptr rb + sz, rb_len := rb_len rb - sz\<rparr>))"

text \<open>Reading \<open>n\<close> bytes: too few raise \<open>invalid_stream\<close>; bytes outside the buffer are a violation.\<close>

definition rb_bytes :: "read_block \<Rightarrow> nat \<Rightarrow> (u8 list \<times> read_block) lr" where
  "rb_bytes rb n =
     (case rb_read rb (int n) of
        None \<Rightarrow> Raise
      | Some (p, rb') \<Rightarrow>
          if 0 \<le> p \<and> p + int n \<le> int (length (rb_buffer rb))
          then Ret (take n (drop (nat p) (rb_buffer rb)), rb')
          else Bad)"

definition get_integer :: "read_block \<Rightarrow> nat \<Rightarrow> (int \<times> read_block) lr" where
  "get_integer rb cookie =
     (if cookie = TYPE_NUMBER_ZERO then Ret (0, rb)
      else if cookie = TYPE_NUMBER_BYTE then lbind (rb_bytes rb 1) (\<lambda>(bs, rb1). Ret (int (le_val bs), rb1))
      else if cookie = TYPE_NUMBER_WORD then lbind (rb_bytes rb 2) (\<lambda>(bs, rb1). Ret (int (le_val bs), rb1))
      else if cookie = TYPE_NUMBER_DWORD then lbind (rb_bytes rb 4) (\<lambda>(bs, rb1). Ret (to_signed 32 (le_val bs), rb1))
      else if cookie = TYPE_NUMBER_QWORD then lbind (rb_bytes rb 8) (\<lambda>(bs, rb1). Ret (to_signed 64 (le_val bs), rb1))
      else Raise)"

definition get_real :: "read_block \<Rightarrow> (u64 \<times> read_block) lr" where
  "get_real rb = lbind (rb_bytes rb 8) (\<lambda>(bs, rb1). Ret (of_nat (le_val bs), rb1))"

definition get_pointer :: "read_block \<Rightarrow> (u64 \<times> read_block) lr" where
  "get_pointer rb = lbind (rb_bytes rb 8) (\<lambda>(bs, rb1). Ret (of_nat (le_val bs), rb1))"

text \<open>\<open>get_buffer\<close>: the length is an \<open>int\<close>.  A negative one passes the test of \<open>rb_read\<close>, and
  \<open>lua_pushlstring\<close> then refuses the size it becomes (larger than any string) with a Lua error.\<close>

definition get_buffer :: "read_block \<Rightarrow> int \<Rightarrow> (u8 list \<times> read_block) lr" where
  "get_buffer rb len =
     (if len < 0 then Raise else rb_bytes rb (nat len))"

text \<open>The value types without components: \<open>push_value\<close> up to \<open>TYPE_LONG_STRING\<close>.\<close>

definition push_scalar :: "read_block \<Rightarrow> nat \<Rightarrow> nat \<Rightarrow> (lua_val \<times> read_block) lr" where
  "push_scalar rb type cookie =
     (if type = TYPE_NIL then Ret (LNil, rb)
      else if type = TYPE_BOOLEAN then Ret (LBool (cookie \<noteq> 0), rb)
      else if type = TYPE_NUMBER then
        (if cookie = TYPE_NUMBER_REAL then lbind (get_real rb) (\<lambda>(x, rb1). Ret (LReal x, rb1))
         else lbind (get_integer rb cookie) (\<lambda>(x, rb1). Ret (LInt x, rb1)))
      else if type = TYPE_USERDATA then lbind (get_pointer rb) (\<lambda>(x, rb1). Ret (LPtr x, rb1))
      else if type = TYPE_SHORT_STRING then lbind (get_buffer rb (int cookie)) (\<lambda>(s, rb1). Ret (LStr s, rb1))
      else if type = TYPE_LONG_STRING then
        (if cookie = 2 then
           lbind (rb_bytes rb 2) (\<lambda>(n, rb1). lbind (get_buffer rb1 (int (le_val n))) (\<lambda>(s, rb2). Ret (LStr s, rb2)))
         else if cookie \<noteq> 4 then Raise
         else
           lbind (rb_bytes rb 4) (\<lambda>(n, rb1).
             lbind (get_buffer rb1 (to_signed 32 (le_val n))) (\<lambda>(s, rb2). Ret (LStr s, rb2))))
      else Raise)"

text \<open>The size of the array part in \<open>unpack_table\<close>, converted to \<open>int\<close>.\<close>

definition table_size :: "read_block \<Rightarrow> nat \<Rightarrow> (int \<times> read_block) lr" where
  "table_size rb array_size =
     (if array_size = MAX_COOKIE - 1 then
        lbind (rb_bytes rb 1) (\<lambda>(t, rb1).
          let type = le_val t; cookie = type div 8
          in if type mod 8 \<noteq> TYPE_NUMBER \<or> cookie = TYPE_NUMBER_REAL then Raise
             else lbind (get_integer rb1 cookie) (\<lambda>(n, rb2). Ret (to_signed 32 (of_signed 32 n), rb2)))
      else Ret (int array_size, rb))"

text \<open>
  \<open>unpack_one\<close> with \<open>push_value\<close>, the array loop and the pair loop of \<open>unpack_table\<close>.  The first
  argument bounds the number of nested and consecutive steps; running out of it is \<open>Bad\<close>, and
  \<open>unpack_total\<close> below shows that twice the input length is enough.
\<close>

fun unpack_one :: "nat \<Rightarrow> read_block \<Rightarrow> (lua_val \<times> read_block) lr"
  and unpack_elems :: "nat \<Rightarrow> int \<Rightarrow> read_block \<Rightarrow> (lua_val list \<times> read_block) lr"
  and unpack_pairs :: "nat \<Rightarrow> read_block \<Rightarrow> ((lua_val \<times> lua_val) list \<times> read_block) lr" where
  "unpack_one 0 rb = Bad"
| "unpack_one (Suc n) rb =
     lbind (rb_bytes rb 1) (\<lambda>(t, rb1).
       let type = le_val t mod 8; cookie = le_val t div 8
       in if type = TYPE_TABLE then
            lbind (table_size rb1 cookie) (\<lambda>(sz, rb2).
              lbind (unpack_elems n sz rb2) (\<lambda>(vs, rb3).
                lbind (unpack_pairs n rb3) (\<lambda>(ps, rb4). Ret (LTab vs ps, rb4))))
          else push_scalar rb1 type cookie)"
| "unpack_elems n sz rb =
     (if sz \<le> 0 then Ret ([], rb)
      else (case n of
          0 \<Rightarrow> Bad
        | Suc m \<Rightarrow>
            lbind (unpack_one m rb) (\<lambda>(v, rb1).
              lbind (unpack_elems m (sz - 1) rb1) (\<lambda>(vs, rb2). Ret (v # vs, rb2)))))"
| "unpack_pairs 0 rb = Bad"
| "unpack_pairs (Suc n) rb =
     lbind (unpack_one n rb) (\<lambda>(k, rb1).
       if k = LNil then Ret ([], rb1)
       else
         lbind (unpack_one n rb1) (\<lambda>(v, rb2).
           if is_nan k then Raise else
           lbind (unpack_pairs n rb2) (\<lambda>(ps, rb3). Ret ((k, v) # ps, rb3))))"

text \<open>The loop of \<open>luaseri_unpack\<close>: values until the buffer is used up.\<close>

fun unpack_all :: "nat \<Rightarrow> read_block \<Rightarrow> lua_val list lr" where
  "unpack_all 0 rb = Bad"
| "unpack_all (Suc n) rb =
     (if rb_len rb < 1 then Ret []
      else lbind (unpack_one n rb) (\<lambda>(v, rb1). lbind (unpack_all n rb1) (\<lambda>vs. Ret (v # vs))))"

text \<open>The first argument of \<open>luaseri_unpack\<close> is absent or nil, a string, or a light userdata (the
  object it points to, or the null pointer) with a length; lengths are converted to \<open>int\<close>.\<close>

datatype seri_arg = ANone | AString "u8 list" | APointer "u8 list option" int

definition luaseri_unpack :: "seri_arg \<Rightarrow> lua_val list lr" where
  "luaseri_unpack arg =
     (let run = (\<lambda>buffer len. if len = 0 then Ret []
                 else (case buffer of
                     None \<Rightarrow> Raise
                   | Some buf \<Rightarrow> unpack_all (2 * nat len + 4) (rball_init buf len)))
      in case arg of
          ANone \<Rightarrow> Ret []
        | AString str \<Rightarrow> run (Some str) (to_signed 32 (of_signed 32 (int (length str))))
        | APointer p sz \<Rightarrow> run p (to_signed 32 (of_signed 32 sz)))"

section \<open>The blocks represent the bytes written\<close>

definition bytes_of :: "write_block \<Rightarrow> u8 option list" where
  "bytes_of b = concat (wb_done b) @ take (wb_ptr b) (wb_buf b)"

definition wb_ok :: "write_block \<Rightarrow> bool" where
  [inv_defs]: "wb_ok b \<longleftrightarrow> list_all (\<lambda>x. length x = BLOCK_SIZE) (wb_done b) \<and> length (wb_buf b) = BLOCK_SIZE
     \<and> wb_ptr b \<le> BLOCK_SIZE \<and> wb_len b = wrap32 (int (BLOCK_SIZE * length (wb_done b) + wb_ptr b))"

lemma wrap32_id: "- (2 ^ 31) \<le> n \<Longrightarrow> n < 2 ^ 31 \<Longrightarrow> wrap32 n = n"
  by (simp add: wrap32_def to_of_signed)

lemma wrap32_huge: "2 ^ 31 \<le> n \<Longrightarrow> n < 2 ^ 32 \<Longrightarrow> wrap32 n < 0"
  by (simp add: wrap32_def to_signed_def of_signed_def nat_less_iff)

lemma wrap32_add [simp]: "wrap32 (wrap32 m + n) = wrap32 (m + n)"
proof -
  have "wrap32 m mod 2 ^ 32 = m mod 2 ^ 32" for m :: int
    by (auto simp: wrap32_def to_signed_def of_signed_def minus_mod_self2)
  then have "(wrap32 m + n) mod 2 ^ 32 = (m + n) mod 2 ^ 32" by (metis mod_add_left_eq)
  then show ?thesis by (simp add: wrap32_def of_signed_def)
qed

lemma wb_ok_init [simp]: "wb_ok wb_init" and bytes_of_init [simp]: "bytes_of wb_init = []"
  by (simp_all add: wb_ok_def wb_init_def bytes_of_def blk_alloc_def wrap32_id)

lemma wb_next_ok:
  assumes "wb_ok b" "wb_ptr b = BLOCK_SIZE"
  shows "wb_ok (wb_next b)" "bytes_of (wb_next b) = bytes_of b" "wb_ptr (wb_next b) = 0"
  using assms by (simp_all add: wb_ok_def wb_next_def bytes_of_def blk_alloc_def add.commute)

lemma wb_copy_ok:
  assumes "wb_ok b" "wb_ptr b + length bs \<le> BLOCK_SIZE"
  shows "wb_ok (wb_copy b bs)" "bytes_of (wb_copy b bs) = bytes_of b @ map Some bs"
    "wb_ptr (wb_copy b bs) = wb_ptr b + length bs"
  using assms by (auto simp: wb_ok_def wb_copy_def bytes_of_def add.assoc)

lemma wb_push_bytes:
  "wb_ok b \<Longrightarrow> wb_ok (wb_push b bs) \<and> bytes_of (wb_push b bs) = bytes_of b @ map Some bs"
proof (induction b bs rule: wb_push.induct)
  case (1 b buf)
  define b1 where "b1 = (if wb_ptr b = BLOCK_SIZE then wb_next b else b)"
  have b1: "wb_ok b1" "bytes_of b1 = bytes_of b" "wb_ptr b1 < BLOCK_SIZE"
    using 1(2) wb_next_ok[of b] by (auto simp: b1_def wb_ok_def BLOCK_SIZE_def)
  show ?case
  proof (cases "wb_ptr b1 + length buf \<le> BLOCK_SIZE")
    case True
    with wb_copy_ok[OF b1(1) True] b1(2) show ?thesis
      by (subst (1 2) wb_push.simps) (simp add: b1_def[symmetric])
  next
    case False
    let ?copy = "BLOCK_SIZE - wb_ptr b1"
    have "wb_ptr b1 + length (take ?copy buf) \<le> BLOCK_SIZE" using False b1(3) by auto
    note c = wb_copy_ok[OF b1(1) this]
    have "wb_push b buf = wb_push (wb_copy b1 (take ?copy buf)) (drop ?copy buf)"
      using False b1(3) by (subst wb_push.simps) (simp add: b1_def[symmetric] Let_def)
    moreover note 1(1)[OF b1_def False b1(3) refl c(1)]
    moreover have "map Some (take ?copy buf) @ map Some (drop ?copy buf) = map Some buf"
      by (metis append_take_drop_id map_append)
    ultimately show ?thesis using c(2) b1(2) by simp
  qed
qed

lemma seri_loop_chain:
  assumes "list_all (\<lambda>x. length x = BLOCK_SIZE) bs" "length buf = BLOCK_SIZE" "p \<le> BLOCK_SIZE"
  shows "seri_loop (bs @ [buf]) (int (BLOCK_SIZE * length bs + p)) = Some (concat bs @ take p buf)"
  using assms(1)
proof (induction bs)
  case Nil
  show ?case
  proof (cases "p = BLOCK_SIZE")
    case True
    have "seri_loop [] 0 = Some []" by (subst seri_loop.simps) simp
    with True assms(2) show ?thesis by (subst seri_loop.simps) (simp add: BLOCK_SIZE_def)
  next
    case False
    with assms(3) show ?thesis by (subst seri_loop.simps) auto
  qed
next
  case (Cons b bs)
  have "int (BLOCK_SIZE * length (b # bs) + p) - int BLOCK_SIZE = int (BLOCK_SIZE * length bs + p)" by simp
  with Cons show ?case by (subst seri_loop.simps) (auto simp: BLOCK_SIZE_def)
qed

lemma length_bytes_of: "wb_ok b \<Longrightarrow> length (bytes_of b) = BLOCK_SIZE * length (wb_done b) + wb_ptr b"
proof -
  assume b: "wb_ok b"
  have "list_all (\<lambda>x. length x = BLOCK_SIZE) bs \<Longrightarrow> length (concat bs) = BLOCK_SIZE * length bs" for bs :: "u8 option list list"
    by (induction bs) simp_all
  with b show ?thesis by (simp add: wb_ok_def bytes_of_def del: length_concat)
qed

lemma wb_len_bytes: "wb_ok b \<Longrightarrow> wb_len b = wrap32 (int (length (bytes_of b)))"
  by (subst length_bytes_of) (simp_all add: wb_ok_def)

lemma seri_bytes:
  assumes "wb_ok b"
  shows "length (bytes_of b) < 2 ^ 31 \<Longrightarrow> seri (wb_done b @ [wb_buf b]) (wb_len b) = Some (bytes_of b)"
    and "2 ^ 31 \<le> length (bytes_of b) \<Longrightarrow> length (bytes_of b) < 2 ^ 32 \<Longrightarrow> seri (wb_done b @ [wb_buf b]) (wb_len b) = None"
proof -
  assume "length (bytes_of b) < 2 ^ 31"
  then have "wb_len b = int (length (bytes_of b))"
    using wb_len_bytes[OF assms] by (subst wrap32_id[symmetric]) simp_all
  then have "\<not> wb_len b < 0" and "wb_len b = int (BLOCK_SIZE * length (wb_done b) + wb_ptr b)"
    using length_bytes_of[OF assms] by (linarith, simp)
  moreover from seri_loop_chain[of "wb_done b" "wb_buf b" "wb_ptr b"] assms
  have "seri_loop (wb_done b @ [wb_buf b]) (int (BLOCK_SIZE * length (wb_done b) + wb_ptr b)) = Some (bytes_of b)"
    by (simp add: wb_ok_def bytes_of_def)
  ultimately show "seri (wb_done b @ [wb_buf b]) (wb_len b) = Some (bytes_of b)" by (simp only: seri_def if_False)
next
  assume "2 ^ 31 \<le> length (bytes_of b)" "length (bytes_of b) < 2 ^ 32"
  then show "seri (wb_done b @ [wb_buf b]) (wb_len b) = None"
    using wb_len_bytes[OF assms] wrap32_huge[of "int (length (bytes_of b))"] by (simp add: seri_def)
qed

section \<open>Reading back what was written\<close>

definition rb_ok :: "read_block \<Rightarrow> bool" where
  [inv_defs]: "rb_ok rb \<longleftrightarrow> 0 \<le> rb_ptr rb \<and> 0 \<le> rb_len rb \<and> rb_ptr rb + rb_len rb \<le> int (length (rb_buffer rb))"

definition rb_at :: "read_block \<Rightarrow> u8 list \<Rightarrow> bool" where
  "rb_at rb bs \<longleftrightarrow> rb_ok rb \<and> rb_ptr rb + rb_len rb = int (length (rb_buffer rb)) \<and> drop (nat (rb_ptr rb)) (rb_buffer rb) = bs"

definition adv :: "read_block \<Rightarrow> nat \<Rightarrow> read_block" where
  "adv rb k = rb\<lparr>rb_ptr := rb_ptr rb + int k, rb_len := rb_len rb - int k\<rparr>"

lemma adv_0 [simp]: "adv rb 0 = rb" and adv_adv [simp]: "adv (adv rb j) k = adv rb (j + k)"
  by (simp_all add: adv_def)

lemma rb_at_len: "rb_at rb bs \<Longrightarrow> rb_len rb = int (length bs)"
  by (auto simp: rb_at_def rb_ok_def)

lemma rb_at_adv: "rb_at rb (e @ rest) \<Longrightarrow> rb_at (adv rb (length e)) rest"
proof -
  assume a: "rb_at rb (e @ rest)"
  have "nat (rb_ptr rb + int (length e)) = length e + nat (rb_ptr rb)" using a by (simp add: rb_at_def rb_ok_def nat_add_distrib)
  then have "drop (nat (rb_ptr rb + int (length e))) (rb_buffer rb) = rest"
    using a by (simp add: rb_at_def drop_drop[symmetric])
  with a rb_at_len[OF a] show ?thesis by (auto simp: rb_at_def rb_ok_def adv_def)
qed

lemma rb_bytes_at:
  assumes "rb_at rb (e @ rest)" "n = length e"
  shows "rb_bytes rb n = Ret (e, adv rb n)"
proof -
  have l: "rb_len rb = int (length e) + int (length rest)" using rb_at_len[OF assms(1)] by simp
  have p: "0 \<le> rb_ptr rb" "rb_ptr rb + int n \<le> int (length (rb_buffer rb))"
    using assms l by (auto simp: rb_at_def rb_ok_def)
  have "take n (drop (nat (rb_ptr rb)) (rb_buffer rb)) = e"
    using assms by (simp add: rb_at_def)
  with l p assms(2) show ?thesis by (simp add: rb_bytes_def rb_read_def adv_def)
qed

lemma rb_bytes_ok:
  assumes "rb_ok rb"
  shows "rb_bytes rb n \<noteq> Bad" "rb_bytes rb n = Ret (bs, rb') \<Longrightarrow> rb_ok rb' \<and> rb_len rb' = rb_len rb - int n \<and> length bs = n"
  using assms by (auto simp: rb_bytes_def rb_read_def rb_ok_def split: if_splits)

section \<open>The bytes of a value\<close>

text \<open>The format as a function of the value, without the block chain.\<close>

definition enc_int :: "int \<Rightarrow> u8 list" where
  "enc_int v =
     (if v = 0 then [2]
      else if v < - (2 ^ 31) \<or> 2 ^ 31 \<le> v then 50 # le_bytes 8 (of_signed 64 v)
      else if v < 0 \<or> 0x10000 \<le> v then 34 # le_bytes 4 (of_signed 32 v)
      else if v < 0x100 then 10 # le_bytes 1 (nat v)
      else 18 # le_bytes 2 (nat v))"

definition enc_str :: "u8 list \<Rightarrow> u8 list" where
  "enc_str s =
     (if length s < 32 then of_nat (4 + 8 * length s) # s
      else if length s < 0x10000 then 21 # le_bytes 2 (length s) @ s
      else 37 # le_bytes 4 (length s) @ s)"

definition enc_head :: "nat \<Rightarrow> u8 list" where
  "enc_head n = (if n \<ge> 31 then 254 # enc_int (int n) else [of_nat (6 + 8 * n)])"

fun enc :: "lua_val \<Rightarrow> u8 list" where
  "enc LNil = [0]"
| "enc (LBool x) = [if x then 9 else 1]"
| "enc (LInt v) = enc_int v"
| "enc (LReal x) = 66 # le_bytes 8 (unat x)"
| "enc (LStr s) = enc_str s"
| "enc (LPtr x) = 3 # le_bytes 8 (unat x)"
| "enc (LTab es ps) = enc_head (length es) @ concat (map enc es)
     @ concat (map (\<lambda>(k, v). if in_array (length es) k then [] else enc k @ enc v) ps) @ [0]"
| "enc (LMeta ps) = 6 # concat (map (\<lambda>(k, v). enc k @ enc v) ps) @ [0]"
| "enc LOther = []"

text \<open>The values that \<open>pack_one\<close> accepts at a depth.\<close>

fun packable :: "nat \<Rightarrow> lua_val \<Rightarrow> bool" where
  "packable d (LTab es ps) \<longleftrightarrow> d \<le> MAX_DEPTH \<and> list_all (packable (d + 1)) es
     \<and> list_all (\<lambda>(k, v). in_array (length es) k \<or> packable (d + 1) k \<and> packable (d + 1) v) ps"
| "packable d (LMeta ps) \<longleftrightarrow> d \<le> MAX_DEPTH \<and> list_all (\<lambda>(k, v). packable (d + 1) k \<and> packable (d + 1) v) ps"
| "packable d LOther \<longleftrightarrow> False"
| "packable d _ \<longleftrightarrow> d \<le> MAX_DEPTH"

text \<open>The sizes for which the \<open>int\<close> lengths of the code do not overflow.\<close>

fun small :: "lua_val \<Rightarrow> bool" where
  "small (LStr s) \<longleftrightarrow> length s < 2 ^ 31"
| "small (LTab es ps) \<longleftrightarrow> length es < 2 ^ 31 \<and> list_all small es \<and> list_all (\<lambda>(k, v). small k \<and> small v) ps"
| "small (LMeta ps) \<longleftrightarrow> list_all (\<lambda>(k, v). small k \<and> small v) ps"
| "small _ \<longleftrightarrow> True"

lemma in_array_0 [simp]: "\<not> in_array 0 k"
  by (simp add: in_array_def split: lua_val.split)

lemma combine_type: "t < 8 \<Longrightarrow> c < 32 \<Longrightarrow> COMBINE_TYPE t (int c) = of_nat (t + 8 * c)"
proof -
  assume "t < 8" "c < 32"
  have "(of_nat t :: u8) AND push_bit 3 (of_nat c) = 0"
  proof (rule bit_eqI)
    fix n
    show "bit ((of_nat t :: u8) AND push_bit 3 (of_nat c)) n = bit (0 :: u8) n"
    proof (cases "n < 3")
      case False
      then have "t < 2 ^ n" using \<open>t < 8\<close> power_increasing[of 3 n "2 :: nat"] by simp
      then have "\<not> bit t n" by (simp add: bit_iff_odd)
      then show ?thesis by (simp add: bit_simps)
    qed (simp add: bit_simps)
  qed
  then have "(of_nat t :: u8) OR push_bit 3 (of_nat c) = of_nat t + push_bit 3 (of_nat c)"
    by (simp add: disjunctive_add_eq_or)
  then show ?thesis by (simp add: COMBINE_TYPE_def push_bit_eq_mult mult.commute)
qed

lemma wb_push_ok:
  assumes "wb_ok b"
  shows "wb_ok (wb_push b bs)" "bytes_of (wb_push b bs) = bytes_of b @ map Some bs"
  using wb_push_bytes[OF assms] by auto

text \<open>The writer of a scalar appends its bytes.\<close>

definition appends :: "(write_block \<Rightarrow> write_block) \<Rightarrow> u8 list \<Rightarrow> bool" where
  "appends f e \<longleftrightarrow> (\<forall>b. wb_ok b \<longrightarrow> wb_ok (f b) \<and> bytes_of (f b) = bytes_of b @ map Some e)"

lemma appends_push [intro]: "e = bs \<Longrightarrow> appends (\<lambda>b. wb_push b bs) e"
  by (simp add: appends_def wb_push_ok)

lemma appends_comp: "appends f e1 \<Longrightarrow> appends g e2 \<Longrightarrow> appends (\<lambda>b. g (f b)) (e1 @ e2)"
  by (simp add: appends_def)

lemma appends_push2: "e = a @ c \<Longrightarrow> appends (\<lambda>b. wb_push (wb_push b a) c) e"
  using appends_comp[OF appends_push[OF refl] appends_push[OF refl], of a c] by simp

lemma combine_int [simp]: "t < 8 \<Longrightarrow> c < 32 \<Longrightarrow> COMBINE_TYPE t (int c) = of_nat (t + 8 * c)"
  by (rule combine_type)

lemma combine_numeral [simp]:
  "t < 8 \<Longrightarrow> numeral k < (32 :: nat) \<Longrightarrow> COMBINE_TYPE t (numeral k) = of_nat (t + 8 * numeral k)"
  "t < 8 \<Longrightarrow> COMBINE_TYPE t 1 = of_nat (t + 8)" "t < 8 \<Longrightarrow> COMBINE_TYPE t 0 = of_nat t"
  using combine_type[of t "numeral k"] combine_type[of t 1] combine_type[of t 0] by simp_all

lemma int32_iff: "v = to_signed 32 (of_signed 32 v) \<longleftrightarrow> - (2 ^ 31) \<le> v \<and> v < 2 ^ 31"
proof
  assume e: "v = to_signed 32 (of_signed 32 v)"
  have "of_signed 32 v < 2 ^ 32" by (simp add: of_signed_def nat_less_iff)
  then have "- (2 ^ 31) \<le> to_signed 32 (of_signed 32 v) \<and> to_signed 32 (of_signed 32 v) < 2 ^ 31"
    by (auto simp: to_signed_def)
  with e show "- (2 ^ 31) \<le> v \<and> v < 2 ^ 31" by simp
next
  assume "- (2 ^ 31) \<le> v \<and> v < 2 ^ 31"
  then show "v = to_signed 32 (of_signed 32 v)" using to_of_signed[of 32 v] by simp
qed

lemma of_signed_pos: "0 \<le> v \<Longrightarrow> v < 2 ^ k \<Longrightarrow> of_signed k v = nat v"
  by (simp add: of_signed_def)

lemma appends_integer: "appends (\<lambda>b. wb_integer b v) (enc_int v)"
proof -
  have q: "v \<noteq> to_signed 32 (of_signed 32 v) \<longleftrightarrow> v < - (2 ^ 31) \<or> 2 ^ 31 \<le> v"
    using int32_iff[of v] by auto
  consider "v = 0" | "v < - (2 ^ 31) \<or> 2 ^ 31 \<le> v" | "- (2 ^ 31) \<le> v" "v < 0" | "0 < v" "v < 0x100"
    | "0x100 \<le> v" "v < 0x10000" | "0x10000 \<le> v" "v < 2 ^ 31" by linarith
  then show ?thesis
  proof cases
    case 1 then show ?thesis by (auto simp: wb_integer_def enc_int_def cdefs)
  next
    case 2
    then have "wb_integer b v = wb_push (wb_push b [50]) (le_bytes 8 (of_signed 64 v))" for b
      using q by (auto simp: wb_integer_def cdefs)
    moreover have "enc_int v = 50 # le_bytes 8 (of_signed 64 v)" using 2 by (auto simp: enc_int_def)
    ultimately show ?thesis by (simp add: appends_push2)
  next
    case 3
    then have "wb_integer b v = wb_push (wb_push b [34]) (le_bytes 4 (of_signed 32 v))" for b
      using q by (auto simp: wb_integer_def cdefs)
    with 3 show ?thesis by (simp add: appends_push2 enc_int_def)
  next
    case 4
    then have "wb_integer b v = wb_push (wb_push b [10]) (le_bytes 1 (nat v))" for b
      using q by (auto simp: wb_integer_def cdefs of_signed_pos)
    with 4 show ?thesis by (simp add: appends_push2 enc_int_def)
  next
    case 5
    then have "wb_integer b v = wb_push (wb_push b [18]) (le_bytes 2 (nat v))" for b
      using q by (auto simp: wb_integer_def cdefs of_signed_pos)
    with 5 show ?thesis by (simp add: appends_push2 enc_int_def)
  next
    case 6
    then have "wb_integer b v = wb_push (wb_push b [34]) (le_bytes 4 (of_signed 32 v))" for b
      using q by (auto simp: wb_integer_def cdefs)
    with 6 show ?thesis by (simp add: appends_push2 enc_int_def)
  qed
qed

lemma appends_string:
  assumes "length s < 2 ^ 31"
  shows "appends (\<lambda>b. wb_string b s) (enc_str s)"
proof -
  have l: "to_signed 32 (of_signed 32 (int (length s))) = int (length s)"
    using int32_iff[of "int (length s)"] assms by auto
  have long: "appends (\<lambda>b. wb_push (wb_push (wb_push b [c]) n) s) (c # n @ s)" for c n
    using appends_comp[OF appends_push2[OF refl] appends_push[OF refl], of "[c]" n s] by simp
  consider "s = []" | "s \<noteq> []" "length s < 32" | "32 \<le> length s" "length s < 0x10000" | "0x10000 \<le> length s" by linarith
  then show ?thesis
  proof cases
    case 1 then show ?thesis by (auto simp: wb_string_def enc_str_def to_signed_def of_signed_def cdefs)
  next
    case 2 then show ?thesis by (simp add: wb_string_def l enc_str_def cdefs appends_push2)
  next
    case 3 then show ?thesis using long by (simp add: wb_string_def l enc_str_def cdefs)
  next
    case 4 then show ?thesis using long by (simp add: wb_string_def l enc_str_def cdefs)
  qed
qed

lemma appends_table_head: "appends (\<lambda>b. wb_table_head b n) (enc_head n)"
proof (cases "n \<ge> 31")
  case True
  with appends_comp[OF appends_push[OF refl] appends_integer, of "[254]" "int n"] show ?thesis
    by (simp add: wb_table_head_def enc_head_def cdefs)
qed (auto simp: wb_table_head_def enc_head_def cdefs)

text \<open>\<open>packs p e b r\<close>: writing on \<open>b\<close> with result \<open>r\<close> appended \<open>e\<close>, or raised an error when \<open>p\<close> is false.\<close>

definition packs :: "bool \<Rightarrow> u8 list \<Rightarrow> write_block \<Rightarrow> write_block lr \<Rightarrow> bool" where
  "packs p e b r \<longleftrightarrow> (if p then \<exists>b'. r = Ret b' \<and> wb_ok b' \<and> bytes_of b' = bytes_of b @ map Some e else r = Raise)"

lemma packs_Ret: "appends f e \<Longrightarrow> wb_ok b \<Longrightarrow> packs True e b (Ret (f b))"
  by (simp add: packs_def appends_def)

lemma packs_bind:
  assumes "packs p e1 b m" "\<And>b'. m = Ret b' \<Longrightarrow> wb_ok b' \<Longrightarrow> packs q e2 b' (f b')" "e = e1 @ e2"
  shows "packs (p \<and> q) e b (lbind m f)"
  using assms by (fastforce simp: packs_def split: if_splits)

lemma packs_after:
  assumes "appends g e1" "wb_ok b" "packs q e2 (g b) r" "e = e1 @ e2"
  shows "packs q e b r"
  using assms by (auto simp: packs_def appends_def)

lemma appends_nil: "appends wb_nil [0]"
  using appends_push[of "[0]" "[0]"] by (simp add: wb_nil_def[abs_def] cdefs)

lemma pack_scalar:
  assumes "wb_ok b" "small v" "d \<le> MAX_DEPTH" "case v of LTab _ _ \<Rightarrow> False | LMeta _ \<Rightarrow> False | LOther \<Rightarrow> False | _ \<Rightarrow> True"
  shows "packs True (enc v) b (pack_one d v b)"
proof (cases v)
  case LNil
  then show ?thesis using packs_Ret[OF appends_nil assms(1)] assms(3) by (simp add: pack_one.simps)
next
  case (LBool x)
  have "appends (\<lambda>b. wb_boolean b x) (enc v)" using LBool by (auto simp: wb_boolean_def cdefs)
  from packs_Ret[OF this assms(1)] LBool assms(3) show ?thesis by (simp add: pack_one.simps)
next
  case (LInt x)
  from packs_Ret[OF appends_integer assms(1), of x] LInt assms(3) show ?thesis by (simp add: pack_one.simps)
next
  case (LReal x)
  have "appends (\<lambda>b. wb_real b x) (enc v)" using LReal by (simp add: wb_real_def cdefs appends_push2)
  from packs_Ret[OF this assms(1)] LReal assms(3) show ?thesis by (simp add: pack_one.simps)
next
  case (LStr x)
  with packs_Ret[OF appends_string assms(1), of x] assms(2,3) show ?thesis by (simp add: pack_one.simps)
next
  case (LPtr x)
  have "appends (\<lambda>b. wb_pointer b x) (enc v)" using LPtr by (simp add: wb_pointer_def cdefs appends_push2)
  from packs_Ret[OF this assms(1)] LPtr assms(3) show ?thesis by (simp add: pack_one.simps)
qed (use assms(4) in auto)

lemma pack_spec:
  "wb_ok b \<Longrightarrow> small v \<Longrightarrow> packs (packable d v) (enc v) b (pack_one d v b)"
  "wb_ok b \<Longrightarrow> list_all small vs \<Longrightarrow> packs (list_all (packable d) vs) (concat (map enc vs)) b (pack_elems d vs b)"
  "wb_ok b \<Longrightarrow> list_all (\<lambda>(k, v). small k \<and> small v) ps \<Longrightarrow>
     packs (list_all (\<lambda>(k, v). in_array n k \<or> packable d k \<and> packable d v) ps)
       (concat (map (\<lambda>(k, v). if in_array n k then [] else enc k @ enc v) ps) @ [0]) b (pack_pairs d n ps b)"
proof (induction d v b and d vs b and d n ps b rule: pack_one_pack_elems_pack_pairs.induct)
  case (1 d v b)
  show ?case
  proof (cases "d > MAX_DEPTH")
    case True
    then have "\<not> packable d v" by (cases v) auto
    with True show ?thesis by (simp add: packs_def pack_one.simps)
  next
    case False
    then have d: "d \<le> MAX_DEPTH" by simp
    show ?thesis
    proof (cases v)
      case (LTab es ps)
      have h: "wb_ok (wb_table_head b (length es))" using appends_table_head 1(4) by (simp add: appends_def)
      have "packs (list_all (packable (d + 1)) es \<and>
            list_all (\<lambda>(k, v). in_array (length es) k \<or> packable (d + 1) k \<and> packable (d + 1) v) ps)
          (concat (map enc es) @ concat (map (\<lambda>(k, v). if in_array (length es) k then [] else enc k @ enc v) ps) @ [0])
          (wb_table_head b (length es)) (pack_one d v b)"
        unfolding pack_one.simps[of d v] using False LTab 1(5) 1(1)[OF False LTab h] 1(2)[OF False LTab]
        by (auto intro!: packs_bind)
      from packs_after[OF appends_table_head 1(4) this refl] d LTab show ?thesis by simp
    next
      case (LMeta ps)
      have a: "appends (\<lambda>b. wb_push b [COMBINE_TYPE TYPE_TABLE 0]) [6]" by (auto simp: cdefs)
      then have "wb_ok (wb_push b [COMBINE_TYPE TYPE_TABLE 0])" using 1(4) by (simp add: appends_def)
      from 1(3)[OF False LMeta this] 1(5) LMeta
      have "packs (packable d v) (concat (map (\<lambda>(k, v). enc k @ enc v) ps) @ [0])
        (wb_push b [COMBINE_TYPE TYPE_TABLE 0]) (pack_one d v b)" using d by (simp add: pack_one.simps)
      from packs_after[OF a 1(4) this] LMeta show ?thesis by simp
    next
      case LOther
      with d show ?thesis by (simp add: packs_def pack_one.simps)
    qed (use pack_scalar[OF 1(4,5) d] d in auto)
  qed
next
  case (2 d b)
  then show ?case by (simp add: packs_def)
next
  case (3 d v vs b)
  then show ?case
    by (auto intro!: packs_bind)
next
  case (4 d n b)
  then show ?case using packs_Ret[OF appends_nil] by simp
next
  case (5 d n k v ps b)
  show ?case
  proof (cases "in_array n k")
    case True
    with 5 show ?thesis by simp
  next
    case False
    have "packs (packable d k \<and> packable d v \<and> list_all (\<lambda>(k, v). in_array n k \<or> packable d k \<and> packable d v) ps)
        (enc k @ enc v @ concat (map (\<lambda>(k, v). if in_array n k then [] else enc k @ enc v) ps) @ [0]) b
        (pack_pairs d n ((k, v) # ps) b)"
      using 5 False by (auto intro!: packs_bind)
    with False show ?thesis by simp
  qed
qed

section \<open>Unpacking the bytes of a value\<close>

fun restorable :: "lua_val \<Rightarrow> bool" where
  "restorable (LInt v) \<longleftrightarrow> - (2 ^ 63) \<le> v \<and> v < 2 ^ 63"
| "restorable (LStr s) \<longleftrightarrow> length s < 2 ^ 31"
| "restorable (LTab es ps) \<longleftrightarrow> length es < 2 ^ 31 \<and> list_all restorable es
     \<and> list_all (\<lambda>(k, v). k \<noteq> LNil \<and> \<not> is_nan k \<and> restorable k \<and> restorable v) ps"
| "restorable (LMeta ps) \<longleftrightarrow> list_all (\<lambda>(k, v). k \<noteq> LNil \<and> \<not> is_nan k \<and> restorable k \<and> restorable v) ps"
| "restorable LOther \<longleftrightarrow> False"
| "restorable _ \<longleftrightarrow> True"

text \<open>The value as it is rebuilt: the pairs that repeat the array part are given once, a table with
  a \<open>__pairs\<close> metamethod becomes a plain one.\<close>

fun norm :: "lua_val \<Rightarrow> lua_val" where
  "norm (LTab es ps) = LTab (map norm es) (concat (map (\<lambda>(k, v). if in_array (length es) k then [] else [(norm k, norm v)]) ps))"
| "norm (LMeta ps) = LTab [] (map (\<lambda>(k, v). (norm k, norm v)) ps)"
| "norm v = v"

lemma norm_key: "norm k = LNil \<longleftrightarrow> k = LNil" "is_nan (norm k) = is_nan k"
  by (cases k; simp add: is_nan_def)+

lemma rb_at_Cons:
  assumes "rb_at rb (c # bs)"
  shows "rb_bytes rb 1 = Ret ([c], adv rb 1)" "rb_at (adv rb 1) bs"
  using rb_bytes_at[of rb "[c]" bs 1] rb_at_adv[of rb "[c]" bs] assms by simp_all

lemma get_integer_enc:
  assumes "- (2 ^ 63) \<le> v" "v < 2 ^ 63"
  obtains c data where "enc_int v = c # data" "unat c mod 8 = 2" "unat c div 8 \<noteq> 8"
    "\<And>rb rest. rb_at rb (data @ rest) \<Longrightarrow> get_integer rb (unat c div 8) = Ret (v, adv rb (length data))"
proof -
  consider "v = 0" | "v < - (2 ^ 31) \<or> 2 ^ 31 \<le> v" | "- (2 ^ 31) \<le> v" "v < 2 ^ 31" "v < 0 \<or> 0x10000 \<le> v"
    | "0 < v" "v < 0x100" | "0x100 \<le> v" "v < 0x10000" by linarith
  then show ?thesis
  proof cases
    case 1
    show ?thesis by (rule that[of 2 "[]"]) (simp_all add: enc_int_def get_integer_def cdefs 1)
  next
    case 2
    have "to_signed 64 (of_signed 64 v) = v" using assms by (intro to_of_signed) simp_all
    moreover have "of_signed 64 v < 256 ^ 8" by (simp add: of_signed_def nat_less_iff)
    ultimately show ?thesis using 2
      by (intro that[of 50 "le_bytes 8 (of_signed 64 v)"])
        (auto simp: enc_int_def get_integer_def cdefs le_val_bytes dest!: rb_bytes_at[where n = 8])
  next
    case 3
    have "to_signed 32 (of_signed 32 v) = v" using 3 by (intro to_of_signed) simp_all
    moreover have "of_signed 32 v < 256 ^ 4" by (simp add: of_signed_def nat_less_iff)
    ultimately show ?thesis using 3
      by (intro that[of 34 "le_bytes 4 (of_signed 32 v)"])
        (auto simp: enc_int_def get_integer_def cdefs le_val_bytes dest!: rb_bytes_at[where n = 4])
  next
    case 4
    then show ?thesis
      by (intro that[of 10 "le_bytes 1 (nat v)"])
        (auto simp: enc_int_def get_integer_def cdefs le_val_bytes dest!: rb_bytes_at[where n = 1])
  next
    case 5
    then show ?thesis
      by (intro that[of 18 "le_bytes 2 (nat v)"])
        (auto simp: enc_int_def get_integer_def cdefs le_val_bytes dest!: rb_bytes_at[where n = 2])
  qed
qed

lemma get_buffer_at: "rb_at rb (s @ rest) \<Longrightarrow> get_buffer rb (int (length s)) = Ret (s, adv rb (length s))"
  by (simp add: get_buffer_def rb_bytes_at)

definition reads :: "lua_val \<Rightarrow> u8 list \<Rightarrow> bool" where
  "reads v e \<longleftrightarrow> e \<noteq> [] \<and> (\<forall>rb rest n. rb_at rb (e @ rest) \<longrightarrow> 2 * length e \<le> n \<longrightarrow> unpack_one n rb = Ret (v, adv rb (length e)))"

lemma readsD: "reads v e \<Longrightarrow> rb_at rb (e @ rest) \<Longrightarrow> 2 * length e \<le> n \<Longrightarrow> unpack_one n rb = Ret (v, adv rb (length e))"
  unfolding reads_def by blast

lemma reads_scalar:
  assumes "unat c mod 8 \<noteq> 6"
    "\<And>rb rest. rb_at rb (data @ rest) \<Longrightarrow> push_scalar rb (unat c mod 8) (unat c div 8) = Ret (v, adv rb (length data))"
  shows "reads v (c # data)"
  unfolding reads_def
proof (intro conjI allI impI)
  fix rb rest n
  assume a: "rb_at rb ((c # data) @ rest)" "2 * length (c # data) \<le> n"
  then obtain m where n: "n = Suc m" by (cases n) auto
  from a(1) have b: "rb_at rb (c # data @ rest)" by simp
  note r = rb_at_Cons[OF b]
  show "unpack_one n rb = Ret (v, adv rb (length (c # data)))"
    using assms(1) assms(2)[OF r(2)] r(1) by (simp add: n TYPE_TABLE_def Let_def)
qed simp

lemma reads_str:
  assumes "length s < 2 ^ 31"
  shows "reads (LStr s) (enc_str s)"
proof -
  consider "length s < 32" | "32 \<le> length s" "length s < 0x10000" | "0x10000 \<le> length s" by linarith
  then show ?thesis
  proof cases
    case 1
    then have u: "unat (of_nat (4 + 8 * length s) :: u8) = 4 + 8 * length s" by (subst unat_of_nat) simp
    have d: "(4 + 8 * length s) div 8 = length s" "(4 + 8 * length s) mod 8 = 4" by presburger+
    have "enc_str s = of_nat (4 + 8 * length s) # s" using 1 by (simp add: enc_str_def)
    then show ?thesis
      by (auto intro!: reads_scalar simp only: u d) (simp add: push_scalar_def cdefs get_buffer_at)
  next
    case 2
    have "push_scalar rb 5 2 = Ret (LStr s, adv rb (length (le_bytes 2 (length s) @ s)))"
      if "rb_at rb ((le_bytes 2 (length s) @ s) @ rest)" for rb rest
    proof -
      from that have a: "rb_at rb (le_bytes 2 (length s) @ s @ rest)" by simp
      show ?thesis using rb_bytes_at[OF a, of 2] get_buffer_at[of "adv rb 2" s rest] rb_at_adv[OF a] 2
        by (simp add: push_scalar_def cdefs le_val_bytes)
    qed
    with 2 show ?thesis by (auto intro!: reads_scalar simp: enc_str_def)
  next
    case 3
    have v: "length s mod 4294967296 = length s" "to_signed 32 (length s) = int (length s)"
      using assms by (simp_all add: to_signed_def)
    have "push_scalar rb 5 4 = Ret (LStr s, adv rb (length (le_bytes 4 (length s) @ s)))"
      if "rb_at rb ((le_bytes 4 (length s) @ s) @ rest)" for rb rest
    proof -
      from that have a: "rb_at rb (le_bytes 4 (length s) @ s @ rest)" by simp
      show ?thesis using rb_bytes_at[OF a, of 4] get_buffer_at[of "adv rb 4" s rest] rb_at_adv[OF a] 3
        by (simp add: push_scalar_def cdefs le_val_bytes v)
    qed
    with 3 show ?thesis by (auto intro!: reads_scalar simp: enc_str_def)
  qed
qed

lemma reads_list:
  assumes "\<And>v. v \<in> set vs \<Longrightarrow> reads (norm v) (enc v)"
    "rb_at rb (concat (map enc vs) @ rest)" "2 * length (concat (map enc vs)) + 1 \<le> n"
  shows "unpack_elems n (int (length vs)) rb = Ret (map norm vs, adv rb (length (concat (map enc vs))))"
  using assms
proof (induction vs arbitrary: rb n)
  case (Cons v vs)
  then obtain m where n: "n = Suc m" by (cases n) auto
  have v: "reads (norm v) (enc v)" using Cons.prems(1)[of v] by simp
  then obtain l where l: "length (enc v) = Suc l" by (cases "enc v") (auto simp: reads_def)
  have at: "rb_at rb (enc v @ concat (map enc vs) @ rest)" using Cons.prems(2) by simp
  have "unpack_one m rb = Ret (norm v, adv rb (length (enc v)))" using Cons.prems(3) n by (intro readsD[OF v at]) simp
  moreover have "unpack_elems m (int (length vs)) (adv rb (length (enc v))) =
      Ret (map norm vs, adv (adv rb (length (enc v))) (length (concat (map enc vs))))"
    using Cons.prems n l rb_at_adv[OF at] by (intro Cons.IH) auto
  ultimately show ?case by (simp add: n)
qed simp

abbreviation "pairs_bytes k ps \<equiv> concat (map (\<lambda>(key, v). if in_array k key then [] else enc key @ enc v) ps)"
abbreviation "pairs_norm k ps \<equiv> concat (map (\<lambda>(key, v). if in_array k key then [] else [(norm key, norm v)]) ps)"

lemma reads_pairs:
  assumes "\<And>key v. (key, v) \<in> set ps \<Longrightarrow> reads (norm key) (enc key) \<and> reads (norm v) (enc v) \<and> key \<noteq> LNil \<and> \<not> is_nan key"
    "rb_at rb (pairs_bytes k ps @ 0 # rest)" "2 * length (pairs_bytes k ps) + 3 \<le> n"
  shows "unpack_pairs n rb = Ret (pairs_norm k ps, adv rb (length (pairs_bytes k ps) + 1))"
  using assms
proof (induction ps arbitrary: rb n)
  case Nil
  then obtain m where n: "n = Suc m" by (cases n) auto
  have "reads LNil [0]" by (rule reads_scalar) (simp_all add: push_scalar_def cdefs)
  then have "unpack_one m rb = Ret (LNil, adv rb 1)" using readsD[of LNil "[0]" rb rest m] Nil n by simp
  then show ?case by (simp add: n)
next
  case (Cons p ps)
  obtain key v where p: "p = (key, v)" by fastforce
  show ?case
  proof (cases "in_array k key")
    case True
    have "unpack_pairs n rb = Ret (pairs_norm k ps, adv rb (length (pairs_bytes k ps) + 1))"
      by (rule Cons.IH) (use Cons.prems p True in auto)
    with p True show ?thesis by simp
  next
    case False
    obtain m where n: "n = Suc m" using Cons.prems(3) by (cases n) auto
    have kv: "reads (norm key) (enc key)" "reads (norm v) (enc v)" "norm key \<noteq> LNil" "\<not> is_nan (norm key)"
      using Cons.prems(1)[of key v] p by (simp_all add: norm_key)
    then obtain l where l: "length (enc key) = Suc l" by (cases "enc key") (auto simp: reads_def)
    have at: "rb_at rb (enc key @ enc v @ pairs_bytes k ps @ 0 # rest)" using Cons.prems(2) p False by simp
    note at' = rb_at_adv[OF at]
    have "unpack_one m rb = Ret (norm key, adv rb (length (enc key)))"
      using Cons.prems(3) n p False by (intro readsD[OF kv(1) at]) simp
    moreover have "unpack_one m (adv rb (length (enc key))) = Ret (norm v, adv (adv rb (length (enc key))) (length (enc v)))"
      using Cons.prems(3) n p False by (intro readsD[OF kv(2) at']) simp
    moreover have "unpack_pairs m (adv (adv rb (length (enc key))) (length (enc v))) =
        Ret (pairs_norm k ps, adv (adv (adv rb (length (enc key))) (length (enc v))) (length (pairs_bytes k ps) + 1))"
      using Cons.prems n p l False rb_at_adv[OF at'] by (intro Cons.IH) auto
    ultimately show ?thesis using kv(3,4) False by (simp add: n p add.assoc)
  qed
qed

lemma table_size_enc:
  assumes "n < 2 ^ 31"
  obtains c data where "enc_head n = c # data" "unat c mod 8 = 6"
    "\<And>rb rest. rb_at rb (data @ rest) \<Longrightarrow> table_size rb (unat c div 8) = Ret (int n, adv rb (length data))"
proof (cases "n \<ge> 31")
  case True
  obtain c data where cd: "enc_int (int n) = c # data" "unat c mod 8 = 2" "unat c div 8 \<noteq> 8"
    "\<And>rb rest. rb_at rb (data @ rest) \<Longrightarrow> get_integer rb (unat c div 8) = Ret (int n, adv rb (length data))"
    using get_integer_enc[of "int n"] assms by auto
  have t: "to_signed 32 (of_signed 32 (int n)) = int n" using int32_iff[of "int n"] assms by auto
  have "table_size rb 31 = Ret (int n, adv rb (length (enc_int (int n))))" if a: "rb_at rb (enc_int (int n) @ rest)" for rb rest
  proof -
    from a have b: "rb_at rb (c # data @ rest)" by (simp add: cd(1))
    show ?thesis using rb_at_Cons(1)[OF b] cd(4)[OF rb_at_Cons(2)[OF b]] cd(1-3) t
      by (simp add: table_size_def cdefs Let_def)
  qed
  with True show ?thesis by (intro that[of 254 "enc_int (int n)"]) (auto simp: enc_head_def)
next
  case False
  then have u: "unat (of_nat (6 + 8 * n) :: u8) = 6 + 8 * n" by (subst unat_of_nat) simp
  have d: "(6 + 8 * n) div 8 = n" "(6 + 8 * n) mod 8 = 6" by presburger+
  show ?thesis
    by (rule that[of "of_nat (6 + 8 * n)" "[]"]; (simp only: u d)?) (use False in \<open>simp_all add: enc_head_def table_size_def cdefs\<close>)
qed

lemma reads_table:
  assumes "length es < 2 ^ 31" "\<And>v. v \<in> set es \<Longrightarrow> reads (norm v) (enc v)"
    "\<And>k v. (k, v) \<in> set ps \<Longrightarrow> reads (norm k) (enc k) \<and> reads (norm v) (enc v) \<and> k \<noteq> LNil \<and> \<not> is_nan k"
  shows "reads (norm (LTab es ps)) (enc (LTab es ps))"
  unfolding reads_def
proof (intro conjI allI impI)
  let ?es = "concat (map enc es)" and ?ps = "pairs_bytes (length es) ps"
  fix rb rest n
  assume a: "rb_at rb (enc (LTab es ps) @ rest)" "2 * length (enc (LTab es ps)) \<le> n"
  obtain c data where cd: "enc_head (length es) = c # data" "unat c mod 8 = 6"
    "\<And>rb rest. rb_at rb (data @ rest) \<Longrightarrow> table_size rb (unat c div 8) = Ret (int (length es), adv rb (length data))"
    using table_size_enc[OF assms(1)] by metis
  obtain m where n: "n = Suc m" using a(2) by (cases n) auto
  have at: "rb_at rb (c # data @ ?es @ ?ps @ 0 # rest)" using a(1) cd(1) by simp
  note at1 = rb_at_Cons(2)[OF at]
  note at2 = rb_at_adv[OF at1]
  note at3 = rb_at_adv[OF at2]
  have m: "2 * length ?es + 1 \<le> m" "2 * length ?ps + 3 \<le> m" using a(2) n cd(1) by auto
  show "unpack_one n rb = Ret (norm (LTab es ps), adv rb (length (enc (LTab es ps))))"
    using rb_at_Cons(1)[OF at] cd(1,2) cd(3)[OF at1] reads_list[OF assms(2) at2 m(1)] reads_pairs[OF assms(3) at3 m(2)]
    by (simp add: n TYPE_TABLE_def Let_def add.assoc add.commute add.left_commute)
qed simp

lemma norm_meta: "norm (LMeta ps) = norm (LTab [] ps)" "enc (LMeta ps) = enc (LTab [] ps)"
proof -
  have "concat (map (\<lambda>(k, v). [(norm k, norm v)]) ps) = map (\<lambda>(k, v). (norm k, norm v)) ps" by (induction ps) auto
  then show "norm (LMeta ps) = norm (LTab [] ps)" by simp
qed (simp add: enc_head_def)

lemma reads_enc: "restorable v \<Longrightarrow> reads (norm v) (enc v)"
proof (induction v)
  case LNil
  show ?case by (auto intro!: reads_scalar simp: push_scalar_def cdefs)
next
  case (LBool x)
  show ?case by (cases x) (auto intro!: reads_scalar simp: push_scalar_def cdefs)
next
  case (LInt v)
  then have "- (2 ^ 63) \<le> v" "v < 2 ^ 63" by simp_all
  from get_integer_enc[OF this] obtain c data where cd: "enc_int v = c # data" "unat c mod 8 = 2" "unat c div 8 \<noteq> 8"
    "\<And>rb rest. rb_at rb (data @ rest) \<Longrightarrow> get_integer rb (unat c div 8) = Ret (v, adv rb (length data))" by metis
  show ?case using cd(1-3) by (auto intro!: reads_scalar simp: push_scalar_def cdefs dest: cd(4))
next
  case (LReal x)
  have "unat x < 256 ^ 8" using unsigned_less[of x, where 'a = nat] by simp
  then show ?case by (auto intro!: reads_scalar simp: push_scalar_def get_real_def cdefs le_val_bytes dest!: rb_bytes_at[where n = 8])
next
  case (LStr s)
  then show ?case by (simp add: reads_str)
next
  case (LPtr x)
  have "unat x < 256 ^ 8" using unsigned_less[of x, where 'a = nat] by simp
  then show ?case by (auto intro!: reads_scalar simp: push_scalar_def get_pointer_def cdefs le_val_bytes dest!: rb_bytes_at[where n = 8])
next
  case (LTab es ps)
  have es: "reads (norm v) (enc v)" if "v \<in> set es" for v
    using LTab.IH(1)[OF that] LTab.prems that by (simp add: list_all_iff)
  have ps: "reads (norm k) (enc k) \<and> reads (norm v) (enc v) \<and> k \<noteq> LNil \<and> \<not> is_nan k" if "(k, v) \<in> set ps" for k v
    using LTab.IH(2)[OF that, of k] LTab.IH(3)[OF that, of v] LTab.prems that by (auto simp: list_all_iff)
  show ?case using reads_table[OF _ es ps] LTab.prems by (simp del: norm.simps enc.simps)
next
  case (LMeta ps)
  have ps: "reads (norm k) (enc k) \<and> reads (norm v) (enc v) \<and> k \<noteq> LNil \<and> \<not> is_nan k" if "(k, v) \<in> set ps" for k v
    using LMeta.IH(1)[OF that, of k] LMeta.IH(2)[OF that, of v] LMeta.prems that by (auto simp: list_all_iff)
  show ?case unfolding norm_meta using reads_table[of "[]" ps] ps by (simp del: norm.simps enc.simps)
qed simp_all

lemma reads_all:
  assumes "\<And>v. v \<in> set vs \<Longrightarrow> reads (norm v) (enc v)" "rb_at rb (concat (map enc vs))"
    "2 * length (concat (map enc vs)) + 1 \<le> n"
  shows "unpack_all n rb = Ret (map norm vs)"
  using assms
proof (induction vs arbitrary: rb n)
  case Nil
  then obtain m where "n = Suc m" by (cases n) auto
  with Nil rb_at_len[of rb "[]"] show ?case by simp
next
  case (Cons v vs)
  then obtain m where n: "n = Suc m" by (cases n) auto
  have v: "reads (norm v) (enc v)" using Cons.prems(1)[of v] by simp
  then obtain l where l: "length (enc v) = Suc l" by (cases "enc v") (auto simp: reads_def)
  have at: "rb_at rb (enc v @ concat (map enc vs))" using Cons.prems(2) by simp
  have "unpack_one m rb = Ret (norm v, adv rb (length (enc v)))" using Cons.prems(3) n by (intro readsD[OF v at]) simp
  moreover have "unpack_all m (adv rb (length (enc v))) = Ret (map norm vs)"
    using Cons.prems n l rb_at_adv[OF at] by (intro Cons.IH) auto
  ultimately show ?case using rb_at_len[OF at] l by (simp add: n)
qed

lemma restorable_small: "restorable v \<Longrightarrow> small v"
proof (induction v)
  case (LTab es ps)
  then show ?case by (fastforce simp: list_all_iff)
next
  case (LMeta ps)
  then show ?case by (fastforce simp: list_all_iff)
qed simp_all

section \<open>Unpacking any bytes\<close>

text \<open>\<open>safe k r rb\<close>: no violation, and what is returned has consumed at least \<open>k\<close> bytes.\<close>

definition safe :: "int \<Rightarrow> ('a \<times> read_block) lr \<Rightarrow> read_block \<Rightarrow> bool" where
  "safe k r rb \<longleftrightarrow> r \<noteq> Bad \<and> (\<forall>x rb'. r = Ret (x, rb') \<longrightarrow> rb_ok rb' \<and> rb_len rb' + k \<le> rb_len rb)"

lemma safe_Raise [simp]: "safe k Raise rb"
  by (simp add: safe_def)

lemma safe_Ret [simp]: "safe k (Ret (x, rb')) rb \<longleftrightarrow> rb_ok rb' \<and> rb_len rb' + k \<le> rb_len rb"
  by (auto simp: safe_def)

lemma safe_bind:
  assumes "safe k m rb" "\<And>x rb1. rb_ok rb1 \<Longrightarrow> rb_len rb1 + k \<le> rb_len rb \<Longrightarrow> safe (j - k) (f (x, rb1)) rb1"
  shows "safe j (lbind m f) rb"
  using assms by (cases m) (fastforce simp: safe_def)+

lemma safe_bytes: "rb_ok rb \<Longrightarrow> safe (int n) (rb_bytes rb n) rb"
  using rb_bytes_ok(1)[of rb n] rb_bytes_ok(2)[of rb n] by (fastforce simp: safe_def)

lemma safe_weaken: "safe k r rb \<Longrightarrow> j \<le> k \<Longrightarrow> safe j r rb"
  by (force simp: safe_def)

lemma safe_map: "safe k m rb \<Longrightarrow> safe k (lbind m (\<lambda>(x, rb1). Ret (g x, rb1))) rb"
  by (erule safe_bind) simp

lemma safe_read: "rb_ok rb \<Longrightarrow> safe 0 (lbind (rb_bytes rb n) (\<lambda>(bs, rb1). Ret (g bs, rb1))) rb"
  by (intro safe_map safe_weaken[OF safe_bytes]) auto

lemma safe_integer: "rb_ok rb \<Longrightarrow> safe 0 (get_integer rb cookie) rb"
  by (simp add: get_integer_def safe_read)

lemma safe_buffer: "rb_ok rb \<Longrightarrow> safe 0 (get_buffer rb len) rb"
  by (auto simp: get_buffer_def intro!: safe_weaken[OF safe_bytes])

lemma safe_long:
  assumes "rb_ok rb"
  shows "safe 0 (lbind (rb_bytes rb k) (\<lambda>(n, rb1). lbind (get_buffer rb1 (h n)) (\<lambda>(s, rb2). Ret (LStr s, rb2)))) rb"
proof (rule safe_bind[OF safe_weaken[OF safe_bytes[OF assms]]])
  show "safe (0 - 0) (case (x, rb1) of (n, rb1) \<Rightarrow> lbind (get_buffer rb1 (h n)) (\<lambda>(s, rb2). Ret (LStr s, rb2))) rb1"
    if "rb_ok rb1" for x rb1
    using safe_map[OF safe_buffer[OF that], where g = LStr] by simp
qed simp

lemma safe_scalar: "rb_ok rb \<Longrightarrow> safe 0 (push_scalar rb type cookie) rb"
  by (simp add: push_scalar_def get_real_def get_pointer_def safe_long safe_map safe_read safe_integer safe_buffer
      del: lbind_simps)

lemma safe_table_size: "rb_ok rb \<Longrightarrow> safe 0 (table_size rb n) rb"
  unfolding table_size_def
  by (auto intro!: safe_bind[OF safe_weaken[OF safe_bytes, where j = 0]] safe_map safe_integer simp: Let_def)

lemma unpack_safe:
  "rb_ok rb \<Longrightarrow> 2 * rb_len rb + 1 \<le> int n \<Longrightarrow> safe 1 (unpack_one n rb) rb"
  "rb_ok rb \<Longrightarrow> 2 * rb_len rb + 2 \<le> int n \<Longrightarrow> safe 0 (unpack_elems n sz rb) rb"
  "rb_ok rb \<Longrightarrow> 2 * rb_len rb + 2 \<le> int n \<Longrightarrow> safe 0 (unpack_pairs n rb) rb"
proof (induction n arbitrary: rb sz)
  case 0
  { case 1 then show ?case by (simp add: rb_ok_def) next
    case 2 then show ?case by (simp add: rb_ok_def) next
    case 3 then show ?case by (simp add: rb_ok_def) }
next
  case (Suc n)
  { case 1
    have s: "safe (1 - int 1) (let type = le_val t mod 8; cookie = le_val t div 8
       in if type = TYPE_TABLE then
            lbind (table_size rb1 cookie) (\<lambda>(sz, rb2).
              lbind (unpack_elems n sz rb2) (\<lambda>(vs, rb3).
                lbind (unpack_pairs n rb3) (\<lambda>(ps, rb4). Ret (LTab vs ps, rb4))))
          else push_scalar rb1 type cookie) rb1" if "rb_ok rb1" "rb_len rb1 + int 1 \<le> rb_len rb" for t rb1
      using that 1 by (auto intro!: safe_scalar safe_bind[OF safe_table_size] safe_bind[OF Suc.IH(2)] safe_map Suc.IH(3) simp: Let_def
          simp del: unpack_elems.simps)
    show ?case unfolding unpack_one.simps
      by (rule safe_bind[OF safe_bytes[OF 1(1), of 1]]) (simp only: prod.case s)
  next
    case 2
    then show ?case
      by (subst unpack_elems.simps)
        (auto intro!: safe_bind[OF Suc.IH(1)] safe_weaken[OF safe_map[OF Suc.IH(2)]] simp del: unpack_elems.simps)
  next
    case 3
    then show ?case by (auto intro!: safe_bind[OF Suc.IH(1)] safe_weaken[OF safe_map[OF Suc.IH(3)]] )
  }
qed

lemma unpack_all_safe: "rb_len rb < 1 \<or> rb_ok rb \<Longrightarrow> 2 * rb_len rb + 2 \<le> int n \<Longrightarrow> 0 < n \<Longrightarrow> unpack_all n rb \<noteq> Bad"
proof (induction n arbitrary: rb)
  case (Suc n)
  show ?case
  proof (cases "rb_len rb < 1")
    case False
    then have "safe 1 (unpack_one n rb) rb" using Suc.prems by (intro unpack_safe(1)) auto
    with False Suc show ?thesis by (fastforce simp: safe_def lbind_Bad)
  qed simp
qed simp

section \<open>Properties\<close>

text \<open>C23: packing the arguments produces the bytes of the format, in order and every one of them
  written, whatever the alignment of the values with the 128-byte blocks; it raises an error exactly
  when a value cannot be serialized or is nested too deeply.  (The bytes of values that can be serialized are less than \<open>2\<^sup>3\<^sup>1\<close> together:
  the length is an \<open>int\<close>.)\<close>

theorem seri_pack_format:
  assumes "list_all small args" "list_all (packable 0) args \<longrightarrow> length (concat (map enc args)) < 2 ^ 31"
  shows "luaseri_pack args =
    (if list_all (packable 0) args then Ret (map Some (concat (map enc args))) else Raise)"
  using pack_spec(2)[OF wb_ok_init assms(1), of 0] assms(2)
  by (auto simp: luaseri_pack_def packs_def seri_bytes(1) simp del: length_concat split: if_splits)

theorem seri_pack_format_witness:
  "luaseri_pack [LStr [72, 105], LTab [LInt 300, LBool True] [(LStr [], LInt (-1))]] =
     Ret (map Some [20, 72, 105, 22, 18, 44, 1, 9, 4, 34, 255, 255, 255, 255, 0]) \<and>
   luaseri_pack [LTab [LOther] []] = Raise"
proof -
  have "enc_int 300 = [18, 44, 1]" "enc_int (-1) = [34, 255, 255, 255, 255]"
    by (simp_all add: enc_int_def le_bytes_def of_signed_def upt_rec)
  then show ?thesis
    using seri_pack_format[of "[LStr [72, 105], LTab [LInt 300, LBool True] [(LStr [], LInt (-1))]]"]
      seri_pack_format[of "[LTab [LOther] []]"]
    by (simp add: enc_str_def enc_head_def MAX_DEPTH_def in_array_def)
qed

text \<open>From \<open>2\<^sup>3\<^sup>1\<close> bytes on the length is negative, and the allocation stops the process.\<close>

lemma seri_pack_overflow:
  assumes "list_all small args" "list_all (packable 0) args"
    and "2 ^ 31 \<le> length (concat (map enc args))" "length (concat (map enc args)) < 2 ^ 32"
  shows "luaseri_pack args = Bad"
  using pack_spec(2)[OF wb_ok_init assms(1), of 0] assms(2-)
  by (auto simp: luaseri_pack_def packs_def seri_bytes(2) simp del: length_concat)

text \<open>C22: what is packed is unpacked to the same values, for all integers, reals, booleans, strings,
  pointers and nested tables within the depth limit; a table comes back with its array part and
  its other pairs, each once.\<close>

theorem seri_roundtrip:
  assumes "list_all restorable args" "list_all (packable 0) args" "length (concat (map enc args)) < 2 ^ 31"
  shows "\<exists>bytes. luaseri_pack args = Ret (map Some bytes) \<and> luaseri_unpack (AString bytes) = Ret (map norm args)
    \<and> luaseri_unpack (APointer (Some bytes) (int (length bytes))) = Ret (map norm args)"
proof -
  let ?e = "concat (map enc args)"
  have sm: "list_all small args" using assms(1) restorable_small by (auto simp: list_all_iff)
  have "packs True ?e wb_init (pack_elems 0 args wb_init)" using pack_spec(2)[OF wb_ok_init sm, of 0] assms(2) by simp
  then have p: "luaseri_pack args = Ret (map Some ?e)" using assms(3)
    by (auto simp: luaseri_pack_def packs_def seri_bytes(1) simp del: length_concat)
  have l: "to_signed 32 (of_signed 32 (int (length ?e))) = int (length ?e)"
    using int32_iff[of "int (length ?e)"] assms(3) by auto
  have r: "reads (norm v) (enc v)" if "v \<in> set args" for v using assms(1) that by (auto simp: list_all_iff reads_enc)
  have nil: "args = []" if "?e = []"
  proof (cases args)
    case (Cons v vs)
    with r[of v] that show ?thesis by (simp add: reads_def)
  qed simp
  have "rb_at (rball_init ?e (int (length ?e))) ?e" by (simp add: rb_at_def rb_ok_def rball_init_def)
  from reads_all[OF r this, of "2 * length ?e + 4"]
  have "unpack_all (2 * length ?e + 4) (rball_init ?e (int (length ?e))) = Ret (map norm args)" by simp
  with nil have "luaseri_unpack (AString ?e) = Ret (map norm args)" "luaseri_unpack (APointer (Some ?e) (int (length ?e))) = Ret (map norm args)"
    by (auto simp: luaseri_unpack_def l simp del: length_concat length_map)
  with p show ?thesis by blast
qed

theorem seri_roundtrip_witness:
  "\<exists>bytes. luaseri_pack [LInt (-7), LTab [LTab [] [(LStr [120], LReal 0)]] [(LInt 1, LNil), (LBool True, LNil)]] = Ret (map Some bytes)
    \<and> luaseri_unpack (AString bytes) = Ret [LInt (-7), LTab [LTab [] [(LStr [120], LReal 0)]] [(LBool True, LNil)]]"
proof -
  let ?v = "[LInt (-7), LTab [LTab [] [(LStr [120], LReal 0)]] [(LInt 1, LNil), (LBool True, LNil)]]"
  have "length (concat (map enc ?v)) < 2 ^ 31" by (simp add: enc_int_def enc_head_def enc_str_def in_array_def)
  then show ?thesis using seri_roundtrip[of ?v] by (simp add: MAX_DEPTH_def is_nan_def in_array_def) blast
qed

text \<open>C24: unpacking an arbitrary string ends, without an access outside it: it returns values or
  raises an error.\<close>

theorem seri_unpack_safe: "luaseri_unpack (AString bytes) \<noteq> Bad"
proof -
  define len where "len = to_signed 32 (of_signed 32 (int (length bytes)))"
  have len: "len \<le> int (length bytes)"
  proof -
    have "int (of_signed 32 (int (length bytes))) \<le> int (length bytes)"
      by (simp add: of_signed_def) (meson zmod_le_nonneg_dividend of_nat_0_le_iff)
    then show ?thesis by (auto simp: len_def to_signed_def)
  qed
  show ?thesis
  proof (cases "len = 0")
    case False
    have "unpack_all (2 * nat len + 4) (rball_init bytes len) \<noteq> Bad"
      using len by (intro unpack_all_safe) (auto simp: rball_init_def rb_ok_def)
    with False show ?thesis by (simp add: luaseri_unpack_def len_def[symmetric])
  qed (simp add: luaseri_unpack_def len_def[symmetric])
qed

text \<open>The length of a string is cast to \<open>int\<close>: a string of exactly \<open>2 ^ 31\<close> bytes is written as
  the empty string.\<close>

lemma wb_string_huge:
  assumes "length str = 2 ^ 31"
  shows "wb_string b str = wb_string b []"
proof -
  have "to_signed 32 (of_signed 32 (2 ^ 31)) = - (2 ^ 31)" by (simp add: to_signed_def of_signed_def)
  moreover have "COMBINE_TYPE TYPE_SHORT_STRING (- (2 ^ 31)) = 4" "COMBINE_TYPE TYPE_SHORT_STRING 0 = 4"
    by (simp_all add: COMBINE_TYPE_def cdefs)
  moreover have "to_signed 32 (of_signed 32 0) = 0" by (simp add: to_signed_def of_signed_def)
  ultimately show ?thesis using assms by (simp add: wb_string_def cdefs)
qed

lemma wb_string_huge_witness: "wb_string wb_init (replicate (2 ^ 31) 65) = wb_string wb_init []"
  by (rule wb_string_huge) (simp only: length_replicate)

end
