(* ===== verification/Databuffer.thy ===== *)
theory Databuffer
  imports Bytes
begin

text \<open>
  The two data structures of the gate service: the buffer that joins the chunks of a connection
  (\<open>service-src/databuffer.h\<close>) and the table from socket ids to connection slots
  (\<open>service-src/hashid.h\<close>).  A chain of \<open>struct message\<close> is the list of the data its nodes hold;
  of the pool of nodes the number of blocks and the length of the free list are kept.
\<close>

section \<open>Data buffer\<close>

definition MESSAGEPOOL :: nat where [cdefs]: "MESSAGEPOOL = 1023"

record databuffer =
  db_header :: int
  db_offset :: nat
  db_size :: int
  db_msgs :: "u8 list list"

record messagepool =
  mp_pool :: nat
  mp_freelist :: nat

definition databuffer0 :: databuffer where
  "databuffer0 = \<lparr>db_header = 0, db_offset = 0, db_size = 0, db_msgs = []\<rparr>"

definition messagepool_free :: "messagepool \<Rightarrow> messagepool" where
  "messagepool_free mp = \<lparr>mp_pool = 0, mp_freelist = 0\<rparr>"

definition return_message :: "databuffer \<Rightarrow> messagepool \<Rightarrow> (databuffer \<times> messagepool) option" where
  "return_message db mp =
     (case db_msgs db of
        [] \<Rightarrow> None
      | m # rest \<Rightarrow> Some (db\<lparr>db_msgs := rest\<rparr>, mp\<lparr>mp_freelist := mp_freelist mp + 1\<rparr>))"

lemma return_message_shorter:
  "return_message db mp = Some (db1, mp1) \<Longrightarrow> length (db_msgs db1) < length (db_msgs db)"
  by (auto simp: return_message_def split: list.splits)

text \<open>The loop of \<open>databuffer_read\<close>; the third component is what was copied to the caller's buffer.\<close>

function read_loop :: "databuffer \<Rightarrow> messagepool \<Rightarrow> int \<Rightarrow> (databuffer \<times> messagepool \<times> u8 list) option" where
  "read_loop db mp sz =
     (case db_msgs db of
        [] \<Rightarrow> None
      | current # _ \<Rightarrow>
          (let bsz = int (length current) - int (db_offset db); data = drop (db_offset db) current
           in if bsz > sz then
                Some (db\<lparr>db_offset := db_offset db + nat sz\<rparr>, mp, take (nat sz) data)
              else if bsz = sz then do {
                (db1, mp1) \<leftarrow> return_message (db\<lparr>db_offset := 0\<rparr>) mp;
                Some (db1, mp1, data) }
              else do {
                c_assert (0 \<le> bsz);
                (case return_message db mp of
                   None \<Rightarrow> None
                 | Some (db1, mp1) \<Rightarrow> do {
                     (db2, mp2, out) \<leftarrow> read_loop (db1\<lparr>db_offset := 0\<rparr>) mp1 (sz - bsz);
                     Some (db2, mp2, data @ out) }) }))"
  by pat_completeness auto
termination
  by (relation "measure (\<lambda>(db, mp, sz). length (db_msgs db))") (auto dest: return_message_shorter)

declare read_loop.simps [simp del]

definition databuffer_read :: "databuffer \<Rightarrow> messagepool \<Rightarrow> int \<Rightarrow> (databuffer \<times> messagepool \<times> u8 list) option" where
  "databuffer_read db mp sz = do {
     c_assert (db_size db \<ge> sz);
     read_loop (db\<lparr>db_size := db_size db - sz\<rparr>) mp sz }"

text \<open>A node comes from the free list or, with \<open>MESSAGEPOOL - 1\<close> others, from a fresh block.\<close>

definition pool_take :: "messagepool \<Rightarrow> messagepool" where
  "pool_take mp =
     (if mp_freelist mp > 0 then mp\<lparr>mp_freelist := mp_freelist mp - 1\<rparr>
      else mp\<lparr>mp_pool := mp_pool mp + 1, mp_freelist := MESSAGEPOOL - 1\<rparr>)"

text \<open>The size is an \<open>int\<close>: a sum of \<open>2\<^sup>3\<^sup>1\<close> and more overflows.\<close>

definition databuffer_push :: "databuffer \<Rightarrow> messagepool \<Rightarrow> u8 list \<Rightarrow> (databuffer \<times> messagepool) option" where
  "databuffer_push db mp data =
     (let size = db_size db + int (length data)
      in if size < 2 ^ 31 then Some (db\<lparr>db_size := size, db_msgs := db_msgs db @ [data]\<rparr>, pool_take mp) else None)"

text \<open>The length in the first two or four bytes; four bytes are combined in an \<open>int\<close>, which is
  negative when the highest bit is set.\<close>

definition header_value :: "nat \<Rightarrow> u8 list \<Rightarrow> int" where
  "header_value header_size plen =
     (if header_size = 2 then int (push_bit 8 (unat (plen ! 0)) OR unat (plen ! 1))
      else to_signed 32 (push_bit 24 (unat (plen ! 0)) OR push_bit 16 (unat (plen ! 1))
             OR push_bit 8 (unat (plen ! 2)) OR unat (plen ! 3)))"

definition databuffer_readheader ::
    "databuffer \<Rightarrow> messagepool \<Rightarrow> nat \<Rightarrow> (databuffer \<times> messagepool \<times> int) option" where
  "databuffer_readheader db mp header_size =
     (if db_header db = 0 \<and> db_size db < int header_size then Some (db, mp, -1)
      else do {
        (db1, mp1) \<leftarrow>
          (if db_header db = 0 then do {
             (db1, mp1, plen) \<leftarrow> databuffer_read db mp (int header_size);
             Some (db1\<lparr>db_header := header_value header_size plen\<rparr>, mp1) }
           else Some (db, mp));
        Some (db1, mp1, if db_size db1 < db_header db1 then -1 else db_header db1) })"

definition databuffer_reset :: "databuffer \<Rightarrow> databuffer" where
  "databuffer_reset db = db\<lparr>db_header := 0\<rparr>"

definition databuffer_clear :: "databuffer \<Rightarrow> messagepool \<Rightarrow> databuffer \<times> messagepool" where
  "databuffer_clear db mp = (databuffer0, mp\<lparr>mp_freelist := mp_freelist mp + length (db_msgs db)\<rparr>)"

subsection \<open>What the buffer stands for\<close>

definition db_bytes :: "databuffer \<Rightarrow> u8 list" where
  "db_bytes db = drop (db_offset db) (concat (db_msgs db))"

definition db_ok :: "databuffer \<Rightarrow> bool" where
  [inv_defs]: "db_ok db \<longleftrightarrow> db_size db = int (length (db_bytes db))
     \<and> (case db_msgs db of [] \<Rightarrow> db_offset db = 0 | m # _ \<Rightarrow> db_offset db \<le> length m)"

text \<open>No node of the pool is lost: what is not on the free list is in a buffer.\<close>

definition nodes_kept :: "databuffer \<Rightarrow> messagepool \<Rightarrow> databuffer \<Rightarrow> messagepool \<Rightarrow> bool" where
  "nodes_kept db mp db' mp' \<longleftrightarrow>
     int (mp_freelist mp') - int (mp_freelist mp) - int MESSAGEPOOL * (int (mp_pool mp') - int (mp_pool mp))
       = int (length (db_msgs db)) - int (length (db_msgs db'))"

lemma nodes_kept_refl [simp]: "nodes_kept db mp db mp"
  by (simp add: nodes_kept_def)

lemma nodes_kept_trans: "nodes_kept a p b q \<Longrightarrow> nodes_kept b q c r \<Longrightarrow> nodes_kept a p c r"
  by (simp add: nodes_kept_def algebra_simps)

lemma db_ok0 [simp]: "db_ok databuffer0" and db_bytes0 [simp]: "db_bytes databuffer0 = []"
  by (simp_all add: db_ok_def databuffer0_def db_bytes_def)

lemma push_db:
  assumes "db_ok db" "databuffer_push db mp data = Some (db', mp')"
  shows "db_ok db'" "db_bytes db' = db_bytes db @ data" "nodes_kept db mp db' mp'" "db_header db' = db_header db"
proof -
  have o: "db_offset db \<le> length (concat (db_msgs db))" using assms(1) by (auto simp: db_ok_def split: list.splits)
  have db': "db' = db\<lparr>db_size := db_size db + int (length data), db_msgs := db_msgs db @ [data]\<rparr>" "mp' = pool_take mp"
    using assms(2) by (simp_all add: databuffer_push_def Let_def split: if_splits)
  show b: "db_bytes db' = db_bytes db @ data" using o by (simp add: db' db_bytes_def)
  show "db_ok db'" using assms(1) b by (auto simp: db_ok_def db' split: list.splits)
  show "nodes_kept db mp db' mp'" by (auto simp: db' nodes_kept_def pool_take_def cdefs)
  show "db_header db' = db_header db" by (simp add: db')
qed

lemma push_db_None: "db_ok db \<Longrightarrow> databuffer_push db mp data = None \<longleftrightarrow> 2 ^ 31 \<le> length (db_bytes db) + length data"
  by (auto simp: databuffer_push_def db_ok_def Let_def)

lemma read_loop_db:
  assumes "case db_msgs db of [] \<Rightarrow> False | m # _ \<Rightarrow> db_offset db \<le> length m" "n \<le> length (db_bytes db)"
  shows "\<exists>db' mp'. read_loop db mp (int n) = Some (db', mp', take n (db_bytes db)) \<and> db_bytes db' = drop n (db_bytes db)
    \<and> (case db_msgs db' of [] \<Rightarrow> db_offset db' = 0 | m # _ \<Rightarrow> db_offset db' \<le> length m)
    \<and> db_size db' = db_size db \<and> db_header db' = db_header db \<and> nodes_kept db mp db' mp'"
  using assms
proof (induction "length (db_msgs db)" arbitrary: db mp n rule: less_induct)
  case less
  obtain m rest where m: "db_msgs db = m # rest" "db_offset db \<le> length m" using less.prems(1) by (auto split: list.splits)
  let ?d = "drop (db_offset db) m"
  have b: "db_bytes db = ?d @ concat rest" using m by (simp add: db_bytes_def)
  consider "n < length ?d" | "n = length ?d" | "n > length ?d" by linarith
  then show ?case
  proof cases
    case 1
    then show ?thesis using m b by (subst read_loop.simps) (auto simp: Let_def db_bytes_def nodes_kept_def add.commute)
  next
    case 2
    then have "int (length m) - int (db_offset db) = int n" using m(2) by simp
    then show ?thesis using m b 2
      by (subst read_loop.simps) (auto simp: Let_def return_message_def db_bytes_def nodes_kept_def split: list.splits)
  next
    case 3
    define db1 where "db1 = db\<lparr>db_msgs := rest, db_offset := 0\<rparr>"
    define mp1 where "mp1 = mp\<lparr>mp_freelist := mp_freelist mp + 1\<rparr>"
    have b1: "db_bytes db1 = concat rest" by (simp add: db1_def db_bytes_def)
    have "rest \<noteq> []" using 3 less.prems(2) b by auto
    then have p: "case db_msgs db1 of [] \<Rightarrow> False | m # _ \<Rightarrow> db_offset db1 \<le> length m" by (auto simp: db1_def split: list.split)
    have "n - length ?d \<le> length (db_bytes db1)" using less.prems(2) b b1 by simp
    from less.hyps[OF _ p this, of mp1] m(1) obtain db' mp' where
      r: "read_loop db1 mp1 (int (n - length ?d)) = Some (db', mp', take (n - length ?d) (concat rest))"
      "db_bytes db' = drop (n - length ?d) (concat rest)"
      "case db_msgs db' of [] \<Rightarrow> db_offset db' = 0 | m # _ \<Rightarrow> db_offset db' \<le> length m"
      "db_size db' = db_size db1" "db_header db' = db_header db1" "nodes_kept db1 mp1 db' mp'"
      by (auto simp: db1_def b1[unfolded db1_def])
    have i: "int (n - length ?d) = int n - (int (length m) - int (db_offset db))" using 3 m(2) by simp
    have nk: "nodes_kept db mp db1 mp1" by (simp add: nodes_kept_def db1_def mp1_def m(1))
    have "read_loop db mp (int n) = Some (db', mp', ?d @ take (n - length ?d) (concat rest))"
      using 3 m by (subst read_loop.simps)
        (auto simp: Let_def return_message_def r(1)[unfolded i db1_def mp1_def, simplified])
    with r nk b 3 show ?thesis by (auto simp: db1_def intro: nodes_kept_trans)
  qed
qed

lemma read_db:
  assumes "db_ok db" "0 < n" "int n \<le> db_size db"
  obtains db' mp' where "databuffer_read db mp (int n) = Some (db', mp', take n (db_bytes db))" "db_ok db'"
    "db_bytes db' = drop n (db_bytes db)" "db_header db' = db_header db" "nodes_kept db mp db' mp'"
proof -
  let ?db = "db\<lparr>db_size := db_size db - int n\<rparr>"
  have n: "n \<le> length (db_bytes ?db)" "db_bytes ?db = db_bytes db" using assms by (auto simp: db_ok_def db_bytes_def)
  have "db_msgs db \<noteq> []" using assms by (auto simp: db_ok_def db_bytes_def)
  then have "case db_msgs ?db of [] \<Rightarrow> False | m # _ \<Rightarrow> db_offset ?db \<le> length m"
    using assms(1) by (auto simp: db_ok_def split: list.splits)
  from read_loop_db[OF this n(1), of mp] assms n that show ?thesis
    by (auto simp: databuffer_read_def db_ok_def nodes_kept_def)
qed

text \<open>The bytes not yet delivered, with the header when it has been taken off.\<close>

definition db_raw :: "nat \<Rightarrow> databuffer \<Rightarrow> u8 list" where
  "db_raw hs db = (if db_header db = 0 then [] else be_bytes hs (of_signed (8 * hs) (db_header db))) @ db_bytes db"

lemma header_value_be:
  assumes "hs = 2 \<or> hs = 4" "length plen = hs"
  shows "header_value hs plen = (if hs = 2 then int (be_val plen) else to_signed 32 (be_val plen))"
proof -
  show ?thesis
  proof (cases "hs = 2")
    case True
    then obtain a b where p: "plen = [a, b]" using assms(2) by (auto simp: numeral_2_eq_2 length_Suc_conv)
    show ?thesis using shift_or_add[of "unat b" 8 "unat a"] unsigned_less[of b, where 'a = nat]
      by (simp add: header_value_def p True be_val_def)
  next
    case False
    then obtain a b c d where p: "plen = [a, b, c, d]"
      using assms by (auto simp: numeral_eq_Suc length_Suc_conv)
    have l: "unat x < 256" for x :: u8 using unsigned_less[of x, where 'a = nat] by simp
    have "push_bit 24 (unat a) OR push_bit 16 (unat b) OR push_bit 8 (unat c) OR unat d =
        unat a * 2 ^ 24 + (unat b * 2 ^ 16 + (unat c * 2 ^ 8 + unat d))"
    proof -
      have 1: "push_bit 8 (unat c) OR unat d = unat c * 2 ^ 8 + unat d" using l by (intro shift_or_add) simp
      have "unat c * 2 ^ 8 + unat d < 2 ^ 16" using l[of c] l[of d] by simp
      then have 2: "push_bit 16 (unat b) OR (unat c * 2 ^ 8 + unat d) = unat b * 2 ^ 16 + (unat c * 2 ^ 8 + unat d)"
        by (rule shift_or_add)
      have "unat b * 2 ^ 16 + (unat c * 2 ^ 8 + unat d) < 2 ^ 24" using l[of b] l[of c] l[of d] by simp
      then have 3: "push_bit 24 (unat a) OR (unat b * 2 ^ 16 + (unat c * 2 ^ 8 + unat d)) =
          unat a * 2 ^ 24 + (unat b * 2 ^ 16 + (unat c * 2 ^ 8 + unat d))" by (rule shift_or_add)
      show ?thesis by (simp only: or.assoc 1 2 3)
    qed
    then show ?thesis using False assms(1) by (simp add: header_value_def p be_val_def algebra_simps)
  qed
qed

definition hdr_ok :: "nat \<Rightarrow> int \<Rightarrow> bool" where
  [inv_defs]: "hdr_ok hs h \<longleftrightarrow> (if hs = 2 then 0 \<le> h \<and> h < 65536 else - (2 ^ 31) \<le> h \<and> h < 2 ^ 31)"

lemma be_bytes_val: "be_bytes (length bs) (be_val bs) = bs"
  by (simp add: be_bytes_def be_val_def le_bytes_val[of "rev bs", simplified])

lemma header_value_raw:
  assumes "hs = 2 \<or> hs = 4" "length plen = hs"
  shows "be_bytes hs (of_signed (8 * hs) (header_value hs plen)) = plen" "hdr_ok hs (header_value hs plen)"
proof -
  have l: "be_val plen < 256 ^ hs" using be_val_less[of plen] assms(2) by simp
  have "of_signed (8 * hs) (header_value hs plen) = be_val plen"
    using assms l by (auto simp: header_value_be to_signed_def of_signed_def)
  then show "be_bytes hs (of_signed (8 * hs) (header_value hs plen)) = plen" using be_bytes_val[of plen] assms(2) by simp
  show "hdr_ok hs (header_value hs plen)" using assms l by (auto simp: header_value_be hdr_ok_def to_signed_def)
qed

lemma header_value_of:
  assumes "hs = 2 \<or> hs = 4" "hdr_ok hs h"
  shows "header_value hs (be_bytes hs (of_signed (8 * hs) h)) = h"
proof -
  have l: "of_signed (8 * hs) h < 256 ^ hs" using assms(1) by (auto simp: of_signed_def nat_less_iff)
  have v: "be_val (be_bytes hs (of_signed (8 * hs) h)) = of_signed (8 * hs) h" using l by (simp add: be_val_bytes)
  show ?thesis
  proof (cases "hs = 2")
    case True
    then show ?thesis using assms v by (simp add: header_value_be hdr_ok_def of_signed_def)
  next
    case False
    then have "hs = 4" using assms(1) by simp
    then show ?thesis using assms v to_of_signed[of 32 h] by (simp add: header_value_be hdr_ok_def)
  qed
qed

text \<open>Reading the header takes it off the bytes and remembers it.\<close>

lemma readheader_db:
  assumes "db_ok db" "hs = 2 \<or> hs = 4" "hdr_ok hs (db_header db)"
  defines "raw \<equiv> db_raw hs db" and "n \<equiv> header_value hs (take hs (db_raw hs db))" and "body \<equiv> drop hs (db_raw hs db)"
  shows "length raw < hs \<Longrightarrow> databuffer_readheader db mp hs = Some (db, mp, -1)"
    "hs \<le> length raw \<Longrightarrow> \<exists>db' mp'. databuffer_readheader db mp hs = Some (db', mp', if int (length body) < n then -1 else n)
       \<and> db_ok db' \<and> db_header db' = n \<and> db_bytes db' = body \<and> hdr_ok hs n \<and> nodes_kept db mp db' mp'"
proof -
  assume a: "length raw < hs"
  then have "db_header db = 0" by (auto simp: raw_def db_raw_def split: if_splits)
  with a show "databuffer_readheader db mp hs = Some (db, mp, -1)"
    using assms(1) by (simp add: raw_def db_raw_def databuffer_readheader_def db_ok_def)
next
  assume a: "hs \<le> length raw"
  show "\<exists>db' mp'. databuffer_readheader db mp hs = Some (db', mp', if int (length body) < n then -1 else n)
       \<and> db_ok db' \<and> db_header db' = n \<and> db_bytes db' = body \<and> hdr_ok hs n \<and> nodes_kept db mp db' mp'"
  proof (cases "db_header db = 0")
    case False
    then have "n = db_header db" "body = db_bytes db"
      using header_value_of[OF assms(2,3)] by (simp_all add: n_def body_def db_raw_def)
    with False assms(1,3) show ?thesis by (auto simp: databuffer_readheader_def db_ok_def)
  next
    case True
    have raw: "raw = db_bytes db" using True by (simp add: raw_def db_raw_def)
    have h: "0 < hs" "int hs \<le> db_size db" using a raw assms(1,2) by (auto simp: db_ok_def)
    obtain db' mp' where r: "databuffer_read db mp (int hs) = Some (db', mp', take hs (db_bytes db))" "db_ok db'"
      "db_bytes db' = drop hs (db_bytes db)" "db_header db' = db_header db" "nodes_kept db mp db' mp'"
      using read_db[OF assms(1) h] by metis
    let ?db = "db'\<lparr>db_header := n\<rparr>"
    have b: "db_bytes ?db = body" using r(3) raw by (simp add: db_bytes_def body_def raw_def)
    have ok: "db_ok ?db" using r(2) by (cases "db_msgs db'") (simp_all add: db_ok_def db_bytes_def)
    have "length (take hs raw) = hs" using a by simp
    from header_value_raw(2)[OF assms(2) this] have "hdr_ok hs n" by (simp add: n_def raw_def)
    moreover have "databuffer_readheader db mp hs = Some (?db, mp', if int (length body) < n then -1 else n)"
      using True r(1) h ok b raw by (auto simp: databuffer_readheader_def n_def raw_def db_ok_def)
    moreover have "nodes_kept db mp ?db mp'" using r(5) by (simp add: nodes_kept_def)
    ultimately show ?thesis using b ok by fastforce
  qed
qed

section \<open>Table of socket ids\<close>

text \<open>A node that is in use has its socket id, a free one \<open>-1\<close> and no successor.  \<open>hi_hash h\<close> lists the
  indices of the nodes of chain \<open>h\<close>, in the order of the \<open>next\<close> pointers.\<close>

record hashid =
  hi_hashmod :: nat
  hi_cap :: nat
  hi_count :: nat
  hi_id :: "int list"
  hi_hash :: "nat \<Rightarrow> nat list"

function hash_capacity :: "nat \<Rightarrow> nat \<Rightarrow> nat" where
  "hash_capacity hashcap mx = (if 0 < hashcap \<and> hashcap < mx then hash_capacity (hashcap * 2) mx else hashcap)"
  by pat_completeness auto
termination
  by (relation "measure (\<lambda>(h, mx). mx - h)") auto

declare hash_capacity.simps [simp del]

text \<open>The capacity is an \<open>int\<close>: doubling it must not overflow.\<close>

definition hashid_init :: "nat \<Rightarrow> hashid option" where
  "hashid_init mx = do {
     c_assert (hash_capacity 16 mx < 2 ^ 31);
     Some \<lparr>hi_hashmod = hash_capacity 16 mx - 1, hi_cap = mx, hi_count = 0,
       hi_id = replicate mx (-1), hi_hash = (\<lambda>_. [])\<rparr> }"

definition hashid_clear :: "hashid \<Rightarrow> hashid" where
  "hashid_clear hi = \<lparr>hi_hashmod = 1, hi_cap = 0, hi_count = 0, hi_id = [], hi_hash = (\<lambda>_. [])\<rparr>"

text \<open>\<open>id & hashmod\<close>.\<close>

definition id_hash :: "hashid \<Rightarrow> int \<Rightarrow> nat" where
  "id_hash hi fd = nat (fd AND int (hi_hashmod hi))"

definition hashid_lookup :: "hashid \<Rightarrow> int \<Rightarrow> int" where
  "hashid_lookup hi fd =
     (case find (\<lambda>c. hi_id hi ! c = fd) (hi_hash hi (id_hash hi fd)) of Some c \<Rightarrow> int c | None \<Rightarrow> -1)"

definition hashid_remove :: "hashid \<Rightarrow> int \<Rightarrow> hashid \<times> int" where
  "hashid_remove hi fd =
     (let h = id_hash hi fd
      in case find (\<lambda>c. hi_id hi ! c = fd) (hi_hash hi h) of
           None \<Rightarrow> (hi, -1)
         | Some c \<Rightarrow> (hi\<lparr>hi_hash := (hi_hash hi)(h := remove1 c (hi_hash hi h)), hi_id := (hi_id hi)[c := -1],
                         hi_count := hi_count hi - 1\<rparr>, int c))"

text \<open>\<open>(i + id) % cap\<close> on \<open>int\<close>: the sum wraps, the remainder has the sign of the dividend, and a
  negative index is outside the array.\<close>

definition probe_index :: "nat \<Rightarrow> nat \<Rightarrow> int \<Rightarrow> nat option" where
  "probe_index cap i fd =
     (let s = to_signed 32 (of_signed 32 (int i + fd)); r = (if 0 \<le> s then s mod int cap else - ((- s) mod int cap))
      in if 0 \<le> r then Some (nat r) else None)"

text \<open>The search for a free node; \<open>None\<close> stands for the failed assertion and for a negative index.\<close>

fun probe :: "hashid \<Rightarrow> int \<Rightarrow> nat list \<Rightarrow> nat option" where
  "probe hi fd [] = None"
| "probe hi fd (i # is) = do {
     index \<leftarrow> probe_index (hi_cap hi) i fd;
     if hi_id hi ! index = -1 then Some index else probe hi fd is }"

definition hashid_insert :: "hashid \<Rightarrow> int \<Rightarrow> (hashid \<times> nat) option" where
  "hashid_insert hi fd = do {
     c \<leftarrow> probe hi fd [0..<hi_cap hi];
     let h = id_hash hi fd;
     Some (hi\<lparr>hi_count := hi_count hi + 1, hi_id := (hi_id hi)[c := fd],
              hi_hash := (hi_hash hi)(h := c # hi_hash hi h)\<rparr>, c) }"

definition hashid_full :: "hashid \<Rightarrow> bool" where
  "hashid_full hi \<longleftrightarrow> hi_count hi = hi_cap hi"

subsection \<open>Invariant\<close>

definition hid_ok :: "hashid \<Rightarrow> bool" where
  [inv_defs]: "hid_ok hi \<longleftrightarrow> length (hi_id hi) = hi_cap hi
     \<and> hi_count hi = card {c. c < hi_cap hi \<and> hi_id hi ! c \<noteq> -1}
     \<and> (\<forall>h c. c \<in> set (hi_hash hi h) \<longleftrightarrow> c < hi_cap hi \<and> hi_id hi ! c \<noteq> -1 \<and> id_hash hi (hi_id hi ! c) = h)
     \<and> (\<forall>h. distinct (hi_hash hi h))
     \<and> (\<forall>c d. c < hi_cap hi \<longrightarrow> d < hi_cap hi \<longrightarrow> hi_id hi ! c \<noteq> -1 \<longrightarrow> hi_id hi ! c = hi_id hi ! d \<longrightarrow> c = d)"

lemma hid_okD:
  "hid_ok hi \<Longrightarrow> c < hi_cap hi \<Longrightarrow> d < hi_cap hi \<Longrightarrow> hi_id hi ! c \<noteq> -1 \<Longrightarrow> hi_id hi ! c = hi_id hi ! d \<Longrightarrow> c = d"
  unfolding hid_ok_def by blast

lemma find_unique:
  assumes "c \<in> set xs" "P c" "\<And>d. d \<in> set xs \<Longrightarrow> P d \<Longrightarrow> d = c"
  shows "find P xs = Some c"
proof (cases "find P xs")
  case None
  with assms(1,2) show ?thesis by (auto simp: find_None_iff)
next
  case (Some d)
  then have "P d" "d \<in> set xs" by (auto simp: find_Some_iff)
  with assms(3) Some show ?thesis by simp
qed

lemma lookup_iff:
  assumes "hid_ok hi" "fd \<noteq> -1"
  shows "hashid_lookup hi fd = int c \<longleftrightarrow> c < hi_cap hi \<and> hi_id hi ! c = fd"
    "hashid_lookup hi fd < 0 \<longleftrightarrow> fd \<notin> set (hi_id hi)" "hashid_lookup hi fd \<ge> 0 \<longleftrightarrow> fd \<in> set (hi_id hi)"
proof -
  let ?f = "find (\<lambda>c. hi_id hi ! c = fd) (hi_hash hi (id_hash hi fd))"
  have ch: "d \<in> set (hi_hash hi (id_hash hi fd)) \<and> hi_id hi ! d = fd \<longleftrightarrow> d < hi_cap hi \<and> hi_id hi ! d = fd" for d
    using assms by (auto simp: hid_ok_def)
  have f: "?f = Some d \<longleftrightarrow> d < hi_cap hi \<and> hi_id hi ! d = fd" for d
  proof
    assume "?f = Some d"
    then have "d \<in> set (hi_hash hi (id_hash hi fd)) \<and> hi_id hi ! d = fd" by (auto simp: find_Some_iff)
    then show "d < hi_cap hi \<and> hi_id hi ! d = fd" using ch by blast
  next
    assume d: "d < hi_cap hi \<and> hi_id hi ! d = fd"
    show "?f = Some d"
    proof (rule find_unique)
      show "d \<in> set (hi_hash hi (id_hash hi fd))" using d ch by blast
    next
      fix e assume "e \<in> set (hi_hash hi (id_hash hi fd))" "hi_id hi ! e = fd"
      with d ch[of e] assms show "e = d" by (auto simp: hid_ok_def)
    qed (use d in simp)
  qed
  show "hashid_lookup hi fd = int c \<longleftrightarrow> c < hi_cap hi \<and> hi_id hi ! c = fd"
    using f[of c] by (cases ?f) (auto simp: hashid_lookup_def)
  have "length (hi_id hi) = hi_cap hi" using assms(1) by (simp add: hid_ok_def)
  then have "(\<exists>d. ?f = Some d) \<longleftrightarrow> fd \<in> set (hi_id hi)" by (simp only: f in_set_conv_nth)
  then have "?f = None \<longleftrightarrow> fd \<notin> set (hi_id hi)" by (cases ?f) simp_all
  then show "hashid_lookup hi fd < 0 \<longleftrightarrow> fd \<notin> set (hi_id hi)"
    "hashid_lookup hi fd \<ge> 0 \<longleftrightarrow> fd \<in> set (hi_id hi)" by (auto simp: hashid_lookup_def split: option.splits)
qed

lemma hid_ok_init: "hashid_init mx = Some hi \<Longrightarrow> hid_ok hi"
  by (auto simp: hid_ok_def hashid_init_def)

lemma hashid_remove_ok:
  assumes "hid_ok hi" "fd \<noteq> -1"
  shows "fd \<notin> set (hi_id hi) \<Longrightarrow> hashid_remove hi fd = (hi, -1)"
    "c < hi_cap hi \<Longrightarrow> hi_id hi ! c = fd \<Longrightarrow> \<exists>hi'. hashid_remove hi fd = (hi', int c) \<and> hid_ok hi'
       \<and> hi_id hi' = (hi_id hi)[c := -1] \<and> hi_cap hi' = hi_cap hi"
proof -
  let ?f = "find (\<lambda>c. hi_id hi ! c = fd) (hi_hash hi (id_hash hi fd))"
  assume "fd \<notin> set (hi_id hi)"
  then have "hashid_lookup hi fd < 0" using lookup_iff(2)[OF assms] by simp
  then have "?f = None" by (cases ?f) (auto simp: hashid_lookup_def)
  then show "hashid_remove hi fd = (hi, -1)" by (simp add: hashid_remove_def)
next
  let ?f = "find (\<lambda>c. hi_id hi ! c = fd) (hi_hash hi (id_hash hi fd))"
  assume c: "c < hi_cap hi" "hi_id hi ! c = fd"
  then have "hashid_lookup hi fd = int c" using lookup_iff(1)[OF assms] by simp
  then have f: "?f = Some c" by (cases ?f) (auto simp: hashid_lookup_def)
  define hi' where "hi' = hi\<lparr>hi_hash := (hi_hash hi)(id_hash hi fd := remove1 c (hi_hash hi (id_hash hi fd))),
    hi_id := (hi_id hi)[c := -1], hi_count := hi_count hi - 1\<rparr>"
  have cap: "hi_cap hi' = hi_cap hi" by (simp add: hi'_def)
  have len: "length (hi_id hi) = hi_cap hi" using assms(1) by (simp add: hid_ok_def)
  have h: "id_hash hi' = id_hash hi" by (simp add: id_hash_def hi'_def fun_eq_iff)
  have ids: "hi_id hi' ! d = (if d = c then -1 else hi_id hi ! d)" for d using c(1) len by (simp add: hi'_def nth_list_update)
  have mem: "e \<in> set (hi_hash hi h) \<longleftrightarrow> e < hi_cap hi \<and> hi_id hi ! e \<noteq> -1 \<and> id_hash hi (hi_id hi ! e) = h" for e h
    using assms(1) by (simp add: hid_ok_def)
  have dis: "distinct (hi_hash hi h)" for h using assms(1) by (simp add: hid_ok_def)
  have "{e. e < hi_cap hi \<and> hi_id hi' ! e \<noteq> -1} = {e. e < hi_cap hi \<and> hi_id hi ! e \<noteq> -1} - {c}" by (auto simp: ids)
  moreover have "c \<in> {e. e < hi_cap hi \<and> hi_id hi ! e \<noteq> -1}" using c assms(2) by simp
  ultimately have cnt: "hi_count hi' = card {e. e < hi_cap hi' \<and> hi_id hi' ! e \<noteq> -1}"
    using assms(1) by (simp add: hi'_def hid_ok_def card_Diff_singleton)
  have m': "e \<in> set (hi_hash hi' k) \<longleftrightarrow> e < hi_cap hi' \<and> hi_id hi' ! e \<noteq> -1 \<and> id_hash hi' (hi_id hi' ! e) = k" for e k
  proof (cases "e = c")
    case True
    then show ?thesis using c(2) mem[of c k] dis by (auto simp: ids) (auto simp: hi'_def split: if_splits)
  next
    case False
    then have "e \<in> set (hi_hash hi' k) \<longleftrightarrow> e \<in> set (hi_hash hi k)" by (simp add: hi'_def)
    with False mem[of e k] show ?thesis by (simp add: ids h) (simp add: hi'_def)
  qed
  have "hid_ok hi'"
    unfolding hid_ok_def
  proof (intro conjI allI impI)
    show "distinct (hi_hash hi' k)" for k using dis by (simp add: hi'_def)
    show "d = e" if "d < hi_cap hi'" "e < hi_cap hi'" "hi_id hi' ! d \<noteq> -1" "hi_id hi' ! d = hi_id hi' ! e" for d e
      using that hid_okD[OF assms(1), of d e] by (auto simp: ids cap split: if_splits)
  qed (use cnt m' len in \<open>auto simp: hi'_def\<close>)
  moreover have "hashid_remove hi fd = (hi', int c)" using f by (simp add: hashid_remove_def hi'_def Let_def)
  ultimately show "\<exists>hi'. hashid_remove hi fd = (hi', int c) \<and> hid_ok hi'
       \<and> hi_id hi' = (hi_id hi)[c := -1] \<and> hi_cap hi' = hi_cap hi" by (auto simp: hi'_def)
qed

lemma probe_finds:
  assumes "\<And>i. i \<in> set is \<Longrightarrow> probe_index (hi_cap hi) i fd = Some ((i + nat fd) mod hi_cap hi)" "0 < hi_cap hi"
    "\<exists>i \<in> set is. hi_id hi ! ((i + nat fd) mod hi_cap hi) = -1"
  shows "\<exists>c. probe hi fd is = Some c \<and> c < hi_cap hi \<and> hi_id hi ! c = -1"
  using assms by (induction "is") auto

lemma probe_index_small:
  assumes "0 \<le> fd" "int i + fd < 2 ^ 31" "0 < cap"
  shows "probe_index cap i fd = Some ((i + nat fd) mod cap)"
proof -
  have "to_signed 32 (of_signed 32 (int i + fd)) = int i + fd" using assms by (intro to_of_signed) auto
  moreover have "nat ((int i + fd) mod int cap) = (i + nat fd) mod cap"
    using assms by (simp add: nat_mod_distrib nat_add_distrib)
  ultimately show ?thesis using assms by (simp add: probe_index_def)
qed

lemma hashid_insert_ok:
  assumes "hid_ok hi" "\<not> hashid_full hi" "fd \<notin> set (hi_id hi)" "0 \<le> fd" "fd + int (hi_cap hi) \<le> 2 ^ 31"
  shows "\<exists>hi' c. hashid_insert hi fd = Some (hi', c) \<and> hid_ok hi' \<and> c < hi_cap hi \<and> hi_id hi ! c = -1
    \<and> hi_id hi' = (hi_id hi)[c := fd] \<and> hi_cap hi' = hi_cap hi"
proof -
  have len: "length (hi_id hi) = hi_cap hi" using assms(1) by (simp add: hid_ok_def)
  have "{c. c < hi_cap hi \<and> hi_id hi ! c \<noteq> -1} \<noteq> {..<hi_cap hi}"
  proof
    assume "{c. c < hi_cap hi \<and> hi_id hi ! c \<noteq> -1} = {..<hi_cap hi}"
    then have "card {c. c < hi_cap hi \<and> hi_id hi ! c \<noteq> -1} = hi_cap hi" by simp
    with assms(1,2) show False by (simp add: hid_ok_def hashid_full_def)
  qed
  then obtain e where e: "e < hi_cap hi" "hi_id hi ! e = -1" by auto
  let ?i = "nat ((int e - fd) mod int (hi_cap hi))"
  have cap: "0 < hi_cap hi" using e by simp
  have i: "?i < hi_cap hi" using cap by (simp add: nat_less_iff)
  have "int ((?i + nat fd) mod hi_cap hi) = ((int e - fd) mod int (hi_cap hi) + fd) mod int (hi_cap hi)"
    using assms(4) cap by (simp add: zmod_int)
  also have "\<dots> = int e" using e(1) by (simp add: mod_add_left_eq)
  finally have "(?i + nat fd) mod hi_cap hi = e" by simp
  with i e have ex: "\<exists>i \<in> set [0..<hi_cap hi]. hi_id hi ! ((i + nat fd) mod hi_cap hi) = -1"
    by (intro bexI[of _ ?i]) simp_all
  have pi: "probe_index (hi_cap hi) i fd = Some ((i + nat fd) mod hi_cap hi)" if "i \<in> set [0..<hi_cap hi]" for i
    using that assms(4,5) cap by (intro probe_index_small) auto
  obtain c where c: "probe hi fd [0..<hi_cap hi] = Some c" "c < hi_cap hi" "hi_id hi ! c = -1"
    using probe_finds[OF pi cap ex] by blast
  define hi' where "hi' = hi\<lparr>hi_count := hi_count hi + 1, hi_id := (hi_id hi)[c := fd],
    hi_hash := (hi_hash hi)(id_hash hi fd := c # hi_hash hi (id_hash hi fd))\<rparr>"
  have cap': "hi_cap hi' = hi_cap hi" by (simp add: hi'_def)
  have h: "id_hash hi' = id_hash hi" by (simp add: id_hash_def hi'_def fun_eq_iff)
  have ids: "hi_id hi' ! d = (if d = c then fd else hi_id hi ! d)" for d using c(2) len by (simp add: hi'_def nth_list_update)
  have mem: "d \<in> set (hi_hash hi h) \<longleftrightarrow> d < hi_cap hi \<and> hi_id hi ! d \<noteq> -1 \<and> id_hash hi (hi_id hi ! d) = h" for d h
    using assms(1) by (simp add: hid_ok_def)
  have "{d. d < hi_cap hi \<and> hi_id hi' ! d \<noteq> -1} = insert c {d. d < hi_cap hi \<and> hi_id hi ! d \<noteq> -1}"
    using c(2) assms(4) by (auto simp: ids)
  then have cnt: "hi_count hi' = card {d. d < hi_cap hi' \<and> hi_id hi' ! d \<noteq> -1}"
    using assms(1) c(3) by (simp add: hi'_def hid_ok_def)
  have m': "d \<in> set (hi_hash hi' k) \<longleftrightarrow> d < hi_cap hi' \<and> hi_id hi' ! d \<noteq> -1 \<and> id_hash hi' (hi_id hi' ! d) = k" for d k
    using mem[of d k] c assms(4) by (auto simp: ids h) (auto simp: hi'_def split: if_splits)
  have nfd: "hi_id hi ! d \<noteq> fd" if "d < hi_cap hi" for d using assms(3) len that by (metis nth_mem)
  have "hid_ok hi'"
    unfolding hid_ok_def
  proof (intro conjI allI impI)
    show "distinct (hi_hash hi' k)" for k using assms(1) mem[of c k] c(3) by (auto simp: hi'_def hid_ok_def)
    show "d = e" if "d < hi_cap hi'" "e < hi_cap hi'" "hi_id hi' ! d \<noteq> -1" "hi_id hi' ! d = hi_id hi' ! e" for d e
      using that hid_okD[OF assms(1), of d e] nfd[of e] nfd[of d] by (auto simp: ids cap' split: if_splits)
  qed (use cnt m' len in \<open>auto simp: hi'_def\<close>)
  moreover have "hashid_insert hi fd = Some (hi', c)" using c(1) by (simp add: hashid_insert_def hi'_def Let_def)
  ultimately show ?thesis using c(2,3) by (auto simp: hi'_def)
qed

end
