(* ===== verification/Netpack.thy ===== *)
theory Netpack
  imports Bytes Ring
begin

text \<open>
  The packet splitter of the gate servers, \<open>lualib-src/lua-netpack.c\<close>: it cuts the byte stream of
  each socket into packages (two bytes of big-endian length, then the data), keeps the unfinished
  package of each socket in a hash table and queues the packages of a chunk that holds several of
  them in a growing circular array.  A buffer from \<open>malloc\<close> is a list of cells that hold a byte once
  it is written; the empty list also stands for the null pointer.  The queue is the userdata that Lua
  passes in and gets back: \<open>None\<close> before the first use.
\<close>

section \<open>State\<close>

definition QUEUESIZE :: nat where [cdefs]: "QUEUESIZE = 1024"
definition HASHSIZE :: nat where [cdefs]: "HASHSIZE = 4096"

record netpack =
  np_id :: int
  np_size :: nat
  np_buffer :: "u8 option list"

text \<open>The \<open>next\<close> pointers are the order of the list a hash slot holds.\<close>

record uncomplete =
  uc_pack :: netpack
  uc_read :: int
  uc_header :: nat

record nqueue =
  nq_cap :: nat
  nq_head :: nat
  nq_tail :: nat
  nq_hash :: "nat \<Rightarrow> uncomplete list"
  nq_queue :: "netpack option list"

section \<open>Operations\<close>

text \<open>\<open>memcpy\<close> into a buffer at an offset.\<close>

definition mem_copy :: "u8 option list \<Rightarrow> nat \<Rightarrow> u8 list \<Rightarrow> u8 option list option" where
  "mem_copy dst off src =
     (if off + length src \<le> length dst
      then Some (take off dst @ map Some src @ drop (off + length src) dst) else None)"

text \<open>\<open>fd >> k\<close> on an \<open>int\<close> rounds down; the sum is reduced to 32 bits.\<close>

definition hash_fd :: "int \<Rightarrow> nat" where
  "hash_fd fd = nat ((fd div 2 ^ 24 + fd div 2 ^ 12 + fd) mod 2 ^ 32) mod HASHSIZE"

text \<open>The search of \<open>find_uncomplete\<close> along a chain; the entry found is unlinked.\<close>

fun unlink_uncomplete :: "int \<Rightarrow> uncomplete list \<Rightarrow> uncomplete option \<times> uncomplete list" where
  "unlink_uncomplete fd [] = (None, [])"
| "unlink_uncomplete fd (uc # next) =
     (if np_id (uc_pack uc) = fd then (Some uc, next)
      else (let (r, next') = unlink_uncomplete fd next in (r, uc # next')))"

definition find_uncomplete :: "nqueue option \<Rightarrow> int \<Rightarrow> uncomplete option \<times> nqueue option" where
  "find_uncomplete qo fd =
     (case qo of
        None \<Rightarrow> (None, None)
      | Some q \<Rightarrow>
          (let h = hash_fd fd; (r, chain) = unlink_uncomplete fd (nq_hash q h)
           in (r, Some (q\<lparr>nq_hash := (nq_hash q)(h := chain)\<rparr>))))"

definition new_queue :: nqueue where
  "new_queue = \<lparr>nq_cap = QUEUESIZE, nq_head = 0, nq_tail = 0, nq_hash = (\<lambda>_. []),
     nq_queue = replicate QUEUESIZE None\<rparr>"

definition get_queue :: "nqueue option \<Rightarrow> nqueue" where
  "get_queue qo = (case qo of Some q \<Rightarrow> q | None \<Rightarrow> new_queue)"

text \<open>The new userdata has \<open>QUEUESIZE\<close> more cells; the chains move to it.\<close>

definition np_expand_queue :: "nqueue \<Rightarrow> nqueue" where
  "np_expand_queue q = \<lparr>nq_cap = nq_cap q + QUEUESIZE, nq_head = 0, nq_tail = nq_cap q, nq_hash = nq_hash q,
     nq_queue = map (\<lambda>i. nq_queue q ! ((nq_head q + i) mod nq_cap q)) [0..<nq_cap q] @ replicate QUEUESIZE None\<rparr>"

definition push_data :: "netpack \<Rightarrow> nqueue option \<Rightarrow> nqueue option option" where
  "push_data np qo = do {
     let q = get_queue qo;
     cells \<leftarrow> arr_set (nq_queue q) (nq_tail q) (Some np);
     let tail = (if Suc (nq_tail q) \<ge> nq_cap q then Suc (nq_tail q) - nq_cap q else Suc (nq_tail q));
     let q1 = q\<lparr>nq_queue := cells, nq_tail := tail\<rparr>;
     Some (Some (if nq_head q1 = nq_tail q1 then np_expand_queue q1 else q1)) }"

text \<open>\<open>save_uncomplete\<close> links an entry in front of its chain; the fields that the callers fill in
  afterwards are given with it.\<close>

definition save_uncomplete :: "uncomplete \<Rightarrow> nqueue option \<Rightarrow> nqueue option" where
  "save_uncomplete uc qo =
     (let q = get_queue qo; h = hash_fd (np_id (uc_pack uc))
      in Some (q\<lparr>nq_hash := (nq_hash q)(h := uc # nq_hash q h)\<rparr>))"

definition read_size :: "u8 \<Rightarrow> u8 \<Rightarrow> nat" where
  "read_size b0 b1 = push_bit 8 (unat b0) OR unat b1"

text \<open>The two unfinished packages: only the first length byte is known, or the length is known.\<close>

definition uc_half_header :: "int \<Rightarrow> u8 \<Rightarrow> uncomplete" where
  "uc_half_header fd b = \<lparr>uc_pack = \<lparr>np_id = fd, np_size = 0, np_buffer = []\<rparr>, uc_read = -1, uc_header = unat b\<rparr>"

definition uc_partial :: "int \<Rightarrow> nat \<Rightarrow> u8 list \<Rightarrow> uncomplete option" where
  "uc_partial fd pack_size data = do {
     buf \<leftarrow> mem_copy (replicate pack_size None) 0 data;
     Some \<lparr>uc_pack = \<lparr>np_id = fd, np_size = pack_size, np_buffer = buf\<rparr>, uc_read = int (length data), uc_header = 0\<rparr> }"

definition clone_pack :: "int \<Rightarrow> u8 list \<Rightarrow> netpack" where
  "clone_pack fd data = \<lparr>np_id = fd, np_size = length data, np_buffer = map Some data\<rparr>"

function push_more :: "int \<Rightarrow> u8 list \<Rightarrow> nqueue option \<Rightarrow> nqueue option option" where
  "push_more fd [] q = None"
| "push_more fd [b] q = Some (save_uncomplete (uc_half_header fd b) q)"
| "push_more fd (b0 # b1 # data) q =
     (let pack_size = read_size b0 b1
      in if length data < pack_size then do {
           uc \<leftarrow> uc_partial fd pack_size data;
           Some (save_uncomplete uc q) }
         else do {
           q1 \<leftarrow> push_data (clone_pack fd (take pack_size data)) q;
           let rest = drop pack_size data;
           if length rest > 0 then push_more fd rest q1 else Some q1 })"
  by pat_completeness auto
termination
  by (relation "measure (\<lambda>(fd, data, q). length data)") auto

definition close_uncomplete :: "nqueue option \<Rightarrow> int \<Rightarrow> nqueue option" where
  "close_uncomplete qo fd = snd (find_uncomplete qo fd)"

text \<open>What \<open>lfilter\<close> returns besides the queue.\<close>

datatype np_event = NpNone | NpData netpack | NpMore | NpClose int | NpOpen int "u8 list"
  | NpError int "u8 list" | NpWarning int int

text \<open>Filling the unfinished package of \<open>fd\<close> with a chunk: the second length byte when it is missing,
  then the data.\<close>

definition fill_header :: "uncomplete \<Rightarrow> u8 list \<Rightarrow> (uncomplete \<times> u8 list) option" where
  "fill_header uc buffer =
     (if uc_read uc < 0 then do {
        c_assert (uc_read uc = -1);
        (case buffer of
           [] \<Rightarrow> None
         | b # rest \<Rightarrow>
             (let pack_size = unat b OR push_bit 8 (uc_header uc)
              in Some (uc\<lparr>uc_pack := (uc_pack uc)\<lparr>np_size := pack_size, np_buffer := replicate pack_size None\<rparr>,
                   uc_read := 0\<rparr>, rest))) }
      else Some (uc, buffer))"

definition fill_body :: "int \<Rightarrow> uncomplete \<Rightarrow> u8 list \<Rightarrow> nqueue option \<Rightarrow> (nqueue option \<times> np_event) option" where
  "fill_body fd uc buffer q = do {
     let need = np_size (uc_pack uc) - nat (uc_read uc);
     if length buffer < need then do {
       b \<leftarrow> mem_copy (np_buffer (uc_pack uc)) (nat (uc_read uc)) buffer;
       Some (save_uncomplete (uc\<lparr>uc_pack := (uc_pack uc)\<lparr>np_buffer := b\<rparr>,
               uc_read := uc_read uc + int (length buffer)\<rparr>) q, NpNone) }
     else do {
       b \<leftarrow> mem_copy (np_buffer (uc_pack uc)) (nat (uc_read uc)) (take need buffer);
       let pack = (uc_pack uc)\<lparr>np_buffer := b\<rparr>;
       let rest = drop need buffer;
       if length rest = 0 then Some (q, NpData pack)
       else do {
         q1 \<leftarrow> push_data pack q;
         q2 \<leftarrow> push_more fd rest q1;
         Some (q2, NpMore) } } }"

definition fill_uncomplete :: "int \<Rightarrow> uncomplete \<Rightarrow> u8 list \<Rightarrow> nqueue option \<Rightarrow> (nqueue option \<times> np_event) option" where
  "fill_uncomplete fd uc buffer q = do { (uc1, buf1) \<leftarrow> fill_header uc buffer; fill_body fd uc1 buf1 q }"

definition filter_data :: "int \<Rightarrow> u8 list \<Rightarrow> nqueue option \<Rightarrow> (nqueue option \<times> np_event) option" where
  "filter_data fd buffer qo =
     (case find_uncomplete qo fd of
        (Some uc, q) \<Rightarrow> fill_uncomplete fd uc buffer q
      | (None, q) \<Rightarrow>
          (case buffer of
             [] \<Rightarrow> None
           | [b] \<Rightarrow> Some (save_uncomplete (uc_half_header fd b) q, NpNone)
           | b0 # b1 # data \<Rightarrow>
               (let pack_size = read_size b0 b1
                in if length data < pack_size then do {
                     uc \<leftarrow> uc_partial fd pack_size data;
                     Some (save_uncomplete uc q, NpNone) }
                   else if length data = pack_size then Some (q, NpData (clone_pack fd data))
                   else do {
                     q1 \<leftarrow> push_data (clone_pack fd (take pack_size data)) q;
                     q2 \<leftarrow> push_more fd (drop pack_size data) q1;
                     Some (q2, NpMore) })))"

text \<open>The socket messages: a data message carries its buffer, the others a text after the header.
  \<open>ud\<close> of a data message is the size of the buffer.\<close>

datatype np_msg = MData int "u8 list" | MConnect int | MClose int | MAccept int int "u8 list"
  | MError int "u8 list" | MWarning int int | MOther

definition lfilter :: "np_msg \<Rightarrow> nqueue option \<Rightarrow> (nqueue option \<times> np_event) option" where
  "lfilter msg q =
     (case msg of
        MData fd buffer \<Rightarrow> filter_data fd buffer q
      | MConnect fd \<Rightarrow> Some (q, NpNone)
      | MClose fd \<Rightarrow> Some (close_uncomplete q fd, NpClose fd)
      | MAccept fd ud txt \<Rightarrow> Some (q, NpOpen ud txt)
      | MError fd txt \<Rightarrow> Some (close_uncomplete q fd, NpError fd txt)
      | MWarning fd ud \<Rightarrow> Some (q, NpWarning fd ud)
      | MOther \<Rightarrow> Some (q, NpNone))"

definition lpop :: "nqueue option \<Rightarrow> (nqueue option \<times> netpack option) option" where
  "lpop qo =
     (case qo of
        None \<Rightarrow> Some (qo, None)
      | Some q \<Rightarrow>
          if nq_head q = nq_tail q then Some (qo, None)
          else do {
            np \<leftarrow> arr_get (nq_queue q) (nq_head q);
            Some (Some (q\<lparr>nq_head := (if Suc (nq_head q) \<ge> nq_cap q then 0 else Suc (nq_head q))\<rparr>), Some np) })"

text \<open>\<open>lclear\<close> with the buffers it frees: those of the chains, then those of the queue.\<close>

definition lclear :: "nqueue option \<Rightarrow> (nqueue option \<times> u8 option list list) option" where
  "lclear qo =
     (case qo of
        None \<Rightarrow> Some (None, [])
      | Some q \<Rightarrow> do {
          let tail = (if nq_head q > nq_tail q then nq_tail q + nq_cap q else nq_tail q);
          c_assert (list_all (\<lambda>i. i mod nq_cap q < length (nq_queue q) \<and> nq_queue q ! (i mod nq_cap q) \<noteq> None)
            [nq_head q..<tail]);
          Some (Some (q\<lparr>nq_hash := (\<lambda>_. []), nq_head := 0, nq_tail := 0\<rparr>),
            map (\<lambda>uc. np_buffer (uc_pack uc)) (concat (map (nq_hash q) [0..<HASHSIZE]))
            @ map (\<lambda>i. np_buffer (the (nq_queue q ! (i mod nq_cap q)))) [nq_head q..<tail]) })"

definition write_size :: "nat \<Rightarrow> u8 list" where
  "write_size len = [of_nat (drop_bit 8 len AND 0xff), of_nat (len AND 0xff)]"

text \<open>\<open>lpack\<close> of a string or a buffer: too long a message is a Lua error.\<close>

definition lpack :: "u8 list \<Rightarrow> u8 list lr" where
  "lpack data = (if length data \<ge> 0x10000 then Raise else Ret (write_size (length data) @ data))"


section \<open>The circular array is a first-in first-out queue\<close>

definition nq_wf :: "nqueue \<Rightarrow> bool" where
  [inv_defs]: "nq_wf q \<longleftrightarrow> 0 < nq_cap q \<and> length (nq_queue q) = nq_cap q \<and> nq_head q < nq_cap q \<and> nq_tail q < nq_cap q"

definition nq_items :: "nqueue \<Rightarrow> netpack option list" where
  "nq_items q = ring_list (nq_queue q) (nq_head q) (ring_len (nq_cap q) (nq_head q) (nq_tail q))"

definition np_rep :: "nqueue option \<Rightarrow> netpack list \<Rightarrow> bool" where
  "np_rep qo ms \<longleftrightarrow> (case qo of None \<Rightarrow> ms = [] | Some q \<Rightarrow> nq_wf q \<and> nq_items q = map Some ms)"

lemma np_rep_get: "np_rep qo ms \<Longrightarrow> nq_wf (get_queue qo) \<and> nq_items (get_queue qo) = map Some ms"
  by (auto simp: np_rep_def get_queue_def nq_wf_def nq_items_def new_queue_def cdefs split: option.splits)

lemma np_expand_items:
  assumes "length (nq_queue q) = nq_cap q" "0 < nq_cap q"
  shows "nq_wf (np_expand_queue q)" "nq_items (np_expand_queue q) = ring_list (nq_queue q) (nq_head q) (nq_cap q)"
  using assms ring_list_copy[of "nq_cap q" "nq_queue q" "nq_head q" "replicate QUEUESIZE None"]
  by (simp_all add: nq_wf_def nq_items_def np_expand_queue_def ring_len_def cdefs)

lemma push_data_rep:
  assumes "np_rep qo ms"
  shows "\<exists>q'. push_data np qo = Some (Some q') \<and> np_rep (Some q') (ms @ [np]) \<and> nq_hash q' = nq_hash (get_queue qo)"
proof -
  define q where "q = get_queue qo"
  have wf: "nq_wf q" and it: "nq_items q = map Some ms" using np_rep_get[OF assms] by (simp_all add: q_def)
  let ?n = "ring_len (nq_cap q) (nq_head q) (nq_tail q)" and ?t = "ring_next (nq_cap q) (nq_tail q)"
  define q1 where "q1 = q\<lparr>nq_queue := (nq_queue q)[nq_tail q := Some np], nq_tail := ?t\<rparr>"
  have n: "?n < length (nq_queue q)" using wf ring_len_less by (simp add: nq_wf_def)
  have "(nq_head q + ?n) mod length (nq_queue q) = nq_tail q" using wf ring_tail by (simp add: nq_wf_def)
  with ring_list_snoc[OF n, of "nq_head q" "Some np"]
  have l: "ring_list (nq_queue q1) (nq_head q) (Suc ?n) = map Some (ms @ [np])"
    using it by (simp add: nq_items_def q1_def)
  have t: "?t < nq_cap q" using wf by (simp add: nq_wf_def ring_next_less)
  have p: "push_data np qo = Some (Some (if nq_head q1 = nq_tail q1 then np_expand_queue q1 else q1))"
    using wf by (auto simp: push_data_def q_def[symmetric] q1_def nq_wf_def ring_next_def Let_def)
  have h: "nq_hash (np_expand_queue q1) = nq_hash q" "nq_hash q1 = nq_hash q" by (simp_all add: q1_def np_expand_queue_def)
  show ?thesis
  proof (cases "nq_head q1 = nq_tail q1")
    case True
    have "Suc ?n = nq_cap q" using True wf by (intro ring_len_full) (auto simp: nq_wf_def q1_def)
    moreover have "length (nq_queue q1) = nq_cap q1" "0 < nq_cap q1" "nq_head q1 = nq_head q" "nq_cap q1 = nq_cap q"
      using wf by (auto simp: nq_wf_def q1_def)
    ultimately show ?thesis
      using p True l h np_expand_items[of q1] by (simp add: np_rep_def q_def)
  next
    case False
    have "ring_len (nq_cap q) (nq_head q) ?t = Suc ?n"
      using False wf by (intro ring_len_push) (auto simp: nq_wf_def q1_def)
    then have "nq_items q1 = map Some (ms @ [np])" using l by (simp add: nq_items_def q1_def)
    moreover have "nq_wf q1" using wf t by (auto simp: nq_wf_def q1_def)
    ultimately show ?thesis using p False h by (simp add: np_rep_def q_def)
  qed
qed

lemma lpop_rep:
  "np_rep qo [] \<Longrightarrow> lpop qo = Some (qo, None)"
  "np_rep qo (m # ms) \<Longrightarrow> \<exists>q q'. qo = Some q \<and> lpop qo = Some (Some q', Some m) \<and> np_rep (Some q') ms \<and> nq_hash q' = nq_hash q"
proof -
  assume a: "np_rep qo []"
  show "lpop qo = Some (qo, None)"
  proof (cases qo)
    case (Some q)
    then have "ring_len (nq_cap q) (nq_head q) (nq_tail q) = 0" "nq_wf q"
      using a by (auto simp: np_rep_def nq_items_def dest: arg_cong[where f = length])
    then show ?thesis using Some by (simp add: lpop_def nq_wf_def ring_len_eq_0)
  qed (simp add: lpop_def)
next
  assume a: "np_rep qo (m # ms)"
  then obtain q where q: "qo = Some q" "nq_wf q" "nq_items q = map Some (m # ms)"
    by (auto simp: np_rep_def split: option.splits)
  have ne: "nq_head q \<noteq> nq_tail q" using q(3) by (auto simp: nq_items_def)
  let ?h = "ring_next (nq_cap q) (nq_head q)"
  have "ring_len (nq_cap q) (nq_head q) (nq_tail q) = Suc (ring_len (nq_cap q) ?h (nq_tail q))"
    using q(2) ne by (intro ring_len_pop) (auto simp: nq_wf_def)
  moreover have "nq_head q < length (nq_queue q)" "length (nq_queue q) = nq_cap q" using q(2) by (auto simp: nq_wf_def)
  ultimately have "nq_queue q ! nq_head q = Some m" "nq_items (q\<lparr>nq_head := ?h\<rparr>) = map Some ms"
    using q(3) ring_list_Cons[of "nq_head q" "nq_queue q"] by (auto simp: nq_items_def)
  with q ne show "\<exists>q q'. qo = Some q \<and> lpop qo = Some (Some q', Some m) \<and> np_rep (Some q') ms \<and> nq_hash q' = nq_hash q"
    by (auto simp: lpop_def ring_next_def np_rep_def nq_wf_def)
qed

interpretation npq: fifo np_rep "\<lambda>_ _. True" push_data lpop
proof
  show "\<exists>q'. push_data m q = Some q' \<and> np_rep q' (ms @ [m])" if "np_rep q ms" for q ms m
    using push_data_rep[OF that, of m] by blast
  show "\<exists>q'. lpop q = Some (q', None) \<and> np_rep q' []" if "np_rep q []" for q
    using lpop_rep(1)[OF that] that by blast
  show "\<exists>q'. lpop q = Some (q', Some m) \<and> np_rep q' ms" if "np_rep q (m # ms)" for q m ms
    using lpop_rep(2)[OF that] by blast
qed

section \<open>Framing\<close>

text \<open>The packages of a byte stream and the bytes of the unfinished one.\<close>

function frames :: "u8 list \<Rightarrow> u8 list list \<times> u8 list" where
  "frames (b0 # b1 # data) =
     (let n = be_val [b0, b1]
      in if length data < n then ([], b0 # b1 # data)
         else (let (fs, r) = frames (drop n data) in (take n data # fs, r)))"
| "frames [b] = ([], [b])"
| "frames [] = ([], [])"
  by pat_completeness auto
termination
  by (relation "measure length") auto

lemma read_size_val: "read_size b0 b1 = be_val [b0, b1]"
  using shift_or_add[of "unat b1" 8 "unat b0"] unat_u8[of b1] by (simp add: read_size_def be_val_def)

lemma write_size_bytes: "write_size n = be_bytes 2 n"
proof -
  have m: "x AND 255 = x mod 256" for x :: nat using take_bit_eq_mask[of 8 x] by (simp add: take_bit_eq_mod mask_eq_exp_minus_1)
  have "[0..<2] = [0, 1 :: nat]" by (simp add: upt_rec)
  then show ?thesis by (simp add: write_size_def be_bytes_def le_bytes_def m drop_bit_eq_div)
qed

lemma write_size_read: "write_size (be_val [b0, b1]) = [b0, b1]"
proof -
  have "be_val [b0, b1] = 256 * unat b0 + unat b1" by (simp add: be_val_def)
  then have "be_val [b0, b1] div 256 mod 256 = unat b0" "be_val [b0, b1] mod 256 = unat b1"
    using unat_u8[of b0] unat_u8[of b1] by simp_all
  then show ?thesis by (simp add: write_size_bytes be_bytes_def le_bytes_def numeral_2_eq_2)
qed

lemma frames_sized:
  assumes "n < 65536"
  shows "frames (write_size n @ data) =
    (if length data < n then ([], write_size n @ data)
     else (let (fs, r) = frames (drop n data) in (take n data # fs, r)))"
proof -
  obtain b0 b1 where w: "write_size n = [b0, b1]" by (simp add: write_size_def)
  have "be_val [b0, b1] = n" using be_val_bytes[of 2 n] assms w by (simp add: write_size_bytes)
  then show ?thesis by (simp add: w Let_def)
qed

lemma frames_append:
  "frames (xs @ ys) = (fst (frames xs) @ fst (frames (snd (frames xs) @ ys)), snd (frames (snd (frames xs) @ ys)))"
proof (induction xs rule: frames.induct)
  case (1 b0 b1 data)
  show ?case
  proof (cases "length data < be_val [b0, b1]")
    case False
    then show ?thesis using 1[OF refl False] by (simp add: Let_def split_beta)
  qed (simp add: Let_def)
qed simp_all

section \<open>The unfinished packages\<close>

definition uc_ok :: "uncomplete \<Rightarrow> bool" where
  [inv_defs]: "uc_ok uc \<longleftrightarrow>
     (uc_read uc = -1 \<and> uc_header uc < 256) \<or>
     (0 \<le> uc_read uc \<and> uc_read uc < int (np_size (uc_pack uc)) \<and> np_size (uc_pack uc) < 65536
      \<and> length (np_buffer (uc_pack uc)) = np_size (uc_pack uc)
      \<and> (\<exists>bs. take (nat (uc_read uc)) (np_buffer (uc_pack uc)) = map Some bs))"

definition uc_bytes :: "uncomplete \<Rightarrow> u8 list" where
  "uc_bytes uc = (if uc_read uc < 0 then [of_nat (uc_header uc)]
     else write_size (np_size (uc_pack uc)) @ map the (take (nat (uc_read uc)) (np_buffer (uc_pack uc))))"

abbreviation "uc_id uc \<equiv> np_id (uc_pack uc)"

definition chains_ok :: "(nat \<Rightarrow> uncomplete list) \<Rightarrow> bool" where
  [inv_defs]: "chains_ok H \<longleftrightarrow>
     (\<forall>h. (\<forall>uc \<in> set (H h). hash_fd (uc_id uc) = h \<and> uc_ok uc) \<and> distinct (map uc_id (H h)))"

definition chain_pending :: "(nat \<Rightarrow> uncomplete list) \<Rightarrow> int \<Rightarrow> u8 list" where
  "chain_pending H fd = (case fst (unlink_uncomplete fd (H (hash_fd fd))) of None \<Rightarrow> [] | Some uc \<Rightarrow> uc_bytes uc)"

lemma uc_bytes_ne [simp]: "uc_bytes uc \<noteq> []"
  by (simp add: uc_bytes_def write_size_def)

lemma unlink_None: "fst (unlink_uncomplete fd cs) = None \<longleftrightarrow> fd \<notin> uc_id ` set cs"
  by (induction cs) (auto split: prod.splits)

lemma unlink_None_id: "fd \<notin> uc_id ` set cs \<Longrightarrow> unlink_uncomplete fd cs = (None, cs)"
  by (induction cs) auto

lemma unlink_Some:
  assumes "unlink_uncomplete fd cs = (Some uc, cs')"
  shows "uc \<in> set cs" "uc_id uc = fd" "set cs' \<subseteq> set cs"
  using assms by (induction cs arbitrary: cs') (auto split: if_splits prod.splits)

lemma unlink_distinct:
  assumes "distinct (map uc_id cs)" "unlink_uncomplete fd cs = (r, cs')"
  shows "distinct (map uc_id cs')" "uc_id ` set cs' = uc_id ` set cs - {fd}"
    "fd' \<noteq> fd \<Longrightarrow> fst (unlink_uncomplete fd' cs') = fst (unlink_uncomplete fd' cs)"
  using assms
proof (induction cs arbitrary: cs')
  case (Cons c cs)
  { case 1 then show ?case using Cons.IH(1,2) by (fastforce split: if_splits prod.splits) next
    case 2
    show ?case
    proof (cases "uc_id c = fd")
      case False
      then obtain cs2 where "unlink_uncomplete fd cs = (r, cs2)" "cs' = c # cs2" using 2 by (auto split: prod.splits)
      with Cons.IH(2)[of cs2] 2 False show ?thesis by auto
    qed (use 2 in auto)
  next
    case 3 then show ?case using Cons.IH(3) by (fastforce split: if_splits prod.splits) }
qed simp_all

lemma chain_unlink:
  assumes ok: "chains_ok H" and u: "unlink_uncomplete fd (H (hash_fd fd)) = (r, cs')"
  defines "H' \<equiv> H(hash_fd fd := cs')"
  shows "chains_ok H'" "chain_pending H' = (chain_pending H)(fd := [])"
    "case r of None \<Rightarrow> chain_pending H fd = [] | Some uc \<Rightarrow> uc_ok uc \<and> uc_id uc = fd \<and> chain_pending H fd = uc_bytes uc"
proof -
  have d: "distinct (map uc_id (H (hash_fd fd)))" using ok by (simp add: chains_ok_def)
  note ud = unlink_distinct[OF d u]
  have sub: "set cs' \<subseteq> set (H (hash_fd fd))"
  proof (cases r)
    case None
    then show ?thesis using u unlink_None[of fd "H (hash_fd fd)"] unlink_None_id[of fd "H (hash_fd fd)"] by auto
  next
    case (Some uc)
    then show ?thesis using unlink_Some(3) u by blast
  qed
  then show "chains_ok H'" using ok ud(1) by (auto simp: chains_ok_def H'_def)
  show "chain_pending H' = (chain_pending H)(fd := [])"
  proof
    fix fd'
    show "chain_pending H' fd' = ((chain_pending H)(fd := [])) fd'"
    proof (cases "fd' = fd")
      case True
      have "fst (unlink_uncomplete fd cs') = None" using ud(2) by (simp add: unlink_None)
      with True show ?thesis by (simp add: chain_pending_def H'_def)
    next
      case False
      then show ?thesis using ud(3)[OF False] by (simp add: chain_pending_def H'_def)
    qed
  qed
  show "case r of None \<Rightarrow> chain_pending H fd = [] | Some uc \<Rightarrow> uc_ok uc \<and> uc_id uc = fd \<and> chain_pending H fd = uc_bytes uc"
    using u ok unlink_Some[of fd "H (hash_fd fd)"] by (auto simp: chain_pending_def chains_ok_def split: option.split)
qed

lemma chain_save:
  assumes ok: "chains_ok H" and p: "chain_pending H (uc_id uc) = []" and uc: "uc_ok uc"
  defines "H' \<equiv> H(hash_fd (uc_id uc) := uc # H (hash_fd (uc_id uc)))"
  shows "chains_ok H'" "chain_pending H' = (chain_pending H)(uc_id uc := uc_bytes uc)"
proof -
  have "uc_id uc \<notin> uc_id ` set (H (hash_fd (uc_id uc)))"
    using p unlink_None by (fastforce simp: chain_pending_def split: option.splits)
  with ok uc show "chains_ok H'" by (auto simp: chains_ok_def H'_def)
  show "chain_pending H' = (chain_pending H)(uc_id uc := uc_bytes uc)"
    by (rule ext) (auto simp: chain_pending_def H'_def split: prod.split)
qed

section \<open>Refinement\<close>

text \<open>\<open>np_st q P ms\<close>: \<open>P fd\<close> are the bytes of the unfinished package of \<open>fd\<close>, \<open>ms\<close> the queued packages.\<close>

definition np_st :: "nqueue option \<Rightarrow> (int \<Rightarrow> u8 list) \<Rightarrow> netpack list \<Rightarrow> bool" where
  "np_st qo P ms \<longleftrightarrow> np_rep qo ms \<and> chains_ok (nq_hash (get_queue qo)) \<and> chain_pending (nq_hash (get_queue qo)) = P"

lemma np_st_None: "np_st None (\<lambda>_. []) []"
  by (auto simp: np_st_def np_rep_def get_queue_def new_queue_def chains_ok_def chain_pending_def)

lemma get_queue_Some [simp]: "get_queue (Some q) = q"
  by (simp add: get_queue_def)

lemma np_rep_hash:
  "np_rep qo ms \<Longrightarrow> np_rep (Some ((get_queue qo)\<lparr>nq_hash := H\<rparr>)) ms"
  using np_rep_get[of qo ms] by (simp add: np_rep_def nq_wf_def nq_items_def)

lemma push_data_st:
  assumes "np_st qo P ms"
  obtains q' where "push_data np qo = Some q'" "np_st q' P (ms @ [np])"
  using assms push_data_rep[of qo ms np] by (auto simp: np_st_def)

lemma save_st:
  assumes "np_st qo P ms" "P (uc_id uc) = []" "uc_ok uc"
  shows "np_st (save_uncomplete uc qo) (P(uc_id uc := uc_bytes uc)) ms"
  using assms chain_save[of "nq_hash (get_queue qo)" uc] np_rep_hash[of qo ms]
  by (auto simp: np_st_def save_uncomplete_def Let_def)

lemma find_st:
  assumes "np_st qo P ms" "find_uncomplete qo fd = (r, q')"
  shows "np_st q' (P(fd := [])) ms"
    "case r of None \<Rightarrow> P fd = [] | Some uc \<Rightarrow> uc_ok uc \<and> uc_id uc = fd \<and> P fd = uc_bytes uc"
proof -
  have *: "np_st q' (P(fd := [])) ms \<and> (case r of None \<Rightarrow> P fd = [] | Some uc \<Rightarrow> uc_ok uc \<and> uc_id uc = fd \<and> P fd = uc_bytes uc)"
  proof (cases qo)
    case None
    then show ?thesis
      using assms by (auto simp: find_uncomplete_def np_st_def get_queue_def new_queue_def chain_pending_def)
  next
    case (Some q)
    obtain cs where u: "unlink_uncomplete fd (nq_hash q (hash_fd fd)) = (r, cs)"
      "q' = Some (q\<lparr>nq_hash := (nq_hash q)(hash_fd fd := cs)\<rparr>)"
      using assms(2) Some by (auto simp: find_uncomplete_def Let_def split: prod.splits)
    have ok: "chains_ok (nq_hash q)" "chain_pending (nq_hash q) = P" using assms(1) Some by (auto simp: np_st_def)
    show ?thesis using chain_unlink[OF ok(1) u(1)] u(2) ok(2) np_rep_hash[of qo ms] assms(1) Some
      by (auto simp: np_st_def)
  qed
  then show "np_st q' (P(fd := [])) ms"
    "case r of None \<Rightarrow> P fd = [] | Some uc \<Rightarrow> uc_ok uc \<and> uc_id uc = fd \<and> P fd = uc_bytes uc" by blast+
qed

lemma uc_half_ok: "uc_ok (uc_half_header fd b)" "uc_bytes (uc_half_header fd b) = [b]" "uc_id (uc_half_header fd b) = fd"
  using unat_u8[of b] by (simp_all add: uc_ok_def uc_bytes_def uc_half_header_def)

lemma be2_less: "be_val [b0, b1] < 65536"
  using be_val_less[of "[b0, b1]"] by (simp add: numeral_2_eq_2)

lemma uc_partial_ok:
  assumes "length data < n" "n = be_val [b0, b1]"
  obtains uc where "uc_partial fd n data = Some uc" "uc_ok uc" "uc_id uc = fd" "uc_bytes uc = b0 # b1 # data"
proof -
  let ?uc = "\<lparr>uc_pack = \<lparr>np_id = fd, np_size = n, np_buffer = map Some data @ replicate (n - length data) None\<rparr>,
    uc_read = int (length data), uc_header = 0\<rparr>"
  have p: "uc_partial fd n data = Some ?uc" using assms(1) by (simp add: uc_partial_def mem_copy_def)
  have ok: "uc_ok ?uc" using assms be2_less[of b0 b1] by (auto simp: uc_ok_def)
  have b: "uc_bytes ?uc = b0 # b1 # data" using assms(2) write_size_read[of b0 b1] by (simp add: uc_bytes_def comp_def)
  show ?thesis by (rule that[OF p ok _ b]) simp
qed

lemma push_more_st:
  "np_st qo P ms \<Longrightarrow> P fd = [] \<Longrightarrow> data \<noteq> [] \<Longrightarrow>
    \<exists>q'. push_more fd data qo = Some q' \<and> np_st q' (P(fd := snd (frames data))) (ms @ map (clone_pack fd) (fst (frames data)))"
proof (induction fd data qo arbitrary: ms rule: push_more.induct)
  case (2 fd b q)
  then show ?case using save_st[of q P ms "uc_half_header fd b"] by (simp add: uc_half_ok fun_upd_def)
next
  case (3 fd b0 b1 data q)
  let ?n = "read_size b0 b1"
  show ?case
  proof (cases "length data < ?n")
    case True
    then obtain uc where "uc_partial fd ?n data = Some uc" "uc_ok uc" "uc_id uc = fd" "uc_bytes uc = b0 # b1 # data"
      using uc_partial_ok[of data ?n b0 b1 fd] by (metis read_size_val)
    with True 3(2,3) save_st[of q P ms uc] show ?thesis by (simp add: Let_def read_size_val fun_upd_def)
  next
    case False
    obtain q1 where q1: "push_data (clone_pack fd (take ?n data)) q = Some q1"
      "np_st q1 P (ms @ [clone_pack fd (take ?n data)])"
      using push_data_st[OF 3(2)] by metis
    show ?thesis
    proof (cases "drop ?n data = []")
      case True
      with q1 False 3(3) show ?thesis by (auto simp: Let_def read_size_val fun_upd_idem)
    next
      case ne: False
      then have l: "0 < length (drop ?n data)" by simp
      from 3(1)[OF refl False q1(1) refl l q1(2) 3(3) ne]
      show ?thesis using q1 False l by (auto simp: Let_def read_size_val split_beta)
    qed
  qed
qed simp

text \<open>The specification: append the chunk to the bytes of the socket and cut off the complete
  packages; one package and nothing else is returned at once, several go to the queue.\<close>

definition spec_recv :: "int \<Rightarrow> u8 list \<Rightarrow> (int \<Rightarrow> u8 list) \<Rightarrow> netpack list
    \<Rightarrow> (int \<Rightarrow> u8 list) \<times> netpack list \<times> np_event" where
  "spec_recv fd data P ms =
     (let (fs, r) = frames (P fd @ data); P' = P(fd := r)
      in if fs = [] then (P', ms, NpNone)
         else if tl fs = [] \<and> r = [] then (P', ms, NpData (clone_pack fd (hd fs)))
         else (P', ms @ map (clone_pack fd) fs, NpMore))"

lemma frames_rest_ne: "xs \<noteq> [] \<Longrightarrow> frames xs \<noteq> ([], [])"
  by (induction xs rule: frames.induct) (auto simp: Let_def split_beta)

lemma spec_recv_exact: "frames (P fd @ data) = ([f], []) \<Longrightarrow> spec_recv fd data P ms = (P(fd := []), ms, NpData (clone_pack fd f))"
  by (simp add: spec_recv_def)

lemma spec_recv_more:
  assumes "frames (P fd @ data) = (f # fst (frames rest), snd (frames rest))" "rest \<noteq> []"
  shows "spec_recv fd data P ms =
    (P(fd := snd (frames rest)), ms @ clone_pack fd f # map (clone_pack fd) (fst (frames rest)), NpMore)"
  using assms frames_rest_ne[OF assms(2)] by (cases "frames rest") (auto simp: spec_recv_def Let_def)

text \<open>A package that becomes complete, followed by the bytes \<open>rest\<close>.\<close>

lemma complete_st:
  assumes st: "np_st q (P(fd := [])) ms" and fr: "frames (P fd @ data) = (f # fst (frames rest), snd (frames rest))"
  shows "\<exists>q'. (if length rest = 0 then Some (q, NpData (clone_pack fd f))
      else do { q1 \<leftarrow> push_data (clone_pack fd f) q; q2 \<leftarrow> push_more fd rest q1; Some (q2, NpMore) })
        = Some (q', snd (snd (spec_recv fd data P ms)))
    \<and> np_st q' (fst (spec_recv fd data P ms)) (fst (snd (spec_recv fd data P ms)))"
proof (cases "rest = []")
  case True
  with fr st show ?thesis by (simp add: spec_recv_exact)
next
  case False
  obtain q1 where q1: "push_data (clone_pack fd f) q = Some q1" "np_st q1 (P(fd := [])) (ms @ [clone_pack fd f])"
    using push_data_st[OF st] by metis
  from push_more_st[OF q1(2) _ False, of fd] False q1(1) show ?thesis
    by (auto simp: spec_recv_more[of P fd data f rest ms, OF fr False])
qed

lemma spec_recv_partial: "frames (P fd @ data) = ([], r) \<Longrightarrow> spec_recv fd data P ms = (P(fd := r), ms, NpNone)"
  by (simp add: spec_recv_def)

text \<open>Filling an unfinished package whose length is known.\<close>

lemma mem_copy_append:
  assumes "take k buf = map Some bs" "k \<le> length buf" "k + length xs \<le> length buf"
  shows "\<exists>b. mem_copy buf k xs = Some b \<and> length b = length buf \<and> take (k + length xs) b = map Some (bs @ xs)"
proof -
  have "length bs = k" using assms(1,2) by (metis length_map length_take min_absorb2)
  with assms show ?thesis by (simp add: mem_copy_def)
qed

lemma fill_known:
  assumes "uc_id uc = fd" "0 \<le> uc_read uc" "nat (uc_read uc) \<le> np_size (uc_pack uc)" "np_size (uc_pack uc) < 65536"
    "length (np_buffer (uc_pack uc)) = np_size (uc_pack uc)"
    "take (nat (uc_read uc)) (np_buffer (uc_pack uc)) = map Some bs"
    "P fd @ data = write_size (np_size (uc_pack uc)) @ bs @ buf" "np_st q (P(fd := [])) ms"
  defines "need \<equiv> np_size (uc_pack uc) - nat (uc_read uc)"
  shows "\<exists>q'. fill_body fd uc buf q = Some (q', snd (snd (spec_recv fd data P ms)))
    \<and> np_st q' (fst (spec_recv fd data P ms)) (fst (snd (spec_recv fd data P ms)))"
proof -
  let ?n = "np_size (uc_pack uc)" and ?k = "nat (uc_read uc)"
  have bs: "length bs = ?k" using assms(3,5,6) by (metis length_map length_take min_absorb2)
  have fr: "frames (P fd @ data) = (if length (bs @ buf) < ?n then ([], write_size ?n @ bs @ buf)
     else (let (fs, r) = frames (drop ?n (bs @ buf)) in (take ?n (bs @ buf) # fs, r)))"
    using frames_sized[OF assms(4), of "bs @ buf"] assms(7) by simp
  show ?thesis
  proof (cases "length buf < need")
    case True
    then have lt: "length (bs @ buf) < ?n" using bs assms(3) by (simp add: need_def)
    obtain b where b: "mem_copy (np_buffer (uc_pack uc)) ?k buf = Some b" "length b = ?n"
      "take (?k + length buf) b = map Some (bs @ buf)"
      using mem_copy_append[OF assms(6), of buf] assms(5) lt bs by auto
    define uc' where "uc' = uc\<lparr>uc_pack := (uc_pack uc)\<lparr>np_buffer := b\<rparr>, uc_read := uc_read uc + int (length buf)\<rparr>"
    have k: "nat (uc_read uc + int (length buf)) = ?k + length buf" using assms(2) by (simp add: nat_add_distrib)
    have "uc_ok uc'" "uc_bytes uc' = write_size ?n @ bs @ buf" "uc_id uc' = fd"
      using assms(1,2,4) b(2,3) lt bs k by (auto simp: uc'_def uc_ok_def uc_bytes_def simp flip: map_append)
    with save_st[OF assms(8), of uc'] show ?thesis using True b(1) fr lt
      by (simp add: uc'_def spec_recv_partial fill_body_def need_def)
  next
    case False
    then have ge: "\<not> length (bs @ buf) < ?n" using bs assms(3) by (simp add: need_def)
    have nk: "?k + length (take need buf) = ?n" using False assms(3) by (simp add: need_def)
    obtain b where b: "mem_copy (np_buffer (uc_pack uc)) ?k (take need buf) = Some b" "length b = ?n"
      "take ?n b = map Some (bs @ take need buf)"
      using mem_copy_append[OF assms(6), of "take need buf"] assms(3,5) nk by auto
    have f: "take ?n (bs @ buf) = bs @ take need buf" "drop ?n (bs @ buf) = drop need buf"
      using bs assms(3) by (simp_all add: need_def)
    have pk: "(uc_pack uc)\<lparr>np_buffer := b\<rparr> = clone_pack fd (bs @ take need buf)"
      using b(2,3) assms(1) nk bs by (simp add: clone_pack_def)
    have "frames (P fd @ data) = ((bs @ take need buf) # fst (frames (drop need buf)), snd (frames (drop need buf)))"
      using fr ge f by (simp add: split_beta)
    from complete_st[OF assms(8) this] show ?thesis
      using False b(1) by (auto simp: fill_body_def need_def[symmetric] pk Let_def split: if_splits)
  qed
qed

lemma fill_st:
  assumes "uc_ok uc" "uc_id uc = fd" "P fd = uc_bytes uc" "np_st q (P(fd := [])) ms" "data \<noteq> []"
  shows "\<exists>q'. fill_uncomplete fd uc data q = Some (q', snd (snd (spec_recv fd data P ms)))
    \<and> np_st q' (fst (spec_recv fd data P ms)) (fst (snd (spec_recv fd data P ms)))"
proof (cases "uc_read uc < 0")
  case True
  then have r: "uc_read uc = -1" "uc_header uc < 256" using assms(1) by (auto simp: uc_ok_def)
  obtain b rest where d: "data = b # rest" using assms(5) by (cases data) auto
  define n where "n = unat b OR push_bit 8 (uc_header uc)"
  define h where "h = (of_nat (uc_header uc) :: u8)"
  have "unat h = uc_header uc" using r(2) by (simp add: h_def unat_of_nat)
  then have n: "n = be_val [h, b]" using read_size_val[of h b] by (simp add: n_def read_size_def or.commute)
  define uc1 where "uc1 = uc\<lparr>uc_pack := (uc_pack uc)\<lparr>np_size := n, np_buffer := replicate n None\<rparr>, uc_read := 0\<rparr>"
  have "P fd @ data = write_size n @ [] @ rest" using assms(3) True d write_size_read[of h b] n by (simp add: uc_bytes_def h_def)
  moreover have "fill_header uc data = Some (uc1, rest)" using r(1) d by (simp add: fill_header_def uc1_def n_def Let_def)
  ultimately show ?thesis using fill_known[of uc1 fd "[]" P data rest q ms, OF _ _ _ _ _ _ _ assms(4)] be2_less[of h b] n assms(2)
    by (simp add: fill_uncomplete_def uc1_def)
next
  case False
  then obtain bs where bs: "take (nat (uc_read uc)) (np_buffer (uc_pack uc)) = map Some bs" using assms(1) by (auto simp: uc_ok_def)
  have b: "P fd @ data = write_size (np_size (uc_pack uc)) @ bs @ data" using assms(3) False bs by (simp add: uc_bytes_def comp_def)
  from fill_known[OF assms(2) _ _ _ _ bs b assms(4)] False assms(1) show ?thesis
    by (auto simp: fill_uncomplete_def fill_header_def uc_ok_def)
qed

lemma filter_data_st:
  assumes "np_st qo P ms" "data \<noteq> []"
  shows "\<exists>q'. filter_data fd data qo = Some (q', snd (snd (spec_recv fd data P ms)))
    \<and> np_st q' (fst (spec_recv fd data P ms)) (fst (snd (spec_recv fd data P ms)))"
proof -
  obtain r q where f: "find_uncomplete qo fd = (r, q)" by fastforce
  note st = find_st[OF assms(1) f]
  show ?thesis
  proof (cases r)
    case (Some uc)
    with st fill_st[of uc fd P q ms data] assms(2) f show ?thesis by (simp add: filter_data_def)
  next
    case None
    with st have P: "P fd = []" by simp
    consider b where "data = [b]" | b0 b1 rest where "data = b0 # b1 # rest" using assms(2)
      by (metis neq_Nil_conv)
    then show ?thesis
    proof cases
      case (1 b)
      with f None P save_st[OF st(1), of "uc_half_header fd b"] show ?thesis
        by (simp add: filter_data_def uc_half_ok spec_recv_partial)
    next
      case (2 b0 b1 rest)
      let ?n = "read_size b0 b1"
      have fr: "frames (P fd @ data) = (if length rest < ?n then ([], b0 # b1 # rest)
         else (take ?n rest # fst (frames (drop ?n rest)), snd (frames (drop ?n rest))))"
        using 2 P by (simp add: read_size_val Let_def split_beta)
      consider "length rest < ?n" | "length rest = ?n" | "length rest > ?n" by linarith
      then show ?thesis
      proof cases
        case 1
        then obtain uc where "uc_partial fd ?n rest = Some uc" "uc_ok uc" "uc_id uc = fd" "uc_bytes uc = b0 # b1 # rest"
          using uc_partial_ok[of rest ?n b0 b1 fd] by (metis read_size_val)
        with 1 f None P 2 fr save_st[OF st(1), of uc] show ?thesis
          by (simp add: filter_data_def spec_recv_partial)
      next
        case eq: 2
        with fr have fr': "frames (P fd @ data) = (rest # fst (frames []), snd (frames []))" by simp
        from complete_st[OF st(1) fr'] eq f None 2 show ?thesis by (simp add: filter_data_def)
      next
        case 3
        with fr have fr': "frames (P fd @ data) = (take ?n rest # fst (frames (drop ?n rest)), snd (frames (drop ?n rest)))" by simp
        from complete_st[OF st(1) fr'] 3 f None 2 show ?thesis by (simp add: filter_data_def Let_def)
      qed
    qed
  qed
qed

section \<open>Scripts of messages and pops\<close>

datatype np_op = OpMsg np_msg | OpPop

datatype np_out = OutEvent np_event | OutPop "netpack option"

fun np_run :: "np_op list \<Rightarrow> nqueue option \<Rightarrow> (nqueue option \<times> np_out list) option" where
  "np_run [] q = Some (q, [])"
| "np_run (OpMsg m # ops) q = do { (q1, ev) \<leftarrow> lfilter m q; (q2, out) \<leftarrow> np_run ops q1; Some (q2, OutEvent ev # out) }"
| "np_run (OpPop # ops) q = do { (q1, r) \<leftarrow> lpop q; (q2, out) \<leftarrow> np_run ops q1; Some (q2, OutPop r # out) }"

text \<open>The specification of a message: the bytes of each socket and the list of queued packages.\<close>

definition spec_filter :: "np_msg \<Rightarrow> (int \<Rightarrow> u8 list) \<Rightarrow> netpack list \<Rightarrow> (int \<Rightarrow> u8 list) \<times> netpack list \<times> np_event" where
  "spec_filter m P ms =
     (case m of
        MData fd data \<Rightarrow> spec_recv fd data P ms
      | MConnect fd \<Rightarrow> (P, ms, NpNone)
      | MClose fd \<Rightarrow> (P(fd := []), ms, NpClose fd)
      | MAccept fd ud txt \<Rightarrow> (P, ms, NpOpen ud txt)
      | MError fd txt \<Rightarrow> (P(fd := []), ms, NpError fd txt)
      | MWarning fd ud \<Rightarrow> (P, ms, NpWarning fd ud)
      | MOther \<Rightarrow> (P, ms, NpNone))"

fun np_spec_run :: "np_op list \<Rightarrow> (int \<Rightarrow> u8 list) \<Rightarrow> netpack list \<Rightarrow> np_out list" where
  "np_spec_run [] P ms = []"
| "np_spec_run (OpMsg m # ops) P ms =
     (let (P', ms', ev) = spec_filter m P ms in OutEvent ev # np_spec_run ops P' ms')"
| "np_spec_run (OpPop # ops) P ms =
     OutPop (case ms of [] \<Rightarrow> None | m # _ \<Rightarrow> Some m) # np_spec_run ops P (tl ms)"

definition np_op_ok :: "np_op \<Rightarrow> bool" where
  "np_op_ok c = (case c of OpMsg (MData fd data) \<Rightarrow> data \<noteq> [] | _ \<Rightarrow> True)"

lemma close_st: "np_st q P ms \<Longrightarrow> np_st (close_uncomplete q fd) (P(fd := [])) ms"
  using find_st(1)[of q P ms fd] by (cases "find_uncomplete q fd") (simp add: close_uncomplete_def)

lemma lfilter_st:
  assumes "np_st q P ms" "np_op_ok (OpMsg m)"
  shows "\<exists>q'. lfilter m q = Some (q', snd (snd (spec_filter m P ms)))
    \<and> np_st q' (fst (spec_filter m P ms)) (fst (snd (spec_filter m P ms)))"
proof (cases m)
  case (MData fd data)
  with filter_data_st[OF assms(1)] assms(2) show ?thesis by (simp add: lfilter_def spec_filter_def np_op_ok_def)
qed (use assms(1) close_st[OF assms(1)] in \<open>simp_all add: lfilter_def spec_filter_def\<close>)

lemma lpop_st:
  assumes "np_st q P ms"
  shows "\<exists>q'. lpop q = Some (q', case ms of [] \<Rightarrow> None | m # _ \<Rightarrow> Some m) \<and> np_st q' P (tl ms)"
proof (cases ms)
  case Nil
  with assms lpop_rep(1)[of q] show ?thesis by (auto simp: np_st_def)
next
  case (Cons m ms')
  with assms lpop_rep(2)[of q m ms'] show ?thesis by (auto simp: np_st_def)
qed

lemma np_run_st: "list_all np_op_ok ops \<Longrightarrow> np_st q P ms \<Longrightarrow> \<exists>q'. np_run ops q = Some (q', np_spec_run ops P ms)"
proof (induction ops arbitrary: q P ms)
  case (Cons c ops)
  show ?case
  proof (cases c)
    case (OpMsg m)
    with lfilter_st[OF Cons.prems(2), of m] Cons.prems(1) obtain q' where
      "lfilter m q = Some (q', snd (snd (spec_filter m P ms)))"
      "np_st q' (fst (spec_filter m P ms)) (fst (snd (spec_filter m P ms)))" by auto
    with Cons.IH[of q'] Cons.prems(1) OpMsg show ?thesis by (fastforce simp: split_beta Let_def)
  next
    case OpPop
    with lpop_st[OF Cons.prems(2)] Cons.IH[of _ P "tl ms"] Cons.prems(1) show ?thesis by fastforce
  qed
qed simp

section \<open>Delivering everything that arrives\<close>

text \<open>Popping until the queue is empty, as the gate server does after each message.\<close>

fun drain :: "nat \<Rightarrow> nqueue option \<Rightarrow> (nqueue option \<times> netpack list) option" where
  "drain 0 q = None"
| "drain (Suc n) q = do {
     (q1, r) \<leftarrow> lpop q;
     (case r of
        None \<Rightarrow> Some (q1, [])
      | Some np \<Rightarrow> do { (q2, out) \<leftarrow> drain n q1; Some (q2, np # out) }) }"

fun deliver :: "(int \<times> u8 list) list \<Rightarrow> nqueue option \<Rightarrow> (nqueue option \<times> netpack list) option" where
  "deliver [] q = Some (q, [])"
| "deliver ((fd, data) # cs) q = do {
     (q1, ev) \<leftarrow> lfilter (MData fd data) q;
     (q2, out) \<leftarrow> drain (Suc (nq_cap (get_queue q1))) q1;
     (q3, out') \<leftarrow> deliver cs q2;
     Some (q3, (case ev of NpData np \<Rightarrow> [np] | _ \<Rightarrow> []) @ out @ out') }"

definition stream :: "int \<Rightarrow> (int \<times> u8 list) list \<Rightarrow> u8 list" where
  "stream fd cs = concat (map snd (filter (\<lambda>(f, _). f = fd) cs))"

lemma drain_st: "np_st q P ms \<Longrightarrow> length ms < n \<Longrightarrow> \<exists>q'. drain n q = Some (q', ms) \<and> np_st q' P []"
proof (induction n arbitrary: q ms)
  case (Suc n)
  with lpop_st[OF Suc.prems(1)] obtain q1 where
    q1: "lpop q = Some (q1, case ms of [] \<Rightarrow> None | m # _ \<Rightarrow> Some m)" "np_st q1 P (tl ms)" by auto
  show ?case
  proof (cases ms)
    case (Cons m ms')
    with q1 Suc.prems(2) Suc.IH[of q1 ms'] show ?thesis by fastforce
  qed (use q1 in simp)
qed simp

lemma np_st_items_cap: "np_st q P ms \<Longrightarrow> length ms < nq_cap (get_queue q)"
proof -
  assume "np_st q P ms"
  then have r: "nq_wf (get_queue q)" "nq_items (get_queue q) = map Some ms" using np_rep_get by (auto simp: np_st_def)
  then have "length ms = ring_len (nq_cap (get_queue q)) (nq_head (get_queue q)) (nq_tail (get_queue q))"
    by (metis length_map length_ring_list nq_items_def)
  with r(1) show ?thesis by (simp add: nq_wf_def ring_len_less)
qed

lemma deliver_stream:
  assumes "list_all (\<lambda>(fd, data). data \<noteq> []) cs" "np_st q P []"
  shows "\<exists>q' out. deliver cs q = Some (q', out) \<and>
    (\<forall>fd. frames (P fd) = ([], P fd) \<longrightarrow> filter (\<lambda>np. np_id np = fd) out = map (clone_pack fd) (fst (frames (P fd @ stream fd cs))))"
  using assms
proof (induction cs arbitrary: q P)
  case Nil
  then show ?case by (auto simp: stream_def)
next
  case (Cons c cs)
  obtain f data where c: "c = (f, data)" by fastforce
  let ?S = "spec_recv f data P []"
  obtain q1 where q1: "lfilter (MData f data) q = Some (q1, snd (snd ?S))" "np_st q1 (fst ?S) (fst (snd ?S))"
    using lfilter_st[OF Cons.prems(2), of "MData f data"] Cons.prems(1) c by (auto simp: np_op_ok_def spec_filter_def)
  obtain q2 where q2: "drain (Suc (nq_cap (get_queue q1))) q1 = Some (q2, fst (snd ?S))" "np_st q2 (fst ?S) []"
    using drain_st[OF q1(2), of "Suc (nq_cap (get_queue q1))"] np_st_items_cap[OF q1(2)] by auto
  have cs: "list_all (\<lambda>(fd, data). data \<noteq> []) cs" using Cons.prems(1) by simp
  obtain q3 out where q3: "deliver cs q2 = Some (q3, out)"
    "\<And>fd. frames (fst ?S fd) = ([], fst ?S fd) \<Longrightarrow>
       filter (\<lambda>np. np_id np = fd) out = map (clone_pack fd) (fst (frames (fst ?S fd @ stream fd cs)))"
    using Cons.IH[OF cs q2(2)] by auto
  define now where "now = (case snd (snd ?S) of NpData np \<Rightarrow> [np] | _ \<Rightarrow> []) @ fst (snd ?S)"
  have now: "now = map (clone_pack f) (fst (frames (P f @ data)))"
    by (auto simp: now_def spec_recv_def Let_def split_beta neq_Nil_conv)
  have P': "fst ?S = P(f := snd (frames (P f @ data)))" by (simp add: spec_recv_def Let_def split_beta)
  have idem: "frames (snd (frames xs)) = ([], snd (frames xs))" for xs
    by (induction xs rule: frames.induct) (auto simp: Let_def split_beta)
  have "filter (\<lambda>np. np_id np = fd) (now @ out) = map (clone_pack fd) (fst (frames (P fd @ stream fd (c # cs))))"
    if "frames (P fd) = ([], P fd)" for fd
  proof (cases "fd = f")
    case True
    have "filter (\<lambda>np. np_id np = fd) now = now" using True by (auto simp: now clone_pack_def intro!: filter_True)
    with q3(2)[of fd] idem P' True frames_append[of "P f @ data" "stream f cs"] show ?thesis
      by (simp add: now c stream_def)
  next
    case False
    have "filter (\<lambda>np. np_id np = fd) now = []" using False by (auto simp: now clone_pack_def filter_empty_conv)
    with q3(2)[of fd] that P' False show ?thesis by (simp add: c stream_def)
  qed
  moreover have "deliver (c # cs) q = Some (q3, now @ out)" using q1(1) q2(1) q3(1) by (simp add: c now_def del: drain.simps)
  ultimately show ?case by blast
qed

lemma frames_packed:
  assumes "map lpack msgs = map Ret packed"
  shows "frames (concat packed) = (msgs, [])"
  using assms
proof (induction msgs arbitrary: packed)
  case (Cons m msgs)
  then obtain p ps where p: "packed = p # ps" "lpack m = Ret p" "map lpack msgs = map Ret ps" by (cases packed) auto
  have m: "length m < 65536" "p = write_size (length m) @ m" using p(2) by (auto simp: lpack_def split: if_splits)
  show ?case using frames_sized[OF m(1), of "m @ concat ps"] Cons.IH[OF p(3)] by (simp add: p(1) m(2))
qed simp

lemma lclear_items:
  assumes "nq_wf q" "nq_items q = map Some ms"
  defines "tail \<equiv> (if nq_head q > nq_tail q then nq_tail q + nq_cap q else nq_tail q)"
  shows "map (\<lambda>i. nq_queue q ! (i mod nq_cap q)) [nq_head q..<tail] = map Some ms"
proof -
  let ?n = "ring_len (nq_cap q) (nq_head q) (nq_tail q)"
  have t: "tail = nq_head q + ?n" using assms(1) by (auto simp: tail_def ring_len_def nq_wf_def)
  have "[nq_head q..<nq_head q + ?n] = map (\<lambda>i. nq_head q + i) [0..<?n]"
    by (rule nth_equalityI) auto
  then have "map (\<lambda>i. nq_queue q ! (i mod nq_cap q)) [nq_head q..<tail] = nq_items q"
    using assms(1) t by (simp add: nq_items_def ring_list_def nq_wf_def comp_def del: upt_conv_Nil)
  with assms(2) show ?thesis by simp
qed

section \<open>Properties\<close>

text \<open>C25: on every sequence of socket messages and pops, whatever the chunks the streams arrive in
  and however the sockets are interleaved, the splitter returns exactly what the specification
  returns: per socket the bytes not yet consumed, and one list of complete packages; closing a socket
  forgets its bytes only.  No access is out of range.\<close>

theorem netpack_refines:
  assumes "list_all np_op_ok ops"
  shows "\<exists>q. np_run ops None = Some (q, np_spec_run ops (\<lambda>_. []) [])"
  using np_run_st[OF assms np_st_None] .

theorem netpack_refines_witness:
  "\<exists>q. np_run [OpMsg (MData 5 [0, 1, 7, 0, 2, 8]), OpMsg (MData 6 [0]), OpPop, OpMsg (MData 5 [9]), OpMsg (MClose 6)] None =
     Some (q, [OutEvent NpMore, OutEvent NpNone, OutPop (Some (clone_pack 5 [7])), OutEvent (NpData (clone_pack 5 [8, 9])),
       OutEvent (NpClose 6)])"
  using netpack_refines[of "[OpMsg (MData 5 [0, 1, 7, 0, 2, 8]), OpMsg (MData 6 [0]), OpPop, OpMsg (MData 5 [9]), OpMsg (MClose 6)]"]
  by (simp add: np_op_ok_def spec_filter_def spec_recv_def be_val_def)

text \<open>C26: messages that are packed, sent, split into chunks at arbitrary places and mixed with the
  chunks of other sockets are delivered for their socket in order, complete and unchanged.\<close>

theorem netpack_roundtrip:
  assumes "map lpack msgs = map Ret packed" "list_all (\<lambda>(fd, data). data \<noteq> []) chunks"
    "stream fd chunks = concat packed"
  shows "\<exists>q out. deliver chunks None = Some (q, out) \<and> filter (\<lambda>np. np_id np = fd) out = map (clone_pack fd) msgs"
proof -
  obtain q out where "deliver chunks None = Some (q, out)"
    "filter (\<lambda>np. np_id np = fd) out = map (clone_pack fd) (fst (frames ([] @ stream fd chunks)))"
    using deliver_stream[OF assms(2) np_st_None] by auto
  with frames_packed[OF assms(1)] assms(3) show ?thesis by auto
qed

theorem netpack_roundtrip_witness:
  "\<exists>q out. deliver [(3, [0, 2, 1]), (4, [0]), (3, [2, 0]), (3, [0, 0, 1, 9])] None = Some (q, out)
     \<and> filter (\<lambda>np. np_id np = 3) out = map (clone_pack 3) [[1, 2], [], [9]]"
  by (rule netpack_roundtrip[where packed = "[[0, 2, 1, 2], [0, 0], [0, 1, 9]]"])
    (simp_all add: lpack_def write_size_bytes be_bytes_def le_bytes_def numeral_2_eq_2 stream_def)

text \<open>Clearing returns, frees the buffer of every unfinished and of every queued package, and
  leaves an empty splitter.\<close>

lemma netpack_clear:
  assumes "np_st (Some q) P ms"
  shows "\<exists>q'. lclear (Some q) = Some (q',
      map (\<lambda>uc. np_buffer (uc_pack uc)) (concat (map (nq_hash q) [0..<HASHSIZE])) @ map np_buffer ms)
    \<and> np_st q' (\<lambda>_. []) []"
proof -
  have r: "nq_wf q" "nq_items q = map Some ms" using assms by (auto simp: np_st_def np_rep_def)
  note items = lclear_items[OF r]
  let ?t = "if nq_head q > nq_tail q then nq_tail q + nq_cap q else nq_tail q"
  have some: "nq_queue q ! (i mod nq_cap q) \<noteq> None" if "i \<in> set [nq_head q..<?t]" for i
  proof -
    have "nq_queue q ! (i mod nq_cap q) \<in> set (map Some ms)" unfolding items[symmetric] using that by auto
    then show ?thesis by auto
  qed
  have "map (\<lambda>i. np_buffer (the (nq_queue q ! (i mod nq_cap q)))) [nq_head q..<?t] =
      map (np_buffer \<circ> the) (map (\<lambda>i. nq_queue q ! (i mod nq_cap q)) [nq_head q..<?t])" by simp
  also have "\<dots> = map np_buffer ms" unfolding items by simp
  finally have freed: "map (\<lambda>i. np_buffer (the (nq_queue q ! (i mod nq_cap q)))) [nq_head q..<?t] = map np_buffer ms" .
  have g: "list_all (\<lambda>i. i mod nq_cap q < length (nq_queue q) \<and> nq_queue q ! (i mod nq_cap q) \<noteq> None) [nq_head q..<?t]"
    using some r(1) by (auto simp: list_all_iff nq_wf_def)
  have "np_st (Some (q\<lparr>nq_hash := (\<lambda>_. []), nq_head := 0, nq_tail := 0\<rparr>)) (\<lambda>_. []) []"
    using r(1) by (auto simp: np_st_def np_rep_def nq_wf_def nq_items_def chains_ok_def chain_pending_def)
  with freed g show ?thesis by (simp add: lclear_def)
qed

lemma netpack_clear_witness:
  "\<exists>q'. lclear (Some new_queue) = Some (q', map (\<lambda>uc. np_buffer (uc_pack uc)) (concat (map (nq_hash new_queue) [0..<HASHSIZE])))
    \<and> np_st q' (\<lambda>_. []) []"
proof -
  have "np_st (Some new_queue) (\<lambda>_. []) []"
    by (auto simp: np_st_def np_rep_def nq_wf_def nq_items_def chains_ok_def chain_pending_def new_queue_def cdefs)
  from netpack_clear[OF this] show ?thesis by simp
qed

end
