(* ===== verification/Gate.thy ===== *)
theory Gate
  imports Databuffer Netpack Node
begin

text \<open>
  The gate service, \<open>service-src/service_gate.c\<close>: it accepts connections, cuts their byte streams
  into packages and forwards these to an agent, a broker or a watchdog.  The calls it makes of the
  rest of the system are the actions a handler returns, in order; the answers of
  \<open>skynet_queryname\<close> and \<open>skynet_socket_listen\<close> are arguments.  The socket messages are those of
  \<open>Netpack\<close>.
\<close>

section \<open>State\<close>

record connection =
  cn_id :: int
  cn_agent :: u32
  cn_client :: u32
  cn_remote_name :: string
  cn_buffer :: databuffer

record gate =
  gt_listen_id :: int
  gt_watchdog :: u32
  gt_broker :: u32
  gt_client_tag :: u32
  gt_header_size :: nat
  gt_max_connection :: nat
  gt_hash :: hashid
  gt_conn :: "connection list"
  gt_mp :: messagepool

text \<open>\<open>ASend source destination type session data\<close>; text payloads are without their terminating zero.\<close>

datatype gate_action = ASend u32 u32 u32 int "u8 list" | AError string | ASocketClose int | ASocketStart int
  | ASocketSend int "u8 list" | ASocketListen string int int | ACallback

definition BACKLOG :: int where [cdefs]: "BACKLOG = 32"

definition text_bytes :: "string \<Rightarrow> u8 list" where
  "text_bytes t = map (\<lambda>c. of_nat (of_char c)) t"

definition byte_text :: "u8 list \<Rightarrow> string" where
  "byte_text bs = map (\<lambda>b. char_of (unat b)) bs"

text \<open>The string in a buffer: up to the first zero.\<close>

definition c_string :: "string \<Rightarrow> string" where
  "c_string t = takeWhile (\<lambda>c. of_char c \<noteq> (0 :: nat)) t"

definition connection0 :: connection where
  "connection0 = \<lparr>cn_id = 0, cn_agent = 0, cn_client = 0, cn_remote_name = [], cn_buffer = databuffer0\<rparr>"

definition gate_create :: gate where
  "gate_create = \<lparr>gt_listen_id = -1, gt_watchdog = 0, gt_broker = 0, gt_client_tag = 0, gt_header_size = 0,
     gt_max_connection = 0,
     gt_hash = \<lparr>hi_hashmod = 0, hi_cap = 0, hi_count = 0, hi_id = [], hi_hash = (\<lambda>_. [])\<rparr>,
     gt_conn = [], gt_mp = \<lparr>mp_pool = 0, mp_freelist = 0\<rparr>\<rparr>"

definition gate_release :: "gate \<Rightarrow> gate_action list" where
  "gate_release g =
     map (\<lambda>c. ASocketClose (cn_id c)) (filter (\<lambda>c. cn_id c \<ge> 0) (take (gt_max_connection g) (gt_conn g)))
     @ (if gt_listen_id g \<ge> 0 then [ASocketClose (gt_listen_id g)] else [])"

section \<open>Control commands\<close>

text \<open>\<open>_parm\<close>: the command and the blanks after it are cut off.\<close>

definition gate_parm :: "string \<Rightarrow> nat \<Rightarrow> string" where
  "gate_parm msg command_sz = dropWhile (\<lambda>c. c = CHR '' '') (drop command_sz msg)"

text \<open>\<open>memcmp(command, literal, i) == 0\<close>.  The literal ends with a zero; when \<open>i\<close> is larger than the
  literal the comparison stops at the first difference, and there has to be one.\<close>

definition memcmp_lit :: "string \<Rightarrow> string \<Rightarrow> nat \<Rightarrow> bool option" where
  "memcmp_lit command lit i =
     (let l = lit @ [char_of (0 :: nat)]
      in if i \<le> length l then Some (take i command = take i l)
         else if take (length l) command \<noteq> l then Some False else None)"

definition forward_agent :: "gate \<Rightarrow> int \<Rightarrow> u32 \<Rightarrow> u32 \<Rightarrow> gate" where
  "forward_agent g fd agentaddr clientaddr =
     (let k = hashid_lookup (gt_hash g) fd
      in if k \<ge> 0
         then g\<lparr>gt_conn := (gt_conn g)[nat k := (gt_conn g ! nat k)\<lparr>cn_agent := agentaddr, cn_client := clientaddr\<rparr>]\<rparr>
         else g)"

text \<open>
  After \<open>_parm\<close> the array \<open>tmp\<close> holds the parameters, a zero, what was there before, and a last zero.
  \<open>strsep\<close> ends its token at a blank, where it writes a zero, or at a zero, where it clears the
  pointer.  \<open>agent+1\<close> and \<open>client+1\<close> are meant to skip a colon; for an empty token they point behind
  its zero.
\<close>

definition parm_buffer :: "string \<Rightarrow> nat \<Rightarrow> string" where
  "parm_buffer msg command_sz =
     (let p = gate_parm msg command_sz in p @ char_of (0 :: nat) # drop (length p + 1) msg @ [char_of (0 :: nat)])"

definition buffer_sep :: "string \<Rightarrow> string \<times> string option" where
  "buffer_sep buf =
     (let stop = (\<lambda>c. c = CHR '' '' \<or> of_char c = (0 :: nat)); rest = dropWhile (\<lambda>c. \<not> stop c) buf
      in (takeWhile (\<lambda>c. \<not> stop c) buf,
          case rest of [] \<Rightarrow> None | c # r \<Rightarrow> if c = CHR '' '' then Some r else None))"

definition ctrl_forward :: "gate \<Rightarrow> string \<Rightarrow> (gate \<times> gate_action list) option" where
  "ctrl_forward g buf =
     (case buffer_sep buf of
        (_, None) \<Rightarrow> Some (g, [])
      | (idstr, Some client) \<Rightarrow>
          (case buffer_sep client of
             (_, None) \<Rightarrow> Some (g, [])
           | (agent, Some client2) \<Rightarrow>
               (case client2 of
                  _ # c # cs \<Rightarrow>
                    Some (forward_agent g (to_int32 (c_strtol idstr 10))
                      (ucast (c_strtoul (if agent = [] then c_string client2 else tl agent) 16))
                      (ucast (c_strtoul (c_string (c # cs)) 16)), [])
                | _ \<Rightarrow> None)))"

definition gate_ctrl :: "(string \<Rightarrow> u32) \<Rightarrow> gate \<Rightarrow> string \<Rightarrow> (gate \<times> gate_action list) option" where
  "gate_ctrl queryname g msg =
     (if msg = [] then Some (g, [])
      else do {
        let i = length (takeWhile (\<lambda>c. c \<noteq> CHR '' '') msg);
        let parm = c_string (gate_parm msg i);
        let uid = to_int32 (c_strtol parm 10);
        kick \<leftarrow> memcmp_lit msg ''kick'' i;
        if kick then Some (g, if hashid_lookup (gt_hash g) uid \<ge> 0 then [ASocketClose uid] else [])
        else do {
          forward \<leftarrow> memcmp_lit msg ''forward'' i;
          if forward then ctrl_forward g (parm_buffer msg i)
          else do {
            broker \<leftarrow> memcmp_lit msg ''broker'' i;
            if broker then Some (g\<lparr>gt_broker := queryname parm\<rparr>, [])
            else do {
              start \<leftarrow> memcmp_lit msg ''start'' i;
              if start then Some (g, if hashid_lookup (gt_hash g) uid \<ge> 0 then [ASocketStart uid] else [])
              else do {
                close \<leftarrow> memcmp_lit msg ''close'' i;
                if close then
                  (if gt_listen_id g \<ge> 0 then Some (g\<lparr>gt_listen_id := -1\<rparr>, [ASocketClose (gt_listen_id g)])
                   else Some (g, []))
                else Some (g, [AError (''[gate] Unkown command : '' @ c_string msg)]) } } } } })"

section \<open>Data\<close>

text \<open>The text is shorter than the buffer of 1024 bytes: two numbers and a name of at most 31 characters.\<close>

definition report :: "gate \<Rightarrow> string \<Rightarrow> gate_action list" where
  "report g t = (if gt_watchdog g = 0 then [] else [ASend 0 (gt_watchdog g) PTYPE_TEXT 0 (text_bytes t)])"

text \<open>\<open>_forward\<close> of \<open>size\<close> bytes of connection \<open>k\<close>; without broker, agent and watchdog it does nothing.\<close>

definition gate_forward :: "gate \<Rightarrow> nat \<Rightarrow> int \<Rightarrow> (gate \<times> gate_action list) option" where
  "gate_forward g k sz =
     (let c = gt_conn g ! k
      in if gt_broker g \<noteq> 0 then do {
           (db, mp, data) \<leftarrow> databuffer_read (cn_buffer c) (gt_mp g) sz;
           Some (g\<lparr>gt_conn := (gt_conn g)[k := c\<lparr>cn_buffer := db\<rparr>], gt_mp := mp\<rparr>,
             [ASend 0 (gt_broker g) (gt_client_tag g OR PTYPE_TAG_DONTCOPY) 1 data]) }
         else if cn_agent c \<noteq> 0 then do {
           (db, mp, data) \<leftarrow> databuffer_read (cn_buffer c) (gt_mp g) sz;
           Some (g\<lparr>gt_conn := (gt_conn g)[k := c\<lparr>cn_buffer := db\<rparr>], gt_mp := mp\<rparr>,
             [ASend (cn_client c) (cn_agent c) (gt_client_tag g OR PTYPE_TAG_DONTCOPY) 1 data]) }
         else if gt_watchdog g \<noteq> 0 then do {
           (db, mp, data) \<leftarrow> databuffer_read (cn_buffer c) (gt_mp g) sz;
           Some (g\<lparr>gt_conn := (gt_conn g)[k := c\<lparr>cn_buffer := db\<rparr>], gt_mp := mp\<rparr>,
             [ASend 0 (gt_watchdog g) (PTYPE_TEXT OR PTYPE_TAG_DONTCOPY) 1 (text_bytes (fmt_d (cn_id c) @ '' data '') @ data)]) }
         else Some (g, []))"

text \<open>The loop of \<open>dispatch_message\<close>; \<open>acts\<close> are the actions so far.\<close>

partial_function (option) dispatch_packages ::
    "gate \<Rightarrow> nat \<Rightarrow> int \<Rightarrow> gate_action list \<Rightarrow> (gate \<times> gate_action list) option" where
  "dispatch_packages g k fd acts =
     Option.bind (databuffer_readheader (cn_buffer (gt_conn g ! k)) (gt_mp g) (gt_header_size g)) (\<lambda>(db, mp, sz).
       let g1 = g\<lparr>gt_conn := (gt_conn g)[k := (gt_conn g ! k)\<lparr>cn_buffer := db\<rparr>], gt_mp := mp\<rparr>
       in if sz < 0 then Some (g1, acts)
          else if sz > 0 then
            (if sz \<ge> 0x1000000 then
               (let (db2, mp2) = databuffer_clear db mp
                in Some (g1\<lparr>gt_conn := (gt_conn g1)[k := (gt_conn g1 ! k)\<lparr>cn_buffer := db2\<rparr>], gt_mp := mp2\<rparr>,
                     acts @ [ASocketClose fd, AError ''Recv socket message > 16M'']))
             else
               Option.bind (gate_forward g1 k sz) (\<lambda>(g2, act).
                 dispatch_packages (g2\<lparr>gt_conn := (gt_conn g2)[k := (gt_conn g2 ! k)\<lparr>cn_buffer := databuffer_reset (cn_buffer (gt_conn g2 ! k))\<rparr>]\<rparr>)
                   k fd (acts @ act)))
          else dispatch_packages g1 k fd acts)"

definition gate_dispatch_message :: "gate \<Rightarrow> nat \<Rightarrow> int \<Rightarrow> u8 list \<Rightarrow> (gate \<times> gate_action list) option" where
  "gate_dispatch_message g k fd data = do {
     (db, mp) \<leftarrow> databuffer_push (cn_buffer (gt_conn g ! k)) (gt_mp g) data;
     dispatch_packages (g\<lparr>gt_conn := (gt_conn g)[k := (gt_conn g ! k)\<lparr>cn_buffer := db\<rparr>], gt_mp := mp\<rparr>) k fd [] }"

section \<open>Socket messages\<close>

definition gate_close :: "gate \<Rightarrow> int \<Rightarrow> gate \<times> gate_action list" where
  "gate_close g fd =
     (let (hi, k) = hashid_remove (gt_hash g) fd
      in if k \<ge> 0 then
           (let (db, mp) = databuffer_clear (cn_buffer (gt_conn g ! nat k)) (gt_mp g);
                g1 = g\<lparr>gt_hash := hi, gt_mp := mp, gt_conn := (gt_conn g)[nat k := connection0\<lparr>cn_id := -1\<rparr>]\<rparr>
            in (g1, report g1 (fmt_d fd @ '' close'')))
         else (g\<lparr>gt_hash := hi\<rparr>, []))"

text \<open>The name is the text of the message, at most 31 bytes of it.\<close>

definition gate_accept :: "gate \<Rightarrow> int \<Rightarrow> int \<Rightarrow> u8 list \<Rightarrow> (gate \<times> gate_action list) option" where
  "gate_accept g listen fd name = do {
     c_assert (gt_listen_id g = listen);
     if hashid_full (gt_hash g) then Some (g, [ASocketClose fd])
     else do {
       (hi, k) \<leftarrow> hashid_insert (gt_hash g) fd;
       let c = (gt_conn g ! k)\<lparr>cn_id := fd, cn_remote_name := c_string (byte_text (take 31 name))\<rparr>;
       let g1 = g\<lparr>gt_hash := hi, gt_conn := (gt_conn g)[k := c]\<rparr>;
       Some (g1, report g1 (fmt_d fd @ '' open '' @ fmt_d fd @ '' '' @ cn_remote_name c @ '':0'')
         @ [AError (''socket open: '' @ fmt_x (of_int fd))]) } }"

definition dispatch_socket_message :: "gate \<Rightarrow> np_msg \<Rightarrow> (gate \<times> gate_action list) option" where
  "dispatch_socket_message g m =
     (case m of
        MData fd data \<Rightarrow>
          (let k = hashid_lookup (gt_hash g) fd
           in if k \<ge> 0 then gate_dispatch_message g (nat k) fd data
              else Some (g, [AError (''Drop unknown connection '' @ fmt_d fd @ '' message''), ASocketClose fd]))
      | MConnect fd \<Rightarrow>
          if fd = gt_listen_id g then Some (g, [])
          else if hashid_lookup (gt_hash g) fd < 0
          then Some (g, [AError (''Close unknown connection '' @ fmt_d fd), ASocketClose fd])
          else Some (g, [])
      | MClose fd \<Rightarrow> Some (gate_close g fd)
      | MError fd txt \<Rightarrow> Some (gate_close g fd)
      | MAccept listen fd name \<Rightarrow> gate_accept g listen fd name
      | MWarning fd ud \<Rightarrow> Some (g, [AError (''fd ('' @ fmt_d fd @ '') send buffer ('' @ fmt_d ud @ '')K'')])
      | MOther \<Rightarrow> Some (g, []))"

text \<open>What the service receives: a text, a client package or a socket message.\<close>

datatype gate_msg = GText string | GClient u32 "u8 list" | GSocket np_msg | GOther

text \<open>The callback; the number says whether it keeps the message.\<close>

definition gate_cb :: "(string \<Rightarrow> u32) \<Rightarrow> gate \<Rightarrow> gate_msg \<Rightarrow> (gate \<times> gate_action list \<times> int) option" where
  "gate_cb queryname g m =
     (case m of
        GText msg \<Rightarrow> map_option (\<lambda>(g', acts). (g', acts, 0)) (gate_ctrl queryname g msg)
      | GClient source msg \<Rightarrow>
          if length msg \<le> 4 then Some (g, [AError (''Invalid client message from '' @ fmt_x source)], 0)
          else
            (let idbuf = drop (length msg - 4) msg;
                 uid = to_signed 32 (le_val idbuf)
             in if hashid_lookup (gt_hash g) uid \<ge> 0
                then Some (g, [ASocketSend uid (take (length msg - 4) msg)], 1)
                else Some (g, [AError (''Invalid client id '' @ fmt_d uid @ '' from '' @ fmt_x source)], 0))
      | GSocket sm \<Rightarrow> map_option (\<lambda>(g', acts). (g', acts, 0)) (dispatch_socket_message g sm)
      | GOther \<Rightarrow> Some (g, [], 0))"

section \<open>Start\<close>

definition start_listen :: "(string \<Rightarrow> int \<Rightarrow> int) \<Rightarrow> gate \<Rightarrow> string \<Rightarrow> gate \<times> gate_action list \<times> int" where
  "start_listen listen g listen_addr =
     (let (host, port) =
        (case c_strchr listen_addr (CHR '':'') of
           None \<Rightarrow> ('''', to_int32 (c_strtol listen_addr 10))
         | Some portstr \<Rightarrow> (takeWhile (\<lambda>c. c \<noteq> CHR '':'') listen_addr, to_int32 (c_strtol (tl portstr) 10)))
      in if port \<le> 0 then (g, [AError (''Invalid gate address '' @ listen_addr)], 1)
         else
           (let fd = listen host port; g1 = g\<lparr>gt_listen_id := fd\<rparr>
            in if fd < 0 then (g1, [ASocketListen host port BACKLOG], 1)
               else (g1, [ASocketListen host port BACKLOG, ASocketStart fd], 0)))"

text \<open>\<open>%d\<close> of \<open>sscanf\<close>: nothing when no number follows.\<close>

definition scan_int :: "string \<Rightarrow> (int \<times> string) option" where
  "scan_int t =
     (let (neg, s1) = scan_sign (dropWhile c_isspace t); ds = takeWhile (is_digit 10) s1
      in if ds = [] then None
         else Some (to_int32 (if neg then - int (digits_val 10 ds) else int (digits_val 10 ds)), dropWhile (is_digit 10) s1))"

text \<open>\<open>sscanf(parm, "%c %s %s %d %d", ...)\<close>: nothing when fewer than four items are read, and 0 for the
  last one when it is missing.\<close>

definition scan_gate :: "string \<Rightarrow> (char \<times> string \<times> string \<times> int \<times> int) option" where
  "scan_gate parm =
     (case parm of
        [] \<Rightarrow> None
      | header # r \<Rightarrow>
          (case scan_word r of
             (Some watchdog, r1) \<Rightarrow>
               (case scan_word r1 of
                  (Some binding, r2) \<Rightarrow>
                    (case scan_int r2 of
                       Some (tag, r3) \<Rightarrow>
                         Some (header, watchdog, binding, tag, case scan_int r3 of Some (mx, _) \<Rightarrow> mx | None \<Rightarrow> 0)
                     | None \<Rightarrow> None)
                | _ \<Rightarrow> None)
           | _ \<Rightarrow> None))"

definition gate_init ::
    "(string \<Rightarrow> u32) \<Rightarrow> (string \<Rightarrow> int \<Rightarrow> int) \<Rightarrow> gate \<Rightarrow> string option \<Rightarrow> (gate \<times> gate_action list \<times> int) option" where
  "gate_init queryname listen g parm =
     (case parm of
        None \<Rightarrow> Some (g, [], 1)
      | Some p \<Rightarrow>
          (case scan_gate p of
             None \<Rightarrow> Some (g, [AError (''Invalid gate parm '' @ p)], 1)
           | Some (header, watchdog, binding, tag, mx) \<Rightarrow>
               if mx \<le> 0 then Some (g, [AError ''Need max connection''], 1)
               else if header \<noteq> CHR ''S'' \<and> header \<noteq> CHR ''L'' then Some (g, [AError ''Invalid data header style''], 1)
               else
                 (let client_tag = (if tag = 0 then PTYPE_CLIENT else of_int tag);
                      bang = (hd watchdog = CHR ''!'');
                      g1 = g\<lparr>gt_watchdog := (if bang then 0 else queryname watchdog)\<rparr>
                  in if \<not> bang \<and> gt_watchdog g1 = 0 then Some (g1, [AError (''Invalid watchdog '' @ watchdog)], 1)
                     else do {
                       hi \<leftarrow> hashid_init (nat mx);
                       let g2 = g1\<lparr>gt_hash := hi, gt_conn := replicate (nat mx) (connection0\<lparr>cn_id := -1\<rparr>),
                         gt_max_connection := nat mx, gt_client_tag := client_tag,
                         gt_header_size := (if header = CHR ''S'' then 2 else 4)\<rparr>;
                       let (g3, acts, r) = start_listen listen g2 binding;
                       Some (g3, ACallback # acts, r) })))"

section \<open>Invariant\<close>

abbreviation "cn_nodes c \<equiv> length (db_msgs (cn_buffer c))"

text \<open>The table and the array of connections agree, a free connection is empty, every buffer is well
  formed and every node of the message pool is on the free list or in a buffer.\<close>

definition gate_ok :: "gate \<Rightarrow> bool" where
  [inv_defs]: "gate_ok g \<longleftrightarrow> hid_ok (gt_hash g) \<and> (gt_header_size g = 2 \<or> gt_header_size g = 4)
     \<and> length (gt_conn g) = hi_cap (gt_hash g) \<and> gt_max_connection g = hi_cap (gt_hash g)
     \<and> (\<forall>k < length (gt_conn g). cn_id (gt_conn g ! k) = hi_id (gt_hash g) ! k)
     \<and> (\<forall>k < length (gt_conn g). cn_id (gt_conn g ! k) = -1 \<longrightarrow> gt_conn g ! k = connection0\<lparr>cn_id := -1\<rparr>)
     \<and> (\<forall>k < length (gt_conn g). db_ok (cn_buffer (gt_conn g ! k)) \<and> hdr_ok (gt_header_size g) (db_header (cn_buffer (gt_conn g ! k))))
     \<and> mp_freelist (gt_mp g) + sum_list (map cn_nodes (gt_conn g)) = MESSAGEPOOL * mp_pool (gt_mp g)"

definition set_db :: "gate \<Rightarrow> nat \<Rightarrow> databuffer \<Rightarrow> messagepool \<Rightarrow> gate" where
  "set_db g k db mp = g\<lparr>gt_conn := (gt_conn g)[k := (gt_conn g ! k)\<lparr>cn_buffer := db\<rparr>], gt_mp := mp\<rparr>"

lemma set_db_simps [simp]:
  "gt_hash (set_db g k db mp) = gt_hash g" "gt_header_size (set_db g k db mp) = gt_header_size g"
  "gt_mp (set_db g k db mp) = mp" "length (gt_conn (set_db g k db mp)) = length (gt_conn g)"
  "gt_broker (set_db g k db mp) = gt_broker g" "gt_watchdog (set_db g k db mp) = gt_watchdog g"
  "gt_client_tag (set_db g k db mp) = gt_client_tag g"
  "k < length (gt_conn g) \<Longrightarrow> gt_conn (set_db g k db mp) ! k = (gt_conn g ! k)\<lparr>cn_buffer := db\<rparr>"
  "set_db (set_db g k db mp) k db' mp' = set_db g k db' mp'"
proof -
  show "k < length (gt_conn g) \<Longrightarrow> gt_conn (set_db g k db mp) ! k = (gt_conn g ! k)\<lparr>cn_buffer := db\<rparr>" by (simp add: set_db_def)
  show "set_db (set_db g k db mp) k db' mp' = set_db g k db' mp'"
    by (cases "k < length (gt_conn g)") (simp_all add: set_db_def list_update_beyond)
qed (simp_all add: set_db_def)

lemma nodes_update:
  assumes "k < length (cs :: connection list)" "nodes_kept (cn_buffer (cs ! k)) mp (cn_buffer c) mp'"
    "mp_freelist mp + sum_list (map cn_nodes cs) = MESSAGEPOOL * mp_pool mp"
  shows "mp_freelist mp' + sum_list (map cn_nodes (cs[k := c])) = MESSAGEPOOL * mp_pool mp'"
proof -
  have "int (sum_list (map cn_nodes (cs[k := c]))) = int (sum_list (map cn_nodes cs)) + int (cn_nodes c) - int (cn_nodes (cs ! k))"
    using assms(1) by (simp add: map_update sum_list_update member_le_sum_list of_nat_diff trans_le_add1)
  moreover have "int (mp_freelist mp) + int (sum_list (map cn_nodes cs)) = int MESSAGEPOOL * int (mp_pool mp)"
    using assms(3) by (metis of_nat_add of_nat_mult)
  ultimately have "int (mp_freelist mp' + sum_list (map cn_nodes (cs[k := c]))) = int (MESSAGEPOOL * mp_pool mp')"
    using assms(2) by (simp add: nodes_kept_def algebra_simps)
  then show ?thesis using of_nat_eq_iff by blast
qed

lemma gate_ok_set_db:
  assumes "gate_ok g" "k < length (gt_conn g)" "cn_id (gt_conn g ! k) \<noteq> -1" "db_ok db"
    "hdr_ok (gt_header_size g) (db_header db)" "nodes_kept (cn_buffer (gt_conn g ! k)) (gt_mp g) db mp"
  shows "gate_ok (set_db g k db mp)"
  using assms nodes_update[OF assms(2), of "gt_mp g" "(gt_conn g ! k)\<lparr>cn_buffer := db\<rparr>" mp]
  by (auto simp: gate_ok_def set_db_def nth_list_update)

section \<open>Packages of a connection\<close>

text \<open>The packages in the bytes of a connection and the bytes that remain, \<open>None\<close> when a length of 16M
  or more was met; empty packages are skipped, a negative length is never complete.\<close>

function gframes :: "nat \<Rightarrow> u8 list \<Rightarrow> u8 list list \<times> u8 list option" where
  "gframes hs raw =
     (if hs = 0 \<or> length raw < hs then ([], Some raw)
      else
        (let n = header_value hs (take hs raw); body = drop hs raw
         in if n < 0 \<or> int (length body) < n then ([], Some raw)
            else if n \<ge> 0x1000000 then ([], None)
            else if n = 0 then gframes hs body
            else (let (fs, r) = gframes hs (drop (nat n) body) in (take (nat n) body # fs, r))))"
  by pat_completeness auto
termination
  by (relation "measure (\<lambda>(hs, raw). length raw)") auto

declare gframes.simps [simp del]

text \<open>What remains of the bytes of a connection without receiver: the headers are taken off, the data behind them is read as the next header.\<close>

function gskip :: "nat \<Rightarrow> u8 list \<Rightarrow> u8 list option" where
  "gskip hs raw =
     (if hs = 0 \<or> length raw < hs then Some raw
      else
        (let n = header_value hs (take hs raw); body = drop hs raw
         in if n < 0 \<or> int (length body) < n then Some raw
            else if n \<ge> 0x1000000 then None
            else gskip hs body))"
  by pat_completeness auto
termination
  by (relation "measure (\<lambda>(hs, raw). length raw)") auto

declare gskip.simps [simp del]

definition has_target :: "gate \<Rightarrow> nat \<Rightarrow> bool" where
  "has_target g k \<longleftrightarrow> gt_broker g \<noteq> 0 \<or> cn_agent (gt_conn g ! k) \<noteq> 0 \<or> gt_watchdog g \<noteq> 0"

text \<open>The message that carries a package.\<close>

definition package_action :: "gate \<Rightarrow> nat \<Rightarrow> u8 list \<Rightarrow> gate_action" where
  "package_action g k data =
     (let c = gt_conn g ! k
      in if gt_broker g \<noteq> 0 then ASend 0 (gt_broker g) (gt_client_tag g OR PTYPE_TAG_DONTCOPY) 1 data
         else if cn_agent c \<noteq> 0 then ASend (cn_client c) (cn_agent c) (gt_client_tag g OR PTYPE_TAG_DONTCOPY) 1 data
         else ASend 0 (gt_watchdog g) (PTYPE_TEXT OR PTYPE_TAG_DONTCOPY) 1 (text_bytes (fmt_d (cn_id c) @ '' data '') @ data))"

lemma gate_forward_target:
  assumes "k < length (gt_conn g)" "has_target g k"
    "databuffer_read (cn_buffer (gt_conn g ! k)) (gt_mp g) n = Some (db, mp, data)"
  shows "gate_forward g k n = Some (set_db g k db mp, [package_action g k data])"
  using assms by (auto simp: gate_forward_def package_action_def set_db_def has_target_def Let_def)

lemma gate_forward_none: "\<not> has_target g k \<Longrightarrow> gate_forward g k n = Some (g, [])"
  by (simp add: gate_forward_def has_target_def)

lemma package_action_set [simp]:
  "k < length (gt_conn g) \<Longrightarrow> package_action (set_db g k db mp) k = package_action g k"
  "k < length (gt_conn g) \<Longrightarrow> has_target (set_db g k db mp) k = has_target g k"
  by (simp_all add: package_action_def has_target_def fun_eq_iff Let_def)

text \<open>One round of the loop.\<close>

lemma dispatch_round:
  assumes ok: "gate_ok g" and k: "k < length (gt_conn g)" "cn_id (gt_conn g ! k) \<noteq> -1"
  defines "hs \<equiv> gt_header_size g" and "raw \<equiv> db_raw (gt_header_size g) (cn_buffer (gt_conn g ! k))"
  defines "n \<equiv> header_value hs (take hs raw)" and "body \<equiv> drop hs raw"
  shows "length raw < hs \<Longrightarrow> dispatch_packages g k fd acts = Some (g, acts)"
    "hs \<le> length raw \<Longrightarrow> n < 0 \<or> int (length body) < n \<Longrightarrow>
      \<exists>db mp. dispatch_packages g k fd acts = Some (set_db g k db mp, acts) \<and> gate_ok (set_db g k db mp) \<and> db_raw hs db = raw"
    "hs \<le> length raw \<Longrightarrow> 0x1000000 \<le> n \<Longrightarrow> n \<le> int (length body) \<Longrightarrow>
      \<exists>mp. dispatch_packages g k fd acts = Some (set_db g k databuffer0 mp, acts @ [ASocketClose fd, AError ''Recv socket message > 16M''])
        \<and> gate_ok (set_db g k databuffer0 mp)"
    "hs \<le> length raw \<Longrightarrow> 0 \<le> n \<Longrightarrow> n < 0x1000000 \<Longrightarrow> n \<le> int (length body) \<Longrightarrow>
      \<exists>db mp. dispatch_packages g k fd acts =
          dispatch_packages (set_db g k db mp) k fd (acts @ (if n = 0 \<or> \<not> has_target g k then [] else [package_action g k (take (nat n) body)]))
        \<and> gate_ok (set_db g k db mp) \<and> db_raw hs db = (if has_target g k then drop (nat n) body else body)"
proof -
  define c where "c = cn_buffer (gt_conn g ! k)"
  have hs: "hs = 2 \<or> hs = 4" and c: "db_ok c" "hdr_ok hs (db_header c)" using ok k(1) by (auto simp: gate_ok_def hs_def c_def)
  note rh = readheader_db[OF c(1) hs c(2), of "gt_mp g"]
  have raw: "db_raw hs c = raw" by (simp add: raw_def hs_def c_def)
  have self: "set_db g k c (gt_mp g) = g" by (simp add: set_db_def c_def)
  { assume "length raw < hs"
    then have "databuffer_readheader c (gt_mp g) hs = Some (c, gt_mp g, -1)" using rh(1) raw by simp
    then show "dispatch_packages g k fd acts = Some (g, acts)"
      by (subst dispatch_packages.simps) (simp add: c_def[symmetric] hs_def[symmetric] self[unfolded set_db_def]) }
  assume long: "hs \<le> length raw"
  then obtain db mp where r: "databuffer_readheader c (gt_mp g) hs = Some (db, mp, if int (length body) < n then -1 else n)"
    "db_ok db" "db_header db = n" "db_bytes db = body" "hdr_ok hs n" "nodes_kept c (gt_mp g) db mp"
    using rh(2) raw by (auto simp: n_def body_def)
  have ok1: "gate_ok (set_db g k db mp)" using gate_ok_set_db[OF ok k r(2)] r(3,5,6) by (simp add: hs_def c_def)
  have "length (take hs raw) = hs" using long by simp
  then have raw': "db_raw hs db = (if n = 0 then body else raw)"
    using header_value_raw(1)[OF hs, of "take hs raw"] r(3,4) by (auto simp: db_raw_def n_def body_def)
  note unf = dispatch_packages.simps[of g k fd acts, folded c_def hs_def, unfolded r(1)]
  { assume "n < 0 \<or> int (length body) < n"
    then show "\<exists>db mp. dispatch_packages g k fd acts = Some (set_db g k db mp, acts) \<and> gate_ok (set_db g k db mp) \<and> db_raw hs db = raw"
      using ok1 raw' unf by (intro exI[of _ db] exI[of _ mp]) (auto simp: set_db_def[symmetric] split: if_splits) }
  { assume n: "0x1000000 \<le> n" "n \<le> int (length body)"
    let ?mp = "mp\<lparr>mp_freelist := mp_freelist mp + length (db_msgs db)\<rparr>"
    have nk: "nodes_kept c (gt_mp g) databuffer0 ?mp" using r(6) by (simp add: nodes_kept_def databuffer0_def)
    have "gate_ok (set_db g k databuffer0 ?mp)"
      by (rule gate_ok_set_db[OF ok k db_ok0]) (use nk hs in \<open>auto simp: databuffer0_def hdr_ok_def hs_def c_def\<close>)
    moreover have "dispatch_packages g k fd acts = Some (set_db (set_db g k db mp) k databuffer0 ?mp, acts @ [ASocketClose fd, AError ''Recv socket message > 16M''])"
      using n unf k(1) by (simp add: databuffer_clear_def Let_def) (simp add: set_db_def)
    ultimately show "\<exists>mp. dispatch_packages g k fd acts = Some (set_db g k databuffer0 mp, acts @ [ASocketClose fd, AError ''Recv socket message > 16M''])
        \<and> gate_ok (set_db g k databuffer0 mp)" by auto }
  assume n: "0 \<le> n" "n < 0x1000000" "n \<le> int (length body)"
  have reset: "db_ok (databuffer_reset d)" "db_bytes (databuffer_reset d) = db_bytes d" "db_header (databuffer_reset d) = 0"
    "db_msgs (databuffer_reset d) = db_msgs d" if "db_ok d" for d
    using that by (cases "db_msgs d"; simp add: databuffer_reset_def db_ok_def db_bytes_def)+
  have h0: "hdr_ok hs 0" by (simp add: hdr_ok_def)
  show "\<exists>db mp. dispatch_packages g k fd acts =
          dispatch_packages (set_db g k db mp) k fd (acts @ (if n = 0 \<or> \<not> has_target g k then [] else [package_action g k (take (nat n) body)]))
        \<and> gate_ok (set_db g k db mp) \<and> db_raw hs db = (if has_target g k then drop (nat n) body else body)"
  proof (cases "n = 0")
    case True
    then show ?thesis using n ok1 raw' unf by (intro exI[of _ db] exI[of _ mp]) (auto simp: set_db_def[symmetric])
  next
    case False
    with n have pos: "0 < n" by simp
    have unf2: "dispatch_packages g k fd acts = Option.bind (gate_forward (set_db g k db mp) k n) (\<lambda>(g2, act).
        dispatch_packages (set_db g2 k (databuffer_reset (cn_buffer (gt_conn g2 ! k))) (gt_mp g2)) k fd (acts @ act))"
      using pos n unf by (simp add: set_db_def)
    show ?thesis
    proof (cases "has_target g k")
      case True
      have "0 < nat n" "int (nat n) \<le> db_size db" using pos n r(2,4) by (auto simp: db_ok_def)
      from read_db[OF r(2) this, of mp] obtain db2 mp2 where
        d: "databuffer_read db mp (int (nat n)) = Some (db2, mp2, take (nat n) (db_bytes db))" "db_ok db2"
        "db_bytes db2 = drop (nat n) (db_bytes db)" "db_header db2 = db_header db" "nodes_kept db mp db2 mp2" by metis
      have f: "gate_forward (set_db g k db mp) k n = Some (set_db g k db2 mp2, [package_action g k (take (nat n) body)])"
        using gate_forward_target[of k "set_db g k db mp" n] d(1) k(1) True pos r(4) by simp
      have nk: "nodes_kept c (gt_mp g) (databuffer_reset db2) mp2"
        using nodes_kept_trans[OF r(6) d(5)] reset(4)[OF d(2)] by (simp add: nodes_kept_def)
      have "gate_ok (set_db g k (databuffer_reset db2) mp2)"
        by (rule gate_ok_set_db[OF ok k reset(1)[OF d(2)]]) (use h0 nk reset(3)[OF d(2)] in \<open>simp_all add: hs_def c_def\<close>)
      moreover have "db_raw hs (databuffer_reset db2) = drop (nat n) body" using reset(2,3)[OF d(2)] d(3) r(4) by (simp add: db_raw_def)
      ultimately show ?thesis using unf2 f True False k(1)
        by (intro exI[of _ "databuffer_reset db2"] exI[of _ mp2]) simp
    next
      case nt: False
      have f: "gate_forward (set_db g k db mp) k n = Some (set_db g k db mp, [])" using nt k(1) by (simp add: gate_forward_none)
      have nk: "nodes_kept c (gt_mp g) (databuffer_reset db) mp" using r(6) reset(4)[OF r(2)] by (simp add: nodes_kept_def)
      have "gate_ok (set_db g k (databuffer_reset db) mp)"
        by (rule gate_ok_set_db[OF ok k reset(1)[OF r(2)]]) (use h0 nk reset(3)[OF r(2)] in \<open>simp_all add: hs_def c_def\<close>)
      moreover have "db_raw hs (databuffer_reset db) = body" using reset(2,3)[OF r(2)] r(4) by (simp add: db_raw_def)
      ultimately show ?thesis using unf2 f nt False k(1)
        by (intro exI[of _ "databuffer_reset db"] exI[of _ mp]) simp
    qed
  qed
qed

lemma db_raw_set: "k < length (gt_conn g) \<Longrightarrow> db_raw hs (cn_buffer (gt_conn (set_db g k db mp) ! k)) = db_raw hs db"
  by simp

text \<open>The loop returns, whatever the bytes are.\<close>

lemma dispatch_packages_ok:
  assumes "gate_ok g" "k < length (gt_conn g)" "cn_id (gt_conn g ! k) \<noteq> -1"
  shows "\<exists>db mp acts'. dispatch_packages g k fd acts = Some (set_db g k db mp, acts') \<and> gate_ok (set_db g k db mp)"
  using assms
proof (induction "length (db_raw (gt_header_size g) (cn_buffer (gt_conn g ! k)))" arbitrary: g acts rule: less_induct)
  case less
  define hs where "hs = gt_header_size g"
  define raw where "raw = db_raw hs (cn_buffer (gt_conn g ! k))"
  define n where "n = header_value hs (take hs raw)"
  note round = dispatch_round[OF less.prems, folded hs_def, folded raw_def, folded n_def, of fd acts]
  have hs: "0 < hs" using less.prems(1) by (auto simp: gate_ok_def hs_def)
  have self: "set_db g k (cn_buffer (gt_conn g ! k)) (gt_mp g) = g" by (simp add: set_db_def)
  consider "length raw < hs" | "hs \<le> length raw" "n < 0 \<or> int (length (drop hs raw)) < n"
    | "hs \<le> length raw" "0x1000000 \<le> n" "n \<le> int (length (drop hs raw))"
    | "hs \<le> length raw" "0 \<le> n" "n < 0x1000000" "n \<le> int (length (drop hs raw))" by linarith
  then show ?case
  proof cases
    case 1
    with round(1) self less.prems(1) show ?thesis by metis
  next
    case 2
    with round(2) show ?thesis by blast
  next
    case 3
    with round(3) show ?thesis by blast
  next
    case 4
    from round(4)[OF this] obtain db mp acts1 where r:
      "dispatch_packages g k fd acts = dispatch_packages (set_db g k db mp) k fd acts1" "gate_ok (set_db g k db mp)"
      "db_raw hs db = (if has_target g k then drop (nat n) (drop hs raw) else drop hs raw)" by blast
    let ?g = "set_db g k db mp"
    have raw1: "db_raw (gt_header_size ?g) (cn_buffer (gt_conn ?g ! k)) = db_raw hs db"
      using less.prems(2) by (simp add: hs_def)
    have "length (db_raw (gt_header_size ?g) (cn_buffer (gt_conn ?g ! k))) < length (db_raw (gt_header_size g) (cn_buffer (gt_conn g ! k)))"
      unfolding raw1 r(3) hs_def[symmetric] raw_def[symmetric] using hs 4(1) by auto
    from less.hyps[OF this r(2), of acts1] less.prems(2,3) r(1) show ?thesis by auto
  qed
qed

text \<open>With a receiver, the packages are forwarded in order.\<close>

lemma dispatch_packages_stream:
  assumes "gate_ok g" "k < length (gt_conn g)" "cn_id (gt_conn g ! k) \<noteq> -1" "has_target g k"
    "gframes (gt_header_size g) (db_raw (gt_header_size g) (cn_buffer (gt_conn g ! k))) = (fs, r)"
  shows "\<exists>db mp. dispatch_packages g k fd acts = Some (set_db g k db mp, acts @ map (package_action g k) fs
      @ (if r = None then [ASocketClose fd, AError ''Recv socket message > 16M''] else []))
    \<and> gate_ok (set_db g k db mp) \<and> db_raw (gt_header_size g) db = (case r of Some rest \<Rightarrow> rest | None \<Rightarrow> [])"
  using assms
proof (induction "length (db_raw (gt_header_size g) (cn_buffer (gt_conn g ! k)))" arbitrary: g acts fs rule: less_induct)
  case less
  define hs where "hs = gt_header_size g"
  define raw where "raw = db_raw hs (cn_buffer (gt_conn g ! k))"
  define n where "n = header_value hs (take hs raw)"
  note round = dispatch_round[OF less.prems(1-3), folded hs_def, folded raw_def, folded n_def, of fd acts]
  have hs: "0 < hs" using less.prems(1) by (auto simp: gate_ok_def hs_def)
  have fr: "gframes hs raw = (fs, r)" using less.prems(5) by (simp add: hs_def raw_def)
  note gf = gframes.simps[of hs raw, folded n_def, unfolded fr, symmetric]
  have self: "set_db g k (cn_buffer (gt_conn g ! k)) (gt_mp g) = g" by (simp add: set_db_def)
  consider "length raw < hs" | "hs \<le> length raw" "n < 0 \<or> int (length (drop hs raw)) < n"
    | "hs \<le> length raw" "0x1000000 \<le> n" "n \<le> int (length (drop hs raw))"
    | "hs \<le> length raw" "0 \<le> n" "n < 0x1000000" "n \<le> int (length (drop hs raw))" by linarith
  then show ?case
  proof cases
    case 1
    then have "fs = []" "r = Some raw" using gf by simp_all
    then show ?thesis using round(1)[OF 1] less.prems(1) self unfolding hs_def[symmetric]
      by (intro exI[of _ "cn_buffer (gt_conn g ! k)"] exI[of _ "gt_mp g"]) (simp add: raw_def)
  next
    case 2
    then have "fs = []" "r = Some raw" using gf hs by (auto simp: Let_def split: if_splits)
    with round(2)[OF 2] show ?thesis unfolding hs_def[symmetric] by auto
  next
    case 3
    then have "fs = []" "r = None" using gf hs by (auto simp: Let_def split: if_splits)
    moreover have "db_raw hs databuffer0 = []" by (simp add: db_raw_def databuffer0_def db_bytes_def)
    ultimately show ?thesis using round(3)[OF 3] unfolding hs_def[symmetric] by auto
  next
    case 4
    from round(4)[OF this] less.prems(4) obtain db mp where r1:
      "dispatch_packages g k fd acts = dispatch_packages (set_db g k db mp) k fd
         (acts @ (if n = 0 then [] else [package_action g k (take (nat n) (drop hs raw))]))"
      "gate_ok (set_db g k db mp)" "db_raw hs db = drop (nat n) (drop hs raw)" by auto
    let ?g = "set_db g k db mp"
    obtain fs1 where f: "gframes hs (drop (nat n) (drop hs raw)) = (fs1, r)"
      "fs = (if n = 0 then [] else [take (nat n) (drop hs raw)]) @ fs1"
      using gf hs 4 by (auto simp: Let_def split: if_splits prod.splits)
    have raw1: "db_raw (gt_header_size ?g) (cn_buffer (gt_conn ?g ! k)) = drop (nat n) (drop hs raw)"
      using less.prems(2) r1(3) by (simp add: hs_def)
    have "length (db_raw (gt_header_size ?g) (cn_buffer (gt_conn ?g ! k))) < length (db_raw (gt_header_size g) (cn_buffer (gt_conn g ! k)))"
      unfolding raw1 hs_def[symmetric] raw_def[symmetric] using hs 4(1) by simp
    from less.hyps[OF this r1(2), of fs1 "acts @ (if n = 0 then [] else [package_action g k (take (nat n) (drop hs raw))])"]
      less.prems(2-4) f(1) raw1[folded hs_def] obtain db2 mp2 where
      "dispatch_packages ?g k fd (acts @ (if n = 0 then [] else [package_action g k (take (nat n) (drop hs raw))])) =
         Some (set_db g k db2 mp2, (acts @ (if n = 0 then [] else [package_action g k (take (nat n) (drop hs raw))])) @ map (package_action g k) fs1
          @ (if r = None then [ASocketClose fd, AError ''Recv socket message > 16M''] else []))"
      "gate_ok (set_db g k db2 mp2)" "db_raw hs db2 = (case r of Some rest \<Rightarrow> rest | None \<Rightarrow> [])"
      by (auto simp: hs_def)
    with r1(1) f(2) show ?thesis unfolding hs_def[symmetric]
      by (intro exI[of _ db2] exI[of _ mp2]) auto
  qed
qed

text \<open>Without a receiver, the headers only.\<close>

lemma dispatch_packages_skip:
  assumes "gate_ok g" "k < length (gt_conn g)" "cn_id (gt_conn g ! k) \<noteq> -1" "\<not> has_target g k"
    "gskip (gt_header_size g) (db_raw (gt_header_size g) (cn_buffer (gt_conn g ! k))) = r"
  shows "\<exists>db mp. dispatch_packages g k fd acts = Some (set_db g k db mp, acts
      @ (if r = None then [ASocketClose fd, AError ''Recv socket message > 16M''] else []))
    \<and> gate_ok (set_db g k db mp) \<and> db_raw (gt_header_size g) db = (case r of Some rest \<Rightarrow> rest | None \<Rightarrow> [])"
  using assms
proof (induction "length (db_raw (gt_header_size g) (cn_buffer (gt_conn g ! k)))" arbitrary: g acts rule: less_induct)
  case less
  define hs where "hs = gt_header_size g"
  define raw where "raw = db_raw hs (cn_buffer (gt_conn g ! k))"
  define n where "n = header_value hs (take hs raw)"
  note round = dispatch_round[OF less.prems(1-3), folded hs_def, folded raw_def, folded n_def, of fd acts]
  have hs: "0 < hs" using less.prems(1) by (auto simp: gate_ok_def hs_def)
  have fr: "gskip hs raw = r" using less.prems(5) by (simp add: hs_def raw_def)
  note gs = gskip.simps[of hs raw, folded n_def, unfolded fr]
  have self: "set_db g k (cn_buffer (gt_conn g ! k)) (gt_mp g) = g" by (simp add: set_db_def)
  consider "length raw < hs" | "hs \<le> length raw" "n < 0 \<or> int (length (drop hs raw)) < n"
    | "hs \<le> length raw" "0x1000000 \<le> n" "n \<le> int (length (drop hs raw))"
    | "hs \<le> length raw" "0 \<le> n" "n < 0x1000000" "n \<le> int (length (drop hs raw))" by linarith
  then show ?case
  proof cases
    case 1
    then have "r = Some raw" using gs by simp
    then show ?thesis using round(1)[OF 1] less.prems(1) self unfolding hs_def[symmetric]
      by (intro exI[of _ "cn_buffer (gt_conn g ! k)"] exI[of _ "gt_mp g"]) (simp add: raw_def)
  next
    case 2
    then have "r = Some raw" using gs hs by (auto simp: Let_def split: if_splits)
    with round(2)[OF 2] show ?thesis unfolding hs_def[symmetric] by auto
  next
    case 3
    then have "r = None" using gs hs by (auto simp: Let_def split: if_splits)
    moreover have "db_raw hs databuffer0 = []" by (simp add: db_raw_def databuffer0_def db_bytes_def)
    ultimately show ?thesis using round(3)[OF 3] unfolding hs_def[symmetric] by auto
  next
    case 4
    from round(4)[OF this] less.prems(4) obtain db mp where r1:
      "dispatch_packages g k fd acts = dispatch_packages (set_db g k db mp) k fd acts"
      "gate_ok (set_db g k db mp)" "db_raw hs db = drop hs raw" by auto
    let ?g = "set_db g k db mp"
    have f: "gskip hs (drop hs raw) = r" using gs hs 4 by (auto simp: Let_def split: if_splits)
    have raw1: "db_raw (gt_header_size ?g) (cn_buffer (gt_conn ?g ! k)) = drop hs raw"
      using less.prems(2) r1(3) by (simp add: hs_def)
    have "length (db_raw (gt_header_size ?g) (cn_buffer (gt_conn ?g ! k))) < length (db_raw (gt_header_size g) (cn_buffer (gt_conn g ! k)))"
      unfolding raw1 hs_def[symmetric] raw_def[symmetric] using hs 4(1) by simp
    from less.hyps[OF this r1(2), of acts] less.prems(2-4) f raw1[folded hs_def] r1(1) show ?thesis by (auto simp: hs_def)
  qed
qed

section \<open>Handlers keep the invariant\<close>

lemma lookup_bound:
  assumes "hid_ok hi" "hashid_lookup hi fd \<ge> 0"
  shows "nat (hashid_lookup hi fd) < hi_cap hi" "hi_id hi ! nat (hashid_lookup hi fd) = fd" "fd \<noteq> -1"
proof -
  obtain c where f: "find (\<lambda>c. hi_id hi ! c = fd) (hi_hash hi (id_hash hi fd)) = Some c" and l: "hashid_lookup hi fd = int c"
    using assms(2) by (auto simp: hashid_lookup_def split: option.splits)
  from f have "c \<in> set (hi_hash hi (id_hash hi fd))" "hi_id hi ! c = fd" by (auto simp: find_Some_iff)
  moreover from this(1) have "c < hi_cap hi \<and> hi_id hi ! c \<noteq> -1" using assms(1) unfolding hid_ok_def by blast
  ultimately show "nat (hashid_lookup hi fd) < hi_cap hi" "hi_id hi ! nat (hashid_lookup hi fd) = fd" "fd \<noteq> -1"
    using l by auto
qed

lemma gate_conn:
  assumes "gate_ok g" "hashid_lookup (gt_hash g) fd \<ge> 0"
  defines "k \<equiv> nat (hashid_lookup (gt_hash g) fd)"
  shows "k < length (gt_conn g)" "cn_id (gt_conn g ! k) = fd" "fd \<noteq> -1"
  using assms lookup_bound[of "gt_hash g" fd] by (auto simp: gate_ok_def)

text \<open>What may be received: a control text without zero bytes, an accepted socket with a new id, the end of a socket.\<close>

definition gmsg_ok :: "gate \<Rightarrow> gate_msg \<Rightarrow> bool" where
  "gmsg_ok g m =
     (case m of
        GText t \<Rightarrow> list_all (\<lambda>c. of_char c \<noteq> (0 :: nat)) t
      | GSocket (MAccept listen fd name) \<Rightarrow> fd \<notin> set (hi_id (gt_hash g)) \<and> 0 \<le> fd
          \<and> fd + int (hi_cap (gt_hash g)) \<le> 2 ^ 31
      | GSocket (MClose fd) \<Rightarrow> 0 \<le> fd
      | GSocket (MError fd _) \<Rightarrow> 0 \<le> fd
      | _ \<Rightarrow> True)"

text \<open>What stops the process: a socket accepted for another listening socket (the assertion of the handler), and data for a connection that brings
  the bytes it keeps to \<open>2\<^sup>3\<^sup>1\<close> (the overflow of \<open>size\<close>).\<close>

definition gmsg_fatal :: "gate \<Rightarrow> gate_msg \<Rightarrow> bool" where
  "gmsg_fatal g m =
     (case m of
        GSocket (MAccept listen _ _) \<Rightarrow> listen \<noteq> gt_listen_id g
      | GSocket (MData fd data) \<Rightarrow> hashid_lookup (gt_hash g) fd \<ge> 0
          \<and> 2 ^ 31 \<le> length (db_bytes (cn_buffer (gt_conn g ! nat (hashid_lookup (gt_hash g) fd)))) + length data
      | _ \<Rightarrow> False)"

lemma forward_agent_ok: "gate_ok g \<Longrightarrow> gate_ok (forward_agent g fd a c)"
proof (cases "hashid_lookup (gt_hash g) fd \<ge> 0")
  case True
  assume ok: "gate_ok g"
  define k where "k = nat (hashid_lookup (gt_hash g) fd)"
  define x where "x = (gt_conn g ! k)\<lparr>cn_agent := a, cn_client := c\<rparr>"
  note gc = gate_conn[OF ok True, folded k_def]
  have "forward_agent g fd a c = g\<lparr>gt_conn := (gt_conn g)[k := x]\<rparr>"
    using True by (simp add: forward_agent_def k_def x_def Let_def)
  moreover have "mp_freelist (gt_mp g) + sum_list (map cn_nodes ((gt_conn g)[k := x])) = MESSAGEPOOL * mp_pool (gt_mp g)"
    by (rule nodes_update[OF gc(1), where mp = "gt_mp g"]) (use ok in \<open>simp_all add: x_def gate_ok_def\<close>)
  ultimately show ?thesis using ok gc by (auto simp: gate_ok_def nth_list_update x_def)
qed (simp add: forward_agent_def)

lemma gate_close_ok:
  assumes ok: "gate_ok g" and fd: "0 \<le> fd"
  shows "gate_ok (fst (gate_close g fd))"
proof (cases "fd \<in> set (hi_id (gt_hash g))")
  case False
  have "hid_ok (gt_hash g)" "fd \<noteq> -1" using ok fd by (simp_all add: gate_ok_def)
  from hashid_remove_ok(1)[OF this False] ok show ?thesis by (simp add: gate_close_def)
next
  case True
  have h: "hid_ok (gt_hash g)" "fd \<noteq> -1" using ok fd by (simp_all add: gate_ok_def)
  have len: "length (hi_id (gt_hash g)) = length (gt_conn g)" using ok by (simp add: gate_ok_def hid_ok_def)
  obtain k where k: "k < length (gt_conn g)" "hi_id (gt_hash g) ! k = fd" using True len by (auto simp: in_set_conv_nth)
  obtain hi where hi: "hashid_remove (gt_hash g) fd = (hi, int k)" "hid_ok hi" "hi_id hi = (hi_id (gt_hash g))[k := -1]"
    "hi_cap hi = hi_cap (gt_hash g)"
    using hashid_remove_ok(2)[OF h, of k] k ok by (auto simp: gate_ok_def)
  let ?c = "connection0\<lparr>cn_id := -1\<rparr>"
  define mp where "mp = (gt_mp g)\<lparr>mp_freelist := mp_freelist (gt_mp g) + cn_nodes (gt_conn g ! k)\<rparr>"
  have "mp_freelist mp + sum_list (map cn_nodes ((gt_conn g)[k := ?c])) = MESSAGEPOOL * mp_pool mp"
    by (rule nodes_update[OF k(1), where mp = "gt_mp g"]) (use ok in \<open>simp_all add: mp_def gate_ok_def nodes_kept_def connection0_def databuffer0_def\<close>)
  moreover have "fst (gate_close g fd) = g\<lparr>gt_hash := hi, gt_mp := mp, gt_conn := (gt_conn g)[k := ?c]\<rparr>"
    using hi(1) by (simp add: gate_close_def mp_def databuffer_clear_def Let_def)
  moreover have "hdr_ok (gt_header_size g) 0" by (simp add: hdr_ok_def)
  ultimately show ?thesis using ok hi k(1) len
    by (auto simp: gate_ok_def nth_list_update connection0_def) (auto simp: databuffer0_def)
qed

lemma gate_accept_ok:
  assumes ok: "gate_ok g" and m: "gmsg_ok g (GSocket (MAccept listen fd name))" and l: "listen = gt_listen_id g"
  shows "\<exists>g' acts. gate_accept g listen fd name = Some (g', acts) \<and> gate_ok g'"
proof (cases "hashid_full (gt_hash g)")
  case True
  with ok l show ?thesis by (simp add: gate_accept_def)
next
  case False
  have "hid_ok (gt_hash g)" using ok by (simp add: gate_ok_def)
  from hashid_insert_ok[OF this False, of fd] m obtain hi k where hi: "hashid_insert (gt_hash g) fd = Some (hi, k)" "hid_ok hi"
    "k < hi_cap (gt_hash g)" "hi_id (gt_hash g) ! k = -1" "hi_id hi = (hi_id (gt_hash g))[k := fd]" "hi_cap hi = hi_cap (gt_hash g)"
    by (auto simp: gmsg_ok_def)
  define c where "c = (gt_conn g ! k)\<lparr>cn_id := fd, cn_remote_name := c_string (byte_text (take 31 name))\<rparr>"
  define g' where "g' = g\<lparr>gt_hash := hi, gt_conn := (gt_conn g)[k := c]\<rparr>"
  have len: "length (hi_id (gt_hash g)) = length (gt_conn g)" "length (gt_conn g) = hi_cap (gt_hash g)"
    using ok by (simp_all add: gate_ok_def hid_ok_def)
  then have k: "k < length (gt_conn g)" using hi(3) by simp
  have "mp_freelist (gt_mp g) + sum_list (map cn_nodes ((gt_conn g)[k := c])) = MESSAGEPOOL * mp_pool (gt_mp g)"
    by (rule nodes_update[OF k, where mp = "gt_mp g"]) (use ok in \<open>simp_all add: c_def gate_ok_def\<close>)
  then have "gate_ok g'" using ok hi k len m by (auto simp: gate_ok_def nth_list_update g'_def c_def gmsg_ok_def)
  moreover have "gate_accept g listen fd name = Some (g', report g' (fmt_d fd @ '' open '' @ fmt_d fd @ '' '' @ cn_remote_name c @ '':0'')
         @ [AError (''socket open: '' @ fmt_x (of_int fd))])"
    using False l hi(1) by (simp add: gate_accept_def g'_def c_def Let_def)
  ultimately show ?thesis by blast
qed

lemma gate_dispatch_message_ok:
  assumes ok: "gate_ok g" and k: "k < length (gt_conn g)" "cn_id (gt_conn g ! k) \<noteq> -1"
    and fit: "length (db_bytes (cn_buffer (gt_conn g ! k))) + length data < 2 ^ 31"
  shows "\<exists>db mp. gate_dispatch_message g k fd data = dispatch_packages (set_db g k db mp) k fd []
    \<and> gate_ok (set_db g k db mp)
    \<and> db_raw (gt_header_size g) db = db_raw (gt_header_size g) (cn_buffer (gt_conn g ! k)) @ data"
proof -
  have c: "db_ok (cn_buffer (gt_conn g ! k))" "hdr_ok (gt_header_size g) (db_header (cn_buffer (gt_conn g ! k)))"
    using ok k(1) by (auto simp: gate_ok_def)
  obtain db mp where p: "databuffer_push (cn_buffer (gt_conn g ! k)) (gt_mp g) data = Some (db, mp)"
    using push_db_None[OF c(1), of "gt_mp g" data] fit by fastforce
  note pd = push_db[OF c(1) p]
  have "gate_ok (set_db g k db mp)" by (rule gate_ok_set_db[OF ok k pd(1)]) (use pd c in simp_all)
  moreover have "gate_dispatch_message g k fd data = dispatch_packages (set_db g k db mp) k fd []"
    by (simp add: gate_dispatch_message_def p set_db_def)
  moreover have "db_raw (gt_header_size g) db = db_raw (gt_header_size g) (cn_buffer (gt_conn g ! k)) @ data"
    using pd by (simp add: db_raw_def)
  ultimately show ?thesis by blast
qed

lemma gate_conn_ok: "gate_ok g \<Longrightarrow> k < length (gt_conn g) \<Longrightarrow> db_ok (cn_buffer (gt_conn g ! k))"
  by (simp add: gate_ok_def)

lemma dispatch_socket_ok:
  assumes ok: "gate_ok g" and m: "gmsg_ok g (GSocket sm)" and nf: "\<not> gmsg_fatal g (GSocket sm)"
  shows "\<exists>g' acts. dispatch_socket_message g sm = Some (g', acts) \<and> gate_ok g'"
proof (cases sm)
  case (MData fd data)
  show ?thesis
  proof (cases "hashid_lookup (gt_hash g) fd \<ge> 0")
    case True
    let ?k = "nat (hashid_lookup (gt_hash g) fd)"
    note gc = gate_conn[OF ok True]
    then have id: "cn_id (gt_conn g ! ?k) \<noteq> -1" by simp
    have fit: "length (db_bytes (cn_buffer (gt_conn g ! ?k))) + length data < 2 ^ 31"
      using nf True MData by (simp add: gmsg_fatal_def)
    obtain db mp where d: "gate_dispatch_message g ?k fd data = dispatch_packages (set_db g ?k db mp) ?k fd []"
      "gate_ok (set_db g ?k db mp)" using gate_dispatch_message_ok[OF ok gc(1) id fit] by blast
    have "\<exists>db' mp' acts'. dispatch_packages (set_db g ?k db mp) ?k fd [] = Some (set_db (set_db g ?k db mp) ?k db' mp', acts')
        \<and> gate_ok (set_db (set_db g ?k db mp) ?k db' mp')"
      by (rule dispatch_packages_ok[OF d(2)]) (use gc(1) id in simp_all)
    with d(1) True MData show ?thesis by (auto simp: dispatch_socket_message_def)
  qed (use ok MData in \<open>simp add: dispatch_socket_message_def\<close>)
next
  case (MClose fd)
  then show ?thesis using gate_close_ok[OF ok, of fd] m
    by (cases "gate_close g fd") (simp add: dispatch_socket_message_def gmsg_ok_def)
next
  case (MError fd t)
  then show ?thesis using gate_close_ok[OF ok, of fd] m
    by (cases "gate_close g fd") (simp add: dispatch_socket_message_def gmsg_ok_def)
next
  case (MAccept l fd t)
  then show ?thesis using gate_accept_ok[OF ok] m nf by (simp add: dispatch_socket_message_def gmsg_fatal_def)
qed (use ok in \<open>simp_all add: dispatch_socket_message_def\<close>)

lemma dispatch_socket_fatal:
  assumes ok: "gate_ok g" and f: "gmsg_fatal g (GSocket sm)"
  shows "dispatch_socket_message g sm = None"
proof (cases sm)
  case (MData fd data)
  with f have l: "hashid_lookup (gt_hash g) fd \<ge> 0" by (simp add: gmsg_fatal_def)
  with f MData push_db_None[OF gate_conn_ok[OF ok gate_conn(1)[OF ok l]], of "gt_mp g" data]
  have "databuffer_push (cn_buffer (gt_conn g ! nat (hashid_lookup (gt_hash g) fd))) (gt_mp g) data = None"
    by (simp add: gmsg_fatal_def)
  with l MData show ?thesis by (simp add: dispatch_socket_message_def gate_dispatch_message_def Let_def)
qed (use f in \<open>simp_all add: gmsg_fatal_def dispatch_socket_message_def gate_accept_def\<close>)

lemma memcmp_returns:
  assumes "list_all (\<lambda>c. of_char c \<noteq> (0 :: nat)) msg"
  shows "\<exists>b. memcmp_lit msg lit i = Some b"
proof (cases "i \<le> length lit + 1")
  case False
  have "take (length lit + 1) msg \<noteq> lit @ [char_of (0 :: nat)]"
  proof
    assume a: "take (length lit + 1) msg = lit @ [char_of (0 :: nat)]"
    have "char_of (0 :: nat) \<in> set (take (length lit + 1) msg)" unfolding a by simp
    then have "char_of (0 :: nat) \<in> set msg" by (rule in_set_takeD)
    with assms show False by (auto simp: list_all_iff)
  qed
  with False show ?thesis by (auto simp: memcmp_lit_def)
qed (simp add: memcmp_lit_def)

lemma char0_blank [simp]: "char_of (0 :: nat) \<noteq> CHR '' ''"
proof
  assume "char_of (0 :: nat) = CHR '' ''"
  then have "of_char (char_of (0 :: nat)) = (of_char (CHR '' '') :: nat)" by simp
  then show False by simp
qed

lemma buffer_sep_suffix:
  assumes "list_all (\<lambda>c. of_char c \<noteq> (0 :: nat)) p" "buffer_sep (p @ char_of (0 :: nat) # r) = (tok, Some rest)"
  shows "\<exists>p'. rest = p' @ char_of (0 :: nat) # r \<and> list_all (\<lambda>c. of_char c \<noteq> (0 :: nat)) p'"
  using assms by (induction p arbitrary: tok) (auto simp: buffer_sep_def Let_def split: if_splits)

lemma ctrl_forward_ok:
  assumes "gate_ok g" "list_all (\<lambda>c. of_char c \<noteq> (0 :: nat)) p"
  shows "\<exists>g' acts. ctrl_forward g (p @ char_of (0 :: nat) # r @ [z]) = Some (g', acts) \<and> gate_ok g'"
proof -
  obtain t1 o1 where 1: "buffer_sep (p @ char_of (0 :: nat) # r @ [z]) = (t1, o1)" by fastforce
  show ?thesis
  proof (cases o1)
    case (Some c1)
    then obtain p1 where p1: "c1 = p1 @ char_of (0 :: nat) # r @ [z]" "list_all (\<lambda>c. of_char c \<noteq> (0 :: nat)) p1"
      using buffer_sep_suffix[OF assms(2), of "r @ [z]"] 1 by auto
    obtain t2 o2 where 2: "buffer_sep c1 = (t2, o2)" by fastforce
    show ?thesis
    proof (cases o2)
      case (Some c2)
      then obtain p2 where p2: "c2 = p2 @ char_of (0 :: nat) # r @ [z]"
        using buffer_sep_suffix[OF p1(2), of "r @ [z]"] 2 p1(1) by auto
      obtain a b cs where "c2 = a # b # cs" using p2 by (cases p2; cases "tl p2"; cases r) auto
      with 1 2 \<open>o1 = Some c1\<close> Some forward_agent_ok[OF assms(1)] show ?thesis by (simp add: ctrl_forward_def)
    qed (use 1 2 Some assms(1) in \<open>simp add: ctrl_forward_def\<close>)
  qed (use 1 assms(1) in \<open>simp add: ctrl_forward_def\<close>)
qed

lemma gate_ok_broker [simp]: "gate_ok (g\<lparr>gt_broker := b\<rparr>) = gate_ok g" "gate_ok (g\<lparr>gt_listen_id := l\<rparr>) = gate_ok g"
  by (simp_all add: gate_ok_def)

lemma gate_ctrl_ok:
  assumes ok: "gate_ok g" and m: "list_all (\<lambda>c. of_char c \<noteq> (0 :: nat)) msg"
  shows "\<exists>g' acts. gate_ctrl Q g msg = Some (g', acts) \<and> gate_ok g'"
proof (cases "msg = []")
  case False
  let ?i = "length (takeWhile (\<lambda>c. c \<noteq> CHR '' '') msg)"
  obtain b1 b2 b3 b4 b5 where b: "memcmp_lit msg ''kick'' ?i = Some b1" "memcmp_lit msg ''forward'' ?i = Some b2"
    "memcmp_lit msg ''broker'' ?i = Some b3" "memcmp_lit msg ''start'' ?i = Some b4" "memcmp_lit msg ''close'' ?i = Some b5"
    using memcmp_returns[OF m] by meson
  have "list_all (\<lambda>c. of_char c \<noteq> (0 :: nat)) (gate_parm msg ?i)"
    using m by (auto simp: gate_parm_def list_all_iff dest!: set_dropWhileD in_set_dropD)
  from ctrl_forward_ok[OF ok this] obtain g2 acts where
    f: "ctrl_forward g (parm_buffer msg ?i) = Some (g2, acts)" "gate_ok g2"
    unfolding parm_buffer_def Let_def by blast
  show ?thesis using False b f ok by (simp add: gate_ctrl_def Let_def)
qed (use ok in \<open>simp add: gate_ctrl_def\<close>)

lemma gate_init_ok:
  assumes "gate_init Q L gate_create (Some p) = Some (g, acts, 0)"
  shows "gate_ok g"
proof -
  obtain header watchdog binding tag mx where sc: "scan_gate p = Some (header, watchdog, binding, tag, mx)"
    using assms by (auto simp: gate_init_def split: option.splits)
  define g1 where "g1 = gate_create\<lparr>gt_watchdog := (if hd watchdog = CHR ''!'' then 0 else Q watchdog)\<rparr>"
  obtain hi where hi: "hashid_init (nat mx) = Some hi"
    using assms sc by (auto simp: gate_init_def Let_def split: if_splits prod.splits option.splits bind_splits)
  define g2 where "g2 = g1\<lparr>gt_hash := hi, gt_conn := replicate (nat mx) (connection0\<lparr>cn_id := -1\<rparr>),
    gt_max_connection := nat mx, gt_client_tag := (if tag = 0 then PTYPE_CLIENT else of_int tag),
    gt_header_size := (if header = CHR ''S'' then 2 else 4)\<rparr>"
  have "hi_cap hi = nat mx" "hi_id hi = replicate (nat mx) (-1)" using hi by (auto simp: hashid_init_def)
  moreover have "hdr_ok h 0" for h by (simp add: hdr_ok_def)
  ultimately have "gate_ok g2" using hid_ok_init[OF hi]
    by (simp add: gate_ok_def g2_def g1_def gate_create_def connection0_def sum_list_replicate) (simp add: databuffer0_def)
  moreover have "g = fst (start_listen L g2 binding)"
    using assms sc hi by (auto simp: gate_init_def g1_def g2_def Let_def split: if_splits prod.splits)
  ultimately show ?thesis by (auto simp: start_listen_def Let_def split: option.splits)
qed

text \<open>The states the service reaches.\<close>

inductive gate_reach :: "(string \<Rightarrow> u32) \<Rightarrow> (string \<Rightarrow> int \<Rightarrow> int) \<Rightarrow> gate \<Rightarrow> bool" for Q L where
  start: "gate_init Q L gate_create (Some p) = Some (g, acts, 0) \<Longrightarrow> gate_reach Q L g"
| step: "gate_reach Q L g \<Longrightarrow> gmsg_ok g m \<Longrightarrow> gate_cb Q g m = Some (g', acts, r) \<Longrightarrow> gate_reach Q L g'"

lemma gate_cb_ok:
  assumes "gate_ok g" "gmsg_ok g m" "\<not> gmsg_fatal g m"
  shows "\<exists>g' acts r. gate_cb Q g m = Some (g', acts, r) \<and> gate_ok g'"
proof (cases m)
  case (GText t)
  with gate_ctrl_ok[OF assms(1), of t Q] assms(2) show ?thesis by (auto simp: gate_cb_def gmsg_ok_def)
next
  case (GSocket sm)
  with dispatch_socket_ok[OF assms(1), of sm] assms(2,3) show ?thesis by (auto simp: gate_cb_def)
qed (use assms(1) in \<open>auto simp: gate_cb_def Let_def\<close>)

lemma gate_cb_fatal: "gate_ok g \<Longrightarrow> gmsg_fatal g m \<Longrightarrow> gate_cb Q g m = None"
  using dispatch_socket_fatal[of g] by (cases m) (auto simp: gate_cb_def gmsg_fatal_def)

lemma gate_reach_ok: "gate_reach Q L g \<Longrightarrow> gate_ok g"
proof (induction rule: gate_reach.induct)
  case (step g m g' acts r)
  with gate_cb_ok[of g m Q] gate_cb_fatal[of g m Q] show ?case by fastforce
qed (rule gate_init_ok)

section \<open>Properties\<close>


text \<open>C28: data for a connection with a receiver, when the bytes kept and the new ones are less than \<open>2\<^sup>3\<^sup>1\<close>: the packages of the bytes kept plus the new bytes are
  forwarded, all, in order and unchanged; the rest is kept; a package of 16M or more, once it is complete, closes the
  connection.\<close>

theorem gate_forwards_packages:
  assumes "gate_ok g" "hashid_lookup (gt_hash g) fd = int k" "has_target g k"
    "length (db_bytes (cn_buffer (gt_conn g ! k))) + length data < 2 ^ 31"
    "gframes (gt_header_size g) (db_raw (gt_header_size g) (cn_buffer (gt_conn g ! k)) @ data) = (fs, r)"
  shows "\<exists>db mp. dispatch_socket_message g (MData fd data) = Some (set_db g k db mp,
      map (package_action g k) fs @ (if r = None then [ASocketClose fd, AError ''Recv socket message > 16M''] else []))
    \<and> gate_ok (set_db g k db mp) \<and> db_raw (gt_header_size g) db = (case r of Some rest \<Rightarrow> rest | None \<Rightarrow> [])"
proof -
  have k: "k < length (gt_conn g)" "cn_id (gt_conn g ! k) = fd" "fd \<noteq> -1"
    using gate_conn[OF assms(1), of fd] assms(2) by simp_all
  then have id: "cn_id (gt_conn g ! k) \<noteq> -1" by simp
  obtain db mp where d: "gate_dispatch_message g k fd data = dispatch_packages (set_db g k db mp) k fd []"
    "gate_ok (set_db g k db mp)"
    "db_raw (gt_header_size g) db = db_raw (gt_header_size g) (cn_buffer (gt_conn g ! k)) @ data"
    using gate_dispatch_message_ok[OF assms(1) k(1) id assms(4)] by blast
  have "\<exists>db' mp'. dispatch_packages (set_db g k db mp) k fd [] = Some (set_db (set_db g k db mp) k db' mp',
      [] @ map (package_action (set_db g k db mp) k) fs @ (if r = None then [ASocketClose fd, AError ''Recv socket message > 16M''] else []))
    \<and> gate_ok (set_db (set_db g k db mp) k db' mp')
    \<and> db_raw (gt_header_size (set_db g k db mp)) db' = (case r of Some rest \<Rightarrow> rest | None \<Rightarrow> [])"
    by (rule dispatch_packages_stream[OF d(2)]) (use k(1) id assms(3,5) d(3) in simp_all)
  then show ?thesis using d(1) assms(2) k(1) by (simp add: dispatch_socket_message_def)
qed

text \<open>A gate with four connections and a watchdog, started and after one accepted socket.\<close>

definition demo_hash :: "int list \<Rightarrow> nat \<Rightarrow> (nat \<Rightarrow> nat list) \<Rightarrow> hashid" where
  "demo_hash ids n ch = \<lparr>hi_hashmod = 15, hi_cap = 4, hi_count = n, hi_id = ids, hi_hash = ch\<rparr>"

definition demo_gate :: gate where
  "demo_gate = \<lparr>gt_listen_id = 3, gt_watchdog = 9, gt_broker = 0, gt_client_tag = PTYPE_CLIENT, gt_header_size = 2,
     gt_max_connection = 4, gt_hash = demo_hash (replicate 4 (-1)) 0 (\<lambda>_. []),
     gt_conn = replicate 4 (connection0\<lparr>cn_id := -1\<rparr>), gt_mp = \<lparr>mp_pool = 0, mp_freelist = 0\<rparr>\<rparr>"

definition demo_gate2 :: gate where
  "demo_gate2 = demo_gate\<lparr>gt_hash := demo_hash ((replicate 4 (-1))[1 := 5]) 1 ((\<lambda>_. [])(5 := [1])),
     gt_conn := (gt_conn demo_gate)[1 := connection0\<lparr>cn_id := 5, cn_remote_name := ''peer''\<rparr>]\<rparr>"

lemma demo_start: "gate_init (\<lambda>_. 9) (\<lambda>_ _. 3) gate_create (Some ''S wd 80 0 4'') =
    Some (demo_gate, [ACallback, ASocketListen [] 80 32, ASocketStart 3], 0)"
proof -
  have "scan_gate ''S wd 80 0 4'' = Some (CHR ''S'', ''wd'', ''80'', 0, 4)"
    by (simp add: scan_gate_def scan_word_def scan_int_def c_isspace_def scan_sign_def is_digit_def digit_val_def digits_val_def to_int32_def)
  moreover have "hash_capacity 16 4 = 16" by (simp add: hash_capacity.simps)
  moreover have "start_listen (\<lambda>_ _. 3) g ''80'' = (g\<lparr>gt_listen_id := 3\<rparr>, [ASocketListen [] 80 32, ASocketStart 3], 0)" for g
    by (simp add: start_listen_def c_strchr_def c_strtol_def scan_number_def c_isspace_def scan_sign_def scan_base_def
        is_digit_def digit_val_def digits_val_def to_int32_def BACKLOG_def Let_def)
  ultimately show ?thesis
    by (simp add: gate_init_def gate_create_def hashid_init_def demo_gate_def demo_hash_def Let_def)
qed

lemma demo_accept: "gate_cb Q demo_gate (GSocket (MAccept 3 5 (text_bytes ''peer''))) =
    Some (demo_gate2, [ASend 0 9 PTYPE_TEXT 0 (text_bytes ''5 open 5 peer:0''), AError ''socket open: 5''], 0)"
proof -
  have pi: "probe_index 4 0 5 = Some 1" by (simp add: probe_index_def to_signed_def of_signed_def)
  have "[0..<4] = 0 # [1..<4]" by (simp add: upt_conv_Cons)
  then have ins: "hashid_insert (gt_hash demo_gate) 5 = Some (demo_hash ((replicate 4 (-1))[1 := 5]) 1 ((\<lambda>_. [])(5 := [1])), 1)"
    by (simp add: hashid_insert_def demo_gate_def demo_hash_def pi id_hash_def)
  have f: "fmt_d 5 = ''5''" "fmt_x (word_of_int 5) = ''5''"
    by (simp_all add: fmt_d_def fmt_x_def nat_string.simps digit_char_def char_of_def bit_0)
  have n: "c_string (byte_text (take 31 (text_bytes ''peer''))) = ''peer''"
    by (simp add: byte_text_def text_bytes_def c_string_def char_of_def bit_0)
  show ?thesis using ins f n
    by (simp add: gate_cb_def dispatch_socket_message_def gate_accept_def hashid_full_def Let_def)
      (simp add: demo_gate2_def demo_gate_def demo_hash_def report_def connection0_def)
qed

lemma demo_reach: "gate_reach (\<lambda>_. 9) (\<lambda>_ _. 3) demo_gate2"
proof (rule gate_reach.step[OF gate_reach.start[OF demo_start] _ demo_accept])
  show "gmsg_ok demo_gate (GSocket (MAccept 3 5 (text_bytes ''peer'')))"
    by (simp add: gmsg_ok_def demo_gate_def demo_hash_def)
qed


text \<open>The command \<open>close\<close> forgets the listening socket before the socket server has closed it: a socket that was accepted in between stops
  the process.\<close>

lemma gate_close_then_accept:
  assumes "gate_reach Q L g" "gt_listen_id g = l" "0 \<le> l"
  shows "\<exists>g'. gate_cb Q g (GText ''close'') = Some (g', [ASocketClose l], 0) \<and> gate_cb Q g' (GSocket (MAccept l fd name)) = None"
  using assms(2,3) by (simp add: gate_cb_def gate_ctrl_def memcmp_lit_def dispatch_socket_message_def gate_accept_def)

lemma demo_gate2_facts:
  "hashid_lookup (gt_hash demo_gate2) 5 = int 1"
  "gt_conn demo_gate2 ! 1 = connection0\<lparr>cn_id := 5, cn_remote_name := ''peer''\<rparr>"
  "gt_header_size demo_gate2 = 2" "gt_broker demo_gate2 = 0" "gt_watchdog demo_gate2 = 9" "gt_client_tag demo_gate2 = PTYPE_CLIENT"
  "db_raw hs (cn_buffer (gt_conn demo_gate2 ! 1)) = []"
  by (simp_all add: hashid_lookup_def demo_gate2_def demo_hash_def id_hash_def demo_gate_def connection0_def
      databuffer0_def db_raw_def db_bytes_def)

theorem gate_forwards_packages_witness:
  "\<exists>db mp. dispatch_socket_message demo_gate2 (MData 5 [0, 1, 65, 0, 0, 0]) = Some (set_db demo_gate2 1 db mp,
      [ASend 0 9 (PTYPE_TEXT OR PTYPE_TAG_DONTCOPY) 1 (text_bytes (fmt_d 5 @ '' data '') @ [65])]) \<and> db_raw 2 db = [0]"
proof -
  have t: "has_target demo_gate2 1" by (simp add: has_target_def demo_gate2_facts)
  have "gframes 2 [0] = ([], Some [0])" "gframes 2 [0, 0, 0] = ([], Some [0])" "gframes 2 [0, 1, 65, 0, 0, 0] = ([[65]], Some [0])"
    by (simp_all add: gframes.simps header_value_def numeral_2_eq_2)
  moreover have "length (db_bytes (cn_buffer (gt_conn demo_gate2 ! 1))) + length [0, 1, 65, 0, 0, 0 :: u8] < 2 ^ 31"
    by (simp add: demo_gate2_facts(2)[simplified] connection0_def)
  ultimately show ?thesis
    using gate_forwards_packages[OF gate_reach_ok[OF demo_reach] demo_gate2_facts(1) t, of "[0, 1, 65, 0, 0, 0]" "[[65]]" "Some [0]"]
    by (simp add: demo_gate2_facts[simplified] package_action_def)
      (auto simp: connection0_def databuffer0_def db_raw_def db_bytes_def demo_gate2_facts)
qed

text \<open>C30: for a connection without receiver (no agent, broker and watchdog) nothing is forwarded; of every complete package the header is dropped but its data stays in
  the buffer and is read as the next header, so that the stream is out of step: the bytes that are left are those of \<open>gskip\<close>, which reads on at the data
  of a package, where the packages of the stream (\<open>gframes\<close>) go on behind it.\<close>

theorem gate_unforwarded_out_of_step:
  assumes "gate_ok g" "hashid_lookup (gt_hash g) fd = int k" "\<not> has_target g k"
    "length (db_bytes (cn_buffer (gt_conn g ! k))) + length data < 2 ^ 31"
    "db_raw hs (cn_buffer (gt_conn g ! k)) @ data = raw" "hs = gt_header_size g"
  shows "(\<exists>db mp. dispatch_socket_message g (MData fd data) = Some (set_db g k db mp,
        if gskip hs raw = None then [ASocketClose fd, AError ''Recv socket message > 16M''] else [])
      \<and> db_raw hs db = (case gskip hs raw of Some rest \<Rightarrow> rest | None \<Rightarrow> []))
    \<and> (raw = hdr @ body @ rest \<and> length hdr = hs \<and> header_value hs hdr = int (length body) \<and> 0 < length body \<and> length body < 0x1000000 \<longrightarrow>
        gskip hs raw = gskip hs (body @ rest) \<and> fst (gframes hs raw) = body # fst (gframes hs rest))"
proof -
  have k: "k < length (gt_conn g)" "cn_id (gt_conn g ! k) = fd" "fd \<noteq> -1"
    using gate_conn[OF assms(1), of fd] assms(2) by simp_all
  then have id: "cn_id (gt_conn g ! k) \<noteq> -1" by simp
  have hs: "0 < hs" using assms(1,6) by (auto simp: gate_ok_def)
  obtain db mp where d: "gate_dispatch_message g k fd data = dispatch_packages (set_db g k db mp) k fd []"
    "gate_ok (set_db g k db mp)" "db_raw hs db = raw"
    using gate_dispatch_message_ok[OF assms(1) k(1) id assms(4), of fd] assms(5,6) by auto
  have "\<exists>db' mp'. dispatch_packages (set_db g k db mp) k fd [] = Some (set_db (set_db g k db mp) k db' mp',
      [] @ (if gskip hs raw = None then [ASocketClose fd, AError ''Recv socket message > 16M''] else []))
    \<and> gate_ok (set_db (set_db g k db mp) k db' mp')
    \<and> db_raw (gt_header_size (set_db g k db mp)) db' = (case gskip hs raw of Some rest \<Rightarrow> rest | None \<Rightarrow> [])"
    by (rule dispatch_packages_skip[OF d(2)]) (use k(1) id assms(3,6) d(3) in simp_all)
  then obtain db' mp' where run: "dispatch_packages (set_db g k db mp) k fd [] = Some (set_db g k db' mp',
      if gskip hs raw = None then [ASocketClose fd, AError ''Recv socket message > 16M''] else [])"
    "db_raw hs db' = (case gskip hs raw of Some rest \<Rightarrow> rest | None \<Rightarrow> [])" using assms(6) by auto
  then have "\<exists>db mp. dispatch_socket_message g (MData fd data) = Some (set_db g k db mp,
        if gskip hs raw = None then [ASocketClose fd, AError ''Recv socket message > 16M''] else [])
      \<and> db_raw hs db = (case gskip hs raw of Some rest \<Rightarrow> rest | None \<Rightarrow> [])"
    using d(1) assms(2) by (intro exI[of _ db'] exI[of _ mp']) (simp add: dispatch_socket_message_def)
  moreover have "gskip hs raw = gskip hs (body @ rest) \<and> fst (gframes hs raw) = body # fst (gframes hs rest)"
    if "raw = hdr @ body @ rest" "length hdr = hs" "header_value hs hdr = int (length body)" "0 < length body" "length body < 0x1000000"
    unfolding that(1) using that(2-) hs
    by (simp add: gskip.simps[of hs "hdr @ body @ rest"] gframes.simps[of hs "hdr @ body @ rest"] split_def Let_def)
  ultimately show ?thesis by blast
qed

lemma gate_ok_watchdog [simp]: "gate_ok (g\<lparr>gt_watchdog := w\<rparr>) = gate_ok g" "gate_ok (g\<lparr>gt_client_tag := t\<rparr>) = gate_ok g"
  by (simp_all add: gate_ok_def)

theorem gate_unforwarded_out_of_step_witness:
  "(\<exists>db mp. dispatch_socket_message (demo_gate2\<lparr>gt_watchdog := 0\<rparr>) (MData 5 [0, 2, 9, 9]) =
     Some (set_db (demo_gate2\<lparr>gt_watchdog := 0\<rparr>) 1 db mp, []) \<and> db_raw 2 db = [9, 9]) \<and> fst (gframes 2 [0, 2, 9, 9]) = [[9, 9]]"
proof -
  have v: "header_value 2 [0, 2] = 2" "header_value 2 [9, 9] = 2313" by (simp_all add: header_value_def)
  have "gskip 2 [9, 9] = Some [9, 9]" by (subst gskip.simps) (simp add: v)
  then have gs: "gskip 2 [0, 2, 9, 9] = Some [9, 9]" by (subst gskip.simps) (simp add: v)
  have fr: "gframes 2 [] = ([], Some [])" by (subst gframes.simps) simp
  let ?g = "demo_gate2\<lparr>gt_watchdog := 0\<rparr>"
  have ok: "gate_ok ?g" using gate_reach_ok[OF demo_reach] by simp
  have f: "hashid_lookup (gt_hash ?g) 5 = int 1" "\<not> has_target ?g 1"
    "length (db_bytes (cn_buffer (gt_conn ?g ! 1))) + length [0, 2, 9, 9 :: u8] < 2 ^ 31"
    "db_raw 2 (cn_buffer (gt_conn ?g ! 1)) @ [0, 2, 9, 9] = [0, 2, 9, 9]" "2 = gt_header_size ?g"
    using demo_gate2_facts by (simp_all add: has_target_def connection0_def)
  from gate_unforwarded_out_of_step[OF ok f, of "[0, 2]" "[9, 9]" "[]"] v(1) gs fr show ?thesis by simp
qed

text \<open>A four-byte length with the highest bit set becomes negative: the connection is neither closed
  as too long nor ever served, it keeps everything it receives, until the size overflows.\<close>

lemma gate_negative_length:
  assumes "gate_ok g" "gt_header_size g = 4" "hashid_lookup (gt_hash g) fd = int k" "128 \<le> b"
    "db_raw 4 (cn_buffer (gt_conn g ! k)) @ data = b # b1 # b2 # b3 # tail"
    "length (db_bytes (cn_buffer (gt_conn g ! k))) + length data < 2 ^ 31"
  shows "\<exists>db mp. dispatch_socket_message g (MData fd data) = Some (set_db g k db mp, [])
    \<and> db_raw 4 db = db_raw 4 (cn_buffer (gt_conn g ! k)) @ data"
proof -
  have k: "k < length (gt_conn g)" "cn_id (gt_conn g ! k) = fd" "fd \<noteq> -1"
    using gate_conn[OF assms(1), of fd] assms(3) by simp_all
  then have id: "cn_id (gt_conn g ! k) \<noteq> -1" by simp
  obtain db mp where d: "gate_dispatch_message g k fd data = dispatch_packages (set_db g k db mp) k fd []"
    "gate_ok (set_db g k db mp)" "db_raw 4 db = b # b1 # b2 # b3 # tail"
    using gate_dispatch_message_ok[OF assms(1) k(1) id assms(6), of fd] assms(2,5) by auto
  let ?g = "set_db g k db mp"
  have k1: "k < length (gt_conn ?g)" "cn_id (gt_conn ?g ! k) \<noteq> -1" using k(1) id by simp_all
  have "128 \<le> unat b" using assms(4) by (simp add: word_le_nat_alt)
  then have ge: "2 ^ 31 \<le> be_val [b, b1, b2, b3]" by (simp add: be_val_def)
  have "header_value 4 [b, b1, b2, b3] < 0"
  proof -
    have l4: "length [b, b1, b2, b3] = 4" by simp
    have "be_val [b, b1, b2, b3] < 2 ^ 32" using be_val_less[of "[b, b1, b2, b3]", unfolded l4] by simp
    with header_value_be[OF _ l4] ge show ?thesis by (simp add: to_signed_def)
  qed
  with dispatch_round(2)[OF d(2) k1, of fd "[]"] obtain db2 mp2 where
    "dispatch_packages ?g k fd [] = Some (set_db g k db2 mp2, [])" "db_raw 4 db2 = b # b1 # b2 # b3 # tail"
    using k(1) assms(2) d(3) by auto
  with d(1) assms(3,5) show ?thesis by (auto simp: dispatch_socket_message_def)
qed

lemma gate_ok_header4: "gate_ok g \<Longrightarrow> (\<And>k. k < length (gt_conn g) \<Longrightarrow> db_header (cn_buffer (gt_conn g ! k)) = 0) \<Longrightarrow>
    gate_ok (g\<lparr>gt_header_size := 4\<rparr>)"
  by (simp add: gate_ok_def hdr_ok_def)

lemma gate_negative_length_witness:
  "\<exists>db mp. dispatch_socket_message (demo_gate2\<lparr>gt_header_size := 4\<rparr>) (MData 5 [255, 0, 0, 1, 65]) =
     Some (set_db (demo_gate2\<lparr>gt_header_size := 4\<rparr>) 1 db mp, []) \<and> db_raw 4 db = [255, 0, 0, 1, 65]"
proof -
  have "gate_ok (demo_gate2\<lparr>gt_header_size := 4\<rparr>)"
    by (rule gate_ok_header4[OF gate_reach_ok[OF demo_reach]])
      (simp add: demo_gate2_def demo_gate_def nth_list_update connection0_def databuffer0_def)
  from gate_negative_length[OF this, of 5 1 255 "[255, 0, 0, 1, 65]" 0 0 1 "[65]"] demo_gate2_facts show ?thesis
    by (simp add: connection0_def)
qed

text \<open>A control text is matched against the commands by the length of its first word: an abbreviation
  is accepted, and a text that starts with a blank is the command \<open>kick\<close>.\<close>

lemma gate_ctrl_blank_kicks:
  "gate_ctrl Q g '' 5'' = Some (g, if hashid_lookup (gt_hash g) 5 \<ge> 0 then [ASocketClose 5] else [])"
  by (simp add: gate_ctrl_def memcmp_lit_def gate_parm_def c_string_def c_strtol_def scan_number_def c_isspace_def
      scan_sign_def scan_base_def is_digit_def digit_val_def digits_val_def to_int32_def Let_def)

text \<open>The probing of \<open>hashid_insert\<close> adds the index to the id: for the largest id the sum overflows and
  the index is negative.\<close>

lemma hashid_insert_overflow:
  "hashid_insert \<lparr>hi_hashmod = 15, hi_cap = 3, hi_count = 1, hi_id = [-1, 4, -1], hi_hash = (\<lambda>_. [])(4 := [1])\<rparr> (2 ^ 31 - 1) = None"
proof -
  have "[0..<3] = [0, 1, 2 :: nat]" by (simp add: upt_rec)
  then show ?thesis by (simp add: hashid_insert_def probe_index_def to_signed_def of_signed_def)
qed

end
