(* ===== verification/Des.thy ===== *)
theory Des
  imports Bytes
begin

text \<open>
  The DES cipher of \<open>lualib-src/lua-crypt.c\<close>: tables, permutation macros, key schedule, the block
  function, and encryption and decryption of strings with the padding of one 0x80 byte and zeros.
\<close>

section \<open>Tables\<close>

definition SB1 :: "u32 list" where
  "SB1 = [0x01010400, 0x00000000, 0x00010000, 0x01010404, 0x01010004, 0x00010404, 0x00000004, 0x00010000,
     0x00000400, 0x01010400, 0x01010404, 0x00000400, 0x01000404, 0x01010004, 0x01000000, 0x00000004,
     0x00000404, 0x01000400, 0x01000400, 0x00010400, 0x00010400, 0x01010000, 0x01010000, 0x01000404,
     0x00010004, 0x01000004, 0x01000004, 0x00010004, 0x00000000, 0x00000404, 0x00010404, 0x01000000,
     0x00010000, 0x01010404, 0x00000004, 0x01010000, 0x01010400, 0x01000000, 0x01000000, 0x00000400,
     0x01010004, 0x00010000, 0x00010400, 0x01000004, 0x00000400, 0x00000004, 0x01000404, 0x00010404,
     0x01010404, 0x00010004, 0x01010000, 0x01000404, 0x01000004, 0x00000404, 0x00010404, 0x01010400,
     0x00000404, 0x01000400, 0x01000400, 0x00000000, 0x00010004, 0x00010400, 0x00000000, 0x01010004]"

definition SB2 :: "u32 list" where
  "SB2 = [0x80108020, 0x80008000, 0x00008000, 0x00108020, 0x00100000, 0x00000020, 0x80100020, 0x80008020,
     0x80000020, 0x80108020, 0x80108000, 0x80000000, 0x80008000, 0x00100000, 0x00000020, 0x80100020,
     0x00108000, 0x00100020, 0x80008020, 0x00000000, 0x80000000, 0x00008000, 0x00108020, 0x80100000,
     0x00100020, 0x80000020, 0x00000000, 0x00108000, 0x00008020, 0x80108000, 0x80100000, 0x00008020,
     0x00000000, 0x00108020, 0x80100020, 0x00100000, 0x80008020, 0x80100000, 0x80108000, 0x00008000,
     0x80100000, 0x80008000, 0x00000020, 0x80108020, 0x00108020, 0x00000020, 0x00008000, 0x80000000,
     0x00008020, 0x80108000, 0x00100000, 0x80000020, 0x00100020, 0x80008020, 0x80000020, 0x00100020,
     0x00108000, 0x00000000, 0x80008000, 0x00008020, 0x80000000, 0x80100020, 0x80108020, 0x00108000]"

definition SB3 :: "u32 list" where
  "SB3 = [0x00000208, 0x08020200, 0x00000000, 0x08020008, 0x08000200, 0x00000000, 0x00020208, 0x08000200,
     0x00020008, 0x08000008, 0x08000008, 0x00020000, 0x08020208, 0x00020008, 0x08020000, 0x00000208,
     0x08000000, 0x00000008, 0x08020200, 0x00000200, 0x00020200, 0x08020000, 0x08020008, 0x00020208,
     0x08000208, 0x00020200, 0x00020000, 0x08000208, 0x00000008, 0x08020208, 0x00000200, 0x08000000,
     0x08020200, 0x08000000, 0x00020008, 0x00000208, 0x00020000, 0x08020200, 0x08000200, 0x00000000,
     0x00000200, 0x00020008, 0x08020208, 0x08000200, 0x08000008, 0x00000200, 0x00000000, 0x08020008,
     0x08000208, 0x00020000, 0x08000000, 0x08020208, 0x00000008, 0x00020208, 0x00020200, 0x08000008,
     0x08020000, 0x08000208, 0x00000208, 0x08020000, 0x00020208, 0x00000008, 0x08020008, 0x00020200]"

definition SB4 :: "u32 list" where
  "SB4 = [0x00802001, 0x00002081, 0x00002081, 0x00000080, 0x00802080, 0x00800081, 0x00800001, 0x00002001,
     0x00000000, 0x00802000, 0x00802000, 0x00802081, 0x00000081, 0x00000000, 0x00800080, 0x00800001,
     0x00000001, 0x00002000, 0x00800000, 0x00802001, 0x00000080, 0x00800000, 0x00002001, 0x00002080,
     0x00800081, 0x00000001, 0x00002080, 0x00800080, 0x00002000, 0x00802080, 0x00802081, 0x00000081,
     0x00800080, 0x00800001, 0x00802000, 0x00802081, 0x00000081, 0x00000000, 0x00000000, 0x00802000,
     0x00002080, 0x00800080, 0x00800081, 0x00000001, 0x00802001, 0x00002081, 0x00002081, 0x00000080,
     0x00802081, 0x00000081, 0x00000001, 0x00002000, 0x00800001, 0x00002001, 0x00802080, 0x00800081,
     0x00002001, 0x00002080, 0x00800000, 0x00802001, 0x00000080, 0x00800000, 0x00002000, 0x00802080]"

definition SB5 :: "u32 list" where
  "SB5 = [0x00000100, 0x02080100, 0x02080000, 0x42000100, 0x00080000, 0x00000100, 0x40000000, 0x02080000,
     0x40080100, 0x00080000, 0x02000100, 0x40080100, 0x42000100, 0x42080000, 0x00080100, 0x40000000,
     0x02000000, 0x40080000, 0x40080000, 0x00000000, 0x40000100, 0x42080100, 0x42080100, 0x02000100,
     0x42080000, 0x40000100, 0x00000000, 0x42000000, 0x02080100, 0x02000000, 0x42000000, 0x00080100,
     0x00080000, 0x42000100, 0x00000100, 0x02000000, 0x40000000, 0x02080000, 0x42000100, 0x40080100,
     0x02000100, 0x40000000, 0x42080000, 0x02080100, 0x40080100, 0x00000100, 0x02000000, 0x42080000,
     0x42080100, 0x00080100, 0x42000000, 0x42080100, 0x02080000, 0x00000000, 0x40080000, 0x42000000,
     0x00080100, 0x02000100, 0x40000100, 0x00080000, 0x00000000, 0x40080000, 0x02080100, 0x40000100]"

definition SB6 :: "u32 list" where
  "SB6 = [0x20000010, 0x20400000, 0x00004000, 0x20404010, 0x20400000, 0x00000010, 0x20404010, 0x00400000,
     0x20004000, 0x00404010, 0x00400000, 0x20000010, 0x00400010, 0x20004000, 0x20000000, 0x00004010,
     0x00000000, 0x00400010, 0x20004010, 0x00004000, 0x00404000, 0x20004010, 0x00000010, 0x20400010,
     0x20400010, 0x00000000, 0x00404010, 0x20404000, 0x00004010, 0x00404000, 0x20404000, 0x20000000,
     0x20004000, 0x00000010, 0x20400010, 0x00404000, 0x20404010, 0x00400000, 0x00004010, 0x20000010,
     0x00400000, 0x20004000, 0x20000000, 0x00004010, 0x20000010, 0x20404010, 0x00404000, 0x20400000,
     0x00404010, 0x20404000, 0x00000000, 0x20400010, 0x00000010, 0x00004000, 0x20400000, 0x00404010,
     0x00004000, 0x00400010, 0x20004010, 0x00000000, 0x20404000, 0x20000000, 0x00400010, 0x20004010]"

definition SB7 :: "u32 list" where
  "SB7 = [0x00200000, 0x04200002, 0x04000802, 0x00000000, 0x00000800, 0x04000802, 0x00200802, 0x04200800,
     0x04200802, 0x00200000, 0x00000000, 0x04000002, 0x00000002, 0x04000000, 0x04200002, 0x00000802,
     0x04000800, 0x00200802, 0x00200002, 0x04000800, 0x04000002, 0x04200000, 0x04200800, 0x00200002,
     0x04200000, 0x00000800, 0x00000802, 0x04200802, 0x00200800, 0x00000002, 0x04000000, 0x00200800,
     0x04000000, 0x00200800, 0x00200000, 0x04000802, 0x04000802, 0x04200002, 0x04200002, 0x00000002,
     0x00200002, 0x04000000, 0x04000800, 0x00200000, 0x04200800, 0x00000802, 0x00200802, 0x04200800,
     0x00000802, 0x04000002, 0x04200802, 0x04200000, 0x00200800, 0x00000000, 0x00000002, 0x04200802,
     0x00000000, 0x00200802, 0x04200000, 0x00000800, 0x04000002, 0x04000800, 0x00000800, 0x00200002]"

definition SB8 :: "u32 list" where
  "SB8 = [0x10001040, 0x00001000, 0x00040000, 0x10041040, 0x10000000, 0x10001040, 0x00000040, 0x10000000,
     0x00040040, 0x10040000, 0x10041040, 0x00041000, 0x10041000, 0x00041040, 0x00001000, 0x00000040,
     0x10040000, 0x10000040, 0x10001000, 0x00001040, 0x00041000, 0x00040040, 0x10040040, 0x10041000,
     0x00001040, 0x00000000, 0x00000000, 0x10040040, 0x10000040, 0x10001000, 0x00041040, 0x00040000,
     0x00041040, 0x00040000, 0x10041000, 0x00001000, 0x00000040, 0x10040040, 0x00001000, 0x00041040,
     0x10001000, 0x00000040, 0x10000040, 0x10040000, 0x10040040, 0x10000000, 0x00040000, 0x10001040,
     0x00000000, 0x10041040, 0x00040040, 0x10000040, 0x10040000, 0x10001000, 0x10001040, 0x00000000,
     0x10041040, 0x00041000, 0x00041000, 0x00001040, 0x00001040, 0x00040040, 0x10000000, 0x10041000]"

definition LHs :: "u32 list" where
  "LHs = [0x00000000, 0x00000001, 0x00000100, 0x00000101, 0x00010000, 0x00010001, 0x00010100, 0x00010101,
     0x01000000, 0x01000001, 0x01000100, 0x01000101, 0x01010000, 0x01010001, 0x01010100, 0x01010101]"

definition RHs :: "u32 list" where
  "RHs = [0x00000000, 0x01000000, 0x00010000, 0x01010000, 0x00000100, 0x01000100, 0x00010100, 0x01010100,
     0x00000001, 0x01000001, 0x00010001, 0x01010001, 0x00000101, 0x01000101, 0x00010101, 0x01010101]"

section \<open>Macros\<close>

definition GET_UINT32 :: "u8 list \<Rightarrow> nat \<Rightarrow> u32" where
  "GET_UINT32 b i = push_bit 24 (ucast (b ! i)) OR push_bit 16 (ucast (b ! (i + 1)))
     OR push_bit 8 (ucast (b ! (i + 2))) OR ucast (b ! (i + 3))"

definition PUT_UINT32 :: "u32 \<Rightarrow> u8 list" where
  "PUT_UINT32 n = [ucast (drop_bit 24 n), ucast (drop_bit 16 n), ucast (drop_bit 8 n), ucast n]"

text \<open>\<open>T = ((A >> k) ^ B) & m; B ^= T; A ^= (T << k);\<close>\<close>

definition swap_bits :: "nat \<Rightarrow> u32 \<Rightarrow> u32 \<times> u32 \<Rightarrow> u32 \<times> u32" where
  "swap_bits k m = (\<lambda>(a, b). let t = (drop_bit k a XOR b) AND m in (a XOR push_bit k t, b XOR t))"

definition rotl1 :: "u32 \<Rightarrow> u32" where
  "rotl1 x = (push_bit 1 x OR drop_bit 31 x) AND 0xFFFFFFFF"

definition rotr1 :: "u32 \<Rightarrow> u32" where
  "rotr1 x = (push_bit 31 x OR drop_bit 1 x) AND 0xFFFFFFFF"

definition DES_IP :: "u32 \<times> u32 \<Rightarrow> u32 \<times> u32" where
  "DES_IP = (\<lambda>(X, Y).
     let (X, Y) = swap_bits 4 0x0F0F0F0F (X, Y);
         (X, Y) = swap_bits 16 0x0000FFFF (X, Y);
         (Y, X) = swap_bits 2 0x33333333 (Y, X);
         (Y, X) = swap_bits 8 0x00FF00FF (Y, X);
         Y = rotl1 Y;
         (X, Y) = swap_bits 0 0xAAAAAAAA (X, Y);
         X = rotl1 X
     in (X, Y))"

definition DES_FP :: "u32 \<times> u32 \<Rightarrow> u32 \<times> u32" where
  "DES_FP = (\<lambda>(X, Y).
     let X = rotr1 X;
         (X, Y) = swap_bits 0 0xAAAAAAAA (X, Y);
         Y = rotr1 Y;
         (Y, X) = swap_bits 8 0x00FF00FF (Y, X);
         (Y, X) = swap_bits 2 0x33333333 (Y, X);
         (X, Y) = swap_bits 16 0x0000FFFF (X, Y);
         (X, Y) = swap_bits 4 0x0F0F0F0F (X, Y)
     in (X, Y))"

text \<open>What \<open>DES_ROUND(X, Y)\<close> adds to \<open>Y\<close>, with the two words of the key schedule it uses.\<close>

definition DES_ROUND :: "u32 \<times> u32 \<Rightarrow> u32 \<Rightarrow> u32" where
  "DES_ROUND = (\<lambda>(k1, k2) X.
     let T = k1 XOR X; U = k2 XOR (push_bit 28 X OR drop_bit 4 X);
         ix = (\<lambda>v s. unat (drop_bit s v AND 0x3F))
     in SB8 ! ix T 0 XOR SB6 ! ix T 8 XOR SB4 ! ix T 16 XOR SB2 ! ix T 24
        XOR SB7 ! ix U 0 XOR SB5 ! ix U 8 XOR SB3 ! ix U 16 XOR SB1 ! ix U 24)"

section \<open>Key schedule\<close>

definition permuted_choice1 :: "u32 \<times> u32 \<Rightarrow> u32 \<times> u32" where
  "permuted_choice1 = (\<lambda>(X, Y).
     let (Y, X) = swap_bits 4 0x0F0F0F0F (Y, X);
         (Y, X) = swap_bits 0 0x10101010 (Y, X);
         l = (\<lambda>s. LHs ! unat (drop_bit s X AND 0xF));
         r = (\<lambda>s. RHs ! unat (drop_bit s Y AND 0xF));
         X' = push_bit 3 (l 0) OR push_bit 2 (l 8) OR push_bit 1 (l 16) OR l 24
              OR push_bit 7 (l 5) OR push_bit 6 (l 13) OR push_bit 5 (l 21) OR push_bit 4 (l 29);
         Y' = push_bit 3 (r 1) OR push_bit 2 (r 9) OR push_bit 1 (r 17) OR r 25
              OR push_bit 7 (r 4) OR push_bit 6 (r 12) OR push_bit 5 (r 20) OR push_bit 4 (r 28)
     in (X' AND 0x0FFFFFFF, Y' AND 0x0FFFFFFF))"

definition rot28 :: "nat \<Rightarrow> u32 \<Rightarrow> u32" where
  "rot28 n X = (push_bit n X OR drop_bit (28 - n) X) AND 0x0FFFFFFF"

definition subkey :: "u32 \<Rightarrow> u32 \<Rightarrow> u32 \<times> u32" where
  "subkey X Y =
     ((push_bit 4 X AND 0x24000000) OR (push_bit 28 X AND 0x10000000) OR (push_bit 14 X AND 0x08000000)
        OR (push_bit 18 X AND 0x02080000) OR (push_bit 6 X AND 0x01000000) OR (push_bit 9 X AND 0x00200000)
        OR (drop_bit 1 X AND 0x00100000) OR (push_bit 10 X AND 0x00040000) OR (push_bit 2 X AND 0x00020000)
        OR (drop_bit 10 X AND 0x00010000) OR (drop_bit 13 Y AND 0x00002000) OR (drop_bit 4 Y AND 0x00001000)
        OR (push_bit 6 Y AND 0x00000800) OR (drop_bit 1 Y AND 0x00000400) OR (drop_bit 14 Y AND 0x00000200)
        OR (Y AND 0x00000100) OR (drop_bit 5 Y AND 0x00000020) OR (drop_bit 10 Y AND 0x00000010)
        OR (drop_bit 3 Y AND 0x00000008) OR (drop_bit 18 Y AND 0x00000004) OR (drop_bit 26 Y AND 0x00000002)
        OR (drop_bit 24 Y AND 0x00000001),
      (push_bit 15 X AND 0x20000000) OR (push_bit 17 X AND 0x10000000) OR (push_bit 10 X AND 0x08000000)
        OR (push_bit 22 X AND 0x04000000) OR (drop_bit 2 X AND 0x02000000) OR (push_bit 1 X AND 0x01000000)
        OR (push_bit 16 X AND 0x00200000) OR (push_bit 11 X AND 0x00100000) OR (push_bit 3 X AND 0x00080000)
        OR (drop_bit 6 X AND 0x00040000) OR (push_bit 15 X AND 0x00020000) OR (drop_bit 4 X AND 0x00010000)
        OR (drop_bit 2 Y AND 0x00002000) OR (push_bit 8 Y AND 0x00001000) OR (drop_bit 14 Y AND 0x00000808)
        OR (drop_bit 9 Y AND 0x00000400) OR (Y AND 0x00000200) OR (push_bit 7 Y AND 0x00000100)
        OR (drop_bit 7 Y AND 0x00000020) OR (drop_bit 3 Y AND 0x00000011) OR (push_bit 2 Y AND 0x00000004)
        OR (drop_bit 21 Y AND 0x00000002))"

text \<open>The loop over the sixteen rounds: the pairs of words it appends to the schedule.\<close>

fun ks_loop :: "nat list \<Rightarrow> u32 \<times> u32 \<Rightarrow> (u32 \<times> u32) list" where
  "ks_loop [] XY = []"
| "ks_loop (i # is) XY =
     (let n = (if i < 2 \<or> i = 8 \<or> i = 15 then 1 else 2); X = rot28 n (fst XY); Y = rot28 n (snd XY)
      in subkey X Y # ks_loop is (X, Y))"

text \<open>The array \<open>SK[32]\<close> is a list of sixteen pairs.\<close>

definition des_main_ks :: "u8 list \<Rightarrow> (u32 \<times> u32) list" where
  "des_main_ks key = ks_loop [0..<16] (permuted_choice1 (GET_UINT32 key 0, GET_UINT32 key 4))"

section \<open>Blocks\<close>

text \<open>The sixteen rounds, two at a time: \<open>DES_ROUND(Y, X); DES_ROUND(X, Y);\<close>\<close>

fun des_rounds :: "(u32 \<times> u32) list \<Rightarrow> u32 \<times> u32 \<Rightarrow> u32 \<times> u32" where
  "des_rounds (k1 # k2 # ks) (X, Y) =
     (let X1 = X XOR DES_ROUND k1 Y; Y1 = Y XOR DES_ROUND k2 X1 in des_rounds ks (X1, Y1))"
| "des_rounds _ XY = XY"

definition des_crypt :: "(u32 \<times> u32) list \<Rightarrow> u8 list \<Rightarrow> u8 list" where
  "des_crypt SK input =
     (let (X, Y) = des_rounds SK (DES_IP (GET_UINT32 input 0, GET_UINT32 input 4));
          (Y, X) = DES_FP (Y, X)
      in PUT_UINT32 Y @ PUT_UINT32 X)"

section \<open>Strings\<close>

text \<open>The last block: the remaining bytes, 0x80, zeros.\<close>

definition des_tail :: "u8 list \<Rightarrow> u8 list" where
  "des_tail rest = map (\<lambda>j. if j < length rest then rest ! j else if j = length rest then 0x80 else 0) [0..<8]"

function des_encode_loop :: "(u32 \<times> u32) list \<Rightarrow> u8 list \<Rightarrow> u8 list" where
  "des_encode_loop SK text =
     (if length text \<ge> 8 then des_crypt SK (take 8 text) @ des_encode_loop SK (drop 8 text)
      else des_crypt SK (des_tail text))"
  by pat_completeness auto
termination
  by (relation "measure (\<lambda>(SK, text). length text)") auto

declare des_encode_loop.simps [simp del]

text \<open>The sizes are cast to \<open>int\<close>: strings of two gigabytes and more are outside the model.\<close>

definition ldesencode :: "u8 list \<Rightarrow> u8 list \<Rightarrow> u8 list lr" where
  "ldesencode key text =
     (if length key \<noteq> 8 then Raise
      else if length text \<ge> 2 ^ 31 - 8 then Bad
      else Ret (des_encode_loop (des_main_ks key) text))"

function des_decode_loop :: "(u32 \<times> u32) list \<Rightarrow> u8 list \<Rightarrow> u8 list" where
  "des_decode_loop SK text =
     (if text = [] then [] else des_crypt SK (take 8 text) @ des_decode_loop SK (drop 8 text))"
  by pat_completeness auto
termination
  by (relation "measure (\<lambda>(SK, text). length text)") auto

declare des_decode_loop.simps [simp del]

text \<open>The loop that counts the padding backwards.  \<open>i >= textsz-8\<close> compares an \<open>int\<close> with a \<open>size_t\<close>:
  the index is converted, so that \<open>-1\<close> is larger than any size.\<close>

function padding_loop :: "u8 list \<Rightarrow> int \<Rightarrow> nat \<Rightarrow> nat lr" where
  "padding_loop buffer i padding =
     (if (of_int i :: u64) \<ge> of_nat (length buffer - 8) then
        (if i < 0 \<or> int (length buffer) \<le> i then Bad
         else if buffer ! nat i = 0 then padding_loop buffer (i - 1) (padding + 1)
         else if buffer ! nat i = 0x80 then Ret padding
         else Raise)
      else Ret padding)"
  by pat_completeness auto
termination
  by (relation "measure (\<lambda>(buffer, i, padding). nat (i + 1))") auto

declare padding_loop.simps [simp del]

definition ldesdecode :: "u8 list \<Rightarrow> u8 list \<Rightarrow> u8 list lr" where
  "ldesdecode key text =
     (if length key \<noteq> 8 then Raise
      else if length text mod 8 \<noteq> 0 \<or> length text = 0 then Raise
      else if length text \<ge> 2 ^ 31 then Bad
      else
        (let buffer = des_decode_loop (rev (des_main_ks key)) text
         in lbind (padding_loop buffer (int (length buffer) - 1) 1) (\<lambda>padding.
              if padding > 8 then Raise else Ret (take (length buffer - padding) buffer))))"

section \<open>Decryption inverts encryption\<close>

text \<open>A swap of bits is its own inverse when the mask leaves room for the shift.\<close>

lemma swap_bits_inv:
  assumes "m AND mask (32 - k) = m"
  shows "swap_bits k m (swap_bits k m p) = p"
proof -
  obtain a b where p: "p = (a, b)" by fastforce
  define t where "t = (drop_bit k a XOR b) AND m"
  have t1: "t AND mask (32 - k) = t" using assms by (simp add: t_def and.assoc)
  have "drop_bit k (push_bit k t) = t AND mask (32 - k)"
    by (rule bit_word_eqI) (auto simp: bit_simps)
  with t1 have tt: "drop_bit k (push_bit k t) = t" by simp
  have "(drop_bit k (a XOR push_bit k t) XOR (b XOR t)) AND m = t"
  proof -
    have "drop_bit k (a XOR push_bit k t) = drop_bit k a XOR t" using tt by (simp add: drop_bit_xor)
    then have "drop_bit k (a XOR push_bit k t) XOR (b XOR t) = drop_bit k a XOR b"
      by (simp add: xor.assoc xor.left_commute xor.commute)
    then show ?thesis by (simp add: t_def)
  qed
  moreover have "swap_bits k m (a, b) = (a XOR push_bit k t, b XOR t)"
    unfolding swap_bits_def t_def Let_def split_conv by (rule refl)
  moreover have "swap_bits k m (x, y) = (x XOR push_bit k ((drop_bit k x XOR y) AND m), y XOR ((drop_bit k x XOR y) AND m))" for x y
    unfolding swap_bits_def Let_def split_conv by (rule refl)
  ultimately show ?thesis unfolding p by (simp only: xor.assoc xor_self_eq xor.right_neutral)
qed

lemma swap_masks [simp]:
  "swap_bits 4 0x0F0F0F0F (swap_bits 4 0x0F0F0F0F p) = p" "swap_bits 16 0x0000FFFF (swap_bits 16 0x0000FFFF p) = p"
  "swap_bits 2 0x33333333 (swap_bits 2 0x33333333 p) = p" "swap_bits 8 0x00FF00FF (swap_bits 8 0x00FF00FF p) = p"
  "swap_bits 0 0xAAAAAAAA (swap_bits 0 0xAAAAAAAA p) = p"
  by (rule swap_bits_inv; simp add: mask_eq_exp_minus_1)+

lemma rot_inv_gen:
  assumes "0 < k" "k < 32"
  shows "push_bit (32 - k) (push_bit k x OR drop_bit (32 - k) x) OR drop_bit k (push_bit k x OR drop_bit (32 - k) x) = (x :: u32)"
proof (rule bit_word_eqI)
  have le: "bit x n \<Longrightarrow> n < 32" for n using bit_imp_le_length[of x n] by simp
  fix n assume "n < LENGTH(32)"
  then show "bit (push_bit (32 - k) (push_bit k x OR drop_bit (32 - k) x) OR drop_bit k (push_bit k x OR drop_bit (32 - k) x)) n = bit x n"
    using assms by (auto simp: bit_simps dest: le)
qed

lemma rot_inv [simp]: "rotr1 (rotl1 x) = x" "rotl1 (rotr1 x) = x"
proof -
  have m: "y AND 0xFFFFFFFF = y" for y :: u32
  proof -
    have "(0xFFFFFFFF :: u32) = - 1" by simp
    then show ?thesis by (simp only: and.right_neutral)
  qed
  have k: "32 - 1 = (31 :: nat)" "32 - 31 = (1 :: nat)" by simp_all
  show "rotr1 (rotl1 x) = x" unfolding rotr1_def rotl1_def m using rot_inv_gen[of 1 x, unfolded k] by simp
  show "rotl1 (rotr1 x) = x" unfolding rotr1_def rotl1_def m using rot_inv_gen[of 31 x, unfolded k] by simp
qed

lemma IP_steps:
  "DES_IP p = map_prod rotl1 id (swap_bits 0 0xAAAAAAAA (map_prod id rotl1
     (prod.swap (swap_bits 8 0x00FF00FF (swap_bits 2 0x33333333 (prod.swap (swap_bits 16 0x0000FFFF (swap_bits 4 0x0F0F0F0F p))))))))"
  by (simp only: DES_IP_def Let_def split_beta prod.collapse prod.swap_def fst_conv snd_conv map_prod_def id_apply)

lemma FP_steps:
  "DES_FP p = swap_bits 4 0x0F0F0F0F (swap_bits 16 0x0000FFFF (prod.swap (swap_bits 2 0x33333333 (swap_bits 8 0x00FF00FF
     (prod.swap (map_prod id rotr1 (swap_bits 0 0xAAAAAAAA (map_prod rotr1 id p))))))))"
  by (simp only: DES_FP_def Let_def split_beta prod.collapse prod.swap_def fst_conv snd_conv map_prod_def id_apply)

lemma map_rot_inv [simp]:
  "map_prod rotr1 id (map_prod rotl1 id p) = p" "map_prod id rotr1 (map_prod id rotl1 p) = p"
  "map_prod rotl1 id (map_prod rotr1 id p) = p" "map_prod id rotl1 (map_prod id rotr1 p) = p"
  by (cases p; simp)+

lemma FP_IP [simp]: "DES_FP (DES_IP p) = p"
  by (simp only: FP_steps IP_steps map_rot_inv swap_masks swap_swap)

lemma IP_FP [simp]: "DES_IP (DES_FP p) = p"
  by (simp only: FP_steps IP_steps map_rot_inv swap_masks swap_swap)

lemma bit_u8_le: "bit (a :: u8) n \<Longrightarrow> n < 8"
  using bit_imp_le_length[of a n] by simp

lemma PUT_GET [simp]: "PUT_UINT32 (GET_UINT32 [a, b, c, d] 0) = [a, b, c, d]"
  unfolding PUT_UINT32_def GET_UINT32_def list.inject
  by (intro conjI refl bit_word_eqI) (auto simp: bit_simps dest: bit_u8_le)

lemma GET_PUT [simp]: "GET_UINT32 (PUT_UINT32 x @ bs) 0 = x" "GET_UINT32 (PUT_UINT32 y @ PUT_UINT32 x) 4 = x"
proof -
  have "push_bit 24 (ucast (ucast (drop_bit 24 v) :: u8)) OR push_bit 16 (ucast (ucast (drop_bit 16 v) :: u8))
      OR push_bit 8 (ucast (ucast (drop_bit 8 v) :: u8)) OR ucast (ucast v :: u8) = (v :: u32)" (is "?e = v") for v
  proof (rule bit_word_eqI)
    fix n assume n: "n < LENGTH(32)"
    consider "n < 8" | "8 \<le> n" "n < 16" | "16 \<le> n" "n < 24" | "24 \<le> n" "n < 32" using n by fastforce
    then show "bit ?e n = bit v n" by cases (auto simp: bit_simps)
  qed
  then show "GET_UINT32 (PUT_UINT32 x @ bs) 0 = x" "GET_UINT32 (PUT_UINT32 y @ PUT_UINT32 x) 4 = x"
    by (simp_all add: GET_UINT32_def PUT_UINT32_def)
qed

lemma length_PUT [simp]: "length (PUT_UINT32 x) = 4"
  by (simp add: PUT_UINT32_def)

lemma length_des_crypt [simp]: "length (des_crypt SK b) = 8"
  by (simp add: des_crypt_def split_beta)

text \<open>One round with exchanged halves.\<close>

definition half_round :: "u32 \<times> u32 \<Rightarrow> u32 \<times> u32 \<Rightarrow> u32 \<times> u32" where
  "half_round k = (\<lambda>(X, Y). (Y, X XOR DES_ROUND k Y))"

lemma des_rounds_fold: "even (length ks) \<Longrightarrow> des_rounds ks p = fold half_round ks p"
  by (induction ks p rule: des_rounds.induct) (auto simp: half_round_def Let_def)

lemma half_round_inv: "half_round k (prod.swap (half_round k p)) = prod.swap p"
  by (cases p) (simp add: half_round_def xor.assoc)

lemma rounds_inv: "fold half_round (rev ks) (prod.swap (fold half_round ks p)) = prod.swap p"
  by (induction ks arbitrary: p) (simp_all add: half_round_inv)

lemma length_ks: "length (ks_loop is XY) = length is"
  by (induction "is" arbitrary: XY) (simp_all add: Let_def)

lemma des_crypt_inv:
  assumes "even (length SK)" "length b = 8"
  shows "des_crypt (rev SK) (des_crypt SK b) = b"
proof -
  obtain b0 b1 b2 b3 b4 b5 b6 b7 where b: "b = [b0, b1, b2, b3] @ [b4, b5, b6, b7]"
    using assms(2) by (auto simp: numeral_eq_Suc length_Suc_conv)
  define p where "p = DES_IP (GET_UINT32 b 0, GET_UINT32 b 4)"
  define q where "q = fold half_round SK p"
  define e where "e = DES_FP (prod.swap q)"
  have c: "des_crypt SK b = PUT_UINT32 (fst e) @ PUT_UINT32 (snd e)"
    using assms(1) by (simp add: des_crypt_def des_rounds_fold p_def q_def e_def split_beta prod.swap_def)
  have "DES_IP (GET_UINT32 (des_crypt SK b) 0, GET_UINT32 (des_crypt SK b) 4) = prod.swap q"
    by (simp add: c) (simp add: e_def)
  moreover have "fold half_round (rev SK) (prod.swap q) = prod.swap p" unfolding q_def by (rule rounds_inv)
  ultimately have "des_crypt (rev SK) (des_crypt SK b) = PUT_UINT32 (fst (DES_FP p)) @ PUT_UINT32 (snd (DES_FP p))"
    using assms(1) by (simp add: des_crypt_def[of "rev SK"] des_rounds_fold split_beta)
  also have "\<dots> = PUT_UINT32 (GET_UINT32 b 0) @ PUT_UINT32 (GET_UINT32 b 4)" by (simp add: p_def)
  also have "\<dots> = b"
  proof -
    have "GET_UINT32 b 0 = GET_UINT32 [b0, b1, b2, b3] 0" "GET_UINT32 b 4 = GET_UINT32 [b4, b5, b6, b7] 0"
      by (simp_all add: GET_UINT32_def b)
    then show ?thesis by (simp add: b del: append.simps)
  qed
  finally show ?thesis .
qed

lemma even_ks: "even (length (des_main_ks key))"
  by (simp add: des_main_ks_def length_ks)

section \<open>Padding\<close>

lemma length_tail [simp]: "length (des_tail r) = 8"
  by (simp add: des_tail_def)

lemma des_tail_append: "length r < 8 \<Longrightarrow> des_tail r = r @ 0x80 # replicate (7 - length r) 0"
  by (rule nth_equalityI) (auto simp: des_tail_def nth_append nth_Cons')

lemma encode_length: "length (des_encode_loop SK msg) mod 8 = 0 \<and> length msg < length (des_encode_loop SK msg)
    \<and> length (des_encode_loop SK msg) \<le> length msg + 8"
proof (induction "length msg" arbitrary: msg rule: less_induct)
  case less
  show ?case
  proof (cases "length msg \<ge> 8")
    case True
    then have "length (drop 8 msg) < length msg" by simp
    note IH = less[OF this]
    have "des_encode_loop SK msg = des_crypt SK (take 8 msg) @ des_encode_loop SK (drop 8 msg)"
      using True by (subst des_encode_loop.simps) simp
    with IH True show ?thesis by auto
  next
    case False
    then show ?thesis by (subst (1 2 3) des_encode_loop.simps) auto
  qed
qed

lemma decode_encode:
  assumes "even (length SK)"
  shows "des_decode_loop (rev SK) (des_encode_loop SK msg) =
    msg @ 0x80 # replicate (length (des_encode_loop SK msg) - length msg - 1) 0"
proof (induction "length msg" arbitrary: msg rule: less_induct)
  case less
  show ?case
  proof (cases "length msg \<ge> 8")
    case True
    let ?E = "des_encode_loop SK (drop 8 msg)"
    have e: "des_encode_loop SK msg = des_crypt SK (take 8 msg) @ ?E" using True by (subst des_encode_loop.simps) simp
    have "des_decode_loop (rev SK) (des_encode_loop SK msg) = take 8 msg @ des_decode_loop (rev SK) ?E"
      unfolding e using True des_crypt_inv[OF assms, of "take 8 msg"] by (subst des_decode_loop.simps) (auto simp: length_0_conv[symmetric] simp del: length_0_conv)
    also have "\<dots> = take 8 msg @ drop 8 msg @ 0x80 # replicate (length ?E - length (drop 8 msg) - 1) 0"
      using less[of "drop 8 msg"] True by simp
    also have "length ?E - length (drop 8 msg) - 1 = length (des_encode_loop SK msg) - length msg - 1"
      using True by (simp add: e)
    finally show ?thesis by (metis append.assoc append_take_drop_id)
  next
    case False
    then have e: "des_encode_loop SK msg = des_crypt SK (des_tail msg)" by (subst des_encode_loop.simps) simp
    have "des_decode_loop (rev SK) (des_crypt SK (des_tail msg)) = des_tail msg"
      using des_crypt_inv[OF assms, of "des_tail msg"]
      by (subst des_decode_loop.simps, subst des_decode_loop.simps) (auto simp: length_0_conv[symmetric] simp del: length_0_conv)
    with False show ?thesis by (simp add: e des_tail_append)
  qed
qed

lemma index_compare:
  assumes "0 \<le> i" "i < 2 ^ 31" "int m \<le> i"
  shows "(of_int i :: u64) \<ge> of_nat m"
proof -
  have "unat (of_int i :: u64) = nat i" using assms by (simp add: unat_eq_nat_uint uint_word_of_int)
  moreover have "unat (of_nat m :: u64) = m" using assms by (simp add: unat_of_nat)
  ultimately show ?thesis using assms by (simp add: word_le_nat_alt)
qed

lemma padding_found:
  assumes "length buffer < 2 ^ 31" "buffer = msg @ 0x80 # replicate z 0" "z < 8" "8 \<le> length buffer" "j \<le> z"
  shows "padding_loop buffer (int (length buffer) - 1 - int j) (j + 1) = Ret (z + 1)"
  using assms(5)
proof (induction "z - j" arbitrary: j)
  case 0
  let ?i = "int (length buffer) - 1 - int j"
  have z: "z = j" using 0 by simp
  have l: "length buffer = length msg + z + 1" using assms(2) by simp
  have i: "?i = int (length msg)" using l z by simp
  have "(of_int ?i :: u64) \<ge> of_nat (length buffer - 8)"
    by (rule index_compare) (use assms(1,3,4) l z in auto)
  moreover have "buffer ! length msg = 0x80" using assms(2) by simp
  ultimately show ?case using l i z by (subst padding_loop.simps) simp
next
  case (Suc d)
  let ?i = "int (length buffer) - 1 - int j"
  have l: "length buffer = length msg + z + 1" using assms(2) by simp
  have j: "j < z" using Suc(2) by simp
  have ge: "(of_int ?i :: u64) \<ge> of_nat (length buffer - 8)"
    by (rule index_compare) (use assms(1,3,4) l j in auto)
  have n: "nat ?i = length msg + 1 + (z - 1 - j)" using l j by simp
  have "buffer ! (length msg + 1 + (z - 1 - j)) = 0"
    using j nth_append_length_plus[of msg "0x80 # replicate z 0" "Suc (z - 1 - j)"] by (simp add: assms(2))
  then have "buffer ! nat ?i = 0" by (simp only: n)
  moreover have "?i - 1 = int (length buffer) - 1 - int (Suc j)" by simp
  moreover have "0 \<le> ?i" "?i < int (length buffer)" using l j by auto
  ultimately show ?case using Suc(1)[of "Suc j"] Suc(2) j ge
    by (subst padding_loop.simps) (simp add: not_le)
qed

section \<open>Properties\<close>

text \<open>C31: every message is recovered by decrypting its encryption with the same key.\<close>

theorem des_roundtrip:
  assumes "length key = 8" "length msg < 2 ^ 31 - 8"
  shows "\<exists>cipher. ldesencode key msg = Ret cipher \<and> length cipher = (length msg + 8) div 8 * 8 \<and> ldesdecode key cipher = Ret msg"
proof -
  define c where "c = des_encode_loop (des_main_ks key) msg"
  define z where "z = length c - length msg - 1"
  note len = encode_length[where SK = "des_main_ks key" and msg = msg, folded c_def]
  have d: "des_decode_loop (rev (des_main_ks key)) c = msg @ 0x80 # replicate z 0"
    using decode_encode[OF even_ks[of key], where msg = msg, folded c_def] by (simp add: z_def)
  define buffer where "buffer = msg @ (0x80 :: u8) # replicate z 0"
  have "c \<noteq> []" using len by auto
  then have c8: "8 \<le> length c" using len by (metis dvd_imp_le length_greater_0_conv mod_0_imp_dvd)
  have lb: "length buffer = length c" using len c8 by (simp add: buffer_def z_def)
  have "padding_loop buffer (int (length buffer) - 1 - int 0) (0 + 1) = Ret (z + 1)"
    by (rule padding_found[where msg = msg]) (use len lb c8 assms(2) in \<open>auto simp: buffer_def z_def\<close>)
  moreover have "take (length buffer - (z + 1)) buffer = msg" by (simp add: buffer_def)
  moreover have "z + 1 \<le> 8" using len unfolding z_def by linarith
  ultimately have "ldesdecode key c = Ret msg"
    using assms len c8 lb d by (auto simp: ldesdecode_def buffer_def[symmetric] Let_def)
  moreover have "length c = (length msg + 8) div 8 * 8"
  proof -
    obtain q where q: "length c = 8 * q" using len by (metis mod_0_imp_dvd dvdE)
    have "(length msg + 8) div 8 = q" by (rule div_nat_eqI) (use len q in \<open>simp; linarith\<close>)+
    with q show ?thesis by simp
  qed
  ultimately show ?thesis using assms by (auto simp: ldesencode_def c_def)
qed

theorem des_roundtrip_witness:
  "\<exists>cipher. ldesencode [1, 2, 3, 4, 5, 6, 7, 8] [104, 105] = Ret cipher \<and> length cipher = 8
    \<and> ldesdecode [1, 2, 3, 4, 5, 6, 7, 8] cipher = Ret [104, 105]"
  using des_roundtrip[of "[1, 2, 3, 4, 5, 6, 7, 8]" "[104, 105]"] by simp

text \<open>For a cipher text of one block that decrypts to zeros, the search for the padding compares the
  index \<open>-1\<close> as an unsigned number and reads before the start of the buffer; with any key there is
  such a text.\<close>

lemma des_zero_block_overread:
  assumes "length key = 8"
  shows "ldesdecode key (des_crypt (des_main_ks key) (replicate 8 0)) = Bad"
proof -
  have "des_decode_loop (rev (des_main_ks key)) (des_crypt (des_main_ks key) (replicate 8 0)) = replicate 8 0"
    using des_crypt_inv[OF even_ks, of "replicate 8 0" key]
    by (subst des_decode_loop.simps, subst des_decode_loop.simps) (auto simp: length_0_conv[symmetric] simp del: length_0_conv)
  moreover have "padding_loop (replicate 8 0) (int n - 1) p = Bad" if "n \<le> 8" for n p
    using that
  proof (induction n arbitrary: p)
    case 0
    show ?case by (subst padding_loop.simps) simp
  next
    case (Suc n)
    then show ?case by (subst padding_loop.simps) (simp add: word_le_nat_alt)
  qed
  from this[of 8] have "padding_loop (replicate 8 0) 7 (Suc 0) = Bad" by simp
  ultimately show ?thesis using assms by (simp add: ldesdecode_def)
qed

lemma des_zero_block_overread_witness:
  "ldesdecode (replicate 8 7) (des_crypt (des_main_ks (replicate 8 7)) (replicate 8 0)) = Bad"
  by (rule des_zero_block_overread) simp

end
