(* ===== verification/Crypt.thy ===== *)
theory Crypt
  imports Bytes
begin

text \<open>
  The keyed hashes, the random key, the hexadecimal codec and the xor of strings of
  \<open>lualib-src/lua-crypt.c\<close>.  Lua strings are lists of bytes; \<open>luaL_error\<close> is \<open>Raise\<close>.  The loop
  counters are \<open>int\<close>s: texts so long that a counter would overflow are \<open>Bad\<close>.
\<close>

section \<open>Random keys\<close>

text \<open>The results of the eight calls of \<open>random\<close> are an argument.\<close>

definition lrandomkey :: "(nat \<Rightarrow> u64) \<Rightarrow> u8 list" where
  "lrandomkey random =
     (let tmp = map (\<lambda>i. ucast (random i AND 0xff)) [0..<8]; x = foldl (XOR) 0 tmp
      in if x = 0 then tmp[0 := tmp ! 0 OR 1] else tmp)"

section \<open>Hash\<close>

definition le_words :: "u8 list \<Rightarrow> u32 \<times> u32" where
  "le_words x =
     (let w = (\<lambda>i. ucast (x ! i) OR push_bit 8 (ucast (x ! (i + 1))) OR push_bit 16 (ucast (x ! (i + 2)))
                    OR push_bit 24 (ucast (x ! (i + 3))))
      in (w 0, w 4))"

definition pushqword :: "u32 \<times> u32 \<Rightarrow> u8 list" where
  "pushqword = (\<lambda>(r0, r1).
     [ucast (r0 AND 0xff), ucast (drop_bit 8 r0 AND 0xff), ucast (drop_bit 16 r0 AND 0xff), ucast (drop_bit 24 r0 AND 0xff),
      ucast (r1 AND 0xff), ucast (drop_bit 8 r1 AND 0xff), ucast (drop_bit 16 r1 AND 0xff), ucast (drop_bit 24 r1 AND 0xff)])"

fun Hash_loop :: "u8 list \<Rightarrow> u32 \<times> u32 \<Rightarrow> u32 \<times> u32" where
  "Hash_loop [] h = h"
| "Hash_loop (c # str) (djb_hash, js_hash) =
     Hash_loop str (djb_hash + (push_bit 5 djb_hash + ucast c),
                    js_hash XOR (push_bit 5 js_hash + ucast c + drop_bit 2 js_hash))"

text \<open>\<open>Hash(key, (int)sz, ...)\<close>: the size is truncated to an \<open>int\<close>, and a negative one reads nothing.\<close>

definition Hash :: "u8 list \<Rightarrow> u8 list" where
  "Hash str = pushqword (Hash_loop (take (nat (to_signed 32 (length str mod 2 ^ 32))) str) (5381, 1315423911))"

definition lhashkey :: "u8 list \<Rightarrow> u8 list" where
  "lhashkey key = Hash key"

section \<open>Hexadecimal text\<close>

definition hex_digits :: "u8 list" where
  "hex_digits = [48, 49, 50, 51, 52, 53, 54, 55, 56, 57, 97, 98, 99, 100, 101, 102]"

definition ltohex :: "u8 list \<Rightarrow> u8 list lr" where
  "ltohex text =
     (if length text > 2 ^ 30 then Bad
      else Ret (concat (map (\<lambda>c. [hex_digits ! unat (drop_bit 4 c), hex_digits ! unat (c AND 0xf)]) text)))"

definition HEX :: "u8 \<Rightarrow> u8" where
  "HEX c = (if c \<ge> 48 \<and> c \<le> 57 then c - 48 else c - 97 + 10)"

fun fromhex_loop :: "u8 list \<Rightarrow> u8 list lr" where
  "fromhex_loop (a # b # text) =
     (let hi = HEX a; low = HEX b
      in if hi > 16 \<or> low > 16 then Raise
         else lbind (fromhex_loop text) (\<lambda>r. Ret ((push_bit 4 hi OR low) # r)))"
| "fromhex_loop _ = Ret []"

definition lfromhex :: "u8 list \<Rightarrow> u8 list lr" where
  "lfromhex text =
     (if odd (length text) then Raise else if length text \<ge> 2 ^ 31 then Bad else fromhex_loop text)"

section \<open>The 64 bit message authentication code\<close>

definition k_tab :: "u32 list" where
  "k_tab = [
     0xd76aa478, 0xe8c7b756, 0x242070db, 0xc1bdceee, 0xf57c0faf, 0x4787c62a, 0xa8304613, 0xfd469501,
     0x698098d8, 0x8b44f7af, 0xffff5bb1, 0x895cd7be, 0x6b901122, 0xfd987193, 0xa679438e, 0x49b40821,
     0xf61e2562, 0xc040b340, 0x265e5a51, 0xe9b6c7aa, 0xd62f105d, 0x02441453, 0xd8a1e681, 0xe7d3fbc8,
     0x21e1cde6, 0xc33707d6, 0xf4d50d87, 0x455a14ed, 0xa9e3e905, 0xfcefa3f8, 0x676f02d9, 0x8d2a4c8a,
     0xfffa3942, 0x8771f681, 0x6d9d6122, 0xfde5380c, 0xa4beea44, 0x4bdecfa9, 0xf6bb4b60, 0xbebfbc70,
     0x289b7ec6, 0xeaa127fa, 0xd4ef3085, 0x04881d05, 0xd9d4d039, 0xe6db99e5, 0x1fa27cf8, 0xc4ac5665,
     0xf4292244, 0x432aff97, 0xab9423a7, 0xfc93a039, 0x655b59c3, 0x8f0ccc92, 0xffeff47d, 0x85845dd1,
     0x6fa87e4f, 0xfe2ce6e0, 0xa3014314, 0x4e0811a1, 0xf7537e82, 0xbd3af235, 0x2ad7d2bb, 0xeb86d391]"

definition r_tab :: "nat list" where
  "r_tab = [
     7, 12, 17, 22, 7, 12, 17, 22, 7, 12, 17, 22, 7, 12, 17, 22,
     5,  9, 14, 20, 5,  9, 14, 20, 5,  9, 14, 20, 5,  9, 14, 20,
     4, 11, 16, 23, 4, 11, 16, 23, 4, 11, 16, 23, 4, 11, 16, 23,
     6, 10, 15, 21, 6, 10, 15, 21, 6, 10, 15, 21, 6, 10, 15, 21]"

definition LEFTROTATE :: "u32 \<Rightarrow> nat \<Rightarrow> u32" where
  "LEFTROTATE x c = push_bit c x OR drop_bit (32 - c) x"

text \<open>One turn of the loop of \<open>hmac\<close> over \<open>(a, b, c, d)\<close>.\<close>

definition hmac_step :: "u32 list \<Rightarrow> nat \<Rightarrow> u32 \<times> u32 \<times> u32 \<times> u32 \<Rightarrow> u32 \<times> u32 \<times> u32 \<times> u32" where
  "hmac_step w i = (\<lambda>(a, b, c, d).
     let (f, g) =
           (if i < 16 then ((b AND c) OR (NOT b AND d), i)
            else if i < 32 then ((d AND b) OR (NOT d AND c), (5 * i + 1) mod 16)
            else if i < 48 then (b XOR c XOR d, (3 * i + 5) mod 16)
            else (c XOR (b OR NOT d), (7 * i) mod 16))
     in (d, b + LEFTROTATE (a + f + k_tab ! i + w ! g) (r_tab ! i), b, c))"

definition hmac :: "u32 \<times> u32 \<Rightarrow> u32 \<times> u32 \<Rightarrow> u32 \<times> u32" where
  "hmac = (\<lambda>(x0, x1) (y0, y1).
     let w = concat (replicate 4 [x1, x0, y1, y0]);
         (a, b, c, d) = fold (hmac_step w) [0..<64] (0x67452301, 0xefcdab89, 0x98badcfe, 0x10325476)
     in (c XOR d, a XOR b))"

definition read64 :: "u8 list \<Rightarrow> u8 list \<Rightarrow> ((u32 \<times> u32) \<times> (u32 \<times> u32)) lr" where
  "read64 x y = (if length x \<noteq> 8 then Raise else if length y \<noteq> 8 then Raise else Ret (le_words x, le_words y))"

definition lhmac64 :: "u8 list \<Rightarrow> u8 list \<Rightarrow> u8 list lr" where
  "lhmac64 x y = lbind (read64 x y) (\<lambda>(xx, yy). Ret (pushqword (hmac xx yy)))"

definition lhmac_hash :: "u8 list \<Rightarrow> u8 list \<Rightarrow> u8 list lr" where
  "lhmac_hash x text =
     (if length x \<noteq> 8 then Raise
      else Ret (pushqword (hmac (le_words (Hash text)) (le_words x))))"

section \<open>Xor of strings\<close>

definition lxor_str :: "u8 list \<Rightarrow> u8 list \<Rightarrow> u8 list lr" where
  "lxor_str s1 s2 =
     (if s2 = [] then Raise
      else if length s1 \<ge> 2 ^ 31 then Bad
      else Ret (map (\<lambda>i. s1 ! i XOR s2 ! (i mod length s2)) [0..<length s1]))"

section \<open>Lemmas\<close>

lemma length_pushqword [simp]: "length (pushqword r) = 8"
  by (simp add: pushqword_def split: prod.split)

text \<open>The two words and the eight bytes determine each other.\<close>

lemma le_words_pushqword [simp]: "le_words (pushqword r) = r"
  by (simp add: le_words_def pushqword_def join_bytes Let_def split: prod.split)

lemma pushqword_inj: "pushqword a = pushqword b \<longleftrightarrow> a = b"
  by (metis le_words_pushqword)

lemma bytes8: "length x = 8 \<Longrightarrow> \<exists>a b c d e f g h. x = [a, b, c, d, e, f, g, h]"
  by (auto simp: numeral_eq_Suc length_Suc_conv)

lemma pushqword_le_words: "length x = 8 \<Longrightarrow> pushqword (le_words x) = x"
  by (drule bytes8) (auto simp: pushqword_def le_words_def Let_def split_bytes simp del: drop_bit_or)

lemma length_Hash [simp]: "length (Hash str) = 8"
  by (simp add: Hash_def)

lemma xor_zero_iff: "(a :: 'a :: len word) XOR b = 0 \<longleftrightarrow> a = b"
  by (metis xor.left_neutral xor.assoc xor_self_eq)

lemma HEX_digit: "n < 16 \<Longrightarrow> HEX (hex_digits ! n) = of_nat n"
proof -
  have "\<forall>n \<in> set [0..<16]. HEX (hex_digits ! n) = of_nat n" by code_simp
  then show "n < 16 \<Longrightarrow> HEX (hex_digits ! n) = of_nat n" by simp
qed

lemma nibble_less: "unat (drop_bit 4 (c :: u8)) < 16" "unat (c AND 0xf) < 16"
proof -
  show "unat (drop_bit 4 c) < 16" unfolding unat_drop_bit_eq using unat_u8[of c] by (simp add: drop_bit_eq_div)
  have "c AND 0xf = take_bit 4 c" by (simp add: take_bit_eq_mask mask_eq_exp_minus_1)
  then have "unat (c AND 0xf) = take_bit 4 (unat c)" by (simp only: unsigned_take_bit_eq)
  then show "unat (c AND 0xf) < 16" by (simp add: take_bit_eq_mod)
qed

lemma join_nibbles: "push_bit 4 (drop_bit 4 c) OR (c AND 0xf) = (c :: u8)"
proof -
  have "c AND 0xf = take_bit 4 c" by (simp add: take_bit_eq_mask mask_eq_exp_minus_1)
  moreover have "push_bit 4 (drop_bit 4 c) OR take_bit 4 c = c"
    by (rule bit_word_eqI) (auto simp: bit_simps not_less)
  ultimately show ?thesis by simp
qed

lemma nibble_le: "unat (n :: u8) < 16 \<Longrightarrow> \<not> n > 16"
  by (simp add: word_less_nat_alt)

lemma fromhex_tohex:
  "fromhex_loop (concat (map (\<lambda>c. [hex_digits ! unat (drop_bit 4 c), hex_digits ! unat (c AND 0xf)]) msg)) = Ret msg"
  by (induction msg) (simp_all add: Let_def HEX_digit nibble_less nibble_le join_nibbles)

text \<open>The checks \<open>hi > 16\<close> and \<open>low > 16\<close> let the letter after \<open>f\<close> pass: \<open>gg\<close> decodes to 16.\<close>

lemma hex_accepts_g: "lfromhex [103, 103] = Ret [16]"
  by (simp add: lfromhex_def HEX_def)

section \<open>Properties\<close>

text \<open>The hexadecimal codec and the xor of strings are inverted by their counterparts: decoding the
  hexadecimal text of any string of at most a gigabyte gives the string back, and xoring twice with
  the same non-empty key gives the string back; both succeed and neither overflows a counter.\<close>

lemma hex_xor_roundtrip:
  assumes "length msg < 2 ^ 30" "key \<noteq> []"
  shows "lbind (ltohex msg) lfromhex = Ret msg \<and> lbind (lxor_str msg key) (\<lambda>s. lxor_str s key) = Ret msg"
proof
  have "length (concat (map (\<lambda>c. [hex_digits ! unat (drop_bit 4 c), hex_digits ! unat (c AND 0xf)]) msg)) = 2 * length msg"
    by (simp add: length_concat comp_def sum_list_triv)
  then show "lbind (ltohex msg) lfromhex = Ret msg"
    using assms(1) by (simp add: ltohex_def lfromhex_def fromhex_tohex)
  show "lbind (lxor_str msg key) (\<lambda>s. lxor_str s key) = Ret msg"
    using assms by (auto simp: lxor_str_def xor.assoc intro: nth_equalityI)
qed

lemma hex_xor_roundtrip_witness:
  "lbind (ltohex [0, 18, 255]) lfromhex = Ret [0, 18, 255]
   \<and> lbind (lxor_str [0, 18, 255] [7, 9]) (\<lambda>s. lxor_str s [7, 9]) = Ret [0, 18, 255]"
  by (rule hex_xor_roundtrip) simp_all

end
