(* ===== verification/Dh.thy ===== *)
theory Dh
  imports Crypt
begin

text \<open>
  Diffie-Hellman key exchange of \<open>lualib-src/lua-crypt.c\<close> on 64 bit words: multiplication and power
  modulo the prime \<open>P\<close> without a wider type, and the two Lua functions over them.  \<open>pow_mod_p\<close> recurses
  for ever on the exponent 0 (\<open>None\<close>); its callers exclude it.
\<close>

definition P_dh :: u64 where
  "P_dh = 0xffffffffffffffc5"

definition G_dh :: u64 where
  "G_dh = 5"

text \<open>The loop of \<open>mul_mod_p\<close> on \<open>m\<close>, \<open>a\<close>, \<open>b\<close>.\<close>

function mul_loop :: "u64 \<Rightarrow> u64 \<Rightarrow> u64 \<Rightarrow> u64" where
  "mul_loop m a b =
     (if b = 0 then m
      else mul_loop (if b AND 1 \<noteq> 0 then (let t = P_dh - a in if m \<ge> t then m - t else m + a) else m)
             (if a \<ge> P_dh - a then a * 2 - P_dh else a * 2) (drop_bit 1 b))"
  by pat_completeness auto
termination
proof (relation "measure (\<lambda>(m, a, b). unat b)")
  fix m a b :: u64
  assume "b \<noteq> 0"
  then have "unat b > 0" by (simp add: unat_gt_0)
  then have "unat (drop_bit 1 b) < unat b" unfolding unat_drop_bit_eq by (simp add: drop_bit_eq_div)
  then show "((if b AND 1 \<noteq> 0 then (let t = P_dh - a in if m \<ge> t then m - t else m + a) else m,
      if a \<ge> P_dh - a then a * 2 - P_dh else a * 2, drop_bit 1 b), m, a, b) \<in> measure (\<lambda>(m, a, b). unat b)" by simp
qed simp

declare mul_loop.simps [simp del]

definition mul_mod_p :: "u64 \<Rightarrow> u64 \<Rightarrow> u64" where
  "mul_mod_p a b = mul_loop 0 a b"

partial_function (option) pow_mod_p :: "u64 \<Rightarrow> u64 \<Rightarrow> u64 option" where
  "pow_mod_p a b =
     (if b = 1 then Some a
      else Option.bind (pow_mod_p a (drop_bit 1 b)) (\<lambda>t.
        let t = mul_mod_p t t in Some (if b mod 2 \<noteq> 0 then mul_mod_p t a else t)))"

declare pow_mod_p.simps [code]

definition powmodp :: "u64 \<Rightarrow> u64 \<Rightarrow> u64 option" where
  "powmodp a b = pow_mod_p (if a > P_dh then a mod P_dh else a) b"

definition push64 :: "u64 \<Rightarrow> u8 list" where
  "push64 r = map (\<lambda>i. ucast (drop_bit (8 * i) r AND 0xff)) [0..<8]"

definition word64 :: "u32 \<times> u32 \<Rightarrow> u64" where
  "word64 = (\<lambda>(x0, x1). ucast x0 OR push_bit 32 (ucast x1))"

text \<open>A call that does not return is \<open>Bad\<close>.\<close>

definition returns :: "'a option \<Rightarrow> 'a lr" where
  "returns r = (case r of None \<Rightarrow> Bad | Some x \<Rightarrow> Ret x)"

definition ldhsecret :: "u8 list \<Rightarrow> u8 list \<Rightarrow> u8 list lr" where
  "ldhsecret x y = lbind (read64 x y) (\<lambda>(x', y').
     let xx = word64 x'; yy = word64 y'
     in if xx = 0 \<or> yy = 0 then Raise else lbind (returns (powmodp xx yy)) (\<lambda>r. Ret (push64 r)))"

definition ldhexchange :: "u8 list \<Rightarrow> u8 list lr" where
  "ldhexchange x =
     (if length x \<noteq> 8 then Raise
      else let x64 = word64 (le_words x)
           in if x64 = 0 then Raise else lbind (returns (powmodp G_dh x64)) (\<lambda>r. Ret (push64 r)))"

section \<open>Multiplication and power\<close>

abbreviation p_dh :: nat where
  "p_dh \<equiv> 18446744073709551557"

lemma unat_P [simp]: "unat P_dh = p_dh"
  by (simp add: P_dh_def)

lemma unat_P_minus: "unat a \<le> p_dh \<Longrightarrow> unat (P_dh - a) = p_dh - unat a"
  by (subst unat_sub) (simp_all add: word_le_nat_alt)

lemma add_step:
  assumes "unat m < p_dh" "unat a < p_dh"
  shows "unat (if m \<ge> P_dh - a then m - (P_dh - a) else m + a) = (unat m + unat a) mod p_dh"
proof (cases "m \<ge> P_dh - a")
  case True
  then have "p_dh - unat a \<le> unat m" using assms by (simp add: word_le_nat_alt unat_P_minus)
  moreover from True have "unat (m - (P_dh - a)) = unat m - (p_dh - unat a)"
    using assms by (subst unat_sub) (simp_all add: unat_P_minus)
  ultimately have "unat (m - (P_dh - a)) = unat m + unat a - p_dh" "p_dh \<le> unat m + unat a"
    "unat m + unat a - p_dh < p_dh" using assms by linarith+
  moreover from this have "(unat m + unat a) mod p_dh = unat m + unat a - p_dh" by (simp add: mod_if)
  ultimately show ?thesis using True by simp
next
  case False
  then have "unat m + unat a < p_dh" using assms by (simp add: word_le_nat_alt unat_P_minus)
  moreover from this have "unat (m + a) = unat m + unat a" by (subst unat_add_lem[symmetric]) simp
  ultimately show ?thesis using False by simp
qed

lemma double_step:
  assumes "unat a < p_dh"
  shows "unat (if a \<ge> P_dh - a then a * 2 - P_dh else a * 2) = 2 * unat a mod p_dh"
proof -
  have "a * 2 - P_dh = a - (P_dh - a)" "a * 2 = a + a" by simp_all
  then show ?thesis using add_step[OF assms assms] by (simp only: mult_2)
qed

lemma even_unat: "even (unat (b :: u64)) \<longleftrightarrow> even b"
  using bit_unsigned_iff[of b 0, where 'a = nat] by (simp add: bit_0)

lemma mod_add_mult: "(x + y mod p * z) mod p = (x + y * z) mod (p :: nat)"
  by (metis mod_add_right_eq mod_mult_left_eq)

lemma mul_loop_val:
  "unat m < p_dh \<Longrightarrow> unat a < p_dh \<Longrightarrow> unat (mul_loop m a b) = (unat m + unat a * unat b) mod p_dh"
proof (induction m a b rule: mul_loop.induct)
  case (1 m a b)
  show ?case
  proof (cases "b = 0")
    case True
    then show ?thesis using 1(2) by (subst mul_loop.simps) simp
  next
    case False
    let ?m = "if b AND 1 \<noteq> 0 then (let t = P_dh - a in if m \<ge> t then m - t else m + a) else m"
    let ?a = "if a \<ge> P_dh - a then a * 2 - P_dh else a * 2"
    have half: "unat (drop_bit 1 b) = unat b div 2" unfolding unat_drop_bit_eq by (simp add: drop_bit_eq_div)
    have odd: "b AND 1 \<noteq> 0 \<longleftrightarrow> odd (unat b)" by (simp add: and_one_eq odd_iff_mod_2_eq_one[symmetric] even_unat)
    have m: "unat ?m = (unat m + unat a * (unat b mod 2)) mod p_dh"
      using add_step[OF 1(2,3)] 1(2) by (cases "odd (unat b)") (simp_all add: odd Let_def odd_iff_mod_2_eq_one)
    have a: "unat ?a = 2 * unat a mod p_dh" by (rule double_step[OF 1(3)])
    have "unat (mul_loop ?m ?a (drop_bit 1 b)) = (unat ?m + unat ?a * unat (drop_bit 1 b)) mod p_dh"
      by (rule 1(1)[OF False]) (simp_all only: m a mod_less_divisor)
    also have "\<dots> = (unat m + unat a * (unat b mod 2) + 2 * unat a * (unat b div 2)) mod p_dh"
      by (simp only: m a half mod_add_left_eq mod_add_mult)
    also have "unat m + unat a * (unat b mod 2) + 2 * unat a * (unat b div 2) = unat m + unat a * unat b"
      using mod_mult_div_eq[of "unat b" 2] by (simp add: algebra_simps flip: distrib_left)
    finally show ?thesis using False by (subst mul_loop.simps) simp
  qed
qed

lemma mul_mod_p_val: "unat a < p_dh \<Longrightarrow> unat (mul_mod_p a b) = unat a * unat b mod p_dh"
  by (simp add: mul_mod_p_def mul_loop_val)

text \<open>The power is returned for every exponent but 0, for which the recursion does not end.\<close>

lemma pow_mod_p_zero: "pow_mod_p a 0 = None"
proof -
  have "b \<noteq> 0" if "pow_mod_p a b = Some y" for b y
    using that
  proof (induction rule: pow_mod_p.raw_induct[rotated 1, consumes 1])
    case (1 pow a b r)
    then show ?case by (auto simp: bind_eq_Some_conv split: if_splits dest: 1(1))
  qed
  then show ?thesis by (metis not_None_eq)
qed

lemma pow_mod_p_val:
  assumes "b \<noteq> 0" "unat a < p_dh"
  shows "\<exists>t. pow_mod_p a b = Some t \<and> unat t = unat a ^ unat b mod p_dh"
  using assms(1)
proof (induction "unat b" arbitrary: b rule: less_induct)
  case less
  show ?case
  proof (cases "b = 1")
    case True
    then show ?thesis using assms(2) by (subst pow_mod_p.simps) simp
  next
    case False
    define h where "h = drop_bit 1 b"
    have h: "unat h = unat b div 2" unfolding h_def unat_drop_bit_eq by (simp add: drop_bit_eq_div)
    have b1: "unat b > 1" using False less(2) by (metis less_one linorder_neqE_nat unat_1 unat_eq_zero unsigned_word_eqI)
    then have "h \<noteq> 0" "unat h < unat b" using h by (auto simp: unat_eq_zero[symmetric] simp del: unat_eq_zero)
    from less(1)[OF this(2,1)] obtain t where t: "pow_mod_p a h = Some t" "unat t = unat a ^ unat h mod p_dh" by blast
    have tl: "unat t < p_dh" using t(2) by simp
    have sq: "unat (mul_mod_p t t) = unat a ^ (2 * unat h) mod p_dh"
      by (simp only: mul_mod_p_val[OF tl] t(2) mod_simps power_mult power2_eq_square[symmetric] power_even_eq mult.commute)
    show ?thesis
    proof (cases "even b")
      case True
      then have "2 * unat h = unat b" using h even_unat[of b] by simp
      with True False t sq show ?thesis
        by (subst pow_mod_p.simps) (simp add: h_def Let_def even_iff_mod_2_eq_zero[symmetric])
    next
      case odd: False
      then have hb: "2 * unat h + 1 = unat b" using h even_unat[of b] by simp
      have "unat (mul_mod_p (mul_mod_p t t) a) = unat a ^ (2 * unat h) mod p_dh * unat a mod p_dh"
        by (subst mul_mod_p_val) (simp_all add: sq)
      then have "unat (mul_mod_p (mul_mod_p t t) a) = unat a ^ unat b mod p_dh"
        by (simp only: mod_simps hb[symmetric] power_add power_one_right)
      with odd False t show ?thesis
        by (subst pow_mod_p.simps) (simp add: h_def Let_def even_iff_mod_2_eq_zero[symmetric])
    qed
  qed
qed

lemma unat_below_P: "a \<noteq> P_dh \<Longrightarrow> unat (if a > P_dh then a mod P_dh else a) < p_dh"
proof (cases "a > P_dh")
  case True
  then show ?thesis by (simp add: unat_mod_distrib)
next
  case False
  assume "a \<noteq> P_dh"
  with False have "a < P_dh" by simp
  then have "unat a < unat P_dh" by (simp only: word_less_nat_alt)
  with False show ?thesis by simp
qed

lemma unat_reduced: "unat (if a > P_dh then a mod P_dh else a) mod p_dh = unat a mod p_dh"
  by (simp add: unat_mod_distrib)

lemma pow_mod_cong: "x mod p = y mod p \<Longrightarrow> x ^ n mod p = y ^ n mod (p :: nat)"
  by (metis power_mod)

lemma powmodp_val:
  assumes "b \<noteq> 0" "a \<noteq> P_dh"
  shows "\<exists>t. powmodp a b = Some t \<and> unat t = unat a ^ unat b mod p_dh"
proof -
  obtain t where "powmodp a b = Some t" "unat t = unat (if a > P_dh then a mod P_dh else a) ^ unat b mod p_dh"
    using pow_mod_p_val[OF assms(1) unat_below_P[OF assms(2)]] unfolding powmodp_def by blast
  then show ?thesis using pow_mod_cong[OF unat_reduced[of a], of "unat b"] by auto
qed

text \<open>The reduction is skipped for \<open>a = P\<close>, since the test is \<open>a > P\<close>.\<close>

lemma powmodp_P: "powmodp P_dh 1 = Some P_dh"
  by (simp add: powmodp_def pow_mod_p.simps)

lemma push64_bytes:
  "push64 r = [ucast r, ucast (drop_bit 8 r), ucast (drop_bit 16 r), ucast (drop_bit 24 r),
     ucast (drop_bit 32 r), ucast (drop_bit 40 r), ucast (drop_bit 48 r), ucast (drop_bit 56 r)]"
proof -
  have "[0..<8] = [0, 1, 2, 3, 4, 5, 6, 7 :: nat]" by code_simp
  then show ?thesis by (simp add: push64_def)
qed

lemma ucast_drop: "k \<le> 24 \<Longrightarrow> ucast (drop_bit k (ucast (r :: u64) :: u32)) = (ucast (drop_bit k r) :: u8)"
  by (rule bit_word_eqI) (simp add: bit_simps)

lemma le_words_push64: "le_words (push64 r) = (ucast r, ucast (drop_bit 32 r))"
proof -
  have "(ucast (ucast (ucast r :: u32) :: u8) :: u32) = ucast (ucast r :: u8)" for r :: u64
    by (rule bit_word_eqI) (simp add: bit_simps)
  then have "ucast (ucast (r :: u64) :: u8) OR push_bit 8 (ucast (ucast (drop_bit 8 r) :: u8))
     OR push_bit 16 (ucast (ucast (drop_bit 16 r) :: u8)) OR push_bit 24 (ucast (ucast (drop_bit 24 r) :: u8)) = (ucast r :: u32)" for r
    using join_bytes[of "ucast r"] by (simp add: ucast_drop)
  from this[of r] this[of "drop_bit 32 r"] show ?thesis
    by (simp add: le_words_def push64_bytes Let_def drop_bit_drop_bit)
qed

lemma word64_push64 [simp]: "word64 (le_words (push64 r)) = r"
  unfolding le_words_push64 word64_def split_conv
  by (rule bit_word_eqI) (auto simp: bit_simps)

lemma length_push64 [simp]: "length (push64 r) = 8"
  by (simp add: push64_def)

section \<open>Properties\<close>

text \<open>A power of the generator is never 0: the generator and the modulus have no common factor.\<close>

lemma generator_pow: "5 ^ n mod p_dh \<noteq> 0"
proof
  assume "5 ^ n mod p_dh = 0"
  then have "p_dh dvd 5 ^ n" by (simp add: mod_eq_0_iff_dvd)
  moreover have "coprime p_dh 5" by (simp add: coprime_iff_gcd_eq_1 gcd_red_nat[of p_dh 5] gcd_red_nat[of 5 2] gcd_red_nat[of 2 1])
  then have "coprime p_dh (5 ^ n)" by (simp add: coprime_power_right_iff)
  ultimately have "p_dh dvd 1" by (metis coprime_common_divisor dvd_refl)
  then show False by simp
qed

lemma returns_Some [simp]: "returns (Some x) = Ret x"
  by (simp add: returns_def)

lemma exchange_val:
  assumes "length x = 8" "word64 (le_words x) \<noteq> 0"
  shows "\<exists>X. ldhexchange x = Ret (push64 X) \<and> unat X = 5 ^ unat (word64 (le_words x)) mod p_dh"
proof -
  have "G_dh \<noteq> P_dh" "unat G_dh = 5" by (simp_all add: G_dh_def P_dh_def)
  with powmodp_val[OF assms(2), of G_dh] show ?thesis using assms by (auto simp: ldhexchange_def Let_def)
qed

lemma exchange_usable:
  assumes "unat X = 5 ^ n mod p_dh"
  shows "X \<noteq> 0" "X \<noteq> P_dh"
proof -
  show "X \<noteq> 0" using assms generator_pow[of n] by auto
  have "unat X < p_dh" using assms by simp
  then show "X \<noteq> P_dh" by auto
qed

lemma secret_val:
  assumes "length y = 8" "word64 (le_words y) \<noteq> 0" "unat X = 5 ^ n mod p_dh"
  shows "\<exists>s. ldhsecret (push64 X) y = Ret (push64 s) \<and> unat s = 5 ^ (n * unat (word64 (le_words y))) mod p_dh"
proof -
  note X = exchange_usable[OF assms(3)]
  obtain s where "powmodp X (word64 (le_words y)) = Some s" "unat s = unat X ^ unat (word64 (le_words y)) mod p_dh"
    using powmodp_val[OF assms(2) X(2)] by blast
  moreover from this assms(3) have "unat s = 5 ^ (n * unat (word64 (le_words y))) mod p_dh"
    by (simp only: power_mod power_mult)
  ultimately show ?thesis using assms(1,2) X(1) by (auto simp: ldhsecret_def read64_def Let_def)
qed

text \<open>The modular power computed with 64 bit additions and halvings only is the mathematical power
  modulo \<open>2 ^ 64 - 59\<close>, for every exponent but 0 and every base but the modulus itself; no intermediate
  value wraps around and the recursion ends.\<close>

lemma powmodp_correct:
  assumes "b \<noteq> 0" "a \<noteq> P_dh"
  shows "\<exists>t. powmodp a b = Some t \<and> unat t = unat a ^ unat b mod (2 ^ 64 - 59)"
  using powmodp_val[OF assms] by simp

lemma powmodp_correct_witness:
  "\<exists>t. powmodp (2 ^ 63) 3 = Some t \<and> unat t = unat (2 ^ 63 :: u64) ^ unat (3 :: u64) mod (2 ^ 64 - 59)"
  by (rule powmodp_correct) (simp_all add: P_dh_def)

text \<open>C34: two sides that exchange \<open>dhexchange\<close> of their secrets, 8 bytes each and not zero, compute the
  same secret with \<open>dhsecret\<close>, and none of the four calls raises an error.\<close>

theorem dh_agreement:
  assumes "length x = 8" "length y = 8" "word64 (le_words x) \<noteq> 0" "word64 (le_words y) \<noteq> 0"
  shows "\<exists>X Y s. ldhexchange x = Ret X \<and> ldhexchange y = Ret Y \<and> ldhsecret Y x = Ret s \<and> ldhsecret X y = Ret s"
proof -
  obtain X Y where X: "ldhexchange x = Ret (push64 X)" "unat X = 5 ^ unat (word64 (le_words x)) mod p_dh"
    and Y: "ldhexchange y = Ret (push64 Y)" "unat Y = 5 ^ unat (word64 (le_words y)) mod p_dh"
    using exchange_val[OF assms(1,3)] exchange_val[OF assms(2,4)] by blast
  obtain s t where s: "ldhsecret (push64 Y) x = Ret (push64 s)" "unat s = 5 ^ (unat (word64 (le_words y)) * unat (word64 (le_words x))) mod p_dh"
    and t: "ldhsecret (push64 X) y = Ret (push64 t)" "unat t = 5 ^ (unat (word64 (le_words x)) * unat (word64 (le_words y))) mod p_dh"
    using secret_val[OF assms(1,3) Y(2)] secret_val[OF assms(2,4) X(2)] by blast
  have "unat s = unat t" by (simp only: s(2) t(2) mult.commute)
  then have "s = t" by (rule unsigned_word_eqI)
  with X Y s t show ?thesis by blast
qed

theorem dh_agreement_witness:
  "\<exists>X Y s. ldhexchange [3, 0, 0, 0, 0, 0, 0, 0] = Ret X \<and> ldhexchange [7, 1, 0, 0, 0, 0, 0, 9] = Ret Y
    \<and> ldhsecret Y [3, 0, 0, 0, 0, 0, 0, 0] = Ret s \<and> ldhsecret X [7, 1, 0, 0, 0, 0, 0, 9] = Ret s"
  by (rule dh_agreement) (simp_all add: word64_def le_words_def Let_def)

end
