(* ===== verification/Base64.thy ===== *)
theory Base64
  imports Crypt
begin

text \<open>
  The base64 codec of \<open>lualib-src/lua-crypt.c\<close>.  The decoder skips every byte that is not in the
  alphabet (\<open>b64index\<close> is -1), reads groups of four and takes \<open>=\<close> (-2) only at the end of a group.
\<close>

definition encoding :: "u8 list" where
  "encoding = [
     65, 66, 67, 68, 69, 70, 71, 72, 73, 74, 75, 76, 77, 78, 79, 80, 81, 82, 83, 84, 85, 86, 87, 88, 89, 90,
     97, 98, 99, 100, 101, 102, 103, 104, 105, 106, 107, 108, 109, 110, 111, 112, 113, 114, 115, 116, 117,
     118, 119, 120, 121, 122, 48, 49, 50, 51, 52, 53, 54, 55, 56, 57, 43, 47]"

definition enc :: "u32 \<Rightarrow> u8" where
  "enc v = encoding ! unat v"

text \<open>The loop over groups of three bytes and the \<open>switch\<close> on what is left.\<close>

fun b64encode_loop :: "u8 list \<Rightarrow> u8 list" where
  "b64encode_loop (x # y # z # text) =
     (let v = push_bit 16 (ucast x) OR push_bit 8 (ucast y) OR ucast z :: u32
      in enc (drop_bit 18 v) # enc (drop_bit 12 v AND 0x3f) # enc (drop_bit 6 v AND 0x3f) # enc (v AND 0x3f)
           # b64encode_loop text)"
| "b64encode_loop [x, y] =
     (let v = push_bit 8 (ucast x) OR ucast y :: u32
      in [enc (drop_bit 10 v), enc (drop_bit 4 v AND 0x3f), enc (push_bit 2 (v AND 0xf)), 61])"
| "b64encode_loop [x] =
     (let v = ucast x :: u32 in [enc (drop_bit 2 v), enc (push_bit 4 (v AND 3)), 61, 61])"
| "b64encode_loop [] = []"

text \<open>\<open>encode_sz\<close> is an \<open>int\<close>.\<close>

definition lb64encode :: "u8 list \<Rightarrow> u8 list lr" where
  "lb64encode text =
     (let encode_sz = (length text + 2) div 3 * 4
      in if encode_sz \<ge> 2 ^ 31 then Bad else Ret (b64encode_loop text))"

definition decoding :: "int list" where
  "decoding = [
     62, -1, -1, -1, 63, 52, 53, 54, 55, 56, 57, 58, 59, 60, 61, -1, -1, -1, -2, -1, -1, -1,
     0, 1, 2, 3, 4, 5, 6, 7, 8, 9, 10, 11, 12, 13, 14, 15, 16, 17, 18, 19, 20, 21, 22, 23, 24, 25,
     -1, -1, -1, -1, -1, -1,
     26, 27, 28, 29, 30, 31, 32, 33, 34, 35, 36, 37, 38, 39, 40, 41, 42, 43, 44, 45, 46, 47, 48, 49, 50, 51]"

definition b64index :: "u8 \<Rightarrow> int" where
  "b64index c =
     (if c < 43 then -1
      else let c = c - 43 in if unat c \<ge> length decoding then -1 else decoding ! unat c)"

text \<open>The inner loop: read until \<open>n\<close> more symbols are found; \<open>None\<close> when the text ends first.\<close>

fun b64_group :: "nat \<Rightarrow> u8 list \<Rightarrow> (int list \<times> u8 list) option" where
  "b64_group 0 text = Some ([], text)"
| "b64_group (Suc n) [] = None"
| "b64_group (Suc n) (t # text) =
     (let c = b64index t
      in if c = -1 then b64_group (Suc n) text
         else Option.bind (b64_group n text) (\<lambda>(cs, rest). Some (c # cs, rest)))"

text \<open>The \<open>switch\<close> on the number of \<open>=\<close> in the group \<open>c\<close>: the bytes it stores, or an error.\<close>

definition b64_emit :: "int list \<Rightarrow> u8 list lr" where
  "b64_emit c =
     (let u = (\<lambda>i. of_int (c ! i) :: u32); padding = length (filter (\<lambda>x. x = -2) c)
      in if padding = 0 then
           (let v = push_bit 18 (u 0) OR push_bit 12 (u 1) OR push_bit 6 (u 2) OR u 3
            in Ret [ucast (drop_bit 16 v), ucast (drop_bit 8 v AND 0xff), ucast (v AND 0xff)])
         else if padding = 1 then
           (if c ! 3 \<noteq> -2 \<or> u 2 AND 3 \<noteq> 0 then Raise
            else let v = push_bit 10 (u 0) OR push_bit 4 (u 1) OR drop_bit 2 (u 2)
                 in Ret [ucast (drop_bit 8 v), ucast (v AND 0xff)])
         else if padding = 2 then
           (if c ! 3 \<noteq> -2 \<or> c ! 2 \<noteq> -2 \<or> u 1 AND 0xf \<noteq> 0 then Raise
            else let v = push_bit 2 (u 0) OR drop_bit 4 (u 1) in Ret [ucast v])
         else Raise)"

lemma b64_group_less: "b64_group n tx = Some (c, rest) \<Longrightarrow> length rest + n \<le> length tx"
proof (induction n tx arbitrary: c rest rule: b64_group.induct)
  case (3 n t tx)
  show ?case
  proof (cases "b64index t = -1")
    case True
    with 3(3) 3(1)[OF refl True] show ?thesis by fastforce
  next
    case False
    with 3(3) 3(2)[OF refl False] show ?thesis by (fastforce simp: bind_eq_Some_conv)
  qed
qed simp_all

function b64decode_loop :: "u8 list \<Rightarrow> u8 list lr" where
  "b64decode_loop text =
     (if text = [] then Ret []
      else case b64_group 4 text of
        None \<Rightarrow> Raise
      | Some (c, rest) \<Rightarrow> lbind (b64_emit c) (\<lambda>bytes. lbind (b64decode_loop rest) (\<lambda>out. Ret (bytes @ out))))"
  by pat_completeness auto
termination
  by (relation "measure length") (auto dest!: b64_group_less)

declare b64decode_loop.simps [simp del]

definition lb64decode :: "u8 list \<Rightarrow> u8 list lr" where
  "lb64decode text = (if length text \<ge> 2 ^ 31 then Bad else b64decode_loop text)"

section \<open>Groups\<close>

lemma index_encoding: "n < 64 \<Longrightarrow> b64index (encoding ! n) = int n"
proof -
  have "\<forall>n \<in> set [0..<64]. b64index (encoding ! n) = int n" by code_simp
  then show "n < 64 \<Longrightarrow> b64index (encoding ! n) = int n" by simp
qed

lemma index_enc: "v AND 0x3f = v \<Longrightarrow> b64index (enc v) = uint v"
proof -
  assume v: "v AND 0x3f = v"
  have "0x3f = (mask 6 :: u32)" by (simp add: mask_eq_exp_minus_1)
  with v have "take_bit 6 v = v" by (simp add: take_bit_eq_mask)
  then have "take_bit 6 (unat v) = unat v" by (metis unsigned_take_bit_eq)
  then have "unat v < 64" using take_bit_nat_less_exp[of 6 "unat v"] by simp
  then have "b64index (enc v) = int (unat v)" by (simp only: enc_def index_encoding)
  then show ?thesis by (simp only: uint_nat)
qed

lemma index_pad: "b64index 61 = -2"
  by code_simp

lemma f3_mask: "0x3f = (mask 6 :: u32)" "0xf = (mask 4 :: u32)" "3 = (mask 2 :: u32)"
  by (simp_all add: mask_eq_exp_minus_1)

lemma uint_not_neg [simp]: "uint (v :: u32) \<noteq> -1" "uint (v :: u32) \<noteq> -2"
  using uint_ge_0[of v] by linarith+

lemma bits_six: "(\<And>n. n < 32 \<Longrightarrow> bit v n \<Longrightarrow> n < 6) \<Longrightarrow> v AND 0x3f = (v :: u32)"
  unfolding f3_mask by (rule bit_word_eqI) (auto simp: bit_simps)

lemma join_six:
  "push_bit 18 (drop_bit 18 v) OR push_bit 12 (drop_bit 12 v AND 0x3f) OR push_bit 6 (drop_bit 6 v AND 0x3f) OR (v AND 0x3f)
     = (v :: u32)" (is "?l = v")
proof (rule bit_word_eqI)
  fix n
  assume "n < LENGTH(32)"
  then have "n < 32" by simp
  then consider "n < 6" | "6 \<le> n" "n < 12" | "12 \<le> n" "n < 18" | "18 \<le> n" "n < 32" by linarith
  then show "bit ?l n = bit v n" by cases (auto simp: f3_mask bit_simps)
qed

lemma emit3:
  fixes a b c d :: u32
  shows "b64_emit (map uint [a, b, c, d]) =
     Ret [ucast (drop_bit 16 (push_bit 18 a OR push_bit 12 b OR push_bit 6 c OR d)),
          ucast (drop_bit 8 (push_bit 18 a OR push_bit 12 b OR push_bit 6 c OR d) AND 0xff),
          ucast ((push_bit 18 a OR push_bit 12 b OR push_bit 6 c OR d) AND 0xff)]"
  by (simp add: b64_emit_def Let_def del: ucast_ff drop_bit_or)

lemma emit2:
  fixes a b c d :: u32
  shows "b64_emit (map uint [a, b, c] @ [-2]) =
     (if c AND 3 \<noteq> 0 then Raise
      else Ret [ucast (drop_bit 8 (push_bit 10 a OR push_bit 4 b OR drop_bit 2 c)),
                ucast ((push_bit 10 a OR push_bit 4 b OR drop_bit 2 c) AND 0xff)])"
  by (simp add: b64_emit_def Let_def numeral_3_eq_3 del: ucast_ff drop_bit_or)

lemma emit1:
  fixes a b c d :: u32
  shows "b64_emit (map uint [a, b] @ [-2, -2]) = (if b AND 0xf \<noteq> 0 then Raise else Ret [ucast (push_bit 2 a OR drop_bit 4 b)])"
  by (simp add: b64_emit_def Let_def numeral_3_eq_3 numeral_2_eq_2)

text \<open>The symbols of one group of each size.\<close>

lemma group3:
  fixes x y z :: u8
  defines "v \<equiv> push_bit 16 (ucast x) OR push_bit 8 (ucast y) OR ucast z :: u32"
  shows "map b64index [enc (drop_bit 18 v), enc (drop_bit 12 v AND 0x3f), enc (drop_bit 6 v AND 0x3f), enc (v AND 0x3f)]
      = map uint [drop_bit 18 v, drop_bit 12 v AND 0x3f, drop_bit 6 v AND 0x3f, v AND 0x3f]"
    "b64_emit (map uint [drop_bit 18 v, drop_bit 12 v AND 0x3f, drop_bit 6 v AND 0x3f, v AND 0x3f]) = Ret [x, y, z]"
proof -
  have "drop_bit 18 v AND 0x3f = drop_bit 18 v"
    by (rule bits_six) (auto simp: v_def bit_simps dest: bit_byte_less)
  then show "map b64index [enc (drop_bit 18 v), enc (drop_bit 12 v AND 0x3f), enc (drop_bit 6 v AND 0x3f), enc (v AND 0x3f)]
      = map uint [drop_bit 18 v, drop_bit 12 v AND 0x3f, drop_bit 6 v AND 0x3f, v AND 0x3f]"
    by (simp add: index_enc and.assoc del: uint_and)
  have "push_bit 18 (drop_bit 18 v) OR push_bit 12 (drop_bit 12 v AND 0x3f) OR push_bit 6 (drop_bit 6 v AND 0x3f) OR (v AND 0x3f) = v"
    by (rule join_six)
  moreover have "ucast (drop_bit 16 v) = x" "ucast (drop_bit 8 v) = y" "ucast v = z"
    unfolding v_def by (rule bit_word_eqI; auto simp: bit_simps dest: bit_byte_less)+
  ultimately show "b64_emit (map uint [drop_bit 18 v, drop_bit 12 v AND 0x3f, drop_bit 6 v AND 0x3f, v AND 0x3f]) = Ret [x, y, z]"
    by (simp only: emit3 ucast_ff)
qed

lemma group2:
  fixes x y :: u8
  defines "v \<equiv> push_bit 8 (ucast x) OR ucast y :: u32"
  shows "map b64index [enc (drop_bit 10 v), enc (drop_bit 4 v AND 0x3f), enc (push_bit 2 (v AND 0xf))]
      = map uint [drop_bit 10 v, drop_bit 4 v AND 0x3f, push_bit 2 (v AND 0xf)]"
    "b64_emit (map uint [drop_bit 10 v, drop_bit 4 v AND 0x3f, push_bit 2 (v AND 0xf)] @ [-2]) = Ret [x, y]"
proof -
  have "drop_bit 10 v AND 0x3f = drop_bit 10 v"
    by (rule bits_six) (auto simp: v_def bit_simps dest: bit_byte_less)
  moreover have "push_bit 2 (v AND 0xf) AND 0x3f = push_bit 2 (v AND 0xf)"
    by (rule bits_six) (auto simp: f3_mask bit_simps)
  ultimately show "map b64index [enc (drop_bit 10 v), enc (drop_bit 4 v AND 0x3f), enc (push_bit 2 (v AND 0xf))]
      = map uint [drop_bit 10 v, drop_bit 4 v AND 0x3f, push_bit 2 (v AND 0xf)]"
    by (simp only: list.map index_enc and.assoc and.idem)
  have c: "push_bit 2 (v AND 0xf) AND 3 = 0"
    unfolding f3_mask by (rule bit_word_eqI) (auto simp: bit_simps)
  have d: "drop_bit 2 (push_bit 2 (v AND 0xf)) = v AND 0xf"
    unfolding f3_mask by (rule bit_word_eqI) (auto simp: bit_simps)
  have "push_bit 10 (drop_bit 10 v) OR push_bit 4 (drop_bit 4 v AND 0x3f) OR (v AND 0xf) = v" (is "?l = v")
  proof (rule bit_word_eqI)
    fix n
    assume "n < LENGTH(32)"
    then have "n < 32" by simp
    then consider "n < 4" | "4 \<le> n" "n < 10" | "10 \<le> n" "n < 32" by linarith
    then show "bit ?l n = bit v n" by cases (auto simp: f3_mask bit_simps)
  qed
  moreover have "ucast (drop_bit 8 v) = x" "ucast v = y"
    unfolding v_def by (rule bit_word_eqI; auto simp: bit_simps dest: bit_byte_less)+
  ultimately show "b64_emit (map uint [drop_bit 10 v, drop_bit 4 v AND 0x3f, push_bit 2 (v AND 0xf)] @ [-2]) = Ret [x, y]"
    by (simp only: emit2 c d ucast_ff if_False simp_thms)
qed

lemma group1:
  fixes x :: u8
  defines "v \<equiv> ucast x :: u32"
  shows "map b64index [enc (drop_bit 2 v), enc (push_bit 4 (v AND 3))] = map uint [drop_bit 2 v, push_bit 4 (v AND 3)]"
    "b64_emit (map uint [drop_bit 2 v, push_bit 4 (v AND 3)] @ [-2, -2]) = Ret [x]"
proof -
  have "drop_bit 2 v AND 0x3f = drop_bit 2 v"
    by (rule bits_six) (auto simp: v_def bit_simps dest: bit_byte_less)
  moreover have "push_bit 4 (v AND 3) AND 0x3f = push_bit 4 (v AND 3)"
    by (rule bits_six) (auto simp: f3_mask bit_simps)
  ultimately show "map b64index [enc (drop_bit 2 v), enc (push_bit 4 (v AND 3))] = map uint [drop_bit 2 v, push_bit 4 (v AND 3)]"
    by (simp only: list.map index_enc)
  have c: "push_bit 4 (v AND 3) AND 0xf = 0"
    unfolding f3_mask by (rule bit_word_eqI) (auto simp: bit_simps)
  have "push_bit 2 (drop_bit 2 v) OR drop_bit 4 (push_bit 4 (v AND 3)) = v" (is "?l = v")
  proof (rule bit_word_eqI)
    fix n
    assume "n < LENGTH(32)"
    have "Suc (Suc (n - 2)) = n" if "\<not> n < 2" using that by arith
    then show "bit ?l n = bit v n" using \<open>n < LENGTH(32)\<close> by (cases "n < 2") (auto simp: f3_mask bit_simps)
  qed
  moreover have "ucast v = x"
    unfolding v_def by (rule bit_word_eqI) (auto simp: bit_simps)
  ultimately show "b64_emit (map uint [drop_bit 2 v, push_bit 4 (v AND 3)] @ [-2, -2]) = Ret [x]"
    by (simp only: emit1 c if_False simp_thms)
qed

section \<open>Texts\<close>

text \<open>The bytes the decoder does not skip.\<close>

definition symbols :: "u8 list \<Rightarrow> u8 list" where
  "symbols = filter (\<lambda>c. b64index c \<noteq> -1)"

definition ends_in_symbol :: "u8 list \<Rightarrow> bool" where
  "ends_in_symbol tx = (tx = [] \<or> b64index (last tx) \<noteq> -1)"

lemma symbols_nil: "symbols tx = [] \<Longrightarrow> ends_in_symbol tx \<Longrightarrow> tx = []"
  by (cases tx rule: rev_cases) (simp_all add: symbols_def ends_in_symbol_def)

lemma group_read:
  "symbols tx = s @ more \<Longrightarrow> length s = n \<Longrightarrow> ends_in_symbol tx \<Longrightarrow>
   \<exists>rest. b64_group n tx = Some (map b64index s, rest) \<and> symbols rest = more \<and> ends_in_symbol rest"
proof (induction n tx arbitrary: s rule: b64_group.induct)
  case (3 n t tx)
  have ends: "ends_in_symbol tx" using 3(5) by (auto simp: ends_in_symbol_def split: if_splits)
  show ?case
  proof (cases "b64index t = -1")
    case True
    with 3(3) have "symbols tx = s @ more" by (simp add: symbols_def)
    with 3(1)[OF refl True _ 3(4) ends] True show ?thesis by simp
  next
    case False
    obtain s' where s: "s = t # s'" "length s' = n" "symbols tx = s' @ more"
      using 3(3,4) False by (cases s) (auto simp: symbols_def)
    from 3(2)[OF refl False s(3,2) ends] False show ?thesis by (auto simp: s(1))
  qed
qed (auto simp: symbols_def)

lemma decode_group:
  assumes "symbols tx = s @ more" "length s = 4" "ends_in_symbol tx" "b64_emit (map b64index s) = Ret bytes"
    "\<And>rest. symbols rest = more \<Longrightarrow> ends_in_symbol rest \<Longrightarrow> b64decode_loop rest = Ret out"
  shows "b64decode_loop tx = Ret (bytes @ out)"
proof -
  obtain rest where r: "b64_group 4 tx = Some (map b64index s, rest)" "symbols rest = more" "ends_in_symbol rest"
    using group_read[OF assms(1-3)] by blast
  have "tx \<noteq> []" using assms(1,2) by (auto simp: symbols_def)
  with r assms(4) assms(5)[OF r(2,3)] show ?thesis by (subst b64decode_loop.simps) simp
qed

lemma decode_nil: "symbols tx = [] \<Longrightarrow> ends_in_symbol tx \<Longrightarrow> b64decode_loop tx = Ret []"
  using symbols_nil[of tx] by (subst b64decode_loop.simps) simp

lemma b64_decode_encode:
  "symbols tx = b64encode_loop msg \<Longrightarrow> ends_in_symbol tx \<Longrightarrow> b64decode_loop tx = Ret msg"
proof (induction msg arbitrary: tx rule: b64encode_loop.induct)
  case (1 x y z msg)
  define v where "v = (push_bit 16 (ucast x) OR push_bit 8 (ucast y) OR ucast z :: u32)"
  have "b64decode_loop tx = Ret ([x, y, z] @ msg)"
  proof (rule decode_group)
    show "symbols tx = [enc (drop_bit 18 v), enc (drop_bit 12 v AND 0x3f), enc (drop_bit 6 v AND 0x3f), enc (v AND 0x3f)]
        @ b64encode_loop msg"
      unfolding 1(2) by (simp add: Let_def v_def del: drop_bit_or)
    show "b64_emit (map b64index [enc (drop_bit 18 v), enc (drop_bit 12 v AND 0x3f), enc (drop_bit 6 v AND 0x3f), enc (v AND 0x3f)])
        = Ret [x, y, z]" unfolding v_def group3(1) by (rule group3(2))
  qed (simp_all add: 1)
  then show ?case by simp
next
  case (2 x y)
  define v where "v = (push_bit 8 (ucast x) OR ucast y :: u32)"
  have "b64decode_loop tx = Ret ([x, y] @ [])"
  proof (rule decode_group)
    show "symbols tx = ([enc (drop_bit 10 v), enc (drop_bit 4 v AND 0x3f), enc (push_bit 2 (v AND 0xf))] @ [61]) @ []"
      unfolding 2(1) by (simp add: Let_def v_def del: drop_bit_or)
    show "b64_emit (map b64index ([enc (drop_bit 10 v), enc (drop_bit 4 v AND 0x3f), enc (push_bit 2 (v AND 0xf))] @ [61]))
        = Ret [x, y]" unfolding v_def map_append group2(1) unfolding list.map index_pad by (rule group2(2)[unfolded list.map])
  qed (simp_all add: 2 decode_nil)
  then show ?case by simp
next
  case (3 x)
  define v where "v = (ucast x :: u32)"
  have "b64decode_loop tx = Ret ([x] @ [])"
  proof (rule decode_group)
    show "symbols tx = ([enc (drop_bit 2 v), enc (push_bit 4 (v AND 3))] @ [61, 61]) @ []"
      unfolding 3(1) by (simp add: Let_def v_def)
    show "b64_emit (map b64index ([enc (drop_bit 2 v), enc (push_bit 4 (v AND 3))] @ [61, 61])) = Ret [x]"
      unfolding v_def map_append group1(1) unfolding list.map index_pad by (rule group1(2)[unfolded list.map])
  qed (simp_all add: 3 decode_nil)
  then show ?case by simp
qed (simp add: decode_nil)

lemma length_encode: "length (b64encode_loop msg) = (length msg + 2) div 3 * 4"
proof (induction msg rule: b64encode_loop.induct)
  case (1 x y z msg)
  have "(length (x # y # z # msg) + 2) div 3 = (length msg + 2) div 3 + 1"
    using div_add_self2[of 3 "length msg + 2"] by (simp del: div_add_self2)
  with 1 show ?case by (simp add: Let_def)
qed (simp_all add: Let_def)

lemma enc_symbol: "v AND 0x3f = v \<Longrightarrow> b64index (enc v) \<noteq> -1"
  by (simp add: index_enc)

text \<open>The encoder writes nothing the decoder skips.\<close>

lemma map_uint_symbols: "map b64index s = map uint (vs :: u32 list) \<Longrightarrow> symbols s = s"
proof -
  assume eq: "map b64index s = map uint vs"
  have "b64index c \<noteq> -1" if "c \<in> set s" for c
  proof -
    have "b64index c \<in> set (map uint vs)" using that unfolding eq[symmetric] by simp
    then show ?thesis using uint_not_neg(1) by (metis imageE list.set_map)
  qed
  then show ?thesis by (simp add: symbols_def filter_id_conv)
qed

lemma symbols_append: "symbols (a @ b) = symbols a @ symbols b"
  by (simp add: symbols_def)

lemma symbols_pad: "symbols [61] = [61]" "symbols [61, 61] = [61, 61]"
  by (simp_all add: symbols_def index_pad)

lemma symbols_encode: "symbols (b64encode_loop msg) = b64encode_loop msg"
proof (induction msg rule: b64encode_loop.induct)
  case (1 x y z msg)
  have "b64encode_loop (x # y # z # msg) = [enc (drop_bit 18 v), enc (drop_bit 12 v AND 0x3f), enc (drop_bit 6 v AND 0x3f), enc (v AND 0x3f)]
      @ b64encode_loop msg" if "v = push_bit 16 (ucast x) OR push_bit 8 (ucast y) OR ucast z" for v
    by (simp add: Let_def that del: drop_bit_or)
  then show ?case by (simp only: symbols_append 1 map_uint_symbols[OF group3(1)])
next
  case (2 x y)
  have "b64encode_loop [x, y] = [enc (drop_bit 10 v), enc (drop_bit 4 v AND 0x3f), enc (push_bit 2 (v AND 0xf))] @ [61]"
    if "v = push_bit 8 (ucast x) OR ucast y" for v
    by (simp add: Let_def that del: drop_bit_or)
  then show ?case by (simp only: symbols_append symbols_pad map_uint_symbols[OF group2(1)])
next
  case (3 x)
  have "b64encode_loop [x] = [enc (drop_bit 2 v), enc (push_bit 4 (v AND 3))] @ [61, 61]" if "v = ucast x" for v
    by (simp add: Let_def that)
  then show ?case by (simp only: symbols_append symbols_pad map_uint_symbols[OF group1(1)])
qed (simp add: symbols_def)

lemma symbols_ends: "symbols tx = tx \<Longrightarrow> ends_in_symbol tx"
  unfolding symbols_def ends_in_symbol_def filter_id_conv by auto

section \<open>Properties\<close>

text \<open>C35: encoding in base64 succeeds for every string whose encoding is shorter than two gigabytes, has
  the announced length, and decoding gives the string back; so does decoding any text made from it by
  inserting bytes outside the alphabet, such as line breaks, anywhere but after the last symbol.\<close>

theorem base64_roundtrip:
  assumes "length msg + 2 < 3 * 2 ^ 29"
  shows "\<exists>e. lb64encode msg = Ret e \<and> length e = (length msg + 2) div 3 * 4 \<and> lb64decode e = Ret msg
    \<and> {tx. length tx < 2 ^ 31 \<and> symbols tx = e \<and> ends_in_symbol tx} \<subseteq> {tx. lb64decode tx = Ret msg}"
proof -
  have "(length msg + 2) div 3 * 4 < 2 ^ 31" using assms by auto
  then show ?thesis
    by (auto simp: lb64encode_def lb64decode_def length_encode Let_def
        intro: b64_decode_encode symbols_encode symbols_ends)
qed

theorem base64_roundtrip_witness:
  "\<exists>e. lb64encode [102, 111, 111, 98] = Ret e \<and> length e = 8 \<and> lb64decode e = Ret [102, 111, 111, 98]
    \<and> {tx. length tx < 2 ^ 31 \<and> symbols tx = e \<and> ends_in_symbol tx} \<subseteq> {tx. lb64decode tx = Ret [102, 111, 111, 98]}"
  using base64_roundtrip[of "[102, 111, 111, 98]"] by simp

text \<open>A line break after the last symbol is not skipped: the decoder looks for another group.\<close>

lemma trailing_newline_rejected: "lb64decode [90, 103, 61, 61, 10] = Raise"
proof -
  have "b64_group 4 [90, 103, 61, 61, 10] = Some ([25, 32, -2, -2], [10])" "b64_group 4 [10] = None" by code_simp+
  then show ?thesis
    by (simp add: lb64decode_def b64decode_loop.simps[of "[90, 103, 61, 61, 10]"] b64decode_loop.simps[of "[10]"]
        b64_emit_def Let_def)
qed

end
