(* ===== verification/Sha1.thy ===== *)
theory Sha1
  imports Crypt
begin

text \<open>
  \<open>lualib-src/lsha1.c\<close>: the incremental SHA-1 context, its use for a whole string and for an HMAC, and
  the standard they implement.  A context operation is an \<open>option\<close>: \<open>None\<close> is a copy outside the 64
  byte buffer or a padding loop that does not end.
\<close>

section \<open>The compression function\<close>

type_synonym sha_words = "u32 \<times> u32 \<times> u32 \<times> u32 \<times> u32"

definition rol :: "u32 \<Rightarrow> nat \<Rightarrow> u32" where
  "rol x bits = push_bit bits x OR drop_bit (32 - bits) x"

text \<open>\<open>blk0\<close> and \<open>blk\<close> store the word they return into the array \<open>block.l\<close> of sixteen words.\<close>

definition blk0 :: "nat \<Rightarrow> u32 list \<Rightarrow> u32 \<times> u32 list" where
  "blk0 i l =
     (let v = (rol (l ! i) 24 AND 0xFF00FF00) OR (rol (l ! i) 8 AND 0x00FF00FF) in (v, l[i := v]))"

definition blk :: "nat \<Rightarrow> u32 list \<Rightarrow> u32 \<times> u32 list" where
  "blk i l =
     (let v = rol (l ! ((i + 13) mod 16) XOR l ! ((i + 8) mod 16) XOR l ! ((i + 2) mod 16) XOR l ! (i mod 16)) 1
      in (v, l[i mod 16 := v]))"

text \<open>One of the eighty operations \<open>R0\<close> to \<open>R4\<close>.  The macro's arguments \<open>v, w, x, y, z\<close> rotate from one
  operation to the next: the result is in the order of the next one.\<close>

definition sha_R :: "nat \<Rightarrow> sha_words \<times> u32 list \<Rightarrow> sha_words \<times> u32 list" where
  "sha_R i = (\<lambda>((v, w, x, y, z), l).
     let (b, l') = (if i < 16 then blk0 i l else blk i l);
         z' = z + ((if i < 20 then ((w AND (x XOR y)) XOR y) + b + 0x5A827999
                    else if i < 40 then (w XOR x XOR y) + b + 0x6ED9EBA1
                    else if i < 60 then (((w OR x) AND y) OR (w AND x)) + b + 0x8F1BBCDC
                    else (w XOR x XOR y) + b + 0xCA62C1D6) + rol v 5)
     in ((z', v, rol w 30, x, y), l'))"

text \<open>The copy of the buffer into the union \<open>block\<close>, read as little-endian words.\<close>

definition le32 :: "u8 list \<Rightarrow> nat \<Rightarrow> u32" where
  "le32 b i = ucast (b ! i) OR push_bit 8 (ucast (b ! (i + 1))) OR push_bit 16 (ucast (b ! (i + 2)))
     OR push_bit 24 (ucast (b ! (i + 3)))"

definition words_add :: "sha_words \<Rightarrow> sha_words \<Rightarrow> sha_words" where
  "words_add = (\<lambda>(a, b, c, d, e) (a', b', c', d', e'). (a + a', b + b', c + c', d + d', e + e'))"

definition SHA1_Transform :: "sha_words \<Rightarrow> u8 list \<Rightarrow> sha_words" where
  "SHA1_Transform state buffer =
     words_add state (fst (fold sha_R [0..<80] (state, map (\<lambda>i. le32 buffer (4 * i)) [0..<16])))"

section \<open>The context\<close>

record SHA1_CTX =
  sha_state :: sha_words
  count0 :: u32
  count1 :: u32
  sha_buffer :: "u8 list"

text \<open>The buffer of a new context is not written: its content is an argument.\<close>

definition sat_SHA1_Init :: "u8 list \<Rightarrow> SHA1_CTX" where
  "sat_SHA1_Init junk =
     \<lparr> sha_state = (0x67452301, 0xEFCDAB89, 0x98BADCFE, 0x10325476, 0xC3D2E1F0), count0 = 0, count1 = 0,
       sha_buffer = junk \<rparr>"

definition blit :: "u8 list \<Rightarrow> nat \<Rightarrow> u8 list \<Rightarrow> u8 list option" where
  "blit buf j bytes =
     (if j + length bytes \<le> length buf then Some (take j buf @ bytes @ drop (j + length bytes) buf) else None)"

function update_loop :: "sha_words \<Rightarrow> u8 list \<Rightarrow> sha_words \<times> u8 list" where
  "update_loop state data =
     (if length data \<ge> 64 then update_loop (SHA1_Transform state (take 64 data)) (drop 64 data) else (state, data))"
  by pat_completeness auto
termination
  by (relation "measure (\<lambda>(state, data). length data)") auto

declare update_loop.simps [simp del]

text \<open>The two counters: \<open>len << 3\<close> is a \<open>size_t\<close>, and so is the comparison with it.\<close>

definition add_count :: "nat \<Rightarrow> u32 \<times> u32 \<Rightarrow> u32 \<times> u32" where
  "add_count n = (\<lambda>(c0, c1).
     let len = of_nat n :: u64; c0' = c0 + ucast (push_bit 3 len);
         c1' = (if (ucast c0' :: u64) < push_bit 3 len then c1 + 1 else c1)
     in (c0', c1' + ucast (drop_bit 29 len)))"

definition sat_SHA1_Update :: "SHA1_CTX \<Rightarrow> u8 list \<Rightarrow> SHA1_CTX option" where
  "sat_SHA1_Update context data =
     (let j = unat (drop_bit 3 (count0 context) AND 63);
          (c0, c1) = add_count (length data) (count0 context, count1 context)
      in if j + length data > 63 then
           do {
             buf \<leftarrow> blit (sha_buffer context) j (take (64 - j) data);
             let (state, rest) = update_loop (SHA1_Transform (sha_state context) buf) (drop (64 - j) data);
             buf \<leftarrow> blit buf 0 rest;
             Some \<lparr> sha_state = state, count0 = c0, count1 = c1, sha_buffer = buf \<rparr>
           }
         else
           do {
             buf \<leftarrow> blit (sha_buffer context) j data;
             Some \<lparr> sha_state = sha_state context, count0 = c0, count1 = c1, sha_buffer = buf \<rparr>
           })"

partial_function (option) pad_loop :: "SHA1_CTX \<Rightarrow> SHA1_CTX option" where
  "pad_loop context =
     (if count0 context AND 504 \<noteq> 448 then Option.bind (sat_SHA1_Update context [0]) pad_loop else Some context)"

definition be32_bytes :: "u32 \<Rightarrow> u8 list" where
  "be32_bytes x = map (\<lambda>i. ucast (drop_bit ((3 - i) * 8) x AND 255)) [0..<4]"

definition state_bytes :: "sha_words \<Rightarrow> u8 list" where
  "state_bytes = (\<lambda>(a, b, c, d, e). be32_bytes a @ be32_bytes b @ be32_bytes c @ be32_bytes d @ be32_bytes e)"

definition sat_SHA1_Final :: "SHA1_CTX \<Rightarrow> u8 list option" where
  "sat_SHA1_Final context =
     (let finalcount = be32_bytes (count1 context) @ be32_bytes (count0 context)
      in do {
        context \<leftarrow> sat_SHA1_Update context [0x80];
        context \<leftarrow> pad_loop context;
        context \<leftarrow> sat_SHA1_Update context finalcount;
        Some (state_bytes (sha_state context))
      })"

section \<open>Lua functions\<close>

definition lsha1 :: "u8 list \<Rightarrow> u8 list \<Rightarrow> u8 list option" where
  "lsha1 junk buffer =
     do { ctx \<leftarrow> sat_SHA1_Update (sat_SHA1_Init junk) buffer; sat_SHA1_Final ctx }"

fun xor_key :: "u32 \<Rightarrow> u8 list \<Rightarrow> u8 list" where
  "xor_key x (a # b # c # d # key) =
     (let k = le32 [a, b, c, d] 0 XOR x
      in [ucast k, ucast (drop_bit 8 k), ucast (drop_bit 16 k), ucast (drop_bit 24 k)] @ xor_key x key)"
| "xor_key x key = key"

definition lhmac_sha1 :: "u8 list \<Rightarrow> u8 list \<Rightarrow> u8 list \<Rightarrow> u8 list option" where
  "lhmac_sha1 junk key text =
     do {
       rkey \<leftarrow> (if length key > 64
                then do {
                  ctx \<leftarrow> sat_SHA1_Update (sat_SHA1_Init junk) key;
                  digest \<leftarrow> sat_SHA1_Final ctx;
                  blit (replicate 64 0) 0 digest
                }
                else blit (replicate 64 0) 0 key);
       let rkey1 = xor_key 0x5c5c5c5c rkey;
       ctx1 \<leftarrow> sat_SHA1_Update (sat_SHA1_Init junk) rkey1;
       let rkey2 = xor_key (0x5c5c5c5c XOR 0x36363636) rkey1;
       ctx2 \<leftarrow> sat_SHA1_Update (sat_SHA1_Init junk) rkey2;
       ctx2 \<leftarrow> sat_SHA1_Update ctx2 text;
       digest2 \<leftarrow> sat_SHA1_Final ctx2;
       ctx1 \<leftarrow> sat_SHA1_Update ctx1 digest2;
       sat_SHA1_Final ctx1
     }"

section \<open>The standard\<close>

definition be32 :: "u8 list \<Rightarrow> nat \<Rightarrow> u32" where
  "be32 b i = push_bit 24 (ucast (b ! i)) OR push_bit 16 (ucast (b ! (i + 1))) OR push_bit 8 (ucast (b ! (i + 2)))
     OR ucast (b ! (i + 3))"

text \<open>The message schedule of eighty words.\<close>

function sha1_W :: "u8 list \<Rightarrow> nat \<Rightarrow> u32" where
  "sha1_W m t =
     (if t < 16 then be32 m (4 * t)
      else rol (sha1_W m (t - 3) XOR sha1_W m (t - 8) XOR sha1_W m (t - 14) XOR sha1_W m (t - 16)) 1)"
  by pat_completeness auto
termination
  by (relation "measure snd") auto

declare sha1_W.simps [simp del]

definition sha1_f :: "nat \<Rightarrow> u32 \<Rightarrow> u32 \<Rightarrow> u32 \<Rightarrow> u32" where
  "sha1_f t b c d =
     (if t < 20 then (b AND c) OR (NOT b AND d)
      else if t < 40 then b XOR c XOR d
      else if t < 60 then (b AND c) OR (b AND d) OR (c AND d)
      else b XOR c XOR d)"

definition sha1_k :: "nat \<Rightarrow> u32" where
  "sha1_k t = (if t < 20 then 0x5A827999 else if t < 40 then 0x6ED9EBA1 else if t < 60 then 0x8F1BBCDC else 0xCA62C1D6)"

definition sha1_round :: "u8 list \<Rightarrow> nat \<Rightarrow> sha_words \<Rightarrow> sha_words" where
  "sha1_round m t = (\<lambda>(a, b, c, d, e). (rol a 5 + sha1_f t b c d + e + sha1_k t + sha1_W m t, a, rol b 30, c, d))"

definition sha1_block :: "sha_words \<Rightarrow> u8 list \<Rightarrow> sha_words" where
  "sha1_block H m = words_add H (fold (sha1_round m) [0..<80] H)"

function sha1_blocks :: "sha_words \<Rightarrow> u8 list \<Rightarrow> sha_words" where
  "sha1_blocks H data = (if length data \<ge> 64 then sha1_blocks (sha1_block H (take 64 data)) (drop 64 data) else H)"
  by pat_completeness auto
termination
  by (relation "measure (\<lambda>(H, data). length data)") auto

declare sha1_blocks.simps [simp del]

definition sha1_padding :: "nat \<Rightarrow> u8 list" where
  "sha1_padding n = 0x80 # replicate ((119 - n mod 64) mod 64) 0 @ be_bytes 8 (8 * n mod 2 ^ 64)"

definition sha1 :: "u8 list \<Rightarrow> u8 list" where
  "sha1 msg = state_bytes (sha1_blocks (0x67452301, 0xEFCDAB89, 0x98BADCFE, 0x10325476, 0xC3D2E1F0)
     (msg @ sha1_padding (length msg)))"

definition hmac_sha1 :: "u8 list \<Rightarrow> u8 list \<Rightarrow> u8 list" where
  "hmac_sha1 key msg =
     (let k = (if length key > 64 then sha1 key else key); k = k @ replicate (64 - length k) 0
      in sha1 (map (\<lambda>b. b XOR 0x5c) k @ sha1 (map (\<lambda>b. b XOR 0x36) k @ msg)))"

section \<open>The compression function is the standard's\<close>

lemma blk0_masks: "0x00FF00FF = (mask 8 OR push_bit 16 (mask 8) :: u32)"
  "0xFF00FF00 = (push_bit 8 (mask 8) OR push_bit 24 (mask 8) :: u32)"
  by (simp_all add: mask_eq_exp_minus_1)

lemma byte_swap: "(rol (le32 b i) 24 AND 0xFF00FF00) OR (rol (le32 b i) 8 AND 0x00FF00FF) = be32 b i" (is "?l = ?r")
proof (rule bit_word_eqI)
  fix n
  assume "n < LENGTH(32)"
  then have "n < 32" by simp
  then consider "n < 8" | "8 \<le> n" "n < 16" | "16 \<le> n" "n < 24" | "24 \<le> n" "n < 32" by linarith
  then show "bit ?l n = bit ?r n"
    unfolding blk0_masks le32_def be32_def rol_def
    by cases (auto simp: bit_simps dest: bit_byte_less)
qed

lemma choose_eq: "(w AND (x XOR y)) XOR y = (w AND x) OR (NOT w AND (y :: u32))"
  by (rule bit_word_eqI) (auto simp: bit_simps)

lemma majority_eq: "((w OR x) AND y) OR (w AND x) = (w AND x) OR (w AND y) OR (x AND (y :: u32))"
  by (rule bit_word_eqI) (auto simp: bit_simps)

text \<open>The array of sixteen words holds the last sixteen words of the schedule.\<close>

definition window :: "u8 list \<Rightarrow> nat \<Rightarrow> u32 list \<Rightarrow> bool" where
  "window m n l \<longleftrightarrow> length l = 16 \<and> (\<forall>t < n. n \<le> t + 16 \<longrightarrow> l ! (t mod 16) = sha1_W m t)
     \<and> (\<forall>j < 16. n \<le> j \<longrightarrow> l ! j = le32 m (4 * j))"

lemma window_blk0: "window m n l \<Longrightarrow> n < 16 \<Longrightarrow> blk0 n l = (sha1_W m n, l[n := sha1_W m n])"
  by (simp add: window_def blk0_def byte_swap sha1_W.simps[of m n] Let_def)

lemma window_blk:
  assumes "window m n l" "16 \<le> n"
  shows "blk n l = (sha1_W m n, l[n mod 16 := sha1_W m n])"
proof -
  have w: "l ! (t mod 16) = sha1_W m t" if "t < n" "n \<le> t + 16" for t using assms(1) that by (simp add: window_def)
  have "n + 13 = n - 3 + 16" "n + 8 = n - 8 + 16" "n + 2 = n - 14 + 16" "n = n - 16 + 16" using assms(2) by simp_all
  then have e: "(n + 13) mod 16 = (n - 3) mod 16" "(n + 8) mod 16 = (n - 8) mod 16" "(n + 2) mod 16 = (n - 14) mod 16"
    "n mod 16 = (n - 16) mod 16" by (metis mod_add_self2)+
  have "l ! ((n + 13) mod 16) = sha1_W m (n - 3)" unfolding e(1) by (rule w) (use assms(2) in simp_all)
  moreover have "l ! ((n + 8) mod 16) = sha1_W m (n - 8)" unfolding e(2) by (rule w) (use assms(2) in simp_all)
  moreover have "l ! ((n + 2) mod 16) = sha1_W m (n - 14)" unfolding e(3) by (rule w) (use assms(2) in simp_all)
  moreover have "l ! (n mod 16) = sha1_W m (n - 16)" unfolding e(4) by (rule w) (use assms(2) in simp_all)
  ultimately show ?thesis using assms(2) by (simp only: blk_def sha1_W.simps[of m n] Let_def) simp
qed

lemma window_step:
  assumes "window m n l"
  shows "window m (Suc n) (l[n mod 16 := sha1_W m n])"
proof -
  have "l[n mod 16 := sha1_W m n] ! (t mod 16) = sha1_W m t" if "t < Suc n" "Suc n \<le> t + 16" for t
  proof (cases "t = n")
    case True
    then show ?thesis using assms by (simp add: window_def)
  next
    case False
    have "t mod 16 \<noteq> n mod 16"
    proof
      assume "t mod 16 = n mod 16"
      then have "16 dvd n - t" using that(1) mod_eq_dvd_iff_nat[of t n 16] by simp
      then show False using False that by (auto dest: dvd_imp_le)
    qed
    with False that assms show ?thesis by (simp add: window_def)
  qed
  with assms show ?thesis by (simp add: window_def)
qed

lemma R_round:
  assumes "window m n l"
  shows "sha_R n (H, l) = (sha1_round m n H, l[n mod 16 := sha1_W m n])"
  using window_blk0[OF assms] window_blk[OF assms]
  by (cases H) (simp add: sha_R_def sha1_round_def sha1_f_def sha1_k_def choose_eq majority_eq Let_def add_ac)

lemma fold_R:
  "\<exists>l. fold sha_R [0..<n] (H, map (\<lambda>i. le32 m (4 * i)) [0..<16]) = (fold (sha1_round m) [0..<n] H, l) \<and> window m n l"
proof (induction n)
  case 0
  show ?case by (simp add: window_def)
next
  case (Suc n)
  then obtain l where l: "fold sha_R [0..<n] (H, map (\<lambda>i. le32 m (4 * i)) [0..<16]) = (fold (sha1_round m) [0..<n] H, l)"
    "window m n l" by blast
  from window_step[OF l(2)] show ?case by (auto simp: l(1) R_round[OF l(2)] simp del: upt_Suc simp: upt_Suc_append)
qed

lemma Transform_block: "SHA1_Transform H m = sha1_block H m"
  using fold_R[of 80 H m] by (auto simp: SHA1_Transform_def sha1_block_def)

section \<open>The context represents the bytes given to it\<close>

lemma blocks_small: "length data < 64 \<Longrightarrow> sha1_blocks H data = H"
  by (simp add: sha1_blocks.simps)

lemma blocks_append: "64 dvd length a \<Longrightarrow> sha1_blocks H (a @ b) = sha1_blocks (sha1_blocks H a) b"
proof (induction H a rule: sha1_blocks.induct)
  case (1 H a)
  show ?case
  proof (cases "length a \<ge> 64")
    case True
    with 1(2) have "64 dvd length (drop 64 a)" by simp
    from 1(1)[OF True this] True show ?thesis
      by (subst sha1_blocks.simps, subst (2) sha1_blocks.simps) simp
  next
    case False
    with 1(2) have "a = []" by (cases a) (auto dest: dvd_imp_le)
    then show ?thesis by (simp add: blocks_small)
  qed
qed

lemma update_loop_blocks:
  "\<exists>w r. data = w @ r \<and> 64 dvd length w \<and> length r < 64 \<and> update_loop s data = (sha1_blocks s w, r)"
proof (induction s data rule: update_loop.induct)
  case (1 s data)
  show ?case
  proof (cases "length data \<ge> 64")
    case True
    from 1[OF True] obtain w r where wr: "drop 64 data = w @ r" "64 dvd length w" "length r < 64"
      "update_loop (SHA1_Transform s (take 64 data)) (drop 64 data) = (sha1_blocks (SHA1_Transform s (take 64 data)) w, r)"
      by blast
    have "sha1_blocks s (take 64 data @ w) = sha1_blocks (sha1_blocks s (take 64 data)) w"
      by (rule blocks_append) (use True in simp)
    also have "sha1_blocks s (take 64 data) = SHA1_Transform s (take 64 data)"
      using True by (simp add: sha1_blocks.simps[of s] blocks_small Transform_block)
    finally have "update_loop s data = (sha1_blocks s (take 64 data @ w), r)"
      using True wr(4) by (simp add: update_loop.simps[of s data])
    moreover have "data = (take 64 data @ w) @ r" using wr(1) by (metis append.assoc append_take_drop_id)
    moreover have "64 dvd length (take 64 data @ w)" using True wr(2) by simp
    ultimately show ?thesis using wr(3) by blast
  next
    case False
    then have "data = [] @ data \<and> 64 dvd length ([] :: u8 list) \<and> length data < 64 \<and> update_loop s data = (sha1_blocks s [], data)"
      by (simp add: update_loop.simps[of s data] blocks_small)
    then show ?thesis by blast
  qed
qed

definition H0 :: sha_words where
  "H0 = (0x67452301, 0xEFCDAB89, 0x98BADCFE, 0x10325476, 0xC3D2E1F0)"

definition count_val :: "u32 \<times> u32 \<Rightarrow> nat" where
  "count_val = (\<lambda>(c0, c1). unat c0 + 2 ^ 32 * unat c1)"

definition ctx_rep :: "SHA1_CTX \<Rightarrow> u8 list \<Rightarrow> bool" where
  "ctx_rep ctx msg \<longleftrightarrow> length (sha_buffer ctx) = 64 \<and> count_val (count0 ctx, count1 ctx) = 8 * length msg mod 2 ^ 64
     \<and> (\<exists>w r. msg = w @ r \<and> 64 dvd length w \<and> length r < 64 \<and> sha_state ctx = sha1_blocks H0 w
          \<and> take (length r) (sha_buffer ctx) = r)"

lemma ctx_rep_init: "length junk = 64 \<Longrightarrow> ctx_rep (sat_SHA1_Init junk) []"
  by (auto simp: ctx_rep_def sat_SHA1_Init_def count_val_def blocks_small H0_def)

lemma ctx_rep_state:
  assumes "ctx_rep ctx msg"
  shows "sha_state ctx = sha1_blocks H0 msg"
proof -
  obtain w r where "msg = w @ r" "64 dvd length w" "length r < 64" "sha_state ctx = sha1_blocks H0 w"
    using assms by (auto simp: ctx_rep_def)
  then show ?thesis by (simp add: blocks_append blocks_small)
qed

lemma unat_and_63: "unat ((x :: u32) AND 63) = unat x mod 64"
proof -
  have "x AND 63 = take_bit 6 x" by (simp only: take_bit_eq_mask) (simp add: mask_eq_exp_minus_1)
  then have "unat (x AND 63) = take_bit 6 (unat x)" by (simp only: unsigned_take_bit_eq)
  then show ?thesis by (simp add: take_bit_eq_mod)
qed

lemma buffer_index:
  assumes "count_val (c0, c1) = 8 * n mod 2 ^ 64"
  shows "unat (drop_bit 3 c0 AND 63) = n mod 64"
proof -
  have "unat c0 < 2 ^ 32" using unsigned_less[of c0, where 'a = nat] by simp
  then have "unat c0 = count_val (c0, c1) mod 2 ^ 32" by (simp add: count_val_def)
  also have "\<dots> = 8 * n mod 2 ^ 32" using assms mod_mod_cancel[of "2 ^ 32" "2 ^ 64" "8 * n"] by (simp add: le_imp_power_dvd)
  also have "\<dots> = 8 * (n mod 2 ^ 29)" by (simp add: mult_mod_right)
  finally have "unat (drop_bit 3 c0) = n mod 2 ^ 29" unfolding unat_drop_bit_eq by (simp add: drop_bit_eq_div)
  then have "unat (drop_bit 3 c0 AND 63) = n mod 2 ^ 29 mod 64" by (simp only: unat_and_63)
  also have "\<dots> = n mod 64" by (rule mod_mod_cancel) simp
  finally show ?thesis .
qed

lemma add_count_val:
  assumes "n < 2 ^ 29"
  shows "count_val (add_count n (c0, c1)) = (count_val (c0, c1) + 8 * n) mod 2 ^ 64"
proof -
  define len where "len = (of_nat n :: u64)"
  define w where "w = (ucast (push_bit 3 len) :: u32)"
  define c0' where "c0' = c0 + w"
  have len: "unat len = n" using assms by (simp add: len_def unat_of_nat)
  have p: "unat (push_bit 3 len) = 8 * n"
  proof -
    have "push_bit 3 len = len * 8" by (simp add: push_bit_eq_mult)
    then have "unat (push_bit 3 len) = n * 8 mod 2 ^ 64" by (simp only: unat_word_ariths len) simp
    then show ?thesis using assms by simp
  qed
  have w: "unat w = 8 * n" using assms p by (simp add: w_def unsigned_ucast_eq take_bit_eq_mod)
  have "unat (drop_bit 29 len) = 0" unfolding unat_drop_bit_eq using assms len by (simp add: drop_bit_eq_div)
  then have d: "drop_bit 29 len = 0" by (simp only: unat_eq_zero)
  have carry: "(ucast c0' :: u64) < push_bit 3 len \<longleftrightarrow> unat c0' < 8 * n"
    using unsigned_less[of c0', where 'a = nat] by (simp only: word_less_nat_alt p) (simp add: unsigned_ucast_eq take_bit_eq_mod)
  have b: "unat c0 < 2 ^ 32" "unat c1 < 2 ^ 32"
    using unsigned_less[of c0, where 'a = nat] unsigned_less[of c1, where 'a = nat] by simp_all
  have c0': "unat c0' = (unat c0 + 8 * n) mod 2 ^ 32" by (simp add: c0'_def unat_word_ariths w)
  have r: "add_count n (c0, c1) = (c0', if unat c0' < 8 * n then c1 + 1 else c1)"
    using d carry by (simp add: add_count_def Let_def len_def[symmetric] w_def[symmetric] c0'_def[symmetric])
  show ?thesis
  proof (cases "unat c0 + 8 * n < 2 ^ 32")
    case True
    with b show ?thesis by (simp add: r c0' count_val_def)
  next
    case False
    then have e: "unat c0' = unat c0 + 8 * n - 2 ^ 32" using b(1) assms by (simp add: c0' mod_if)
    then have l: "unat c0' < 8 * n" using False b(1) by linarith
    have s: "unat (c1 + 1) = (if unat c1 + 1 = 2 ^ 32 then 0 else unat c1 + 1)" using b(2) by (simp add: unat_word_ariths)
    show ?thesis
    proof (cases "unat c1 + 1 = 2 ^ 32")
      case True
      with False e l s b assms show ?thesis by (simp add: r count_val_def mod_if)
    next
      case no: False
      with False e l s b assms show ?thesis by (simp add: r count_val_def)
    qed
  qed
qed

lemma blit_some: "j + length bytes \<le> length buf \<Longrightarrow> blit buf j bytes = Some (take j buf @ bytes @ drop (j + length bytes) buf)"
  by (simp add: blit_def)

lemma update_rep:
  assumes rep: "ctx_rep ctx msg" and n: "length data < 2 ^ 29"
  shows "\<exists>ctx'. sat_SHA1_Update ctx data = Some ctx' \<and> ctx_rep ctx' (msg @ data)"
proof -
  obtain w r where buf: "length (sha_buffer ctx) = 64" and cnt: "count_val (count0 ctx, count1 ctx) = 8 * length msg mod 2 ^ 64"
    and m: "msg = w @ r" "64 dvd length w" "length r < 64" "sha_state ctx = sha1_blocks H0 w" "take (length r) (sha_buffer ctx) = r"
    using rep by (auto simp: ctx_rep_def)
  obtain q where "length w = 64 * q" using m(2) by blast
  then have j: "unat (drop_bit 3 (count0 ctx) AND 63) = length r" using buffer_index[OF cnt] m(1,3) by simp
  obtain c0 c1 where c: "add_count (length data) (count0 ctx, count1 ctx) = (c0, c1)" by fastforce
  have cv: "count_val (c0, c1) = 8 * length (msg @ data) mod 2 ^ 64"
    using add_count_val[OF n, of "count0 ctx" "count1 ctx"] by (simp only: c cnt mod_add_left_eq) simp
  show ?thesis
  proof (cases "length r + length data > 63")
    case True
    define d1 where "d1 = take (64 - length r) data"
    define d2 where "d2 = drop (64 - length r) data"
    have d: "data = d1 @ d2" "length d1 = 64 - length r" using True by (simp_all add: d1_def d2_def)
    have b1: "blit (sha_buffer ctx) (length r) d1 = Some (r @ d1)" using m(3,5) buf d(2) by (simp add: blit_some)
    obtain w2 r2 where u: "d2 = w2 @ r2" "64 dvd length w2" "length r2 < 64"
      "update_loop (SHA1_Transform (sha_state ctx) (r @ d1)) d2 = (sha1_blocks (SHA1_Transform (sha_state ctx) (r @ d1)) w2, r2)"
      using update_loop_blocks[of d2] by blast
    have b2: "blit (r @ d1) 0 r2 = Some (r2 @ drop (length r2) (r @ d1))" using m(3) d(2) u(3) by (simp add: blit_some)
    have rd: "64 dvd length (r @ d1)" "length (r @ d1) = 64" using m(3) d(2) by simp_all
    have "SHA1_Transform (sha_state ctx) (r @ d1) = sha1_blocks (sha_state ctx) (r @ d1)"
      using rd(2) by (simp only: sha1_blocks.simps[of _ "r @ d1"]) (simp add: Transform_block blocks_small)
    then have st: "sha1_blocks (SHA1_Transform (sha_state ctx) (r @ d1)) w2 = sha1_blocks H0 (w @ (r @ d1) @ w2)"
      by (simp only: m(4) blocks_append[OF m(2)] blocks_append[OF rd(1)])
    have "sat_SHA1_Update ctx data = Some \<lparr> sha_state = sha1_blocks H0 (w @ (r @ d1) @ w2), count0 = c0, count1 = c1,
        sha_buffer = r2 @ drop (length r2) (r @ d1) \<rparr>"
      using True by (simp add: sat_SHA1_Update_def Let_def j c d1_def[symmetric] d2_def[symmetric] b1 b2 u(4) st)
    moreover have "msg @ data = (w @ (r @ d1) @ w2) @ r2" using m(1) d(1) u(1) by simp
    moreover have "64 dvd length (w @ (r @ d1) @ w2)" using m(2) rd u(2) by (simp add: add.assoc[symmetric])
    ultimately show ?thesis using u(3) rd(2) cv unfolding ctx_rep_def by (intro exI conjI) (assumption | simp)+
  next
    case False
    then have "blit (sha_buffer ctx) (length r) data = Some (r @ data @ drop (length r + length data) (sha_buffer ctx))"
      using m(5) buf by (simp add: blit_some)
    then have "sat_SHA1_Update ctx data = Some \<lparr> sha_state = sha1_blocks H0 w, count0 = c0, count1 = c1,
        sha_buffer = r @ data @ drop (length r + length data) (sha_buffer ctx) \<rparr>"
      using False by (simp add: sat_SHA1_Update_def Let_def j c m(4))
    moreover have "msg @ data = w @ (r @ data)" by (simp add: m(1))
    ultimately show ?thesis using False m(2) buf cv unfolding ctx_rep_def by (intro exI conjI) (assumption | simp)+
  qed
qed

lemma count_test: "c AND 504 = 448 \<longleftrightarrow> unat (drop_bit 3 c AND 63) = 56" for c :: u32
proof -
  have m: "504 = (push_bit 3 (mask 6) :: u32)" "63 = (mask 6 :: u32)" by (simp_all add: mask_eq_exp_minus_1)
  have "drop_bit 3 (c AND 504) = drop_bit 3 c AND 63"
    unfolding m by (rule bit_word_eqI) (auto simp: bit_simps)
  moreover have "c AND 504 = push_bit 3 (drop_bit 3 c AND 63)"
    unfolding m
  proof (rule bit_word_eqI)
    fix n
    show "bit (c AND push_bit 3 (mask 6)) n = bit (push_bit 3 (drop_bit 3 c AND mask 6)) n"
      by (cases "n < 3") (auto simp: bit_simps not_less)
  qed
  ultimately have "c AND 504 = 448 \<longleftrightarrow> drop_bit 3 c AND 63 = 56"
    by (auto simp del: drop_bit_and push_bit_and)
  also have "\<dots> \<longleftrightarrow> unat (drop_bit 3 c AND 63) = 56"
  proof
    assume "unat (drop_bit 3 c AND 63) = 56"
    then have "unat (drop_bit 3 c AND 63) = unat (56 :: u32)" by simp
    then show "drop_bit 3 c AND 63 = 56" by (rule unsigned_word_eqI)
  qed simp
  finally show ?thesis .
qed

lemma pad_count: "x < 64 \<Longrightarrow> (120 - x) mod 64 = (if x \<le> 56 then 56 - x else 120 - x :: nat)"
proof (cases "x \<le> 56")
  case True
  then have "120 - x = 56 - x + 64" by simp
  then have "(120 - x) mod 64 = (56 - x) mod 64" by (simp only: mod_add_self2)
  with True show ?thesis by simp
qed simp

text \<open>The padding loop ends, with the zeros of the standard.\<close>

lemma pad_loop_rep:
  "ctx_rep ctx msg \<Longrightarrow> \<exists>ctx'. pad_loop ctx = Some ctx' \<and> ctx_rep ctx' (msg @ replicate ((120 - length msg mod 64) mod 64) 0)"
proof (induction "(120 - length msg mod 64) mod 64" arbitrary: ctx msg)
  case 0
  have x: "length msg mod 64 < 64" by simp
  from 0(1) have "length msg mod 64 = 56" unfolding pad_count[OF x] by (simp split: if_splits)
  then have "pad_loop ctx = Some ctx"
    using 0(2) buffer_index[of "count0 ctx" "count1 ctx" "length msg"]
    by (subst pad_loop.simps) (simp add: count_test ctx_rep_def)
  with 0 show ?case by simp
next
  case (Suc k)
  have ne: "length msg mod 64 \<noteq> 56" using Suc(2) by auto
  have x: "length msg mod 64 < 64" "length (msg @ [0 :: u8]) mod 64 < 64" by simp_all
  have k: "(120 - length (msg @ [0 :: u8]) mod 64) mod 64 = k"
    using Suc(2) ne x(1) unfolding pad_count[OF x(1)] pad_count[OF x(2)] by (auto simp: mod_Suc split: if_splits)
  obtain ctx1 where u: "sat_SHA1_Update ctx [0] = Some ctx1" "ctx_rep ctx1 (msg @ [0])"
    using update_rep[OF Suc(3), of "[0]"] by auto
  from Suc(1)[OF k[symmetric] u(2)] obtain ctx' where p: "pad_loop ctx1 = Some ctx'" "ctx_rep ctx' ((msg @ [0]) @ replicate k 0)"
    unfolding k by blast
  have "pad_loop ctx = Some ctx'"
    using ne u(1) p(1) Suc(3) buffer_index[of "count0 ctx" "count1 ctx" "length msg"]
    by (subst pad_loop.simps) (simp add: count_test ctx_rep_def)
  moreover have "(msg @ [0]) @ replicate k 0 = msg @ replicate ((120 - length msg mod 64) mod 64) 0"
    unfolding Suc(2)[symmetric] by simp
  ultimately show ?case using p(2) by auto
qed

section \<open>The digest\<close>

lemma le_bytes_append: "x < 256 ^ a \<Longrightarrow> le_bytes (a + b) (x + 256 ^ a * y) = le_bytes a x @ le_bytes b y"
proof (induction a arbitrary: x)
  case (Suc a)
  have m: "(x + 256 ^ Suc a * y) mod 256 = x mod 256" "(x + 256 ^ Suc a * y) div 256 = x div 256 + 256 ^ a * y"
    by (simp_all add: mult.assoc)
  have "x div 256 < 256 ^ a" using Suc(2) by (simp add: less_mult_imp_div_less mult.commute)
  from Suc(1)[OF this] show ?case by (simp only: add_Suc le_bytes_Suc m append_Cons)
qed simp

lemma byte_of: "ucast (drop_bit k (x :: u32) AND 255) = (of_nat (unat x div 2 ^ k mod 256) :: u8)"
proof -
  have "unat (ucast (drop_bit k x) :: u8) = unat x div 2 ^ k mod 256"
    by (simp only: unsigned_ucast_eq unat_drop_bit_eq) (simp add: take_bit_eq_mod drop_bit_eq_div)
  then have "(of_nat (unat (ucast (drop_bit k x) :: u8)) :: u8) = of_nat (unat x div 2 ^ k mod 256)" by simp
  then show ?thesis by simp
qed

lemma be32_bytes_val: "be32_bytes x = rev (le_bytes 4 (unat x))"
proof -
  have "[0..<4] = [0, 1, 2, 3 :: nat]" by code_simp
  then show ?thesis by (simp add: be32_bytes_def le_bytes_def byte_of del: ucast_ff)
qed

lemma length_be32_bytes [simp]: "length (be32_bytes x) = 4"
  by (simp add: be32_bytes_def)

lemma finalcount_val:
  assumes "count_val (c0, c1) = v"
  shows "be32_bytes c1 @ be32_bytes c0 = be_bytes 8 v"
proof -
  have "unat c0 < 256 ^ 4" using unsigned_less[of c0, where 'a = nat] by simp
  from le_bytes_append[OF this, of 4 "unat c1"] show ?thesis
    using assms by (simp add: be_bytes_def be32_bytes_val count_val_def)
qed

lemma zeros_eq: "(120 - Suc n mod 64) mod 64 = (119 - n mod 64) mod (64 :: nat)"
  by (simp add: mod_Suc)

lemma final_rep:
  assumes "ctx_rep ctx msg"
  shows "sat_SHA1_Final ctx = Some (sha1 msg)"
proof -
  obtain ctx1 where c1: "sat_SHA1_Update ctx [0x80] = Some ctx1" "ctx_rep ctx1 (msg @ [0x80])"
    using update_rep[OF assms, of "[0x80]"] by auto
  obtain ctx2 where c2: "pad_loop ctx1 = Some ctx2"
    "ctx_rep ctx2 ((msg @ [0x80]) @ replicate ((119 - length msg mod 64) mod 64) 0)"
    using pad_loop_rep[OF c1(2)] by (auto simp: zeros_eq)
  have f: "be32_bytes (count1 ctx) @ be32_bytes (count0 ctx) = be_bytes 8 (8 * length msg mod 2 ^ 64)"
    by (rule finalcount_val) (use assms in \<open>simp add: ctx_rep_def\<close>)
  obtain ctx3 where c3: "sat_SHA1_Update ctx2 (be_bytes 8 (8 * length msg mod 2 ^ 64)) = Some ctx3"
    "ctx_rep ctx3 (((msg @ [0x80]) @ replicate ((119 - length msg mod 64) mod 64) 0) @ be_bytes 8 (8 * length msg mod 2 ^ 64))"
    using update_rep[OF c2(2), of "be_bytes 8 (8 * length msg mod 2 ^ 64)"] by auto
  have "((msg @ [0x80]) @ replicate ((119 - length msg mod 64) mod 64) 0) @ be_bytes 8 (8 * length msg mod 2 ^ 64)
      = msg @ sha1_padding (length msg)" by (simp add: sha1_padding_def)
  with ctx_rep_state[OF c3(2)] have "state_bytes (sha_state ctx3) = sha1 msg" by (simp add: sha1_def H0_def)
  then show ?thesis unfolding sat_SHA1_Final_def Let_def f by (simp only: c1(1) c2(1) c3(1) bind.bind_lunit)
qed

lemma sha1_rep:
  assumes "length junk = 64" "length msg < 2 ^ 29"
  shows "lsha1 junk msg = Some (sha1 msg)"
  using update_rep[OF ctx_rep_init[OF assms(1)] assms(2)] final_rep by (auto simp: lsha1_def)

lemma length_sha1 [simp]: "length (sha1 msg) = 20"
  by (simp add: sha1_def state_bytes_def split: prod.split)

text \<open>Whole words of the key are xored at once.\<close>

lemma xor_word:
  fixes a b c d :: u8 and x :: u32
  defines "k \<equiv> le32 [a, b, c, d] 0 XOR x"
  shows "ucast k = a XOR ucast x" "ucast (drop_bit 8 k) = b XOR ucast (drop_bit 8 x)"
    "ucast (drop_bit 16 k) = c XOR ucast (drop_bit 16 x)" "ucast (drop_bit 24 k) = d XOR ucast (drop_bit 24 x)"
  unfolding k_def le32_def by (rule bit_word_eqI; auto simp: bit_simps dest: bit_byte_less)+

definition repeats :: "u32 \<Rightarrow> u8 \<Rightarrow> bool" where
  "repeats x v \<longleftrightarrow> ucast x = v \<and> ucast (drop_bit 8 x) = v \<and> ucast (drop_bit 16 x) = v \<and> ucast (drop_bit 24 x) = v"

lemma xor_key_map: "repeats x v \<Longrightarrow> 4 dvd length key \<Longrightarrow> xor_key x key = map (\<lambda>b. b XOR v) key"
proof (induction x key rule: xor_key.induct)
  case (1 x a b c d key)
  have "length (a # b # c # d # key) = length key + 4" by simp
  with 1(3) have "4 dvd length key" by (metis dvd_add_triv_right_iff)
  with 1 have "xor_key x key = map (\<lambda>b. b XOR v) key" by simp
  moreover have "ucast x = v" "ucast (drop_bit 8 x) = v" "ucast (drop_bit 16 x) = v" "ucast (drop_bit 24 x) = v"
    using 1(2) by (simp_all only: repeats_def)
  ultimately show ?case by (simp only: xor_key.simps Let_def xor_word list.map append_Cons append_Nil)
qed (auto dest: dvd_imp_le)

lemma repeats_pads: "repeats 0x5c5c5c5c 0x5c" "repeats (0x5c5c5c5c XOR 0x36363636) 0x6a"
  by (simp_all add: repeats_def)

section \<open>Properties\<close>

text \<open>C32: for every string shorter than half a gigabyte, \<open>lsha1\<close> returns the digest that the SHA-1
  standard defines, whatever the buffer of the new context held; no copy leaves the buffer and the
  padding loop ends.\<close>

theorem sha1_correct:
  assumes "length junk = 64" "length msg < 2 ^ 29"
  shows "lsha1 junk msg = Some (sha1 msg)"
  by (rule sha1_rep[OF assms])

theorem sha1_correct_witness: "lsha1 (replicate 64 170) [97, 98, 99] = Some (sha1 [97, 98, 99])"
  by (rule sha1_correct) simp_all

text \<open>C33: \<open>lhmac_sha1\<close> returns the HMAC of the standard, for keys longer than a block too, although it
  xors the key with both pads in place, one after the other.\<close>

theorem hmac_sha1_correct:
  assumes "length junk = 64" "length key < 2 ^ 29" "length msg < 2 ^ 29"
  shows "lhmac_sha1 junk key msg = Some (hmac_sha1 key msg)"
proof -
  define k where "k = (if length key > 64 then sha1 key else key)"
  define rkey where "rkey = k @ replicate (64 - length k) 0"
  have lk: "length k \<le> 64" by (simp add: k_def)
  have len: "length rkey = 64" using lk by (simp add: rkey_def)
  have b: "blit (replicate 64 0) 0 k = Some rkey" using lk by (simp add: blit_some rkey_def)
  have first: "(if length key > 64
                then do {
                  ctx \<leftarrow> sat_SHA1_Update (sat_SHA1_Init junk) key;
                  digest \<leftarrow> sat_SHA1_Final ctx;
                  blit (replicate 64 0) 0 digest
                }
                else blit (replicate 64 0) 0 key) = Some rkey"
    using b sha1_rep[OF assms(1,2)] by (auto simp: k_def lsha1_def bind_eq_Some_conv)
  define k1 where "k1 = map (\<lambda>b. b XOR 0x5c) rkey"
  define k2 where "k2 = map (\<lambda>b. b XOR 0x36) rkey"
  have l12: "length k1 = 64" "length k2 = 64" by (simp_all add: k1_def k2_def len)
  have x1: "xor_key 0x5c5c5c5c rkey = k1" using len by (simp add: k1_def xor_key_map[OF repeats_pads(1)])
  have "map (\<lambda>b. b XOR 0x6a) k1 = k2" by (simp add: k1_def k2_def xor.assoc)
  then have x2: "xor_key (0x5c5c5c5c XOR 0x36363636) k1 = k2"
    using len xor_key_map[OF repeats_pads(2), of k1] by (simp add: k1_def)
  obtain ctx1 where c1: "sat_SHA1_Update (sat_SHA1_Init junk) k1 = Some ctx1" "ctx_rep ctx1 ([] @ k1)"
    using update_rep[OF ctx_rep_init[OF assms(1)], of k1] l12 by auto
  obtain ctx2 where c2: "sat_SHA1_Update (sat_SHA1_Init junk) k2 = Some ctx2" "ctx_rep ctx2 ([] @ k2)"
    using update_rep[OF ctx_rep_init[OF assms(1)], of k2] l12 by auto
  obtain ctx3 where c3: "sat_SHA1_Update ctx2 msg = Some ctx3" "ctx_rep ctx3 (([] @ k2) @ msg)"
    using update_rep[OF c2(2) assms(3)] by auto
  obtain ctx4 where c4: "sat_SHA1_Update ctx1 (sha1 (k2 @ msg)) = Some ctx4" "ctx_rep ctx4 (([] @ k1) @ sha1 (k2 @ msg))"
    using update_rep[OF c1(2), of "sha1 (k2 @ msg)"] by auto
  have f: "sat_SHA1_Final ctx3 = Some (sha1 (k2 @ msg))" "sat_SHA1_Final ctx4 = Some (sha1 (k1 @ sha1 (k2 @ msg)))"
    using final_rep[OF c3(2)] final_rep[OF c4(2)] by simp_all
  have "lhmac_sha1 junk key msg = Some (sha1 (k1 @ sha1 (k2 @ msg)))"
    unfolding lhmac_sha1_def first bind.bind_lunit Let_def x1 x2 c1(1) c2(1) c3(1) f c4(1) by (rule refl)
  then show ?thesis by (simp add: hmac_sha1_def k1_def k2_def rkey_def k_def Let_def)
qed

theorem hmac_sha1_correct_witness:
  "lhmac_sha1 (replicate 64 0) (replicate 70 7) [1, 2] = Some (hmac_sha1 (replicate 70 7) [1, 2])"
  by (rule hmac_sha1_correct) simp_all

text \<open>From half a gigabyte on the carry is added for every string, since the 32 bit counter is compared
  with the untruncated bit count: the high word of the length is one too large.\<close>

lemma sha1_long_count:
  assumes "2 ^ 29 \<le> n" "n < 2 ^ 61"
  shows "add_count n (0, 0) = (of_nat (8 * n), of_nat (8 * n div 2 ^ 32) + 1)"
proof -
  define len where "len = (of_nat n :: u64)"
  have len: "unat len = n" using assms by (simp add: len_def unat_of_nat)
  have "push_bit 3 len = len * 8" by (simp add: push_bit_eq_mult)
  then have "unat (push_bit 3 len) = n * 8 mod 2 ^ 64" by (simp only: unat_word_ariths len) simp
  then have p: "unat (push_bit 3 len) = 8 * n" using assms by simp
  have u: "ucast w = (of_nat (unat w) :: u32)" for w :: u64 by simp
  have c0: "(ucast (push_bit 3 len) :: u32) = of_nat (8 * n)" by (simp only: u p)
  have "unat (of_nat (8 * n) :: u32) < 2 ^ 32" using unsigned_less[of "of_nat (8 * n) :: u32", where 'a = nat] by simp
  then have "(ucast (of_nat (8 * n) :: u32) :: u64) < push_bit 3 len"
    using assms by (simp only: word_less_nat_alt p) (simp add: unsigned_ucast_eq take_bit_eq_mod del: of_nat_mult)
  moreover have "unat (drop_bit 29 len) = 8 * n div 2 ^ 32" unfolding unat_drop_bit_eq len by (simp add: drop_bit_eq_div)
  then have "(ucast (drop_bit 29 len) :: u32) = of_nat (8 * n div 2 ^ 32)" by (simp only: u)
  ultimately show ?thesis
    unfolding add_count_def Let_def split_conv len_def[symmetric] c0 add_0_left by (simp only: if_True add.commute)
qed

end
