(* ===== verification/Cluster.thy ===== *)
theory Cluster
  imports Netpack "HOL-Library.Multiset"
begin

text \<open>
  The messages between the nodes of a cluster, \<open>lualib-src/lua-cluster.c\<close>: requests and responses,
  split into parts of 32 kilobytes when they are long.  Packing writes each packet with the length in
  front that the packet splitter of \<open>Netpack\<close> takes off again.  A message is given as its bytes; the
  temporary buffer holds \<open>TEMP_LENGTH\<close> bytes and a packet that does not fit into it is \<open>Bad\<close>, as is a
  failed \<open>assert\<close>.
\<close>

section \<open>Packing\<close>

definition TEMP_LENGTH :: nat where [cdefs]: "TEMP_LENGTH = 0x8200"
definition MULTI_PART :: nat where [cdefs]: "MULTI_PART = 0x8000"

definition fill_uint32 :: "u32 \<Rightarrow> u8 list" where
  "fill_uint32 n = [ucast (n AND 0xff), ucast (drop_bit 8 n AND 0xff), ucast (drop_bit 16 n AND 0xff),
     ucast (drop_bit 24 n AND 0xff)]"

text \<open>\<open>fill_header(L, buf, sz)\<close> followed by the other stores into \<open>buf\<close> and \<open>lua_pushlstring\<close>: \<open>body\<close> is
  what the code stores after the header, \<open>sz\<close> the size it announces.\<close>

definition cl_fill_header :: "nat \<Rightarrow> u8 list \<Rightarrow> u8 list lr" where
  "cl_fill_header sz body =
     (if \<not> sz < 0x10000 then Bad
      else if 2 + length body > TEMP_LENGTH then Bad
      else Ret ([of_nat (drop_bit 8 sz AND 0xff), of_nat (sz AND 0xff)] @ body))"

text \<open>The first argument of \<open>packrequest\<close>: a number, with the integer \<open>lua_tointeger\<close> gives, a string,
  or another value.\<close>

datatype cl_addr = AddrNumber int | AddrString "u8 list" | AddrOther

definition multi_count :: "u8 list \<Rightarrow> nat" where
  "multi_count msg = (length msg - 1) div MULTI_PART + 1"

text \<open>Both return the packet and the number of parts that follow.\<close>

definition packreq_number :: "int \<Rightarrow> int \<Rightarrow> u8 list \<Rightarrow> (u8 list \<times> nat) lr" where
  "packreq_number a session msg =
     (let addr = of_int a :: u32; sz = length msg
      in if sz < MULTI_PART then
           lbind (cl_fill_header (sz + 9) (0 # fill_uint32 addr @ fill_uint32 (of_int session) @ msg)) (\<lambda>p. Ret (p, 0))
         else
           lbind (cl_fill_header 13 (1 # fill_uint32 addr @ fill_uint32 (of_int session) @ fill_uint32 (of_nat sz)))
             (\<lambda>p. Ret (p, multi_count msg)))"

definition packreq_string :: "u8 list \<Rightarrow> int \<Rightarrow> u8 list \<Rightarrow> (u8 list \<times> nat) lr" where
  "packreq_string name session msg =
     (let namelen = length name; sz = length msg
      in if namelen < 1 \<or> namelen > 255 then Raise
         else if sz < MULTI_PART then
           lbind (cl_fill_header (sz + 6 + namelen)
             (0x80 # of_nat namelen # name @ fill_uint32 (of_int session) @ msg)) (\<lambda>p. Ret (p, 0))
         else
           lbind (cl_fill_header (10 + namelen)
             (0x81 # of_nat namelen # name @ fill_uint32 (of_int session) @ fill_uint32 (of_nat sz)))
             (\<lambda>p. Ret (p, multi_count msg)))"

fun packreq_multi :: "int \<Rightarrow> nat \<Rightarrow> u8 list \<Rightarrow> u8 list list lr" where
  "packreq_multi session 0 msg = Ret []"
| "packreq_multi session (Suc part) msg =
     (let (s, tag) = (if length msg > MULTI_PART then (MULTI_PART, 2) else (length msg, 3))
      in lbind (cl_fill_header (s + 5) (tag # fill_uint32 (of_int session) @ take s msg)) (\<lambda>p.
         lbind (packreq_multi session part (drop s msg)) (\<lambda>ps. Ret (p # ps))))"

text \<open>\<open>if (++session < 0) session = 1;\<close> with the wrap-around of the machine.\<close>

definition next_session :: "int \<Rightarrow> int" where
  "next_session session = (let s = to_signed 32 (of_signed 32 (session + 1)) in if s < 0 then 1 else s)"

text \<open>The results of \<open>packrequest\<close>: the request, the next session and the parts.  \<open>msg\<close> is \<open>None\<close> when the
  third argument is not a userdata; the size is converted to 32 bits, the session to an \<open>int\<close>.\<close>

definition lpackrequest :: "cl_addr \<Rightarrow> int \<Rightarrow> u8 list option \<Rightarrow> (u8 list \<times> int \<times> u8 list list) lr" where
  "lpackrequest addr session0 m =
     (case m of
        None \<Rightarrow> Raise
      | Some m \<Rightarrow>
          (let msg = take (length m mod 2 ^ 32) m; session = to_signed 32 (of_signed 32 session0)
           in if session \<le> 0 then Raise
              else
                lbind (case addr of
                         AddrNumber a \<Rightarrow> packreq_number a session msg
                       | AddrString name \<Rightarrow> packreq_string name session msg
                       | AddrOther \<Rightarrow> Raise) (\<lambda>(p, multipak).
                if multipak \<noteq> 0 then
                  lbind (packreq_multi session (multi_count msg) msg) (\<lambda>ps. Ret (p, next_session session, ps))
                else Ret (p, next_session session, []))))"

section \<open>Unpacking\<close>

definition unpack_uint32 :: "u8 list \<Rightarrow> nat \<Rightarrow> u32" where
  "unpack_uint32 buf i = ucast (buf ! i) OR push_bit 8 (ucast (buf ! (i + 1))) OR push_bit 16 (ucast (buf ! (i + 2)))
     OR push_bit 24 (ucast (buf ! (i + 3)))"

datatype cl_dest = DestNumber u32 | DestName "u8 list" | NoDest
datatype cl_payload = Message "u8 list" | Size u32

text \<open>What \<open>unpackrequest\<close> returns: address, session, message or size, and the flag when there is one.\<close>

type_synonym cl_request = "cl_dest \<times> u32 \<times> cl_payload \<times> bool option"

definition unpackreq_number :: "u8 list \<Rightarrow> int \<Rightarrow> cl_request lr" where
  "unpackreq_number buf sz =
     (if sz < 9 then Raise
      else Ret (DestNumber (unpack_uint32 buf 1), unpack_uint32 buf 5, Message (take (nat (sz - 9)) (drop 9 buf)), None))"

definition unpackmreq_number :: "u8 list \<Rightarrow> int \<Rightarrow> cl_request lr" where
  "unpackmreq_number buf sz =
     (if sz \<noteq> 13 then Raise
      else Ret (DestNumber (unpack_uint32 buf 1), unpack_uint32 buf 5, Size (unpack_uint32 buf 9), Some True))"

definition unpackmreq_part :: "u8 list \<Rightarrow> int \<Rightarrow> cl_request lr" where
  "unpackmreq_part buf sz =
     (if sz < 5 then Raise
      else Ret (NoDest, unpack_uint32 buf 1, Message (take (nat (sz - 5)) (drop 5 buf)), Some (buf ! 0 = 2)))"

definition unpackreq_string :: "u8 list \<Rightarrow> int \<Rightarrow> cl_request lr" where
  "unpackreq_string buf sz =
     (if sz < 2 then Raise
      else let namesz = unat (buf ! 1)
           in if sz < int (namesz + 6) then Raise
              else Ret (DestName (take namesz (drop 2 buf)), unpack_uint32 buf (namesz + 2),
                        Message (take (nat sz - namesz - 6) (drop (2 + namesz + 4) buf)), None))"

definition unpackmreq_string :: "u8 list \<Rightarrow> int \<Rightarrow> cl_request lr" where
  "unpackmreq_string buf sz =
     (if sz < 2 then Raise
      else let namesz = unat (buf ! 1)
           in if sz < int (namesz + 10) then Raise
              else Ret (DestName (take namesz (drop 2 buf)), unpack_uint32 buf (namesz + 2),
                        Size (unpack_uint32 buf (namesz + 6)), Some True))"

text \<open>A Lua string ends in a zero byte that its length does not count: the first byte of the empty
  string is 0.\<close>

definition lunpackrequest :: "u8 list \<Rightarrow> cl_request lr" where
  "lunpackrequest msg =
     (let sz = to_signed 32 (length msg mod 2 ^ 32); t = (case msg of [] \<Rightarrow> 0 | b # _ \<Rightarrow> b)
      in if t = 0 then unpackreq_number msg sz
         else if t = 1 then unpackmreq_number msg sz
         else if t = 2 \<or> t = 3 then unpackmreq_part msg sz
         else if t = 0x80 then unpackreq_string msg sz
         else if t = 0x81 then unpackmreq_string msg sz
         else Raise)"

section \<open>Responses\<close>

fun packresp_multi :: "u32 \<Rightarrow> nat \<Rightarrow> u8 list \<Rightarrow> u8 list list lr" where
  "packresp_multi session 0 msg = Ret []"
| "packresp_multi session (Suc part) msg =
     (let (s, tag) = (if length msg > MULTI_PART then (MULTI_PART, 3) else (length msg, 4))
      in lbind (cl_fill_header (s + 5) (fill_uint32 session @ tag # take s msg)) (\<lambda>p.
         lbind (packresp_multi session part (drop s msg)) (\<lambda>ps. Ret (p # ps))))"

text \<open>The result is one string or a table of strings.\<close>

definition lpackresponse :: "int \<Rightarrow> bool \<Rightarrow> u8 list \<Rightarrow> (u8 list + u8 list list) lr" where
  "lpackresponse s ok msg0 =
     (let session = of_int s :: u32; msg = (if \<not> ok \<and> length msg0 > MULTI_PART then take MULTI_PART msg0 else msg0)
      in if ok \<and> length msg > MULTI_PART then
           lbind (cl_fill_header 9 (fill_uint32 session @ 2 # fill_uint32 (of_nat (length msg)))) (\<lambda>p.
           lbind (packresp_multi session (multi_count msg) msg) (\<lambda>ps. Ret (Inr (p # ps))))
         else lbind (cl_fill_header (length msg + 5) (fill_uint32 session @ (if ok then 1 else 0) # msg)) (\<lambda>p. Ret (Inl p)))"

text \<open>\<open>None\<close>: no results.\<close>

definition lunpackresponse :: "u8 list \<Rightarrow> (u32 \<times> bool \<times> cl_payload \<times> bool option) option" where
  "lunpackresponse buf =
     (if length buf < 5 then None
      else let session = unpack_uint32 buf 0; t = buf ! 4
           in if t = 0 then Some (session, False, Message (drop 5 buf), None)
              else if t = 1 \<or> t = 4 then Some (session, True, Message (drop 5 buf), None)
              else if t = 2 then
                (if length buf \<noteq> 9 then None else Some (session, True, Size (unpack_uint32 buf 5), Some True))
              else if t = 3 then Some (session, True, Message (drop 5 buf), Some True)
              else None)"

section \<open>Joining the parts\<close>

datatype cl_item = ItemNumber int | ItemString "u8 list" | ItemOther

fun concat_loop :: "nat \<Rightarrow> u8 list \<Rightarrow> cl_item list \<Rightarrow> u8 list option" where
  "concat_loop sz buff (ItemString str # items) =
     (if length str + length buff > sz then None else concat_loop sz (buff @ str) items)"
| "concat_loop sz buff items = (if length buff \<noteq> sz then None else Some buff)"

text \<open>The argument: \<open>None\<close> when it is not a table.  The size is an \<open>int\<close>; \<open>skynet_malloc\<close> of a negative
  one asks for almost all of the address space and stops the process.\<close>

definition lconcat :: "cl_item list option \<Rightarrow> u8 list option lr" where
  "lconcat tbl =
     (case tbl of
        Some (ItemNumber n # items) \<Rightarrow>
          (let sz = to_signed 32 (of_signed 32 n)
           in if sz < 0 then Bad else Ret (concat_loop (nat sz) [] items))
      | _ \<Rightarrow> Ret None)"

section \<open>The receiving service\<close>

text \<open>\<open>command.socket\<close> of \<open>service/clusterd.lua\<close> for the data of a connection, up to the call of the
  service: \<open>large_request\<close> collects the parts by session.  The event is a complete request, or one
  whose parts do not fit together (\<open>None\<close>).\<close>

type_synonym large_request = "u32 \<rightharpoonup> cl_dest \<times> cl_item list"
type_synonym cl_event = "(cl_dest \<times> u32 \<times> u8 list option) option"

definition payload_item :: "cl_payload \<Rightarrow> cl_item" where
  "payload_item p = (case p of Message m \<Rightarrow> ItemString m | Size n \<Rightarrow> ItemNumber (uint n))"

definition socket_data :: "large_request \<Rightarrow> u8 list \<Rightarrow> (large_request \<times> cl_event) lr" where
  "socket_data L m = lbind (lunpackrequest m) (\<lambda>(addr, session, msg, padding).
     if padding = Some True then
       (let (a, items) = (case L session of Some req \<Rightarrow> req | None \<Rightarrow> (addr, []))
        in Ret (L(session \<mapsto> (a, items @ [payload_item msg])), None))
     else
       (case L session of
          Some (a, items) \<Rightarrow>
            lbind (lconcat (Some (items @ [payload_item msg]))) (\<lambda>r. Ret (L(session := None), Some (a, session, r)))
        | None \<Rightarrow> Ret (L, Some (addr, session, case msg of Message m \<Rightarrow> Some m | Size n \<Rightarrow> None))))"

fun socket_datas :: "large_request \<Rightarrow> u8 list list \<Rightarrow> (large_request \<times> cl_event list) lr" where
  "socket_datas L [] = Ret (L, [])"
| "socket_datas L (m # ms) = lbind (socket_data L m) (\<lambda>(L1, e). lbind (socket_datas L1 ms) (\<lambda>(L2, es). Ret (L2, e # es)))"

text \<open>The end of a connection.\<close>

definition socket_closed :: "large_request \<Rightarrow> large_request" where
  "socket_closed L = Map.empty"

section \<open>Packets\<close>

definition packet :: "u8 list \<Rightarrow> u8 list" where
  "packet body = write_size (length body) @ body"

lemma fill_header_packet:
  "sz = length body \<Longrightarrow> length body + 2 \<le> TEMP_LENGTH \<Longrightarrow> cl_fill_header sz body = Ret (packet body)"
  by (simp add: cl_fill_header_def packet_def write_size_def cdefs)

lemma length_fill [simp]: "length (fill_uint32 n) = 4"
  by (simp add: fill_uint32_def)

lemma unpack_fill: "length pre = i \<Longrightarrow> unpack_uint32 (pre @ fill_uint32 n @ post) i = n"
proof -
  assume "length pre = i"
  then have "unpack_uint32 (pre @ fill_uint32 n @ post) i = unpack_uint32 (fill_uint32 n) 0"
    by (simp add: unpack_uint32_def nth_append fill_uint32_def)
  also have "\<dots> = n" using join_bytes[of n] by (simp add: unpack_uint32_def fill_uint32_def)
  finally show ?thesis .
qed

lemma to_signed_small: "n < 2 ^ 31 \<Longrightarrow> to_signed 32 n = int n"
  by (simp add: to_signed_def)

lemma unpack_number:
  assumes "length msg < 2 ^ 30"
  shows "lunpackrequest (0 # fill_uint32 a @ fill_uint32 s @ msg) = Ret (DestNumber a, s, Message msg, None)"
proof -
  let ?b = "0 # fill_uint32 a @ fill_uint32 s @ msg"
  have "unpack_uint32 ?b 1 = a" using unpack_fill[of "[0]" 1 a "fill_uint32 s @ msg"] by simp
  moreover have "unpack_uint32 ?b 5 = s" using unpack_fill[of "0 # fill_uint32 a" 5 s msg] by simp
  moreover have "drop 9 ?b = msg" by (simp add: drop_Cons' numeral_eq_Suc fill_uint32_def)
  ultimately show ?thesis using assms by (simp add: lunpackrequest_def unpackreq_number_def to_signed_small)
qed

lemma unpack_mnumber:
  "lunpackrequest (1 # fill_uint32 a @ fill_uint32 s @ fill_uint32 n) = Ret (DestNumber a, s, Size n, Some True)"
proof -
  let ?b = "1 # fill_uint32 a @ fill_uint32 s @ fill_uint32 n"
  have "unpack_uint32 ?b 1 = a" using unpack_fill[of "[1]" 1 a "fill_uint32 s @ fill_uint32 n"] by simp
  moreover have "unpack_uint32 ?b 5 = s" using unpack_fill[of "1 # fill_uint32 a" 5 s "fill_uint32 n"] by simp
  moreover have "unpack_uint32 ?b 9 = n" using unpack_fill[of "1 # fill_uint32 a @ fill_uint32 s" 9 n "[]"] by simp
  ultimately show ?thesis by (simp add: lunpackrequest_def unpackmreq_number_def to_signed_small)
qed

lemma unpack_part:
  assumes "length msg < 2 ^ 30" "t = 2 \<or> t = 3"
  shows "lunpackrequest (t # fill_uint32 s @ msg) = Ret (NoDest, s, Message msg, Some (t = 2))"
proof -
  have "unpack_uint32 (t # fill_uint32 s @ msg) 1 = s" using unpack_fill[of "[t]" 1 s msg] by simp
  then show ?thesis using assms by (auto simp: lunpackrequest_def unpackmreq_part_def to_signed_small)
qed

lemma unpack_string:
  assumes "length msg < 2 ^ 30" "length name < 256"
  shows "lunpackrequest (0x80 # of_nat (length name) # name @ fill_uint32 s @ msg) = Ret (DestName name, s, Message msg, None)"
proof -
  let ?b = "0x80 # of_nat (length name) # name @ fill_uint32 s @ msg"
  have n: "unat (of_nat (length name) :: u8) = length name" using assms(2) by (simp add: unat_of_nat)
  have "unpack_uint32 ?b (length name + 2) = s"
    using unpack_fill[of "0x80 # of_nat (length name) # name" "length name + 2" s msg] by simp
  moreover have "drop (6 + length name) ?b = msg"
    using append_eq_conv_conj[of "0x80 # of_nat (length name) # name @ fill_uint32 s" msg ?b] by simp
  ultimately show ?thesis using assms n by (simp add: lunpackrequest_def unpackreq_string_def to_signed_small Let_def)
qed

lemma unpack_mstring:
  assumes "length name < 256"
  shows "lunpackrequest (0x81 # of_nat (length name) # name @ fill_uint32 s @ fill_uint32 n) = Ret (DestName name, s, Size n, Some True)"
proof -
  let ?b = "0x81 # of_nat (length name) # name @ fill_uint32 s @ fill_uint32 n"
  have l: "unat (of_nat (length name) :: u8) = length name" using assms by (simp add: unat_of_nat)
  have "unpack_uint32 ?b (length name + 2) = s"
    using unpack_fill[of "0x81 # of_nat (length name) # name" "length name + 2" s "fill_uint32 n"] by simp
  moreover have "unpack_uint32 ?b (length name + 6) = n"
    using unpack_fill[of "0x81 # of_nat (length name) # name @ fill_uint32 s" "length name + 6" n "[]"] by simp
  ultimately show ?thesis using assms l by (simp add: lunpackrequest_def unpackmreq_string_def to_signed_small Let_def)
qed

section \<open>Splitting and joining\<close>

lemma multi_count_step:
  assumes "length msg > MULTI_PART"
  shows "multi_count msg = Suc (multi_count (drop MULTI_PART msg))"
proof -
  have "length msg - 1 = length (drop MULTI_PART msg) - 1 + MULTI_PART" using assms by (simp add: cdefs)
  moreover have "(n + MULTI_PART) div MULTI_PART = Suc (n div MULTI_PART)" for n
    using div_add_self2[of MULTI_PART n] by (simp add: cdefs)
  ultimately show ?thesis by (simp only: multi_count_def Suc_eq_plus1)
qed

lemma part_pos: "0 < MULTI_PART"
  by (simp add: cdefs)

lemma multi_count_last: "length msg \<le> MULTI_PART \<Longrightarrow> multi_count msg = 1"
  by (simp add: multi_count_def cdefs)

text \<open>A packed list of parts: all but the last are marked to be continued.\<close>

definition parts_of :: "u32 \<Rightarrow> u8 list list \<Rightarrow> u8 list list \<Rightarrow> bool" where
  "parts_of s bodies chunks \<longleftrightarrow> chunks \<noteq> [] \<and> list_all (\<lambda>b. length b < 65536) bodies
     \<and> map lunpackrequest bodies = map (\<lambda>c. Ret (NoDest, s, Message c, Some True)) (butlast chunks)
         @ [Ret (NoDest, s, Message (last chunks), Some False)]"

lemma packreq_multi_parts:
  "\<exists>bodies chunks. packreq_multi session (multi_count msg) msg = Ret (map packet bodies) \<and> concat chunks = msg
     \<and> parts_of (of_int session) bodies chunks"
proof (induction "length msg" arbitrary: msg rule: less_induct)
  case less
  let ?s = "of_int session :: u32"
  show ?case
  proof (cases "length msg > MULTI_PART")
    case True
    let ?m = "take MULTI_PART msg"
    have shorter: "length (drop MULTI_PART msg) < length msg" using True part_pos by simp
    obtain bodies chunks where IH: "packreq_multi session (multi_count (drop MULTI_PART msg)) (drop MULTI_PART msg) = Ret (map packet bodies)"
      "concat chunks = drop MULTI_PART msg" "parts_of ?s bodies chunks"
      using less[OF shorter] by blast
    have l: "length ?m = MULTI_PART" using True by simp
    have "lunpackrequest (2 # fill_uint32 ?s @ ?m) = Ret (NoDest, ?s, Message ?m, Some True)"
      using unpack_part[of ?m 2] l by (simp add: cdefs)
    then have "parts_of ?s ((2 # fill_uint32 ?s @ ?m) # bodies) (?m # chunks)"
      using IH(3) l by (auto simp: parts_of_def cdefs)
    moreover have "cl_fill_header (MULTI_PART + 5) (2 # fill_uint32 ?s @ ?m) = Ret (packet (2 # fill_uint32 ?s @ ?m))"
      by (rule fill_header_packet) (use l in \<open>simp_all add: cdefs\<close>)
    then have "packreq_multi session (multi_count msg) msg = Ret (map packet ((2 # fill_uint32 ?s @ ?m) # bodies))"
      unfolding multi_count_step[OF True] using True IH(1) by (simp add: Let_def)
    moreover have "concat (?m # chunks) = msg" using IH(2) by simp
    ultimately show ?thesis by blast
  next
    case False
    have "lunpackrequest (3 # fill_uint32 ?s @ msg) = Ret (NoDest, ?s, Message msg, Some False)"
      using unpack_part[of msg 3] False by (simp add: cdefs)
    then have "parts_of ?s [3 # fill_uint32 ?s @ msg] [msg]" using False by (simp add: parts_of_def cdefs)
    moreover have "cl_fill_header (length msg + 5) (3 # fill_uint32 ?s @ msg) = Ret (packet (3 # fill_uint32 ?s @ msg))"
      by (rule fill_header_packet) (use False in \<open>simp_all add: cdefs\<close>)
    then have "packreq_multi session (multi_count msg) msg = Ret (map packet [3 # fill_uint32 ?s @ msg])"
      using False multi_count_last[of msg] by (simp add: Let_def)
    ultimately show ?thesis by (metis concat.simps append_Nil2)
  qed
qed

lemma concat_loop_join: "concat_loop (length buff + length (concat cs)) buff (map ItemString cs) = Some (buff @ concat cs)"
proof (induction cs arbitrary: buff)
  case (Cons c cs)
  then show ?case using Cons[of "buff @ c"] by (simp add: add.assoc)
qed simp

lemma signed_id: "0 \<le> n \<Longrightarrow> n < 2 ^ 31 \<Longrightarrow> to_signed 32 (of_signed 32 n) = n"
  by (rule to_of_signed) simp_all

lemma lconcat_join:
  assumes "length (concat cs) < 2 ^ 31"
  shows "lconcat (Some (ItemNumber (int (length (concat cs))) # map ItemString cs)) = Ret (Some (concat cs))"
  using concat_loop_join[of "[]" cs] assms by (simp add: lconcat_def signed_id)

text \<open>Parts arriving after their head are collected, and the last one completes the request.\<close>

lemma socket_parts:
  "L s = Some (a, items) \<Longrightarrow> parts_of s bodies chunks \<Longrightarrow>
   lconcat (Some (items @ map ItemString chunks)) = Ret r \<Longrightarrow>
   socket_datas L bodies = Ret (L(s := None), replicate (length chunks - 1) None @ [Some (a, s, r)])"
proof (induction chunks arbitrary: L items bodies)
  case (Cons c chunks)
  show ?case
  proof (cases "chunks = []")
    case True
    then obtain b where "bodies = [b]" "lunpackrequest b = Ret (NoDest, s, Message c, Some False)"
      using Cons.prems(2) by (cases bodies) (auto simp: parts_of_def)
    then show ?thesis using Cons.prems(1,3) True by (auto simp: socket_data_def payload_item_def fun_eq_iff)
  next
    case False
    then obtain b bs where b: "bodies = b # bs" "lunpackrequest b = Ret (NoDest, s, Message c, Some True)" "parts_of s bs chunks"
      using Cons.prems(2) by (cases bodies) (auto simp: parts_of_def)
    let ?L = "L(s \<mapsto> (a, items @ [ItemString c]))"
    have d: "socket_data L b = Ret (?L, None)" using Cons.prems(1) b(2) by (simp add: socket_data_def payload_item_def)
    have "socket_datas ?L bs = Ret (?L(s := None), replicate (length chunks - 1) None @ [Some (a, s, r)])"
      by (rule Cons.IH[where items = "items @ [ItemString c]"]) (use b(3) Cons.prems(3) in simp_all)
    then show ?thesis using d b(1) False by (cases chunks) (auto simp: fun_eq_iff)
  qed
qed (simp add: parts_of_def)

section \<open>Requests over the wire\<close>

fun dest_of :: "cl_addr \<Rightarrow> cl_dest" where
  "dest_of (AddrNumber a) = DestNumber (of_int a)"
| "dest_of (AddrString name) = DestName name"
| "dest_of AddrOther = NoDest"

definition addr_ok :: "cl_addr \<Rightarrow> bool" where
  "addr_ok a = (case a of AddrNumber _ \<Rightarrow> True | AddrString name \<Rightarrow> 1 \<le> length name \<and> length name \<le> 255 | AddrOther \<Rightarrow> False)"

definition small_bodies :: "u8 list list \<Rightarrow> bool" where
  "small_bodies = list_all (\<lambda>b. length b < 65536)"

lemma packets_lpack: "small_bodies bodies \<Longrightarrow> map lpack bodies = map Ret (map packet bodies)"
  by (induction bodies) (simp_all add: small_bodies_def lpack_def packet_def)

text \<open>A short request is one packet, a long one is a head and its parts.\<close>

lemma pack_short:
  assumes "addr_ok addr" "length msg < MULTI_PART"
  shows "\<exists>b. (case addr of AddrNumber a \<Rightarrow> packreq_number a session msg | AddrString name \<Rightarrow> packreq_string name session msg
           | AddrOther \<Rightarrow> Raise) = Ret (packet b, 0)
      \<and> lunpackrequest b = Ret (dest_of addr, of_int session, Message msg, None) \<and> length b < 65536"
proof (cases addr)
  case (AddrNumber a)
  let ?b = "0 # fill_uint32 (of_int a) @ fill_uint32 (of_int session) @ msg"
  have "cl_fill_header (length msg + 9) ?b = Ret (packet ?b)"
    by (rule fill_header_packet) (use assms(2) in \<open>simp_all add: cdefs\<close>)
  then have "packreq_number a session msg = Ret (packet ?b, 0)" using assms(2) by (simp add: packreq_number_def)
  moreover have "lunpackrequest ?b = Ret (DestNumber (of_int a), of_int session, Message msg, None)"
    by (rule unpack_number) (use assms(2) in \<open>simp add: cdefs\<close>)
  moreover have "length ?b < 65536" using assms(2) by (simp add: cdefs)
  ultimately show ?thesis unfolding AddrNumber cl_addr.case dest_of.simps by blast
next
  case (AddrString name)
  then have n: "1 \<le> length name" "length name \<le> 255" "name \<noteq> []" using assms(1) by (auto simp: addr_ok_def)
  let ?b = "0x80 # of_nat (length name) # name @ fill_uint32 (of_int session) @ msg"
  have "cl_fill_header (length msg + 6 + length name) ?b = Ret (packet ?b)"
    by (rule fill_header_packet) (use assms(2) n in \<open>simp_all add: cdefs\<close>)
  then have "packreq_string name session msg = Ret (packet ?b, 0)"
    using assms(2) n by (simp only: packreq_string_def Let_def) (simp add: not_le not_less)
  moreover have "lunpackrequest ?b = Ret (DestName name, of_int session, Message msg, None)"
    by (rule unpack_string) (use assms(2) n in \<open>simp_all add: cdefs\<close>)
  moreover have "length ?b < 65536" using assms(2) n by (simp add: cdefs)
  ultimately show ?thesis unfolding AddrString cl_addr.case dest_of.simps by blast
qed (use assms(1) in \<open>simp add: addr_ok_def\<close>)

lemma pack_long:
  assumes "addr_ok addr" "\<not> length msg < MULTI_PART"
  shows "\<exists>b. (case addr of AddrNumber a \<Rightarrow> packreq_number a session msg | AddrString name \<Rightarrow> packreq_string name session msg
           | AddrOther \<Rightarrow> Raise) = Ret (packet b, multi_count msg)
      \<and> lunpackrequest b = Ret (dest_of addr, of_int session, Size (of_nat (length msg)), Some True) \<and> length b < 65536"
proof (cases addr)
  case (AddrNumber a)
  let ?b = "1 # fill_uint32 (of_int a) @ fill_uint32 (of_int session) @ fill_uint32 (of_nat (length msg))"
  have "cl_fill_header 13 ?b = Ret (packet ?b)" by (rule fill_header_packet) (simp_all add: cdefs)
  then have "packreq_number a session msg = Ret (packet ?b, multi_count msg)" using assms(2) by (simp add: packreq_number_def)
  moreover have "length ?b < 65536" by simp
  ultimately show ?thesis using unpack_mnumber unfolding AddrNumber cl_addr.case dest_of.simps by blast
next
  case (AddrString name)
  then have n: "1 \<le> length name" "length name \<le> 255" "name \<noteq> []" using assms(1) by (auto simp: addr_ok_def)
  let ?b = "0x81 # of_nat (length name) # name @ fill_uint32 (of_int session) @ fill_uint32 (of_nat (length msg))"
  have "cl_fill_header (10 + length name) ?b = Ret (packet ?b)" by (rule fill_header_packet) (use n in \<open>simp_all add: cdefs\<close>)
  then have "packreq_string name session msg = Ret (packet ?b, multi_count msg)"
    using assms(2) n by (simp only: packreq_string_def Let_def) (simp add: not_le not_less)
  moreover have "lunpackrequest ?b = Ret (DestName name, of_int session, Size (of_nat (length msg)), Some True)"
    by (rule unpack_mstring) (use n in simp)
  moreover have "length ?b < 65536" using n by simp
  ultimately show ?thesis unfolding AddrString cl_addr.case dest_of.simps by blast
qed (use assms(1) in \<open>simp add: addr_ok_def\<close>)

lemma request_packets:
  assumes "addr_ok addr" "0 < session" "session < 2 ^ 31" "length msg < 2 ^ 31"
  shows "\<exists>b bodies chunks. lpackrequest addr session (Some msg) = Ret (packet b, next_session session, map packet bodies)
    \<and> small_bodies (b # bodies) \<and> concat chunks = msg \<and>
    (if length msg < MULTI_PART
     then bodies = [] \<and> lunpackrequest b = Ret (dest_of addr, of_int session, Message msg, None)
     else lunpackrequest b = Ret (dest_of addr, of_int session, Size (of_nat (length msg)), Some True)
       \<and> parts_of (of_int session) bodies chunks)"
proof -
  have s: "to_signed 32 (of_signed 32 session) = session" using assms(2,3) by (simp add: signed_id)
  have m: "take (length msg mod 2 ^ 32) msg = msg" using assms(4) by simp
  show ?thesis
  proof (cases "length msg < MULTI_PART")
    case True
    with pack_short[OF assms(1) True, of session] obtain b where
      "lpackrequest addr session (Some msg) = Ret (packet b, next_session session, map packet [])"
      "lunpackrequest b = Ret (dest_of addr, of_int session, Message msg, None)" "length b < 65536"
      using assms(2) unfolding lpackrequest_def option.case Let_def s m by auto
    with True show ?thesis by (intro exI[of _ b] exI[of _ "[]"] exI[of _ "[msg]"]) (simp add: small_bodies_def)
  next
    case False
    obtain b where b: "(case addr of AddrNumber a \<Rightarrow> packreq_number a session msg | AddrString name \<Rightarrow> packreq_string name session msg
           | AddrOther \<Rightarrow> Raise) = Ret (packet b, multi_count msg)"
      "lunpackrequest b = Ret (dest_of addr, of_int session, Size (of_nat (length msg)), Some True)" "length b < 65536"
      using pack_long[OF assms(1) False] by blast
    obtain bodies chunks where p: "packreq_multi session (multi_count msg) msg = Ret (map packet bodies)" "concat chunks = msg"
      "parts_of (of_int session) bodies chunks" using packreq_multi_parts by blast
    have "multi_count msg \<noteq> 0" by (simp add: multi_count_def)
    then have "lpackrequest addr session (Some msg) = Ret (packet b, next_session session, map packet bodies)"
      using assms(2) p(1) unfolding lpackrequest_def option.case Let_def s m b(1) by simp
    with False b p show ?thesis
      by (intro exI[of _ b] exI[of _ bodies] exI[of _ chunks]) (simp add: small_bodies_def parts_of_def)
  qed
qed

text \<open>The session a packet belongs to.\<close>

definition body_session :: "u8 list \<Rightarrow> u32 option" where
  "body_session m = (case lunpackrequest m of Ret (_, s, _, _) \<Rightarrow> Some s | _ \<Rightarrow> None)"

lemma body_session_Ret: "lunpackrequest m = Ret (a, s, p, pad) \<Longrightarrow> body_session m = Some s"
  by (simp add: body_session_def)

lemma parts_session: "parts_of s bodies chunks \<Longrightarrow> m \<in> set bodies \<Longrightarrow> body_session m = Some s"
proof -
  assume p: "parts_of s bodies chunks" and m: "m \<in> set bodies"
  from m have "lunpackrequest m \<in> set (map lunpackrequest bodies)" by simp
  also have "map lunpackrequest bodies = map (\<lambda>c. Ret (NoDest, s, Message c, Some True)) (butlast chunks)
         @ [Ret (NoDest, s, Message (last chunks), Some False)]" using p by (simp add: parts_of_def)
  finally show ?thesis by (auto intro: body_session_Ret)
qed

text \<open>What the receiver makes of the packets of one request: the state of \<open>large_request\<close> is as before, and there is one
  event, the request.\<close>

lemma receive_request:
  assumes "addr_ok addr" "0 < session" "session < 2 ^ 31" "length msg < 2 ^ 31" "L (of_int session) = None"
  shows "\<exists>b bodies es. lpackrequest addr session (Some msg) = Ret (packet b, next_session session, map packet bodies)
    \<and> small_bodies (b # bodies) \<and> (\<forall>m \<in> set (b # bodies). body_session m = Some (of_int session)) \<and> socket_datas L (b # bodies) = Ret (L, es)
    \<and> filter (\<lambda>e. e \<noteq> None) es = [Some (dest_of addr, of_int session, Some msg)]"
proof -
  let ?s = "of_int session :: u32"
  obtain b bodies chunks where pk: "lpackrequest addr session (Some msg) = Ret (packet b, next_session session, map packet bodies)"
    "small_bodies (b # bodies)" "concat chunks = msg"
    and u: "if length msg < MULTI_PART
     then bodies = [] \<and> lunpackrequest b = Ret (dest_of addr, ?s, Message msg, None)
     else lunpackrequest b = Ret (dest_of addr, ?s, Size (of_nat (length msg)), Some True) \<and> parts_of ?s bodies chunks"
    using request_packets[OF assms(1-4)] by blast
  have ses: "\<forall>m \<in> set (b # bodies). body_session m = Some ?s"
    using u parts_session[of ?s bodies chunks] by (auto simp: body_session_Ret split: if_splits)
  show ?thesis
  proof (cases "length msg < MULTI_PART")
    case True
    then have "socket_datas L (b # bodies) = Ret (L, [Some (dest_of addr, ?s, Some msg)])"
      using u assms(5) by (simp add: socket_data_def)
    with pk ses show ?thesis by force
  next
    case False
    let ?L = "L(?s \<mapsto> (dest_of addr, [ItemNumber (int (length msg))]))"
    have "uint (of_nat (length msg) :: u32) = int (length msg)" using assms(4) by (simp add: uint_nat unat_of_nat)
    then have d: "socket_data L b = Ret (?L, None)" using u False assms(5) by (simp add: socket_data_def payload_item_def)
    have "lconcat (Some (ItemNumber (int (length msg)) # map ItemString chunks)) = Ret (Some msg)"
      using lconcat_join[of chunks] assms(4) pk(3) by simp
    then have "socket_datas ?L bodies = Ret (?L(?s := None), replicate (length chunks - 1) None @ [Some (dest_of addr, ?s, Some msg)])"
      using u False by (intro socket_parts[where items = "[ItemNumber (int (length msg))]"]) simp_all
    moreover have "?L(?s := None) = L" using assms(5) by auto
    ultimately have "socket_datas L (b # bodies) = Ret (L, None # replicate (length chunks - 1) None @ [Some (dest_of addr, ?s, Some msg)])"
      using d by simp
    moreover have "filter (\<lambda>e. e \<noteq> None) (None # replicate (length chunks - 1) None @ [Some (dest_of addr, ?s, Some msg)])
        = [Some (dest_of addr, ?s, Some msg)]" by (simp add: filter_replicate)
    ultimately show ?thesis using pk(1,2) ses by blast
  qed
qed

section \<open>Sessions do not disturb each other\<close>

text \<open>A packet changes the entry of its session only, and depends on nothing else.\<close>

lemma socket_data_local:
  assumes "body_session m = Some s" "socket_data L m = Ret (L1, e)"
  shows "t \<noteq> s \<Longrightarrow> L1 t = L t" "L' s = L s \<Longrightarrow> socket_data L' m = Ret (L'(s := L1 s), e)"
    "e = Some (a, t, r) \<Longrightarrow> t = s"
proof -
  obtain addr p pad where u: "lunpackrequest m = Ret (addr, s, p, pad)"
    using assms(1) by (auto simp: body_session_def split: lr.splits)
  note d = assms(2)[unfolded socket_data_def u lbind_simps prod.case]
  show "t \<noteq> s \<Longrightarrow> L1 t = L t" using d by (auto simp: lbind_eq_Ret split: if_splits option.splits prod.splits)
  show "L' s = L s \<Longrightarrow> socket_data L' m = Ret (L'(s := L1 s), e)"
    using d by (auto simp: socket_data_def u lbind_eq_Ret fun_eq_iff split: if_splits option.splits prod.splits)
  show "e = Some (a, t, r) \<Longrightarrow> t = s" using d by (auto simp: lbind_eq_Ret split: if_splits option.splits prod.splits)
qed

lemma socket_datas_local:
  assumes "\<forall>m \<in> set ms. body_session m = Some s" "socket_datas L ms = Ret (L1, es)" "L' s = L s"
  shows "socket_datas L' ms = Ret (L'(s := L1 s), es)"
  using assms
proof (induction ms arbitrary: L L' es)
  case Nil
  then have "L'(s := L1 s) = L'" by auto
  with Nil show ?case by simp
next
  case (Cons m ms)
  from Cons.prems(2) obtain L2 e es2 where 1: "socket_data L m = Ret (L2, e)" "socket_datas L2 ms = Ret (L1, es2)" "es = e # es2"
    by (auto simp: lbind_eq_Ret)
  have 2: "socket_data L' m = Ret (L'(s := L2 s), e)" using socket_data_local(2)[OF _ 1(1)] Cons.prems(1,3) by simp
  have "socket_datas (L'(s := L2 s)) ms = Ret ((L'(s := L2 s))(s := L1 s), es2)"
    by (rule Cons.IH[OF _ 1(2)]) (use Cons.prems(1) in simp_all)
  with 2 1(3) show ?case by (auto simp: fun_eq_iff)
qed

definition ev_session :: "cl_event \<Rightarrow> u32 option" where
  "ev_session e = map_option (\<lambda>(_, s, _). s) e"

abbreviation of_session :: "u32 \<Rightarrow> u8 list list \<Rightarrow> u8 list list" where
  "of_session s \<equiv> filter (\<lambda>m. body_session m = Some s)"

text \<open>When the packets of each session alone are handled, so are all of them in the order they come, and each session has its events.\<close>

lemma socket_datas_sessions:
  assumes "\<forall>m \<in> set ms. body_session m \<noteq> None" "\<And>s. \<exists>L1 es. socket_datas L (of_session s ms) = Ret (L1, es)"
  shows "\<exists>L' es. socket_datas L ms = Ret (L', es) \<and> (\<forall>s. \<exists>L1 es1. socket_datas L (of_session s ms) = Ret (L1, es1)
    \<and> L' s = L1 s \<and> filter (\<lambda>e. ev_session e = Some s) es = filter (\<lambda>e. e \<noteq> None) es1)"
  using assms
proof (induction ms arbitrary: L)
  case (Cons m ms)
  obtain t where t: "body_session m = Some t" using Cons.prems(1) by auto
  from Cons.prems(2)[of t] t obtain L1 e where m: "socket_data L m = Ret (L1, e)"
    and rest: "\<exists>L2 es. socket_datas L1 (of_session t ms) = Ret (L2, es)" by (auto simp: lbind_eq_Ret)
  have other: "socket_datas L1 (of_session s ms) = Ret (L1(s := L2 s), es)" if "s \<noteq> t" "socket_datas L (of_session s ms) = Ret (L2, es)" for s L2 es
    using socket_datas_local[OF _ that(2), of s L1] socket_data_local(1)[OF t m that(1)] by simp
  have "\<exists>L2 es. socket_datas L1 (of_session s ms) = Ret (L2, es)" for s
  proof (cases "s = t")
    case False
    with Cons.prems(2)[of s] t other[OF False] show ?thesis by auto
  qed (use rest in simp)
  from Cons.IH[OF _ this] Cons.prems(1) obtain L' es where IH: "socket_datas L1 ms = Ret (L', es)"
    and ses: "\<And>s. \<exists>L2 es1. socket_datas L1 (of_session s ms) = Ret (L2, es1)
      \<and> L' s = L2 s \<and> filter (\<lambda>e. ev_session e = Some s) es = filter (\<lambda>e. e \<noteq> None) es1" by auto
  have "\<exists>L2 es1. socket_datas L (of_session s (m # ms)) = Ret (L2, es1)
      \<and> L' s = L2 s \<and> filter (\<lambda>e. ev_session e = Some s) (e # es) = filter (\<lambda>e. e \<noteq> None) es1" for s
  proof (cases "s = t")
    case True
    have "ev_session e = Some t \<longleftrightarrow> e \<noteq> None" using socket_data_local(3)[OF t m] by (cases e) (auto simp: ev_session_def)
    with ses[of t] m t True show ?thesis by auto
  next
    case False
    then have "ev_session e \<noteq> Some s" using socket_data_local(3)[OF t m] by (cases e) (auto simp: ev_session_def)
    moreover from Cons.prems(2)[of s] t False obtain L3 es3 where L3: "socket_datas L (of_session s ms) = Ret (L3, es3)" by auto
    ultimately show ?thesis using ses[of s] other[OF False L3] t False by auto
  qed
  with IH m show ?case by auto
qed auto

text \<open>All ways to interleave several sequences of packets.\<close>

fun interleavings :: "'a list list \<Rightarrow> 'a list set" where
  "interleavings [] = {[]}"
| "interleavings (xs # xss) = (\<Union>ys \<in> interleavings xss. shuffles xs ys)"

lemma interleavings_set: "zs \<in> interleavings xss \<Longrightarrow> set zs = (\<Union>xs \<in> set xss. set xs)"
  by (induction xss arbitrary: zs) (auto simp: set_shuffles)

lemma interleavings_filter: "zs \<in> interleavings xss \<Longrightarrow> filter P zs \<in> interleavings (map (filter P) xss)"
proof (induction xss arbitrary: zs)
  case (Cons xs xss)
  then obtain ys where "ys \<in> interleavings xss" "zs \<in> shuffles xs ys" by auto
  then show ?case using Cons.IH[of ys] filter_shuffles[of P xs ys] by auto
qed simp

lemma interleavings_empty: "(\<And>xs. xs \<in> set xss \<Longrightarrow> xs = []) \<Longrightarrow> interleavings xss = {[]}"
  by (induction xss) auto

lemma shuffles_map: "zs \<in> shuffles (map f xs) (map f ys) \<Longrightarrow> \<exists>ws \<in> shuffles xs ys. zs = map f ws"
proof (induction xs ys arbitrary: zs rule: shuffles.induct)
  case (3 x xs y ys)
  from 3(3) consider zs' where "zs = f x # zs'" "zs' \<in> shuffles (map f xs) (map f (y # ys))"
    | zs' where "zs = f y # zs'" "zs' \<in> shuffles (map f (x # xs)) (map f ys)" by auto
  then show ?case
  proof cases
    case 1
    with 3(1)[of zs'] obtain ws where "ws \<in> shuffles xs (y # ys)" "zs' = map f ws" by auto
    with 1 show ?thesis by (intro bexI[of _ "x # ws"]) auto
  next
    case 2
    with 3(2)[of zs'] obtain ws where "ws \<in> shuffles (x # xs) ys" "zs' = map f ws" by auto
    with 2 show ?thesis by (intro bexI[of _ "y # ws"]) auto
  qed
qed auto

lemma interleavings_map: "zs \<in> interleavings (map (map f) xss) \<Longrightarrow> \<exists>ws \<in> interleavings xss. zs = map f ws"
proof (induction xss arbitrary: zs)
  case (Cons xs xss)
  from Cons.prems obtain ys where "ys \<in> interleavings (map (map f) xss)" "zs \<in> shuffles (map f xs) ys" by auto
  moreover from Cons.IH[OF this(1)] obtain ws where "ws \<in> interleavings xss" "ys = map f ws" by blast
  ultimately show ?case using shuffles_map[of zs f xs ws] by auto
qed simp

lemma mset_by_class:
  assumes "\<And>c. filter (\<lambda>x. f x = c) xs = filter (\<lambda>x. f x = c) ys"
  shows "mset xs = mset ys"
proof (rule multiset_eqI)
  fix x
  have "count (mset zs) x = count (mset (filter (\<lambda>y. f y = f x) zs)) x" for zs by (simp add: count_mset)
  then show "count (mset xs) x = count (mset ys) x" using assms[of "f x"] by metis
qed

lemma interleavings_single:
  assumes "distinct rs" "r \<in> set rs" "\<And>r'. r' \<in> set rs \<Longrightarrow> r' \<noteq> r \<Longrightarrow> f r' = []"
  shows "interleavings (map f rs) = {f r}"
  using assms
proof (induction rs)
  case (Cons a rs)
  show ?case
  proof (cases "a = r")
    case True
    have "interleavings (map f rs) = {[]}" by (rule interleavings_empty) (use Cons.prems True in auto)
    with True show ?thesis by simp
  next
    case False
    then have "f a = []" "interleavings (map f rs) = {f r}" using Cons by auto
    then show ?thesis by simp
  qed
qed simp

section \<open>Properties\<close>

text \<open>A request: the socket it is sent on, the address, the session and the message.\<close>

record cl_req =
  rq_fd :: int
  rq_addr :: cl_addr
  rq_session :: int
  rq_msg :: "u8 list"

definition rq_ok :: "large_request \<Rightarrow> cl_req \<Rightarrow> bool" where
  "rq_ok L r \<longleftrightarrow> addr_ok (rq_addr r) \<and> 0 < rq_session r \<and> rq_session r < 2 ^ 31 \<and> length (rq_msg r) < 2 ^ 31
     \<and> L (of_int (rq_session r)) = None"

definition wire_packets :: "cl_req \<Rightarrow> u8 list list" where
  "wire_packets r = (case lpackrequest (rq_addr r) (rq_session r) (Some (rq_msg r)) of Ret (p, _, parts) \<Rightarrow> p # parts | _ \<Rightarrow> [])"

definition rq_event :: "cl_req \<Rightarrow> cl_event" where
  "rq_event r = Some (dest_of (rq_addr r), of_int (rq_session r), Some (rq_msg r))"

abbreviation np_bytes :: "netpack \<Rightarrow> u8 list" where
  "np_bytes np \<equiv> map the (np_buffer np)"

definition rq_bodies :: "large_request \<Rightarrow> cl_req \<Rightarrow> u8 list list \<Rightarrow> bool" where
  "rq_bodies L r bs \<longleftrightarrow> wire_packets r = map packet bs \<and> small_bodies bs \<and> (\<forall>m \<in> set bs. body_session m = Some (of_int (rq_session r)))
     \<and> (\<exists>es. socket_datas L bs = Ret (L, es) \<and> filter (\<lambda>e. e \<noteq> None) es = [rq_event r])"

lemma rq_bodies_ex: "rq_ok L r \<Longrightarrow> \<exists>bs. rq_bodies L r bs"
proof -
  assume "rq_ok L r"
  then obtain b bodies es where "lpackrequest (rq_addr r) (rq_session r) (Some (rq_msg r)) = Ret (packet b, next_session (rq_session r), map packet bodies)"
    "small_bodies (b # bodies)" "\<forall>m \<in> set (b # bodies). body_session m = Some (of_int (rq_session r))" "socket_datas L (b # bodies) = Ret (L, es)"
    "filter (\<lambda>e. e \<noteq> None) es = [Some (dest_of (rq_addr r), of_int (rq_session r), Some (rq_msg r))]"
    using receive_request[of "rq_addr r" "rq_session r" "rq_msg r" L] unfolding rq_ok_def by blast
  then have "rq_bodies L r (b # bodies)" unfolding rq_bodies_def wire_packets_def rq_event_def by (simp del: socket_datas.simps)
  then show ?thesis ..
qed

lemma session_inj: "0 < a \<Longrightarrow> a < 2 ^ 31 \<Longrightarrow> 0 < b \<Longrightarrow> b < 2 ^ 31 \<Longrightarrow> (of_int a :: u32) = of_int b \<Longrightarrow> a = b"
  by (simp add: word_of_int_eq_iff take_bit_int_eq_self)

lemma rq_session_inj:
  assumes "list_all (rq_ok L) reqs" "distinct (map rq_session reqs)" "r \<in> set reqs" "r' \<in> set reqs"
    "(of_int (rq_session r') :: u32) = of_int (rq_session r)"
  shows "r' = r"
proof -
  have "rq_session r' = rq_session r" using assms(1,3-5) session_inj by (auto simp: list_all_iff rq_ok_def)
  with assms(2-4) show ?thesis by (auto simp: distinct_map inj_on_def)
qed

lemma filter_one: "distinct xs \<Longrightarrow> x \<in> set xs \<Longrightarrow> filter (\<lambda>y. y = x) xs = [x]"
  by (induction xs) (auto simp: filter_empty_conv)

text \<open>The packets of one session among all that were delivered are those of its request, in their order.\<close>

lemma delivered_session:
  assumes B: "\<forall>r \<in> set reqs. rq_bodies L r (B r)" and ok: "list_all (rq_ok L) reqs" and ses: "distinct (map rq_session reqs)"
    and W: "\<And>fd. W fd \<in> interleavings (map B (filter (\<lambda>r. rq_fd r = fd) reqs))"
    and out: "\<And>fd. filter (\<lambda>np. np_id np = fd) out = map (clone_pack fd) (W fd)"
  shows "np \<in> set out \<Longrightarrow> \<exists>r \<in> set reqs. rq_fd r = np_id np \<and> body_session (np_bytes np) = Some (of_int (rq_session r))"
    and "r \<in> set reqs \<Longrightarrow> of_session (of_int (rq_session r)) (map np_bytes out) = B r"
proof -
  have bytes: "map np_bytes (map (clone_pack fd) ms) = ms" for fd ms by (simp add: clone_pack_def comp_def)
  show mem: "\<exists>r \<in> set reqs. rq_fd r = np_id np \<and> body_session (np_bytes np) = Some (of_int (rq_session r))" if "np \<in> set out" for np
  proof -
    have "np \<in> set (filter (\<lambda>x. np_id x = np_id np) out)" using that by simp
    then obtain x where "np = clone_pack (np_id np) x" "x \<in> set (W (np_id np))" unfolding out by auto
    moreover have "np_bytes (clone_pack i x) = x" for i by (simp add: clone_pack_def comp_def)
    ultimately have "np_bytes np \<in> set (W (np_id np))" by metis
    then obtain r where "r \<in> set reqs" "rq_fd r = np_id np" "np_bytes np \<in> set (B r)" using interleavings_set[OF W] by auto
    with B show ?thesis by (auto simp: rq_bodies_def)
  qed
  note inj = rq_session_inj[OF ok ses]
  assume r: "r \<in> set reqs"
  let ?s = "of_int (rq_session r) :: u32" and ?P = "\<lambda>m. body_session m = Some (of_int (rq_session r))"
  have "of_session ?s (map np_bytes out) = map np_bytes (filter (\<lambda>np. ?P (np_bytes np)) out)" by (simp add: filter_map comp_def)
  also have "filter (\<lambda>np. ?P (np_bytes np)) out = filter (\<lambda>np. ?P (np_bytes np)) (filter (\<lambda>np. np_id np = rq_fd r) out)"
    unfolding filter_filter by (rule filter_cong[OF refl]) (use mem inj[OF r] in force)
  also have "map np_bytes \<dots> = of_session ?s (W (rq_fd r))" unfolding out by (simp add: filter_map comp_def clone_pack_def)
  also have "\<dots> = B r"
  proof -
    let ?rs = "filter (\<lambda>x. rq_fd x = rq_fd r) reqs"
    have "filter ?P (B r) = B r" using B r by (auto simp: rq_bodies_def filter_id_conv)
    moreover have "filter ?P (B r') = []" if "r' \<in> set ?rs" "r' \<noteq> r" for r'
      using that B inj[OF r, of r'] by (auto simp: rq_bodies_def filter_empty_conv)
    moreover have "distinct ?rs" using ses by (simp add: distinct_map)
    ultimately have "interleavings (map (\<lambda>r. filter ?P (B r)) ?rs) = {B r}"
      using interleavings_single[of ?rs r "\<lambda>r. filter ?P (B r)"] r by auto
    with interleavings_filter[OF W, of ?P "rq_fd r"] show ?thesis by (simp add: comp_def)
  qed
  finally show "of_session ?s (map np_bytes out) = B r" .
qed

text \<open>C39: requests to services of another node arrive, whatever their sizes: when several requests with different sessions are sent, on one connection or on several, with the
  packets of a connection interleaved in any way, and the byte streams are cut into chunks and interleaved in any way, the packet splitter and the receiving
  service produce exactly one event for each request, with the address, the session and the bytes that were sent, nothing else, and leave no part behind.\<close>

theorem cluster_requests_arrive:
  assumes "list_all (rq_ok L) reqs" "distinct (map rq_session reqs)"
    and "\<And>fd. wire fd \<in> interleavings (map wire_packets (filter (\<lambda>r. rq_fd r = fd) reqs))"
    and "list_all (\<lambda>(fd, data). data \<noteq> []) cs" "\<And>fd. stream fd cs = concat (wire fd)"
  shows "\<exists>q out es. deliver cs None = Some (q, out) \<and> socket_datas L (map np_bytes out) = Ret (L, es)
    \<and> mset (filter (\<lambda>e. e \<noteq> None) es) = mset (map rq_event reqs)"
proof -
  have "\<forall>r \<in> set reqs. \<exists>bs. rq_bodies L r bs" using assms(1) rq_bodies_ex by (auto simp: list_all_iff)
  then obtain B where B: "\<forall>r \<in> set reqs. rq_bodies L r (B r)" by metis
  have "\<exists>ws \<in> interleavings (map B (filter (\<lambda>r. rq_fd r = fd) reqs)). wire fd = map packet ws" for fd
  proof (rule interleavings_map)
    have "map wire_packets (filter (\<lambda>r. rq_fd r = fd) reqs) = map (map packet) (map B (filter (\<lambda>r. rq_fd r = fd) reqs))"
      using B by (auto simp: rq_bodies_def)
    with assms(3)[of fd] show "wire fd \<in> interleavings (map (map packet) (map B (filter (\<lambda>r. rq_fd r = fd) reqs)))" by simp
  qed
  then obtain W where W: "\<And>fd. W fd \<in> interleavings (map B (filter (\<lambda>r. rq_fd r = fd) reqs))" "\<And>fd. wire fd = map packet (W fd)" by metis
  have "small_bodies (W fd)" for fd
    using interleavings_set[OF W(1)[of fd]] B by (auto simp: small_bodies_def rq_bodies_def list_all_iff)
  then have fr: "frames (stream fd cs) = (W fd, [])" for fd
    using frames_packed[OF packets_lpack] assms(5) W(2) by simp
  obtain q out where out: "deliver cs None = Some (q, out)" "\<And>fd. filter (\<lambda>np. np_id np = fd) out = map (clone_pack fd) (W fd)"
    using deliver_stream[OF assms(4) np_st_None] fr by auto
  note d = delivered_session[OF B assms(1,2) W(1) out(2)]
  let ?ms = "map np_bytes out"
  have all: "\<forall>m \<in> set ?ms. body_session m \<noteq> None" using d(1) by force
  have one: "x = r" if "r \<in> set reqs" "x \<in> set reqs" "(of_int (rq_session x) :: u32) = of_int (rq_session r)" for r x
    using rq_session_inj[OF assms(1,2) that] .
  have run: "\<exists>es. socket_datas L (of_session s ?ms) = Ret (L, es)
      \<and> filter (\<lambda>e. e \<noteq> None) es = filter (\<lambda>e. ev_session e = Some s) (map rq_event reqs)" for s
  proof (cases "\<exists>r \<in> set reqs. s = of_int (rq_session r)")
    case True
    then obtain r where r: "r \<in> set reqs" "s = of_int (rq_session r)" by blast
    have "filter (\<lambda>x. ev_session (rq_event x) = Some s) reqs = filter (\<lambda>x. x = r) reqs"
      by (rule filter_cong[OF refl]) (use one[OF r(1)] r(2) in \<open>auto simp: ev_session_def rq_event_def\<close>)
    also have "\<dots> = [r]" using r(1) assms(2) by (intro filter_one) (simp_all add: distinct_map)
    finally have "filter (\<lambda>e. ev_session e = Some s) (map rq_event reqs) = [rq_event r]" by (simp add: filter_map comp_def)
    with d(2)[OF r(1)] B r show ?thesis by (auto simp: rq_bodies_def)
  next
    case False
    then have "of_session s ?ms = []" "filter (\<lambda>e. ev_session e = Some s) (map rq_event reqs) = []"
      using d(1) by (force simp: filter_empty_conv ev_session_def rq_event_def)+
    then show ?thesis by simp
  qed
  obtain L' es where res: "socket_datas L ?ms = Ret (L', es)" and each: "\<And>s. \<exists>L1 es1. socket_datas L (of_session s ?ms) = Ret (L1, es1)
      \<and> L' s = L1 s \<and> filter (\<lambda>e. ev_session e = Some s) es = filter (\<lambda>e. e \<noteq> None) es1"
    using socket_datas_sessions[OF all, of L] run by meson
  have L: "L' s = L s" and ev: "filter (\<lambda>e. ev_session e = Some s) es = filter (\<lambda>e. ev_session e = Some s) (map rq_event reqs)" for s
    using each[of s] run[of s] by auto
  have "mset (filter (\<lambda>e. e \<noteq> None) es) = mset (map rq_event reqs)"
  proof (rule mset_by_class[where f = ev_session])
    fix c
    show "filter (\<lambda>e. ev_session e = c) (filter (\<lambda>e. e \<noteq> None) es) = filter (\<lambda>e. ev_session e = c) (map rq_event reqs)"
    proof (cases c)
      case None
      then show ?thesis by (auto simp: filter_empty_conv ev_session_def rq_event_def)
    next
      case (Some s)
      have "(ev_session e = Some s \<and> e \<noteq> None) = (ev_session e = Some s)" for e by (auto simp: ev_session_def)
      with ev[of s] Some show ?thesis by (simp add: conj_commute)
    qed
  qed
  moreover have "L' = L" using L by blast
  ultimately show ?thesis using out(1) res by blast
qed

text \<open>Two requests on one connection, the second between the head and the parts of the first, and a third one on another connection.\<close>

definition ex_long :: cl_req where
  "ex_long = \<lparr>rq_fd = 3, rq_addr = AddrString [65], rq_session = 7, rq_msg = replicate 40000 1\<rparr>"

definition ex_short :: cl_req where
  "ex_short = \<lparr>rq_fd = 3, rq_addr = AddrNumber 5, rq_session = 8, rq_msg = [1, 2]\<rparr>"

definition ex_other :: cl_req where
  "ex_other = \<lparr>rq_fd = 4, rq_addr = AddrNumber 6, rq_session = 9, rq_msg = [3]\<rparr>"

definition ex_wire :: "int \<Rightarrow> u8 list list" where
  "ex_wire fd = (if fd = 3 then hd (wire_packets ex_long) # wire_packets ex_short @ tl (wire_packets ex_long)
     else if fd = 4 then wire_packets ex_other else [])"

lemma append_in_shuffles: "ys @ xs \<in> shuffles xs ys"
  by (induction ys) (auto intro: Cons_in_shuffles_rightI)

lemma wire_packets_Cons: "rq_ok L r \<Longrightarrow> \<exists>p ps. wire_packets r = p # ps \<and> p \<noteq> []"
proof -
  assume "rq_ok L r"
  then obtain b bodies es where "lpackrequest (rq_addr r) (rq_session r) (Some (rq_msg r)) = Ret (packet b, next_session (rq_session r), map packet bodies)"
    using receive_request[of "rq_addr r" "rq_session r" "rq_msg r" L] unfolding rq_ok_def by blast
  then show ?thesis by (simp add: wire_packets_def packet_def write_size_def)
qed

theorem cluster_requests_arrive_witness:
  "\<exists>q out es. deliver [(3, concat (ex_wire 3)), (4, concat (ex_wire 4))] None = Some (q, out)
    \<and> socket_datas Map.empty (map np_bytes out) = Ret (Map.empty, es)
    \<and> mset (filter (\<lambda>e. e \<noteq> None) es) = {#Some (DestName [65], 7, Some (replicate 40000 1)), Some (DestNumber 5, 8, Some [1, 2]),
        Some (DestNumber 6, 9, Some [3])#}"
proof -
  let ?reqs = "[ex_long, ex_short, ex_other]"
  have ok: "list_all (rq_ok Map.empty) ?reqs"
    by (simp add: rq_ok_def ex_long_def ex_short_def ex_other_def addr_ok_def)
  then obtain p ps p' ps' where pk: "wire_packets ex_long = p # ps" "p \<noteq> []" "wire_packets ex_other = p' # ps'" "p' \<noteq> []"
    using wire_packets_Cons[of Map.empty ex_long] wire_packets_Cons[of Map.empty ex_other] by auto
  have ses: "distinct (map rq_session ?reqs)" by (simp add: ex_long_def ex_short_def ex_other_def)
  have fds: "rq_fd ex_long = 3" "rq_fd ex_short = 3" "rq_fd ex_other = 4" by (simp_all add: ex_long_def ex_short_def ex_other_def)
  have w: "ex_wire fd \<in> interleavings (map wire_packets (filter (\<lambda>r. rq_fd r = fd) ?reqs))" for fd
    using append_in_shuffles[of "wire_packets ex_short" ps] by (simp add: ex_wire_def fds pk(1) Cons_in_shuffles_leftI)
  have st: "stream fd [(3, concat (ex_wire 3)), (4, concat (ex_wire 4))] = concat (ex_wire fd)" for fd
    by (auto simp: stream_def ex_wire_def)
  have "list_all (\<lambda>(fd, data). data \<noteq> []) [(3, concat (ex_wire 3)), (4, concat (ex_wire 4))]"
    by (simp add: ex_wire_def pk)
  from cluster_requests_arrive[OF ok ses w this st] show ?thesis
    by (simp add: rq_event_def ex_long_def ex_short_def ex_other_def)
qed

text \<open>The end of any connection forgets the parts of all: what follows of a long request is taken for a request without an address.\<close>

lemma cluster_close_forgets:
  assumes "uint n < 2 ^ 31" "length m < 2 ^ 30"
  shows "socket_data L (1 # fill_uint32 a @ fill_uint32 s @ fill_uint32 n) = Ret (L1, None) \<Longrightarrow>
    socket_data (socket_closed L1) (3 # fill_uint32 s @ m) = Ret (Map.empty, Some (NoDest, s, Some m))"
  using assms by (simp add: socket_data_def socket_closed_def unpack_part)

text \<open>The parts are collected by session only: two connections that send long requests with the same
  session mix their parts, and both requests are lost.\<close>

lemma cluster_sessions_collide:
  assumes "L s = None" "0 < unat n1" "uint n1 < 2 ^ 31" "length m < 2 ^ 30"
  shows "socket_datas L [1 # fill_uint32 a1 @ fill_uint32 s @ fill_uint32 n1, 1 # fill_uint32 a2 @ fill_uint32 s @ fill_uint32 n2,
      3 # fill_uint32 s @ m] = Ret (L, [None, None, Some (DestNumber a1, s, None)])"
proof -
  have "L(s := None) = L" using assms(1) by auto
  then show ?thesis
    using assms by (simp add: socket_data_def unpack_mnumber unpack_part payload_item_def lconcat_def signed_id)
qed

text \<open>A size of two gigabytes or more, which a peer may announce, becomes negative: the allocation of the
  joined request stops the process.\<close>

lemma lconcat_huge: "2 ^ 31 \<le> n \<Longrightarrow> n < 2 ^ 32 \<Longrightarrow> lconcat (Some (ItemNumber n # items)) = Bad"
  by (simp add: lconcat_def to_signed_def of_signed_def nat_less_iff)

section \<open>Responses\<close>

lemma unpack_resp:
  "lunpackresponse (fill_uint32 s @ t # body) =
     (if t = 0 then Some (s, False, Message body, None)
      else if t = 1 \<or> t = 4 then Some (s, True, Message body, None)
      else if t = 2 then (if length body \<noteq> 4 then None else Some (s, True, Size (unpack_uint32 body 0), Some True))
      else if t = 3 then Some (s, True, Message body, Some True) else None)"
proof -
  let ?b = "fill_uint32 s @ t # body"
  have "unpack_uint32 ?b 0 = s" using unpack_fill[of "[]" 0 s "t # body"] by simp
  moreover have "?b ! 4 = t" by (simp add: nth_append)
  moreover have "drop 5 ?b = body" by simp
  moreover have "unpack_uint32 (fill_uint32 s @ u # body) 5 = unpack_uint32 body 0" for u by (simp add: unpack_uint32_def nth_append numeral_2_eq_2)
  ultimately show ?thesis by (simp add: lunpackresponse_def Let_def)
qed

definition resp_parts :: "u32 \<Rightarrow> u8 list list \<Rightarrow> u8 list list \<Rightarrow> bool" where
  "resp_parts s bodies chunks \<longleftrightarrow> chunks \<noteq> []
     \<and> map lunpackresponse bodies = map (\<lambda>c. Some (s, True, Message c, Some True)) (butlast chunks)
         @ [Some (s, True, Message (last chunks), None)]"

lemma packresp_multi_parts:
  "\<exists>bodies chunks. packresp_multi s (multi_count msg) msg = Ret (map packet bodies) \<and> concat chunks = msg
     \<and> resp_parts s bodies chunks"
proof (induction "length msg" arbitrary: msg rule: less_induct)
  case less
  show ?case
  proof (cases "length msg > MULTI_PART")
    case True
    let ?b = "fill_uint32 s @ 3 # take MULTI_PART msg"
    have shorter: "length (drop MULTI_PART msg) < length msg" using True part_pos by simp
    obtain bodies chunks where IH: "packresp_multi s (multi_count (drop MULTI_PART msg)) (drop MULTI_PART msg) = Ret (map packet bodies)"
      "concat chunks = drop MULTI_PART msg" "resp_parts s bodies chunks"
      using less[OF shorter] by blast
    have "cl_fill_header (MULTI_PART + 5) ?b = Ret (packet ?b)"
      by (rule fill_header_packet) (use True in \<open>simp_all add: cdefs\<close>)
    then have "packresp_multi s (multi_count msg) msg = Ret (map packet (?b # bodies))"
      unfolding multi_count_step[OF True] using True IH(1) by (simp add: Let_def)
    moreover have "resp_parts s (?b # bodies) (take MULTI_PART msg # chunks)"
      using IH(3) by (auto simp: resp_parts_def unpack_resp)
    moreover have "concat (take MULTI_PART msg # chunks) = msg" using IH(2) by simp
    ultimately show ?thesis by blast
  next
    case False
    let ?b = "fill_uint32 s @ 4 # msg"
    have "cl_fill_header (length msg + 5) ?b = Ret (packet ?b)"
      by (rule fill_header_packet) (use False in \<open>simp_all add: cdefs\<close>)
    then have "packresp_multi s (multi_count msg) msg = Ret (map packet [?b])"
      using False multi_count_last[of msg] by (simp add: Let_def)
    moreover have "resp_parts s [?b] [msg]" by (simp add: resp_parts_def unpack_resp)
    ultimately show ?thesis by (metis concat.simps append_Nil2)
  qed
qed

text \<open>C40: a response is understood: a short one, or an error text cut to 32 kilobytes, is one packet that
  gives back session, outcome and message; a longer one is a head with the size and parts that join to
  the message.\<close>

theorem cluster_response_roundtrip:
  assumes "length msg < 2 ^ 31"
  shows "if ok \<and> length msg > MULTI_PART
    then \<exists>b bodies chunks. lpackresponse session ok msg = Ret (Inr (map packet (b # bodies)))
      \<and> lunpackresponse b = Some (of_int session, True, Size (of_nat (length msg)), Some True)
      \<and> resp_parts (of_int session) bodies chunks
      \<and> lconcat (Some (ItemNumber (int (length msg)) # map ItemString chunks)) = Ret (Some msg)
    else \<exists>b. lpackresponse session ok msg = Ret (Inl (packet b))
      \<and> lunpackresponse b = Some (of_int session, ok, Message (take MULTI_PART msg), None)"
proof (cases "ok \<and> length msg > MULTI_PART")
  case True
  let ?s = "of_int session :: u32"
  let ?b = "fill_uint32 ?s @ 2 # fill_uint32 (of_nat (length msg))"
  obtain bodies chunks where p: "packresp_multi ?s (multi_count msg) msg = Ret (map packet bodies)" "concat chunks = msg"
    "resp_parts ?s bodies chunks" using packresp_multi_parts by blast
  have "cl_fill_header 9 ?b = Ret (packet ?b)" by (rule fill_header_packet) (simp_all add: cdefs)
  then have "lpackresponse session ok msg = Ret (Inr (map packet (?b # bodies)))"
    using True p(1) by (simp add: lpackresponse_def Let_def)
  moreover have "lunpackresponse ?b = Some (?s, True, Size (of_nat (length msg)), Some True)"
    using unpack_fill[of "[]" 0 "of_nat (length msg)" "[]"] by (simp add: unpack_resp)
  moreover have "lconcat (Some (ItemNumber (int (length msg)) # map ItemString chunks)) = Ret (Some msg)"
    using lconcat_join[of chunks] assms p(2) by simp
  ultimately show ?thesis using True p(3) by auto
next
  case False
  define m where "m = take MULTI_PART msg"
  let ?b = "fill_uint32 (of_int session) @ (if ok then 1 else 0) # m"
  have "cl_fill_header (length m + 5) ?b = Ret (packet ?b)"
    by (rule fill_header_packet) (simp_all add: m_def cdefs)
  moreover have "(if \<not> ok \<and> length msg > MULTI_PART then take MULTI_PART msg else msg) = m"
    using False by (auto simp: m_def)
  ultimately have "lpackresponse session ok msg = Ret (Inl (packet ?b))"
    using False unfolding lpackresponse_def Let_def by (simp add: m_def)
  moreover have "lunpackresponse ?b = Some (of_int session, ok, Message m, None)" by (simp add: unpack_resp)
  ultimately show ?thesis using False unfolding m_def by auto
qed

theorem cluster_response_roundtrip_witness:
  "\<exists>b. lpackresponse 5 True [1, 2, 3] = Ret (Inl (packet b)) \<and> lunpackresponse b = Some (of_int 5, True, Message [1, 2, 3], None)"
  using cluster_response_roundtrip[of "[1, 2, 3]" True 5] by (simp add: cdefs)

end
