(* ===== verification/Harbor.thy ===== *)
theory Harbor
  imports Gate Ring
begin

text \<open>
  The harbor service, \<open>service-src/service_harbor.c\<close>: it carries the messages between the nodes of a
  network.  For every other node (a slave) it keeps a connection with a handshake and a queue of the
  messages that wait for it, and for every global name the handle or a queue of the messages that wait
  for the handle.  The calls it makes of the rest of the system are the actions a handler returns, in
  order.  Whether \<open>skynet_send\<close> finds the destination is the argument \<open>alive\<close>.  \<open>None\<close> is a failed
  assertion, an access outside an object or a block freed twice.
\<close>

section \<open>State\<close>

definition HASH_SIZE :: nat where [cdefs]: "HASH_SIZE = 4096"
definition HARBOR_QUEUE_SIZE :: nat where [cdefs]: "HARBOR_QUEUE_SIZE = 1024"
definition HEADER_COOKIE_LENGTH :: nat where [cdefs]: "HEADER_COOKIE_LENGTH = 12"
definition REMOTE_MAX :: nat where [cdefs]: "REMOTE_MAX = 256"

record remote_message_header =
  rh_source :: u32
  rh_destination :: u32
  rh_session :: u32

record harbor_msg =
  hm_header :: remote_message_header
  hm_buffer :: "u8 list"

text \<open>Size and indices of the queue are \<open>int\<close> in the code; doubling the size overflows only beyond \<open>2\<^sup>3\<^sup>0\<close> waiting messages.\<close>

record harbor_msg_queue =
  hq_size :: nat
  hq_head :: nat
  hq_tail :: nat
  hq_data :: "harbor_msg option list"

record keyvalue =
  kv_key :: "u8 list"
  kv_hash :: u32
  kv_value :: u32
  kv_queue :: "harbor_msg_queue option"

datatype slave_status = STATUS_WAIT | STATUS_HANDSHAKE | STATUS_HEADER | STATUS_CONTENT | STATUS_DOWN

record slave =
  sl_fd :: int
  sl_queue :: "harbor_msg_queue option"
  sl_status :: slave_status
  sl_length :: nat
  sl_read :: nat
  sl_size :: "u8 list"
  sl_recv_buffer :: "u8 option list option"

text \<open>The array \<open>s[REMOTE_MAX]\<close> is a function; the chains of the hash table are lists, newest first.\<close>

record harbor =
  hb_id :: int
  hb_slave :: u32
  hb_map :: "nat \<Rightarrow> keyvalue list"
  hb_s :: "nat \<Rightarrow> slave"

text \<open>\<open>HSend source destination type session data\<close>, with the type as passed to \<open>skynet_send\<close>.\<close>

datatype harbor_action = HSend u32 u32 u32 int "u8 list" | HError string | HSocketClose int | HSocketStart int
  | HSocketSend int "u8 list" | HCallback | HHarborStart

section \<open>Queues\<close>

definition push_queue_msg :: "harbor_msg \<Rightarrow> harbor_msg_queue \<Rightarrow> harbor_msg_queue option" where
  "push_queue_msg m q =
     (let q1 =
        (if (hq_tail q + 1) mod hq_size q = hq_head q then
           \<lparr>hq_size = hq_size q * 2, hq_head = 0, hq_tail = hq_size q - 1,
            hq_data = map (\<lambda>i. hq_data q ! ((i + hq_head q) mod hq_size q)) [0..<hq_size q - 1]
              @ replicate (hq_size q + 1) None\<rparr>
         else q)
      in do {
        cells \<leftarrow> arr_set (hq_data q1) (hq_tail q1) (Some m);
        Some (q1\<lparr>hq_data := cells, hq_tail := (hq_tail q1 + 1) mod hq_size q1\<rparr>) })"

definition pop_queue :: "harbor_msg_queue \<Rightarrow> (harbor_msg_queue \<times> harbor_msg option) option" where
  "pop_queue q =
     (if hq_head q = hq_tail q then Some (q, None)
      else do {
        m \<leftarrow> arr_get (hq_data q) (hq_head q);
        Some (q\<lparr>hq_head := (hq_head q + 1) mod hq_size q\<rparr>, Some m) })"

definition hb_new_queue :: harbor_msg_queue where
  "hb_new_queue = \<lparr>hq_size = HARBOR_QUEUE_SIZE, hq_head = 0, hq_tail = 0, hq_data = replicate HARBOR_QUEUE_SIZE None\<rparr>"

text \<open>The loop \<open>while ((m = pop_queue(queue)) != NULL)\<close>: the queue after it and the messages it meets.\<close>

partial_function (option) pop_all :: "harbor_msg_queue \<Rightarrow> (harbor_msg_queue \<times> harbor_msg list) option" where
  "pop_all q = do {
     (q1, r) \<leftarrow> pop_queue q;
     (case r of None \<Rightarrow> Some (q1, []) | Some m \<Rightarrow> do { (q2, ms) \<leftarrow> pop_all q1; Some (q2, m # ms) }) }"

text \<open>\<open>release_queue\<close>; a null pointer is \<open>None\<close>.  The messages that are left are freed.\<close>

definition release_queue :: "harbor_msg_queue option \<Rightarrow> unit option" where
  "release_queue qo = (case qo of None \<Rightarrow> Some () | Some q \<Rightarrow> do { (q1, ms) \<leftarrow> pop_all q; Some () })"

fun push_all :: "harbor_msg list \<Rightarrow> harbor_msg_queue \<Rightarrow> harbor_msg_queue option" where
  "push_all [] q = Some q"
| "push_all (m # ms) q = do { q1 \<leftarrow> push_queue_msg m q; push_all ms q1 }"

section \<open>Names\<close>

definition name_hash :: "u8 list \<Rightarrow> u32" where
  "name_hash name =
     (let w = (\<lambda>i. ucast (name ! i) OR push_bit 8 (ucast (name ! (i + 1))) OR push_bit 16 (ucast (name ! (i + 2)))
                    OR push_bit 24 (ucast (name ! (i + 3))) :: u32)
      in w 0 XOR w 4 XOR w 8 XOR w 12)"

text \<open>\<open>strncmp(a, b, GLOBALNAME_LENGTH) == 0\<close>.\<close>

definition same_name :: "u8 list \<Rightarrow> u8 list \<Rightarrow> bool" where
  "same_name a b \<longleftrightarrow> takeWhile (\<lambda>c. c \<noteq> 0) (take GLOBALNAME_LENGTH a) = takeWhile (\<lambda>c. c \<noteq> 0) (take GLOBALNAME_LENGTH b)"

definition is_node :: "u8 list \<Rightarrow> keyvalue \<Rightarrow> bool" where
  "is_node name node \<longleftrightarrow> kv_hash node = name_hash name \<and> same_name (kv_key node) name"

definition name_slot :: "u8 list \<Rightarrow> nat" where
  "name_slot name = unat (name_hash name) mod HASH_SIZE"

definition hash_search :: "(nat \<Rightarrow> keyvalue list) \<Rightarrow> u8 list \<Rightarrow> keyvalue option" where
  "hash_search m name = find (is_node name) (m (name_slot name))"

definition hash_insert :: "(nat \<Rightarrow> keyvalue list) \<Rightarrow> u8 list \<Rightarrow> (nat \<Rightarrow> keyvalue list) \<times> keyvalue" where
  "hash_insert m name =
     (let node = \<lparr>kv_key = name, kv_hash = name_hash name, kv_value = 0, kv_queue = None\<rparr>
      in (m(name_slot name := node # m (name_slot name)), node))"

text \<open>The code changes a node through its pointer: the first node of the name in its chain.\<close>

fun chain_update :: "u8 list \<Rightarrow> keyvalue \<Rightarrow> keyvalue list \<Rightarrow> keyvalue list" where
  "chain_update name node [] = []"
| "chain_update name node (n # ns) = (if is_node name n then node # ns else n # chain_update name node ns)"

definition set_node :: "u8 list \<Rightarrow> keyvalue \<Rightarrow> harbor \<Rightarrow> harbor" where
  "set_node name node h = h\<lparr>hb_map := (hb_map h)(name_slot name := chain_update name node (hb_map h (name_slot name)))\<rparr>"

text \<open>\<open>hash_search\<close>, and \<open>hash_insert\<close> when there is none.\<close>

definition get_node :: "u8 list \<Rightarrow> harbor \<Rightarrow> harbor \<times> keyvalue" where
  "get_node name h =
     (case hash_search (hb_map h) name of
        Some node \<Rightarrow> (h, node)
      | None \<Rightarrow> (let (m, node) = hash_insert (hb_map h) name in (h\<lparr>hb_map := m\<rparr>, node)))"

definition hash_new :: "nat \<Rightarrow> keyvalue list" where
  "hash_new = (\<lambda>_. [])"

section \<open>Connections\<close>

abbreviation set_slave :: "nat \<Rightarrow> slave \<Rightarrow> harbor \<Rightarrow> harbor" where
  "set_slave i s h \<equiv> h\<lparr>hb_s := (hb_s h)(i := s)\<rparr>"

definition close_harbor :: "harbor \<Rightarrow> nat \<Rightarrow> (harbor \<times> harbor_action list) option" where
  "close_harbor h i =
     (let s = hb_s h i; acts = (if sl_fd s \<noteq> 0 then [HSocketClose (sl_fd s)] else [])
      in do {
        release_queue (sl_queue s);
        Some (set_slave i (s\<lparr>sl_status := STATUS_DOWN, sl_queue := None\<rparr>) h, acts) })"

definition report_harbor_down :: "harbor \<Rightarrow> nat \<Rightarrow> harbor_action list" where
  "report_harbor_down h i = [HSend 0 (hb_slave h) PTYPE_TEXT 0 (text_bytes (''D '' @ fmt_d (int i)))]"

definition slave0 :: slave where
  "slave0 = \<lparr>sl_fd = 0, sl_queue = None, sl_status = STATUS_WAIT, sl_length = 0, sl_read = 0, sl_size = [0, 0, 0, 0],
     sl_recv_buffer = None\<rparr>"

definition harbor_create :: harbor where
  "harbor_create = \<lparr>hb_id = 0, hb_slave = 0, hb_map = hash_new, hb_s = (\<lambda>_. slave0)\<rparr>"

fun release_slaves :: "nat list \<Rightarrow> harbor \<Rightarrow> (harbor \<times> harbor_action list) option" where
  "release_slaves [] h = Some (h, [])"
| "release_slaves (i # is) h =
     (if sl_fd (hb_s h i) \<noteq> 0 \<and> sl_status (hb_s h i) \<noteq> STATUS_DOWN then do {
        (h1, acts) \<leftarrow> close_harbor h i;
        (h2, acts') \<leftarrow> release_slaves is h1;
        Some (h2, acts @ acts') }
      else release_slaves is h)"

definition hash_delete :: "(nat \<Rightarrow> keyvalue list) \<Rightarrow> unit option" where
  "hash_delete m = fold (\<lambda>node r. do { r; release_queue (kv_queue node) }) (concat (map m [0..<HASH_SIZE])) (Some ())"

definition harbor_release :: "harbor \<Rightarrow> harbor_action list option" where
  "harbor_release h = do {
     (h1, acts) \<leftarrow> release_slaves [1..<REMOTE_MAX] h;
     hash_delete (hb_map h1);
     Some acts }"

section \<open>Packages\<close>

definition to_bigendian :: "u32 \<Rightarrow> u8 list" where
  "to_bigendian n = [ucast (drop_bit 24 n AND 0xff), ucast (drop_bit 16 n AND 0xff), ucast (drop_bit 8 n AND 0xff), ucast (n AND 0xff)]"

definition header_to_message :: "remote_message_header \<Rightarrow> u8 list" where
  "header_to_message header = to_bigendian (rh_source header) @ to_bigendian (rh_destination header) @ to_bigendian (rh_session header)"

text \<open>\<open>from_bigendian\<close> of the four bytes at an offset.\<close>

definition from_bigendian :: "u8 list \<Rightarrow> nat \<Rightarrow> u32" where
  "from_bigendian b i = push_bit 24 (ucast (b ! i)) OR push_bit 16 (ucast (b ! (i + 1))) OR push_bit 8 (ucast (b ! (i + 2)))
     OR ucast (b ! (i + 3))"

definition message_to_header :: "u8 list \<Rightarrow> remote_message_header" where
  "message_to_header message = \<lparr>rh_source = from_bigendian message 0, rh_destination = from_bigendian message 4,
     rh_session = from_bigendian message 8\<rparr>"

text \<open>The session as an \<open>int\<close>.\<close>

definition session_int :: "u32 \<Rightarrow> int" where
  "session_int s = sint s"

definition forward_local_messsage :: "(u32 \<Rightarrow> bool) \<Rightarrow> harbor \<Rightarrow> u8 list \<Rightarrow> harbor_action list option" where
  "forward_local_messsage alive h msg =
     (if length msg < HEADER_COOKIE_LENGTH then None
      else
        (let n = length msg - HEADER_COOKIE_LENGTH; header = message_to_header (drop n msg);
             t = drop_bit HANDLE_REMOTE_SHIFT (rh_destination header);
             destination = (rh_destination header AND HANDLE_MASK) OR push_bit HANDLE_REMOTE_SHIFT (of_int (hb_id h));
             session = session_int (rh_session header);
             send = HSend (rh_source header) destination (t OR PTYPE_TAG_DONTCOPY) session (take n msg)
         in Some
           (if alive destination then [send]
            else send # (if t \<noteq> PTYPE_ERROR then [HSend destination (rh_source header) PTYPE_ERROR session []] else [])
              @ [HError (''Unknown destination :'' @ fmt_x destination @ '' from :'' @ fmt_x (rh_source header) @ '' type('' @ fmt_u t @ '')'')])))"

definition send_remote :: "int \<Rightarrow> u8 list \<Rightarrow> remote_message_header \<Rightarrow> harbor_action list" where
  "send_remote fd buffer cookie =
     (let sz_header = length buffer + 12
      in if sz_header > 2 ^ 32 - 1 then
           [HError (''remote message from :'' @ pad0 8 (fmt_x (rh_source cookie)) @ '' to :'' @ pad0 8 (fmt_x (rh_destination cookie)) @ '' is too large.'')]
         else [HSocketSend fd (to_bigendian (of_nat sz_header) @ buffer @ header_to_message cookie)])"

text \<open>The node of the name is passed and returned as a value; its queue is not null.\<close>

definition dispatch_name_queue :: "harbor \<Rightarrow> keyvalue \<Rightarrow> (harbor \<times> keyvalue \<times> harbor_action list) option" where
  "dispatch_name_queue h node = do {
     queue \<leftarrow> kv_queue node;
     let handle = kv_value node;
     let harbor_id = unat (drop_bit HANDLE_REMOTE_SHIFT handle);
     let s = hb_s h harbor_id;
     let fd = sl_fd s;
     if fd = 0 then
       (if sl_status s = STATUS_DOWN then
          Some (h, node, [HError (''Drop message to '' @ byte_text (takeWhile (\<lambda>c. c \<noteq> 0) (kv_key node))
            @ '' (in harbor '' @ fmt_d (int harbor_id) @ '')'')])
        else do {
          (squeue, node1) \<leftarrow> (case sl_queue s of
              None \<Rightarrow> Some (queue, node\<lparr>kv_queue := None\<rparr>)
            | Some sq \<Rightarrow> do {
                (q1, ms) \<leftarrow> pop_all queue;
                sq1 \<leftarrow> push_all ms sq;
                Some (sq1, node\<lparr>kv_queue := Some q1\<rparr>) });
          if harbor_id = unat (drop_bit HANDLE_REMOTE_SHIFT (hb_slave h)) then do {
            (sq2, ms) \<leftarrow> pop_all squeue;
            release_queue (Some sq2);
            Some (set_slave harbor_id (s\<lparr>sl_queue := None\<rparr>) h, node1,
              map (\<lambda>m. HSend (rh_source (hm_header m)) handle
                    (drop_bit HANDLE_REMOTE_SHIFT (rh_destination (hm_header m)) OR PTYPE_TAG_DONTCOPY)
                    (session_int (rh_session (hm_header m))) (hm_buffer m)) ms) }
          else Some (set_slave harbor_id (s\<lparr>sl_queue := Some squeue\<rparr>) h, node1, []) })
     else do {
       (q1, ms) \<leftarrow> pop_all queue;
       Some (h, node\<lparr>kv_queue := Some q1\<rparr>,
         concat (map (\<lambda>m. send_remote fd (hm_buffer m)
           ((hm_header m)\<lparr>rh_destination := rh_destination (hm_header m) OR (handle AND HANDLE_MASK)\<rparr>)) ms)) } }"

definition hb_dispatch_queue :: "harbor \<Rightarrow> nat \<Rightarrow> (harbor \<times> harbor_action list) option" where
  "hb_dispatch_queue h i = do {
     let s = hb_s h i;
     let fd = sl_fd s;
     c_assert (fd \<noteq> 0);
     (case sl_queue s of
        None \<Rightarrow> Some (h, [])
      | Some queue \<Rightarrow> do {
          (q1, ms) \<leftarrow> pop_all queue;
          release_queue (Some q1);
          Some (set_slave i (s\<lparr>sl_queue := None\<rparr>) h,
            concat (map (\<lambda>m. send_remote fd (hm_buffer m) (hm_header m)) ms)) }) }"

text \<open>\<open>memcpy(s->size + s->read, buffer, n)\<close>.\<close>

definition fill_size :: "slave \<Rightarrow> u8 list \<Rightarrow> u8 list option" where
  "fill_size s bytes =
     (if sl_read s + length bytes \<le> length (sl_size s)
      then Some (take (sl_read s) (sl_size s) @ bytes @ drop (sl_read s + length bytes) (sl_size s)) else None)"

definition size_value :: "u8 list \<Rightarrow> nat" where
  "size_value sz = push_bit 16 (unat (sz ! 1)) OR push_bit 8 (unat (sz ! 2)) OR unat (sz ! 3)"

definition all_written :: "u8 option list \<Rightarrow> u8 list option" where
  "all_written b = (if None \<in> set b then None else Some (map the b))"

text \<open>The loop of \<open>push_socket_data\<close> over the \<open>switch\<close> on the status; a case that falls through to the next
  one has set the status to it.\<close>

partial_function (option) push_loop :: "(u32 \<Rightarrow> bool) \<Rightarrow> nat \<Rightarrow> harbor \<Rightarrow> u8 list \<Rightarrow> (harbor \<times> harbor_action list) option" where
  "push_loop alive i h buffer =
     (let s = hb_s h i
      in case sl_status s of
           STATUS_HANDSHAKE \<Rightarrow>
             (case buffer of
                [] \<Rightarrow> None
              | remote_id # rest \<Rightarrow>
                  if unat remote_id \<noteq> i then do {
                    (h1, acts) \<leftarrow> close_harbor h i;
                    Some (h1, HError (''Invalid shakehand id ('' @ fmt_d (int i) @ '') from fd = '' @ fmt_d (sl_fd s)
                      @ '' , harbor = '' @ fmt_u remote_id) # acts) }
                  else do {
                    (h1, acts) \<leftarrow> hb_dispatch_queue (set_slave i (s\<lparr>sl_status := STATUS_HEADER\<rparr>) h) i;
                    (h2, acts') \<leftarrow> push_loop alive i h1 rest;
                    Some (h2, acts @ acts') })
         | STATUS_HEADER \<Rightarrow>
             (let need = 4 - sl_read s
              in if length buffer < need then do {
                   sz \<leftarrow> fill_size s buffer;
                   Some (set_slave i (s\<lparr>sl_size := sz, sl_read := sl_read s + length buffer\<rparr>) h, []) }
                 else do {
                   sz \<leftarrow> fill_size s (take need buffer);
                   let rest = drop need buffer;
                   if sz ! 0 \<noteq> 0 then do {
                     (h1, acts) \<leftarrow> close_harbor (set_slave i (s\<lparr>sl_size := sz\<rparr>) h) i;
                     Some (h1, HError (''Message is too long from harbor '' @ fmt_d (int i)) # acts) }
                   else do {
                     let n = size_value sz;
                     let h1 = set_slave i (s\<lparr>sl_size := sz, sl_length := n, sl_read := 0,
                       sl_recv_buffer := Some (replicate n None), sl_status := STATUS_CONTENT\<rparr>) h;
                     if rest = [] then Some (h1, []) else push_loop alive i h1 rest } })
         | STATUS_CONTENT \<Rightarrow>
             (let need = sl_length s - sl_read s
              in do {
                recv \<leftarrow> sl_recv_buffer s;
                if length buffer < need then do {
                  b \<leftarrow> mem_copy recv (sl_read s) buffer;
                  Some (set_slave i (s\<lparr>sl_recv_buffer := Some b, sl_read := sl_read s + length buffer\<rparr>) h, []) }
                else do {
                  b \<leftarrow> mem_copy recv (sl_read s) (take need buffer);
                  msg \<leftarrow> all_written (take (sl_length s) b);
                  acts \<leftarrow> forward_local_messsage alive h msg;
                  let h1 = set_slave i (s\<lparr>sl_length := 0, sl_read := 0, sl_recv_buffer := None, sl_status := STATUS_HEADER\<rparr>) h;
                  let rest = drop need buffer;
                  if rest = [] then Some (h1, acts)
                  else do { (h2, acts') \<leftarrow> push_loop alive i h1 rest; Some (h2, acts @ acts') } } })
         | _ \<Rightarrow> Some (h, []))"

definition slave_of_fd :: "harbor \<Rightarrow> int \<Rightarrow> nat option" where
  "slave_of_fd h fd = find (\<lambda>i. sl_fd (hb_s h i) = fd) [1..<REMOTE_MAX]"

text \<open>The last result: the buffer of the message has been freed.\<close>

definition push_socket_data :: "(u32 \<Rightarrow> bool) \<Rightarrow> harbor \<Rightarrow> int \<Rightarrow> u8 list \<Rightarrow> (harbor \<times> harbor_action list \<times> bool) option" where
  "push_socket_data alive h fd buffer =
     (case slave_of_fd h fd of
        None \<Rightarrow> Some (h, [HError (''Invalid socket fd ('' @ fmt_d fd @ '') data'')], True)
      | Some i \<Rightarrow> do { (h1, acts) \<leftarrow> push_loop alive i h buffer; Some (h1, acts, False) })"

definition update_name :: "harbor \<Rightarrow> u8 list \<Rightarrow> u32 \<Rightarrow> (harbor \<times> harbor_action list) option" where
  "update_name h name handle =
     (let (h1, node0) = get_node name h; node = node0\<lparr>kv_value := handle\<rparr>
      in if kv_queue node \<noteq> None then do {
           (h2, node1, acts) \<leftarrow> dispatch_name_queue (set_node name node h1) node;
           release_queue (kv_queue node1);
           Some (set_node name (node1\<lparr>kv_queue := None\<rparr>) h2, acts) }
         else Some (set_node name node h1, []))"

section \<open>Messages to other nodes\<close>

definition remote_send_handle :: "harbor \<Rightarrow> u32 \<Rightarrow> u32 \<Rightarrow> u32 \<Rightarrow> int \<Rightarrow> u8 list \<Rightarrow> (harbor \<times> harbor_action list \<times> int) option" where
  "remote_send_handle h source destination t session msg =
     (let harbor_id = unat (drop_bit HANDLE_REMOTE_SHIFT destination); s = hb_s h harbor_id;
          cookie = \<lparr>rh_source = source, rh_destination = (destination AND HANDLE_MASK) OR push_bit HANDLE_REMOTE_SHIFT t,
                    rh_session = of_int session\<rparr>
      in if int harbor_id = hb_id h then
           Some (h, [HSend source destination (t OR PTYPE_TAG_DONTCOPY) session msg], 1)
         else if sl_fd s = 0 \<or> sl_status s = STATUS_HANDSHAKE then
           (if sl_status s = STATUS_DOWN then
              Some (h, [HSend destination source PTYPE_ERROR 0 [],
                HError (''Drop message to harbor '' @ fmt_d (int harbor_id) @ '' from '' @ fmt_x source @ '' to '' @ fmt_x destination
                  @ '' (session = '' @ fmt_d session @ '', msgsz = '' @ fmt_d (int (length msg)) @ '')'')], 0)
            else do {
              q \<leftarrow> push_queue_msg \<lparr>hm_header = cookie, hm_buffer = msg\<rparr>
                     (case sl_queue s of None \<Rightarrow> hb_new_queue | Some q \<Rightarrow> q);
              Some (set_slave harbor_id (s\<lparr>sl_queue := Some q\<rparr>) h, [], 1) })
         else Some (h, send_remote (sl_fd s) msg cookie, 0))"

definition remote_send_name :: "harbor \<Rightarrow> u32 \<Rightarrow> u8 list \<Rightarrow> u32 \<Rightarrow> int \<Rightarrow> u8 list \<Rightarrow> (harbor \<times> harbor_action list \<times> int) option" where
  "remote_send_name h source name t session msg =
     (let (h1, node) = get_node name h
      in if kv_value node = 0 then do {
           q \<leftarrow> push_queue_msg \<lparr>hm_header = \<lparr>rh_source = source, rh_destination = push_bit HANDLE_REMOTE_SHIFT t,
                    rh_session = of_int session\<rparr>, hm_buffer = msg\<rparr>
                  (case kv_queue node of None \<Rightarrow> hb_new_queue | Some q \<Rightarrow> q);
           Some (set_node name (node\<lparr>kv_queue := Some q\<rparr>) h1,
             [HSend 0 (hb_slave h) PTYPE_TEXT 0 (text_bytes ''Q '' @ takeWhile (\<lambda>c. c \<noteq> 0) name)], 1) }
         else remote_send_handle h1 source (kv_value node) t session msg)"

section \<open>Commands and messages\<close>

definition hb_handshake :: "harbor \<Rightarrow> nat \<Rightarrow> harbor_action list" where
  "hb_handshake h i = [HSocketSend (sl_fd (hb_s h i)) [of_int (hb_id h)]]"

text \<open>\<open>sscanf(buffer, "%d %d", &fd, &id)\<close> with both preset to 0.\<close>

definition scan_fd_id :: "string \<Rightarrow> int \<times> int" where
  "scan_fd_id t =
     (case scan_int t of
        None \<Rightarrow> (0, 0)
      | Some (fd, r) \<Rightarrow> (case scan_int r of None \<Rightarrow> (fd, 0) | Some (k, _) \<Rightarrow> (fd, k)))"

text \<open>The text of a command, without its terminating zero.\<close>

definition harbor_command :: "harbor \<Rightarrow> u8 list \<Rightarrow> u32 \<Rightarrow> (harbor \<times> harbor_action list) option" where
  "harbor_command h msg source =
     (let name = drop 2 msg; s = int (length msg) - 2; c = (case msg of [] \<Rightarrow> 0 | b # _ \<Rightarrow> unat b)
      in if c = 78 then
           (if s \<le> 0 \<or> s \<ge> int GLOBALNAME_LENGTH then
              Some (h, [HError (''Invalid global name '' @ c_string (byte_text name))])
            else update_name h (name @ replicate (GLOBALNAME_LENGTH - length name) 0) source)
         else if c = 83 \<or> c = 65 then
           (if s < 0 then None
            else
              (let buffer = c_string (byte_text name); (fd, k) = scan_fd_id buffer
               in if fd = 0 \<or> k \<le> 0 \<or> k \<ge> int REMOTE_MAX then
                    Some (h, [HError (''Invalid command '' @ byte_text [of_nat c] @ '' '' @ buffer)])
                  else
                    (let i = nat k; sl = hb_s h i
                     in if sl_fd sl \<noteq> 0 then Some (h, [HError (''Harbor '' @ fmt_d k @ '' alreay exist'')])
                        else
                          (let h1 = set_slave i (sl\<lparr>sl_fd := fd\<rparr>) h; acts = HSocketStart fd # hb_handshake h1 i
                           in if c = 83 then Some (set_slave i (sl\<lparr>sl_fd := fd, sl_status := STATUS_HANDSHAKE\<rparr>) h, acts)
                              else do {
                                (h2, acts') \<leftarrow> hb_dispatch_queue (set_slave i (sl\<lparr>sl_fd := fd, sl_status := STATUS_HEADER\<rparr>) h) i;
                                Some (h2, acts @ acts') }))))
         else Some (h, [HError (''Unknown command '' @ c_string (byte_text msg))]))"

definition harbor_id :: "harbor \<Rightarrow> int \<Rightarrow> nat" where
  "harbor_id h fd = (case slave_of_fd h fd of None \<Rightarrow> 0 | Some i \<Rightarrow> i)"

text \<open>A message to the service: from a socket, a command of the slave service with its source, or a
  message to another node, to a name or to a handle.\<close>

datatype harbor_dest = ToName "u8 list" | ToHandle u32

datatype harbor_input = HISocket np_msg | HICommand "u8 list" u32 | HIRemote u32 u32 int harbor_dest "u8 list"

definition mainloop :: "(u32 \<Rightarrow> bool) \<Rightarrow> harbor \<Rightarrow> harbor_input \<Rightarrow> (harbor \<times> harbor_action list) option" where
  "mainloop alive h input =
     (case input of
        HISocket message \<Rightarrow>
          (case message of
             MData fd buffer \<Rightarrow> do {
               (h1, acts, freed) \<leftarrow> push_socket_data alive h fd buffer;
               c_assert (\<not> freed);
               Some (h1, acts) }
           | MError fd txt \<Rightarrow>
               Some (h, if harbor_id h fd \<noteq> 0 then report_harbor_down h (harbor_id h fd)
                        else [HError (''Unkown fd ('' @ fmt_d fd @ '') closed'')])
           | MClose fd \<Rightarrow>
               Some (h, if harbor_id h fd \<noteq> 0 then report_harbor_down h (harbor_id h fd)
                        else [HError (''Unkown fd ('' @ fmt_d fd @ '') closed'')])
           | MConnect fd \<Rightarrow> Some (h, [])
           | MWarning fd ud \<Rightarrow>
               Some (h, if harbor_id h fd \<noteq> 0
                        then [HError (''message havn't send to Harbor ('' @ fmt_d (int (harbor_id h fd)) @ '') reach '' @ fmt_d ud @ '' K'')]
                        else [])
           | _ \<Rightarrow> Some (h, [HError (''recv invalid socket message type '' @ fmt_u PTYPE_SOCKET)]))
      | HICommand msg source \<Rightarrow> harbor_command h msg source
      | HIRemote source t session dest msg \<Rightarrow> do {
          (h1, acts, kept) \<leftarrow> (case dest of
              ToName name \<Rightarrow> remote_send_name h source name t session msg
            | ToHandle handle \<Rightarrow> remote_send_handle h source handle t session msg);
          Some (h1, acts) })"

text \<open>\<open>sscanf(args, "%d %u", &harbor_id, &slave)\<close>; the second number is read as unsigned.\<close>

definition harbor_init :: "harbor \<Rightarrow> string \<Rightarrow> harbor \<times> harbor_action list \<times> int" where
  "harbor_init h args =
     (let (k, slv) = scan_fd_id args; slave = of_int slv :: u32
      in if slave = 0 then (h, [], 1)
         else (h\<lparr>hb_id := k, hb_slave := slave\<rparr>, [HCallback, HHarborStart], 0))"

end
