(* ===== verification/HarborQueue.thy ===== *)
theory HarborQueue
  imports Harbor
begin

text \<open>
  The queues of the harbor service are first-in first-out queues: \<open>hq_rep q ms\<close> says that \<open>q\<close> is well
  formed and holds the messages \<open>ms\<close>.  Here the tail is advanced with a division, and the array doubles
  when one free cell is left.
\<close>

definition hq_rep :: "harbor_msg_queue \<Rightarrow> harbor_msg list \<Rightarrow> bool" where
  "hq_rep q ms \<longleftrightarrow> length (hq_data q) = hq_size q \<and> hq_head q < hq_size q \<and> hq_tail q < hq_size q
     \<and> ring_list (hq_data q) (hq_head q) (ring_len (hq_size q) (hq_head q) (hq_tail q)) = map Some ms"

lemma hq_rep_unique: "hq_rep q ms \<Longrightarrow> hq_rep q ms' \<Longrightarrow> ms = ms'"
  by (auto simp: hq_rep_def intro: injD[OF inj_mapI[OF inj_Some]])

lemma hb_new_queue_rep [simp]: "hq_rep hb_new_queue []"
  by (simp add: hq_rep_def hb_new_queue_def HARBOR_QUEUE_SIZE_def)

text \<open>Writing at the tail of a queue that is not full, and making room in one that is.\<close>

lemma hq_rep_snoc:
  assumes "hq_rep q ms" and "Suc (hq_tail q) mod hq_size q \<noteq> hq_head q"
  shows "hq_rep (q\<lparr>hq_data := (hq_data q)[hq_tail q := Some m], hq_tail := Suc (hq_tail q) mod hq_size q\<rparr>) (ms @ [m])"
proof -
  let ?n = "ring_len (hq_size q) (hq_head q) (hq_tail q)"
  from assms(1) have q: "length (hq_data q) = hq_size q" "hq_head q < hq_size q" "hq_tail q < hq_size q"
    and ms: "ring_list (hq_data q) (hq_head q) ?n = map Some ms"
    by (auto simp: hq_rep_def)
  note adv = ring_next_mod[OF q(3), symmetric]
  have "?n < length (hq_data q)"
    using q ring_len_less by simp
  from ring_list_snoc[OF this, of "hq_head q" "Some m"] ms
  have "ring_list ((hq_data q)[hq_tail q := Some m]) (hq_head q) (Suc ?n) = map Some (ms @ [m])"
    by (simp add: q ring_tail)
  with q assms(2) show ?thesis
    by (simp add: hq_rep_def adv ring_len_push ring_next_less)
qed

lemma hq_rep_grow:
  assumes rep: "hq_rep q ms" and full: "Suc (hq_tail q) mod hq_size q = hq_head q"
    and q': "q' = \<lparr>hq_size = hq_size q * 2, hq_head = 0, hq_tail = hq_size q - 1,
       hq_data = map (\<lambda>i. hq_data q ! ((i + hq_head q) mod hq_size q)) [0..<hq_size q - 1]
         @ replicate (hq_size q + 1) None\<rparr>"
  shows "hq_rep q' ms" and "Suc (hq_tail q') mod hq_size q' \<noteq> hq_head q'"
proof -
  from rep have q: "length (hq_data q) = hq_size q" "hq_head q < hq_size q" "hq_tail q < hq_size q"
    by (auto simp: hq_rep_def)
  from full q have "Suc (ring_len (hq_size q) (hq_head q) (hq_tail q)) = hq_size q"
    by (intro ring_len_full) (simp_all add: ring_next_mod)
  then have n: "ring_len (hq_size q) (hq_head q) (hq_tail q) = hq_size q - 1"
    by simp
  have "ring_list (hq_data q') 0 (hq_size q - 1) = ring_list (hq_data q) (hq_head q) (hq_size q - 1)"
    using q by (intro nth_equalityI) (simp_all add: q' ring_list_nth nth_append add.commute)
  with rep q n show "hq_rep q' ms"
    by (auto simp: hq_rep_def q' ring_len_def)
  show "Suc (hq_tail q') mod hq_size q' \<noteq> hq_head q'"
    using q by (simp add: q')
qed

lemma push_queue_msg_rep:
  assumes "hq_rep q ms"
  shows "\<exists>q'. push_queue_msg m q = Some q' \<and> hq_rep q' (ms @ [m])"
proof -
  define q1 where "q1 = (if (hq_tail q + 1) mod hq_size q = hq_head q then
      \<lparr>hq_size = hq_size q * 2, hq_head = 0, hq_tail = hq_size q - 1,
       hq_data = map (\<lambda>i. hq_data q ! ((i + hq_head q) mod hq_size q)) [0..<hq_size q - 1]
         @ replicate (hq_size q + 1) None\<rparr> else q)"
  have q1: "hq_rep q1 ms \<and> Suc (hq_tail q1) mod hq_size q1 \<noteq> hq_head q1"
    using assms hq_rep_grow[OF assms, of q1] by (cases "Suc (hq_tail q) mod hq_size q = hq_head q") (simp_all add: q1_def)
  then have "hq_tail q1 < length (hq_data q1)"
    by (simp add: hq_rep_def)
  then have "push_queue_msg m q
      = Some (q1\<lparr>hq_data := (hq_data q1)[hq_tail q1 := Some m], hq_tail := Suc (hq_tail q1) mod hq_size q1\<rparr>)"
    unfolding push_queue_msg_def Let_def q1_def[symmetric] by simp
  with q1 hq_rep_snoc[of q1 ms m] show ?thesis by blast
qed

lemma pop_queue_Nil: "hq_rep q [] \<Longrightarrow> pop_queue q = Some (q, None)"
  by (auto simp: hq_rep_def pop_queue_def ring_len_eq_0 dest: arg_cong[of _ _ length])

lemma pop_queue_Cons:
  assumes "hq_rep q (m # ms)"
  shows "\<exists>q'. pop_queue q = Some (q', Some m) \<and> hq_rep q' ms"
proof -
  from assms have q: "length (hq_data q) = hq_size q" "hq_head q < hq_size q" "hq_tail q < hq_size q"
    and ms: "ring_list (hq_data q) (hq_head q) (ring_len (hq_size q) (hq_head q) (hq_tail q)) = map Some (m # ms)"
    by (auto simp: hq_rep_def)
  from ms have ne: "hq_head q \<noteq> hq_tail q" by auto
  note adv = ring_next_mod[OF q(2), symmetric]
  from ms have "hq_data q ! hq_head q = Some m"
    "ring_list (hq_data q) (ring_next (hq_size q) (hq_head q)) (ring_len (hq_size q) (ring_next (hq_size q) (hq_head q)) (hq_tail q))
       = map Some ms"
    using q ring_len_pop[OF q(2,3) ne] by (simp_all add: ring_list_Cons)
  with q ne show ?thesis
    by (simp add: pop_queue_def hq_rep_def adv ring_next_less)
qed

interpretation hbq: fifo hq_rep "\<lambda>_ _. True" push_queue_msg pop_queue
  by unfold_locales (auto simp: push_queue_msg_rep pop_queue_Nil pop_queue_Cons)

text \<open>The two loops over a queue end: one meets every message in order, the other adds every message.\<close>

lemma pop_all_rep: "hq_rep q ms \<Longrightarrow> \<exists>q'. pop_all q = Some (q', ms) \<and> hq_rep q' []"
proof (induction ms arbitrary: q)
  case Nil
  then show ?case by (subst pop_all.simps) (simp add: pop_queue_Nil)
next
  case (Cons m ms)
  from hbq.deq_Cons[OF Cons.prems] obtain q1 where q1: "pop_queue q = Some (q1, Some m)" "hq_rep q1 ms" by blast
  from Cons.IH[OF q1(2)] obtain q2 where "pop_all q1 = Some (q2, ms)" "hq_rep q2 []" by blast
  with q1(1) show ?case by (subst pop_all.simps) simp
qed

lemma push_all_rep: "hq_rep q ms \<Longrightarrow> \<exists>q'. push_all ns q = Some q' \<and> hq_rep q' (ms @ ns)"
proof (induction ns arbitrary: q ms)
  case (Cons n ns)
  from hbq.enq[OF Cons.prems TrueI, of n] obtain q1 where q1: "push_queue_msg n q = Some q1" "hq_rep q1 (ms @ [n])" by blast
  from Cons.IH[OF q1(2)] q1(1) show ?case by auto
qed simp

lemma release_queue_rep: "hq_rep q ms \<Longrightarrow> release_queue (Some q) = Some ()"
  using pop_all_rep[of q ms] by (auto simp: release_queue_def)

lemma release_queue_None [simp]: "release_queue None = Some ()"
  by (simp add: release_queue_def)

end
