(* ===== verification/HarborStream.thy ===== *)
theory HarborStream
  imports HarborQueue
begin

text \<open>
  The byte stream between two harbor services: what arrives does not depend on how the stream is cut,
  and the messages one node sends arrive at the other in order.
\<close>

section \<open>A connection\<close>

text \<open>What holds of a connection in every reachable state.\<close>

definition hq_wf :: "harbor_msg_queue option \<Rightarrow> bool" where
  "hq_wf qo \<longleftrightarrow> (\<forall>q. qo = Some q \<longrightarrow> (\<exists>ms. hq_rep q ms))"

definition content_ok :: "slave \<Rightarrow> bool" where
  "content_ok s \<longleftrightarrow> (\<exists>b. sl_recv_buffer s = Some b \<and> length b = sl_length s \<and> None \<notin> set (take (sl_read s) b))
     \<and> (sl_read s < sl_length s \<or> sl_length s = 0 \<and> sl_read s = 0)"

definition slave_ok :: "slave \<Rightarrow> bool" where
  "slave_ok s \<longleftrightarrow> length (sl_size s) = 4 \<and> hq_wf (sl_queue s) \<and>
     (case sl_status s of
        STATUS_WAIT \<Rightarrow> sl_fd s = 0 \<and> sl_read s = 0
      | STATUS_HANDSHAKE \<Rightarrow> sl_fd s \<noteq> 0 \<and> sl_read s = 0
      | STATUS_HEADER \<Rightarrow> sl_fd s \<noteq> 0 \<and> sl_queue s = None \<and> sl_read s < 4
      | STATUS_CONTENT \<Rightarrow> sl_fd s \<noteq> 0 \<and> sl_queue s = None \<and> content_ok s
      | STATUS_DOWN \<Rightarrow> sl_fd s \<noteq> 0 \<and> sl_queue s = None)"

lemma hq_wf_None [simp]: "hq_wf None"
  by (simp add: hq_wf_def)

lemma hq_wf_Some: "hq_wf (Some q) \<longleftrightarrow> (\<exists>ms. hq_rep q ms)"
  by (simp add: hq_wf_def)

lemma release_queue_wf: "hq_wf qo \<Longrightarrow> release_queue qo = Some ()"
  by (cases qo) (auto simp: hq_wf_Some release_queue_rep)

text \<open>The operations on one connection, as functions of the connection.\<close>

definition closed :: "slave \<Rightarrow> slave" where
  "closed s = s\<lparr>sl_status := STATUS_DOWN, sl_queue := None\<rparr>"

definition close_acts :: "slave \<Rightarrow> harbor_action list" where
  "close_acts s = (if sl_fd s \<noteq> 0 then [HSocketClose (sl_fd s)] else [])"

lemma close_harbor_wf:
  "hq_wf (sl_queue (hb_s h i)) \<Longrightarrow> close_harbor h i = Some (set_slave i (closed (hb_s h i)) h, close_acts (hb_s h i))"
  by (simp add: close_harbor_def closed_def close_acts_def release_queue_wf Let_def)

definition queued :: "harbor_msg_queue option \<Rightarrow> harbor_msg list" where
  "queued qo = (case qo of None \<Rightarrow> [] | Some q \<Rightarrow> map the (ring_list (hq_data q) (hq_head q) (ring_len (hq_size q) (hq_head q) (hq_tail q))))"

lemma queued_None [simp]: "queued None = []"
  by (simp add: queued_def)

lemma queued_rep: "hq_rep q ms \<Longrightarrow> queued (Some q) = ms"
  by (simp add: queued_def hq_rep_def comp_def)

definition flush_acts :: "slave \<Rightarrow> harbor_action list" where
  "flush_acts s = concat (map (\<lambda>m. send_remote (sl_fd s) (hm_buffer m) (hm_header m)) (queued (sl_queue s)))"

lemma dispatch_queue_wf:
  assumes "hq_wf (sl_queue (hb_s h i))" and "sl_fd (hb_s h i) \<noteq> 0"
  shows "hb_dispatch_queue h i = Some (set_slave i (hb_s h i\<lparr>sl_queue := None\<rparr>) h, flush_acts (hb_s h i))"
proof (cases "sl_queue (hb_s h i)")
  case None
  moreover have "set_slave i (hb_s h i\<lparr>sl_queue := None\<rparr>) h = h"
    using None by (cases h, cases "hb_s h i") (auto simp: fun_eq_iff)
  ultimately show ?thesis using assms by (simp add: hb_dispatch_queue_def flush_acts_def)
next
  case (Some q)
  with assms obtain ms where "hq_rep q ms" by (auto simp: hq_wf_Some)
  with pop_all_rep obtain q' where "pop_all q = Some (q', ms)" "hq_rep q' []" by blast
  with Some assms \<open>hq_rep q ms\<close> show ?thesis
    by (simp add: hb_dispatch_queue_def flush_acts_def release_queue_rep queued_rep Let_def)
qed

section \<open>The loop, one case at a time\<close>

lemma push_loop_idle:
  "sl_status (hb_s h i) = STATUS_WAIT \<or> sl_status (hb_s h i) = STATUS_DOWN \<Longrightarrow> push_loop alive i h buf = Some (h, [])"
  by (subst push_loop.simps) (auto simp: Let_def)

text \<open>The first bytes of the length that have arrived, with the rest of the array.\<close>

definition size_filled :: "slave \<Rightarrow> u8 list \<Rightarrow> u8 list" where
  "size_filled s bytes = take (sl_read s) (sl_size s) @ bytes @ drop (sl_read s + length bytes) (sl_size s)"

definition header_slave :: "slave \<Rightarrow> u8 list \<Rightarrow> slave" where
  "header_slave s sz = s\<lparr>sl_size := sz, sl_length := size_value sz, sl_read := 0,
     sl_recv_buffer := Some (replicate (size_value sz) None), sl_status := STATUS_CONTENT\<rparr>"

lemma push_loop_header_part:
  assumes "slave_ok (hb_s h i)" "sl_status (hb_s h i) = STATUS_HEADER" "length buf < 4 - sl_read (hb_s h i)"
  shows "push_loop alive i h buf
    = Some (set_slave i (hb_s h i\<lparr>sl_size := size_filled (hb_s h i) buf, sl_read := sl_read (hb_s h i) + length buf\<rparr>) h, [])"
  using assms by (subst push_loop.simps) (simp add: slave_ok_def fill_size_def size_filled_def Let_def)

lemma push_loop_header_full:
  assumes "slave_ok (hb_s h i)" "sl_status (hb_s h i) = STATUS_HEADER" "4 - sl_read (hb_s h i) \<le> length buf"
    and "need = 4 - sl_read (hb_s h i)" and "sz = size_filled (hb_s h i) (take need buf)"
  shows "push_loop alive i h buf =
    (if sz ! 0 \<noteq> 0 then
       Some (set_slave i (closed (hb_s h i\<lparr>sl_size := sz\<rparr>)) h,
         HError (''Message is too long from harbor '' @ fmt_d (int i)) # close_acts (hb_s h i))
     else if drop need buf = [] then Some (set_slave i (header_slave (hb_s h i) sz) h, [])
     else push_loop alive i (set_slave i (header_slave (hb_s h i) sz) h) (drop need buf))"
proof -
  have "fill_size (hb_s h i) (take need buf) = Some sz"
    using assms by (simp add: slave_ok_def fill_size_def size_filled_def)
  moreover have "close_harbor (set_slave i (hb_s h i\<lparr>sl_size := sz\<rparr>) h) i
      = Some (set_slave i (closed (hb_s h i\<lparr>sl_size := sz\<rparr>)) h, close_acts (hb_s h i))"
    using assms(1) by (subst close_harbor_wf) (simp_all add: slave_ok_def close_acts_def)
  ultimately show ?thesis
    using assms(2-4) by (subst push_loop.simps) (simp add: header_slave_def Let_def)
qed

definition content_filled :: "slave \<Rightarrow> u8 list \<Rightarrow> u8 option list" where
  "content_filled s bytes = take (sl_read s) (the (sl_recv_buffer s)) @ map Some bytes
     @ drop (sl_read s + length bytes) (the (sl_recv_buffer s))"

lemma push_loop_content_part:
  assumes "slave_ok (hb_s h i)" "sl_status (hb_s h i) = STATUS_CONTENT" "length buf < sl_length (hb_s h i) - sl_read (hb_s h i)"
  shows "push_loop alive i h buf
    = Some (set_slave i (hb_s h i\<lparr>sl_recv_buffer := Some (content_filled (hb_s h i) buf), sl_read := sl_read (hb_s h i) + length buf\<rparr>) h, [])"
  using assms by (subst push_loop.simps) (auto simp: slave_ok_def content_ok_def mem_copy_def content_filled_def Let_def)

definition package_slave :: "slave \<Rightarrow> slave" where
  "package_slave s = s\<lparr>sl_length := 0, sl_read := 0, sl_recv_buffer := None, sl_status := STATUS_HEADER\<rparr>"

lemma push_loop_content_full:
  assumes "slave_ok (hb_s h i)" "sl_status (hb_s h i) = STATUS_CONTENT" "sl_length (hb_s h i) - sl_read (hb_s h i) \<le> length buf"
    and "need = sl_length (hb_s h i) - sl_read (hb_s h i)"
  shows "push_loop alive i h buf =
    do { acts \<leftarrow> forward_local_messsage alive h (map the (content_filled (hb_s h i) (take need buf)));
         if drop need buf = [] then Some (set_slave i (package_slave (hb_s h i)) h, acts)
         else do { (h2, acts') \<leftarrow> push_loop alive i (set_slave i (package_slave (hb_s h i)) h) (drop need buf);
                   Some (h2, acts @ acts') } }"
proof -
  from assms obtain b where b: "sl_recv_buffer (hb_s h i) = Some b" "length b = sl_length (hb_s h i)"
    "None \<notin> set (take (sl_read (hb_s h i)) b)" "sl_read (hb_s h i) \<le> sl_length (hb_s h i)"
    by (auto simp: slave_ok_def content_ok_def)
  then have "mem_copy b (sl_read (hb_s h i)) (take need buf) = Some (content_filled (hb_s h i) (take need buf))"
    using assms by (simp add: mem_copy_def content_filled_def)
  moreover have "all_written (take (sl_length (hb_s h i)) (content_filled (hb_s h i) (take need buf)))
      = Some (map the (content_filled (hb_s h i) (take need buf)))"
    using b assms by (auto simp: all_written_def content_filled_def dest: in_set_takeD)
  ultimately show ?thesis
    using assms b(1) unfolding package_slave_def assms(4) by (subst push_loop.simps) (simp add: Let_def)
qed

lemma push_loop_handshake:
  assumes "slave_ok (hb_s h i)" "sl_status (hb_s h i) = STATUS_HANDSHAKE"
  shows "push_loop alive i h (r # rest) =
    (if unat r \<noteq> i then
       Some (set_slave i (closed (hb_s h i)) h,
         HError (''Invalid shakehand id ('' @ fmt_d (int i) @ '') from fd = '' @ fmt_d (sl_fd (hb_s h i))
           @ '' , harbor = '' @ fmt_u r) # close_acts (hb_s h i))
     else do { (h2, acts') \<leftarrow> push_loop alive i (set_slave i (hb_s h i\<lparr>sl_status := STATUS_HEADER, sl_queue := None\<rparr>) h) rest;
               Some (h2, flush_acts (hb_s h i) @ acts') })"
proof -
  have "hb_dispatch_queue (set_slave i (hb_s h i\<lparr>sl_status := STATUS_HEADER\<rparr>) h) i
      = Some (set_slave i (hb_s h i\<lparr>sl_status := STATUS_HEADER, sl_queue := None\<rparr>) h, flush_acts (hb_s h i))"
    using assms by (subst dispatch_queue_wf) (auto simp: slave_ok_def flush_acts_def)
  then show ?thesis
    using assms by (subst push_loop.simps) (simp add: close_harbor_wf slave_ok_def Let_def)
qed

section \<open>How the stream is cut does not matter\<close>

lemma slave_ok_fill_size:
  assumes "slave_ok s" "sl_status s = STATUS_HEADER" "length bytes < 4 - sl_read s"
  shows "slave_ok (s\<lparr>sl_size := size_filled s bytes, sl_read := sl_read s + length bytes\<rparr>)"
  using assms by (auto simp: slave_ok_def size_filled_def)

lemma slave_ok_header:
  assumes "slave_ok s" "sl_status s = STATUS_HEADER" "length sz = 4"
  shows "slave_ok (header_slave s sz)"
  using assms by (auto simp: slave_ok_def header_slave_def content_ok_def)

lemma slave_ok_fill_content:
  assumes "slave_ok s" "sl_status s = STATUS_CONTENT" "length bytes < sl_length s - sl_read s"
  shows "slave_ok (s\<lparr>sl_recv_buffer := Some (content_filled s bytes), sl_read := sl_read s + length bytes\<rparr>)"
  using assms by (auto simp: slave_ok_def content_ok_def content_filled_def dest: in_set_takeD)

lemma slave_ok_package: "slave_ok s \<Longrightarrow> sl_status s = STATUS_CONTENT \<Longrightarrow> slave_ok (package_slave s)"
  by (auto simp: slave_ok_def package_slave_def)

lemma slave_ok_closed: "length (sl_size s) = 4 \<Longrightarrow> sl_fd s \<noteq> 0 \<Longrightarrow> slave_ok (closed s)"
  by (auto simp: slave_ok_def closed_def)

lemma slave_ok_shaken: "slave_ok s \<Longrightarrow> sl_status s = STATUS_HANDSHAKE
    \<Longrightarrow> slave_ok (s\<lparr>sl_status := STATUS_HEADER, sl_queue := None\<rparr>)"
  by (auto simp: slave_ok_def)

lemma closed_status [simp]: "sl_status (closed s) = STATUS_DOWN"
  by (simp add: closed_def)

lemma length_size_filled: "slave_ok s \<Longrightarrow> sl_read s + length bytes \<le> 4 \<Longrightarrow> length (size_filled s bytes) = 4"
  by (auto simp: size_filled_def slave_ok_def)

lemma size_filled_append:
  assumes "slave_ok s" "sl_read s + length a + length b \<le> 4"
  shows "size_filled (s\<lparr>sl_size := size_filled s a, sl_read := sl_read s + length a\<rparr>) b = size_filled s (a @ b)"
  using assms by (auto simp: size_filled_def slave_ok_def ac_simps)

lemma content_filled_append:
  assumes "slave_ok s" "sl_status s = STATUS_CONTENT" "sl_read s + length a + length b \<le> sl_length s"
  shows "content_filled (s\<lparr>sl_recv_buffer := Some (content_filled s a), sl_read := sl_read s + length a\<rparr>) b = content_filled s (a @ b)"
  using assms by (auto simp: content_filled_def slave_ok_def content_ok_def ac_simps)

lemma push_loop_header_Nil:
  assumes "slave_ok (hb_s h i)" "sl_status (hb_s h i) = STATUS_HEADER"
  shows "push_loop alive i h [] = Some (h, [])"
proof -
  have "hb_s h i\<lparr>sl_size := size_filled (hb_s h i) [], sl_read := sl_read (hb_s h i) + length []\<rparr> = hb_s h i"
    by (simp add: size_filled_def)
  then show ?thesis
    using push_loop_header_part[OF assms, of "[]" alive] assms by (simp add: slave_ok_def)
qed

text \<open>One chunk after another.\<close>

definition and_then :: "(harbor \<times> harbor_action list) option \<Rightarrow> (harbor \<Rightarrow> (harbor \<times> harbor_action list) option)
    \<Rightarrow> (harbor \<times> harbor_action list) option" where
  "and_then r f = do { (h1, acts) \<leftarrow> r; (h2, acts') \<leftarrow> f h1; Some (h2, acts @ acts') }"

lemma and_then_simps [simp]:
  "and_then None f = None"
  "and_then (Some (h, [])) f = f h"
  "and_then (Some (h, acts)) (\<lambda>h. Some (h, [])) = Some (h, acts)"
  "and_then (do { (h2, acts') \<leftarrow> r'; Some (h2, acts @ acts') }) f
     = do { (h2, acts') \<leftarrow> and_then r' f; Some (h2, acts @ acts') }"
  by (auto simp: and_then_def split: prod.splits Option.bind_splits)

text \<open>A connection that is down keeps a stale \<open>read\<close>, which nothing looks at: \<open>settled\<close> leaves it out.\<close>

definition settled :: "nat \<Rightarrow> (harbor \<times> harbor_action list) option \<Rightarrow> (harbor \<times> harbor_action list) option" where
  "settled i r = do { (h, acts) \<leftarrow> r;
     Some (if sl_status (hb_s h i) = STATUS_DOWN then set_slave i (hb_s h i\<lparr>sl_read := 0\<rparr>) h else h, acts) }"

lemma settled_simps [simp]:
  "settled i None = None"
  "settled i (Some (h, acts)) = Some (if sl_status (hb_s h i) = STATUS_DOWN then set_slave i (hb_s h i\<lparr>sl_read := 0\<rparr>) h else h, acts)"
  by (simp_all add: settled_def)

lemma settled_prefix:
  "settled i (do { (h2, acts') \<leftarrow> r; Some (h2, acts @ acts') }) = do { (h2, acts') \<leftarrow> settled i r; Some (h2, acts @ acts') }"
  by (auto simp: settled_def split: prod.splits Option.bind_splits)

lemma and_then_Some: "and_then (Some (h, acts)) f = do { (h2, acts') \<leftarrow> f h; Some (h2, acts @ acts') }"
  by (simp add: and_then_def)

text \<open>The bytes of the length arrive in two parts.\<close>

lemma push_loop_header_cut:
  assumes ok: "slave_ok (hb_s h i)" and st: "sl_status (hb_s h i) = STATUS_HEADER"
    and part: "length a < 4 - sl_read (hb_s h i)" and full: "4 - sl_read (hb_s h i) \<le> length (a @ b)"
    and h1: "h1 = set_slave i (hb_s h i\<lparr>sl_size := size_filled (hb_s h i) a, sl_read := sl_read (hb_s h i) + length a\<rparr>) h"
  shows "settled i (push_loop alive i h (a @ b)) = settled i (push_loop alive i h1 b)"
proof -
  let ?s = "hb_s h i" and ?need = "4 - sl_read (hb_s h i)"
  define n where "n = ?need - length a"
  define z where "z = size_filled ?s (a @ take n b)"
  have take: "take ?need (a @ b) = a @ take n b" and drop: "drop ?need (a @ b) = drop n b"
    using part by (simp_all add: n_def)
  have ok1: "slave_ok (hb_s h1 i)" and st1: "sl_status (hb_s h1 i) = STATUS_HEADER"
    using slave_ok_fill_size[OF ok st part] st h1 by simp_all
  have z1: "z = size_filled (hb_s h1 i) (take n b)"
    using full part size_filled_append[OF ok, of a "take n b"] by (simp add: z_def n_def h1)
  have whole: "push_loop alive i h (a @ b) =
      (if z ! 0 \<noteq> 0 then Some (set_slave i (closed (?s\<lparr>sl_size := z\<rparr>)) h,
         HError (''Message is too long from harbor '' @ fmt_d (int i)) # close_acts ?s)
       else if drop n b = [] then Some (set_slave i (header_slave ?s z) h, [])
       else push_loop alive i (set_slave i (header_slave ?s z) h) (drop n b))"
    using full by (subst push_loop_header_full[OF ok st _ refl, of _ z]) (simp_all only: take drop z_def)
  have parts: "push_loop alive i h1 b =
      (if z ! 0 \<noteq> 0 then Some (set_slave i (closed (?s\<lparr>sl_read := sl_read ?s + length a, sl_size := z\<rparr>)) h,
         HError (''Message is too long from harbor '' @ fmt_d (int i)) # close_acts ?s)
       else if drop n b = [] then Some (set_slave i (header_slave ?s z) h, [])
       else push_loop alive i (set_slave i (header_slave ?s z) h) (drop n b))"
    using full by (subst push_loop_header_full[OF ok1 st1 _ _ z1])
      (simp_all add: n_def h1 header_slave_def closed_def close_acts_def)
  show ?thesis unfolding whole parts by (simp add: closed_def)
qed

lemma push_loop_append_header:
  assumes ok: "slave_ok (hb_s h i)" and st: "sl_status (hb_s h i) = STATUS_HEADER" and b: "b \<noteq> []"
    and IH: "\<And>a' h'. length a' < length a \<Longrightarrow> a' \<noteq> [] \<Longrightarrow> slave_ok (hb_s h' i)
        \<Longrightarrow> settled i (push_loop alive i h' (a' @ b)) = settled i (and_then (push_loop alive i h' a') (\<lambda>h. push_loop alive i h b))"
  shows "settled i (push_loop alive i h (a @ b)) = settled i (and_then (push_loop alive i h a) (\<lambda>h. push_loop alive i h b))"
proof -
  let ?s = "hb_s h i" and ?need = "4 - sl_read (hb_s h i)"
  have rd: "sl_read ?s < 4" using ok st by (simp add: slave_ok_def)
  consider (part) "length (a @ b) < ?need" | (cut) "length a < ?need" "?need \<le> length (a @ b)" | (full) "?need \<le> length a"
    by linarith
  then show ?thesis
  proof cases
    case part
    then have a: "length a < ?need" by simp
    let ?h1 = "set_slave i (?s\<lparr>sl_size := size_filled ?s a, sl_read := sl_read ?s + length a\<rparr>) h"
    have "slave_ok (hb_s ?h1 i)" "sl_status (hb_s ?h1 i) = STATUS_HEADER"
      using slave_ok_fill_size[OF ok st a] st by simp_all
    with part show ?thesis
      using push_loop_header_part[OF ok st part, of alive] push_loop_header_part[of ?h1 i b alive]
        push_loop_header_part[OF ok st a, of alive] size_filled_append[OF ok, of a b] by (simp add: ac_simps)
  next
    case cut
    then show ?thesis
      using push_loop_header_cut[OF ok st cut refl, of alive] push_loop_header_part[OF ok st cut(1), of alive] by simp
  next
    case full
    then have "length (size_filled ?s (take ?need a)) = 4"
      using rd by (intro length_size_filled ok) auto
    with full rd IH[of "drop ?need a"] show ?thesis
      using push_loop_header_full[OF ok st _ refl refl, of "a @ b" alive] b
        push_loop_header_full[OF ok st _ refl refl, of a alive] slave_ok_header[OF ok st]
      by (simp add: push_loop_idle and_then_Some)
  qed
qed

lemma forward_set_slave [simp]: "forward_local_messsage alive (set_slave i s h) = forward_local_messsage alive h"
  by (rule ext) (simp add: forward_local_messsage_def Let_def)

lemma forward_Nil [simp]: "forward_local_messsage alive h [] = None"
  by (simp add: forward_local_messsage_def HEADER_COOKIE_LENGTH_def)

text \<open>The bytes of a package arrive in two parts.\<close>

lemma push_loop_content_cut:
  assumes ok: "slave_ok (hb_s h i)" and st: "sl_status (hb_s h i) = STATUS_CONTENT"
    and part: "length a < sl_length (hb_s h i) - sl_read (hb_s h i)"
    and full: "sl_length (hb_s h i) - sl_read (hb_s h i) \<le> length (a @ b)"
    and h1: "h1 = set_slave i (hb_s h i\<lparr>sl_recv_buffer := Some (content_filled (hb_s h i) a), sl_read := sl_read (hb_s h i) + length a\<rparr>) h"
  shows "push_loop alive i h (a @ b) = push_loop alive i h1 b"
proof -
  let ?s = "hb_s h i" and ?need = "sl_length (hb_s h i) - sl_read (hb_s h i)"
  define n where "n = ?need - length a"
  have take: "take ?need (a @ b) = a @ take n b" and drop: "drop ?need (a @ b) = drop n b"
    using part by (simp_all add: n_def)
  have ok1: "slave_ok (hb_s h1 i)" and st1: "sl_status (hb_s h1 i) = STATUS_CONTENT"
    using slave_ok_fill_content[OF ok st part] st h1 by simp_all
  have fill: "content_filled (hb_s h1 i) (take n b) = content_filled ?s (a @ take n b)"
    using full part content_filled_append[OF ok st, of a "take n b"] by (simp add: n_def h1)
  have pk: "set_slave i (package_slave (hb_s h1 i)) h1 = set_slave i (package_slave ?s) h"
    by (simp add: h1 package_slave_def)
  have n1: "n = sl_length (hb_s h1 i) - sl_read (hb_s h1 i)"
    by (simp add: n_def h1)
  have le: "sl_length (hb_s h1 i) - sl_read (hb_s h1 i) \<le> length b" and fw: "forward_local_messsage alive h1 = forward_local_messsage alive h"
    using full by (simp_all add: h1)
  have "push_loop alive i h (a @ b) =
      do { acts \<leftarrow> forward_local_messsage alive h (map the (content_filled ?s (a @ take n b)));
           if drop n b = [] then Some (set_slave i (package_slave ?s) h, acts)
           else do { (h2, acts') \<leftarrow> push_loop alive i (set_slave i (package_slave ?s) h) (drop n b); Some (h2, acts @ acts') } }"
    using push_loop_content_full[OF ok st full refl, of alive] unfolding take drop .
  also have "\<dots> = push_loop alive i h1 b"
    using push_loop_content_full[OF ok1 st1 le n1, of alive] unfolding fill pk fw by (rule sym)
  finally show ?thesis .
qed

lemma push_loop_append_content:
  assumes ok: "slave_ok (hb_s h i)" and st: "sl_status (hb_s h i) = STATUS_CONTENT" and b: "b \<noteq> []"
    and IH: "\<And>a' h'. length a' < length a \<Longrightarrow> a' \<noteq> [] \<Longrightarrow> slave_ok (hb_s h' i)
        \<Longrightarrow> settled i (push_loop alive i h' (a' @ b)) = settled i (and_then (push_loop alive i h' a') (\<lambda>h. push_loop alive i h b))"
  shows "settled i (push_loop alive i h (a @ b)) = settled i (and_then (push_loop alive i h a) (\<lambda>h. push_loop alive i h b))"
proof -
  let ?s = "hb_s h i" and ?need = "sl_length (hb_s h i) - sl_read (hb_s h i)"
  have rd: "sl_read ?s < sl_length ?s \<or> sl_length ?s = 0" using ok st by (auto simp: slave_ok_def content_ok_def)
  consider (part) "length (a @ b) < ?need" | (cut) "length a < ?need" "?need \<le> length (a @ b)"
    | (full) "?need \<le> length a" "sl_read ?s < sl_length ?s" | (null) "sl_length ?s = 0"
    using rd by linarith
  then show ?thesis
  proof cases
    case part
    then have a: "length a < ?need" by simp
    let ?h1 = "set_slave i (?s\<lparr>sl_recv_buffer := Some (content_filled ?s a), sl_read := sl_read ?s + length a\<rparr>) h"
    have "slave_ok (hb_s ?h1 i)" "sl_status (hb_s ?h1 i) = STATUS_CONTENT"
      using slave_ok_fill_content[OF ok st a] st by simp_all
    with part show ?thesis
      using push_loop_content_part[OF ok st part, of alive] push_loop_content_part[of ?h1 i b alive]
        push_loop_content_part[OF ok st a, of alive] content_filled_append[OF ok st, of a b] by (simp add: ac_simps)
  next
    case cut
    then show ?thesis
      using push_loop_content_cut[OF ok st cut refl, of alive] push_loop_content_part[OF ok st cut(1), of alive] by simp
  next
    case full
    with IH[of "drop ?need a" "set_slave i (package_slave ?s) h"] slave_ok_package[OF ok st] show ?thesis
      using push_loop_content_full[OF ok st _ refl, of "a @ b" alive] b
        push_loop_content_full[OF ok st _ refl, of a alive]
      by (cases "forward_local_messsage alive h (map the (content_filled ?s (take ?need a)))")
        (simp_all add: and_then_Some settled_prefix)
  next
    case null
    with ok st have "sl_recv_buffer ?s = Some []" by (auto simp: slave_ok_def content_ok_def)
    then have "content_filled ?s [] = []" by (simp add: content_filled_def)
    then show ?thesis
      using push_loop_content_full[OF ok st _ refl, of "a @ b" alive] push_loop_content_full[OF ok st _ refl, of a alive] null
      by simp
  qed
qed

theorem push_loop_append:
  "slave_ok (hb_s h i) \<Longrightarrow> a \<noteq> [] \<Longrightarrow> b \<noteq> []
    \<Longrightarrow> settled i (push_loop alive i h (a @ b)) = settled i (and_then (push_loop alive i h a) (\<lambda>h. push_loop alive i h b))"
proof (induction "length a" arbitrary: a h rule: less_induct)
  case less
  note IH = less.hyps[OF _ _ _ less.prems(3)]
  show ?case
  proof (cases "sl_status (hb_s h i)")
    case STATUS_HANDSHAKE
    obtain r rest where a: "a = r # rest" using less.prems(2) by (cases a) auto
    let ?h1 = "set_slave i (hb_s h i\<lparr>sl_status := STATUS_HEADER, sl_queue := None\<rparr>) h"
    have ok1: "slave_ok (hb_s ?h1 i)" using slave_ok_shaken[OF less.prems(1) STATUS_HANDSHAKE] by simp
    have "settled i (push_loop alive i ?h1 (rest @ b)) = settled i (and_then (push_loop alive i ?h1 rest) (\<lambda>h. push_loop alive i h b))"
      using IH[OF _ ok1, of rest] push_loop_header_Nil[OF ok1] by (cases "rest = []") (simp_all add: a)
    then show ?thesis
      by (simp add: a push_loop_handshake[OF less.prems(1) STATUS_HANDSHAKE] push_loop_idle and_then_Some settled_prefix)
  next
    case STATUS_HEADER
    show ?thesis by (rule push_loop_append_header[OF less.prems(1) STATUS_HEADER less.prems(3)]) (rule IH)
  next
    case STATUS_CONTENT
    show ?thesis by (rule push_loop_append_content[OF less.prems(1) STATUS_CONTENT less.prems(3)]) (rule IH)
  qed (simp_all add: push_loop_idle)
qed

section \<open>A stream in chunks\<close>

text \<open>Reading changes the connection only, keeps it well formed and keeps its socket.\<close>

definition kept :: "nat \<Rightarrow> harbor \<Rightarrow> harbor \<Rightarrow> bool" where
  "kept i h h' \<longleftrightarrow> (\<exists>s'. h' = set_slave i s' h \<and> slave_ok s' \<and> sl_fd s' = sl_fd (hb_s h i))"

lemma kept_set_slave: "slave_ok s \<Longrightarrow> sl_fd s = sl_fd (hb_s h i) \<Longrightarrow> kept i h (set_slave i s h)"
  by (auto simp: kept_def)

lemma kept_trans_set_slave: "sl_fd s = sl_fd (hb_s h i) \<Longrightarrow> kept i (set_slave i s h) h' \<longleftrightarrow> kept i h h'"
  by (auto simp: kept_def)

lemma sl_fd_steps [simp]: "sl_fd (closed s) = sl_fd s" "sl_fd (header_slave s z) = sl_fd s" "sl_fd (package_slave s) = sl_fd s"
  by (simp_all add: closed_def header_slave_def package_slave_def)

lemma push_loop_kept_header:
  assumes ok: "slave_ok (hb_s h i)" and st: "sl_status (hb_s h i) = STATUS_HEADER"
    and IH: "\<And>buf' h1 acts. length buf' < length buf \<Longrightarrow> slave_ok (hb_s h1 i) \<Longrightarrow> push_loop alive i h1 buf' = Some (h', acts) \<Longrightarrow> kept i h1 h'"
    and run: "push_loop alive i h buf = Some (h', acts)"
  shows "kept i h h'"
proof (cases "length buf < 4 - sl_read (hb_s h i)")
  case True
  show ?thesis
    using run slave_ok_fill_size[OF ok st True] unfolding push_loop_header_part[OF ok st True] by (auto intro: kept_set_slave)
next
  case False
  let ?need = "4 - sl_read (hb_s h i)" and ?z = "size_filled (hb_s h i) (take (4 - sl_read (hb_s h i)) buf)"
  have rd: "sl_read (hb_s h i) < 4" using ok st by (simp add: slave_ok_def)
  with False have z: "length ?z = 4" by (intro length_size_filled ok) auto
  have "slave_ok (closed (hb_s h i\<lparr>sl_size := ?z\<rparr>))"
    using ok z st by (intro slave_ok_closed) (simp_all add: slave_ok_def)
  with False show ?thesis
    using run slave_ok_header[OF ok st z] rd IH[of "drop ?need buf" "set_slave i (header_slave (hb_s h i) ?z) h"]
    by (subst (asm) push_loop_header_full[OF ok st _ refl refl])
      (auto simp: kept_trans_set_slave split: if_splits intro: kept_set_slave)
qed

lemma push_loop_content_pos:
  assumes ok: "slave_ok (hb_s h i)" and st: "sl_status (hb_s h i) = STATUS_CONTENT"
    and run: "push_loop alive i h buf = Some (h', acts)"
  shows "sl_read (hb_s h i) < sl_length (hb_s h i)"
proof (rule ccontr)
  assume "\<not> ?thesis"
  with ok st have "sl_length (hb_s h i) = 0" "content_filled (hb_s h i) [] = []"
    by (auto simp: slave_ok_def content_ok_def content_filled_def)
  with push_loop_content_full[OF ok st _ refl, of buf alive] run show False by simp
qed

lemma push_loop_kept_content:
  assumes ok: "slave_ok (hb_s h i)" and st: "sl_status (hb_s h i) = STATUS_CONTENT"
    and IH: "\<And>buf' h1 acts. length buf' < length buf \<Longrightarrow> slave_ok (hb_s h1 i) \<Longrightarrow> push_loop alive i h1 buf' = Some (h', acts) \<Longrightarrow> kept i h1 h'"
    and run: "push_loop alive i h buf = Some (h', acts)"
  shows "kept i h h'"
proof (cases "length buf < sl_length (hb_s h i) - sl_read (hb_s h i)")
  case True
  show ?thesis
    using run slave_ok_fill_content[OF ok st True] unfolding push_loop_content_part[OF ok st True] by (auto intro: kept_set_slave)
next
  case False
  let ?need = "sl_length (hb_s h i) - sl_read (hb_s h i)"
  have "0 < ?need" using push_loop_content_pos[OF ok st run] by simp
  with False show ?thesis
    using run slave_ok_package[OF ok st] IH[of "drop ?need buf" "set_slave i (package_slave (hb_s h i)) h"]
    by (subst (asm) push_loop_content_full[OF ok st _ refl])
      (auto simp: kept_trans_set_slave split: if_splits Option.bind_splits intro: kept_set_slave)
qed

lemma push_loop_kept:
  "slave_ok (hb_s h i) \<Longrightarrow> push_loop alive i h buf = Some (h', acts) \<Longrightarrow> kept i h h'"
proof (induction "length buf" arbitrary: buf h acts rule: less_induct)
  case less
  note ok = less.prems(1) and run = less.prems(2)
  show ?case
  proof (cases "sl_status (hb_s h i)")
    case STATUS_HANDSHAKE
    obtain r rest where buf: "buf = r # rest"
      using run STATUS_HANDSHAKE by (cases buf) (simp_all add: push_loop.simps[of alive i h "[]"] Let_def)
    let ?s1 = "hb_s h i\<lparr>sl_status := STATUS_HEADER, sl_queue := None\<rparr>"
    have "slave_ok (closed (hb_s h i))" "slave_ok ?s1"
      using ok STATUS_HANDSHAKE slave_ok_shaken by (auto simp: slave_ok_def closed_def)
    then show ?thesis
      using run less.hyps[of rest "set_slave i ?s1 h"] unfolding buf push_loop_handshake[OF ok STATUS_HANDSHAKE]
      by (auto simp: kept_trans_set_slave split: if_splits Option.bind_splits intro: kept_set_slave)
  next
    case STATUS_HEADER
    show ?thesis by (rule push_loop_kept_header[OF ok STATUS_HEADER _ run]) (rule less.hyps)
  next
    case STATUS_CONTENT
    show ?thesis by (rule push_loop_kept_content[OF ok STATUS_CONTENT _ run]) (rule less.hyps)
  qed (use run ok in \<open>auto simp: push_loop_idle kept_def intro!: exI[of _ "hb_s h i"]\<close>)
qed

fun push_chunks :: "(u32 \<Rightarrow> bool) \<Rightarrow> nat \<Rightarrow> harbor \<Rightarrow> u8 list list \<Rightarrow> (harbor \<times> harbor_action list) option" where
  "push_chunks alive i h [] = Some (h, [])"
| "push_chunks alive i h (c # cs) = and_then (push_loop alive i h c) (\<lambda>h1. push_chunks alive i h1 cs)"

lemma push_chunks_concat:
  "slave_ok (hb_s h i) \<Longrightarrow> cs \<noteq> [] \<Longrightarrow> [] \<notin> set cs
    \<Longrightarrow> settled i (push_chunks alive i h cs) = settled i (push_loop alive i h (concat cs))"
proof (induction cs arbitrary: h)
  case (Cons c cs)
  show ?case
  proof (cases "cs = []")
    case True
    then show ?thesis by (cases "push_loop alive i h c") auto
  next
    case False
    then have "concat cs \<noteq> []" using Cons.prems by (cases cs) auto
    then have split: "settled i (push_loop alive i h (concat (c # cs)))
        = settled i (and_then (push_loop alive i h c) (\<lambda>h. push_loop alive i h (concat cs)))"
      using Cons.prems push_loop_append[of h i c "concat cs" alive] by (cases c) simp_all
    show ?thesis
    proof (cases "push_loop alive i h c")
      case (Some r)
      then obtain h1 acts where r: "push_loop alive i h c = Some (h1, acts)" by (cases r) auto
      then have "slave_ok (hb_s h1 i)" using push_loop_kept[OF Cons.prems(1) r] by (auto simp: kept_def)
      then show ?thesis
        using Cons.IH[of h1] Cons.prems False unfolding split by (simp add: r and_then_Some settled_prefix)
    next
      case None
      then show ?thesis unfolding split by simp
    qed
  qed
qed simp

section \<open>Packages\<close>

text \<open>The package of a message, as \<open>send_remote\<close> builds it.\<close>

definition package :: "u8 list \<Rightarrow> remote_message_header \<Rightarrow> u8 list" where
  "package msg cookie = to_bigendian (of_nat (length msg + 12)) @ msg @ header_to_message cookie"

lemma send_remote_package: "length msg + 12 < 2 ^ 32 \<Longrightarrow> send_remote fd msg cookie = [HSocketSend fd (package msg cookie)]"
  by (simp add: send_remote_def package_def Let_def)

lemma length_to_bigendian [simp]: "length (to_bigendian n) = 4"
  by (simp add: to_bigendian_def)

lemma length_header_to_message [simp]: "length (header_to_message c) = 12"
  by (simp add: header_to_message_def)

lemma header_to_message_not_Nil [simp]: "header_to_message c \<noteq> []"
  by (simp flip: length_greater_0_conv)

lemma from_to_bigendian: "from_bigendian (to_bigendian n @ rest) 0 = n"
proof -
  have "push_bit 24 (ucast (ucast (drop_bit 24 n) :: u8)) OR push_bit 16 (ucast (ucast (drop_bit 16 n) :: u8))
      OR push_bit 8 (ucast (ucast (drop_bit 8 n) :: u8)) OR ucast (ucast n :: u8) = n"
    using join_bytes[of n] by (simp add: ac_simps)
  then show ?thesis by (simp add: from_bigendian_def to_bigendian_def)
qed

lemma from_bigendian_append: "from_bigendian (xs @ ys) (length xs + i) = from_bigendian ys i"
  by (simp add: from_bigendian_def nth_append)

lemma message_to_header: "message_to_header (header_to_message c) = c"
proof -
  let ?a = "to_bigendian (rh_source c)" and ?b = "to_bigendian (rh_destination c)" and ?c = "to_bigendian (rh_session c)"
  have "from_bigendian (?a @ ?b @ ?c) 0 = rh_source c" "from_bigendian (?a @ ?b @ ?c) 4 = rh_destination c"
    "from_bigendian (?a @ ?b @ ?c) 8 = rh_session c"
    using from_to_bigendian[of "rh_source c" "?b @ ?c"] from_bigendian_append[of ?a "?b @ ?c" 0]
      from_to_bigendian[of "rh_destination c" ?c] from_bigendian_append[of "?a @ ?b" ?c 0] from_to_bigendian[of "rh_session c" "[]"]
    by simp_all
  then show ?thesis by (simp add: message_to_header_def header_to_message_def)
qed

lemma join_three_bytes:
  "push_bit 16 (take_bit 8 (drop_bit 16 n)) OR push_bit 8 (take_bit 8 (drop_bit 8 n)) OR take_bit 8 n = take_bit 24 (n :: nat)"
  (is "?l = _")
proof (rule bit_eqI)
  fix k :: nat
  consider "k < 8" | "8 \<le> k" "k < 16" | "16 \<le> k" "k < 24" | "24 \<le> k" by linarith
  then show "bit ?l k = bit (take_bit 24 n) k" by cases (auto simp: bit_simps)
qed

lemma unat_ucast_drop: "unat (ucast (drop_bit k (n :: u32)) :: u8) = take_bit 8 (drop_bit k (unat n))"
  by (rule bit_eqI) (auto simp: bit_simps dest: bit_imp_le_length)

lemma size_value_to_bigendian:
  assumes "n < 2 ^ 24"
  shows "size_value (to_bigendian (of_nat n)) = n" and "to_bigendian (of_nat n) ! 0 = 0"
proof -
  have n: "unat (of_nat n :: u32) = n" using assms by (simp add: unat_of_nat)
  note drop = unat_ucast_drop[of _ "of_nat n", unfolded n]
  have "size_value (to_bigendian (of_nat n)) = take_bit 24 n"
    using join_three_bytes[of n] drop[of 0] by (simp add: size_value_def to_bigendian_def drop)
  then show "size_value (to_bigendian (of_nat n)) = n" using assms by (simp add: take_bit_nat_eq_self)
  have "drop_bit 24 n = 0" using assms by (simp add: drop_bit_eq_div)
  then have "unat (to_bigendian (of_nat n) ! 0) = 0" using drop[of 24] by (simp add: to_bigendian_def)
  then show "to_bigendian (of_nat n) ! 0 = 0" by (simp add: unat_eq_0)
qed

text \<open>What the receiver does with a package.\<close>

definition delivery :: "harbor \<Rightarrow> remote_message_header \<Rightarrow> u8 list \<Rightarrow> harbor_action" where
  "delivery h c msg = HSend (rh_source c) ((rh_destination c AND HANDLE_MASK) OR push_bit HANDLE_REMOTE_SHIFT (of_int (hb_id h)))
     (drop_bit HANDLE_REMOTE_SHIFT (rh_destination c) OR PTYPE_TAG_DONTCOPY) (session_int (rh_session c)) msg"

definition dest_alive :: "(u32 \<Rightarrow> bool) \<Rightarrow> harbor \<Rightarrow> remote_message_header \<Rightarrow> bool" where
  "dest_alive alive h c = alive ((rh_destination c AND HANDLE_MASK) OR push_bit HANDLE_REMOTE_SHIFT (of_int (hb_id h)))"

lemma forward_package:
  "dest_alive alive h c \<Longrightarrow> forward_local_messsage alive h (msg @ header_to_message c) = Some [delivery h c msg]"
  by (simp add: forward_local_messsage_def dest_alive_def delivery_def HEADER_COOKIE_LENGTH_def message_to_header Let_def)

definition between_packages :: "slave \<Rightarrow> bool" where
  "between_packages s \<longleftrightarrow> slave_ok s \<and> sl_status s = STATUS_HEADER \<and> sl_read s = 0"

lemma push_loop_package:
  assumes s: "between_packages (hb_s h i)" and len: "length msg + 12 < 2 ^ 24" and "dest_alive alive h c"
  shows "\<exists>s'. between_packages s' \<and> push_loop alive i h (package msg c @ rest)
     = (if rest = [] then Some (set_slave i s' h, [delivery h c msg])
        else do { (h2, acts) \<leftarrow> push_loop alive i (set_slave i s' h) rest; Some (h2, delivery h c msg # acts) })"
proof -
  let ?s = "hb_s h i" and ?n = "to_bigendian (of_nat (length msg + 12)) :: u8 list"
  have ok: "slave_ok ?s" and st: "sl_status ?s = STATUS_HEADER" and rd: "sl_read ?s = 0"
    using s by (auto simp: between_packages_def)
  let ?s1 = "header_slave ?s ?n" let ?h1 = "set_slave i ?s1 h"
  have fill: "size_filled ?s ?n = ?n" using ok rd by (simp add: size_filled_def slave_ok_def)
  have "push_loop alive i h (package msg c @ rest) = push_loop alive i ?h1 (msg @ header_to_message c @ rest)"
    using push_loop_header_full[OF ok st _ refl refl, of "package msg c @ rest" alive] rd size_value_to_bigendian[OF len] fill
    by (simp add: package_def)
  moreover have ok1: "slave_ok (hb_s ?h1 i)" and st1: "sl_status (hb_s ?h1 i) = STATUS_CONTENT"
    using slave_ok_header[OF ok st, of ?n] by (simp_all add: header_slave_def)
  moreover have len1: "sl_length ?s1 = length msg + 12" "sl_read ?s1 = 0"
    using size_value_to_bigendian[OF len] by (simp_all add: header_slave_def)
  moreover have "content_filled ?s1 (msg @ header_to_message c) = map Some (msg @ header_to_message c)"
    using size_value_to_bigendian[OF len] by (simp add: content_filled_def header_slave_def)
  moreover have "between_packages (package_slave ?s1)"
    using slave_ok_package[OF ok1 st1] by (simp add: between_packages_def package_slave_def)
  ultimately show ?thesis
    using push_loop_content_full[OF ok1 st1 _ refl, of "msg @ header_to_message c @ rest" alive] forward_package[OF assms(3)]
    by (intro exI[of _ "package_slave ?s1"]) (simp add: comp_def)
qed

lemma push_loop_packages:
  assumes "between_packages (hb_s h i)" and "ms \<noteq> []"
    and "\<And>msg c. (msg, c) \<in> set ms \<Longrightarrow> length msg + 12 < 2 ^ 24 \<and> dest_alive alive h c"
  shows "\<exists>s'. between_packages s' \<and> push_loop alive i h (concat (map (\<lambda>(msg, c). package msg c) ms))
     = Some (set_slave i s' h, map (\<lambda>(msg, c). delivery h c msg) ms)"
  using assms
proof (induction ms arbitrary: h)
  case (Cons m ms)
  obtain msg c where m: "m = (msg, c)" by (cases m)
  let ?rest = "concat (map (\<lambda>(msg, c). package msg c) ms)"
  have "length msg + 12 < 2 ^ 24" "dest_alive alive h c" using Cons.prems(3) m by auto
  from push_loop_package[OF Cons.prems(1) this, of ?rest] obtain s' where s': "between_packages s'"
    and run: "push_loop alive i h (package msg c @ ?rest)
     = (if ?rest = [] then Some (set_slave i s' h, [delivery h c msg])
        else do { (h2, acts) \<leftarrow> push_loop alive i (set_slave i s' h) ?rest; Some (h2, delivery h c msg # acts) })" by blast
  show ?case
  proof (cases "ms = []")
    case True
    with run s' m show ?thesis by (intro exI[of _ s']) (simp add: fun_upd_def)
  next
    case False
    then have "?rest \<noteq> []" by (cases ms) (auto simp: package_def)
    moreover have "dest_alive alive (set_slave i s' h) = dest_alive alive h" "delivery (set_slave i s' h) = delivery h"
      by (auto simp: dest_alive_def delivery_def fun_eq_iff)
    moreover from this Cons.IH[of "set_slave i s' h"] Cons.prems(3) False s'
    obtain s'' where "between_packages s''" "push_loop alive i (set_slave i s' h) ?rest
        = Some (set_slave i s'' h, map (\<lambda>(msg, c). delivery h c msg) ms)" by fastforce
    ultimately show ?thesis using run m by (intro exI[of _ s'']) (simp add: fun_upd_def del: concat_eq_Nil_conv)
  qed
qed simp

section \<open>From node to node\<close>

text \<open>A sequence of messages to the service.\<close>

fun harbor_run :: "(u32 \<Rightarrow> bool) \<Rightarrow> harbor \<Rightarrow> harbor_input list \<Rightarrow> (harbor \<times> harbor_action list) option" where
  "harbor_run alive h [] = Some (h, [])"
| "harbor_run alive h (x # xs) = and_then (mainloop alive h x) (\<lambda>h1. harbor_run alive h1 xs)"

text \<open>A message to a handle of another node.\<close>

record remote_out =
  ro_source :: u32
  ro_type :: u32
  ro_session :: int
  ro_dest :: u32
  ro_msg :: "u8 list"

definition out_input :: "remote_out \<Rightarrow> harbor_input" where
  "out_input r = HIRemote (ro_source r) (ro_type r) (ro_session r) (ToHandle (ro_dest r)) (ro_msg r)"

text \<open>A type of 8 bits, a session that is an \<open>int\<close>, a destination on node \<open>k\<close> and a length of 24 bits.\<close>

definition out_ok :: "nat \<Rightarrow> remote_out \<Rightarrow> bool" where
  "out_ok k r \<longleftrightarrow> unat (drop_bit HANDLE_REMOTE_SHIFT (ro_dest r)) = k \<and> unat (ro_type r) < 256
     \<and> - (2 ^ 31) \<le> ro_session r \<and> ro_session r < 2 ^ 31 \<and> length (ro_msg r) + 12 < 2 ^ 24"

definition out_cookie :: "remote_out \<Rightarrow> remote_message_header" where
  "out_cookie r = \<lparr>rh_source = ro_source r, rh_destination = (ro_dest r AND HANDLE_MASK) OR push_bit HANDLE_REMOTE_SHIFT (ro_type r),
     rh_session = of_int (ro_session r)\<rparr>"

definition arrival :: "remote_out \<Rightarrow> harbor_action" where
  "arrival r = HSend (ro_source r) (ro_dest r) (ro_type r OR PTYPE_TAG_DONTCOPY) (ro_session r) (ro_msg r)"

definition connected :: "slave \<Rightarrow> bool" where
  "connected s \<longleftrightarrow> sl_fd s \<noteq> 0 \<and> sl_status s \<noteq> STATUS_HANDSHAKE"

definition socket_bytes :: "int \<Rightarrow> harbor_action list \<Rightarrow> u8 list" where
  "socket_bytes fd acts = concat (map (\<lambda>a. case a of HSocketSend fd' b \<Rightarrow> if fd' = fd then b else [] | _ \<Rightarrow> []) acts)"

lemma handle_fields:
  fixes d t :: u32
  assumes "unat t < 256"
  shows "((d AND HANDLE_MASK) OR push_bit HANDLE_REMOTE_SHIFT t) AND HANDLE_MASK = d AND HANDLE_MASK"
    and "drop_bit HANDLE_REMOTE_SHIFT ((d AND HANDLE_MASK) OR push_bit HANDLE_REMOTE_SHIFT t) = t"
    and "(d AND HANDLE_MASK) OR push_bit HANDLE_REMOTE_SHIFT (drop_bit HANDLE_REMOTE_SHIFT d) = d"
proof -
  have t: "take_bit 8 t = t"
    using assms by (intro unsigned_word_eqI[where 'a = nat]) (simp add: unsigned_take_bit_eq take_bit_nat_eq_self)
  show "((d AND HANDLE_MASK) OR push_bit HANDLE_REMOTE_SHIFT t) AND HANDLE_MASK = d AND HANDLE_MASK"
    unfolding HANDLE_MASK_take_bit HANDLE_REMOTE_SHIFT_def by (rule bit_word_eqI) (auto simp: bit_simps)
  have "drop_bit HANDLE_REMOTE_SHIFT ((d AND HANDLE_MASK) OR push_bit HANDLE_REMOTE_SHIFT t) = take_bit 8 t"
    unfolding HANDLE_MASK_take_bit HANDLE_REMOTE_SHIFT_def by (rule bit_word_eqI) (auto simp: bit_simps)
  with t show "drop_bit HANDLE_REMOTE_SHIFT ((d AND HANDLE_MASK) OR push_bit HANDLE_REMOTE_SHIFT t) = t" by simp
  show "(d AND HANDLE_MASK) OR push_bit HANDLE_REMOTE_SHIFT (drop_bit HANDLE_REMOTE_SHIFT d) = d"
    unfolding HANDLE_MASK_take_bit HANDLE_REMOTE_SHIFT_def
  proof (rule bit_word_eqI)
    fix n
    assume "n < LENGTH(32)"
    then show "bit (take_bit 24 d OR push_bit 24 (drop_bit 24 d)) n = bit d n" by (cases "n < 24") (auto simp: bit_simps)
  qed
qed

lemma session_int_of_int: "- (2 ^ 31) \<le> x \<Longrightarrow> x < 2 ^ 31 \<Longrightarrow> session_int (of_int x) = x"
  by (simp add: session_int_def signed_of_int signed_take_bit_int_eq_self)

lemma delivery_arrival:
  assumes "out_ok k r" and "hb_id h = int k"
  shows "delivery h (out_cookie r) (ro_msg r) = arrival r" and "dest_alive alive h (out_cookie r) = alive (ro_dest r)"
proof -
  have "of_int (hb_id h) = drop_bit HANDLE_REMOTE_SHIFT (ro_dest r)"
    using assms by (auto simp: out_ok_def)
  moreover have "unat (ro_type r) < 256" "session_int (of_int (ro_session r)) = ro_session r"
    using assms(1) by (simp_all add: out_ok_def session_int_of_int)
  ultimately show "delivery h (out_cookie r) (ro_msg r) = arrival r" "dest_alive alive h (out_cookie r) = alive (ro_dest r)"
    by (simp_all only: delivery_def dest_alive_def arrival_def out_cookie_def remote_message_header.simps handle_fields)
qed

lemma mainloop_out:
  assumes "out_ok k r" "int k \<noteq> hb_id h" "connected (hb_s h k)"
  shows "mainloop alive h (out_input r) = Some (h, [HSocketSend (sl_fd (hb_s h k)) (package (ro_msg r) (out_cookie r))])"
proof -
  have "length (ro_msg r) + 12 < 2 ^ 32" using assms(1) by (simp add: out_ok_def)
  note send_remote_package[OF this]
  then show ?thesis
    using assms by (auto simp: mainloop_def out_input_def remote_send_handle_def out_ok_def connected_def out_cookie_def Let_def)
qed

lemma harbor_run_out:
  assumes "\<forall>r \<in> set rs. out_ok k r" "int k \<noteq> hb_id h" "connected (hb_s h k)"
  shows "harbor_run alive h (map out_input rs)
    = Some (h, map (\<lambda>r. HSocketSend (sl_fd (hb_s h k)) (package (ro_msg r) (out_cookie r))) rs)"
  using assms by (induction rs) (simp_all add: mainloop_out[of k] and_then_Some)

lemma slave_of_fd_kept: "kept i h h' \<Longrightarrow> slave_of_fd h' fd = slave_of_fd h fd"
  unfolding slave_of_fd_def by (rule arg_cong[where f = "\<lambda>P. find P _"]) (auto simp: kept_def)

lemma harbor_run_data:
  "slave_ok (hb_s h i) \<Longrightarrow> slave_of_fd h fd = Some i
    \<Longrightarrow> harbor_run alive h (map (\<lambda>c. HISocket (MData fd c)) cs) = push_chunks alive i h cs"
proof (induction cs arbitrary: h)
  case (Cons c cs)
  have "harbor_run alive h1 (map (\<lambda>c. HISocket (MData fd c)) cs) = push_chunks alive i h1 cs"
    if "push_loop alive i h c = Some (h1, acts)" for h1 acts
    using Cons.IH[of h1] Cons.prems(2) push_loop_kept[OF Cons.prems(1) that] slave_of_fd_kept[of i h h1 fd] by (auto simp: kept_def)
  then show ?case
    using Cons.prems by (auto simp: mainloop_def push_socket_data_def and_then_def split: Option.bind_splits)
qed simp

lemma settled_running:
  "settled i r = Some (h, acts) \<Longrightarrow> sl_status (hb_s h i) \<noteq> STATUS_DOWN \<Longrightarrow> r = Some (h, acts)"
  by (auto simp: settled_def split: if_splits Option.bind_splits)

text \<open>C36: The messages that one node sends to handles of another over an established connection are
  handed to their destinations there, in the order they were sent, with source, type, session and contents unchanged,
  however the byte stream between the two services is cut into pieces on the way.  The connection is then ready for
  the next package.\<close>

theorem harbor_messages_arrive:
  assumes "\<forall>r \<in> set rs. out_ok k r \<and> alive' (ro_dest r)"
    and "connected (hb_s h k)" and "hb_id h \<noteq> int k"
    and "hb_id h' = int k" and "slave_of_fd h' fd' = Some i" and "between_packages (hb_s h' i)"
    and "concat cs = socket_bytes (sl_fd (hb_s h k)) (snd (the (harbor_run alive h (map out_input rs))))" and "[] \<notin> set cs"
  shows "fst (the (harbor_run alive h (map out_input rs))) = h \<and>
    (\<exists>h''. harbor_run alive' h' (map (\<lambda>c. HISocket (MData fd' c)) cs) = Some (h'', map arrival rs)
       \<and> between_packages (hb_s h'' i))"
proof -
  have out: "harbor_run alive h (map out_input rs)
      = Some (h, map (\<lambda>r. HSocketSend (sl_fd (hb_s h k)) (package (ro_msg r) (out_cookie r))) rs)"
    using assms(1-3) by (intro harbor_run_out) auto
  let ?ms = "map (\<lambda>r. (ro_msg r, out_cookie r)) rs"
  have bytes: "concat cs = concat (map (\<lambda>(msg, c). package msg c) ?ms)"
    using assms(7) by (simp add: out socket_bytes_def comp_def)
  have ok: "slave_ok (hb_s h' i)" using assms(6) by (simp add: between_packages_def)
  have arr: "map (\<lambda>(msg, c). delivery h' c msg) ?ms = map arrival rs"
    using assms(1,4) delivery_arrival(1) by auto
  have "\<exists>h''. push_chunks alive' i h' cs = Some (h'', map arrival rs) \<and> between_packages (hb_s h'' i)"
  proof (cases "rs = []")
    case True
    with bytes assms(8) have "cs = []" by (cases cs) auto
    with True assms(6) show ?thesis by simp
  next
    case False
    have "cs \<noteq> []" using False bytes by (cases rs) (auto simp: package_def)
    have "\<exists>s'. between_packages s' \<and> push_loop alive' i h' (concat cs) = Some (set_slave i s' h', map arrival rs)"
      unfolding bytes arr[symmetric]
      using assms(1,4,6) False delivery_arrival(2) by (intro push_loop_packages) (auto simp: out_ok_def)
    then obtain s' where s': "between_packages s'"
      and run: "push_loop alive' i h' (concat cs) = Some (set_slave i s' h', map arrival rs)" by blast
    from push_chunks_concat[OF ok \<open>cs \<noteq> []\<close> assms(8), of alive']
    have "settled i (push_chunks alive' i h' cs) = settled i (Some (set_slave i s' h', map arrival rs))"
      unfolding run .
    moreover from s' have "sl_status s' = STATUS_HEADER" by (simp add: between_packages_def)
    ultimately have "push_chunks alive' i h' cs = Some (set_slave i s' h', map arrival rs)"
      using settled_running[of i] by simp
    with s' show ?thesis by simp
  qed
  with out harbor_run_data[OF ok assms(5)] show ?thesis by simp
qed

text \<open>Node 1 sends two messages to node 2; the second arrives in three pieces.\<close>

definition ex_node1 :: harbor where
  "ex_node1 = harbor_create\<lparr>hb_id := 1, hb_s := (\<lambda>_. slave0)(2 := slave0\<lparr>sl_fd := 5, sl_status := STATUS_HEADER\<rparr>)\<rparr>"

definition ex_node2 :: harbor where
  "ex_node2 = harbor_create\<lparr>hb_id := 2, hb_s := (\<lambda>_. slave0)(1 := slave0\<lparr>sl_fd := 7, sl_status := STATUS_HEADER\<rparr>)\<rparr>"

definition ex_outs :: "remote_out list" where
  "ex_outs = [\<lparr>ro_source = 0x01000008, ro_type = 10, ro_session = 3, ro_dest = 0x02000009, ro_msg = [1, 2]\<rparr>,
     \<lparr>ro_source = 0x01000008, ro_type = 1, ro_session = -4, ro_dest = 0x0200000a, ro_msg = []\<rparr>]"

definition ex_stream :: "u8 list list" where
  "ex_stream = [[0, 0, 0, 14, 1, 2, 1, 0, 0, 8, 10, 0, 0, 9, 0, 0, 0, 3, 0, 0], [0], [12, 1, 0, 0, 8, 1, 0],
     [0, 10, 255, 255, 255, 252]]"

lemma ex_outs_ok: "\<forall>r \<in> set ex_outs. out_ok 2 r"
  by (simp add: ex_outs_def out_ok_def HANDLE_REMOTE_SHIFT_def)

lemma ex_stream_bytes:
  "concat ex_stream = socket_bytes 5 (snd (the (harbor_run (\<lambda>_. True) ex_node1 (map out_input ex_outs))))"
proof -
  have "harbor_run (\<lambda>_. True) ex_node1 (map out_input ex_outs)
      = Some (ex_node1, map (\<lambda>r. HSocketSend 5 (package (ro_msg r) (out_cookie r))) ex_outs)"
    using harbor_run_out[OF ex_outs_ok, of ex_node1 "\<lambda>_. True"] by (simp add: ex_node1_def connected_def)
  then show ?thesis
    by (simp add: socket_bytes_def ex_stream_def ex_outs_def package_def out_cookie_def header_to_message_def to_bigendian_def
        HANDLE_MASK_def HANDLE_REMOTE_SHIFT_def)
qed

theorem harbor_messages_arrive_witness:
  "\<exists>h''. harbor_run (\<lambda>_. True) ex_node2 (map (\<lambda>c. HISocket (MData 7 c)) ex_stream) = Some (h'', map arrival ex_outs)
     \<and> between_packages (hb_s h'' 1)"
proof -
  have "slave_of_fd ex_node2 7 = Some 1"
    unfolding slave_of_fd_def by (subst upt_conv_Cons) (simp_all add: REMOTE_MAX_def ex_node2_def)
  moreover have "between_packages (hb_s ex_node2 1)"
    by (simp add: ex_node2_def between_packages_def slave_ok_def slave0_def)
  moreover have "connected (hb_s ex_node1 2)" "hb_id ex_node1 \<noteq> int 2" "hb_id ex_node2 = int 2" "sl_fd (hb_s ex_node1 2) = 5"
    by (simp_all add: ex_node1_def ex_node2_def connected_def)
  moreover have "[] \<notin> set ex_stream" by (simp add: ex_stream_def)
  ultimately show ?thesis
    using harbor_messages_arrive[of ex_outs 2 "\<lambda>_. True" ex_node1 ex_node2 7 1 ex_stream "\<lambda>_. True"] ex_outs_ok ex_stream_bytes
    by simp
qed

end
