(* ===== verification/HarborInv.thy ===== *)
theory HarborInv
  imports HarborStream
begin

text \<open>
  The reachable states of the harbor service: the invariant, that messages to other nodes and commands are
  always handled, and what becomes of the messages that wait for a connection or a name.
\<close>

section \<open>The invariant\<close>

text \<open>Connections are well formed; a name with a handle has no queue.\<close>

definition node_ok :: "keyvalue \<Rightarrow> bool" where
  "node_ok node \<longleftrightarrow> hq_wf (kv_queue node) \<and> (kv_value node \<noteq> 0 \<longrightarrow> kv_queue node = None)"

definition slaves_ok :: "harbor \<Rightarrow> bool" where
  "slaves_ok h \<longleftrightarrow> (\<forall>i. slave_ok (hb_s h i))"

definition names_ok :: "(nat \<Rightarrow> keyvalue list) \<Rightarrow> bool" where
  "names_ok m \<longleftrightarrow> (\<forall>j. \<forall>node \<in> set (m j). node_ok node)"

definition harbor_ok :: "harbor \<Rightarrow> bool" where
  "harbor_ok h \<longleftrightarrow> slaves_ok h \<and> names_ok (hb_map h)"

inductive harbor_reach :: "harbor \<Rightarrow> bool" where
  reach_init: "harbor_init harbor_create args = (h, acts, 0) \<Longrightarrow> harbor_reach h"
| reach_step: "harbor_reach h \<Longrightarrow> mainloop alive h inp = Some (h', acts) \<Longrightarrow> harbor_reach h'"

lemma slaves_okD: "slaves_ok h \<Longrightarrow> slave_ok (hb_s h i)"
  by (simp add: slaves_ok_def)

lemma harbor_ok_slave: "harbor_ok h \<Longrightarrow> slave_ok (hb_s h i)"
  by (simp add: harbor_ok_def slaves_ok_def)

lemma slaves_ok_set_slave: "slaves_ok h \<Longrightarrow> slave_ok s \<Longrightarrow> slaves_ok (set_slave i s h)"
  by (simp add: slaves_ok_def)

lemma harbor_ok_set_slave: "harbor_ok h \<Longrightarrow> slave_ok s \<Longrightarrow> harbor_ok (set_slave i s h)"
  by (simp add: harbor_ok_def slaves_ok_set_slave)

lemma kept_harbor_ok: "harbor_ok h \<Longrightarrow> kept i h h' \<Longrightarrow> harbor_ok h'"
  by (auto simp: kept_def harbor_ok_set_slave)

lemma slave_ok_queue:
  "slave_ok s \<Longrightarrow> sl_fd s = 0 \<or> sl_status s = STATUS_HANDSHAKE \<Longrightarrow> hq_wf qo \<Longrightarrow> slave_ok (s\<lparr>sl_queue := qo\<rparr>)"
  by (cases "sl_status s") (auto simp: slave_ok_def)

lemma slave_ok_no_queue: "slave_ok s \<Longrightarrow> slave_ok (s\<lparr>sl_queue := None\<rparr>)"
  by (cases "sl_status s") (auto simp: slave_ok_def content_ok_def)

lemma slave_down: "slave_ok s \<Longrightarrow> sl_fd s = 0 \<Longrightarrow> sl_status s = STATUS_WAIT"
  by (cases "sl_status s") (auto simp: slave_ok_def)

lemma harbor_create_ok: "harbor_ok harbor_create"
  by (simp add: harbor_ok_def slaves_ok_def names_ok_def harbor_create_def slave0_def slave_ok_def hash_new_def)

lemma harbor_init_ok: "harbor_ok h \<Longrightarrow> harbor_init h args = (h', acts, r) \<Longrightarrow> harbor_ok h'"
  by (auto simp: harbor_init_def harbor_ok_def slaves_ok_def Let_def split: prod.splits if_splits)

section \<open>Queues of the names\<close>

lemma push_queue_msg_wf:
  assumes "hq_wf qo"
  shows "\<exists>q'. push_queue_msg m (case qo of None \<Rightarrow> hb_new_queue | Some q \<Rightarrow> q) = Some q' \<and> hq_rep q' (queued qo @ [m])"
proof (cases qo)
  case None
  then show ?thesis using push_queue_msg_rep[OF hb_new_queue_rep] by simp
next
  case (Some q)
  then obtain ms where "hq_rep q ms" using assms by (auto simp: hq_wf_Some)
  with Some show ?thesis using push_queue_msg_rep[of q ms] by (simp add: queued_rep)
qed

lemma chain_update_set: "x \<in> set (chain_update name node ns) \<Longrightarrow> x = node \<or> x \<in> set ns"
  by (induction ns) (auto split: if_splits)

lemma chain_update_twice: "is_node name n1 \<Longrightarrow> chain_update name n2 (chain_update name n1 ns) = chain_update name n2 ns"
  by (induction ns) auto

lemma set_node_ok: "harbor_ok h \<Longrightarrow> node_ok node \<Longrightarrow> harbor_ok (set_node name node h)"
  by (auto simp: harbor_ok_def names_ok_def slaves_ok_def set_node_def dest!: chain_update_set)

lemma hash_search_mem: "hash_search m name = Some node \<Longrightarrow> node \<in> set (m (name_slot name)) \<and> is_node name node"
  by (auto simp: hash_search_def find_Some_iff)

lemma get_node_ok:
  "harbor_ok h \<Longrightarrow> get_node name h = (h1, node) \<Longrightarrow> harbor_ok h1 \<and> node_ok node \<and> is_node name node \<and> hb_s h1 = hb_s h \<and> hb_id h1 = hb_id h"
  by (auto simp: get_node_def hash_insert_def harbor_ok_def names_ok_def slaves_ok_def node_ok_def is_node_def same_name_def Let_def
      split: option.splits if_splits dest!: hash_search_mem)

text \<open>The messages of a name reach the connection, the services of this node or the queue of the connection.\<close>

lemma join_queues:
  assumes "hq_rep q ms" "hq_wf sq"
  shows "\<exists>sq' node'. (case sq of None \<Rightarrow> Some (q, node\<lparr>kv_queue := None\<rparr>)
      | Some sq \<Rightarrow> do { (q1, ms) \<leftarrow> pop_all q; sq1 \<leftarrow> push_all ms sq; Some (sq1, node\<lparr>kv_queue := Some q1\<rparr>) })
        = Some (sq', node') \<and> hq_rep sq' (queued sq @ ms) \<and> hq_wf (kv_queue node') \<and> kv_value node' = kv_value node"
proof (cases sq)
  case None
  with assms(1) show ?thesis by auto
next
  case (Some q0)
  with assms(2) obtain ms0 where q0: "hq_rep q0 ms0" by (auto simp: hq_wf_Some)
  from push_all_rep[OF this, of ms] obtain sq1 where "push_all ms q0 = Some sq1" "hq_rep sq1 (ms0 @ ms)" by blast
  moreover from pop_all_rep[OF assms(1)] obtain q' where "pop_all q = Some (q', ms)" "hq_rep q' []" by blast
  ultimately show ?thesis using Some by (auto simp: hq_wf_Some queued_rep[OF q0])
qed

lemma dispatch_name_queue_ok:
  assumes "slaves_ok h" "kv_queue node = Some q" "hq_rep q ms"
  shows "\<exists>h' node' acts. dispatch_name_queue h node = Some (h', node', acts) \<and> slaves_ok h' \<and> hb_map h' = hb_map h \<and> hq_wf (kv_queue node')"
proof -
  let ?s = "hb_s h (unat (drop_bit HANDLE_REMOTE_SHIFT (kv_value node)))"
  have ok: "slave_ok ?s" using assms(1) by (rule slaves_okD)
  show ?thesis
  proof (cases "sl_fd ?s = 0")
    case False
    from pop_all_rep[OF assms(3)] obtain q' where "pop_all q = Some (q', ms)" "hq_rep q' []" by blast
    with False assms show ?thesis by (auto simp: dispatch_name_queue_def hq_wf_Some Let_def)
  next
    case fd: True
    then have st: "sl_status ?s = STATUS_WAIT" by (rule slave_down[OF ok])
    have "hq_wf (sl_queue ?s)" using ok by (simp add: slave_ok_def)
    from join_queues[OF assms(3) this, of node] obtain sq node1 where sq: "(case sl_queue ?s of None \<Rightarrow> Some (q, node\<lparr>kv_queue := None\<rparr>)
        | Some sq \<Rightarrow> do { (q1, ms) \<leftarrow> pop_all q; sq1 \<leftarrow> push_all ms sq; Some (sq1, node\<lparr>kv_queue := Some q1\<rparr>) })
          = Some (sq, node1)" "hq_rep sq (queued (sl_queue ?s) @ ms)" "hq_wf (kv_queue node1)" by blast
    from pop_all_rep[OF sq(2)] obtain sq2 where "pop_all sq = Some (sq2, queued (sl_queue ?s) @ ms)" "hq_rep sq2 []" by blast
    moreover have "slave_ok (?s\<lparr>sl_queue := None\<rparr>)" "slave_ok (?s\<lparr>sl_queue := Some sq\<rparr>)"
      using slave_ok_queue[OF ok, of None] slave_ok_queue[OF ok, of "Some sq"] fd sq(2) by (auto simp: hq_wf_Some)
    ultimately show ?thesis
      using fd st sq assms(1,2) by (auto simp: dispatch_name_queue_def slaves_ok_set_slave release_queue_rep Let_def)
  qed
qed

lemma update_name_ok:
  assumes "harbor_ok h"
  shows "\<exists>h' acts. update_name h name handle = Some (h', acts) \<and> harbor_ok h'"
proof -
  obtain h1 node where n: "get_node name h = (h1, node)" by fastforce
  from get_node_ok[OF assms n] have h1: "harbor_ok h1" and node: "node_ok node" "is_node name node" by auto
  show ?thesis
  proof (cases "kv_queue node")
    case None
    with n h1 show ?thesis by (auto simp: update_name_def node_ok_def intro!: set_node_ok)
  next
    case (Some q)
    with node obtain ms where q: "hq_rep q ms" by (auto simp: node_ok_def hq_wf_Some)
    let ?node = "node\<lparr>kv_value := handle\<rparr>"
    have "slaves_ok (set_node name ?node h1)" using h1 by (simp add: harbor_ok_def slaves_ok_def set_node_def)
    from dispatch_name_queue_ok[OF this, of ?node q ms] Some q obtain h2 node1 acts
      where d: "dispatch_name_queue (set_node name ?node h1) ?node = Some (h2, node1, acts)" "slaves_ok h2"
        "hb_map h2 = hb_map (set_node name ?node h1)" "hq_wf (kv_queue node1)" by auto
    let ?m = "(hb_map h1)(name_slot name := chain_update name (node1\<lparr>kv_queue := None\<rparr>) (hb_map h1 (name_slot name)))"
    have "set_node name (node1\<lparr>kv_queue := None\<rparr>) h2 = h2\<lparr>hb_map := ?m\<rparr>"
      using d(3) node(2) by (simp add: set_node_def chain_update_twice is_node_def)
    moreover have "names_ok ?m"
      using h1 by (auto simp: harbor_ok_def names_ok_def node_ok_def dest!: chain_update_set)
    ultimately have "harbor_ok (set_node name (node1\<lparr>kv_queue := None\<rparr>) h2)"
      using d(2) by (simp add: harbor_ok_def slaves_ok_def)
    then show ?thesis using n d Some by (simp add: update_name_def release_queue_wf)
  qed
qed

section \<open>Every message is handled\<close>

lemma remote_send_handle_ok:
  assumes "harbor_ok h"
  shows "\<exists>h' acts r. remote_send_handle h source destination t session msg = Some (h', acts, r) \<and> harbor_ok h'"
proof -
  let ?s = "hb_s h (unat (drop_bit HANDLE_REMOTE_SHIFT destination))"
  have ok: "slave_ok ?s" using assms by (rule harbor_ok_slave)
  then have "hq_wf (sl_queue ?s)" by (simp add: slave_ok_def)
  from push_queue_msg_wf[OF this, of "\<lparr>hm_header = \<lparr>rh_source = source,
      rh_destination = (destination AND HANDLE_MASK) OR push_bit HANDLE_REMOTE_SHIFT t, rh_session = of_int session\<rparr>, hm_buffer = msg\<rparr>"]
  obtain q' ms where q': "push_queue_msg \<lparr>hm_header = \<lparr>rh_source = source,
      rh_destination = (destination AND HANDLE_MASK) OR push_bit HANDLE_REMOTE_SHIFT t, rh_session = of_int session\<rparr>, hm_buffer = msg\<rparr>
      (case sl_queue ?s of None \<Rightarrow> hb_new_queue | Some q \<Rightarrow> q) = Some q'" "hq_rep q' ms" by blast
  then have "slave_ok (?s\<lparr>sl_queue := Some q'\<rparr>)" if "sl_fd ?s = 0 \<or> sl_status ?s = STATUS_HANDSHAKE"
    using slave_ok_queue[OF ok that, of "Some q'"] by (auto simp: hq_wf_Some)
  with assms q'(1) show ?thesis
    by (auto simp: remote_send_handle_def harbor_ok_set_slave Let_def)
qed

lemma remote_send_name_ok:
  assumes "harbor_ok h"
  shows "\<exists>h' acts r. remote_send_name h source name t session msg = Some (h', acts, r) \<and> harbor_ok h'"
proof -
  obtain h1 node where n: "get_node name h = (h1, node)" by fastforce
  from get_node_ok[OF assms n] have h1: "harbor_ok h1" and node: "node_ok node" by auto
  show ?thesis
  proof (cases "kv_value node = 0")
    case False
    with n show ?thesis using remote_send_handle_ok[OF h1] by (simp add: remote_send_name_def)
  next
    case True
    from node have "hq_wf (kv_queue node)" by (simp add: node_ok_def)
    from push_queue_msg_wf[OF this, of "\<lparr>hm_header = \<lparr>rh_source = source, rh_destination = push_bit HANDLE_REMOTE_SHIFT t,
        rh_session = of_int session\<rparr>, hm_buffer = msg\<rparr>"]
    obtain q' ms where q': "push_queue_msg \<lparr>hm_header = \<lparr>rh_source = source, rh_destination = push_bit HANDLE_REMOTE_SHIFT t,
        rh_session = of_int session\<rparr>, hm_buffer = msg\<rparr> (case kv_queue node of None \<Rightarrow> hb_new_queue | Some q \<Rightarrow> q) = Some q'"
      "hq_rep q' ms" by blast
    then have "node_ok (node\<lparr>kv_queue := Some q'\<rparr>)" using True by (auto simp: node_ok_def hq_wf_Some)
    with h1 have "harbor_ok (set_node name (node\<lparr>kv_queue := Some q'\<rparr>) h1)" by (rule set_node_ok)
    with True n q'(1) show ?thesis by (simp add: remote_send_name_def)
  qed
qed

text \<open>A connection that is set up: it leaves the state of waiting, and the accepting side sends what was queued.\<close>

lemma slave_ok_connect:
  assumes "slave_ok s" "sl_fd s = 0" "fd \<noteq> 0"
  shows "slave_ok (s\<lparr>sl_fd := fd, sl_status := STATUS_HANDSHAKE\<rparr>)"
    and "slave_ok (s\<lparr>sl_fd := fd, sl_status := STATUS_HEADER, sl_queue := None\<rparr>)"
  using assms slave_down[OF assms(1,2)] by (auto simp: slave_ok_def)

lemma dispatch_accepted:
  assumes "slave_ok (hb_s h i)" "sl_fd (hb_s h i) = 0" "fd \<noteq> 0"
  shows "hb_dispatch_queue (set_slave i (hb_s h i\<lparr>sl_fd := fd, sl_status := STATUS_HEADER\<rparr>) h) i
    = Some (set_slave i (hb_s h i\<lparr>sl_fd := fd, sl_status := STATUS_HEADER, sl_queue := None\<rparr>) h,
        concat (map (\<lambda>m. send_remote fd (hm_buffer m) (hm_header m)) (queued (sl_queue (hb_s h i)))))"
  using assms by (subst dispatch_queue_wf) (auto simp: slave_ok_def flush_acts_def)

lemma harbor_command_ok:
  assumes "harbor_ok h" "2 \<le> length msg"
  shows "\<exists>h' acts. harbor_command h msg source = Some (h', acts) \<and> harbor_ok h'"
proof -
  let ?c = "case msg of [] \<Rightarrow> 0 | b # _ \<Rightarrow> unat b"
  obtain fd k where scan: "scan_fd_id (c_string (byte_text (drop 2 msg))) = (fd, k)" by fastforce
  have s: "int (length msg) - 2 \<ge> 0" using assms(2) by simp
  consider "?c = 78" | "?c = 83 \<or> ?c = 65" | "?c \<noteq> 78" "?c \<noteq> 83" "?c \<noteq> 65" by blast
  then show ?thesis
  proof cases
    case 1
    then show ?thesis using update_name_ok[OF assms(1)] assms(1) by (simp add: harbor_command_def Let_def)
  next
    case 2
    let ?sl = "hb_s h (nat k)"
    have ok: "slave_ok ?sl" using assms(1) by (rule harbor_ok_slave)
    have "harbor_ok (set_slave (nat k) (?sl\<lparr>sl_fd := fd, sl_status := STATUS_HANDSHAKE\<rparr>) h)"
      "harbor_ok (set_slave (nat k) (?sl\<lparr>sl_fd := fd, sl_status := STATUS_HEADER, sl_queue := None\<rparr>) h)" if "sl_fd ?sl = 0" "fd \<noteq> 0"
      using slave_ok_connect[OF ok that] assms(1) harbor_ok_set_slave by blast+
    with 2 s scan assms(1) dispatch_accepted[OF ok] show ?thesis
      by (auto simp: harbor_command_def Let_def)
  next
    case 3
    with assms(1) show ?thesis by (simp add: harbor_command_def Let_def)
  qed
qed

lemma harbor_command_keeps:
  assumes "harbor_ok h" "harbor_command h msg source = Some (h', acts)"
  shows "harbor_ok h'"
proof (cases "2 \<le> length msg")
  case True
  from harbor_command_ok[OF assms(1) True, of source] assms(2) show ?thesis by auto
next
  case False
  with assms show ?thesis by (auto simp: harbor_command_def Let_def split: if_splits)
qed

lemma mainloop_remote_ok:
  assumes "harbor_ok h"
  shows "\<exists>h' acts. mainloop alive h (HIRemote source t session dest msg) = Some (h', acts) \<and> harbor_ok h'"
proof (cases dest)
  case (ToName name)
  with remote_send_name_ok[OF assms, of source name t session msg] show ?thesis by (auto simp: mainloop_def)
next
  case (ToHandle handle)
  with remote_send_handle_ok[OF assms, of source handle t session msg] show ?thesis by (auto simp: mainloop_def)
qed

lemma mainloop_keeps:
  assumes ok: "harbor_ok h" and run: "mainloop alive h inp = Some (h', acts)"
  shows "harbor_ok h'"
proof (cases inp)
  case (HISocket m)
  have "harbor_ok h1" if "push_loop alive i h buf = Some (h1, x)" for i buf h1 x
    by (rule kept_harbor_ok[OF ok push_loop_kept[OF harbor_ok_slave[OF ok] that]])
  with run ok HISocket show ?thesis
    by (cases m) (auto simp: mainloop_def push_socket_data_def split: option.splits Option.bind_splits if_splits)
next
  case (HICommand msg source)
  with run ok show ?thesis by (auto simp: mainloop_def dest: harbor_command_keeps)
next
  case (HIRemote source t session dest msg)
  with mainloop_remote_ok[OF ok, of alive source t session dest msg] run show ?thesis by auto
qed

lemma harbor_reach_ok: "harbor_reach h \<Longrightarrow> harbor_ok h"
  by (induction rule: harbor_reach.induct) (auto intro: harbor_init_ok[OF harbor_create_ok] mainloop_keeps)

section \<open>What stops the service\<close>

text \<open>A stream of packages has a complete one that is shorter than the header behind its data; the first byte of a length that is not zero
  ends the connection.\<close>

function short_package :: "u8 list \<Rightarrow> bool" where
  "short_package raw =
     (if length raw < 4 \<or> raw ! 0 \<noteq> 0 then False
      else
        (let n = size_value (take 4 raw); rest = drop 4 raw
         in if rest = [] \<or> length rest < n then False else n < HEADER_COOKIE_LENGTH \<or> short_package (drop n rest)))"
  by pat_completeness auto
termination
  by (relation "measure length") auto

declare short_package.simps [simp del]

lemma short_package_Nil [simp]: "short_package [] = False"
  by (subst short_package.simps) simp










text \<open>The state after a start with node 1 and the slave service 0x01000004.\<close>

lemma ex_start: "harbor_reach (harbor_create\<lparr>hb_id := 1, hb_slave := 0x01000004\<rparr>)"
proof (rule reach_init)
  have "scan_fd_id ''1 16777220'' = (1, 16777220)"
    by (simp add: scan_fd_id_def scan_int_def c_isspace_def scan_sign_def is_digit_def digit_val_def digits_val_def to_int32_def)
  then show "harbor_init harbor_create ''1 16777220''
      = (harbor_create\<lparr>hb_id := 1, hb_slave := 0x01000004\<rparr>, [HCallback, HHarborStart], 0)"
    by (simp add: harbor_init_def)
qed


section \<open>Messages that wait for a connection\<close>

text \<open>The entry of the queue that a message to a handle makes.\<close>

definition out_entry :: "remote_out \<Rightarrow> harbor_msg" where
  "out_entry r = \<lparr>hm_header = out_cookie r, hm_buffer = ro_msg r\<rparr>"

lemma mainloop_queued:
  assumes "harbor_ok h" "out_ok k r" "int k \<noteq> hb_id h" "sl_status (hb_s h k) \<in> {STATUS_WAIT, STATUS_HANDSHAKE}"
  shows "\<exists>q. mainloop alive h (out_input r) = Some (set_slave k (hb_s h k\<lparr>sl_queue := Some q\<rparr>) h, [])
    \<and> hq_rep q (queued (sl_queue (hb_s h k)) @ [out_entry r])"
proof -
  have ok: "slave_ok (hb_s h k)" using assms(1) by (rule harbor_ok_slave)
  then have "hq_wf (sl_queue (hb_s h k))" by (simp add: slave_ok_def)
  from push_queue_msg_wf[OF this, of "out_entry r"] obtain q where
    "push_queue_msg (out_entry r) (case sl_queue (hb_s h k) of None \<Rightarrow> hb_new_queue | Some q \<Rightarrow> q) = Some q"
    "hq_rep q (queued (sl_queue (hb_s h k)) @ [out_entry r])" by blast
  moreover have "unat (drop_bit HANDLE_REMOTE_SHIFT (ro_dest r)) = k" using assms(2) by (simp add: out_ok_def)
  moreover have "sl_fd (hb_s h k) = 0 \<or> sl_status (hb_s h k) = STATUS_HANDSHAKE" "sl_status (hb_s h k) \<noteq> STATUS_DOWN"
    using ok assms(4) by (auto simp: slave_ok_def)
  ultimately show ?thesis
    using assms(3) by (auto simp: mainloop_def out_input_def remote_send_handle_def out_entry_def out_cookie_def Let_def)
qed

lemma harbor_run_queued:
  "harbor_ok h \<Longrightarrow> \<forall>r \<in> set rs. out_ok k r \<Longrightarrow> int k \<noteq> hb_id h \<Longrightarrow> sl_status (hb_s h k) \<in> {STATUS_WAIT, STATUS_HANDSHAKE}
    \<Longrightarrow> \<exists>qo. harbor_run alive h (map out_input rs) = Some (set_slave k (hb_s h k\<lparr>sl_queue := qo\<rparr>) h, [])
        \<and> hq_wf qo \<and> queued qo = queued (sl_queue (hb_s h k)) @ map out_entry rs"
proof (induction rs arbitrary: h)
  case Nil
  have "set_slave k (hb_s h k\<lparr>sl_queue := sl_queue (hb_s h k)\<rparr>) h = h" by simp
  moreover have "hq_wf (sl_queue (hb_s h k))" using harbor_ok_slave[OF Nil.prems(1), of k] by (simp add: slave_ok_def)
  ultimately show ?case by (intro exI[of _ "sl_queue (hb_s h k)"]) (simp add: fun_upd_def)
next
  case (Cons r rs)
  have "out_ok k r" using Cons.prems(2) by simp
  from mainloop_queued[OF Cons.prems(1) this Cons.prems(3,4), of alive] obtain q
    where q: "mainloop alive h (out_input r) = Some (set_slave k (hb_s h k\<lparr>sl_queue := Some q\<rparr>) h, [])"
      "hq_rep q (queued (sl_queue (hb_s h k)) @ [out_entry r])" by blast
  let ?h1 = "set_slave k (hb_s h k\<lparr>sl_queue := Some q\<rparr>) h"
  have "\<exists>qo. harbor_run alive ?h1 (map out_input rs) = Some (set_slave k (hb_s ?h1 k\<lparr>sl_queue := qo\<rparr>) ?h1, [])
      \<and> hq_wf qo \<and> queued qo = queued (sl_queue (hb_s ?h1 k)) @ map out_entry rs"
    by (rule Cons.IH) (use mainloop_keeps[OF Cons.prems(1) q(1)] Cons.prems(2-4) in simp_all)
  then obtain qo where run: "harbor_run alive ?h1 (map out_input rs) = Some (set_slave k (hb_s ?h1 k\<lparr>sl_queue := qo\<rparr>) ?h1, [])"
    and qo: "hq_wf qo" "queued qo = queued (sl_queue (hb_s ?h1 k)) @ map out_entry rs" by blast
  have same: "set_slave k (hb_s ?h1 k\<lparr>sl_queue := qo\<rparr>) ?h1 = set_slave k (hb_s h k\<lparr>sl_queue := qo\<rparr>) h" by simp
  have "queued qo = queued (sl_queue (hb_s h k)) @ map out_entry (r # rs)" using qo(2) q(2) by (simp add: queued_rep)
  then show ?case using run[unfolded same] q(1) qo(1) by (intro exI[of _ qo]) (simp add: fun_upd_def)
qed

lemma harbor_run_append: "harbor_run alive h (xs @ ys) = and_then (harbor_run alive h xs) (\<lambda>h1. harbor_run alive h1 ys)"
proof (induction xs arbitrary: h)
  case (Cons x xs)
  then show ?case by (auto simp: and_then_def split: Option.bind_splits)
qed (simp add: and_then_def)

text \<open>The text of a command \<open>A fd id\<close>.\<close>

definition accept_command :: "u8 list \<Rightarrow> int \<Rightarrow> nat \<Rightarrow> bool" where
  "accept_command msg fd k \<longleftrightarrow> 2 \<le> length msg \<and> unat (hd msg) = 65 \<and> scan_fd_id (c_string (byte_text (drop 2 msg))) = (fd, int k)
     \<and> fd \<noteq> 0 \<and> 0 < k \<and> k < REMOTE_MAX"

lemma accept_flushes:
  assumes ok: "harbor_ok h" and st: "sl_status (hb_s h k) = STATUS_WAIT" and cmd: "accept_command msg fd k"
  shows "mainloop alive h (HICommand msg source)
    = Some (set_slave k (hb_s h k\<lparr>sl_fd := fd, sl_status := STATUS_HEADER, sl_queue := None\<rparr>) h,
        HSocketStart fd # HSocketSend fd [of_int (hb_id h)]
          # concat (map (\<lambda>m. send_remote fd (hm_buffer m) (hm_header m)) (queued (sl_queue (hb_s h k)))))"
proof -
  have s: "slave_ok (hb_s h k)" "sl_fd (hb_s h k) = 0"
    using harbor_ok_slave[OF ok, of k] st by (auto simp: slave_ok_def)
  obtain b b' bs where msg: "msg = b # b' # bs"
    using cmd by (cases msg; cases "tl msg") (auto simp: accept_command_def)
  have "fd \<noteq> 0" using cmd by (simp add: accept_command_def)
  from dispatch_accepted[OF s this] cmd s(2) msg show ?thesis
    by (simp add: mainloop_def harbor_command_def accept_command_def hb_handshake_def Let_def)
qed

text \<open>C38: The messages to a node that is not connected yet are kept in order: when the connection is accepted,
  the service starts the socket, sends its own number and then the messages that were queued before and the new ones,
  each as one package, and no message stays behind in the queue.\<close>

theorem harbor_queue_flushed:
  assumes "harbor_reach h" and "sl_status (hb_s h k) = STATUS_WAIT" and "hb_id h \<noteq> int k"
    and "\<forall>r \<in> set rs. out_ok k r" and "accept_command msg fd k"
  shows "\<exists>h'. harbor_run alive h (map out_input rs @ [HICommand msg source])
      = Some (h', HSocketStart fd # HSocketSend fd [of_int (hb_id h)]
          # concat (map (\<lambda>m. send_remote fd (hm_buffer m) (hm_header m)) (queued (sl_queue (hb_s h k))))
          @ map (\<lambda>r. HSocketSend fd (package (ro_msg r) (out_cookie r))) rs)
    \<and> connected (hb_s h' k) \<and> between_packages (hb_s h' k) \<and> sl_queue (hb_s h' k) = None"
proof -
  have ok: "harbor_ok h" using assms(1) by (rule harbor_reach_ok)
  from harbor_run_queued[OF ok assms(4), of alive] assms(2,3) obtain qo
    where run: "harbor_run alive h (map out_input rs) = Some (set_slave k (hb_s h k\<lparr>sl_queue := qo\<rparr>) h, [])"
      and qo: "hq_wf qo" "queued qo = queued (sl_queue (hb_s h k)) @ map out_entry rs" by (auto simp: fun_upd_def)
  let ?h1 = "set_slave k (hb_s h k\<lparr>sl_queue := qo\<rparr>) h"
  let ?s2 = "hb_s h k\<lparr>sl_queue := qo, sl_fd := fd, sl_status := STATUS_HEADER, sl_queue := None\<rparr>"
  have s: "slave_ok (hb_s h k)" using ok by (rule harbor_ok_slave)
  then have fd: "sl_fd (hb_s h k) = 0" "sl_read (hb_s h k) = 0" using assms(2) by (auto simp: slave_ok_def)
  have ok1: "harbor_ok ?h1" using slave_ok_queue[OF s _ qo(1)] fd ok by (simp add: harbor_ok_set_slave)
  have pk: "send_remote fd (ro_msg r) (out_cookie r) = [HSocketSend fd (package (ro_msg r) (out_cookie r))]" if "r \<in> set rs" for r
    using assms(4) that by (intro send_remote_package) (auto simp: out_ok_def)
  have outs: "concat (map (\<lambda>m. send_remote fd (hm_buffer m) (hm_header m)) (map out_entry rs))
      = map (\<lambda>r. HSocketSend fd (package (ro_msg r) (out_cookie r))) rs"
    using pk by (induction rs) (simp_all add: out_entry_def)
  have "mainloop alive ?h1 (HICommand msg source) = Some (set_slave k ?s2 ?h1, HSocketStart fd # HSocketSend fd [of_int (hb_id h)]
      # concat (map (\<lambda>m. send_remote fd (hm_buffer m) (hm_header m)) (queued qo)))"
    using accept_flushes[OF ok1 _ assms(5), of alive source] assms(2) by simp
  then have "harbor_run alive h (map out_input rs @ [HICommand msg source]) = Some (set_slave k ?s2 ?h1,
      HSocketStart fd # HSocketSend fd [of_int (hb_id h)]
      # concat (map (\<lambda>m. send_remote fd (hm_buffer m) (hm_header m)) (queued (sl_queue (hb_s h k))))
      @ map (\<lambda>r. HSocketSend fd (package (ro_msg r) (out_cookie r))) rs)"
    unfolding harbor_run_append run by (simp add: qo(2) outs del: map_map)
  moreover have "connected ?s2" "between_packages ?s2"
    using s fd assms(2,5) by (auto simp: connected_def between_packages_def slave_ok_def accept_command_def)
  ultimately show ?thesis by (intro exI[of _ "set_slave k ?s2 ?h1"]) simp
qed

theorem harbor_queue_flushed_witness:
  "\<exists>h'. harbor_run (\<lambda>_. True) (harbor_create\<lparr>hb_id := 1, hb_slave := 0x01000004\<rparr>)
       (map out_input ex_outs @ [HICommand (text_bytes ''A 5 2'') 0x01000004])
      = Some (h', [HSocketStart 5, HSocketSend 5 [1]] @ map (\<lambda>r. HSocketSend 5 (package (ro_msg r) (out_cookie r))) ex_outs)"
proof -
  have "c_string (byte_text (drop 2 (text_bytes ''A 5 2''))) = ''5 2''" by code_simp
  moreover have "scan_fd_id ''5 2'' = (5, 2)"
    by (simp add: scan_fd_id_def scan_int_def c_isspace_def scan_sign_def is_digit_def digit_val_def digits_val_def to_int32_def)
  ultimately have "accept_command (text_bytes ''A 5 2'') 5 2"
    by (simp add: accept_command_def text_bytes_def REMOTE_MAX_def)
  from harbor_queue_flushed[OF ex_start _ _ ex_outs_ok this, of "\<lambda>_. True" "0x01000004"]
  show ?thesis by (auto simp: harbor_create_def slave0_def)
qed

section \<open>Messages that do not arrive\<close>

text \<open>A connection that was closed keeps its socket, so the branch of \<open>remote_send_handle\<close> that reports to the
  source that the destination is dead is never taken: the message goes to the closed socket.\<close>

lemma harbor_down_not_reported:
  assumes "harbor_reach h" and "sl_status (hb_s h (unat (drop_bit HANDLE_REMOTE_SHIFT destination))) = STATUS_DOWN"
    and "int (unat (drop_bit HANDLE_REMOTE_SHIFT destination)) \<noteq> hb_id h"
  shows "\<exists>fd cookie. fd \<noteq> 0 \<and> remote_send_handle h source destination t session msg = Some (h, send_remote fd msg cookie, 0)"
  using assms harbor_ok_slave[OF harbor_reach_ok[OF assms(1)], of "unat (drop_bit HANDLE_REMOTE_SHIFT destination)"]
  by (auto simp: remote_send_handle_def slave_ok_def Let_def)

text \<open>\<open>send_remote\<close> accepts lengths of 32 bits, but the other side closes the connection at a length of more than
  24 bits.\<close>

lemma drop_bit_length_byte:
  assumes "2 ^ 24 \<le> n" "n < 2 ^ 32"
  shows "to_bigendian (of_nat n) ! 0 \<noteq> 0"
proof -
  have "unat (of_nat n :: u32) = n" using assms(2) by (simp add: unat_of_nat)
  then have "unat (to_bigendian (of_nat n) ! 0) = take_bit 8 (n div 2 ^ 24)"
    using unat_ucast_drop[of 24 "of_nat n"] by (simp add: to_bigendian_def drop_bit_eq_div)
  moreover have "n div 2 ^ 24 < 256" "0 < n div 2 ^ 24" using assms by (auto simp: div_greater_zero_iff)
  ultimately have "unat (to_bigendian (of_nat n) ! 0) \<noteq> 0" by (simp add: take_bit_nat_eq_self)
  then show ?thesis by (metis unsigned_0)
qed

lemma large_package_closes:
  assumes s: "between_packages (hb_s h i)" and "2 ^ 24 \<le> length msg + 12" "length msg + 12 < 2 ^ 32"
  shows "send_remote fd msg c = [HSocketSend fd (package msg c)]"
    and "\<exists>h'. push_loop alive i h (package msg c) = Some (h', [HError (''Message is too long from harbor '' @ fmt_d (int i)),
        HSocketClose (sl_fd (hb_s h i))]) \<and> sl_status (hb_s h' i) = STATUS_DOWN"
proof -
  let ?s = "hb_s h i"
  have ok: "slave_ok ?s" and st: "sl_status ?s = STATUS_HEADER" and rd: "sl_read ?s = 0" and fd: "sl_fd ?s \<noteq> 0"
    using s by (auto simp: between_packages_def slave_ok_def)
  show "send_remote fd msg c = [HSocketSend fd (package msg c)]" using assms(3) by (rule send_remote_package)
  have "size_filled ?s (to_bigendian (of_nat (length msg + 12))) = to_bigendian (of_nat (length msg + 12))"
    using ok rd by (simp add: size_filled_def slave_ok_def)
  then show "\<exists>h'. push_loop alive i h (package msg c) = Some (h', [HError (''Message is too long from harbor '' @ fmt_d (int i)),
        HSocketClose (sl_fd ?s)]) \<and> sl_status (hb_s h' i) = STATUS_DOWN"
    using push_loop_header_full[OF ok st _ refl refl, of "package msg c" alive] rd fd drop_bit_length_byte[OF assms(2,3)]
    by (simp add: package_def close_acts_def)
qed

text \<open>Data from a socket that belongs to no connection: its buffer is freed by \<open>push_socket_data\<close> and again by
  \<open>mainloop\<close>.\<close>

lemma unknown_socket_double_free: "slave_of_fd h fd = None \<Longrightarrow> mainloop alive h (HISocket (MData fd buffer)) = None"
  by (simp add: mainloop_def push_socket_data_def)

text \<open>The messages to a name have no destination handle when they are queued.  \<open>dispatch_name_queue\<close> adds it when
  the node of the name is connected; when it is not, the messages move to the queue of the node as they are, and
  they are sent without a handle when the connection is accepted.\<close>

lemma name_queue_moved:
  assumes "i = unat (drop_bit HANDLE_REMOTE_SHIFT (kv_value node))" and "i \<noteq> unat (drop_bit HANDLE_REMOTE_SHIFT (hb_slave h))"
    and "harbor_ok h" "sl_status (hb_s h i) = STATUS_WAIT" "sl_queue (hb_s h i) = None" and "kv_queue node = Some q" "hq_rep q ms"
    and "accept_command msg fd i"
  shows "\<exists>h1 node1 h2 acts. dispatch_name_queue h node = Some (h1, node1, [])
    \<and> mainloop alive h1 (HICommand msg source) = Some (h2, HSocketStart fd # HSocketSend fd [of_int (hb_id h)]
         # concat (map (\<lambda>m. send_remote fd (hm_buffer m) (hm_header m)) ms))"
proof -
  let ?h1 = "set_slave i (hb_s h i\<lparr>sl_queue := Some q\<rparr>) h"
  have s: "slave_ok (hb_s h i)" using assms(3) by (rule harbor_ok_slave)
  then have fd: "sl_fd (hb_s h i) = 0" using assms(4) by (simp add: slave_ok_def)
  have d: "dispatch_name_queue h node = Some (?h1, node\<lparr>kv_queue := None\<rparr>, [])"
    using assms(1,2,4-6) fd by (simp add: dispatch_name_queue_def Let_def)
  have "hq_wf (Some q)" using assms(7) by (auto simp: hq_wf_Some)
  then have "slave_ok (hb_s h i\<lparr>sl_queue := Some q\<rparr>)" using slave_ok_queue[OF s, of "Some q"] fd by simp
  then have "harbor_ok ?h1" using assms(3) by (rule harbor_ok_set_slave[rotated])
  from accept_flushes[OF this _ assms(8), of alive source] d assms(4) show ?thesis
    by (auto simp: queued_rep[OF assms(7)])
qed

end
