(* ===== verification/Socket.thy ===== *)
theory Socket
  imports Cstr Bytes
begin

text \<open>
  The socket server, \<open>skynet-src/socket_server.c\<close>: one thread reads requests of other threads from a
  pipe and events from the operating system; it owns a table of sockets with their lists of outgoing
  buffers.  The operating system is a parameter \<open>os\<close>: a function from the calls made so far, with their answers, and the next
  call to its answer.  A call that fails answers \<open>AErr\<close>.  The trace of calls is part of the state; it
  also records the release of buffers and the lines written to the error output.  \<open>None\<close> is a
  failed assertion, an answer no operating system gives or a loop that does not end.
\<close>

section \<open>The operating system\<close>

datatype errno = EINTR | EAGAIN | EINPROGRESS | EMFILE | ENFILE | EOTHER int

text \<open>Port and address as they are stored in memory.\<close>

datatype sockaddr = AddrV4 "u8 list" "u8 list" | AddrV6 "u8 list" "u8 list"

record event =
  ev_s :: "nat option"
  ev_read :: bool
  ev_write :: bool

datatype oscall = CWrite int "u8 list" | CRead int int | CSendto int "u8 list" "sockaddr option" | CRecvfrom int
  | CAccept int | CClose int | CSpAdd int "nat option" | CSpDel int | CSpWrite int nat bool | CSpWait
  | CFree addr | CObjFree addr | CGetaddrinfo string string | CSocket sockaddr | CConnect int sockaddr | CNtop sockaddr
  | CGetsockerr int | CGetpeername int | CKeepalive int | CNonblocking int | CNodelay int int int | CReuse int
  | CBind int sockaddr | CListen int int | CSocketUdp | CStrerror | CLog string | CPipe | CSpCreate | CSpRelease

datatype answer = ANum int | AErr errno | ABytes "u8 list" | AFrom "u8 list" sockaddr | AAddr sockaddr | AAddrs "sockaddr list"
  | AAccepted int sockaddr | APair int int | AText string | AEvents "event list"

type_synonym os_fun = "(oscall \<times> answer) list \<Rightarrow> oscall \<Rightarrow> answer"

definition errno_of :: "answer \<Rightarrow> errno option" where
  "errno_of a = (case a of AErr e \<Rightarrow> Some e | _ \<Rightarrow> None)"

definition failed :: "answer \<Rightarrow> bool" where
  "failed a = (case a of AErr _ \<Rightarrow> True | _ \<Rightarrow> False)"

section \<open>State\<close>

definition MAX_SOCKET :: nat where [cdefs]: "MAX_SOCKET = 2 ^ 16"
definition MIN_READ_BUFFER :: int where [cdefs]: "MIN_READ_BUFFER = 64"
definition UDP_ADDRESS_SIZE :: nat where [cdefs]: "UDP_ADDRESS_SIZE = 19"

datatype socket_type = SOCKET_TYPE_INVALID | SOCKET_TYPE_RESERVE | SOCKET_TYPE_PLISTEN | SOCKET_TYPE_LISTEN
  | SOCKET_TYPE_CONNECTING | SOCKET_TYPE_CONNECTED | SOCKET_TYPE_HALFCLOSE | SOCKET_TYPE_PACCEPT | SOCKET_TYPE_BIND

datatype sk_proto = PROTOCOL_TCP | PROTOCOL_UDP | PROTOCOL_UDPv6

definition proto_num :: "sk_proto \<Rightarrow> u8" where
  "proto_num p = (case p of PROTOCOL_TCP \<Rightarrow> 0 | PROTOCOL_UDP \<Rightarrow> 1 | PROTOCOL_UDPv6 \<Rightarrow> 2)"

datatype sk_priority = PRIORITY_HIGH | PRIORITY_LOW

text \<open>What is handed over for sending: a block with its bytes, or a user object with the results of \<open>soi.buffer\<close> and of
  \<open>soi.size\<close>.\<close>

datatype sendbuf = Plain addr "u8 list" | UserObject addr addr "u8 list"

text \<open>The \<open>sz\<close> bytes at \<open>ptr\<close> are \<open>sb_data\<close>.  The buffer of a TCP socket has no address.\<close>

record write_buffer =
  sb_buffer :: addr
  sb_ptr :: addr
  sb_data :: "u8 list"
  sb_userobject :: bool
  sb_udp_address :: "u8 list"

text \<open>The lists of buffers are lists; the members of the union \<open>p\<close> are two fields, each used by one
  kind of protocol only.\<close>

record socket =
  sk_opaque :: nat
  sk_high :: "write_buffer list"
  sk_low :: "write_buffer list"
  sk_wb_size :: int
  sk_fd :: int
  sk_id :: int
  sk_protocol :: sk_proto
  sk_type :: socket_type
  sk_size :: int
  sk_udp_address :: "u8 list"

text \<open>The requests in the pipe.\<close>

datatype request = RStart int nat | RBind int int nat | RListen int int nat | RClose int bool nat | ROpen int int nat string
  | RExit | RSend sk_priority int sendbuf | RSendUdp int sendbuf "u8 list" | RSetUdp int "u8 list" | RSetopt int int int
  | RUdp int int bool nat

text \<open>The flag of \<open>RUdp\<close> is \<open>family == AF_INET6\<close>.\<close>

record socket_server =
  ss_recvctrl_fd :: int
  ss_sendctrl_fd :: int
  ss_checkctrl :: bool
  ss_alloc_id :: int
  ss_event_n :: nat
  ss_event_index :: nat
  ss_ev :: "event list"
  ss_slot :: "nat \<Rightarrow> socket"
  ss_pipe :: "request list"
  ss_trace :: "(oscall \<times> answer) list"

datatype sk_data = NoData | SText string | SBytes "u8 list"

record socket_message =
  rm_id :: int
  rm_opaque :: nat
  rm_ud :: int
  rm_data :: sk_data

datatype sk_result = SOCKET_DATA | SOCKET_CLOSE | SOCKET_OPEN | SOCKET_ACCEPT | SOCKET_ERROR | SOCKET_EXIT | SOCKET_UDP

text \<open>A handler returns \<open>None\<close> for \<open>-1\<close>, or a type and the message it has filled.\<close>

type_synonym handled = "(sk_result \<times> socket_message) option"

definition sys :: "os_fun \<Rightarrow> oscall \<Rightarrow> socket_server \<Rightarrow> socket_server \<times> answer" where
  "sys os c ss = (let a = os (ss_trace ss) c in (ss\<lparr>ss_trace := ss_trace ss @ [(c, a)]\<rparr>, a))"

text \<open>A call whose answer is not used.\<close>

definition sysc :: "os_fun \<Rightarrow> oscall \<Rightarrow> socket_server \<Rightarrow> socket_server" where
  "sysc os c ss = fst (sys os c ss)"

abbreviation slot_put :: "nat \<Rightarrow> socket \<Rightarrow> socket_server \<Rightarrow> socket_server" where
  "slot_put k s ss \<equiv> ss\<lparr>ss_slot := (ss_slot ss)(k := s)\<rparr>"

definition HASH_ID :: "int \<Rightarrow> nat" where
  "HASH_ID k = nat (k mod int MAX_SOCKET)"

section \<open>Buffers\<close>

definition so_bytes :: "sendbuf \<Rightarrow> u8 list" where
  "so_bytes b = (case b of Plain _ bs \<Rightarrow> bs | UserObject _ _ bs \<Rightarrow> bs)"

text \<open>\<open>so.free_func(request->buffer)\<close>.\<close>

definition so_free :: "sendbuf \<Rightarrow> oscall" where
  "so_free b = (case b of Plain a _ \<Rightarrow> CFree a | UserObject a _ _ \<Rightarrow> CObjFree a)"

definition write_buffer_free :: "write_buffer \<Rightarrow> oscall" where
  "write_buffer_free wb = (if sb_userobject wb then CObjFree (sb_buffer wb) else CFree (sb_buffer wb))"

definition free_wb_list :: "os_fun \<Rightarrow> write_buffer list \<Rightarrow> socket_server \<Rightarrow> socket_server" where
  "free_wb_list os wbs ss = fold (\<lambda>wb ss. sysc os (write_buffer_free wb) ss) wbs ss"

text \<open>The loop of \<open>reserve_id\<close> with \<open>n\<close> turns left.\<close>

fun reserve_loop :: "nat \<Rightarrow> socket_server \<Rightarrow> socket_server \<times> int" where
  "reserve_loop 0 ss = (ss, -1)"
| "reserve_loop (Suc n) ss =
     (let k0 = to_int32 (ss_alloc_id ss + 1); k = (if k0 < 0 then k0 + 2 ^ 31 else k0); ss1 = ss\<lparr>ss_alloc_id := k\<rparr>;
          s = ss_slot ss1 (HASH_ID k)
      in if sk_type s = SOCKET_TYPE_INVALID then
           (slot_put (HASH_ID k) (s\<lparr>sk_type := SOCKET_TYPE_RESERVE, sk_id := k, sk_fd := -1\<rparr>) ss1, k)
         else reserve_loop n ss1)"

text \<open>The code takes the slot by a compare-and-swap and goes on with the next value of the counter, not counting the round, when another thread was faster; here the test and
  the reservation are one step.\<close>

definition reserve_id :: "socket_server \<Rightarrow> socket_server \<times> int" where
  "reserve_id ss = reserve_loop MAX_SOCKET ss"

definition socket0 :: socket where
  "socket0 = \<lparr>sk_opaque = 0, sk_high = [], sk_low = [], sk_wb_size = 0, sk_fd = 0, sk_id = 0, sk_protocol = PROTOCOL_TCP,
     sk_type = SOCKET_TYPE_INVALID, sk_size = 0, sk_udp_address = replicate UDP_ADDRESS_SIZE 0\<rparr>"

text \<open>The first result is the trace, the second the server or a null pointer.  The memory of the table, which \<open>malloc\<close>
  leaves unspecified, is taken as zeros where the code does not set it.\<close>

definition socket_server_create :: "os_fun \<Rightarrow> ((oscall \<times> answer) list \<times> socket_server option) option" where
  "socket_server_create os =
     (let ss = \<lparr>ss_recvctrl_fd = 0, ss_sendctrl_fd = 0, ss_checkctrl = True, ss_alloc_id = 0, ss_event_n = 0, ss_event_index = 0,
        ss_ev = [], ss_slot = (\<lambda>_. socket0), ss_pipe = [], ss_trace = []\<rparr>;
        (ss1, a) = sys os CSpCreate ss
      in if failed a then Some (ss_trace (sysc os (CLog ''socket-server: create event pool failed.'') ss1), None)
         else (let (ss2, p) = sys os CPipe ss1
           in case p of
                APair fd0 fd1 \<Rightarrow>
                  (let (ss3, r) = sys os (CSpAdd fd0 None) ss2
                   in if failed r then
                        Some (ss_trace (sysc os CSpRelease (sysc os (CClose fd1) (sysc os (CClose fd0)
                          (sysc os (CLog ''socket-server: can't add server fd to event pool.'') ss3)))), None)
                      else do {
                        c_assert (fd0 < 1024);
                        Some (ss_trace ss3, Some (ss3\<lparr>ss_recvctrl_fd := fd0, ss_sendctrl_fd := fd1\<rparr>)) })
              | _ \<Rightarrow> Some (ss_trace (sysc os (CLog ''socket-server: create socket pair failed.'') (sysc os CSpRelease ss2)), None)))"

definition close_message :: "socket \<Rightarrow> socket_message" where
  "close_message s = \<lparr>rm_id = sk_id s, rm_opaque = sk_opaque s, rm_ud = 0, rm_data = NoData\<rparr>"

definition force_close :: "os_fun \<Rightarrow> nat \<Rightarrow> socket_server \<Rightarrow> (socket_server \<times> socket_message) option" where
  "force_close os k ss =
     (let s = ss_slot ss k
      in if sk_type s = SOCKET_TYPE_INVALID then Some (ss, close_message s)
         else do {
           c_assert (sk_type s \<noteq> SOCKET_TYPE_RESERVE);
           let ss1 = free_wb_list os (sk_low s) (free_wb_list os (sk_high s) ss);
           let ss2 = (if sk_type s \<noteq> SOCKET_TYPE_PACCEPT \<and> sk_type s \<noteq> SOCKET_TYPE_PLISTEN then sysc os (CSpDel (sk_fd s)) ss1 else ss1);
           let ss3 = (if sk_type s \<noteq> SOCKET_TYPE_BIND then
               (let (ss', a) = sys os (CClose (sk_fd s)) ss2 in if failed a then sysc os (CLog ''close socket:'') ss' else ss')
             else ss2);
           Some (slot_put k (s\<lparr>sk_high := [], sk_low := [], sk_type := SOCKET_TYPE_INVALID\<rparr>) ss3, close_message s) })"

fun release_sockets :: "os_fun \<Rightarrow> nat list \<Rightarrow> socket_server \<Rightarrow> socket_server option" where
  "release_sockets os [] ss = Some ss"
| "release_sockets os (k # ks) ss =
     (if sk_type (ss_slot ss k) \<noteq> SOCKET_TYPE_RESERVE then do {
        (ss1, m) \<leftarrow> force_close os k ss;
        release_sockets os ks ss1 }
      else release_sockets os ks ss)"

definition socket_server_release :: "os_fun \<Rightarrow> socket_server \<Rightarrow> socket_server option" where
  "socket_server_release os ss = do {
     ss1 \<leftarrow> release_sockets os [0..<MAX_SOCKET] ss;
     Some (sysc os CSpRelease (sysc os (CClose (ss_recvctrl_fd ss1)) (sysc os (CClose (ss_sendctrl_fd ss1)) ss1))) }"

definition check_wb_list :: "write_buffer list \<Rightarrow> unit option" where
  "check_wb_list l = c_assert (l = [])"

text \<open>The second result is the slot, or \<open>None\<close> for a null pointer.\<close>

definition new_fd :: "os_fun \<Rightarrow> int \<Rightarrow> int \<Rightarrow> sk_proto \<Rightarrow> nat \<Rightarrow> bool \<Rightarrow> socket_server \<Rightarrow> (socket_server \<times> nat option) option" where
  "new_fd os id' fd protocol opaque add ss =
     (let k = HASH_ID id'; s = ss_slot ss k
      in do {
        c_assert (sk_type s = SOCKET_TYPE_RESERVE);
        let (ss1, a) = (if add then sys os (CSpAdd fd (Some k)) ss else (ss, ANum 0));
        if failed a then Some (slot_put k (s\<lparr>sk_type := SOCKET_TYPE_INVALID\<rparr>) ss1, None)
        else do {
          check_wb_list (sk_high s);
          check_wb_list (sk_low s);
          Some (slot_put k (s\<lparr>sk_id := id', sk_fd := fd, sk_protocol := protocol, sk_size := MIN_READ_BUFFER, sk_opaque := opaque,
            sk_wb_size := 0\<rparr>) ss1, Some k) } })"

abbreviation set_type :: "nat \<Rightarrow> socket_type \<Rightarrow> socket_server \<Rightarrow> socket_server" where
  "set_type k t ss \<equiv> slot_put k (ss_slot ss k\<lparr>sk_type := t\<rparr>) ss"

section \<open>Opening\<close>

text \<open>The loop over the addresses: the connected or connecting socket, its address and \<open>status == 0\<close>.\<close>

fun connect_loop :: "os_fun \<Rightarrow> sockaddr list \<Rightarrow> socket_server \<Rightarrow> socket_server \<times> (int \<times> sockaddr \<times> bool) option" where
  "connect_loop os [] ss = (ss, None)"
| "connect_loop os (ai # ais) ss =
     (let (ss1, a) = sys os (CSocket ai) ss
      in case a of
           ANum sock \<Rightarrow>
             (let (ss2, c) = sys os (CConnect sock ai) (sysc os (CNonblocking sock) (sysc os (CKeepalive sock) ss1))
              in case c of
                   AErr EINPROGRESS \<Rightarrow> (ss2, Some (sock, ai, False))
                 | AErr e \<Rightarrow> connect_loop os ais (sysc os (CClose sock) ss2)
                 | _ \<Rightarrow> (ss2, Some (sock, ai, True)))
         | _ \<Rightarrow> connect_loop os ais ss1)"

definition answer_text :: "answer \<Rightarrow> sk_data" where
  "answer_text a = (case a of AText t \<Rightarrow> SText t | _ \<Rightarrow> NoData)"

definition open_socket :: "os_fun \<Rightarrow> int \<Rightarrow> int \<Rightarrow> nat \<Rightarrow> string \<Rightarrow> socket_server \<Rightarrow> (socket_server \<times> handled) option" where
  "open_socket os id' port opaque host ss =
     (let result = (\<lambda>d. \<lparr>rm_id = id', rm_opaque = opaque, rm_ud = 0, rm_data = d\<rparr>);
          failing = (\<lambda>d ss. Some (set_type (HASH_ID id') SOCKET_TYPE_INVALID ss, Some (SOCKET_ERROR, result d)));
          (ss1, a) = sys os (CGetaddrinfo host (fmt_d port)) ss
      in case a of
           AAddrs ais \<Rightarrow>
             (let (ss2, r) = connect_loop os ais ss1
              in case r of
                   None \<Rightarrow> (let (ss3, t) = sys os CStrerror ss2 in failing (answer_text t) ss3)
                 | Some (sock, ai, connected) \<Rightarrow> do {
                     (ss3, ns) \<leftarrow> new_fd os id' sock PROTOCOL_TCP opaque True ss2;
                     (case ns of
                        None \<Rightarrow> failing (SText ''reach skynet socket number limit'') (sysc os (CClose sock) ss3)
                      | Some k \<Rightarrow>
                          if connected then
                            (let (ss4, t) = sys os (CNtop ai) (set_type k SOCKET_TYPE_CONNECTED ss3)
                             in Some (ss4, Some (SOCKET_OPEN, result (answer_text t))))
                          else Some (sysc os (CSpWrite sock k True) (set_type k SOCKET_TYPE_CONNECTING ss3), None)) })
         | _ \<Rightarrow> failing (answer_text a) ss1)"

section \<open>Sending\<close>

definition get_list :: "sk_priority \<Rightarrow> socket \<Rightarrow> write_buffer list" where
  "get_list p s = (case p of PRIORITY_HIGH \<Rightarrow> sk_high s | PRIORITY_LOW \<Rightarrow> sk_low s)"

definition set_list :: "sk_priority \<Rightarrow> write_buffer list \<Rightarrow> socket \<Rightarrow> socket" where
  "set_list p l s = (case p of PRIORITY_HIGH \<Rightarrow> s\<lparr>sk_high := l\<rparr> | PRIORITY_LOW \<Rightarrow> s\<lparr>sk_low := l\<rparr>)"

partial_function (option) send_list_tcp :: "os_fun \<Rightarrow> nat \<Rightarrow> sk_priority \<Rightarrow> socket_server \<Rightarrow> (socket_server \<times> handled) option" where
  "send_list_tcp os k p ss =
     (let s = ss_slot ss k
      in case get_list p s of
           [] \<Rightarrow> Some (ss, None)
         | tmp # rest \<Rightarrow>
             (let (ss1, a) = sys os (CWrite (sk_fd s) (sb_data tmp)) ss
              in case a of
                   AErr EINTR \<Rightarrow> send_list_tcp os k p ss1
                 | AErr EAGAIN \<Rightarrow> Some (ss1, None)
                 | ANum n \<Rightarrow> do {
                     c_assert (0 \<le> n \<and> n \<le> int (length (sb_data tmp)));
                     let s1 = s\<lparr>sk_wb_size := sk_wb_size s - n\<rparr>;
                     if n \<noteq> int (length (sb_data tmp)) then
                       Some (slot_put k (set_list p (tmp\<lparr>sb_ptr := sb_ptr tmp + nat n, sb_data := drop (nat n) (sb_data tmp)\<rparr> # rest) s1) ss1, None)
                     else send_list_tcp os k p (sysc os (write_buffer_free tmp) (slot_put k (set_list p rest s1) ss1)) }
                 | _ \<Rightarrow> do { (ss2, m) \<leftarrow> force_close os k ss1; Some (ss2, Some (SOCKET_CLOSE, m)) }))"

text \<open>\<open>None\<close> is the address length 0.\<close>

definition udp_socket_address :: "socket \<Rightarrow> u8 list \<Rightarrow> sockaddr option" where
  "udp_socket_address s a =
     (if a ! 0 \<noteq> proto_num (sk_protocol s) then None
      else (case sk_protocol s of
              PROTOCOL_UDP \<Rightarrow> Some (AddrV4 (take 2 (drop 1 a)) (take 4 (drop 3 a)))
            | PROTOCOL_UDPv6 \<Rightarrow> Some (AddrV6 (take 2 (drop 1 a)) (take 16 (drop 3 a)))
            | PROTOCOL_TCP \<Rightarrow> None))"

partial_function (option) send_list_udp :: "os_fun \<Rightarrow> nat \<Rightarrow> sk_priority \<Rightarrow> socket_server \<Rightarrow> (socket_server \<times> handled) option" where
  "send_list_udp os k p ss =
     (let s = ss_slot ss k
      in case get_list p s of
           [] \<Rightarrow> Some (ss, None)
         | tmp # rest \<Rightarrow>
             (let (ss1, a) = sys os (CSendto (sk_fd s) (sb_data tmp) (udp_socket_address s (sb_udp_address tmp))) ss
              in case errno_of a of
                   Some e \<Rightarrow>
                     Some (if e = EINTR \<or> e = EAGAIN then ss1
                           else sysc os (CLog (''socket-server : udp ('' @ fmt_d (sk_id s) @ '') sendto error'')) ss1, None)
                 | None \<Rightarrow>
                     send_list_udp os k p (sysc os (write_buffer_free tmp) (slot_put k
                       (set_list p rest (s\<lparr>sk_wb_size := sk_wb_size s - int (length (sb_data tmp))\<rparr>)) ss1))))"

definition send_list :: "os_fun \<Rightarrow> nat \<Rightarrow> sk_priority \<Rightarrow> socket_server \<Rightarrow> (socket_server \<times> handled) option" where
  "send_list os k p ss =
     (if sk_protocol (ss_slot ss k) = PROTOCOL_TCP then send_list_tcp os k p ss else send_list_udp os k p ss)"

definition list_uncomplete :: "write_buffer list \<Rightarrow> bool" where
  "list_uncomplete l = (case l of [] \<Rightarrow> False | wb # _ \<Rightarrow> sb_ptr wb \<noteq> sb_buffer wb)"

definition raise_uncomplete :: "socket \<Rightarrow> socket option" where
  "raise_uncomplete s =
     (case sk_low s of
        [] \<Rightarrow> None
      | tmp # rest \<Rightarrow> do { c_assert (sk_high s = []); Some (s\<lparr>sk_low := rest, sk_high := [tmp]\<rparr>) })"

definition send_buffer :: "os_fun \<Rightarrow> nat \<Rightarrow> socket_server \<Rightarrow> (socket_server \<times> handled) option" where
  "send_buffer os k ss = do {
     c_assert (\<not> list_uncomplete (sk_low (ss_slot ss k)));
     (ss1, r) \<leftarrow> send_list os k PRIORITY_HIGH ss;
     if r \<noteq> None then Some (ss1, r)
     else if sk_high (ss_slot ss1 k) \<noteq> [] then Some (ss1, None)
     else if sk_low (ss_slot ss1 k) \<noteq> [] then do {
       (ss2, r2) \<leftarrow> send_list os k PRIORITY_LOW ss1;
       if r2 \<noteq> None then Some (ss2, r2)
       else if list_uncomplete (sk_low (ss_slot ss2 k)) then do {
         s \<leftarrow> raise_uncomplete (ss_slot ss2 k);
         Some (slot_put k s ss2, None) }
       else Some (ss2, None) }
     else do {
       let ss2 = sysc os (CSpWrite (sk_fd (ss_slot ss1 k)) k False) ss1;
       if sk_type (ss_slot ss2 k) = SOCKET_TYPE_HALFCLOSE then do {
         (ss3, m) \<leftarrow> force_close os k ss2;
         Some (ss3, Some (SOCKET_CLOSE, m)) }
       else Some (ss2, None) } }"

text \<open>The buffer that \<open>append_sendbuffer_\<close> makes, with \<open>n\<close> bytes already sent.\<close>

definition make_buffer :: "sendbuf \<Rightarrow> nat \<Rightarrow> u8 list \<Rightarrow> write_buffer" where
  "make_buffer b n address =
     (case b of
        Plain a bs \<Rightarrow> \<lparr>sb_buffer = a, sb_ptr = a + n, sb_data = drop n bs, sb_userobject = False, sb_udp_address = address\<rparr>
      | UserObject a c bs \<Rightarrow> \<lparr>sb_buffer = a, sb_ptr = c + n, sb_data = drop n bs, sb_userobject = True, sb_udp_address = address\<rparr>)"

definition append_buffer :: "sk_priority \<Rightarrow> write_buffer \<Rightarrow> socket \<Rightarrow> socket" where
  "append_buffer p wb s = (set_list p (get_list p s @ [wb]) s)\<lparr>sk_wb_size := sk_wb_size s + int (length (sb_data wb))\<rparr>"

definition append_sendbuffer_udp :: "sk_priority \<Rightarrow> sendbuf \<Rightarrow> u8 list \<Rightarrow> socket \<Rightarrow> socket" where
  "append_sendbuffer_udp p b address s = append_buffer p (make_buffer b 0 address) s"

definition append_sendbuffer :: "sendbuf \<Rightarrow> nat \<Rightarrow> socket \<Rightarrow> socket" where
  "append_sendbuffer b n s = append_buffer PRIORITY_HIGH (make_buffer b n []) s"

definition append_sendbuffer_low :: "sendbuf \<Rightarrow> socket \<Rightarrow> socket" where
  "append_sendbuffer_low b s = append_buffer PRIORITY_LOW (make_buffer b 0 []) s"

definition send_buffer_empty :: "socket \<Rightarrow> bool" where
  "send_buffer_empty s \<longleftrightarrow> sk_high s = [] \<and> sk_low s = []"

definition send_socket :: "os_fun \<Rightarrow> int \<Rightarrow> sendbuf \<Rightarrow> sk_priority \<Rightarrow> u8 list option \<Rightarrow> socket_server \<Rightarrow> (socket_server \<times> handled) option" where
  "send_socket os id' b priority udp_address ss =
     (let k = HASH_ID id'; s = ss_slot ss k; bytes = so_bytes b; address = (case udp_address of None \<Rightarrow> sk_udp_address s | Some a \<Rightarrow> a)
      in if sk_type s = SOCKET_TYPE_INVALID \<or> sk_id s \<noteq> id' \<or> sk_type s = SOCKET_TYPE_HALFCLOSE \<or> sk_type s = SOCKET_TYPE_PACCEPT then
           Some (sysc os (so_free b) ss, None)
         else if sk_type s = SOCKET_TYPE_PLISTEN \<or> sk_type s = SOCKET_TYPE_LISTEN then
           Some (sysc os (so_free b) (sysc os (CLog (''socket-server: write to listen fd '' @ fmt_d id' @ ''.'')) ss), None)
         else if send_buffer_empty s \<and> sk_type s = SOCKET_TYPE_CONNECTED then
           (if sk_protocol s = PROTOCOL_TCP then
              (let (ss1, a) = sys os (CWrite (sk_fd s) bytes) ss;
                   n = (case a of ANum n \<Rightarrow> Some n | AErr EINTR \<Rightarrow> Some 0 | AErr EAGAIN \<Rightarrow> Some 0 | _ \<Rightarrow> None)
               in case n of
                    None \<Rightarrow> do {
                      (ss2, m) \<leftarrow> force_close os k
                        (sysc os (CLog (''socket-server: write to '' @ fmt_d id' @ '' (fd='' @ fmt_d (sk_fd s) @ '') error'')) ss1);
                      Some (sysc os (so_free b) ss2, Some (SOCKET_CLOSE, m)) }
                  | Some n \<Rightarrow> do {
                      c_assert (0 \<le> n \<and> n \<le> int (length bytes));
                      if n = int (length bytes) then Some (sysc os (so_free b) ss1, None)
                      else Some (sysc os (CSpWrite (sk_fd s) k True) (slot_put k (append_sendbuffer b (nat n) s) ss1), None) })
            else
              (let (ss1, a) = sys os (CSendto (sk_fd s) bytes (udp_socket_address s address)) ss
               in if a = ANum (int (length bytes)) then Some (sysc os (so_free b) ss1, None)
                  else Some (sysc os (CSpWrite (sk_fd s) k True) (slot_put k (append_sendbuffer_udp priority b address s) ss1), None)))
         else
           Some (slot_put k
             (if sk_protocol s = PROTOCOL_TCP then
                (if priority = PRIORITY_LOW then append_sendbuffer_low b s else append_sendbuffer b 0 s)
              else append_sendbuffer_udp priority b address s) ss, None))"

section \<open>The other requests\<close>

definition listen_socket :: "os_fun \<Rightarrow> int \<Rightarrow> int \<Rightarrow> nat \<Rightarrow> socket_server \<Rightarrow> (socket_server \<times> handled) option" where
  "listen_socket os id' listen_fd opaque ss = do {
     (ss1, s) \<leftarrow> new_fd os id' listen_fd PROTOCOL_TCP opaque False ss;
     (case s of
        None \<Rightarrow> Some (set_type (HASH_ID id') SOCKET_TYPE_INVALID (sysc os (CClose listen_fd) ss1),
          Some (SOCKET_ERROR, \<lparr>rm_id = id', rm_opaque = opaque, rm_ud = 0, rm_data = SText ''reach skynet socket number limit''\<rparr>))
      | Some k \<Rightarrow> Some (set_type k SOCKET_TYPE_PLISTEN ss1, None)) }"

definition close_socket :: "os_fun \<Rightarrow> int \<Rightarrow> bool \<Rightarrow> nat \<Rightarrow> socket_server \<Rightarrow> (socket_server \<times> handled) option" where
  "close_socket os id' shutdown opaque ss =
     (let k = HASH_ID id'; s = ss_slot ss k
      in if sk_type s = SOCKET_TYPE_INVALID \<or> sk_id s \<noteq> id' then
           Some (ss, Some (SOCKET_CLOSE, \<lparr>rm_id = id', rm_opaque = opaque, rm_ud = 0, rm_data = NoData\<rparr>))
         else do {
           (ss1, r) \<leftarrow> (if \<not> send_buffer_empty s then send_buffer os k ss else Some (ss, None));
           if r \<noteq> None then Some (ss1, r)
           else if shutdown \<or> send_buffer_empty (ss_slot ss1 k) then do {
             (ss2, m) \<leftarrow> force_close os k ss1;
             Some (ss2, Some (SOCKET_CLOSE, m\<lparr>rm_id := id', rm_opaque := opaque\<rparr>)) }
           else Some (set_type k SOCKET_TYPE_HALFCLOSE ss1, None) })"

definition bind_socket :: "os_fun \<Rightarrow> int \<Rightarrow> int \<Rightarrow> nat \<Rightarrow> socket_server \<Rightarrow> (socket_server \<times> handled) option" where
  "bind_socket os id' fd opaque ss = do {
     (ss1, s) \<leftarrow> new_fd os id' fd PROTOCOL_TCP opaque True ss;
     let result = (\<lambda>t. \<lparr>rm_id = id', rm_opaque = opaque, rm_ud = 0, rm_data = SText t\<rparr>);
     (case s of
        None \<Rightarrow> Some (ss1, Some (SOCKET_ERROR, result ''reach skynet socket number limit''))
      | Some k \<Rightarrow> Some (set_type k SOCKET_TYPE_BIND (sysc os (CNonblocking fd) ss1), Some (SOCKET_OPEN, result ''binding''))) }"

definition start_socket :: "os_fun \<Rightarrow> int \<Rightarrow> nat \<Rightarrow> socket_server \<Rightarrow> (socket_server \<times> handled) option" where
  "start_socket os id' opaque ss =
     (let k = HASH_ID id'; s = ss_slot ss k; result = (\<lambda>t. \<lparr>rm_id = id', rm_opaque = opaque, rm_ud = 0, rm_data = SText t\<rparr>)
      in if sk_type s = SOCKET_TYPE_INVALID \<or> sk_id s \<noteq> id' then Some (ss, Some (SOCKET_ERROR, result ''invalid socket''))
         else if sk_type s = SOCKET_TYPE_PACCEPT \<or> sk_type s = SOCKET_TYPE_PLISTEN then
           (let (ss1, a) = sys os (CSpAdd (sk_fd s) (Some k)) ss
            in if failed a then do {
                 (ss2, m) \<leftarrow> force_close os k ss1;
                 let (ss3, t) = sys os CStrerror ss2;
                 Some (ss3, Some (SOCKET_ERROR, m\<lparr>rm_data := answer_text t\<rparr>)) }
               else Some (slot_put k (s\<lparr>sk_type := if sk_type s = SOCKET_TYPE_PACCEPT then SOCKET_TYPE_CONNECTED else SOCKET_TYPE_LISTEN,
                 sk_opaque := opaque\<rparr>) ss1, Some (SOCKET_OPEN, result ''start'')))
         else if sk_type s = SOCKET_TYPE_CONNECTED then
           Some (slot_put k (s\<lparr>sk_opaque := opaque\<rparr>) ss, Some (SOCKET_OPEN, result ''transfer''))
         else Some (ss, None))"

definition setopt_socket :: "os_fun \<Rightarrow> int \<Rightarrow> int \<Rightarrow> int \<Rightarrow> socket_server \<Rightarrow> socket_server" where
  "setopt_socket os id' what v ss =
     (let s = ss_slot ss (HASH_ID id')
      in if sk_type s = SOCKET_TYPE_INVALID \<or> sk_id s \<noteq> id' then ss else sysc os (CNodelay (sk_fd s) what v) ss)"

definition add_udp_socket :: "os_fun \<Rightarrow> int \<Rightarrow> int \<Rightarrow> bool \<Rightarrow> nat \<Rightarrow> socket_server \<Rightarrow> socket_server option" where
  "add_udp_socket os id' fd v6 opaque ss = do {
     (ss1, ns) \<leftarrow> new_fd os id' fd (if v6 then PROTOCOL_UDPv6 else PROTOCOL_UDP) opaque True ss;
     (case ns of
        None \<Rightarrow> Some (set_type (HASH_ID id') SOCKET_TYPE_INVALID (sysc os (CClose fd) ss1))
      | Some k \<Rightarrow> Some (slot_put k (ss_slot ss1 k\<lparr>sk_type := SOCKET_TYPE_CONNECTED,
          sk_udp_address := replicate UDP_ADDRESS_SIZE 0\<rparr>) ss1)) }"

text \<open>An address of protocol TCP would be copied over the field \<open>size\<close> of the union.\<close>

definition set_udp_address :: "int \<Rightarrow> u8 list \<Rightarrow> socket_server \<Rightarrow> (socket_server \<times> handled) option" where
  "set_udp_address id' address ss =
     (let k = HASH_ID id'; s = ss_slot ss k
      in if sk_type s = SOCKET_TYPE_INVALID \<or> sk_id s \<noteq> id' then Some (ss, None)
         else if address ! 0 \<noteq> proto_num (sk_protocol s) then
           Some (ss, Some (SOCKET_ERROR, \<lparr>rm_id = sk_id s, rm_opaque = sk_opaque s, rm_ud = 0, rm_data = SText ''protocol mismatch''\<rparr>))
         else do {
           c_assert (sk_protocol s \<noteq> PROTOCOL_TCP);
           let n = (if sk_protocol s = PROTOCOL_UDP then 1 + 2 + 4 else 1 + 2 + 16);
           Some (slot_put k (s\<lparr>sk_udp_address := take n address @ drop n (sk_udp_address s)\<rparr>) ss, None) })"

text \<open>Reading the next request blocks when there is none; \<open>socket_server_poll\<close> asks before.  A request
  is read as a whole: failing reads of the pipe are not modelled.\<close>

definition ctrl_cmd :: "os_fun \<Rightarrow> socket_server \<Rightarrow> (socket_server \<times> handled) option" where
  "ctrl_cmd os ss0 =
     (case ss_pipe ss0 of
        [] \<Rightarrow> None
      | req # rest \<Rightarrow>
          (let ss = ss0\<lparr>ss_pipe := rest\<rparr>
           in case req of
                RStart id' opaque \<Rightarrow> start_socket os id' opaque ss
              | RBind id' fd opaque \<Rightarrow> bind_socket os id' fd opaque ss
              | RListen id' fd opaque \<Rightarrow> listen_socket os id' fd opaque ss
              | RClose id' shutdown opaque \<Rightarrow> close_socket os id' shutdown opaque ss
              | ROpen id' port opaque host \<Rightarrow> open_socket os id' port opaque host ss
              | RExit \<Rightarrow> Some (ss, Some (SOCKET_EXIT, \<lparr>rm_id = 0, rm_opaque = 0, rm_ud = 0, rm_data = NoData\<rparr>))
              | RSend priority id' b \<Rightarrow> send_socket os id' b priority None ss
              | RSendUdp id' b address \<Rightarrow> send_socket os id' b PRIORITY_HIGH (Some address) ss
              | RSetUdp id' address \<Rightarrow> set_udp_address id' address ss
              | RSetopt id' what v \<Rightarrow> Some (setopt_socket os id' what v ss, None)
              | RUdp id' fd v6 opaque \<Rightarrow> do { ss1 \<leftarrow> add_udp_socket os id' fd v6 opaque ss; Some (ss1, None) }))"

section \<open>Events\<close>

definition forward_message_tcp :: "os_fun \<Rightarrow> nat \<Rightarrow> socket_server \<Rightarrow> (socket_server \<times> handled) option" where
  "forward_message_tcp os k ss =
     (let s = ss_slot ss k; sz = sk_size s; (ss1, a) = sys os (CRead (sk_fd s) sz) ss
      in case a of
           ABytes bytes \<Rightarrow>
             (let n = int (length bytes)
              in do {
                c_assert (n \<le> sz);
                if n = 0 then do { (ss2, m) \<leftarrow> force_close os k ss1; Some (ss2, Some (SOCKET_CLOSE, m)) }
                else if sk_type s = SOCKET_TYPE_HALFCLOSE then Some (ss1, None)
                else
                  (let s1 = (if n = sz then s\<lparr>sk_size := sz * 2\<rparr>
                             else if sz > MIN_READ_BUFFER \<and> n * 2 < sz then s\<lparr>sk_size := sz div 2\<rparr> else s)
                   in Some (slot_put k s1 ss1, Some (SOCKET_DATA, \<lparr>rm_id = sk_id s, rm_opaque = sk_opaque s, rm_ud = n, rm_data = SBytes bytes\<rparr>))) })
         | AErr EINTR \<Rightarrow> Some (ss1, None)
         | AErr EAGAIN \<Rightarrow> Some (sysc os (CLog ''socket-server: EAGAIN capture.'') ss1, None)
         | _ \<Rightarrow> do {
             (ss2, m) \<leftarrow> force_close os k ss1;
             let (ss3, t) = sys os CStrerror ss2;
             Some (ss3, Some (SOCKET_ERROR, m\<lparr>rm_data := answer_text t\<rparr>)) })"

definition gen_udp_address :: "sk_proto \<Rightarrow> sockaddr \<Rightarrow> u8 list" where
  "gen_udp_address p sa = proto_num p # (case sa of AddrV4 port a \<Rightarrow> port @ a | AddrV6 port a \<Rightarrow> port @ a)"

definition forward_message_udp :: "os_fun \<Rightarrow> nat \<Rightarrow> socket_server \<Rightarrow> (socket_server \<times> handled) option" where
  "forward_message_udp os k ss =
     (let s = ss_slot ss k; (ss1, a) = sys os (CRecvfrom (sk_fd s)) ss
      in case a of
           AFrom bytes sa \<Rightarrow>
             (let p = (case sa of AddrV4 _ _ \<Rightarrow> PROTOCOL_UDP | AddrV6 _ _ \<Rightarrow> PROTOCOL_UDPv6)
              in if sk_protocol s \<noteq> p then Some (ss1, None)
                 else Some (ss1, Some (SOCKET_UDP, \<lparr>rm_id = sk_id s, rm_opaque = sk_opaque s, rm_ud = int (length bytes),
                   rm_data = SBytes (bytes @ gen_udp_address p sa)\<rparr>)))
         | AErr EINTR \<Rightarrow> Some (ss1, None)
         | AErr EAGAIN \<Rightarrow> Some (ss1, None)
         | _ \<Rightarrow> do {
             (ss2, m) \<leftarrow> force_close os k ss1;
             let (ss3, t) = sys os CStrerror ss2;
             Some (ss3, Some (SOCKET_ERROR, m\<lparr>rm_data := answer_text t\<rparr>)) })"

definition report_connect :: "os_fun \<Rightarrow> nat \<Rightarrow> socket_server \<Rightarrow> (socket_server \<times> handled) option" where
  "report_connect os k ss =
     (let s = ss_slot ss k; (ss1, a) = sys os (CGetsockerr (sk_fd s)) ss
      in if a \<noteq> ANum 0 then do {
           (ss2, m) \<leftarrow> force_close os k ss1;
           let (ss3, t) = sys os CStrerror ss2;
           Some (ss3, Some (SOCKET_ERROR, m\<lparr>rm_data := answer_text t\<rparr>)) }
         else
           (let ss2 = set_type k SOCKET_TYPE_CONNECTED ss1;
                ss3 = (if send_buffer_empty s then sysc os (CSpWrite (sk_fd s) k False) ss2 else ss2);
                (ss4, peer) = sys os (CGetpeername (sk_fd s)) ss3;
                (ss5, d) = (case peer of AAddr sa \<Rightarrow> (let (ss', t) = sys os (CNtop sa) ss4 in (ss', answer_text t)) | _ \<Rightarrow> (ss4, NoData))
            in Some (ss5, Some (SOCKET_OPEN, \<lparr>rm_id = sk_id s, rm_opaque = sk_opaque s, rm_ud = 0, rm_data = d\<rparr>))))"

definition addr_port :: "sockaddr \<Rightarrow> nat" where
  "addr_port sa = (case sa of AddrV4 port _ \<Rightarrow> be_val port | AddrV6 port _ \<Rightarrow> be_val port)"

text \<open>\<open>Inl 0\<close> and \<open>Inl (-1)\<close> are the failures, \<open>Inr\<close> the new connection.\<close>

definition report_accept :: "os_fun \<Rightarrow> nat \<Rightarrow> socket_server \<Rightarrow> (socket_server \<times> (socket_message option + socket_message)) option" where
  "report_accept os k ss =
     (let s = ss_slot ss k; (ss1, a) = sys os (CAccept (sk_fd s)) ss
      in case a of
           AAccepted client_fd u \<Rightarrow>
             (let (ss2, id') = reserve_id ss1
              in if id' < 0 then Some (sysc os (CClose client_fd) ss2, Inl None)
                 else do {
                   (ss3, ns) \<leftarrow> new_fd os id' client_fd PROTOCOL_TCP (sk_opaque s) False
                     (sysc os (CNonblocking client_fd) (sysc os (CKeepalive client_fd) ss2));
                   (case ns of
                      None \<Rightarrow> Some (sysc os (CClose client_fd) ss3, Inl None)
                    | Some j \<Rightarrow>
                        (let (ss4, t) = sys os (CNtop u) (set_type j SOCKET_TYPE_PACCEPT ss3)
                         in Some (ss4, Inr \<lparr>rm_id = sk_id s, rm_opaque = sk_opaque s, rm_ud = id',
                           rm_data = (case t of AText tmp \<Rightarrow> SText (tmp @ '':'' @ fmt_d (int (addr_port u))) | _ \<Rightarrow> NoData)\<rparr>))) })
         | AErr e \<Rightarrow>
             if e = EMFILE \<or> e = ENFILE then
               (let (ss2, t) = sys os CStrerror ss1
                in Some (ss2, Inl (Some \<lparr>rm_id = sk_id s, rm_opaque = sk_opaque s, rm_ud = 0, rm_data = answer_text t\<rparr>)))
             else Some (ss1, Inl None)
         | _ \<Rightarrow> Some (ss1, Inl None))"

text \<open>The loop over the events that are left.\<close>

fun clear_events :: "(nat \<Rightarrow> socket) \<Rightarrow> int \<Rightarrow> event list \<Rightarrow> event list" where
  "clear_events slot id' [] = []"
| "clear_events slot id' (e # es) =
     (case ev_s e of
        Some k \<Rightarrow> (if sk_type (slot k) = SOCKET_TYPE_INVALID \<and> sk_id (slot k) = id' then e\<lparr>ev_s := None\<rparr> # es else e # clear_events slot id' es)
      | None \<Rightarrow> e # clear_events slot id' es)"

definition clear_closed_event :: "sk_result \<Rightarrow> socket_message \<Rightarrow> socket_server \<Rightarrow> socket_server" where
  "clear_closed_event t m ss =
     (if t = SOCKET_CLOSE \<or> t = SOCKET_ERROR then
        ss\<lparr>ss_ev := take (ss_event_index ss) (ss_ev ss) @ clear_events (ss_slot ss) (rm_id m) (drop (ss_event_index ss) (ss_ev ss))\<rparr>
      else ss)"

text \<open>When the event is also one for writing, it is kept for the next turn, without the flag for reading.\<close>

definition again :: "event \<Rightarrow> handled \<Rightarrow> socket_server \<Rightarrow> socket_server" where
  "again e r ss =
     (if ev_write e \<and> map_option fst r \<noteq> Some SOCKET_CLOSE \<and> map_option fst r \<noteq> Some SOCKET_ERROR then
        ss\<lparr>ss_ev := (ss_ev ss)[ss_event_index ss - 1 := e\<lparr>ev_read := False\<rparr>], ss_event_index := ss_event_index ss - 1\<rparr>
      else ss)"

text \<open>One event: a type to return, or \<open>None\<close> for the next turn of the loop.\<close>

definition dispatch_event :: "os_fun \<Rightarrow> event \<Rightarrow> nat \<Rightarrow> socket_server \<Rightarrow> (socket_server \<times> handled) option" where
  "dispatch_event os e k ss =
     (let s = ss_slot ss k
      in case sk_type s of
           SOCKET_TYPE_CONNECTING \<Rightarrow> report_connect os k ss
         | SOCKET_TYPE_LISTEN \<Rightarrow> do {
             (ss1, r) \<leftarrow> report_accept os k ss;
             Some (ss1, case r of Inr m \<Rightarrow> Some (SOCKET_ACCEPT, m) | Inl (Some m) \<Rightarrow> Some (SOCKET_ERROR, m) | Inl None \<Rightarrow> None) }
         | SOCKET_TYPE_INVALID \<Rightarrow> Some (sysc os (CLog ''socket-server: invalid socket'') ss, None)
         | _ \<Rightarrow>
             if ev_read e then
               (if sk_protocol s = PROTOCOL_TCP then do {
                  (ss1, r) \<leftarrow> forward_message_tcp os k ss;
                  Some (again e r ss1, r) }
                else do {
                  (ss1, r) \<leftarrow> forward_message_udp os k ss;
                  Some (if map_option fst r = Some SOCKET_UDP then ss1\<lparr>ss_event_index := ss_event_index ss1 - 1\<rparr> else again e r ss1, r) })
             else if ev_write e then send_buffer os k ss
             else Some (ss, None))"

text \<open>\<open>sp_wait\<close> and the assignments after it; the result says whether there is an event.\<close>

definition wait_events :: "os_fun \<Rightarrow> socket_server \<Rightarrow> socket_server \<times> bool" where
  "wait_events os ss =
     (let (ss1, a) = sys os CSpWait ss; es = (case a of AEvents es \<Rightarrow> es | _ \<Rightarrow> [])
      in (ss1\<lparr>ss_checkctrl := True, ss_event_index := 0, ss_event_n := length es, ss_ev := es\<rparr>, es \<noteq> []))"

text \<open>The third result is \<open>*more\<close>.\<close>

partial_function (option) socket_server_poll :: "os_fun \<Rightarrow> bool \<Rightarrow> socket_server \<Rightarrow> (socket_server \<times> handled \<times> bool) option" where
  "socket_server_poll os more' ss =
     (if ss_checkctrl ss \<and> ss_pipe ss \<noteq> [] then
        Option.bind (ctrl_cmd os ss) (\<lambda>(ss1, r).
          case r of
            Some tm \<Rightarrow> Some (clear_closed_event (fst tm) (snd tm) ss1, r, more')
          | None \<Rightarrow> socket_server_poll os more' ss1)
      else
        (let ss0 = ss\<lparr>ss_checkctrl := False\<rparr>; idle = (ss_event_index ss0 = ss_event_n ss0);
             w = (if idle then wait_events os ss0 else (ss0, True)); ss1 = fst w; more1 = (if idle then False else more')
         in if \<not> snd w then Some (ss1, None, more1)
            else if ss_event_index ss1 \<ge> length (ss_ev ss1) then None
            else
              (let e = ss_ev ss1 ! ss_event_index ss1; ss2 = ss1\<lparr>ss_event_index := ss_event_index ss1 + 1\<rparr>
               in case ev_s e of
                    None \<Rightarrow> socket_server_poll os more1 ss2
                  | Some k \<Rightarrow>
                      Option.bind (dispatch_event os e k ss2) (\<lambda>(ss3, r).
                        case r of Some tm \<Rightarrow> Some (ss3, r, more1) | None \<Rightarrow> socket_server_poll os more1 ss3))))"

section \<open>The calls of other threads\<close>

text \<open>A request is written to the pipe as a whole.\<close>

definition send_request :: "request \<Rightarrow> socket_server \<Rightarrow> socket_server" where
  "send_request r ss = ss\<lparr>ss_pipe := ss_pipe ss @ [r]\<rparr>"

definition open_request :: "os_fun \<Rightarrow> string \<Rightarrow> socket_server \<Rightarrow> socket_server \<times> int" where
  "open_request os address ss =
     (if length address + 24 \<ge> 256 then (sysc os (CLog (''socket-server : Invalid addr '' @ address @ ''.'')) ss, -1)
      else reserve_id ss)"

definition socket_server_connect :: "os_fun \<Rightarrow> nat \<Rightarrow> string \<Rightarrow> int \<Rightarrow> socket_server \<Rightarrow> socket_server \<times> int" where
  "socket_server_connect os opaque address port ss =
     (let (ss1, id') = open_request os address ss
      in if id' < 0 then (ss1, -1) else (send_request (ROpen id' port opaque address) ss1, id'))"

definition socket_server_send :: "os_fun \<Rightarrow> sk_priority \<Rightarrow> int \<Rightarrow> sendbuf \<Rightarrow> socket_server \<Rightarrow> socket_server \<times> int" where
  "socket_server_send os priority id' b ss =
     (let s = ss_slot ss (HASH_ID id')
      in if sk_id s \<noteq> id' \<or> sk_type s = SOCKET_TYPE_INVALID then (sysc os (so_free b) ss, -1)
         else (send_request (RSend priority id' b) ss, sk_wb_size s))"

definition socket_server_exit :: "socket_server \<Rightarrow> socket_server" where
  "socket_server_exit ss = send_request RExit ss"

definition socket_server_close :: "bool \<Rightarrow> nat \<Rightarrow> int \<Rightarrow> socket_server \<Rightarrow> socket_server" where
  "socket_server_close shutdown opaque id' ss = send_request (RClose id' shutdown opaque) ss"

text \<open>The descriptor and \<open>family == AF_INET6\<close>.\<close>

definition do_bind :: "os_fun \<Rightarrow> string option \<Rightarrow> int \<Rightarrow> socket_server \<Rightarrow> socket_server \<times> (int \<times> bool) option" where
  "do_bind os host port ss =
     (let h = (case host of None \<Rightarrow> ''0.0.0.0'' | Some t \<Rightarrow> if t = [] then ''0.0.0.0'' else t);
          (ss1, a) = sys os (CGetaddrinfo h (fmt_d port)) ss
      in case a of
           AAddrs (ai # _) \<Rightarrow>
             (let (ss2, f) = sys os (CSocket ai) ss1
              in case f of
                   ANum fd \<Rightarrow>
                     (let (ss3, r) = sys os (CReuse fd) ss2
                      in if failed r then (sysc os (CClose fd) ss3, None)
                         else (let (ss4, b) = sys os (CBind fd ai) ss3
                               in if failed b then (sysc os (CClose fd) ss4, None)
                                  else (ss4, Some (fd, case ai of AddrV6 _ _ \<Rightarrow> True | _ \<Rightarrow> False))))
                 | _ \<Rightarrow> (ss2, None))
         | _ \<Rightarrow> (ss1, None))"

definition do_listen :: "os_fun \<Rightarrow> string option \<Rightarrow> int \<Rightarrow> int \<Rightarrow> socket_server \<Rightarrow> socket_server \<times> int option" where
  "do_listen os host port backlog ss =
     (let (ss1, r) = do_bind os host port ss
      in case r of
           None \<Rightarrow> (ss1, None)
         | Some (fd, _) \<Rightarrow>
             (let (ss2, a) = sys os (CListen fd backlog) ss1
              in if failed a then (sysc os (CClose fd) ss2, None) else (ss2, Some fd)))"

definition socket_server_listen :: "os_fun \<Rightarrow> nat \<Rightarrow> string option \<Rightarrow> int \<Rightarrow> int \<Rightarrow> socket_server \<Rightarrow> socket_server \<times> int" where
  "socket_server_listen os opaque address port backlog ss =
     (let (ss1, r) = do_listen os address port backlog ss
      in case r of
           None \<Rightarrow> (ss1, -1)
         | Some fd \<Rightarrow>
             (let (ss2, id') = reserve_id ss1
              in if id' < 0 then (sysc os (CClose fd) ss2, id') else (send_request (RListen id' fd opaque) ss2, id')))"

definition socket_server_bind :: "nat \<Rightarrow> int \<Rightarrow> socket_server \<Rightarrow> socket_server \<times> int" where
  "socket_server_bind opaque fd ss =
     (let (ss1, id') = reserve_id ss in if id' < 0 then (ss1, -1) else (send_request (RBind id' fd opaque) ss1, id'))"

definition socket_server_start :: "nat \<Rightarrow> int \<Rightarrow> socket_server \<Rightarrow> socket_server" where
  "socket_server_start opaque id' ss = send_request (RStart id' opaque) ss"

definition TCP_NODELAY :: int where [cdefs]: "TCP_NODELAY = 1"

definition socket_server_nodelay :: "int \<Rightarrow> socket_server \<Rightarrow> socket_server" where
  "socket_server_nodelay id' ss = send_request (RSetopt id' TCP_NODELAY 1) ss"

definition socket_server_udp :: "os_fun \<Rightarrow> nat \<Rightarrow> string option \<Rightarrow> int \<Rightarrow> socket_server \<Rightarrow> socket_server \<times> int" where
  "socket_server_udp os opaque address port ss =
     (let (ss1, r) = (if port \<noteq> 0 \<or> address \<noteq> None then do_bind os address port ss
                      else (let (ss', a) = sys os CSocketUdp ss in (ss', case a of ANum fd \<Rightarrow> Some (fd, False) | _ \<Rightarrow> None)))
      in case r of
           None \<Rightarrow> (ss1, -1)
         | Some (fd, v6) \<Rightarrow>
             (let (ss2, id') = reserve_id (sysc os (CNonblocking fd) ss1)
              in if id' < 0 then (sysc os (CClose fd) ss2, -1) else (send_request (RUdp id' fd v6 opaque) ss2, id')))"

text \<open>The bytes of the request behind the address are not set.\<close>

definition address_length :: "u8 \<Rightarrow> nat option" where
  "address_length t = (if t = 1 then Some (1 + 2 + 4) else if t = 2 then Some (1 + 2 + 16) else None)"

definition socket_server_udp_send :: "os_fun \<Rightarrow> int \<Rightarrow> u8 list \<Rightarrow> sendbuf \<Rightarrow> socket_server \<Rightarrow> socket_server \<times> int" where
  "socket_server_udp_send os id' address b ss =
     (let s = ss_slot ss (HASH_ID id')
      in if sk_id s \<noteq> id' \<or> sk_type s = SOCKET_TYPE_INVALID then (sysc os (so_free b) ss, -1)
         else (case address_length (address ! 0) of
                 None \<Rightarrow> (sysc os (so_free b) ss, -1)
               | Some n \<Rightarrow> (send_request (RSendUdp id' b (take n address)) ss, sk_wb_size s)))"

definition socket_server_udp_connect :: "os_fun \<Rightarrow> int \<Rightarrow> string \<Rightarrow> int \<Rightarrow> socket_server \<Rightarrow> socket_server \<times> int" where
  "socket_server_udp_connect os id' address port ss =
     (let (ss1, a) = sys os (CGetaddrinfo address (fmt_d port)) ss
      in case a of
           AAddrs (ai # _) \<Rightarrow>
             (let p = (case ai of AddrV4 _ _ \<Rightarrow> PROTOCOL_UDP | AddrV6 _ _ \<Rightarrow> PROTOCOL_UDPv6)
              in (send_request (RSetUdp id' (gen_udp_address p ai)) ss1, 0))
         | _ \<Rightarrow> (ss1, -1))"

text \<open>The address behind the data of a datagram.\<close>

definition socket_server_udp_address :: "socket_message \<Rightarrow> u8 list option" where
  "socket_server_udp_address m =
     (case rm_data m of
        SBytes bs \<Rightarrow> (let a = drop (nat (rm_ud m)) bs in
          case a of [] \<Rightarrow> None | t # _ \<Rightarrow> (case address_length t of None \<Rightarrow> None | Some n \<Rightarrow> Some (take n a)))
      | _ \<Rightarrow> None)"

end
