(* ===== verification/SocketInv.thy ===== *)
theory SocketInv
  imports Socket "HOL-Library.Multiset"
begin

text \<open>
  The invariant of the socket server.  Every handler changes one slot and the trace of calls; for each
  the lemmas say how, in terms of the buffers that are held and released, of what the poll set
  contains and of the type of the socket.
\<close>

section \<open>Readings of the trace\<close>

text \<open>The pairs of descriptor and slot in the poll set.\<close>

definition reg_step :: "oscall \<times> answer \<Rightarrow> (int \<times> nat) set \<Rightarrow> (int \<times> nat) set" where
  "reg_step x R = (case x of
       (CSpAdd fd (Some k), a) \<Rightarrow> if failed a then R else insert (fd, k) R
     | (CSpDel fd, a) \<Rightarrow> {(f, k) \<in> R. f \<noteq> fd}
     | _ \<Rightarrow> R)"

definition reg :: "(oscall \<times> answer) list \<Rightarrow> (int \<times> nat) set" where
  "reg tr = fold reg_step tr {}"

text \<open>The buffers that have been released: whether it is a user object, and its address.\<close>

definition freed :: "(oscall \<times> answer) list \<Rightarrow> (bool \<times> addr) multiset" where
  "freed tr = sum_list (map (\<lambda>(c, a). case c of CFree b \<Rightarrow> {#(False, b)#} | CObjFree b \<Rightarrow> {#(True, b)#} | _ \<Rightarrow> {#}) tr)"

lemma reg_Nil [simp]: "reg [] = {}"
  by (simp add: reg_def)

text \<open>One more call.\<close>

definition tick :: "(oscall \<times> answer) list \<Rightarrow> oscall \<Rightarrow> answer \<Rightarrow> (oscall \<times> answer) list" where
  "tick tr c a = tr @ [(c, a)]"

lemma reg_tick: "reg (tick tr c a) = reg_step (c, a) (reg tr)"
  by (simp add: reg_def tick_def)

lemma freed_Nil [simp]: "freed [] = {#}"
  by (simp add: freed_def)

lemma freed_tick: "freed (tick tr c a) = freed tr + (case c of CFree b \<Rightarrow> {#(False, b)#} | CObjFree b \<Rightarrow> {#(True, b)#} | _ \<Rightarrow> {#})"
  by (simp add: freed_def tick_def)

lemmas trace_tick = reg_tick freed_tick reg_step_def

definition wb_id :: "write_buffer \<Rightarrow> bool \<times> addr" where
  "wb_id wb = (sb_userobject wb, sb_buffer wb)"

definition so_id :: "sendbuf \<Rightarrow> bool \<times> addr" where
  "so_id b = (case b of Plain a _ \<Rightarrow> (False, a) | UserObject a _ _ \<Rightarrow> (True, a))"

definition held :: "socket \<Rightarrow> (bool \<times> addr) multiset" where
  "held s = mset (map wb_id (sk_high s)) + mset (map wb_id (sk_low s))"

lemma make_buffer_id [simp]: "wb_id (make_buffer b n a) = so_id b"
  by (cases b) (simp_all add: make_buffer_def wb_id_def so_id_def)

lemma make_buffer_data [simp]: "sb_data (make_buffer b n a) = drop n (so_bytes b)"
  by (cases b) (simp_all add: make_buffer_def so_bytes_def)

section \<open>A step on one slot\<close>

definition upd :: "nat \<Rightarrow> socket \<Rightarrow> (oscall \<times> answer) list \<Rightarrow> socket_server \<Rightarrow> socket_server" where
  "upd k s tr ss = ss\<lparr>ss_slot := (ss_slot ss)(k := s), ss_trace := tr\<rparr>"

lemma upd_simps [simp]:
  "ss_slot (upd k s tr ss) = (ss_slot ss)(k := s)" "ss_trace (upd k s tr ss) = tr" "ss_pipe (upd k s tr ss) = ss_pipe ss"
  "ss_alloc_id (upd k s tr ss) = ss_alloc_id ss" "ss_ev (upd k s tr ss) = ss_ev ss" "ss_event_n (upd k s tr ss) = ss_event_n ss"
  "ss_event_index (upd k s tr ss) = ss_event_index ss" "upd k s2 tr2 (upd k s tr ss) = upd k s2 tr2 ss"
  "ss_checkctrl (upd k s tr ss) = ss_checkctrl ss"
  by (simp_all add: upd_def)

lemma upd_intros:
  "ss = upd k (ss_slot ss k) (ss_trace ss) ss"
  "slot_put k s ss = upd k s (ss_trace ss) ss"
  by (simp_all add: upd_def)

lemma slot_put_upd [simp]:
  "slot_put k s2 (upd k s tr ss) = upd k s2 tr ss"
  "(upd k s tr ss)\<lparr>ss_slot := (ss_slot ss)(k := s2)\<rparr> = upd k s2 tr ss"
  by (simp_all add: upd_def)

lemma sys_upd: "sys os c (upd k s tr ss) = (upd k s (tick tr c (os tr c)) ss, os tr c)"
  by (simp add: sys_def upd_def tick_def Let_def)

lemma sysc_upd [simp]: "sysc os c (upd k s tr ss) = upd k s (tick tr c (os tr c)) ss"
  by (simp add: sysc_def sys_upd)

text \<open>Every state is one in which slot \<open>k\<close> has been set.\<close>

lemma upd_cases: obtains "ss = upd k (ss_slot ss k) (ss_trace ss) ss"
  using upd_intros(1) by blast

text \<open>Calls that neither change the poll set nor release a buffer.\<close>

definition neutral :: "oscall \<Rightarrow> bool" where
  "neutral c = (case c of CSpAdd _ _ \<Rightarrow> False | CSpDel _ \<Rightarrow> False | CFree _ \<Rightarrow> False | CObjFree _ \<Rightarrow> False | _ \<Rightarrow> True)"

lemma neutral_simps [simp]:
  "neutral (CWrite fd b)" "neutral (CRead fd n)" "neutral (CSendto fd b sa)" "neutral (CRecvfrom fd)" "neutral (CAccept fd)"
  "neutral (CClose fd)" "neutral (CSpWrite fd k on)" "neutral CSpWait" "neutral (CGetaddrinfo h p)" "neutral (CSocket ai)"
  "neutral (CConnect fd ai)" "neutral (CNtop ai)" "neutral (CGetsockerr fd)" "neutral (CGetpeername fd)" "neutral (CKeepalive fd)"
  "neutral (CNonblocking fd)" "neutral (CNodelay fd w v)" "neutral (CReuse fd)" "neutral (CBind fd ai)" "neutral (CListen fd n)"
  "neutral CSocketUdp" "neutral CStrerror" "neutral (CLog t)"
  by (simp_all add: neutral_def)

lemma reg_neutral [simp]: "neutral c \<Longrightarrow> reg (tick tr (c) a) = reg tr"
  by (cases c) (simp_all add: trace_tick neutral_def)

lemma freed_neutral [simp]: "neutral c \<Longrightarrow> freed (tick tr (c) a) = freed tr"
  by (cases c) (simp_all add: freed_tick neutral_def)

lemma wb_free_trace [simp]:
  "reg (tick tr (write_buffer_free wb) a) = reg tr"
  "freed (tick tr (write_buffer_free wb) a) = add_mset (wb_id wb) (freed tr)"
  by (simp_all add: trace_tick write_buffer_free_def wb_id_def)

lemma so_free_trace [simp]:
  "reg (tick tr (so_free b) a) = reg tr"
  "freed (tick tr (so_free b) a) = add_mset (so_id b) (freed tr)"
  by (cases b; simp add: trace_tick so_free_def so_id_def)+

lemma free_wb_list_upd:
  "\<exists>tr'. free_wb_list os wbs (upd k s tr ss) = upd k s tr' ss \<and> reg tr' = reg tr \<and> freed tr' = freed tr + mset (map wb_id wbs)"
proof (induction wbs arbitrary: tr)
  case Nil
  then show ?case by (auto simp: free_wb_list_def)
next
  case (Cons wb wbs)
  let ?tr = "tick tr (write_buffer_free wb) (os tr (write_buffer_free wb))"
  from Cons[of ?tr] show ?case by (auto simp: free_wb_list_def)
qed

section \<open>The contract of a handler\<close>

text \<open>The types of the sockets in the poll set, and the sockets that can have buffers.\<close>

definition polled :: "socket_type \<Rightarrow> bool" where
  "polled t \<longleftrightarrow> t \<in> {SOCKET_TYPE_LISTEN, SOCKET_TYPE_CONNECTING, SOCKET_TYPE_CONNECTED, SOCKET_TYPE_HALFCLOSE, SOCKET_TYPE_BIND}"

definition pending :: "socket \<Rightarrow> nat" where
  "pending s = sum_list (map (length \<circ> sb_data) (sk_high s)) + sum_list (map (length \<circ> sb_data) (sk_low s))"

text \<open>The buffers of the low list are whole; \<open>wb_size\<close> is the number of bytes that wait.\<close>

definition sock_ok :: "socket \<Rightarrow> bool" where
  "sock_ok s \<longleftrightarrow> (\<forall>wb \<in> set (sk_low s). sb_ptr wb = sb_buffer wb)
     \<and> (if sk_type s \<in> {SOCKET_TYPE_INVALID, SOCKET_TYPE_RESERVE} then sk_high s = [] \<and> sk_low s = []
        else sk_wb_size s = int (pending s)
          \<and> (sk_type s \<in> {SOCKET_TYPE_PLISTEN, SOCKET_TYPE_LISTEN, SOCKET_TYPE_PACCEPT} \<longrightarrow> sk_high s = [] \<and> sk_low s = []))"

definition reg_ok :: "nat \<Rightarrow> socket \<Rightarrow> (oscall \<times> answer) list \<Rightarrow> bool" where
  "reg_ok k s tr \<longleftrightarrow> (\<forall>fd. (fd, k) \<in> reg tr \<longrightarrow> fd = sk_fd s \<and> polled (sk_type s))"

text \<open>\<open>keeps k B\<close>: the slot is well formed afterwards, the poll set is unchanged for other slots, and no buffer is lost or released
  twice; the buffers \<open>B\<close> came in.\<close>

definition keeps :: "nat \<Rightarrow> (bool \<times> addr) multiset \<Rightarrow> socket \<Rightarrow> (oscall \<times> answer) list \<Rightarrow> socket \<Rightarrow> (oscall \<times> answer) list \<Rightarrow> bool" where
  "keeps k B s tr s' tr' \<longleftrightarrow> sock_ok s' \<and> reg_ok k s' tr' \<and> (\<forall>fd j. j \<noteq> k \<longrightarrow> (fd, j) \<in> reg tr' \<longrightarrow> (fd, j) \<in> reg tr)
     \<and> freed tr' + held s' = freed tr + held s + B"

definition closing :: "handled \<Rightarrow> bool" where
  "closing r \<longleftrightarrow> map_option fst r \<in> {Some SOCKET_CLOSE, Some SOCKET_ERROR}"

text \<open>A socket leaves the poll set only when the handler reports that it is closed.\<close>

definition reports :: "socket \<Rightarrow> socket \<Rightarrow> handled \<Rightarrow> bool" where
  "reports s s' r \<longleftrightarrow> (sk_type s' = SOCKET_TYPE_RESERVE \<longleftrightarrow> sk_type s = SOCKET_TYPE_RESERVE) \<and> sk_id s' = sk_id s
     \<and> (polled (sk_type s) \<and> \<not> polled (sk_type s') \<longrightarrow> closing r \<and> rm_id (snd (the r)) = sk_id s \<and> sk_type s' = SOCKET_TYPE_INVALID)"

lemma keeps_trans:
  "keeps k B s tr s1 tr1 \<Longrightarrow> keeps k B' s1 tr1 s2 tr2 \<Longrightarrow> keeps k (B + B') s tr s2 tr2"
  by (auto simp: keeps_def ac_simps)

lemma keeps_neutral:
  "sock_ok s \<Longrightarrow> reg_ok k s tr \<Longrightarrow> neutral c \<Longrightarrow> keeps k {#} s tr s (tick tr (c) a)"
  by (simp add: keeps_def reg_ok_def)

lemma force_close_upd:
  assumes "sk_type s \<notin> {SOCKET_TYPE_INVALID, SOCKET_TYPE_RESERVE}" "reg_ok k s tr"
  shows "\<exists>s' tr'. force_close os k (upd k s tr ss) = Some (upd k s' tr' ss, close_message s) \<and> keeps k {#} s tr s' tr'
    \<and> sk_type s' = SOCKET_TYPE_INVALID \<and> sk_id s' = sk_id s \<and> sk_fd s' = sk_fd s \<and> sk_protocol s' = sk_protocol s"
proof -
  let ?s = "s\<lparr>sk_high := [], sk_low := [], sk_type := SOCKET_TYPE_INVALID\<rparr>"
  from free_wb_list_upd[of os "sk_high s" k s tr ss] obtain tr1 where 1: "free_wb_list os (sk_high s) (upd k s tr ss) = upd k s tr1 ss"
    "reg tr1 = reg tr" "freed tr1 = freed tr + mset (map wb_id (sk_high s))" by blast
  from free_wb_list_upd[of os "sk_low s" k s tr1 ss] obtain tr2 where 2: "free_wb_list os (sk_low s) (upd k s tr1 ss) = upd k s tr2 ss"
    "reg tr2 = reg tr" "freed tr2 = freed tr + held s" using 1 by (auto simp: held_def ac_simps)
  define tr3 where "tr3 = (if sk_type s \<noteq> SOCKET_TYPE_PACCEPT \<and> sk_type s \<noteq> SOCKET_TYPE_PLISTEN
      then tick tr2 (CSpDel (sk_fd s)) (os tr2 (CSpDel (sk_fd s))) else tr2)"
  define tr4 where "tr4 = (if sk_type s \<noteq> SOCKET_TYPE_BIND
      then (let a = os tr3 (CClose (sk_fd s)); t = tick tr3 (CClose (sk_fd s)) a
            in if failed a then tick t (CLog ''close socket:'') (os t (CLog ''close socket:'')) else t) else tr3)"
  have "force_close os k (upd k s tr ss) = Some (upd k ?s tr4 ss, close_message s)"
    using assms 1(1) 2(1) by (auto simp: force_close_def tr3_def tr4_def sys_upd Let_def)
  moreover have "reg tr4 = reg tr3" "freed tr4 = freed tr + held s"
    using 2 by (auto simp: tr4_def tr3_def Let_def trace_tick)
  moreover have "(fd, k) \<notin> reg tr3" "(fd, j) \<in> reg tr3 \<Longrightarrow> (fd, j) \<in> reg tr" for fd j
    using assms 2 by (auto simp: tr3_def trace_tick reg_ok_def polled_def split: if_splits)
  ultimately show ?thesis
    by (intro exI[of _ ?s] exI[of _ tr4]) (auto simp: keeps_def sock_ok_def reg_ok_def held_def)
qed

section \<open>Assumptions about the operating system\<close>

text \<open>A write or a read does not report more bytes than it was given, a write is not interrupted forever, and the
  poll set reports each of its members at most once.\<close>

definition event_slots :: "event list \<Rightarrow> nat list" where
  "event_slots es = List.map_filter ev_s es"

definition os_sane :: "os_fun \<Rightarrow> bool" where
  "os_sane os \<longleftrightarrow>
     (\<forall>tr fd b n. os tr (CWrite fd b) = ANum n \<longrightarrow> 0 \<le> n \<and> n \<le> int (length b))
   \<and> (\<forall>tr fd n b. os tr (CRead fd n) = ABytes b \<longrightarrow> int (length b) \<le> n)
   \<and> (\<forall>tr fd b. \<exists>n. os (tr @ replicate n (CWrite fd b, AErr EINTR)) (CWrite fd b) \<noteq> AErr EINTR)
   \<and> (\<forall>tr es. os tr CSpWait = AEvents es \<longrightarrow> distinct (event_slots es) \<and> set (event_slots es) \<subseteq> snd ` reg tr)"

section \<open>Sending the lists\<close>

text \<open>The bytes that the system has taken for a descriptor.\<close>

definition written :: "int \<Rightarrow> (oscall \<times> answer) list \<Rightarrow> u8 list" where
  "written fd tr = concat (map (\<lambda>(c, a). case c of
     CWrite f b \<Rightarrow> (if f = fd then (case a of ANum n \<Rightarrow> take (nat n) b | _ \<Rightarrow> []) else []) | _ \<Rightarrow> []) tr)"

lemma written_tick: "written fd (tick tr c a) = written fd tr @ (case c of
     CWrite f b \<Rightarrow> (if f = fd then (case a of ANum n \<Rightarrow> take (nat n) b | _ \<Rightarrow> []) else []) | _ \<Rightarrow> [])"
  by (simp add: written_def tick_def)

lemma written_free [simp]: "written fd (tick tr (write_buffer_free wb) a) = written fd tr"
  by (simp add: written_tick write_buffer_free_def)

definition bytes_of :: "write_buffer list \<Rightarrow> u8 list" where
  "bytes_of l = concat (map sb_data l)"

lemma bytes_of_simps [simp]: "bytes_of [] = []" "bytes_of (wb # l) = sb_data wb @ bytes_of l" "bytes_of (l @ l') = bytes_of l @ bytes_of l'"
  by (simp_all add: bytes_of_def)

text \<open>What a list is after some of it has been sent: a part of the first buffer that is left may be gone.\<close>

inductive sent :: "write_buffer list \<Rightarrow> write_buffer list \<Rightarrow> bool" where
  sent_all: "sent l []"
| sent_part: "m \<le> length (sb_data wb) \<Longrightarrow> sent (pre @ wb # rest) (wb\<lparr>sb_ptr := sb_ptr wb + m, sb_data := drop m (sb_data wb)\<rparr> # rest)"

lemma sent_refl: "sent l l"
proof (cases l)
  case (Cons wb rest)
  then show ?thesis using sent_part[of 0 wb "[]" rest] by simp
qed (simp add: sent_all)

lemma sent_Cons: "sent l l' \<Longrightarrow> sent (wb # l) l'"
  by (induction rule: sent.induct) (auto intro: sent.intros simp flip: append_Cons)

definition eintr :: "int \<Rightarrow> u8 list \<Rightarrow> nat \<Rightarrow> (oscall \<times> answer) list \<Rightarrow> (oscall \<times> answer) list" where
  "eintr fd b n tr = tr @ replicate n (CWrite fd b, AErr EINTR)"

lemma eintr_trace [simp]:
  "reg (eintr fd b n tr) = reg tr" "freed (eintr fd b n tr) = freed tr" "written f (eintr fd b n tr) = written f tr"
proof -
  have "fold reg_step (replicate n (CWrite fd b, AErr EINTR)) R = R" for R by (induction n) (simp_all add: reg_step_def)
  then show "reg (eintr fd b n tr) = reg tr" by (simp add: reg_def eintr_def)
  show "freed (eintr fd b n tr) = freed tr" by (induction n) (simp_all add: freed_def eintr_def)
  show "written f (eintr fd b n tr) = written f tr" by (induction n) (simp_all add: written_def eintr_def)
qed

text \<open>Interrupted writes are repeated until one is not.\<close>

lemma send_list_tcp_retry:
  assumes "os_sane os" "get_list p s = wb # rest"
  shows "\<exists>n. send_list_tcp os k p (upd k s tr ss) = send_list_tcp os k p (upd k s (eintr (sk_fd s) (sb_data wb) n tr) ss)
    \<and> os (eintr (sk_fd s) (sb_data wb) n tr) (CWrite (sk_fd s) (sb_data wb)) \<noteq> AErr EINTR"
proof -
  let ?c = "CWrite (sk_fd s) (sb_data wb)"
  have "\<exists>m. send_list_tcp os k p (upd k s tr ss) = send_list_tcp os k p (upd k s (eintr (sk_fd s) (sb_data wb) m tr) ss)
      \<and> os (eintr (sk_fd s) (sb_data wb) m tr) ?c \<noteq> AErr EINTR" if "os (eintr (sk_fd s) (sb_data wb) n tr) ?c \<noteq> AErr EINTR" for n
    using that
  proof (induction n arbitrary: tr)
    case 0
    then show ?case by (intro exI[of _ 0]) (simp add: eintr_def)
  next
    case (Suc n)
    show ?case
    proof (cases "os tr ?c = AErr EINTR")
      case False
      then show ?thesis by (intro exI[of _ 0]) (simp add: eintr_def)
    next
      case True
      let ?tr1 = "tick tr ?c (AErr EINTR)"
      have e: "eintr (sk_fd s) (sb_data wb) m ?tr1 = eintr (sk_fd s) (sb_data wb) (Suc m) tr" for m
        by (simp add: eintr_def tick_def)
      from Suc.IH[of ?tr1] Suc.prems obtain m where
        "send_list_tcp os k p (upd k s ?tr1 ss) = send_list_tcp os k p (upd k s (eintr (sk_fd s) (sb_data wb) (Suc m) tr) ss)"
        "os (eintr (sk_fd s) (sb_data wb) (Suc m) tr) ?c \<noteq> AErr EINTR" unfolding e by blast
      moreover have "send_list_tcp os k p (upd k s tr ss) = send_list_tcp os k p (upd k s ?tr1 ss)"
        using assms(2) True by (subst send_list_tcp.simps) (simp add: sys_upd)
      ultimately show ?thesis by (intro exI[of _ "Suc m"]) simp
    qed
  qed
  moreover obtain n where "os (eintr (sk_fd s) (sb_data wb) n tr) ?c \<noteq> AErr EINTR"
    using assms(1) unfolding os_sane_def eintr_def by blast
  ultimately show ?thesis by blast
qed

text \<open>The sockets that are in the poll set and can have buffers.\<close>

definition sending :: "socket_type \<Rightarrow> bool" where
  "sending t \<longleftrightarrow> t \<in> {SOCKET_TYPE_CONNECTING, SOCKET_TYPE_CONNECTED, SOCKET_TYPE_HALFCLOSE, SOCKET_TYPE_BIND}"

lemma list_simps [simp]:
  "get_list p (set_list p l s) = l" "sk_type (set_list p l s) = sk_type s" "sk_fd (set_list p l s) = sk_fd s"
  "sk_id (set_list p l s) = sk_id s" "sk_opaque (set_list p l s) = sk_opaque s" "sk_protocol (set_list p l s) = sk_protocol s"
  "sk_wb_size (set_list p l s) = sk_wb_size s" "get_list p (s\<lparr>sk_wb_size := n\<rparr>) = get_list p s"
  "set_list p l ((set_list p l' s)\<lparr>sk_wb_size := n\<rparr>) = set_list p l (s\<lparr>sk_wb_size := n\<rparr>)"
  "(set_list p l s)\<lparr>sk_wb_size := n\<rparr> = set_list p l (s\<lparr>sk_wb_size := n\<rparr>)"
  "set_list p l (set_list p l' s) = set_list p l s" "set_list p (get_list p s) s = s"
  by (cases p; simp add: get_list_def set_list_def)+

lemma held_set_list: "held (set_list p l s) + mset (map wb_id (get_list p s)) = held s + mset (map wb_id l)"
  by (cases p) (simp_all add: held_def get_list_def set_list_def)

lemma held_wb_size [simp]: "held (s\<lparr>sk_wb_size := n\<rparr>) = held s"
  by (simp add: held_def)

lemma reg_ok_cong: "sk_fd s' = sk_fd s \<Longrightarrow> sk_type s' = sk_type s \<Longrightarrow> reg tr' = reg tr \<Longrightarrow> reg_ok k s' tr' = reg_ok k s tr"
  by (simp add: reg_ok_def)

text \<open>The outcome of sending a list: some bytes are gone, or the socket is closed.\<close>

definition list_sent :: "nat \<Rightarrow> sk_priority \<Rightarrow> socket \<Rightarrow> (oscall \<times> answer) list \<Rightarrow> socket \<Rightarrow> (oscall \<times> answer) list \<Rightarrow> u8 list \<Rightarrow> bool" where
  "list_sent k p s tr s' tr' W \<longleftrightarrow> (\<exists>l'. s' = set_list p l' (s\<lparr>sk_wb_size := sk_wb_size s - int (length W)\<rparr>) \<and> sent (get_list p s) l'
     \<and> W @ bytes_of l' = bytes_of (get_list p s)) \<and> reg tr' = reg tr \<and> freed tr' + held s' = freed tr + held s"

definition list_closed :: "nat \<Rightarrow> socket \<Rightarrow> (oscall \<times> answer) list \<Rightarrow> socket \<Rightarrow> (oscall \<times> answer) list \<Rightarrow> handled \<Rightarrow> bool" where
  "list_closed k s tr s' tr' r \<longleftrightarrow> r = Some (SOCKET_CLOSE, close_message s) \<and> keeps k {#} s tr s' tr'
     \<and> sk_type s' = SOCKET_TYPE_INVALID \<and> sk_id s' = sk_id s \<and> sk_fd s' = sk_fd s \<and> sk_protocol s' = sk_protocol s"

text \<open>Removing the first buffer, and writing a part of it.\<close>

lemma held_pop:
  "get_list p s = wb # rest \<Longrightarrow> add_mset (wb_id wb) (held (set_list p rest (s\<lparr>sk_wb_size := n\<rparr>))) = held s"
  using held_set_list[of p rest "s\<lparr>sk_wb_size := n\<rparr>"] by simp

lemma held_part:
  "get_list p s = wb # rest \<Longrightarrow> held (set_list p (wb\<lparr>sb_ptr := q, sb_data := d\<rparr> # rest) (s\<lparr>sk_wb_size := n\<rparr>)) = held s"
  using held_set_list[of p "wb\<lparr>sb_ptr := q, sb_data := d\<rparr> # rest" "s\<lparr>sk_wb_size := n\<rparr>"] by (simp add: wb_id_def)

lemma list_sent_Cons:
  assumes "get_list p s = wb # rest" "s1 = set_list p rest (s\<lparr>sk_wb_size := sk_wb_size s - int (length (sb_data wb))\<rparr>)"
    and "reg tr1 = reg tr" "freed tr1 = add_mset (wb_id wb) (freed tr)" and "list_sent k p s1 tr1 s' tr' W"
  shows "list_sent k p s tr s' tr' (sb_data wb @ W)"
proof -
  have "freed tr1 + held s1 = freed tr + held s" using held_pop[OF assms(1)] assms(2,4) by simp
  with assms show ?thesis by (auto simp: list_sent_def algebra_simps intro: sent_Cons)
qed

lemma list_closed_Cons:
  assumes "get_list p s = wb # rest" "s1 = set_list p rest (s\<lparr>sk_wb_size := n\<rparr>)"
    and "reg tr1 = reg tr" "freed tr1 = add_mset (wb_id wb) (freed tr)" and "list_closed k s1 tr1 s' tr' r"
  shows "list_closed k s tr s' tr' r"
proof -
  have "freed tr1 + held s1 = freed tr + held s" using held_pop[OF assms(1)] assms(2,4) by simp
  with assms show ?thesis by (auto simp: list_closed_def keeps_def close_message_def)
qed

lemma list_sent_part:
  assumes "get_list p s = wb # rest" "m \<le> length (sb_data wb)" "reg tr' = reg tr" "freed tr' = freed tr"
  shows "list_sent k p s tr (set_list p (wb\<lparr>sb_ptr := sb_ptr wb + m, sb_data := drop m (sb_data wb)\<rparr> # rest)
      (s\<lparr>sk_wb_size := sk_wb_size s - int m\<rparr>)) tr' (take m (sb_data wb))"
proof -
  have "sent (wb # rest) (wb\<lparr>sb_ptr := sb_ptr wb + m, sb_data := drop m (sb_data wb)\<rparr> # rest)"
    using sent_part[OF assms(2), of "[]" rest] by simp
  then show ?thesis
    unfolding list_sent_def using assms
    by (intro conjI exI[of _ "wb\<lparr>sb_ptr := sb_ptr wb + m, sb_data := drop m (sb_data wb)\<rparr> # rest"])
      (simp_all add: held_part min_absorb2)
qed

lemma list_sent_refl: "reg tr' = reg tr \<Longrightarrow> freed tr' = freed tr \<Longrightarrow> list_sent k p s tr s tr' []"
proof -
  show "reg tr' = reg tr \<Longrightarrow> freed tr' = freed tr \<Longrightarrow> list_sent k p s tr s tr' []"
    unfolding list_sent_def by (intro conjI exI[of _ "get_list p s"]) (simp_all add: sent_refl)
qed

lemma send_list_tcp_upd:
  assumes os: "os_sane os"
  shows "sending (sk_type s) \<Longrightarrow> reg_ok k s tr \<Longrightarrow> get_list p s = l
    \<Longrightarrow> \<exists>s' tr' r. send_list_tcp os k p (upd k s tr ss) = Some (upd k s' tr' ss, r)
        \<and> ((\<exists>W. r = None \<and> list_sent k p s tr s' tr' W \<and> written (sk_fd s) tr' = written (sk_fd s) tr @ W)
           \<or> list_closed k s tr s' tr' r)"
proof (induction l arbitrary: s tr)
  case Nil
  have "send_list_tcp os k p (upd k s tr ss) = Some (upd k s tr ss, None)"
    using Nil.prems by (subst send_list_tcp.simps) simp
  with list_sent_refl[OF refl refl, of k p s tr] show ?case by fastforce
next
  case (Cons wb rest)
  let ?c = "CWrite (sk_fd s) (sb_data wb)"
  from send_list_tcp_retry[OF os Cons.prems(3)] obtain n where
    retry: "send_list_tcp os k p (upd k s tr ss) = send_list_tcp os k p (upd k s (eintr (sk_fd s) (sb_data wb) n tr) ss)"
    and ne: "os (eintr (sk_fd s) (sb_data wb) n tr) ?c \<noteq> AErr EINTR" by blast
  define tr1 where "tr1 = eintr (sk_fd s) (sb_data wb) n tr"
  define a where "a = os tr1 ?c"
  define tr2 where "tr2 = tick tr1 ?c a"
  have tr2: "reg tr2 = reg tr" "freed tr2 = freed tr" by (simp_all add: tr2_def tr1_def)
  have run: "send_list_tcp os k p (upd k s tr ss) =
      (case a of AErr EAGAIN \<Rightarrow> Some (upd k s tr2 ss, None)
       | ANum n \<Rightarrow> do {
           c_assert (0 \<le> n \<and> n \<le> int (length (sb_data wb)));
           let s1 = s\<lparr>sk_wb_size := sk_wb_size s - n\<rparr>;
           if n \<noteq> int (length (sb_data wb)) then
             Some (upd k (set_list p (wb\<lparr>sb_ptr := sb_ptr wb + nat n, sb_data := drop (nat n) (sb_data wb)\<rparr> # rest) s1) tr2 ss, None)
           else send_list_tcp os k p (upd k (set_list p rest s1) (tick tr2 (write_buffer_free wb) (os tr2 (write_buffer_free wb))) ss) }
       | _ \<Rightarrow> do { (ss2, m) \<leftarrow> force_close os k (upd k s tr2 ss); Some (ss2, Some (SOCKET_CLOSE, m)) })"
    unfolding retry using Cons.prems(3) ne
    by (subst send_list_tcp.simps) (simp add: sys_upd tr1_def[symmetric] a_def[symmetric] tr2_def[symmetric] Let_def
        split: answer.split errno.split)
  show ?case
  proof (cases "\<exists>n. a = ANum n")
    case True
    then obtain m where a: "a = ANum m" by blast
    with os have m: "0 \<le> m" "m \<le> int (length (sb_data wb))" by (auto simp: os_sane_def a_def)
    have w: "written (sk_fd s) tr2 = written (sk_fd s) tr @ take (nat m) (sb_data wb)"
      by (simp add: tr2_def tr1_def written_tick a)
    show ?thesis
    proof (cases "m = int (length (sb_data wb))")
      case False
      have "nat m \<le> length (sb_data wb)" using m by simp
      from list_sent_part[OF Cons.prems(3) this tr2, of k] False m w show ?thesis
        unfolding run a by (auto simp: Let_def)
    next
      case full: True
      let ?s1 = "set_list p rest (s\<lparr>sk_wb_size := sk_wb_size s - int (length (sb_data wb))\<rparr>)"
      let ?tr3 = "tick tr2 (write_buffer_free wb) (os tr2 (write_buffer_free wb))"
      have tr3: "reg ?tr3 = reg tr" "freed ?tr3 = add_mset (wb_id wb) (freed tr)" by (simp_all add: tr2)
      have "sending (sk_type ?s1)" "reg_ok k ?s1 ?tr3" "get_list p ?s1 = rest"
        using Cons.prems(1,2) tr3 by (simp_all add: reg_ok_def)
      from Cons.IH[OF this] obtain s' tr' r where
        ih: "send_list_tcp os k p (upd k ?s1 ?tr3 ss) = Some (upd k s' tr' ss, r)"
        "(\<exists>W. r = None \<and> list_sent k p ?s1 ?tr3 s' tr' W \<and> written (sk_fd s) tr' = written (sk_fd s) ?tr3 @ W)
           \<or> list_closed k ?s1 ?tr3 s' tr' r" by auto
      have "send_list_tcp os k p (upd k s tr ss) = Some (upd k s' tr' ss, r)" using ih(1) full unfolding run a by simp
      with ih(2) w full show ?thesis
        using list_sent_Cons[OF Cons.prems(3) refl tr3] list_closed_Cons[OF Cons.prems(3) refl tr3] by fastforce
    qed
  next
    case False
    show ?thesis
    proof (cases "a = AErr EAGAIN")
      case True
      then have "written (sk_fd s) tr2 = written (sk_fd s) tr" by (simp add: tr2_def tr1_def written_tick)
      with True list_sent_refl[OF tr2, of k p s] show ?thesis unfolding run by fastforce
    next
      case hard: False
      from Cons.prems(1,2) tr2 have "sk_type s \<notin> {SOCKET_TYPE_INVALID, SOCKET_TYPE_RESERVE}" "reg_ok k s tr2"
        by (auto simp: sending_def reg_ok_def)
      from force_close_upd[OF this, of os ss] tr2 obtain s' tr' where
        "force_close os k (upd k s tr2 ss) = Some (upd k s' tr' ss, close_message s)"
        "list_closed k s tr s' tr' (Some (SOCKET_CLOSE, close_message s))" by (fastforce simp: list_closed_def keeps_def)
      moreover have "send_list_tcp os k p (upd k s tr ss)
          = do { (ss2, m) \<leftarrow> force_close os k (upd k s tr2 ss); Some (ss2, Some (SOCKET_CLOSE, m)) }"
        using False hard unfolding run by (auto split: answer.split errno.split)
      ultimately show ?thesis by auto
    qed
  qed
qed

lemma send_list_udp_upd:
  "get_list p s = l \<Longrightarrow> \<exists>l' tr' W. send_list_udp os k p (upd k s tr ss) = Some (upd k (set_list p l' (s\<lparr>sk_wb_size := sk_wb_size s - int (length W)\<rparr>)) tr' ss, None)
     \<and> list_sent k p s tr (set_list p l' (s\<lparr>sk_wb_size := sk_wb_size s - int (length W)\<rparr>)) tr' W \<and> (\<exists>pre. l = pre @ l')"
proof (induction l arbitrary: s tr)
  case Nil
  have "send_list_udp os k p (upd k s tr ss) = Some (upd k s tr ss, None)"
    using Nil by (subst send_list_udp.simps) simp
  moreover have "s = set_list p [] s" using Nil by (metis list_simps(12))
  ultimately show ?case using list_sent_refl[OF refl refl, of k p s tr] by (intro exI[of _ "[]"] exI[of _ tr]) simp
next
  case (Cons wb rest)
  let ?c = "CSendto (sk_fd s) (sb_data wb) (udp_socket_address s (sb_udp_address wb))"
  define tr1 where "tr1 = tick tr ?c (os tr ?c)"
  have tr1: "reg tr1 = reg tr" "freed tr1 = freed tr" by (simp_all add: tr1_def)
  let ?s1 = "set_list p rest (s\<lparr>sk_wb_size := sk_wb_size s - int (length (sb_data wb))\<rparr>)"
  let ?tr2 = "tick tr1 (write_buffer_free wb) (os tr1 (write_buffer_free wb))"
  have s: "s = set_list p (wb # rest) s" using Cons.prems by (metis list_simps(12))
  show ?case
  proof (cases "errno_of (os tr ?c)")
    case (Some e)
    define tr2 where "tr2 = (if e = EINTR \<or> e = EAGAIN then tr1
        else (let c = CLog (''socket-server : udp ('' @ fmt_d (sk_id s) @ '') sendto error'') in tick tr1 c (os tr1 c)))"
    have "reg tr2 = reg tr" "freed tr2 = freed tr" by (simp_all add: tr2_def tr1 Let_def)
    note list_sent_refl[OF this, of k p s]
    moreover have "send_list_udp os k p (upd k s tr ss) = Some (upd k s tr2 ss, None)"
      using Cons.prems Some by (subst send_list_udp.simps) (simp add: sys_upd tr1_def[symmetric] tr2_def Let_def)
    ultimately show ?thesis using s by (intro exI[of _ "wb # rest"] exI[of _ tr2] exI[of _ "[]"]) simp
  next
    case None
    then have run: "send_list_udp os k p (upd k s tr ss) = send_list_udp os k p (upd k ?s1 ?tr2 ss)"
      using Cons.prems by (subst send_list_udp.simps) (simp add: sys_upd tr1_def[symmetric] Let_def)
    have tr2: "reg ?tr2 = reg tr" "freed ?tr2 = add_mset (wb_id wb) (freed tr)" by (simp_all add: tr1)
    from Cons.IH[of ?s1 ?tr2] obtain l' tr' W pre where
      ih: "send_list_udp os k p (upd k ?s1 ?tr2 ss) = Some (upd k (set_list p l' (?s1\<lparr>sk_wb_size := sk_wb_size ?s1 - int (length W)\<rparr>)) tr' ss, None)"
      "list_sent k p ?s1 ?tr2 (set_list p l' (?s1\<lparr>sk_wb_size := sk_wb_size ?s1 - int (length W)\<rparr>)) tr' W" "rest = pre @ l'" by auto
    have same: "set_list p l' (?s1\<lparr>sk_wb_size := sk_wb_size ?s1 - int (length W)\<rparr>)
        = set_list p l' (s\<lparr>sk_wb_size := sk_wb_size s - int (length (sb_data wb @ W))\<rparr>)"
      by (simp add: algebra_simps)
    from ih(1) have "send_list_udp os k p (upd k s tr ss)
        = Some (upd k (set_list p l' (s\<lparr>sk_wb_size := sk_wb_size s - int (length (sb_data wb @ W))\<rparr>)) tr' ss, None)"
      unfolding run same .
    moreover from list_sent_Cons[OF Cons.prems refl tr2 ih(2)]
    have "list_sent k p s tr (set_list p l' (s\<lparr>sk_wb_size := sk_wb_size s - int (length (sb_data wb @ W))\<rparr>)) tr' (sb_data wb @ W)"
      unfolding same .
    moreover have "\<exists>pre. wb # rest = pre @ l'" using ih(3) by (intro exI[of _ "wb # pre"]) simp
    ultimately show ?thesis by blast
  qed
qed

section \<open>Sending the buffers\<close>

lemma pending_bytes: "pending s = length (bytes_of (sk_high s)) + length (bytes_of (sk_low s))"
  by (simp add: pending_def bytes_of_def length_concat comp_def)

text \<open>What a partly sent low list means: whole buffers have left it, and at most one of them is unfinished.\<close>

definition low_left :: "write_buffer list \<Rightarrow> write_buffer list \<Rightarrow> u8 list \<Rightarrow> bool" where
  "low_left l l2 W \<longleftrightarrow> (if list_uncomplete l2
     then \<exists>pre wb rest. l2 = wb # rest \<and> l = pre @ rest \<and> W @ sb_data wb = bytes_of pre
     else \<exists>pre. l = pre @ l2 \<and> W = bytes_of pre)"

lemma low_left_sent:
  assumes "sent l l2" "W @ bytes_of l2 = bytes_of l" "\<forall>wb \<in> set l. sb_ptr wb = sb_buffer wb"
  shows "low_left l l2 W"
  using assms(1)
proof cases
  case sent_all
  with assms(2) show ?thesis by (auto simp: low_left_def list_uncomplete_def intro!: exI[of _ l])
next
  case (sent_part m wb pre rest)
  let ?wb = "wb\<lparr>sb_ptr := sb_ptr wb + m, sb_data := drop m (sb_data wb)\<rparr>"
  have whole: "sb_ptr wb = sb_buffer wb" using assms(3) sent_part(1) by auto
  have W: "W @ sb_data ?wb = bytes_of (pre @ [wb])"
  proof -
    have "(W @ sb_data ?wb) @ bytes_of rest = bytes_of (pre @ [wb]) @ bytes_of rest"
      using assms(2) sent_part by simp
    then show ?thesis by (rule append_same_eq[THEN iffD1])
  qed
  show ?thesis
  proof (cases "m = 0")
    case True
    then have "?wb = wb" "W = bytes_of pre" using W by simp_all
    then show ?thesis using sent_part whole by (simp add: low_left_def list_uncomplete_def)
  next
    case False
    then have "list_uncomplete l2" using sent_part whole by (simp add: list_uncomplete_def)
    with W sent_part show ?thesis unfolding low_left_def by (intro if_P[THEN iffD2] exI[of _ "pre @ [wb]"] exI[of _ ?wb] exI[of _ rest]) simp_all
  qed
qed

lemma list_uncomplete_low: "sock_ok s \<Longrightarrow> \<not> list_uncomplete (sk_low s)"
  by (cases "sk_low s") (auto simp: sock_ok_def list_uncomplete_def)

text \<open>Both protocols; only TCP has a stream.\<close>

definition streamed :: "socket \<Rightarrow> (oscall \<times> answer) list \<Rightarrow> (oscall \<times> answer) list \<Rightarrow> u8 list \<Rightarrow> bool" where
  "streamed s tr tr' W \<longleftrightarrow> (sk_protocol s = PROTOCOL_TCP \<longrightarrow> written (sk_fd s) tr' = written (sk_fd s) tr @ W)"

lemma send_list_upd:
  assumes "os_sane os" "sending (sk_type s)" "reg_ok k s tr"
  shows "\<exists>s' tr' r. send_list os k p (upd k s tr ss) = Some (upd k s' tr' ss, r)
     \<and> ((\<exists>W. r = None \<and> list_sent k p s tr s' tr' W \<and> streamed s tr tr' W) \<or> list_closed k s tr s' tr' r)"
proof (cases "sk_protocol s = PROTOCOL_TCP")
  case True
  with send_list_tcp_upd[OF assms refl, of p ss] show ?thesis by (auto simp: send_list_def streamed_def)
next
  case False
  with send_list_udp_upd[OF refl, of os k p s tr ss] show ?thesis by (fastforce simp: send_list_def streamed_def)
qed

text \<open>What sending the buffers of a socket does when it does not close it: bytes \<open>W\<close> are gone, whole
  buffers \<open>pre\<close> have left the low list.\<close>

definition buffers_sent :: "socket \<Rightarrow> socket \<Rightarrow> u8 list \<Rightarrow> bool" where
  "buffers_sent s s' W \<longleftrightarrow> (\<exists>pre. sk_low s = pre @ sk_low s' \<and> W @ bytes_of (sk_high s') = bytes_of (sk_high s) @ bytes_of pre)
     \<and> s' = s\<lparr>sk_high := sk_high s', sk_low := sk_low s', sk_wb_size := sk_wb_size s'\<rparr>
     \<and> sk_wb_size s' = sk_wb_size s - int (length W)"

lemma list_sent_high:
  "list_sent k PRIORITY_HIGH s tr s' tr' W \<longleftrightarrow>
     (\<exists>l. s' = s\<lparr>sk_wb_size := sk_wb_size s - int (length W), sk_high := l\<rparr> \<and> sent (sk_high s) l \<and> W @ bytes_of l = bytes_of (sk_high s))
     \<and> reg tr' = reg tr \<and> freed tr' + held s' = freed tr + held s"
  by (simp add: list_sent_def set_list_def get_list_def)

lemma list_sent_low:
  "list_sent k PRIORITY_LOW s tr s' tr' W \<longleftrightarrow>
     (\<exists>l. s' = s\<lparr>sk_wb_size := sk_wb_size s - int (length W), sk_low := l\<rparr> \<and> sent (sk_low s) l \<and> W @ bytes_of l = bytes_of (sk_low s))
     \<and> reg tr' = reg tr \<and> freed tr' + held s' = freed tr + held s"
  by (simp add: list_sent_def set_list_def get_list_def)

lemma list_closed_trans:
  assumes "list_closed k s1 tr1 s2 tr2 r" "reg tr1 = reg tr" "freed tr1 + held s1 = freed tr + held s"
    and "s1 = s\<lparr>sk_high := h, sk_low := l, sk_wb_size := n\<rparr>"
  shows "list_closed k s tr s2 tr2 r"
  using assms by (auto simp: list_closed_def keeps_def close_message_def)

text \<open>The outcome of sending the buffers: what is left, or a closed socket.\<close>

definition sent_out :: "nat \<Rightarrow> socket \<Rightarrow> (oscall \<times> answer) list \<Rightarrow> socket \<Rightarrow> (oscall \<times> answer) list \<Rightarrow> handled \<Rightarrow> bool" where
  "sent_out k s tr s' tr' r \<longleftrightarrow>
     (\<exists>W. r = None \<and> buffers_sent s s' W \<and> streamed s tr tr' W \<and> reg tr' = reg tr \<and> freed tr' + held s' = freed tr + held s)
     \<or> list_closed k s tr s' tr' r"

lemma send_low_upd:
  assumes "os_sane os" "sending (sk_type s)" "reg_ok k s tr" "sk_high s = []" "\<forall>wb \<in> set (sk_low s). sb_ptr wb = sb_buffer wb"
  shows "\<exists>s' tr' r. do { (ss2, r2) \<leftarrow> send_list os k PRIORITY_LOW (upd k s tr ss);
       if r2 \<noteq> None then Some (ss2, r2)
       else if list_uncomplete (sk_low (ss_slot ss2 k)) then do { s \<leftarrow> raise_uncomplete (ss_slot ss2 k); Some (slot_put k s ss2, None) }
       else Some (ss2, None) } = Some (upd k s' tr' ss, r) \<and> sent_out k s tr s' tr' r"
proof -
  from send_list_upd[OF assms(1-3), of PRIORITY_LOW ss] obtain s2 tr2 r where
    run: "send_list os k PRIORITY_LOW (upd k s tr ss) = Some (upd k s2 tr2 ss, r)"
    and out: "(\<exists>W. r = None \<and> list_sent k PRIORITY_LOW s tr s2 tr2 W \<and> streamed s tr tr2 W) \<or> list_closed k s tr s2 tr2 r" by blast
  from out show ?thesis
  proof
    assume "list_closed k s tr s2 tr2 r"
    with run show ?thesis by (auto simp: sent_out_def list_closed_def)
  next
    assume "\<exists>W. r = None \<and> list_sent k PRIORITY_LOW s tr s2 tr2 W \<and> streamed s tr tr2 W"
    then obtain W l where r: "r = None" and s2: "s2 = s\<lparr>sk_wb_size := sk_wb_size s - int (length W), sk_low := l\<rparr>"
      and l: "sent (sk_low s) l" "W @ bytes_of l = bytes_of (sk_low s)" and st: "streamed s tr tr2 W"
      and tr2: "reg tr2 = reg tr" "freed tr2 + held s2 = freed tr + held s" by (auto simp: list_sent_low)
    from low_left_sent[OF l assms(5)] have ll: "low_left (sk_low s) l W" .
    show ?thesis
    proof (cases "list_uncomplete l")
      case False
      with ll obtain pre where "sk_low s = pre @ l" "W = bytes_of pre" by (auto simp: low_left_def)
      then have "buffers_sent s s2 W" using s2 assms(4) by (simp add: buffers_sent_def)
      with run r False st tr2 show ?thesis using s2 by (auto simp: sent_out_def)
    next
      case True
      with ll obtain pre wb rest where l': "l = wb # rest" "sk_low s = pre @ rest" "W @ sb_data wb = bytes_of pre"
        by (auto simp: low_left_def)
      let ?s3 = "s2\<lparr>sk_low := rest, sk_high := [wb]\<rparr>"
      have "buffers_sent s ?s3 W" using s2 assms(4) l' by (simp add: buffers_sent_def)
      moreover have "held ?s3 = held s2" using s2 assms(4) l' by (simp add: held_def)
      moreover have "raise_uncomplete s2 = Some ?s3" using s2 assms(4) l' by (simp add: raise_uncomplete_def)
      ultimately show ?thesis
        using run r True s2 st tr2 by (intro exI[of _ ?s3] exI[of _ tr2] exI[of _ None]) (auto simp: sent_out_def)
    qed
  qed
qed

lemma send_done_upd:
  assumes "sending (sk_type s)" "reg_ok k s tr" "sk_high s = []" "sk_low s = []"
  shows "\<exists>s' tr' r. do {
        let tr2 = tick tr (CSpWrite (sk_fd s) k False) (os tr (CSpWrite (sk_fd s) k False));
        if sk_type s = SOCKET_TYPE_HALFCLOSE then do { (ss3, m) \<leftarrow> force_close os k (upd k s tr2 ss); Some (ss3, Some (SOCKET_CLOSE, m)) }
        else Some (upd k s tr2 ss, None) } = Some (upd k s' tr' ss, r) \<and> sent_out k s tr s' tr' r"
proof -
  define tr2 where "tr2 = tick tr (CSpWrite (sk_fd s) k False) (os tr (CSpWrite (sk_fd s) k False))"
  have tr2: "reg tr2 = reg tr" "freed tr2 = freed tr" "streamed s tr tr2 []"
    by (simp_all add: tr2_def streamed_def written_tick)
  show ?thesis
  proof (cases "sk_type s = SOCKET_TYPE_HALFCLOSE")
    case False
    have "buffers_sent s s []" by (simp add: buffers_sent_def)
    with False tr2 show ?thesis
      by (intro exI[of _ s] exI[of _ tr2] exI[of _ None]) (auto simp: sent_out_def tr2_def[symmetric])
  next
    case True
    with assms(2) tr2 have "sk_type s \<notin> {SOCKET_TYPE_INVALID, SOCKET_TYPE_RESERVE}" "reg_ok k s tr2" by (auto simp: reg_ok_def)
    from force_close_upd[OF this, of os ss] obtain s' tr' where
      f: "force_close os k (upd k s tr2 ss) = Some (upd k s' tr' ss, close_message s)"
      "list_closed k s tr2 s' tr' (Some (SOCKET_CLOSE, close_message s))" by (auto simp: list_closed_def)
    have "list_closed k s tr s' tr' (Some (SOCKET_CLOSE, close_message s))"
      using f(2) tr2 by (simp add: list_closed_def keeps_def)
    with f(1) True show ?thesis
      by (intro exI[of _ s'] exI[of _ tr'] exI[of _ "Some (SOCKET_CLOSE, close_message s)"]) (simp add: sent_out_def tr2_def[symmetric])
  qed
qed

lemma sent_out_trans:
  assumes "s1 = s\<lparr>sk_wb_size := sk_wb_size s - int (length W), sk_high := []\<rparr>" "W = bytes_of (sk_high s)" "streamed s tr tr1 W"
    and "reg tr1 = reg tr" "freed tr1 + held s1 = freed tr + held s" and "sent_out k s1 tr1 s' tr' r"
  shows "sent_out k s tr s' tr' r"
  using assms(6) unfolding sent_out_def
proof (elim disjE exE conjE)
  fix W'
  assume "r = None" and b: "buffers_sent s1 s' W'" and st: "streamed s1 tr1 tr' W'"
    and "reg tr' = reg tr1" "freed tr' + held s' = freed tr1 + held s1"
  moreover from b assms(1,2) have "buffers_sent s s' (W @ W')" by (auto simp: buffers_sent_def)
  moreover from st assms(1,3) have "streamed s tr tr' (W @ W')" by (auto simp: streamed_def)
  ultimately show "(\<exists>W. r = None \<and> buffers_sent s s' W \<and> streamed s tr tr' W \<and> reg tr' = reg tr \<and> freed tr' + held s' = freed tr + held s)
      \<or> list_closed k s tr s' tr' r" using assms(4,5) by fastforce
next
  assume "list_closed k s1 tr1 s' tr' r"
  moreover have "s1 = s\<lparr>sk_high := [], sk_low := sk_low s, sk_wb_size := sk_wb_size s - int (length W)\<rparr>"
    using assms(1) by simp
  ultimately show "(\<exists>W. r = None \<and> buffers_sent s s' W \<and> streamed s tr tr' W \<and> reg tr' = reg tr \<and> freed tr' + held s' = freed tr + held s)
      \<or> list_closed k s tr s' tr' r" using list_closed_trans[OF _ assms(4,5)] by blast
qed

lemma written_neutral: "\<not> (\<exists>f b. c = CWrite f b) \<Longrightarrow> written fd (tick tr c a) = written fd tr"
  by (cases c) (simp_all add: written_tick)

lemma send_buffer_upd:
  assumes "os_sane os" "sock_ok s" "sending (sk_type s)" "reg_ok k s tr"
  shows "\<exists>s' tr' r. send_buffer os k (upd k s tr ss) = Some (upd k s' tr' ss, r) \<and> sent_out k s tr s' tr' r"
proof -
  have whole: "\<forall>wb \<in> set (sk_low s). sb_ptr wb = sb_buffer wb" using assms(2) by (simp add: sock_ok_def)
  from send_list_upd[OF assms(1,3,4), of PRIORITY_HIGH ss] obtain s1 tr1 r where
    run: "send_list os k PRIORITY_HIGH (upd k s tr ss) = Some (upd k s1 tr1 ss, r)"
    and out: "(\<exists>W. r = None \<and> list_sent k PRIORITY_HIGH s tr s1 tr1 W \<and> streamed s tr tr1 W) \<or> list_closed k s tr s1 tr1 r" by blast
  have start: "send_buffer os k (upd k s tr ss) =
     (if r \<noteq> None then Some (upd k s1 tr1 ss, r)
      else if sk_high s1 \<noteq> [] then Some (upd k s1 tr1 ss, None)
      else if sk_low s1 \<noteq> [] then do { (ss2, r2) \<leftarrow> send_list os k PRIORITY_LOW (upd k s1 tr1 ss);
        if r2 \<noteq> None then Some (ss2, r2)
        else if list_uncomplete (sk_low (ss_slot ss2 k)) then do { s \<leftarrow> raise_uncomplete (ss_slot ss2 k); Some (slot_put k s ss2, None) }
        else Some (ss2, None) }
      else do {
        let tr2 = tick tr1 (CSpWrite (sk_fd s1) k False) (os tr1 (CSpWrite (sk_fd s1) k False));
        if sk_type s1 = SOCKET_TYPE_HALFCLOSE then do { (ss3, m) \<leftarrow> force_close os k (upd k s1 tr2 ss); Some (ss3, Some (SOCKET_CLOSE, m)) }
        else Some (upd k s1 tr2 ss, None) })"
    unfolding send_buffer_def using run list_uncomplete_low[OF assms(2)] by (simp add: Let_def)
  from out show ?thesis
  proof
    assume "list_closed k s tr s1 tr1 r"
    then show ?thesis using start by (auto simp: sent_out_def list_closed_def)
  next
    assume "\<exists>W. r = None \<and> list_sent k PRIORITY_HIGH s tr s1 tr1 W \<and> streamed s tr tr1 W"
    then obtain W h where r: "r = None" and s1: "s1 = s\<lparr>sk_wb_size := sk_wb_size s - int (length W), sk_high := h\<rparr>"
      and h: "W @ bytes_of h = bytes_of (sk_high s)" and st: "streamed s tr tr1 W"
      and tr1: "reg tr1 = reg tr" "freed tr1 + held s1 = freed tr + held s" by (auto simp: list_sent_high)
    consider (left) "h \<noteq> []" | (low) "h = []" "sk_low s \<noteq> []" | (empty) "h = []" "sk_low s = []" by blast
    then show ?thesis
    proof cases
      case left
      have "buffers_sent s s1 W" using s1 h by (simp add: buffers_sent_def)
      with start r left st tr1 s1 show ?thesis by (intro exI[of _ s1] exI[of _ tr1] exI[of _ None]) (auto simp: sent_out_def)
    next
      case low
      have "sending (sk_type s1)" "reg_ok k s1 tr1" "sk_high s1 = []" "\<forall>wb \<in> set (sk_low s1). sb_ptr wb = sb_buffer wb"
        using assms(3,4) s1 low tr1 whole by (auto simp: reg_ok_def)
      from send_low_upd[OF assms(1) this, of ss] start r low s1 obtain s' tr' r' where
        "send_buffer os k (upd k s tr ss) = Some (upd k s' tr' ss, r')" "sent_out k s1 tr1 s' tr' r'" by auto
      moreover have "W = bytes_of (sk_high s)" using h low by simp
      ultimately show ?thesis using sent_out_trans[of s1 s W tr tr1 k] s1 low st tr1 by blast
    next
      case empty
      then have "W = bytes_of (sk_high s)" using h by simp
      moreover have "sending (sk_type s1)" "reg_ok k s1 tr1" "sk_high s1 = []" "sk_low s1 = []"
        using assms(3,4) s1 empty tr1 by (auto simp: reg_ok_def)
      from send_done_upd[OF this(1,2,3,4), of os ss] start r empty s1 obtain s' tr' r' where
        "send_buffer os k (upd k s tr ss) = Some (upd k s' tr' ss, r')" "sent_out k s1 tr1 s' tr' r'" by (auto simp: Let_def)
      ultimately show ?thesis using sent_out_trans[of s1 s W tr tr1 k] s1 empty st tr1 by blast
    qed
  qed
qed

section \<open>The handlers\<close>

text \<open>\<open>handles os k B s tr f\<close>: the handler \<open>f\<close> returns and keeps its contract on slot \<open>k\<close>.\<close>

definition handles :: "nat \<Rightarrow> (bool \<times> addr) multiset \<Rightarrow> socket \<Rightarrow> (oscall \<times> answer) list \<Rightarrow> socket_server
    \<Rightarrow> (socket_server \<times> handled) option \<Rightarrow> bool" where
  "handles k B s tr ss f \<longleftrightarrow> (\<exists>s' tr' r. f = Some (upd k s' tr' ss, r) \<and> keeps k B s tr s' tr' \<and> reports s s' r)"

lemma handlesI: "f = Some (upd k s' tr' ss, r) \<Longrightarrow> keeps k B s tr s' tr' \<Longrightarrow> reports s s' r \<Longrightarrow> handles k B s tr ss f"
  by (auto simp: handles_def)

lemma reports_refl: "reports s s r"
  by (simp add: reports_def)

lemma keeps_same: "sock_ok s \<Longrightarrow> reg_ok k s tr \<Longrightarrow> reg tr' = reg tr \<Longrightarrow> freed tr' = freed tr + B \<Longrightarrow> keeps k B s tr s tr'"
  by (simp add: keeps_def reg_ok_def ac_simps)

lemma sending_polled: "sending t \<Longrightarrow> polled t"
  by (auto simp: sending_def polled_def)

lemma list_closed_handles:
  assumes "list_closed k s tr s' tr' r" "sk_type s \<noteq> SOCKET_TYPE_RESERVE"
  shows "keeps k {#} s tr s' tr' \<and> reports s s' r"
  using assms by (auto simp: list_closed_def reports_def closing_def close_message_def)

lemma sent_out_handles:
  assumes ok: "sock_ok s" and "sending (sk_type s)" "reg_ok k s tr" "sent_out k s tr s' tr' r"
  shows "keeps k {#} s tr s' tr' \<and> reports s s' r"
proof (cases "list_closed k s tr s' tr' r")
  case True
  have "sk_type s \<noteq> SOCKET_TYPE_RESERVE" using assms(2) by (auto simp: sending_def)
  with True show ?thesis by (rule list_closed_handles)
next
  case False
  with assms(4) obtain W where b: "buffers_sent s s' W" and tr: "reg tr' = reg tr" "freed tr' + held s' = freed tr + held s"
    by (auto simp: sent_out_def)
  then obtain pre where low: "sk_low s = pre @ sk_low s'" and W: "W @ bytes_of (sk_high s') = bytes_of (sk_high s) @ bytes_of pre"
    and s': "s' = s\<lparr>sk_high := sk_high s', sk_low := sk_low s', sk_wb_size := sk_wb_size s'\<rparr>"
    and n: "sk_wb_size s' = sk_wb_size s - int (length W)" by (auto simp: buffers_sent_def)
  have same: "sk_type s' = sk_type s" "sk_fd s' = sk_fd s" "sk_id s' = sk_id s" by (subst s', simp)+
  have "pending s = length W + pending s'"
    using arg_cong[OF W, of length] low by (simp add: pending_bytes)
  then have "sock_ok s'" using ok assms(2) low same n by (auto simp: sock_ok_def sending_def)
  moreover have "reports s s' r" using same by (simp add: reports_def)
  moreover have "reg_ok k s' tr'" using assms(3) same tr(1) by (simp add: reg_ok_def)
  ultimately show ?thesis using tr by (simp add: keeps_def)
qed

lemma send_buffer_handles:
  assumes "os_sane os" "sock_ok s" "sending (sk_type s)" "reg_ok k s tr"
  shows "handles k {#} s tr ss (send_buffer os k (upd k s tr ss))"
  using send_buffer_upd[OF assms] sent_out_handles[OF assms(2-4)] unfolding handles_def by blast

lemma keeps_tick: "keeps k B s tr s' tr' \<Longrightarrow> neutral c \<Longrightarrow> keeps k B s tr s' (tick tr' c a)"
  by (simp add: keeps_def reg_ok_def)

lemma keeps_so_free: "keeps k B s tr s' tr' \<Longrightarrow> keeps k (add_mset (so_id b) B) s tr s' (tick tr' (so_free b) a)"
  by (simp add: keeps_def reg_ok_def)

lemma keeps_pre: "reg tr1 = reg tr \<Longrightarrow> freed tr1 = freed tr \<Longrightarrow> keeps k B s tr1 s' tr' \<Longrightarrow> keeps k B s tr s' tr'"
  by (simp add: keeps_def)

text \<open>Closing a socket that is in use, with a report.\<close>

lemma force_close_handles:
  assumes "sk_type s \<notin> {SOCKET_TYPE_INVALID, SOCKET_TYPE_RESERVE}" "reg_ok k s tr" "reg tr1 = reg tr" "freed tr1 = freed tr"
  shows "\<exists>s' tr'. force_close os k (upd k s tr1 ss) = Some (upd k s' tr' ss, close_message s) \<and> keeps k {#} s tr s' tr'
    \<and> sk_type s' = SOCKET_TYPE_INVALID \<and> (\<forall>t m. t \<in> {SOCKET_CLOSE, SOCKET_ERROR} \<longrightarrow> rm_id m = sk_id s \<longrightarrow> reports s s' (Some (t, m)))"
proof -
  have "reg_ok k s tr1" using assms(2,3) by (simp add: reg_ok_def)
  from force_close_upd[OF assms(1) this, of os ss] obtain s' tr' where
    f: "force_close os k (upd k s tr1 ss) = Some (upd k s' tr' ss, close_message s)" "keeps k {#} s tr1 s' tr'"
    "sk_type s' = SOCKET_TYPE_INVALID" "sk_id s' = sk_id s" by blast
  have "keeps k {#} s tr s' tr'" using f(2) assms(3,4) by (simp add: keeps_def)
  moreover have "reports s s' (Some (t, m))" if "t \<in> {SOCKET_CLOSE, SOCKET_ERROR}" "rm_id m = sk_id s" for t m
    using that f assms(1) by (auto simp: reports_def closing_def)
  ultimately show ?thesis using f by blast
qed

lemma close_with_error:
  assumes "sk_type s \<notin> {SOCKET_TYPE_INVALID, SOCKET_TYPE_RESERVE}" "reg_ok k s tr" "reg tr1 = reg tr" "freed tr1 = freed tr"
  shows "handles k {#} s tr ss (do { (ss2, m) \<leftarrow> force_close os k (upd k s tr1 ss); let (ss3, t) = sys os CStrerror ss2;
      Some (ss3, Some (SOCKET_ERROR, m\<lparr>rm_data := answer_text t\<rparr>)) })"
proof -
  from force_close_handles[OF assms, of os ss] obtain s' tr' where
    f: "force_close os k (upd k s tr1 ss) = Some (upd k s' tr' ss, close_message s)" "keeps k {#} s tr s' tr'"
    "\<forall>t m. t \<in> {SOCKET_CLOSE, SOCKET_ERROR} \<longrightarrow> rm_id m = sk_id s \<longrightarrow> reports s s' (Some (t, m))" by blast
  then show ?thesis
    by (intro handlesI[where tr' = "tick tr' CStrerror (os tr' CStrerror)" and s' = s'
          and r = "Some (SOCKET_ERROR, close_message s\<lparr>rm_data := answer_text (os tr' CStrerror)\<rparr>)"])
      (simp_all add: sys_upd keeps_tick close_message_def)
qed

lemma close_with_report:
  assumes "sk_type s \<notin> {SOCKET_TYPE_INVALID, SOCKET_TYPE_RESERVE}" "reg_ok k s tr" "reg tr1 = reg tr" "freed tr1 = freed tr"
  shows "handles k {#} s tr ss (do { (ss2, m) \<leftarrow> force_close os k (upd k s tr1 ss); Some (ss2, Some (SOCKET_CLOSE, m)) })"
  using force_close_handles[OF assms, of os ss] by (auto intro!: handlesI simp: close_message_def)

text \<open>Adding a buffer to a list.\<close>

lemma append_buffer_ok:
  assumes "sock_ok s" "sk_type s \<notin> {SOCKET_TYPE_INVALID, SOCKET_TYPE_RESERVE, SOCKET_TYPE_PLISTEN, SOCKET_TYPE_LISTEN, SOCKET_TYPE_PACCEPT}"
    and "p = PRIORITY_LOW \<longrightarrow> sb_ptr wb = sb_buffer wb"
  shows "sock_ok (append_buffer p wb s) \<and> held (append_buffer p wb s) = add_mset (wb_id wb) (held s)
    \<and> sk_type (append_buffer p wb s) = sk_type s \<and> sk_id (append_buffer p wb s) = sk_id s \<and> sk_fd (append_buffer p wb s) = sk_fd s"
  using assms by (cases p) (auto simp: append_buffer_def set_list_def get_list_def sock_ok_def held_def pending_def)

lemma append_keeps:
  assumes "sock_ok s" "sk_type s \<notin> {SOCKET_TYPE_INVALID, SOCKET_TYPE_RESERVE, SOCKET_TYPE_PLISTEN, SOCKET_TYPE_LISTEN, SOCKET_TYPE_PACCEPT}"
    and "p = PRIORITY_LOW \<longrightarrow> sb_ptr wb = sb_buffer wb" "reg_ok k s tr" "reg tr' = reg tr" "freed tr' = freed tr"
  shows "keeps k {#wb_id wb#} s tr (append_buffer p wb s) tr' \<and> reports s (append_buffer p wb s) r"
  using append_buffer_ok[OF assms(1-3)] assms(4-6) by (auto simp: keeps_def reg_ok_def reports_def)

text \<open>Low priority is for plain blocks.\<close>

definition send_ok :: "sk_priority \<Rightarrow> sendbuf \<Rightarrow> bool" where
  "send_ok p b \<longleftrightarrow> (p = PRIORITY_LOW \<longrightarrow> (\<exists>a bs. b = Plain a bs))"

lemma make_buffer_whole: "send_ok PRIORITY_LOW b \<Longrightarrow> sb_ptr (make_buffer b 0 a) = sb_buffer (make_buffer b 0 a)"
  by (auto simp: send_ok_def make_buffer_def)

lemma append_sendbuffer_simps:
  "append_sendbuffer b n s = append_buffer PRIORITY_HIGH (make_buffer b n []) s"
  "append_sendbuffer_low b s = append_buffer PRIORITY_LOW (make_buffer b 0 []) s"
  "append_sendbuffer_udp p b address s = append_buffer p (make_buffer b 0 address) s"
  by (simp_all add: append_sendbuffer_def append_sendbuffer_low_def append_sendbuffer_udp_def)

lemma append_handles:
  assumes "sock_ok s" "sk_type s \<notin> {SOCKET_TYPE_INVALID, SOCKET_TYPE_RESERVE, SOCKET_TYPE_PLISTEN, SOCKET_TYPE_LISTEN, SOCKET_TYPE_PACCEPT}"
    and "p = PRIORITY_LOW \<longrightarrow> n = 0 \<and> send_ok PRIORITY_LOW b" "reg_ok k s tr" "reg tr' = reg tr" "freed tr' = freed tr"
  shows "handles k {#so_id b#} s tr ss (Some (upd k (append_buffer p (make_buffer b n a) s) tr' ss, None))"
proof -
  have "p = PRIORITY_LOW \<longrightarrow> sb_ptr (make_buffer b n a) = sb_buffer (make_buffer b n a)" using assms(3) make_buffer_whole by simp
  from append_keeps[OF assms(1,2) this assms(4-6)] show ?thesis by (intro handlesI[OF refl]) auto
qed

lemma free_handles:
  assumes "sock_ok s" "reg_ok k s tr" "reg tr1 = reg tr" "freed tr1 = freed tr"
  shows "handles k {#so_id b#} s tr ss (Some (sysc os (so_free b) (upd k s tr1 ss), r))"
proof -
  let ?tr = "tick tr1 (so_free b) (os tr1 (so_free b))"
  have "keeps k {#so_id b#} s tr s ?tr" using assms by (intro keeps_same) simp_all
  then show ?thesis by (intro handlesI[of _ k s ?tr]) (simp_all add: reports_refl)
qed

lemma send_write_handles:
  assumes "os_sane os" "sock_ok s" "reg_ok k s tr" "send_ok p b" "sk_type s = SOCKET_TYPE_CONNECTED" "send_buffer_empty s"
    and "sk_protocol s = PROTOCOL_TCP" "sk_id s = id'" "k = HASH_ID id'"
  shows "handles k {#so_id b#} s tr ss (send_socket os id' b p ua (upd k s tr ss))"
proof -
  let ?c = "CWrite (sk_fd s) (so_bytes b)"
  define a where "a = os tr ?c"
  define tr1 where "tr1 = tick tr ?c a"
  have tr1: "reg tr1 = reg tr" "freed tr1 = freed tr" by (simp_all add: tr1_def)
  define n where "n = (case a of ANum n \<Rightarrow> Some n | AErr EINTR \<Rightarrow> Some 0 | AErr EAGAIN \<Rightarrow> Some 0 | _ \<Rightarrow> None)"
  define c where "c = CLog (''socket-server: write to '' @ fmt_d id' @ '' (fd='' @ fmt_d (sk_fd s) @ '') error'')"
  have run: "send_socket os id' b p ua (upd k s tr ss) = (case n of
       None \<Rightarrow> do {
         (ss2, m) \<leftarrow> force_close os k (sysc os c (upd k s tr1 ss));
         Some (sysc os (so_free b) ss2, Some (SOCKET_CLOSE, m)) }
     | Some n \<Rightarrow> do {
         c_assert (0 \<le> n \<and> n \<le> int (length (so_bytes b)));
         if n = int (length (so_bytes b)) then Some (sysc os (so_free b) (upd k s tr1 ss), None)
         else Some (sysc os (CSpWrite (sk_fd s) k True) (upd k (append_sendbuffer b (nat n) s) tr1 ss), None) })"
    unfolding c_def using assms(5-8) by (simp add: send_socket_def Let_def sys_upd assms(9)[symmetric] a_def[symmetric] tr1_def[symmetric] n_def[symmetric]
        split: option.split)
  show ?thesis
  proof (cases n)
    case None
    define tr2 where "tr2 = tick tr1 c (os tr1 c)"
    have tr2: "reg tr2 = reg tr" "freed tr2 = freed tr" by (simp_all add: tr2_def tr1 c_def)
    have "sk_type s \<notin> {SOCKET_TYPE_INVALID, SOCKET_TYPE_RESERVE}" using assms(5) by simp
    from force_close_handles[OF this assms(3) tr2, of os ss] obtain s' tr' where
      f: "force_close os k (upd k s tr2 ss) = Some (upd k s' tr' ss, close_message s)" "keeps k {#} s tr s' tr'"
      "\<forall>t m. t \<in> {SOCKET_CLOSE, SOCKET_ERROR} \<longrightarrow> rm_id m = sk_id s \<longrightarrow> reports s s' (Some (t, m))" by blast
    have "send_socket os id' b p ua (upd k s tr ss) =
        Some (upd k s' (tick tr' (so_free b) (os tr' (so_free b))) ss, Some (SOCKET_CLOSE, close_message s))"
      unfolding run None using f(1) by (simp add: tr2_def[symmetric])
    moreover have "reports s s' (Some (SOCKET_CLOSE, close_message s))" using f(3) by (simp add: close_message_def)
    ultimately show ?thesis using keeps_so_free[OF f(2)] by (intro handlesI) auto
  next
    case (Some m)
    have m: "0 \<le> m \<and> m \<le> int (length (so_bytes b))"
      using Some assms(1) by (auto simp: n_def a_def os_sane_def split: answer.splits errno.splits)
    show ?thesis
    proof (cases "m = int (length (so_bytes b))")
      case True
      then show ?thesis unfolding run Some using free_handles[OF assms(2,3) tr1] by simp
    next
      case False
      have "sk_type s \<notin> {SOCKET_TYPE_INVALID, SOCKET_TYPE_RESERVE, SOCKET_TYPE_PLISTEN, SOCKET_TYPE_LISTEN, SOCKET_TYPE_PACCEPT}"
        using assms(5) by simp
      from append_handles[OF assms(2) this _ assms(3), of PRIORITY_HIGH "nat m" b "tick tr1 (CSpWrite (sk_fd s) k True) (os tr1 (CSpWrite (sk_fd s) k True))"]
      show ?thesis unfolding run Some using m False tr1 by (simp add: append_sendbuffer_simps)
    qed
  qed
qed

lemma send_socket_handles:
  assumes "os_sane os" "sock_ok s" "reg_ok k s tr" "send_ok p b" "k = HASH_ID id'" "sk_id s = id' \<longrightarrow> sk_type s \<noteq> SOCKET_TYPE_RESERVE"
  shows "handles k {#so_id b#} s tr ss (send_socket os id' b p ua (upd k s tr ss))"
proof -
  define address where "address = (case ua of None \<Rightarrow> sk_udp_address s | Some a \<Rightarrow> a)"
  note run = send_socket_def Let_def sys_upd assms(5)[symmetric] address_def[symmetric]
  let ?refuse = "sk_type s = SOCKET_TYPE_INVALID \<or> sk_id s \<noteq> id' \<or> sk_type s = SOCKET_TYPE_HALFCLOSE \<or> sk_type s = SOCKET_TYPE_PACCEPT"
  let ?listen = "sk_type s = SOCKET_TYPE_PLISTEN \<or> sk_type s = SOCKET_TYPE_LISTEN"
  let ?direct = "send_buffer_empty s \<and> sk_type s = SOCKET_TYPE_CONNECTED"
  have open': "sk_type s \<notin> {SOCKET_TYPE_INVALID, SOCKET_TYPE_RESERVE, SOCKET_TYPE_PLISTEN, SOCKET_TYPE_LISTEN, SOCKET_TYPE_PACCEPT}"
    if "\<not> ?refuse" "\<not> ?listen" using that assms(6) by auto
  consider (refuse) ?refuse | (listen) "\<not> ?refuse" ?listen
    | (tcp) "\<not> ?refuse" "\<not> ?listen" ?direct "sk_protocol s = PROTOCOL_TCP"
    | (udp) "\<not> ?refuse" "\<not> ?listen" ?direct "sk_protocol s \<noteq> PROTOCOL_TCP"
    | (queue) "\<not> ?refuse" "\<not> ?listen" "\<not> ?direct" by blast
  then show ?thesis
  proof cases
    case refuse
    then show ?thesis using free_handles[OF assms(2,3) refl refl] by (simp add: run)
  next
    case listen
    define c where "c = CLog (''socket-server: write to listen fd '' @ fmt_d id' @ ''.'')"
    have "send_socket os id' b p ua (upd k s tr ss) = Some (sysc os (so_free b) (upd k s (tick tr c (os tr c)) ss), None)"
      unfolding c_def using listen by (auto simp add: run)
    moreover have "neutral c" by (simp add: c_def)
    ultimately show ?thesis using free_handles[OF assms(2,3), of "tick tr c (os tr c)"] by simp
  next
    case tcp
    then show ?thesis using send_write_handles[OF assms(1-4)] assms(5) by blast
  next
    case udp
    define c where "c = CSendto (sk_fd s) (so_bytes b) (udp_socket_address s address)"
    define tr1 where "tr1 = tick tr c (os tr c)"
    have tr1: "reg tr1 = reg tr" "freed tr1 = freed tr" by (simp_all add: tr1_def c_def)
    let ?tr2 = "tick tr1 (CSpWrite (sk_fd s) k True) (os tr1 (CSpWrite (sk_fd s) k True))"
    have r: "send_socket os id' b p ua (upd k s tr ss) =
        (if os tr c = ANum (int (length (so_bytes b))) then Some (sysc os (so_free b) (upd k s tr1 ss), None)
         else Some (upd k (append_buffer p (make_buffer b 0 address) s) ?tr2 ss, None))"
      using udp by (simp add: run c_def[symmetric] tr1_def append_sendbuffer_simps)
    have "p = PRIORITY_LOW \<longrightarrow> (0::nat) = 0 \<and> send_ok PRIORITY_LOW b" using assms(4) by auto
    from append_handles[OF assms(2) open'[OF udp(1,2)] this assms(3), of ?tr2] free_handles[OF assms(2,3) tr1]
    show ?thesis unfolding r using tr1 by simp
  next
    case queue
    define a where "a = (if sk_protocol s = PROTOCOL_TCP then [] else address)"
    have "send_socket os id' b p ua (upd k s tr ss) = Some (upd k (append_buffer p (make_buffer b 0 a) s) tr ss, None)"
      using queue by (cases p) (auto simp add: run append_sendbuffer_simps a_def)
    moreover have "p = PRIORITY_LOW \<longrightarrow> (0::nat) = 0 \<and> send_ok PRIORITY_LOW b" using assms(4) by auto
    ultimately show ?thesis using append_handles[OF assms(2) open'[OF queue(1,2)] _ assms(3) refl refl] by simp
  qed
qed

lemma buffers_sent_same:
  assumes "buffers_sent s s' W"
  shows "sk_type s' = sk_type s \<and> sk_fd s' = sk_fd s \<and> sk_id s' = sk_id s \<and> sk_opaque s' = sk_opaque s \<and> sk_protocol s' = sk_protocol s"
proof -
  have s': "s' = s\<lparr>sk_high := sk_high s', sk_low := sk_low s', sk_wb_size := sk_wb_size s'\<rparr>" using assms unfolding buffers_sent_def by blast
  show ?thesis by (intro conjI; subst s', simp)
qed

lemma sent_out_same:
  "sent_out k s tr s' tr' None \<Longrightarrow> sk_type s' = sk_type s \<and> sk_fd s' = sk_fd s \<and> sk_id s' = sk_id s"
  using buffers_sent_same by (auto simp: sent_out_def list_closed_def)

lemma buffers_sending:
  assumes "sock_ok s" "\<not> send_buffer_empty s"
  shows "sending (sk_type s)"
  using assms by (cases "sk_type s") (auto simp: sock_ok_def send_buffer_empty_def sending_def)

text \<open>The end of \<open>close_socket\<close>.\<close>

lemma close_end_handles:
  assumes k: "keeps k {#} s tr s1 tr1" and same: "sk_type s1 = sk_type s" "sk_id s1 = sk_id s" "sk_fd s1 = sk_fd s"
    and t: "sk_type s \<notin> {SOCKET_TYPE_INVALID, SOCKET_TYPE_RESERVE}" and id': "sk_id s = id'"
  shows "handles k {#} s tr ss
    (if shutdown \<or> send_buffer_empty s1 then do {
       (ss2, m) \<leftarrow> force_close os k (upd k s1 tr1 ss);
       Some (ss2, Some (SOCKET_CLOSE, m\<lparr>rm_id := id', rm_opaque := opaque\<rparr>)) }
     else Some (upd k (s1\<lparr>sk_type := SOCKET_TYPE_HALFCLOSE\<rparr>) tr1 ss, None))"
proof (cases "shutdown \<or> send_buffer_empty s1")
  case True
  have ok: "reg_ok k s1 tr1" using k by (simp add: keeps_def)
  from t same(1) have "sk_type s1 \<notin> {SOCKET_TYPE_INVALID, SOCKET_TYPE_RESERVE}" by simp
  from force_close_upd[OF this ok, of os ss] obtain s' tr' where
    f: "force_close os k (upd k s1 tr1 ss) = Some (upd k s' tr' ss, close_message s1)" "keeps k {#} s1 tr1 s' tr'"
    "sk_type s' = SOCKET_TYPE_INVALID" "sk_id s' = sk_id s1" by blast
  have "reports s s' (Some (SOCKET_CLOSE, close_message s1\<lparr>rm_id := id', rm_opaque := opaque\<rparr>))"
    using f(3,4) same t id' by (auto simp: reports_def closing_def)
  moreover have "keeps k {#} s tr s' tr'" using keeps_trans[OF k f(2)] by simp
  ultimately show ?thesis using True f(1) by (intro handlesI) auto
next
  case False
  have s1: "sock_ok s1" "reg_ok k s1 tr1" using k by (simp_all add: keeps_def)
  let ?s = "s1\<lparr>sk_type := SOCKET_TYPE_HALFCLOSE\<rparr>"
  from buffers_sending[OF s1(1)] False have "sending (sk_type s1)" by blast
  then have "sock_ok ?s" "reg_ok k ?s tr1" "polled (sk_type ?s)"
    using s1 by (auto simp: sock_ok_def reg_ok_def sending_def polled_def pending_def)
  moreover have "held ?s = held s1" by (simp add: held_def)
  ultimately have "keeps k {#} s tr ?s tr1" using k by (simp add: keeps_def)
  moreover have "reports s ?s None" using same t by (auto simp: reports_def polled_def)
  ultimately show ?thesis using False by (intro handlesI) auto
qed

lemma close_socket_handles:
  assumes "os_sane os" "sock_ok s" "reg_ok k s tr" "k = HASH_ID id'" "sk_id s = id' \<longrightarrow> sk_type s \<noteq> SOCKET_TYPE_RESERVE"
  shows "handles k {#} s tr ss (close_socket os id' shutdown opaque (upd k s tr ss))"
proof -
  let ?gone = "sk_type s = SOCKET_TYPE_INVALID \<or> sk_id s \<noteq> id'"
  have self: "keeps k {#} s tr s tr" using assms(2,3) by (simp add: keeps_def)
  note run = close_socket_def Let_def assms(4)[symmetric]
  consider (gone) ?gone | (empty) "\<not> ?gone" "send_buffer_empty s" | (full) "\<not> ?gone" "\<not> send_buffer_empty s" by blast
  then show ?thesis
  proof cases
    case gone
    then show ?thesis using handlesI[OF _ self reports_refl] by (auto simp: run)
  next
    case empty
    have "sk_type s \<notin> {SOCKET_TYPE_INVALID, SOCKET_TYPE_RESERVE}" "sk_id s = id'" using empty assms(5) by auto
    from close_end_handles[OF self refl refl refl this] empty show ?thesis by (simp add: run)
  next
    case full
    have t: "sk_type s \<notin> {SOCKET_TYPE_INVALID, SOCKET_TYPE_RESERVE}" "sk_id s = id'" using full assms(5) by auto
    note sd = buffers_sending[OF assms(2) full(2)]
    from send_buffer_upd[OF assms(1,2) sd assms(3), of ss] obtain s1 tr1 r where
      f: "send_buffer os k (upd k s tr ss) = Some (upd k s1 tr1 ss, r)" and out: "sent_out k s tr s1 tr1 r" by blast
    from sent_out_handles[OF assms(2) sd assms(3) out] have k: "keeps k {#} s tr s1 tr1" "reports s s1 r" by auto
    show ?thesis
    proof (cases r)
      case (Some tm)
      then have "close_socket os id' shutdown opaque (upd k s tr ss) = Some (upd k s1 tr1 ss, r)"
        using full f by (simp add: run)
      then show ?thesis using k by (rule handlesI)
    next
      case None
      with out have "sk_type s1 = sk_type s" "sk_id s1 = sk_id s" "sk_fd s1 = sk_fd s" using sent_out_same by auto
      note k' = close_end_handles[OF k(1) this t, of ss shutdown os opaque]
      show ?thesis by (rule back_subst[where P = "handles k {#} s tr ss", OF k']) (use full f None in \<open>simp add: run\<close>)
    qed
  qed
qed

lemma start_socket_handles:
  assumes "sock_ok s" "reg_ok k s tr" "k = HASH_ID id'"
  shows "handles k {#} s tr ss (start_socket os id' opaque (upd k s tr ss))"
proof -
  let ?c = "CSpAdd (sk_fd s) (Some k)"
  define a where "a = os tr ?c"
  define tr1 where "tr1 = tick tr ?c a"
  have self: "keeps k {#} s tr s tr" using assms by (simp add: keeps_def)
  note run = start_socket_def Let_def sys_upd assms(3)[symmetric] a_def[symmetric] tr1_def[symmetric]
  let ?gone = "sk_type s = SOCKET_TYPE_INVALID \<or> sk_id s \<noteq> id'"
  let ?new = "sk_type s = SOCKET_TYPE_PACCEPT \<or> sk_type s = SOCKET_TYPE_PLISTEN"
  consider (gone) ?gone | (fails) "\<not> ?gone" ?new "failed a" | (starts) "\<not> ?gone" ?new "\<not> failed a" | (other) "\<not> ?gone" "\<not> ?new" by blast
  then show ?thesis
  proof cases
    case gone
    then show ?thesis using handlesI[OF _ self reports_refl] by (auto simp: run)
  next
    case fails
    have tr1: "reg tr1 = reg tr" "freed tr1 = freed tr" using fails by (simp_all add: tr1_def trace_tick)
    have "sk_type s \<notin> {SOCKET_TYPE_INVALID, SOCKET_TYPE_RESERVE}" using fails by auto
    note h = close_with_error[OF this assms(2) tr1, of ss os]
    show ?thesis by (rule back_subst[where P = "handles k {#} s tr ss", OF h]) (use fails in \<open>auto simp: run\<close>)
  next
    case starts
    let ?s = "s\<lparr>sk_type := if sk_type s = SOCKET_TYPE_PACCEPT then SOCKET_TYPE_CONNECTED else SOCKET_TYPE_LISTEN, sk_opaque := opaque\<rparr>"
    have tr1: "reg tr1 = insert (sk_fd s, k) (reg tr)" "freed tr1 = freed tr" using starts by (simp_all add: tr1_def trace_tick)
    have "sock_ok ?s" using starts assms(1) by (auto simp: sock_ok_def pending_def)
    then have "keeps k {#} s tr ?s tr1" using assms(2) tr1 by (auto simp: keeps_def reg_ok_def polled_def held_def)
    moreover have "reports s ?s r" for r using starts by (auto simp: reports_def polled_def)
    ultimately show ?thesis using starts by (auto simp: run intro!: handlesI)
  next
    case other
    let ?s = "s\<lparr>sk_opaque := opaque\<rparr>"
    have "keeps k {#} s tr ?s tr" using assms by (simp add: keeps_def sock_ok_def reg_ok_def held_def pending_def)
    moreover have "reports s ?s r" for r by (simp add: reports_def)
    ultimately show ?thesis using other handlesI[OF _ self reports_refl] by (auto simp: run intro: handlesI)
  qed
qed

lemma setopt_socket_handles:
  assumes "sock_ok s" "reg_ok k s tr" "k = HASH_ID id'"
  shows "handles k {#} s tr ss (Some (setopt_socket os id' what v (upd k s tr ss), None))"
proof -
  have "keeps k {#} s tr s tr" using assms by (simp add: keeps_def)
  from handlesI[OF _ this reports_refl] handlesI[OF _ keeps_neutral[OF assms(1,2)] reports_refl] show ?thesis
    by (auto simp: setopt_socket_def Let_def assms(3)[symmetric])
qed

lemma set_udp_address_handles:
  assumes "sock_ok s" "reg_ok k s tr" "k = HASH_ID id'" "address ! 0 \<noteq> 0"
  shows "handles k {#} s tr ss (set_udp_address id' address (upd k s tr ss))"
proof -
  have self: "keeps k {#} s tr s tr" using assms by (simp add: keeps_def)
  have "keeps k {#} s tr (s\<lparr>sk_udp_address := a\<rparr>) tr" for a
    using assms by (simp add: keeps_def sock_ok_def reg_ok_def held_def pending_def)
  moreover have "reports s (s\<lparr>sk_udp_address := a\<rparr>) r" for a r by (simp add: reports_def)
  moreover have "sk_protocol s \<noteq> PROTOCOL_TCP" if "address ! 0 = proto_num (sk_protocol s)"
    using that assms(4) by (auto simp: proto_num_def)
  ultimately show ?thesis using handlesI[OF _ self reports_refl]
    by (auto simp: set_udp_address_def Let_def assms(3)[symmetric] intro: handlesI)
qed

lemma forward_message_tcp_handles:
  assumes "os_sane os" "sock_ok s" "reg_ok k s tr" "sk_type s \<notin> {SOCKET_TYPE_INVALID, SOCKET_TYPE_RESERVE}"
  shows "handles k {#} s tr ss (forward_message_tcp os k (upd k s tr ss))"
proof -
  let ?c = "CRead (sk_fd s) (sk_size s)"
  define a where "a = os tr ?c"
  define tr1 where "tr1 = tick tr ?c a"
  have tr1: "reg tr1 = reg tr" "freed tr1 = freed tr" by (simp_all add: tr1_def)
  have "sys os ?c (upd k s tr ss) = (upd k s tr1 ss, a)" by (simp add: sys_upd a_def tr1_def)
  note run = forward_message_tcp_def Let_def this
  have same: "keeps k {#} s tr s tr1" using tr1 by (intro keeps_same[OF assms(2,3)]) simp_all
  note err = close_with_error[OF assms(4,3) tr1, of ss os] close_with_report[OF assms(4,3) tr1, of ss os]
  show ?thesis
  proof (cases "\<exists>b. a = ABytes b")
    case True
    then obtain b where b: "a = ABytes b" by blast
    with assms(1) have le: "int (length b) \<le> sk_size s" unfolding os_sane_def a_def by blast
    have "keeps k {#} s tr (s\<lparr>sk_size := n\<rparr>) tr1" for n
      using same by (simp add: keeps_def sock_ok_def reg_ok_def held_def pending_def)
    moreover have "reports s (s\<lparr>sk_size := n\<rparr>) r" for n r by (simp add: reports_def)
    ultimately have "handles k {#} s tr ss (Some (upd k (s\<lparr>sk_size := n\<rparr>) tr1 ss, r))" for n r by (intro handlesI[OF refl])
    then show ?thesis using b le err handlesI[OF refl same reports_refl] by (simp add: run)
  next
    case False
    have "handles k {#} s tr ss (Some (upd k s (tick tr1 (CLog t) x) ss, r))" for t x r
      by (rule handlesI[OF refl keeps_tick[OF same] reports_refl]) simp
    then show ?thesis using False err handlesI[OF refl same reports_refl] by (auto simp: run split: answer.split errno.split)
  qed
qed

lemma forward_message_udp_handles:
  assumes "sock_ok s" "reg_ok k s tr" "sk_type s \<notin> {SOCKET_TYPE_INVALID, SOCKET_TYPE_RESERVE}"
  shows "handles k {#} s tr ss (forward_message_udp os k (upd k s tr ss))"
proof -
  let ?c = "CRecvfrom (sk_fd s)"
  define a where "a = os tr ?c"
  define tr1 where "tr1 = tick tr ?c a"
  have tr1: "reg tr1 = reg tr" "freed tr1 = freed tr" by (simp_all add: tr1_def)
  have "handles k {#} s tr ss (Some (upd k s tr1 ss, r))" for r
    using tr1 by (intro handlesI[OF refl keeps_same[OF assms(1,2)] reports_refl]) simp_all
  moreover have "sys os ?c (upd k s tr ss) = (upd k s tr1 ss, a)" by (simp add: sys_upd a_def tr1_def)
  moreover note close_with_error[OF assms(3,2) tr1, of ss os]
  ultimately show ?thesis
    by (auto simp: forward_message_udp_def Let_def split: answer.split errno.split)
qed

lemma report_connect_handles:
  assumes "sock_ok s" "reg_ok k s tr" "sk_type s = SOCKET_TYPE_CONNECTING"
  shows "handles k {#} s tr ss (report_connect os k (upd k s tr ss))"
proof -
  let ?c = "CGetsockerr (sk_fd s)"
  define a where "a = os tr ?c"
  define tr1 where "tr1 = tick tr ?c a"
  have tr1: "reg tr1 = reg tr" "freed tr1 = freed tr" by (simp_all add: tr1_def)
  have sys: "sys os ?c (upd k s tr ss) = (upd k s tr1 ss, a)" by (simp add: sys_upd a_def tr1_def)
  show ?thesis
  proof (cases "a = ANum 0")
    case False
    have "sk_type s \<notin> {SOCKET_TYPE_INVALID, SOCKET_TYPE_RESERVE}" using assms(3) by simp
    from close_with_error[OF this assms(2) tr1, of ss os] False show ?thesis by (simp add: report_connect_def sys Let_def)
  next
    case True
    let ?s = "s\<lparr>sk_type := SOCKET_TYPE_CONNECTED\<rparr>" and ?w = "CSpWrite (sk_fd s) k False" and ?p = "CGetpeername (sk_fd s)"
    define tr2 where "tr2 = (if send_buffer_empty s then tick tr1 ?w (os tr1 ?w) else tr1)"
    define b where "b = os tr2 ?p"
    define tr3 where "tr3 = tick tr2 ?p b"
    define tr4 where "tr4 = (case b of AAddr sa \<Rightarrow> tick tr3 (CNtop sa) (os tr3 (CNtop sa)) | _ \<Rightarrow> tr3)"
    have tr4: "reg tr4 = reg tr" "freed tr4 = freed tr" by (auto simp: tr4_def tr3_def tr2_def tr1 split: answer.split)
    have p: "sys os ?p (upd k ?s tr2 ss) = (upd k ?s tr3 ss, b)" by (simp add: sys_upd b_def tr3_def)
    have "\<exists>r. report_connect os k (upd k s tr ss) = Some (upd k ?s tr4 ss, r)"
    proof -
      have "(if send_buffer_empty s then sysc os ?w (upd k ?s tr1 ss) else upd k ?s tr1 ss) = upd k ?s tr2 ss" by (simp add: tr2_def)
      moreover obtain d where "(case b of AAddr sa \<Rightarrow> (let (ss', t) = sys os (CNtop sa) (upd k ?s tr3 ss) in (ss', answer_text t))
          | _ \<Rightarrow> (upd k ?s tr3 ss, NoData)) = (upd k ?s tr4 ss, d)"
        by (cases b) (simp_all add: tr4_def sys_upd)
      ultimately show ?thesis using True by (simp add: report_connect_def sys Let_def p)
    qed
    moreover have "keeps k {#} s tr ?s tr4"
      using assms tr4 by (auto simp: keeps_def sock_ok_def reg_ok_def held_def pending_def polled_def)
    moreover have "reports s ?s r" for r using assms(3) by (simp add: reports_def polled_def)
    ultimately show ?thesis unfolding handles_def by blast
  qed
qed

section \<open>New sockets\<close>

text \<open>The contract of a request that creates a socket: the reserved slot is used or given up.\<close>

definition makes :: "nat \<Rightarrow> socket \<Rightarrow> (oscall \<times> answer) list \<Rightarrow> socket_server \<Rightarrow> (socket_server \<times> handled) option \<Rightarrow> bool" where
  "makes k s tr ss f \<longleftrightarrow> (\<exists>s' tr' r. f = Some (upd k s' tr' ss, r) \<and> keeps k {#} s tr s' tr' \<and> sk_type s' \<noteq> SOCKET_TYPE_RESERVE)"

lemma makesI: "f = Some (upd k s' tr' ss, r) \<Longrightarrow> keeps k {#} s tr s' tr' \<Longrightarrow> sk_type s' \<noteq> SOCKET_TYPE_RESERVE \<Longrightarrow> makes k s tr ss f"
  by (auto simp: makes_def)

lemma new_keeps:
  assumes "sock_ok s" "reg_ok k s tr" "sk_type s = SOCKET_TYPE_RESERVE" "freed tr' = freed tr" "sk_high s' = []" "sk_low s' = []"
    and "sk_type s' = SOCKET_TYPE_INVALID \<and> reg tr' = reg tr
       \<or> sk_type s' \<notin> {SOCKET_TYPE_INVALID, SOCKET_TYPE_RESERVE} \<and> sk_wb_size s' = 0
         \<and> (reg tr' = reg tr \<or> polled (sk_type s') \<and> reg tr' = insert (sk_fd s', k) (reg tr))"
  shows "keeps k {#} s tr s' tr'"
  using assms by (auto simp: keeps_def sock_ok_def reg_ok_def held_def pending_def polled_def)

lemma new_fd_upd:
  assumes "sock_ok s" "sk_type s = SOCKET_TYPE_RESERVE" "k = HASH_ID id'"
  shows "\<exists>s' tr' ok. new_fd os id' fd p opaque add (upd k s tr ss) = Some (upd k s' tr' ss, if ok then Some k else None)
     \<and> freed tr' = freed tr \<and> sk_high s' = [] \<and> sk_low s' = []
     \<and> (ok \<longrightarrow> sk_fd s' = fd \<and> sk_wb_size s' = 0 \<and> sk_type s' = SOCKET_TYPE_RESERVE \<and> reg tr' = (if add then insert (fd, k) (reg tr) else reg tr))
     \<and> (\<not> ok \<longrightarrow> add \<and> sk_type s' = SOCKET_TYPE_INVALID \<and> reg tr' = reg tr)"
proof -
  let ?c = "CSpAdd fd (Some k)"
  define a where "a = (if add then os tr ?c else ANum 0)"
  define tr1 where "tr1 = (if add then tick tr ?c a else tr)"
  define ok where "ok \<longleftrightarrow> \<not> failed a"
  define s' where "s' = (if ok then s\<lparr>sk_id := id', sk_fd := fd, sk_protocol := p, sk_size := MIN_READ_BUFFER, sk_opaque := opaque, sk_wb_size := 0\<rparr>
     else s\<lparr>sk_type := SOCKET_TYPE_INVALID\<rparr>)"
  have lists: "sk_high s = []" "sk_low s = []" using assms(1,2) by (simp_all add: sock_ok_def)
  have add: "(if add then sys os ?c (upd k s tr ss) else (upd k s tr ss, ANum 0)) = (upd k s tr1 ss, a)"
    by (simp add: sys_upd a_def tr1_def)
  have "new_fd os id' fd p opaque add (upd k s tr ss) = Some (upd k s' tr1 ss, if ok then Some k else None)"
    using assms(2) lists by (simp add: new_fd_def Let_def assms(3)[symmetric] add check_wb_list_def s'_def ok_def)
  moreover have "freed tr1 = freed tr" "reg tr1 = (if add \<and> ok then insert (fd, k) (reg tr) else reg tr)"
    by (simp_all add: tr1_def trace_tick ok_def)
  moreover have "ok" if "\<not> add" using that by (simp add: ok_def a_def failed_def)
  ultimately show ?thesis
    using lists assms(2) by (intro exI[of _ s'] exI[of _ tr1] exI[of _ ok]) (auto simp: s'_def)
qed

lemma connect_loop_upd:
  "\<exists>tr' r. connect_loop os ais (upd k s tr ss) = (upd k s tr' ss, r) \<and> reg tr' = reg tr \<and> freed tr' = freed tr"
proof (induction ais arbitrary: tr)
  case Nil
  then show ?case by auto
next
  case (Cons ai ais)
  define a where "a = os tr (CSocket ai)"
  define tr1 where "tr1 = tick tr (CSocket ai) a"
  have s1: "sys os (CSocket ai) (upd k s tr ss) = (upd k s tr1 ss, a)" by (simp add: sys_upd a_def tr1_def)
  have tr1: "reg tr1 = reg tr" "freed tr1 = freed tr" by (simp_all add: tr1_def)
  show ?case
  proof (cases "\<exists>sock. a = ANum sock")
    case True
    then obtain sock where sock: "a = ANum sock" by blast
    let ?k = "CKeepalive sock" and ?n = "CNonblocking sock" and ?c = "CConnect sock ai"
    define tr2 where "tr2 = tick tr1 ?k (os tr1 ?k)"
    define tr3 where "tr3 = tick tr2 ?n (os tr2 ?n)"
    define b where "b = os tr3 ?c"
    define tr4 where "tr4 = tick tr3 ?c b"
    have tr4: "reg tr4 = reg tr" "freed tr4 = freed tr" by (simp_all add: tr4_def tr3_def tr2_def tr1)
    have s2: "sys os ?c (sysc os ?n (sysc os ?k (upd k s tr1 ss))) = (upd k s tr4 ss, b)"
      by (simp add: sys_upd tr2_def[symmetric] tr3_def[symmetric] b_def[symmetric] tr4_def)
    show ?thesis
    proof (cases "\<exists>e. b = AErr e \<and> e \<noteq> EINPROGRESS")
      case True
      then have "connect_loop os (ai # ais) (upd k s tr ss) = connect_loop os ais (sysc os (CClose sock) (upd k s tr4 ss))"
        using sock by (auto simp: s1 s2 simp del: sysc_upd split: errno.split)
      then show ?thesis using Cons.IH[of "tick tr4 (CClose sock) (os tr4 (CClose sock))"] tr4 by simp
    next
      case False
      then have "\<exists>r. connect_loop os (ai # ais) (upd k s tr ss) = (upd k s tr4 ss, r)"
        using sock by (cases b) (auto simp: s1 s2 simp del: sysc_upd)
      then show ?thesis using tr4 by blast
    qed
  next
    case False
    with Cons.IH[of tr1] tr1 show ?thesis by (auto simp: s1 split: answer.split)
  qed
qed

text \<open>What the creating handlers do behind \<open>new_fd\<close>: the slot gets its type, or is given up.\<close>

lemma makes_new:
  assumes "sock_ok s" "reg_ok k s tr" "sk_type s = SOCKET_TYPE_RESERVE" "freed tr1 = freed tr" "sk_high s1 = []" "sk_low s1 = []" "sk_wb_size s1 = 0"
    and "reg tr1 = (if add then insert (sk_fd s1, k) (reg tr) else reg tr)" "t \<notin> {SOCKET_TYPE_INVALID, SOCKET_TYPE_RESERVE}" "add \<longrightarrow> polled t"
    and "sk_fd s' = sk_fd s1" "sk_type s' = t" "sk_high s' = []" "sk_low s' = []" "sk_wb_size s' = 0"
  shows "makes k s tr ss (Some (upd k s' tr1 ss, r))" "neutral c \<Longrightarrow> makes k s tr ss (Some (upd k s' (tick tr1 c x) ss, r))"
proof -
  have k: "keeps k {#} s tr s' tr1"
    by (rule new_keeps[OF assms(1-4)]) (use assms(8-15) in \<open>cases add; simp\<close>)+
  have t: "sk_type s' \<noteq> SOCKET_TYPE_RESERVE" using assms by simp
  show "makes k s tr ss (Some (upd k s' tr1 ss, r))" by (rule makesI[OF refl k t])
  show "makes k s tr ss (Some (upd k s' (tick tr1 c x) ss, r))" if "neutral c" by (rule makesI[OF refl keeps_tick[OF k that] t])
qed

lemma makes_failed:
  assumes "sock_ok s" "reg_ok k s tr" "sk_type s = SOCKET_TYPE_RESERVE" "freed tr1 = freed tr" "sk_high s1 = []" "sk_low s1 = []"
    and "reg tr1 = reg tr"
  shows "makes k s tr ss (Some (upd k (s1\<lparr>sk_type := SOCKET_TYPE_INVALID\<rparr>) tr1 ss, r))"
    and "neutral c \<Longrightarrow> makes k s tr ss (Some (upd k (s1\<lparr>sk_type := SOCKET_TYPE_INVALID\<rparr>) (tick tr1 c x) ss, r))"
proof -
  let ?s = "s1\<lparr>sk_type := SOCKET_TYPE_INVALID\<rparr>"
  have k: "keeps k {#} s tr ?s tr1"
    by (rule new_keeps[OF assms(1-4)]) (use assms in simp_all)
  have t: "sk_type ?s \<noteq> SOCKET_TYPE_RESERVE" by simp
  show "makes k s tr ss (Some (upd k ?s tr1 ss, r))" by (rule makesI[OF refl k t])
  show "makes k s tr ss (Some (upd k ?s (tick tr1 c x) ss, r))" if "neutral c" by (rule makesI[OF refl keeps_tick[OF k that] t])
qed

lemma listen_socket_makes:
  assumes "sock_ok s" "reg_ok k s tr" "sk_type s = SOCKET_TYPE_RESERVE" "k = HASH_ID id'"
  shows "makes k s tr ss (listen_socket os id' fd opaque (upd k s tr ss))"
proof -
  from new_fd_upd[OF assms(1,3,4), of os fd PROTOCOL_TCP opaque False tr ss] obtain s1 tr1 where
    f: "new_fd os id' fd PROTOCOL_TCP opaque False (upd k s tr ss) = Some (upd k s1 tr1 ss, Some k)" "freed tr1 = freed tr"
    "sk_high s1 = []" "sk_low s1 = []" "sk_wb_size s1 = 0" "reg tr1 = reg tr" by auto
  then show ?thesis using makes_new(1)[OF assms(1-3) f(2-5), of False SOCKET_TYPE_PLISTEN]
    by (simp add: listen_socket_def)
qed

lemma bind_socket_makes:
  assumes "sock_ok s" "reg_ok k s tr" "sk_type s = SOCKET_TYPE_RESERVE" "k = HASH_ID id'"
  shows "makes k s tr ss (bind_socket os id' fd opaque (upd k s tr ss))"
proof -
  from new_fd_upd[OF assms(1,3,4), of os fd PROTOCOL_TCP opaque True tr ss] obtain s1 tr1 ok where
    f: "new_fd os id' fd PROTOCOL_TCP opaque True (upd k s tr ss) = Some (upd k s1 tr1 ss, if ok then Some k else None)" "freed tr1 = freed tr"
    "sk_high s1 = []" "sk_low s1 = []" "ok \<Longrightarrow> sk_wb_size s1 = 0" "ok \<Longrightarrow> sk_fd s1 = fd" "ok \<Longrightarrow> reg tr1 = insert (fd, k) (reg tr)"
    "\<not> ok \<Longrightarrow> sk_type s1 = SOCKET_TYPE_INVALID \<and> reg tr1 = reg tr" by auto
  show ?thesis
  proof (cases ok)
    case True
    then show ?thesis using f makes_new(2)[OF assms(1-3) f(2-4) f(5)[OF True], of True SOCKET_TYPE_BIND]
      by (simp add: bind_socket_def polled_def)
  next
    case False
    from f(8)[OF False] have "keeps k {#} s tr s1 tr1" by (intro new_keeps[OF assms(1-3) f(2-4)]) simp
    then show ?thesis using f(1) f(8)[OF False] False by (auto simp: bind_socket_def intro!: makesI)
  qed
qed

lemma add_udp_socket_makes:
  assumes "sock_ok s" "reg_ok k s tr" "sk_type s = SOCKET_TYPE_RESERVE" "k = HASH_ID id'"
  shows "makes k s tr ss (do { ss1 \<leftarrow> add_udp_socket os id' fd v6 opaque (upd k s tr ss); Some (ss1, None) })"
proof -
  define p where "p = (if v6 then PROTOCOL_UDPv6 else PROTOCOL_UDP)"
  from new_fd_upd[OF assms(1,3,4), of os fd p opaque True tr ss] obtain s1 tr1 ok where
    f: "new_fd os id' fd p opaque True (upd k s tr ss) = Some (upd k s1 tr1 ss, if ok then Some k else None)" "freed tr1 = freed tr"
    "sk_high s1 = []" "sk_low s1 = []" "ok \<Longrightarrow> sk_wb_size s1 = 0" "ok \<Longrightarrow> sk_fd s1 = fd" "ok \<Longrightarrow> reg tr1 = insert (fd, k) (reg tr)"
    "\<not> ok \<Longrightarrow> sk_type s1 = SOCKET_TYPE_INVALID \<and> reg tr1 = reg tr" by auto
  show ?thesis
  proof (cases ok)
    case True
    then show ?thesis using f makes_new(1)[OF assms(1-3) f(2-4) f(5)[OF True], of True SOCKET_TYPE_CONNECTED]
      by (simp add: add_udp_socket_def p_def[symmetric] polled_def)
  next
    case False
    then show ?thesis using f(1) f(8)[OF False] makes_failed(2)[OF assms(1-3) f(2-4)]
      by (simp add: add_udp_socket_def p_def[symmetric] assms(4)[symmetric])
  qed
qed

lemma open_socket_makes:
  assumes "sock_ok s" "reg_ok k s tr" "sk_type s = SOCKET_TYPE_RESERVE" "k = HASH_ID id'"
  shows "makes k s tr ss (open_socket os id' port opaque host (upd k s tr ss))"
proof -
  let ?c = "CGetaddrinfo host (fmt_d port)"
  define a where "a = os tr ?c"
  define tr1 where "tr1 = tick tr ?c a"
  have tr1: "reg tr1 = reg tr" "freed tr1 = freed tr" by (simp_all add: tr1_def)
  have sys: "sys os ?c (upd k s tr ss) = (upd k s tr1 ss, a)" by (simp add: sys_upd a_def tr1_def)
  note run = open_socket_def Let_def sys assms(4)[symmetric]
  have lists: "sk_high s = []" "sk_low s = []" using assms(1,3) by (simp_all add: sock_ok_def)
  show ?thesis
  proof (cases "\<exists>ais. a = AAddrs ais")
    case False
    then show ?thesis using makes_failed(1)[OF assms(1-3) tr1(2) lists tr1(1)] by (auto simp: run split: answer.split)
  next
    case True
    then obtain ais where ais: "a = AAddrs ais" by blast
    from connect_loop_upd[of os ais k s tr1 ss] obtain tr2 r where
      c: "connect_loop os ais (upd k s tr1 ss) = (upd k s tr2 ss, r)" and tr2: "reg tr2 = reg tr" "freed tr2 = freed tr" using tr1 by auto
    show ?thesis
    proof (cases r)
      case None
      then show ?thesis using ais c makes_failed(2)[OF assms(1-3) tr2(2) lists tr2(1)] by (simp add: run sys_upd[of os CStrerror])
    next
      case (Some x)
      then obtain sock ai connected where r: "r = Some (sock, ai, connected)" by (cases x) auto
      from new_fd_upd[OF assms(1,3,4), of os sock PROTOCOL_TCP opaque True tr2 ss] tr2 obtain s1 tr3 ok where
        f: "new_fd os id' sock PROTOCOL_TCP opaque True (upd k s tr2 ss) = Some (upd k s1 tr3 ss, if ok then Some k else None)" "freed tr3 = freed tr"
        "sk_high s1 = []" "sk_low s1 = []" "ok \<Longrightarrow> sk_wb_size s1 = 0" "ok \<Longrightarrow> sk_fd s1 = sock" "ok \<Longrightarrow> reg tr3 = insert (sock, k) (reg tr)"
        "\<not> ok \<Longrightarrow> reg tr3 = reg tr" by auto
      show ?thesis
      proof (cases ok)
        case False
        then show ?thesis using ais c r f(1,8) makes_failed(2)[OF assms(1-3) f(2-4)] by (simp add: run)
      next
        case True
        note new = makes_new(2)[OF assms(1-3) f(2-4) f(5)[OF True], of True]
        show ?thesis using True ais c r f new[of SOCKET_TYPE_CONNECTED] new[of SOCKET_TYPE_CONNECTING]
          by (simp add: run polled_def sys_upd[of os "CNtop ai"])
      qed
    qed
  qed
qed

section \<open>Reserving an id\<close>

lemma HASH_ID_mod: "HASH_ID (x mod 2 ^ 31) = HASH_ID x"
proof -
  have "x mod 2 ^ 31 mod 2 ^ 16 = x mod (2 ^ 16 :: int)" by (rule mod_mod_cancel) simp
  then show ?thesis by (simp add: HASH_ID_def MAX_SOCKET_def)
qed

lemma HASH_ID_less [simp]: "HASH_ID x < MAX_SOCKET"
  by (simp add: HASH_ID_def MAX_SOCKET_def nat_less_iff)

lemma next_id:
  assumes "0 \<le> x" "x < 2 ^ 31"
  shows "(let k0 = to_int32 (x + 1) in if k0 < 0 then k0 + 2 ^ 31 else k0) = (x + 1) mod 2 ^ 31"
proof (cases "x + 1 = 2 ^ 31")
  case True
  then show ?thesis by (simp add: to_int32_def)
next
  case False
  then show ?thesis using assms by (simp add: to_int32_def)
qed

definition reserved :: "int \<Rightarrow> socket_server \<Rightarrow> socket_server" where
  "reserved k ss = ss\<lparr>ss_alloc_id := k, ss_slot := (ss_slot ss)(HASH_ID k :=
     ss_slot ss (HASH_ID k)\<lparr>sk_type := SOCKET_TYPE_RESERVE, sk_id := k, sk_fd := -1\<rparr>)\<rparr>"

text \<open>The ids are tried in turn, modulo \<open>2\<^sup>3\<^sup>1\<close>, until the slot of one is free.\<close>

lemma reserve_loop_ids:
  assumes "0 \<le> ss_alloc_id ss" "ss_alloc_id ss < 2 ^ 31"
  shows "(\<exists>i. 1 \<le> i \<and> i \<le> int n \<and> reserve_loop n ss = (reserved ((ss_alloc_id ss + i) mod 2 ^ 31) ss, (ss_alloc_id ss + i) mod 2 ^ 31)
       \<and> sk_type (ss_slot ss (HASH_ID (ss_alloc_id ss + i))) = SOCKET_TYPE_INVALID
       \<and> (\<forall>j. 1 \<le> j \<and> j < i \<longrightarrow> sk_type (ss_slot ss (HASH_ID (ss_alloc_id ss + j))) \<noteq> SOCKET_TYPE_INVALID))
     \<or> reserve_loop n ss = (ss\<lparr>ss_alloc_id := (ss_alloc_id ss + int n) mod 2 ^ 31\<rparr>, -1)
       \<and> (\<forall>j. 1 \<le> j \<and> j \<le> int n \<longrightarrow> sk_type (ss_slot ss (HASH_ID (ss_alloc_id ss + j))) \<noteq> SOCKET_TYPE_INVALID)"
  using assms
proof (induction n arbitrary: ss)
  case 0
  then have "ss = ss\<lparr>ss_alloc_id := ss_alloc_id ss mod 2 ^ 31\<rparr>" by simp
  then show ?case by (intro disjI2) auto
next
  case (Suc n)
  define x where "x = ss_alloc_id ss"
  define k where "k = (x + 1) mod 2 ^ 31"
  define ss1 where "ss1 = ss\<lparr>ss_alloc_id := k\<rparr>"
  have hash: "HASH_ID k = HASH_ID (x + 1)" "HASH_ID (k + j) = HASH_ID (x + (j + 1))" for j
  proof -
    show "HASH_ID k = HASH_ID (x + 1)" by (simp only: k_def HASH_ID_mod)
    have "HASH_ID (k + j) = HASH_ID ((k + j) mod 2 ^ 31)" by (simp only: HASH_ID_mod)
    also have "(k + j) mod 2 ^ 31 = (x + (j + 1)) mod 2 ^ 31" by (simp add: k_def mod_simps algebra_simps)
    finally show "HASH_ID (k + j) = HASH_ID (x + (j + 1))" by (simp only: HASH_ID_mod)
  qed
  have kj: "(k + j) mod 2147483648 = (x + (j + 1)) mod 2147483648" for j by (simp add: k_def mod_simps algebra_simps)
  have k: "(if to_int32 (x + 1) < 0 then to_int32 (x + 1) + 2 ^ 31 else to_int32 (x + 1)) = k"
    using next_id[OF Suc.prems] unfolding k_def x_def Let_def .
  have step: "reserve_loop (Suc n) ss =
      (if sk_type (ss_slot ss (HASH_ID k)) = SOCKET_TYPE_INVALID then (reserved k ss, k) else reserve_loop n ss1)"
    unfolding reserve_loop.simps Let_def x_def[symmetric] k by (simp add: reserved_def ss1_def)
  show ?case
  proof (cases "sk_type (ss_slot ss (HASH_ID k)) = SOCKET_TYPE_INVALID")
    case True
    then show ?thesis unfolding step x_def[symmetric] hash(1) by (intro disjI1 exI[of _ 1]) (auto simp: k_def hash)
  next
    case False
    have bound: "0 \<le> ss_alloc_id ss1" "ss_alloc_id ss1 < 2 ^ 31" by (simp_all add: ss1_def k_def)
    have first: "sk_type (ss_slot ss (HASH_ID (x + 1))) \<noteq> SOCKET_TYPE_INVALID" using False hash by simp
    have all: "(\<forall>j. 1 \<le> j \<and> j < i \<longrightarrow> sk_type (ss_slot ss (HASH_ID (x + (j + 1)))) \<noteq> SOCKET_TYPE_INVALID) \<Longrightarrow>
        (\<forall>j. 1 \<le> j \<and> j < i + 1 \<longrightarrow> sk_type (ss_slot ss (HASH_ID (x + j))) \<noteq> SOCKET_TYPE_INVALID)" for i
    proof (intro allI impI)
      fix j
      assume a: "\<forall>j. 1 \<le> j \<and> j < i \<longrightarrow> sk_type (ss_slot ss (HASH_ID (x + (j + 1)))) \<noteq> SOCKET_TYPE_INVALID" and j: "1 \<le> j \<and> j < i + 1"
      show "sk_type (ss_slot ss (HASH_ID (x + j))) \<noteq> SOCKET_TYPE_INVALID"
        using a[rule_format, of "j - 1"] j first by (cases "j = 1") auto
    qed
    have res: "reserved m ss1 = reserved m ss" "ss_alloc_id ss1 = k" "ss_slot ss1 = ss_slot ss" for m by (simp_all add: reserved_def ss1_def)
    from Suc.IH[OF bound] show ?thesis
    proof (elim disjE exE conjE)
      fix i
      assume "1 \<le> i" "i \<le> int n" "reserve_loop n ss1 = (reserved ((ss_alloc_id ss1 + i) mod 2 ^ 31) ss1, (ss_alloc_id ss1 + i) mod 2 ^ 31)"
        "sk_type (ss_slot ss1 (HASH_ID (ss_alloc_id ss1 + i))) = SOCKET_TYPE_INVALID"
        "\<forall>j. 1 \<le> j \<and> j < i \<longrightarrow> sk_type (ss_slot ss1 (HASH_ID (ss_alloc_id ss1 + j))) \<noteq> SOCKET_TYPE_INVALID"
      then show ?thesis
        using all[of i] unfolding step if_not_P[OF False] x_def[symmetric]
        by (intro disjI1 exI[of _ "i + 1"]) (simp_all add: res hash kj)
    next
      assume "reserve_loop n ss1 = (ss1\<lparr>ss_alloc_id := (ss_alloc_id ss1 + int n) mod 2 ^ 31\<rparr>, -1)"
        "\<forall>j. 1 \<le> j \<and> j \<le> int n \<longrightarrow> sk_type (ss_slot ss1 (HASH_ID (ss_alloc_id ss1 + j))) \<noteq> SOCKET_TYPE_INVALID"
      then show ?thesis
        using all[of "int n + 1"] unfolding step if_not_P[OF False] x_def[symmetric]
        by (intro disjI2) (simp add: res hash kj add.commute[of 1], simp add: ss1_def)
    qed
  qed
qed

lemma HASH_ID_onto:
  assumes "k < MAX_SOCKET"
  shows "\<exists>j. 1 \<le> j \<and> j \<le> int MAX_SOCKET \<and> HASH_ID (x + j) = k"
proof -
  let ?m = "int MAX_SOCKET" and ?j = "(int k - x - 1) mod int MAX_SOCKET + 1"
  have m: "?m > 0" by (simp add: MAX_SOCKET_def)
  have "(x + ?j) mod ?m = ((x + 1) + (int k - x - 1)) mod ?m"
    by (metis (no_types, lifting) add.commute add.left_commute mod_add_right_eq)
  also have "\<dots> = int k" using assms by simp
  finally have "HASH_ID (x + ?j) = k" by (simp add: HASH_ID_def)
  moreover have "1 \<le> ?j" "?j \<le> ?m" using pos_mod_sign[OF m] pos_mod_bound[OF m] by (simp_all add: add1_zle_eq)
  ultimately show ?thesis by blast
qed

text \<open>C16: \<open>reserve_id\<close> finds a free slot whenever there is one: for every value of the counter the id
  is one of the next 65536, taken modulo \<open>2\<^sup>3\<^sup>1\<close> and so not negative, its slot was free and every slot tried
  before it was in use; the slot is reserved under this id and nothing else of the state changes but the counter.  It fails, with -1, only when all 65536 slots
  are in use.\<close>

theorem reserve_id_correct:
  assumes "0 \<le> ss_alloc_id ss" "ss_alloc_id ss < 2 ^ 31"
  shows "if \<exists>k < MAX_SOCKET. sk_type (ss_slot ss k) = SOCKET_TYPE_INVALID
     then \<exists>i. 1 \<le> i \<and> i \<le> int MAX_SOCKET
       \<and> reserve_id ss = (reserved ((ss_alloc_id ss + i) mod 2 ^ 31) ss, (ss_alloc_id ss + i) mod 2 ^ 31)
       \<and> sk_type (ss_slot ss (HASH_ID (ss_alloc_id ss + i))) = SOCKET_TYPE_INVALID
       \<and> (\<forall>j. 1 \<le> j \<and> j < i \<longrightarrow> sk_type (ss_slot ss (HASH_ID (ss_alloc_id ss + j))) \<noteq> SOCKET_TYPE_INVALID)
     else reserve_id ss = (ss\<lparr>ss_alloc_id := (ss_alloc_id ss + int MAX_SOCKET) mod 2 ^ 31\<rparr>, -1)"
proof (cases "\<exists>k < MAX_SOCKET. sk_type (ss_slot ss k) = SOCKET_TYPE_INVALID")
  case True
  then obtain j where "1 \<le> j \<and> j \<le> int MAX_SOCKET" "sk_type (ss_slot ss (HASH_ID (ss_alloc_id ss + j))) = SOCKET_TYPE_INVALID"
    using HASH_ID_onto by metis
  with reserve_loop_ids[OF assms, of MAX_SOCKET] show ?thesis unfolding if_P[OF True] reserve_id_def by blast
next
  case False
  then have "sk_type (ss_slot ss (HASH_ID x)) \<noteq> SOCKET_TYPE_INVALID" for x by simp
  with reserve_loop_ids[OF assms, of MAX_SOCKET] show ?thesis unfolding if_not_P[OF False] reserve_id_def by blast
qed

theorem reserve_id_correct_witness:
  "let ss = \<lparr>ss_recvctrl_fd = 3, ss_sendctrl_fd = 4, ss_checkctrl = True, ss_alloc_id = 2 ^ 31 - 1, ss_event_n = 0, ss_event_index = 0,
        ss_ev = [], ss_slot = (\<lambda>k. if k < 2 then socket0\<lparr>sk_type := SOCKET_TYPE_CONNECTED\<rparr> else socket0), ss_pipe = [], ss_trace = []\<rparr>
   in snd (reserve_id ss) = 2"
proof -
  define ss where "ss = \<lparr>ss_recvctrl_fd = 3, ss_sendctrl_fd = 4, ss_checkctrl = True, ss_alloc_id = 2 ^ 31 - 1, ss_event_n = 0, ss_event_index = 0,
        ss_ev = [], ss_slot = (\<lambda>k. if k < 2 then socket0\<lparr>sk_type := SOCKET_TYPE_CONNECTED\<rparr> else socket0), ss_pipe = [], ss_trace = []\<rparr>"
  have a: "0 \<le> ss_alloc_id ss" "ss_alloc_id ss < 2 ^ 31" by (simp_all add: ss_def)
  have t: "sk_type (ss_slot ss k) = (if k < 2 then SOCKET_TYPE_CONNECTED else SOCKET_TYPE_INVALID)" for k
    by (simp add: ss_def socket0_def)
  have "\<exists>k < MAX_SOCKET. sk_type (ss_slot ss k) = SOCKET_TYPE_INVALID" by (intro exI[of _ 2]) (simp add: t MAX_SOCKET_def)
  with reserve_id_correct[OF a] obtain i where i: "1 \<le> i" "snd (reserve_id ss) = (ss_alloc_id ss + i) mod 2 ^ 31"
    "sk_type (ss_slot ss (HASH_ID (ss_alloc_id ss + i))) = SOCKET_TYPE_INVALID"
    "\<And>j. 1 \<le> j \<Longrightarrow> j < i \<Longrightarrow> sk_type (ss_slot ss (HASH_ID (ss_alloc_id ss + j))) \<noteq> SOCKET_TYPE_INVALID" by auto
  have h: "HASH_ID (ss_alloc_id ss + 1) = 0" "HASH_ID (ss_alloc_id ss + 2) = 1" "HASH_ID (ss_alloc_id ss + 3) = 2"
    by (simp_all add: ss_def HASH_ID_def MAX_SOCKET_def)
  have "i \<noteq> 1" "i \<noteq> 2" using i(3) h by (auto simp: t)
  moreover have "\<not> 3 < i" using i(4)[of 3] h by (auto simp: t)
  ultimately have "i = 3" using i(1) by linarith
  then have "snd (reserve_id ss) = 2" using i(2) by (simp add: ss_def)
  then show ?thesis by (simp add: ss_def Let_def)
qed

end
