(* ===== verification/SocketReach.thy ===== *)
theory SocketReach
  imports SocketInv
begin

text \<open>
  The states the socket server can reach: a turn of the loop of \<open>socket_server_poll\<close> or a call of
  another thread is one step.  An invariant shows that no assertion of the socket thread fails, that \<open>wb_size\<close> is the number of bytes
  that wait, and that every buffer that was handed over is released once.
\<close>

section \<open>Requests\<close>

definition about :: "request \<Rightarrow> int option" where
  "about r = (case r of RStart i _ \<Rightarrow> Some i | RBind i _ _ \<Rightarrow> Some i | RListen i _ _ \<Rightarrow> Some i | RClose i _ _ \<Rightarrow> Some i
     | ROpen i _ _ _ \<Rightarrow> Some i | RExit \<Rightarrow> None | RSend _ i _ \<Rightarrow> Some i | RSendUdp i _ _ \<Rightarrow> Some i | RSetUdp i _ \<Rightarrow> Some i
     | RSetopt i _ _ \<Rightarrow> Some i | RUdp i _ _ _ \<Rightarrow> Some i)"

text \<open>The requests that create a socket.\<close>

definition creator :: "request \<Rightarrow> bool" where
  "creator r = (case r of RBind _ _ _ \<Rightarrow> True | RListen _ _ _ \<Rightarrow> True | ROpen _ _ _ _ \<Rightarrow> True | RUdp _ _ _ _ \<Rightarrow> True | _ \<Rightarrow> False)"

definition request_ok :: "request \<Rightarrow> bool" where
  "request_ok r = (case r of RSend p _ b \<Rightarrow> send_ok p b | RSetUdp _ a \<Rightarrow> a ! 0 \<noteq> 0 | _ \<Rightarrow> True)"

text \<open>The buffer in a request.\<close>

definition carried :: "request \<Rightarrow> (bool \<times> addr) multiset" where
  "carried r = (case r of RSend _ _ b \<Rightarrow> {#so_id b#} | RSendUdp _ b _ \<Rightarrow> {#so_id b#} | _ \<Rightarrow> {#})"

lemmas request_defs = about_def creator_def request_ok_def carried_def

section \<open>The invariant\<close>

definition table_ok :: "socket_server \<Rightarrow> bool" where
  "table_ok ss \<longleftrightarrow> (\<forall>k. sock_ok (ss_slot ss k) \<and> reg_ok k (ss_slot ss k) (ss_trace ss))
     \<and> (\<forall>k \<ge> MAX_SOCKET. sk_type (ss_slot ss k) = SOCKET_TYPE_INVALID)"

text \<open>The id a reserved slot waits for.\<close>

definition waiting :: "socket \<Rightarrow> int option" where
  "waiting s = (if sk_type s = SOCKET_TYPE_RESERVE then Some (sk_id s) else None)"

text \<open>A slot is reserved exactly while the request that will use it is in the pipe, and no request before that one is
  about the same id.\<close>

definition pipe_wf :: "(nat \<Rightarrow> int option) \<Rightarrow> int \<Rightarrow> request list \<Rightarrow> bool" where
  "pipe_wf w n rs \<longleftrightarrow> (\<forall>r \<in> set rs. request_ok r \<and> (\<forall>i. about r = Some i \<longrightarrow> i \<le> n)
        \<and> (creator r \<longrightarrow> (\<exists>i. about r = Some i \<and> w (HASH_ID i) = Some i)))
     \<and> sorted_wrt (\<lambda>q r. creator r \<longrightarrow> about q \<noteq> about r) rs
     \<and> (\<forall>k i. w k = Some i \<longrightarrow> HASH_ID i = k \<and> (\<exists>r \<in> set rs. creator r \<and> about r = Some i))"

definition pipe_ok :: "socket_server \<Rightarrow> bool" where
  "pipe_ok ss \<longleftrightarrow> 0 \<le> ss_alloc_id ss \<and> ss_alloc_id ss < 2 ^ 31 \<and> pipe_wf (waiting \<circ> ss_slot ss) (ss_alloc_id ss) (ss_pipe ss)"

text \<open>The events that are left are for different sockets, all of them in the poll set.\<close>

definition events_left :: "socket_server \<Rightarrow> nat list" where
  "events_left ss = event_slots (drop (ss_event_index ss) (ss_ev ss))"

definition events_ok :: "socket_server \<Rightarrow> bool" where
  "events_ok ss \<longleftrightarrow> ss_event_n ss = length (ss_ev ss) \<and> ss_event_index ss \<le> length (ss_ev ss)
     \<and> distinct (events_left ss) \<and> (\<forall>k \<in> set (events_left ss). polled (sk_type (ss_slot ss k)))"

text \<open>The buffers that were handed over: released, on a list of a socket, or in the pipe.\<close>

definition accounted :: "socket_server \<Rightarrow> (bool \<times> addr) multiset" where
  "accounted ss = freed (ss_trace ss) + (\<Sum>k<MAX_SOCKET. held (ss_slot ss k)) + sum_list (map carried (ss_pipe ss))"

definition server_ok :: "(bool \<times> addr) multiset \<Rightarrow> socket_server \<Rightarrow> bool" where
  "server_ok G ss \<longleftrightarrow> table_ok ss \<and> pipe_ok ss \<and> events_ok ss \<and> accounted ss = G"

section \<open>One slot changes\<close>

lemma table_ok_upd:
  assumes "table_ok ss" "k < MAX_SOCKET" "keeps k B (ss_slot ss k) (ss_trace ss) s' tr'"
  shows "table_ok (upd k s' tr' ss)"
proof -
  have "sock_ok (ss_slot (upd k s' tr' ss) j) \<and> reg_ok j (ss_slot (upd k s' tr' ss) j) tr'" for j
  proof (cases "j = k")
    case False
    then have "\<forall>fd. (fd, j) \<in> reg tr' \<longrightarrow> (fd, j) \<in> reg (ss_trace ss)" using assms(3) by (simp add: keeps_def)
    moreover have "sock_ok (ss_slot ss j)" "reg_ok j (ss_slot ss j) (ss_trace ss)" using assms(1) by (simp_all add: table_ok_def)
    ultimately show ?thesis using False by (auto simp: reg_ok_def)
  qed (use assms(3) in \<open>simp add: keeps_def\<close>)
  then show ?thesis using assms(1,2) by (auto simp: table_ok_def)
qed

lemma accounted_upd:
  assumes "k < MAX_SOCKET" "keeps k B (ss_slot ss k) (ss_trace ss) s' tr'"
  shows "accounted (upd k s' tr' ss) = accounted ss + B"
proof -
  let ?rest = "\<Sum>j\<in>{..<MAX_SOCKET} - {k}. held (ss_slot ss j)"
  have split: "(\<Sum>j<MAX_SOCKET. f j) = f k + (\<Sum>j\<in>{..<MAX_SOCKET} - {k}. f j)" for f :: "nat \<Rightarrow> (bool \<times> addr) multiset"
    using assms(1) by (intro sum.remove) simp_all
  have "(\<Sum>j<MAX_SOCKET. held (ss_slot (upd k s' tr' ss) j)) = held s' + ?rest" by (simp add: split)
  moreover have "(\<Sum>j<MAX_SOCKET. held (ss_slot ss j)) = held (ss_slot ss k) + ?rest" by (rule split)
  moreover have "freed tr' + held s' = freed (ss_trace ss) + held (ss_slot ss k) + B" using assms(2) by (simp add: keeps_def)
  ultimately show ?thesis by (simp add: accounted_def ac_simps)
qed

text \<open>For the pipe only reserved slots matter.\<close>

lemma waiting_upd: "waiting s' = waiting (ss_slot ss k) \<Longrightarrow> waiting \<circ> ss_slot (upd k s' tr' ss) = waiting \<circ> ss_slot ss"
  by (auto simp: fun_eq_iff)

lemma pipe_ok_upd: "pipe_ok ss \<Longrightarrow> waiting s' = waiting (ss_slot ss k) \<Longrightarrow> pipe_ok (upd k s' tr' ss)"
  unfolding pipe_ok_def by (simp only: waiting_upd) simp

lemma reports_waiting: "reports s s' r \<Longrightarrow> waiting s' = waiting s"
  by (simp add: reports_def waiting_def)

lemma events_ok_upd:
  assumes "events_ok ss" "k \<in> set (events_left ss) \<longrightarrow> polled (sk_type s')"
  shows "events_ok (upd k s' tr' ss)"
  using assms by (auto simp: events_ok_def events_left_def)

lemma event_slots_simps [simp]:
  "event_slots [] = []" "event_slots (e # es) = (case ev_s e of None \<Rightarrow> event_slots es | Some k \<Rightarrow> k # event_slots es)"
  by (simp_all add: event_slots_def map_filter_simps split: option.split)

text \<open>Of the events that are left, at most the one of the socket that was closed is for a socket outside the poll set, and this one is
  removed.\<close>

lemma clear_events_ok:
  assumes "distinct (event_slots es)"
    and "\<forall>j \<in> set (event_slots es). polled (sk_type (slot j)) \<or> j = k \<and> sk_type (slot k) = SOCKET_TYPE_INVALID \<and> sk_id (slot k) = id'"
  shows "distinct (event_slots (clear_events slot id' es)) \<and> set (event_slots (clear_events slot id' es)) \<subseteq> set (event_slots es)
    \<and> (\<forall>j \<in> set (event_slots (clear_events slot id' es)). polled (sk_type (slot j)))"
  using assms
proof (induction es)
  case (Cons e es)
  show ?case
  proof (cases "ev_s e")
    case None
    then show ?thesis using Cons by simp
  next
    case (Some j)
    then have d: "j \<notin> set (event_slots es)" "distinct (event_slots es)" using Cons.prems(1) by auto
    from Cons.prems(2) Some have rest: "\<forall>i \<in> set (event_slots es). polled (sk_type (slot i)) \<or> i = k \<and> sk_type (slot k) = SOCKET_TYPE_INVALID \<and> sk_id (slot k) = id'"
      by simp
    note ih = Cons.IH[OF d(2) rest]
    show ?thesis
    proof (cases "sk_type (slot j) = SOCKET_TYPE_INVALID \<and> sk_id (slot j) = id'")
      case True
      then have "j = k" using Cons.prems(2) Some by (auto simp: polled_def)
      then have "\<forall>i \<in> set (event_slots es). polled (sk_type (slot i))" using rest d(1) by blast
      then show ?thesis using True Some d by auto
    next
      case False
      then have "polled (sk_type (slot j))" using Cons.prems(2) Some by auto
      then show ?thesis using False Some ih d by auto
    qed
  qed
qed simp

lemma length_clear_events [simp]: "length (clear_events slot id' es) = length es"
  by (induction es) (auto split: option.split)

lemma clear_closed_event_simps [simp]:
  "ss_slot (clear_closed_event t m ss) = ss_slot ss" "ss_trace (clear_closed_event t m ss) = ss_trace ss"
  "ss_pipe (clear_closed_event t m ss) = ss_pipe ss" "ss_alloc_id (clear_closed_event t m ss) = ss_alloc_id ss"
  by (simp_all add: clear_closed_event_def)

text \<open>The end of a request in \<open>socket_server_poll\<close>.\<close>

definition finish :: "handled \<Rightarrow> socket_server \<Rightarrow> socket_server" where
  "finish r ss = (case r of None \<Rightarrow> ss | Some tm \<Rightarrow> clear_closed_event (fst tm) (snd tm) ss)"

lemma finish_simps [simp]:
  "ss_slot (finish r ss) = ss_slot ss" "ss_trace (finish r ss) = ss_trace ss"
  "ss_pipe (finish r ss) = ss_pipe ss" "ss_alloc_id (finish r ss) = ss_alloc_id ss"
  by (cases r; simp add: finish_def)+

lemma finish_ok [simp]:
  "table_ok (finish r ss) = table_ok ss" "pipe_ok (finish r ss) = pipe_ok ss" "accounted (finish r ss) = accounted ss"
  by (simp_all add: table_ok_def pipe_ok_def accounted_def)

lemma finish_events:
  assumes "events_ok ss" "k \<in> set (events_left ss) \<longrightarrow> reports (ss_slot ss k) s' r"
  shows "events_ok (finish r (upd k s' tr' ss))"
proof -
  let ?es = "drop (ss_event_index ss) (ss_ev ss)" and ?slot = "(ss_slot ss)(k := s')"
  have d: "distinct (event_slots ?es)" "\<forall>j \<in> set (event_slots ?es). polled (sk_type (ss_slot ss j))"
    using assms(1) by (simp_all add: events_ok_def events_left_def)
  show ?thesis
  proof (cases "closing r")
    case False
    then have "k \<in> set (events_left ss) \<longrightarrow> polled (sk_type (ss_slot ss k)) \<longrightarrow> polled (sk_type s')"
      using assms(2) by (auto simp: reports_def)
    then have "events_ok (upd k s' tr' ss)" using d by (intro events_ok_upd[OF assms(1)]) (auto simp: events_left_def)
    with False show ?thesis by (auto simp: finish_def clear_closed_event_def closing_def split: option.split)
  next
    case True
    then obtain t m where r: "r = Some (t, m)" "t = SOCKET_CLOSE \<or> t = SOCKET_ERROR" by (cases r) (auto simp: closing_def)
    have "\<forall>j \<in> set (event_slots ?es). polled (sk_type (?slot j)) \<or> j = k \<and> sk_type (?slot k) = SOCKET_TYPE_INVALID \<and> sk_id (?slot k) = rm_id m"
      using d(2) assms(2) r by (auto simp: reports_def events_left_def)
    with clear_events_ok[OF d(1), of ?slot k "rm_id m"] have c: "distinct (event_slots (clear_events ?slot (rm_id m) ?es))"
      "\<forall>j \<in> set (event_slots (clear_events ?slot (rm_id m) ?es)). polled (sk_type (?slot j))" by blast+
    have "ss_event_index ss \<le> length (ss_ev ss)" "ss_event_n ss = length (ss_ev ss)" using assms(1) by (simp_all add: events_ok_def)
    with c r show ?thesis by (simp add: finish_def clear_closed_event_def events_ok_def events_left_def)
  qed
qed

text \<open>A request about an existing socket.\<close>

lemma handles_server:
  assumes "table_ok ss" "pipe_ok ss" "events_ok ss" "accounted ss + B = G" "k < MAX_SOCKET"
    and "handles k B (ss_slot ss k) (ss_trace ss) ss f"
  shows "\<exists>ss' r. f = Some (ss', r) \<and> server_ok G (finish r ss')"
proof -
  from assms(6) obtain s' tr' r where f: "f = Some (upd k s' tr' ss, r)" "keeps k B (ss_slot ss k) (ss_trace ss) s' tr'" "reports (ss_slot ss k) s' r"
    by (auto simp: handles_def)
  have "server_ok G (finish r (upd k s' tr' ss))"
    using table_ok_upd[OF assms(1,5) f(2)] pipe_ok_upd[OF assms(2) reports_waiting[OF f(3)]] finish_events[OF assms(3)] f(3)
      accounted_upd[OF assms(5) f(2)] assms(4) by (simp add: server_ok_def)
  with f(1) show ?thesis by blast
qed

text \<open>A request that creates a socket.\<close>

lemma makes_server:
  assumes "table_ok ss" "events_ok ss" "accounted ss = G" "k < MAX_SOCKET" "sk_type (ss_slot ss k) = SOCKET_TYPE_RESERVE"
    and "0 \<le> ss_alloc_id ss" "ss_alloc_id ss < 2 ^ 31" "pipe_wf ((waiting \<circ> ss_slot ss)(k := None)) (ss_alloc_id ss) (ss_pipe ss)"
    and "makes k (ss_slot ss k) (ss_trace ss) ss f"
  shows "\<exists>ss' r. f = Some (ss', r) \<and> server_ok G (finish r ss')"
proof -
  from assms(9) obtain s' tr' r where f: "f = Some (upd k s' tr' ss, r)" "keeps k {#} (ss_slot ss k) (ss_trace ss) s' tr'" "sk_type s' \<noteq> SOCKET_TYPE_RESERVE"
    by (auto simp: makes_def)
  have "k \<notin> set (events_left ss)" using assms(2,5) by (auto simp: events_ok_def polled_def)
  then have "events_ok (finish r (upd k s' tr' ss))" using finish_events[OF assms(2)] by blast
  moreover have "waiting \<circ> ss_slot (upd k s' tr' ss) = (waiting \<circ> ss_slot ss)(k := None)"
    using f(3) by (auto simp: fun_eq_iff waiting_def)
  with assms(6-8) have "pipe_ok (upd k s' tr' ss)" unfolding pipe_ok_def by (simp only: upd_simps(3,4))
  ultimately have "server_ok G (finish r (upd k s' tr' ss))"
    using table_ok_upd[OF assms(1,4) f(2)] accounted_upd[OF assms(4) f(2)] assms(3) by (simp add: server_ok_def)
  with f(1) show ?thesis by blast
qed

lemma pipe_wfD:
  assumes "pipe_wf w n rs"
  shows "r \<in> set rs \<Longrightarrow> request_ok r" "r \<in> set rs \<Longrightarrow> about r = Some i \<Longrightarrow> i \<le> n"
    and "r \<in> set rs \<Longrightarrow> creator r \<Longrightarrow> \<exists>i. about r = Some i \<and> w (HASH_ID i) = Some i"
    and "sorted_wrt (\<lambda>q r. creator r \<longrightarrow> about q \<noteq> about r) rs" "w k = Some i \<Longrightarrow> HASH_ID i = k"
    and "w k = Some i \<Longrightarrow> \<exists>r \<in> set rs. creator r \<and> about r = Some i"
  using assms unfolding pipe_wf_def by blast+

lemma pipe_wf_pop:
  assumes "pipe_wf w n (r # rs)" "\<not> creator r"
  shows "pipe_wf w n rs" "about r = Some i \<Longrightarrow> w (HASH_ID i) \<noteq> Some i"
proof -
  note d = pipe_wfD[OF assms(1)]
  have src: "\<exists>q \<in> set rs. creator q \<and> about q = Some i" if "w k = Some i" for k i
  proof -
    from d(6)[OF that] obtain q where "q \<in> set (r # rs)" "creator q" "about q = Some i" by blast
    with assms(2) show ?thesis by (cases "q = r") auto
  qed
  show "pipe_wf w n rs"
    unfolding pipe_wf_def
  proof (intro conjI ballI allI impI)
    fix q
    assume "q \<in> set rs"
    then have q: "q \<in> set (r # rs)" by simp
    show "request_ok q" by (rule d(1)[OF q])
    show "i \<le> n" if "about q = Some i" for i by (rule d(2)[OF q that])
    show "\<exists>i. about q = Some i \<and> w (HASH_ID i) = Some i" if "creator q" by (rule d(3)[OF q that])
  next
    show "sorted_wrt (\<lambda>q r. creator r \<longrightarrow> about q \<noteq> about r) rs" using d(4) by simp
  next
    fix k i
    assume w: "w k = Some i"
    show "HASH_ID i = k" by (rule d(5)[OF w])
    show "\<exists>r \<in> set rs. creator r \<and> about r = Some i" by (rule src[OF w])
  qed
  show "w (HASH_ID i) \<noteq> Some i" if "about r = Some i"
  proof
    assume "w (HASH_ID i) = Some i"
    from src[OF this] obtain q where "q \<in> set rs" "creator q" "about q = Some i" by blast
    with d(4) that show False by auto
  qed
qed

lemma pipe_wf_create:
  assumes "pipe_wf w n (r # rs)" "creator r"
  shows "\<exists>i. about r = Some i \<and> w (HASH_ID i) = Some i \<and> pipe_wf (w(HASH_ID i := None)) n rs"
proof -
  note d = pipe_wfD[OF assms(1)]
  from d(3)[of r] assms(2) obtain i where i: "about r = Some i" "w (HASH_ID i) = Some i" by auto
  have "pipe_wf (w(HASH_ID i := None)) n rs"
    unfolding pipe_wf_def
  proof (intro conjI ballI allI impI)
    fix q
    assume q': "q \<in> set rs"
    then have q: "q \<in> set (r # rs)" by simp
    show "request_ok q" by (rule d(1)[OF q])
    show "j \<le> n" if "about q = Some j" for j by (rule d(2)[OF q that])
    show "\<exists>j. about q = Some j \<and> (w(HASH_ID i := None)) (HASH_ID j) = Some j" if c: "creator q"
    proof -
      from d(3)[OF q c] obtain j where j: "about q = Some j" "w (HASH_ID j) = Some j" by blast
      have "about r \<noteq> about q" using d(4) q' c by simp
      with i j have "HASH_ID j \<noteq> HASH_ID i" by auto
      with j show ?thesis by simp
    qed
  next
    show "sorted_wrt (\<lambda>q r. creator r \<longrightarrow> about q \<noteq> about r) rs" using d(4) by simp
  next
    fix k j
    assume "(w(HASH_ID i := None)) k = Some j"
    then have w: "w k = Some j" "k \<noteq> HASH_ID i" by (auto split: if_splits)
    show h: "HASH_ID j = k" by (rule d(5)[OF w(1)])
    from d(6)[OF w(1)] obtain q where "q \<in> set (r # rs)" "creator q" "about q = Some j" by blast
    with i w(2) h show "\<exists>r \<in> set rs. creator r \<and> about r = Some j" by (cases "q = r") auto
  qed
  with i show ?thesis by blast
qed

text \<open>The request at the head of the pipe.\<close>

lemma ctrl_cmd_server:
  assumes os: "os_sane os" and ok: "server_ok G ss0" and ne: "ss_pipe ss0 \<noteq> []"
  shows "\<exists>ss' r. ctrl_cmd os ss0 = Some (ss', r) \<and> server_ok G (finish r ss')"
proof -
  from ne obtain q rest where pipe: "ss_pipe ss0 = q # rest" by (cases "ss_pipe ss0") auto
  define ss where "ss = ss0\<lparr>ss_pipe := rest\<rparr>"
  have "table_ok ss" "events_ok ss" using ok by (simp_all add: server_ok_def ss_def table_ok_def events_ok_def events_left_def)
  have acc: "accounted ss + carried q = G" using ok pipe by (simp add: server_ok_def ss_def accounted_def ac_simps)
  have wf: "pipe_wf (waiting \<circ> ss_slot ss) (ss_alloc_id ss) (q # rest)" "0 \<le> ss_alloc_id ss" "ss_alloc_id ss < 2 ^ 31"
    using ok pipe by (simp_all add: server_ok_def pipe_ok_def ss_def)
  have rq: "request_ok q" using wf(1) by (simp add: pipe_wf_def)
  have sk: "sock_ok (ss_slot ss k)" "reg_ok k (ss_slot ss k) (ss_trace ss)" for k using \<open>table_ok ss\<close> by (simp_all add: table_ok_def)
  note self = upd_intros(1)[of ss]
  show ?thesis
  proof (cases "creator q")
    case True
    from pipe_wf_create[OF wf(1) True] obtain i where i: "about q = Some i" "(waiting \<circ> ss_slot ss) (HASH_ID i) = Some i"
      "pipe_wf ((waiting \<circ> ss_slot ss)(HASH_ID i := None)) (ss_alloc_id ss) (ss_pipe ss)" by (auto simp: ss_def)
    let ?k = "HASH_ID i"
    have res: "sk_type (ss_slot ss ?k) = SOCKET_TYPE_RESERVE" using i(2) by (auto simp: waiting_def split: if_splits)
    have "makes ?k (ss_slot ss ?k) (ss_trace ss) ss (ctrl_cmd os ss0)"
      using True i(1) open_socket_makes[OF sk res refl, of ss os] listen_socket_makes[OF sk res refl, of ss os]
        bind_socket_makes[OF sk res refl, of ss os] add_udp_socket_makes[OF sk res refl, of ss os]
      unfolding self[symmetric] by (cases q) (auto simp: ctrl_cmd_def pipe ss_def[symmetric] Let_def creator_def about_def)
    moreover have "accounted ss = G" using acc True by (cases q) (auto simp: carried_def creator_def)
    ultimately show ?thesis
      using makes_server[OF \<open>table_ok ss\<close> \<open>events_ok ss\<close> _ HASH_ID_less res wf(2,3) i(3)] by blast
  next
    case False
    have po: "pipe_ok ss" using pipe_wf_pop(1)[OF wf(1) False] wf(2,3) by (simp add: pipe_ok_def ss_def)
    have nres: "sk_id (ss_slot ss (HASH_ID i)) = i \<longrightarrow> sk_type (ss_slot ss (HASH_ID i)) \<noteq> SOCKET_TYPE_RESERVE" if "about q = Some i" for i
      using pipe_wf_pop(2)[OF wf(1) False that] by (auto simp: waiting_def)
    note run = ctrl_cmd_def pipe ss_def[symmetric] Let_def
    note done' = handles_server[OF \<open>table_ok ss\<close> po \<open>events_ok ss\<close> acc HASH_ID_less]
    show ?thesis
    proof (cases q)
      case RExit
      have "server_ok G ss" using \<open>table_ok ss\<close> po \<open>events_ok ss\<close> acc RExit by (simp add: server_ok_def carried_def)
      then show ?thesis using RExit by (simp add: run finish_def clear_closed_event_def)
    next
      case (RSend p i b)
      then have q: "about q = Some i" "send_ok p b" using rq by (simp_all add: request_ok_def about_def)
      have "handles (HASH_ID i) (carried q) (ss_slot ss (HASH_ID i)) (ss_trace ss) ss (ctrl_cmd os ss0)"
        using send_socket_handles[OF os sk q(2) refl nres[OF q(1)], where ss = ss and ua = None] RSend unfolding self[symmetric] by (simp add: run carried_def)
      then show ?thesis by (rule done')
    next
      case (RSendUdp i b a)
      then have q: "about q = Some i" "send_ok PRIORITY_HIGH b" by (simp_all add: send_ok_def about_def)
      have "handles (HASH_ID i) (carried q) (ss_slot ss (HASH_ID i)) (ss_trace ss) ss (ctrl_cmd os ss0)"
        using send_socket_handles[OF os sk q(2) refl nres[OF q(1)], where ss = ss and ua = "Some a"] RSendUdp unfolding self[symmetric] by (simp add: run carried_def)
      then show ?thesis by (rule done')
    next
      case (RClose i sh op)
      then have q: "about q = Some i" by (simp add: about_def)
      have "handles (HASH_ID i) (carried q) (ss_slot ss (HASH_ID i)) (ss_trace ss) ss (ctrl_cmd os ss0)"
        using close_socket_handles[OF os sk refl nres[OF q], where ss = ss and shutdown = sh and opaque = op] RClose unfolding self[symmetric] by (simp add: run carried_def)
      then show ?thesis by (rule done')
    next
      case (RStart i op)
      have "handles (HASH_ID i) (carried q) (ss_slot ss (HASH_ID i)) (ss_trace ss) ss (ctrl_cmd os ss0)"
        using start_socket_handles[OF sk refl, where ss = ss and os = os and opaque = op] RStart unfolding self[symmetric] by (simp add: run carried_def)
      then show ?thesis by (rule done')
    next
      case (RSetopt i w v)
      have "handles (HASH_ID i) (carried q) (ss_slot ss (HASH_ID i)) (ss_trace ss) ss (ctrl_cmd os ss0)"
        using setopt_socket_handles[OF sk refl, where ss = ss and os = os and what = w and v = v] RSetopt unfolding self[symmetric] by (simp add: run carried_def)
      then show ?thesis by (rule done')
    next
      case (RSetUdp i a)
      then have q: "a ! 0 \<noteq> 0" using rq by (simp add: request_ok_def)
      have "handles (HASH_ID i) (carried q) (ss_slot ss (HASH_ID i)) (ss_trace ss) ss (ctrl_cmd os ss0)"
        using set_udp_address_handles[OF sk refl q, where ss = ss] RSetUdp unfolding self[symmetric] by (simp add: run carried_def)
      then show ?thesis by (rule done')
    qed (use False in \<open>simp_all add: creator_def\<close>)
  qed
qed

section \<open>Events\<close>

text \<open>The counter of ids does not wrap around in the next step.\<close>

definition ids_left :: "socket_server \<Rightarrow> bool" where
  "ids_left ss \<longleftrightarrow> ss_alloc_id ss + int MAX_SOCKET < 2 ^ 31"

lemma reserve_id_cases:
  assumes "pipe_ok ss" "ids_left ss"
  obtains (fresh) i where "reserve_id ss = (reserved i ss, i)" "ss_alloc_id ss < i" "i < 2 ^ 31" "sk_type (ss_slot ss (HASH_ID i)) = SOCKET_TYPE_INVALID"
    | (full) "reserve_id ss = (ss\<lparr>ss_alloc_id := ss_alloc_id ss + int MAX_SOCKET\<rparr>, -1)"
proof -
  have b: "0 \<le> ss_alloc_id ss" "ss_alloc_id ss < 2 ^ 31" using assms(1) by (simp_all add: pipe_ok_def)
  have m: "(ss_alloc_id ss + i) mod 2 ^ 31 = ss_alloc_id ss + i" if "0 \<le> i" "i \<le> int MAX_SOCKET" for i
    using that b assms(2) by (intro mod_pos_pos_trivial) (simp_all add: ids_left_def)
  from reserve_loop_ids[OF b, of MAX_SOCKET] show ?thesis
  proof (elim disjE exE conjE)
    fix i
    assume i: "1 \<le> i" "i \<le> int MAX_SOCKET" "reserve_loop MAX_SOCKET ss = (reserved ((ss_alloc_id ss + i) mod 2 ^ 31) ss, (ss_alloc_id ss + i) mod 2 ^ 31)"
      "sk_type (ss_slot ss (HASH_ID (ss_alloc_id ss + i))) = SOCKET_TYPE_INVALID"
    from i(1) have "0 \<le> i" by simp
    with i m show ?thesis by (intro fresh[of "ss_alloc_id ss + i"]) (use assms(2) in \<open>simp_all add: reserve_id_def ids_left_def\<close>)
  next
    assume "reserve_loop MAX_SOCKET ss = (ss\<lparr>ss_alloc_id := (ss_alloc_id ss + int MAX_SOCKET) mod 2 ^ 31\<rparr>, - 1)"
    with m[of "int MAX_SOCKET"] show ?thesis by (intro full) (simp add: reserve_id_def)
  qed
qed

lemma reserved_upd: "reserved i ss = upd (HASH_ID i) (ss_slot ss (HASH_ID i)\<lparr>sk_type := SOCKET_TYPE_RESERVE, sk_id := i, sk_fd := -1\<rparr>)
    (ss_trace ss) (ss\<lparr>ss_alloc_id := i\<rparr>)"
  by (simp add: reserved_def upd_def)

lemma reserved_ok:
  assumes "sock_ok s" "reg_ok k s tr" "sk_type s = SOCKET_TYPE_INVALID"
  shows "keeps k {#} s tr (s\<lparr>sk_type := SOCKET_TYPE_RESERVE, sk_id := i, sk_fd := -1\<rparr>) tr"
  using assms by (auto simp: keeps_def sock_ok_def reg_ok_def held_def polled_def)

text \<open>Accepting a connection: a free slot gets the new socket, or the counter of ids has gone on.\<close>

lemma report_accept_upd:
  assumes ok: "table_ok ss" "pipe_ok ss" "ids_left ss" and k: "k < MAX_SOCKET" "sk_type (ss_slot ss k) \<noteq> SOCKET_TYPE_RESERVE"
  shows "\<exists>j s' tr' n r. report_accept os k ss = Some ((upd j s' tr' ss)\<lparr>ss_alloc_id := n\<rparr>, r) \<and> j < MAX_SOCKET
     \<and> keeps j {#} (ss_slot ss j) (ss_trace ss) s' tr' \<and> ss_alloc_id ss \<le> n \<and> n < 2 ^ 31
     \<and> waiting (ss_slot ss j) = None \<and> waiting s' = None \<and> (polled (sk_type (ss_slot ss j)) \<longrightarrow> polled (sk_type s'))"
proof -
  define s where "s = ss_slot ss k"
  let ?c = "CAccept (sk_fd s)"
  define a where "a = os (ss_trace ss) ?c"
  define tr1 where "tr1 = tick (ss_trace ss) ?c a"
  define ss1 where "ss1 = upd k s tr1 ss"
  have sk: "sock_ok (ss_slot ss j)" "reg_ok j (ss_slot ss j) (ss_trace ss)" for j using ok(1) by (simp_all add: table_ok_def)
  have sys: "sys os ?c ss = (ss1, a)" using sys_upd[of os ?c k s "ss_trace ss" ss] by (simp add: ss1_def s_def a_def tr1_def upd_intros(1)[symmetric])
  have slots: "ss_slot ss1 = ss_slot ss" "ss_trace ss1 = tr1" "ss_alloc_id ss1 = ss_alloc_id ss" "ss_pipe ss1 = ss_pipe ss"
    by (simp_all add: ss1_def s_def fun_eq_iff)
  have tr1: "reg tr1 = reg (ss_trace ss)" "freed tr1 = freed (ss_trace ss)" by (simp_all add: tr1_def)
  have n: "0 \<le> ss_alloc_id ss" "ss_alloc_id ss + int MAX_SOCKET < 2 ^ 31" using ok(2,3) by (simp_all add: pipe_ok_def ids_left_def)
  have quiet: ?thesis if "report_accept os k ss = Some ((upd k s tr' ss)\<lparr>ss_alloc_id := m\<rparr>, r)" "reg tr' = reg (ss_trace ss)" "freed tr' = freed (ss_trace ss)"
      "m = ss_alloc_id ss \<or> m = ss_alloc_id ss + int MAX_SOCKET" for tr' m r
  proof -
    have "keeps k {#} (ss_slot ss k) (ss_trace ss) s tr'" using keeps_same[OF sk that(2)] that(3) by (simp add: s_def)
    moreover have "waiting s = None" using k(2) by (simp add: waiting_def s_def)
    ultimately show ?thesis using that(1,4) k(1) n
      by (intro exI[of _ k] exI[of _ s] exI[of _ tr'] exI[of _ m] exI[of _ r]) (auto simp: s_def)
  qed
  have self: "(upd k s tr' ss)\<lparr>ss_alloc_id := ss_alloc_id ss\<rparr> = upd k s tr' ss" for tr' by (simp add: upd_def)
  show ?thesis
  proof (cases "\<exists>fd u. a = AAccepted fd u")
    case False
    define tr2 where "tr2 = (if a = AErr EMFILE \<or> a = AErr ENFILE then tick tr1 CStrerror (os tr1 CStrerror) else tr1)"
    have "\<exists>r. report_accept os k ss = Some ((upd k s tr2 ss)\<lparr>ss_alloc_id := ss_alloc_id ss\<rparr>, r)"
      unfolding self using False by (cases a) (auto simp: report_accept_def s_def[symmetric] sys ss1_def sys_upd tr2_def)
    moreover have "reg tr2 = reg (ss_trace ss)" "freed tr2 = freed (ss_trace ss)" by (simp_all add: tr2_def tr1)
    ultimately show ?thesis using quiet by blast
  next
    case True
    then obtain fd u where a: "a = AAccepted fd u" by blast
    have p1: "pipe_ok ss1" "ids_left ss1" using ok(2,3) by (simp_all add: pipe_ok_def ids_left_def slots)
    from p1 show ?thesis
    proof (cases rule: reserve_id_cases)
      case full
      let ?tr = "tick tr1 (CClose fd) (os tr1 (CClose fd))" and ?m = "ss_alloc_id ss + int MAX_SOCKET"
      have "ss1\<lparr>ss_alloc_id := ss_alloc_id ss1 + int MAX_SOCKET\<rparr> = upd k s tr1 (ss\<lparr>ss_alloc_id := ?m\<rparr>)" by (simp add: ss1_def upd_def)
      then have "report_accept os k ss = Some ((upd k s ?tr ss)\<lparr>ss_alloc_id := ?m\<rparr>, Inl None)"
        using a full by (simp add: report_accept_def s_def[symmetric] sys) (simp add: upd_def)
      then show ?thesis by (rule quiet) (simp_all add: tr1)
    next
      case (fresh i)
      let ?j = "HASH_ID i"
      define s2 where "s2 = ss_slot ss ?j\<lparr>sk_type := SOCKET_TYPE_RESERVE, sk_id := i, sk_fd := -1\<rparr>"
      define ssi where "ssi = ss\<lparr>ss_alloc_id := i\<rparr>"
      have "reserved i ss1 = upd ?j s2 tr1 ssi" by (simp add: reserved_def s2_def ssi_def ss1_def s_def upd_def fun_eq_iff)
      moreover define tr2 where "tr2 = tick (tick tr1 (CKeepalive fd) (os tr1 (CKeepalive fd))) (CNonblocking fd)
          (os (tick tr1 (CKeepalive fd) (os tr1 (CKeepalive fd))) (CNonblocking fd))"
      ultimately have res: "sysc os (CNonblocking fd) (sysc os (CKeepalive fd) (reserved i ss1)) = upd ?j s2 tr2 ssi" by simp
      have tr2: "reg tr2 = reg (ss_trace ss)" "freed tr2 = freed (ss_trace ss)" by (simp_all add: tr2_def tr1)
      have inv: "sk_type (ss_slot ss ?j) = SOCKET_TYPE_INVALID" using fresh(4) by (simp add: slots)
      have k2: "keeps ?j {#} (ss_slot ss ?j) (ss_trace ss) s2 tr2"
        using reserved_ok[OF sk inv, of i] tr2 by (simp add: keeps_def s2_def reg_ok_def)
      have s2: "sock_ok s2" "reg_ok ?j s2 tr2" "sk_type s2 = SOCKET_TYPE_RESERVE" using k2 by (simp_all add: keeps_def s2_def)
      from new_fd_upd[OF s2(1,3) refl, where id' = i and os = os and fd = fd and p = PROTOCOL_TCP and opaque = "sk_opaque s"
          and add = False and tr = tr2 and ss = ssi] obtain s3 tr3 where
        f: "new_fd os i fd PROTOCOL_TCP (sk_opaque s) False (upd ?j s2 tr2 ssi) = Some (upd ?j s3 tr3 ssi, Some ?j)" "freed tr3 = freed tr2"
        "sk_high s3 = []" "sk_low s3 = []" "sk_wb_size s3 = 0" "reg tr3 = reg tr2" by auto
      let ?s4 = "s3\<lparr>sk_type := SOCKET_TYPE_PACCEPT\<rparr>" and ?tr4 = "tick tr3 (CNtop u) (os tr3 (CNtop u))"
      have "keeps ?j {#} s2 tr2 ?s4 ?tr4" by (rule new_keeps[OF s2]) (simp_all add: f)
      with k2 have k4: "keeps ?j {#} (ss_slot ss ?j) (ss_trace ss) ?s4 ?tr4" using keeps_trans[of ?j "{#}" _ _ s2 tr2 "{#}"] by simp
      have pos: "0 \<le> i" using fresh(2) n slots by simp
      have "\<exists>r. report_accept os k ss = Some (upd ?j ?s4 ?tr4 ssi, r)"
        using a fresh(1) pos f(1) by (simp add: report_accept_def s_def[symmetric] sys res sys_upd)
      moreover have "upd ?j ?s4 ?tr4 ssi = (upd ?j ?s4 ?tr4 ss)\<lparr>ss_alloc_id := i\<rparr>" by (simp add: upd_def ssi_def)
      ultimately obtain r where "report_accept os k ss = Some ((upd ?j ?s4 ?tr4 ss)\<lparr>ss_alloc_id := i\<rparr>, r)" by auto
      then show ?thesis using k4 fresh(2,3) slots inv
        by (intro exI[of _ ?j] exI[of _ ?s4] exI[of _ ?tr4] exI[of _ i] exI[of _ r]) (simp add: waiting_def polled_def)
    qed
  qed
qed

text \<open>An event that is kept for the next turn.\<close>

lemma rewind_ok:
  assumes "events_ok ss" "ss_event_index ss = Suc m" "ev_s e = Some k" "k \<notin> set (events_left ss)" "polled (sk_type (ss_slot ss k))"
  shows "events_ok (ss\<lparr>ss_ev := (ss_ev ss)[m := e], ss_event_index := m\<rparr>)"
proof -
  have "m < length (ss_ev ss)" using assms(1,2) by (simp add: events_ok_def)
  then have "drop m ((ss_ev ss)[m := e]) = e # drop (Suc m) (ss_ev ss)"
    using Cons_nth_drop_Suc[of m "(ss_ev ss)[m := e]"] by simp
  then show ?thesis using assms by (simp add: events_ok_def events_left_def)
qed

lemma server_ok_events:
  assumes "server_ok G ss" "events_ok (ss\<lparr>ss_ev := es, ss_event_index := m\<rparr>)"
  shows "server_ok G (ss\<lparr>ss_ev := es, ss_event_index := m\<rparr>)"
  using assms by (simp add: server_ok_def table_ok_def pipe_ok_def accounted_def)

text \<open>A handler of an event whose index is \<open>m\<close>, and what follows it.\<close>

lemma handles_event:
  assumes ok: "table_ok ss" "pipe_ok ss" "events_ok ss" "accounted ss = G" and k: "k < MAX_SOCKET" "k \<notin> set (events_left ss)" "polled (sk_type (ss_slot ss k))"
    and e: "ss_event_index ss = Suc m" "ev_s e = Some k" and h: "handles k {#} (ss_slot ss k) (ss_trace ss) ss f"
  shows "\<exists>ss' r. f = Some (ss', r) \<and> server_ok G ss' \<and> server_ok G (again e r ss')
    \<and> (\<not> closing r \<longrightarrow> e = ss_ev ss ! m \<longrightarrow> server_ok G (ss'\<lparr>ss_event_index := ss_event_index ss' - 1\<rparr>))"
proof -
  from h obtain s' tr' r where f: "f = Some (upd k s' tr' ss, r)" "keeps k {#} (ss_slot ss k) (ss_trace ss) s' tr'" "reports (ss_slot ss k) s' r"
    by (auto simp: handles_def)
  let ?ss = "upd k s' tr' ss"
  have ev: "events_ok ?ss" "k \<notin> set (events_left ?ss)" using events_ok_upd[OF ok(3)] k(2) by (simp_all add: events_left_def)
  then have good: "server_ok G ?ss"
    using table_ok_upd[OF ok(1) k(1) f(2)] pipe_ok_upd[OF ok(2) reports_waiting[OF f(3)]] accounted_upd[OF k(1) f(2)] ok(4)
    by (simp add: server_ok_def)
  have kept: "server_ok G (?ss\<lparr>ss_ev := (ss_ev ?ss)[m := e'], ss_event_index := m\<rparr>)" if "\<not> closing r" "ev_s e' = Some k" for e'
  proof (rule server_ok_events[OF good])
    have "polled (sk_type (ss_slot ?ss k))" using f(3) k(3) that(1) by (simp add: reports_def)
    then show "events_ok (?ss\<lparr>ss_ev := (ss_ev ?ss)[m := e'], ss_event_index := m\<rparr>)"
      using e(1) by (intro rewind_ok[OF ev(1) _ that(2) ev(2)]) simp_all
  qed
  have "server_ok G (again e r ?ss)"
    using good kept[of "e\<lparr>ev_read := False\<rparr>"] e by (auto simp: again_def closing_def)
  moreover have "server_ok G (?ss\<lparr>ss_event_index := ss_event_index ?ss - 1\<rparr>)" if "\<not> closing r" "e = ss_ev ss ! m"
  proof -
    have "(ss_ev ?ss)[m := e] = ss_ev ?ss" using that(2) by simp
    then have "?ss\<lparr>ss_ev := (ss_ev ?ss)[m := e], ss_event_index := m\<rparr> = ?ss\<lparr>ss_event_index := ss_event_index ?ss - 1\<rparr>"
      using e(1) by (simp add: upd_def)
    with kept[OF that(1) e(2)] show ?thesis by simp
  qed
  ultimately show ?thesis using f(1) good by blast
qed

lemma dispatch_event_server:
  assumes os: "os_sane os" and ok: "table_ok ss" "pipe_ok ss" "events_ok ss" "accounted ss = G" "ids_left ss"
    and k: "k < MAX_SOCKET" "k \<notin> set (events_left ss)" "polled (sk_type (ss_slot ss k))"
    and e: "ss_event_index ss = Suc m" "ev_s e = Some k" "e = ss_ev ss ! m"
  shows "\<exists>ss' r. dispatch_event os e k ss = Some (ss', r) \<and> server_ok G ss'"
proof -
  let ?s = "ss_slot ss k" and ?tr = "ss_trace ss"
  have sk: "sock_ok ?s" "reg_ok k ?s ?tr" using ok(1) by (simp_all add: table_ok_def)
  note self = upd_intros(1)[of ss k, symmetric]
  note step = handles_event[OF ok(1-4) k e(1,2)]
  consider (listen) "sk_type ?s = SOCKET_TYPE_LISTEN" | (connecting) "sk_type ?s = SOCKET_TYPE_CONNECTING"
    | (open') "sk_type ?s \<in> {SOCKET_TYPE_CONNECTED, SOCKET_TYPE_HALFCLOSE, SOCKET_TYPE_BIND}" using k(3) by (auto simp: polled_def)
  then show ?thesis
  proof cases
    case connecting
    from step[OF report_connect_handles[OF sk connecting, of ss os, unfolded self]] connecting show ?thesis
      by (auto simp: dispatch_event_def Let_def)
  next
    case listen
    have "sk_type ?s \<noteq> SOCKET_TYPE_RESERVE" using listen by simp
    from report_accept_upd[OF ok(1,2,5) k(1) this, of os] obtain j s' tr' n r where
      f: "report_accept os k ss = Some ((upd j s' tr' ss)\<lparr>ss_alloc_id := n\<rparr>, r)" "j < MAX_SOCKET" "keeps j {#} (ss_slot ss j) ?tr s' tr'"
      "ss_alloc_id ss \<le> n" "n < 2 ^ 31" "waiting (ss_slot ss j) = None" "waiting s' = None" "polled (sk_type (ss_slot ss j)) \<longrightarrow> polled (sk_type s')" by blast
    let ?ss = "(upd j s' tr' ss)\<lparr>ss_alloc_id := n\<rparr>"
    have "pipe_ok (upd j s' tr' ss)" using f(6,7) by (intro pipe_ok_upd[OF ok(2)]) simp
    then have "pipe_ok ?ss" using f(4,5) by (auto simp: pipe_ok_def pipe_wf_def)
    moreover have "events_ok ?ss"
      using events_ok_upd[OF ok(3), of j s' tr'] ok(3) f(8) by (auto simp: events_ok_def events_left_def)
    moreover have "table_ok ?ss" "accounted ?ss = G"
      using table_ok_upd[OF ok(1) f(2,3)] accounted_upd[OF f(2,3)] ok(4) by (simp_all add: table_ok_def accounted_def)
    ultimately have "server_ok G ?ss" by (simp add: server_ok_def)
    then show ?thesis using listen f(1) by (simp add: dispatch_event_def Let_def)
  next
    case open'
    then have t: "sending (sk_type ?s)" "sk_type ?s \<notin> {SOCKET_TYPE_INVALID, SOCKET_TYPE_RESERVE}" by (auto simp: sending_def)
    note tcp = step[OF forward_message_tcp_handles[OF os sk t(2), of ss, unfolded self]]
    note udp = step[OF forward_message_udp_handles[OF sk t(2), of ss os, unfolded self]]
    note out = step[OF send_buffer_handles[OF os sk(1) t(1) sk(2), of ss, unfolded self]]
    have good: "server_ok G ss" using ok by (simp add: server_ok_def)
    have d: "dispatch_event os e k ss =
        (if ev_read e then
           (if sk_protocol ?s = PROTOCOL_TCP then do { (ss1, r) \<leftarrow> forward_message_tcp os k ss; Some (again e r ss1, r) }
            else do {
              (ss1, r) \<leftarrow> forward_message_udp os k ss;
              Some (if map_option fst r = Some SOCKET_UDP then ss1\<lparr>ss_event_index := ss_event_index ss1 - 1\<rparr> else again e r ss1, r) })
         else if ev_write e then send_buffer os k ss else Some (ss, None))"
      using open' by (auto simp: dispatch_event_def Let_def)
    consider "ev_read e" "sk_protocol ?s = PROTOCOL_TCP" | "ev_read e" "sk_protocol ?s \<noteq> PROTOCOL_TCP" | "\<not> ev_read e" "ev_write e"
      | "\<not> ev_read e" "\<not> ev_write e" by blast
    then show ?thesis
    proof cases
      case 1
      then show ?thesis unfolding d using tcp by auto
    next
      case 2
      from udp obtain ss1 r where u: "forward_message_udp os k ss = Some (ss1, r)" "server_ok G (again e r ss1)"
        "\<not> closing r \<Longrightarrow> server_ok G (ss1\<lparr>ss_event_index := ss_event_index ss1 - 1\<rparr>)" using e(3) by blast
      have "\<not> closing r" if "map_option fst r = Some SOCKET_UDP" using that by (auto simp: closing_def)
      with u 2 show ?thesis unfolding d by auto
    next
      case 3
      then show ?thesis unfolding d using out by auto
    next
      case 4
      then show ?thesis unfolding d using good by simp
    qed
  qed
qed

section \<open>A turn of the loop\<close>

text \<open>The body of the loop of \<open>socket_server_poll\<close>; the third result is the value returned, if it returns.\<close>

definition poll_turn :: "os_fun \<Rightarrow> bool \<Rightarrow> socket_server \<Rightarrow> (socket_server \<times> bool \<times> handled option) option" where
  "poll_turn os more' ss =
     (if ss_checkctrl ss \<and> ss_pipe ss \<noteq> [] then do {
        (ss1, r) \<leftarrow> ctrl_cmd os ss;
        Some (case r of Some tm \<Rightarrow> (clear_closed_event (fst tm) (snd tm) ss1, more', Some r) | None \<Rightarrow> (ss1, more', None)) }
      else
        (let ss0 = ss\<lparr>ss_checkctrl := False\<rparr>; idle = (ss_event_index ss0 = ss_event_n ss0);
             w = (if idle then wait_events os ss0 else (ss0, True)); ss1 = fst w; more1 = (if idle then False else more')
         in if \<not> snd w then Some (ss1, more1, Some None)
            else if ss_event_index ss1 \<ge> length (ss_ev ss1) then None
            else
              (let e = ss_ev ss1 ! ss_event_index ss1; ss2 = ss1\<lparr>ss_event_index := ss_event_index ss1 + 1\<rparr>
               in case ev_s e of
                    None \<Rightarrow> Some (ss2, more1, None)
                  | Some k \<Rightarrow> do {
                      (ss3, r) \<leftarrow> dispatch_event os e k ss2;
                      Some (case r of Some tm \<Rightarrow> (ss3, more1, Some r) | None \<Rightarrow> (ss3, more1, None)) })))"

text \<open>\<open>socket_server_poll\<close> is the repetition of its turns.\<close>

lemma socket_server_poll_turn:
  "socket_server_poll os more' ss = do {
     (ss1, more1, out) \<leftarrow> poll_turn os more' ss;
     (case out of None \<Rightarrow> socket_server_poll os more1 ss1 | Some r \<Rightarrow> Some (ss1, r, more1)) }"
  by (subst socket_server_poll.simps)
    (auto simp: poll_turn_def Let_def split: option.splits Option.bind_splits)

lemma server_ok_checkctrl [simp]: "server_ok G (ss\<lparr>ss_checkctrl := c\<rparr>) = server_ok G ss"
  by (simp add: server_ok_def table_ok_def pipe_ok_def events_ok_def events_left_def accounted_def)

lemma wait_events_server:
  assumes os: "os_sane os" and ok: "server_ok G ss"
  shows "server_ok G (fst (wait_events os ss)) \<and> ss_event_index (fst (wait_events os ss)) = 0
    \<and> (snd (wait_events os ss) \<longrightarrow> ss_ev (fst (wait_events os ss)) \<noteq> []) \<and> ss_alloc_id (fst (wait_events os ss)) = ss_alloc_id ss"
proof -
  define a where "a = os (ss_trace ss) CSpWait"
  define es where "es = (case a of AEvents es \<Rightarrow> es | _ \<Rightarrow> [])"
  define tr where "tr = tick (ss_trace ss) CSpWait a"
  have w: "wait_events os ss = (ss\<lparr>ss_trace := tr, ss_checkctrl := True, ss_event_index := 0, ss_event_n := length es, ss_ev := es\<rparr>, es \<noteq> [])"
    by (simp add: wait_events_def sys_def Let_def a_def[symmetric] es_def tr_def tick_def)
  have "distinct (event_slots es) \<and> set (event_slots es) \<subseteq> snd ` reg (ss_trace ss)"
  proof (cases "\<exists>es'. a = AEvents es'")
    case True
    then obtain es' where "a = AEvents es'" by blast
    then show ?thesis using os unfolding os_sane_def a_def es_def by auto
  next
    case False
    then have "es = []" by (auto simp: es_def split: answer.split)
    then show ?thesis by simp
  qed
  moreover have "polled (sk_type (ss_slot ss k))" if "k \<in> snd ` reg (ss_trace ss)" for k
    using that ok by (auto simp: server_ok_def table_ok_def reg_ok_def)
  moreover have "reg tr = reg (ss_trace ss)" "freed tr = freed (ss_trace ss)" by (simp_all add: tr_def)
  ultimately show ?thesis using ok unfolding w
    by (auto simp: server_ok_def table_ok_def pipe_ok_def events_ok_def events_left_def accounted_def reg_ok_def)
qed

lemma poll_turn_server:
  assumes os: "os_sane os" and ok: "server_ok G ss" and ids: "ids_left ss"
  shows "\<exists>ss' more1 out. poll_turn os more' ss = Some (ss', more1, out) \<and> server_ok G ss'"
proof (cases "ss_checkctrl ss \<and> ss_pipe ss \<noteq> []")
  case True
  with ctrl_cmd_server[OF os ok] obtain ss' r where c: "ctrl_cmd os ss = Some (ss', r)" "server_ok G (finish r ss')" by blast
  then show ?thesis using True by (cases r) (auto simp: poll_turn_def finish_def)
next
  case False
  define ss0 where "ss0 = ss\<lparr>ss_checkctrl := False\<rparr>"
  define idle where "idle = (ss_event_index ss0 = ss_event_n ss0)"
  define w where "w = (if idle then wait_events os ss0 else (ss0, True))"
  define ss1 where "ss1 = fst w"
  have ok0: "server_ok G ss0" using ok by (simp add: ss0_def)
  have ok1: "server_ok G ss1" and ids1: "ids_left ss1"
    using wait_events_server[OF os ok0] ok0 ids by (auto simp: ss1_def w_def ss0_def ids_left_def)
  have left: "ss_event_index ss1 < length (ss_ev ss1)" if "snd w"
    using wait_events_server[OF os ok0] ok0 that by (auto simp: ss1_def w_def idle_def server_ok_def events_ok_def)
  define m where "m = ss_event_index ss1"
  define e where "e = ss_ev ss1 ! m"
  define ss2 where "ss2 = ss1\<lparr>ss_event_index := Suc m\<rparr>"
  define more1 where "more1 = (if idle then False else more')"
  have run: "poll_turn os more' ss = (if \<not> snd w then Some (ss1, more1, Some None)
      else if m \<ge> length (ss_ev ss1) then None
      else (case ev_s e of
              None \<Rightarrow> Some (ss2, more1, None)
            | Some k \<Rightarrow> do {
                (ss3, r) \<leftarrow> dispatch_event os e k ss2;
                Some (case r of Some tm \<Rightarrow> (ss3, more1, Some r) | None \<Rightarrow> (ss3, more1, None)) }))"
    unfolding poll_turn_def if_not_P[OF False] Let_def ss0_def[symmetric] idle_def[symmetric] w_def[symmetric] ss1_def[symmetric]
      m_def[symmetric] e_def[symmetric] more1_def[symmetric] ss2_def Suc_eq_plus1 ..
  show ?thesis
  proof (cases "snd w")
    case False
    then show ?thesis using run ok1 by auto
  next
    case True
    note m = left[OF True, folded m_def]
    have d: "drop m (ss_ev ss1) = e # drop (Suc m) (ss_ev ss1)" using m by (simp add: Cons_nth_drop_Suc e_def)
    have el2: "events_left ss2 = event_slots (drop (Suc m) (ss_ev ss1))" by (simp add: events_left_def ss2_def)
    have el: "events_left ss1 = (case ev_s e of None \<Rightarrow> events_left ss2 | Some k \<Rightarrow> k # events_left ss2)"
      unfolding el2 events_left_def[of ss1] m_def[symmetric] d by simp
    have ok2: "table_ok ss2" "pipe_ok ss2" "accounted ss2 = G" "ids_left ss2" "events_ok ss2"
      using ok1 ids1 m el by (auto simp: server_ok_def table_ok_def pipe_ok_def accounted_def ids_left_def events_ok_def events_left_def ss2_def
          split: option.splits)
    show ?thesis
    proof (cases "ev_s e")
      case None
      then show ?thesis using run True m ok2 by (simp add: server_ok_def)
    next
      case (Some k)
      have "polled (sk_type (ss_slot ss1 k))" "k \<notin> set (events_left ss2)" using ok1 el Some by (auto simp: server_ok_def events_ok_def)
      then have k: "polled (sk_type (ss_slot ss2 k))" "k \<notin> set (events_left ss2)" by (simp_all add: ss2_def)
      have "k < MAX_SOCKET"
      proof (rule ccontr)
        assume "\<not> k < MAX_SOCKET"
        then have "sk_type (ss_slot ss2 k) = SOCKET_TYPE_INVALID" using ok2(1) by (simp add: table_ok_def)
        with k(1) show False by (simp add: polled_def)
      qed
      moreover have "ss_event_index ss2 = Suc m" "e = ss_ev ss2 ! m" by (simp_all add: ss2_def e_def)
      ultimately obtain ss3 r where "dispatch_event os e k ss2 = Some (ss3, r)" "server_ok G ss3"
        using dispatch_event_server[OF os ok2(1,2,5,3,4) _ k(2,1)] Some by blast
      then show ?thesis using run True m Some by (cases r) auto
    qed
  qed
qed

section \<open>The calls of other threads\<close>

text \<open>Calls of the system that leave the poll set alone and release nothing.\<close>

definition quiet :: "socket_server \<Rightarrow> socket_server \<Rightarrow> bool" where
  "quiet ss ss' \<longleftrightarrow> (\<exists>tr'. ss' = ss\<lparr>ss_trace := tr'\<rparr> \<and> reg tr' = reg (ss_trace ss) \<and> freed tr' = freed (ss_trace ss))"

lemma quiet_refl [simp]: "quiet ss ss"
  unfolding quiet_def by (intro exI[of _ "ss_trace ss"]) simp

lemma quiet_trans: "quiet ss ss1 \<Longrightarrow> quiet ss1 ss2 \<Longrightarrow> quiet ss ss2"
  by (auto simp: quiet_def)

lemma quiet_sys: "neutral c \<Longrightarrow> sys os c ss = (ss', a) \<Longrightarrow> quiet ss ss'"
proof -
  assume c: "neutral c" and s: "sys os c ss = (ss', a)"
  then have "ss' = ss\<lparr>ss_trace := tick (ss_trace ss) c a\<rparr>" by (auto simp: sys_def Let_def tick_def)
  then show "quiet ss ss'" unfolding quiet_def using c by (intro exI[of _ "tick (ss_trace ss) c a"]) simp
qed

lemma quiet_sysc: "neutral c \<Longrightarrow> quiet ss (sysc os c ss)"
  using quiet_sys[of c os ss "fst (sys os c ss)" "snd (sys os c ss)"] by (simp add: sysc_def)

lemma quiet_close: "quiet ss ss1 \<Longrightarrow> quiet ss (sysc os (CClose fd) ss1)"
  by (rule quiet_trans[OF _ quiet_sysc]) simp_all

lemma quiet_ok:
  assumes "quiet ss ss'" "server_ok G ss"
  shows "server_ok G ss'" "ss_alloc_id ss' = ss_alloc_id ss" "ss_slot ss' = ss_slot ss"
proof -
  from assms(1) obtain tr' where q: "ss' = ss\<lparr>ss_trace := tr'\<rparr>" "reg tr' = reg (ss_trace ss)" "freed tr' = freed (ss_trace ss)"
    by (auto simp: quiet_def)
  then show "ss_alloc_id ss' = ss_alloc_id ss" "ss_slot ss' = ss_slot ss" by simp_all
  show "server_ok G ss'"
    using assms(2) q by (simp add: server_ok_def table_ok_def pipe_ok_def events_ok_def events_left_def accounted_def reg_ok_def)
qed

lemma do_bind_quiet: "quiet ss (fst (do_bind os host port ss))"
proof -
  define h where "h = (case host of None \<Rightarrow> ''0.0.0.0'' | Some t \<Rightarrow> if t = [] then ''0.0.0.0'' else t)"
  obtain ss1 a where 1: "sys os (CGetaddrinfo h (fmt_d port)) ss = (ss1, a)" by fastforce
  have q1: "quiet ss ss1" by (rule quiet_sys[OF _ 1]) simp
  show ?thesis
  proof (cases "\<exists>ai ais. a = AAddrs (ai # ais)")
    case False
    then have "do_bind os host port ss = (ss1, None)"
      by (auto simp: do_bind_def Let_def h_def[symmetric] 1 split: answer.split list.split)
    with q1 show ?thesis by simp
  next
    case True
    then obtain ai ais where a: "a = AAddrs (ai # ais)" by blast
    obtain ss2 f where 2: "sys os (CSocket ai) ss1 = (ss2, f)" by fastforce
    have q2: "quiet ss ss2" by (rule quiet_trans[OF q1 quiet_sys[OF _ 2]]) simp
    show ?thesis
    proof (cases "\<exists>fd. f = ANum fd")
      case False
      then have "do_bind os host port ss = (ss2, None)"
        by (auto simp: do_bind_def Let_def h_def[symmetric] 1 a 2 split: answer.split)
      with q2 show ?thesis by simp
    next
      case True
      then obtain fd where f: "f = ANum fd" by blast
      obtain ss3 r where 3: "sys os (CReuse fd) ss2 = (ss3, r)" by fastforce
      have q3: "quiet ss ss3" by (rule quiet_trans[OF q2 quiet_sys[OF _ 3]]) simp
      obtain ss4 b where 4: "sys os (CBind fd ai) ss3 = (ss4, b)" by fastforce
      have q4: "quiet ss ss4" by (rule quiet_trans[OF q3 quiet_sys[OF _ 4]]) simp
      show ?thesis using quiet_close[OF q3] quiet_close[OF q4] q4
        by (simp add: do_bind_def Let_def h_def[symmetric] 1 a 2 f 3 4)
    qed
  qed
qed

lemma do_listen_quiet: "quiet ss (fst (do_listen os host port backlog ss))"
proof -
  obtain ss1 r where 1: "do_bind os host port ss = (ss1, r)" by fastforce
  with do_bind_quiet[of ss os host port] have q1: "quiet ss ss1" by simp
  show ?thesis
  proof (cases r)
    case None
    then show ?thesis using q1 by (simp add: do_listen_def 1)
  next
    case (Some x)
    then obtain fd v where r: "r = Some (fd, v)" by (cases x) auto
    obtain ss2 a where 2: "sys os (CListen fd backlog) ss1 = (ss2, a)" by fastforce
    have q2: "quiet ss ss2" by (rule quiet_trans[OF q1 quiet_sys[OF _ 2]]) simp
    then show ?thesis using quiet_close[OF q2] by (simp add: do_listen_def 1 r 2)
  qed
qed

text \<open>A request about an id that has been given out.\<close>

lemma send_request_server:
  assumes ok: "server_ok G ss" and r: "\<not> creator r" "request_ok r" "\<forall>i. about r = Some i \<longrightarrow> i \<le> ss_alloc_id ss"
  shows "server_ok (G + carried r) (send_request r ss)"
proof -
  have "pipe_wf (waiting \<circ> ss_slot ss) (ss_alloc_id ss) (ss_pipe ss)" using ok by (simp add: server_ok_def pipe_ok_def)
  then have "pipe_wf (waiting \<circ> ss_slot ss) (ss_alloc_id ss) (ss_pipe ss @ [r])"
    using r unfolding pipe_wf_def sorted_wrt_append by auto
  then show ?thesis using ok
    by (simp add: server_ok_def send_request_def table_ok_def pipe_ok_def events_ok_def events_left_def accounted_def ac_simps)
qed

text \<open>Reserving an id and sending the request that creates the socket.\<close>

lemma create_request_server:
  assumes ok: "server_ok G ss" and i: "ss_alloc_id ss < i" "i < 2 ^ 31" "sk_type (ss_slot ss (HASH_ID i)) = SOCKET_TYPE_INVALID"
    and r: "creator r" "about r = Some i"
  shows "server_ok G (send_request r (reserved i ss))"
proof -
  let ?k = "HASH_ID i" and ?s = "ss_slot ss (HASH_ID i)" and ?w = "waiting \<circ> ss_slot ss"
  let ?s' = "?s\<lparr>sk_type := SOCKET_TYPE_RESERVE, sk_id := i, sk_fd := -1\<rparr>"
  have tab: "table_ok ss" "events_ok ss" "accounted ss = G" using ok by (simp_all add: server_ok_def)
  have "sock_ok ?s" "reg_ok ?k ?s (ss_trace ss)" using tab(1) by (simp_all add: table_ok_def)
  from reserved_ok[OF this i(3)] have k: "keeps ?k {#} ?s (ss_trace ss) ?s' (ss_trace ss)" .
  have nev: "?k \<notin> set (events_left ss)" using tab(2) i(3) by (auto simp: events_ok_def polled_def)
  have rs: "send_request r (reserved i ss) = (upd ?k ?s' (ss_trace ss) ss)\<lparr>ss_alloc_id := i, ss_pipe := ss_pipe ss @ [r]\<rparr>"
    by (simp add: send_request_def reserved_def upd_def)
  have po: "0 \<le> ss_alloc_id ss" "pipe_wf ?w (ss_alloc_id ss) (ss_pipe ss)" using ok by (simp_all add: server_ok_def pipe_ok_def)
  note d = pipe_wfD[OF po(2)]
  have old: "about q \<noteq> Some i" if "q \<in> set (ss_pipe ss)" for q using d(2)[OF that] i(1) by fastforce
  have w: "?w ?k = None" using i(3) by (simp add: waiting_def)
  have "pipe_wf (?w(?k := Some i)) i (ss_pipe ss @ [r])"
    unfolding pipe_wf_def
  proof (intro conjI ballI allI impI)
    fix q
    assume q: "q \<in> set (ss_pipe ss @ [r])"
    have "request_ok r" using r(1) by (cases r) (simp_all add: creator_def request_ok_def)
    then show "request_ok q" using q d(1) by auto
    show "j \<le> i" if "about q = Some j" for j using q that r(2) d(2)[of q j] i(1) by auto
    show "\<exists>j. about q = Some j \<and> (?w(?k := Some i)) (HASH_ID j) = Some j" if "creator q"
    proof (cases "q = r")
      case True
      then show ?thesis using r(2) by simp
    next
      case False
      with q have q': "q \<in> set (ss_pipe ss)" by simp
      from d(3)[OF q' that] obtain j where j: "about q = Some j" "?w (HASH_ID j) = Some j" by blast
      with w have "HASH_ID j \<noteq> ?k" by (metis option.distinct(1))
      with j show ?thesis by simp
    qed
  next
    show "sorted_wrt (\<lambda>q r. creator r \<longrightarrow> about q \<noteq> about r) (ss_pipe ss @ [r])"
      using d(4) old r(2) by (auto simp: sorted_wrt_append)
  next
    fix k j
    assume kj: "(?w(?k := Some i)) k = Some j"
    show "HASH_ID j = k" using kj d(5)[of k j] by (auto split: if_splits)
    show "\<exists>r \<in> set (ss_pipe ss @ [r]). creator r \<and> about r = Some j" using kj d(6)[of k j] r by (auto split: if_splits)
  qed
  moreover have "waiting \<circ> (ss_slot ss)(?k := ?s') = ?w(?k := Some i)" by (auto simp: fun_eq_iff waiting_def)
  ultimately have "pipe_ok (send_request r (reserved i ss))" using i(1,2) po(1) unfolding rs pipe_ok_def by simp
  moreover have "carried r = {#}" using r(1) by (cases r) (simp_all add: creator_def carried_def)
  ultimately show ?thesis
    using table_ok_upd[OF tab(1) HASH_ID_less k] accounted_upd[OF HASH_ID_less k] tab(3) events_ok_upd[OF tab(2), of ?k ?s' "ss_trace ss"] nev
    unfolding rs by (simp add: server_ok_def table_ok_def events_ok_def events_left_def accounted_def)
qed

lemma reserve_server:
  assumes ok: "server_ok G ss" and ids: "ids_left ss" and res: "reserve_id ss = (ss1, i)"
  shows "i < 0 \<Longrightarrow> server_ok G ss1" "\<not> i < 0 \<Longrightarrow> creator r \<Longrightarrow> about r = Some i \<Longrightarrow> server_ok G (send_request r ss1)"
proof -
  have po: "pipe_ok ss" using ok by (simp add: server_ok_def)
  then have pos: "0 \<le> ss_alloc_id ss" by (simp add: pipe_ok_def)
  from po ids show "server_ok G ss1" if "i < 0"
  proof (cases rule: reserve_id_cases)
    case (fresh j)
    then show ?thesis using res that pos by simp
  next
    case full
    have "pipe_wf w n rs \<Longrightarrow> n \<le> m \<Longrightarrow> pipe_wf w m rs" for w n m rs unfolding pipe_wf_def by fastforce
    from this[of "waiting \<circ> ss_slot ss" "ss_alloc_id ss" "ss_pipe ss" "ss_alloc_id ss + int MAX_SOCKET"]
    show ?thesis using full res ok ids pos
      by (auto simp: server_ok_def pipe_ok_def ids_left_def table_ok_def events_ok_def events_left_def accounted_def)
  qed
  from po ids show "server_ok G (send_request r ss1)" if "\<not> i < 0" "creator r" "about r = Some i"
  proof (cases rule: reserve_id_cases)
    case (fresh j)
    then show ?thesis using res create_request_server[OF ok fresh(2-4), of r] that by simp
  next
    case full
    then show ?thesis using res that by simp
  qed
qed

lemma quiet_ids: "quiet ss ss' \<Longrightarrow> ids_left ss' = ids_left ss"
  by (auto simp: quiet_def ids_left_def)

lemma connect_server:
  assumes "server_ok G ss" "ids_left ss"
  shows "server_ok G (fst (socket_server_connect os opaque address port ss))"
proof (cases "length address + 24 \<ge> 256")
  case True
  have "quiet ss (sysc os (CLog (''socket-server : Invalid addr '' @ address @ ''.'')) ss)" by (rule quiet_sysc) simp
  from quiet_ok(1)[OF this assms(1)] True show ?thesis by (simp add: socket_server_connect_def open_request_def)
next
  case False
  obtain ss1 i where r: "reserve_id ss = (ss1, i)" by fastforce
  from reserve_server[OF assms r] show ?thesis
    using False r by (simp add: socket_server_connect_def open_request_def creator_def about_def)
qed

lemma bind_server:
  assumes "server_ok G ss" "ids_left ss"
  shows "server_ok G (fst (socket_server_bind opaque fd ss))"
proof -
  obtain ss1 i where r: "reserve_id ss = (ss1, i)" by fastforce
  from reserve_server[OF assms r] r show ?thesis by (simp add: socket_server_bind_def creator_def about_def)
qed

lemma listen_server:
  assumes "server_ok G ss" "ids_left ss"
  shows "server_ok G (fst (socket_server_listen os opaque address port backlog ss))"
proof -
  obtain ss1 l where l: "do_listen os address port backlog ss = (ss1, l)" by fastforce
  with do_listen_quiet[of ss os address port backlog] have q: "quiet ss ss1" by simp
  have ok1: "server_ok G ss1" "ids_left ss1" using quiet_ok(1)[OF q assms(1)] quiet_ids[OF q] assms(2) by simp_all
  obtain ss2 i where r: "reserve_id ss1 = (ss2, i)" by fastforce
  from reserve_server[OF ok1 r] have r2: "i < 0 \<Longrightarrow> server_ok G ss2" "\<not> i < 0 \<Longrightarrow> server_ok G (send_request (RListen i fd opaque) ss2)" for fd
    by (simp_all add: creator_def about_def)
  have "server_ok G (sysc os (CClose fd) ss2)" if "i < 0" for fd by (rule quiet_ok(1)[OF quiet_sysc r2(1)[OF that]]) simp
  with r2 show ?thesis using l r ok1 by (cases l) (auto simp: socket_server_listen_def)
qed

lemma udp_server:
  assumes "server_ok G ss" "ids_left ss"
  shows "server_ok G (fst (socket_server_udp os opaque address port ss))"
proof -
  obtain ss0 a where s: "sys os CSocketUdp ss = (ss0, a)" by fastforce
  define b where "b = (if port \<noteq> 0 \<or> address \<noteq> None then do_bind os address port ss else (ss0, case a of ANum fd \<Rightarrow> Some (fd, False) | _ \<Rightarrow> None))"
  obtain ss1 l where l: "b = (ss1, l)" by fastforce
  have "quiet ss ss0" by (rule quiet_sys[OF _ s]) simp
  with do_bind_quiet[of ss os address port] l have q: "quiet ss ss1" by (auto simp: b_def split: if_splits)
  have start: "(if port \<noteq> 0 \<or> address \<noteq> None then do_bind os address port ss
      else (let (ss', a) = sys os CSocketUdp ss in (ss', case a of ANum fd \<Rightarrow> Some (fd, False) | _ \<Rightarrow> None))) = (ss1, l)"
    using l unfolding b_def s by (simp only: Let_def prod.case)
  show ?thesis
  proof (cases l)
    case None
    then show ?thesis using quiet_ok(1)[OF q assms(1)] unfolding socket_server_udp_def start by simp
  next
    case (Some x)
    then obtain fd v6 where x: "l = Some (fd, v6)" by (cases x) auto
    have q': "quiet ss (sysc os (CNonblocking fd) ss1)" by (rule quiet_trans[OF q quiet_sysc]) simp
    have ok1: "server_ok G (sysc os (CNonblocking fd) ss1)" "ids_left (sysc os (CNonblocking fd) ss1)"
      using quiet_ok(1)[OF q' assms(1)] quiet_ids[OF q'] assms(2) by simp_all
    obtain ss2 i where r: "reserve_id (sysc os (CNonblocking fd) ss1) = (ss2, i)" by fastforce
    from reserve_server[OF ok1 r] have r2: "i < 0 \<Longrightarrow> server_ok G ss2" "\<not> i < 0 \<Longrightarrow> server_ok G (send_request (RUdp i fd v6 opaque) ss2)"
      by (simp_all add: creator_def about_def)
    have "server_ok G (sysc os (CClose fd) ss2)" if "i < 0" by (rule quiet_ok(1)[OF quiet_sysc r2(1)[OF that]]) simp
    with r2 show ?thesis unfolding socket_server_udp_def start x by (simp add: r)
  qed
qed

text \<open>Handing over a buffer: it is in the pipe, or released at once.\<close>

lemma free_server:
  assumes "server_ok G ss"
  shows "server_ok (add_mset (so_id b) G) (sysc os (so_free b) ss)"
proof -
  have s: "sysc os (so_free b) ss = ss\<lparr>ss_trace := tick (ss_trace ss) (so_free b) (os (ss_trace ss) (so_free b))\<rparr>"
    by (simp add: sysc_def sys_def tick_def Let_def)
  show ?thesis using assms unfolding s
    by (simp add: server_ok_def table_ok_def pipe_ok_def events_ok_def events_left_def accounted_def reg_ok_def)
qed

lemma send_server:
  assumes "server_ok G ss" "i \<le> ss_alloc_id ss" "send_ok p b"
  shows "server_ok (add_mset (so_id b) G) (fst (socket_server_send os p i b ss))"
  using free_server[OF assms(1), of b os] send_request_server[OF assms(1), of "RSend p i b"] assms(2,3)
  by (simp add: socket_server_send_def Let_def creator_def about_def request_ok_def carried_def)

lemma udp_send_server:
  assumes "server_ok G ss" "i \<le> ss_alloc_id ss"
  shows "server_ok (add_mset (so_id b) G) (fst (socket_server_udp_send os i address b ss))"
  using free_server[OF assms(1), of b os] send_request_server[OF assms(1), where r = "RSendUdp i b a" for a] assms(2)
  by (simp add: socket_server_udp_send_def Let_def creator_def about_def request_ok_def carried_def split: option.split)

lemma udp_connect_server:
  assumes "server_ok G ss" "i \<le> ss_alloc_id ss"
  shows "server_ok G (fst (socket_server_udp_connect os i address port ss))"
proof -
  obtain ss1 a where s: "sys os (CGetaddrinfo address (fmt_d port)) ss = (ss1, a)" by fastforce
  have q: "quiet ss ss1" by (rule quiet_sys[OF _ s]) simp
  note ok1 = quiet_ok[OF q assms(1)]
  show ?thesis
  proof (cases "\<exists>ai ais. a = AAddrs (ai # ais)")
    case False
    then show ?thesis using ok1 by (auto simp: socket_server_udp_connect_def s split: answer.split list.split)
  next
    case True
    then obtain ai ais where a: "a = AAddrs (ai # ais)" by blast
    define p where "p = (case ai of AddrV4 _ _ \<Rightarrow> PROTOCOL_UDP | AddrV6 _ _ \<Rightarrow> PROTOCOL_UDPv6)"
    have "proto_num p \<noteq> 0" by (cases ai) (simp_all add: p_def proto_num_def)
    then have "server_ok G (send_request (RSetUdp i (gen_udp_address p ai)) ss1)"
      using send_request_server[OF ok1(1), of "RSetUdp i (gen_udp_address p ai)"] assms(2) ok1(2)
      by (simp add: creator_def about_def request_ok_def carried_def gen_udp_address_def)
    then show ?thesis by (simp add: socket_server_udp_connect_def s a p_def Let_def)
  qed
qed

section \<open>Reachable states\<close>

text \<open>\<open>reach os G ss\<close>: the server gets from its creation to \<open>ss\<close> when the buffers \<open>G\<close> have been handed over.  Clients use ids that have been given
  out, and the counter of ids does not wrap around.\<close>

inductive reach :: "os_fun \<Rightarrow> (bool \<times> addr) multiset \<Rightarrow> socket_server \<Rightarrow> bool" for os where
  reach_create: "socket_server_create os = Some (tr, Some ss) \<Longrightarrow> reach os {#} ss"
| reach_turn: "reach os G ss \<Longrightarrow> ids_left ss \<Longrightarrow> poll_turn os more' ss = Some (ss', more1, out) \<Longrightarrow> reach os G ss'"
| reach_connect: "reach os G ss \<Longrightarrow> ids_left ss \<Longrightarrow> reach os G (fst (socket_server_connect os opaque address port ss))"
| reach_listen: "reach os G ss \<Longrightarrow> ids_left ss \<Longrightarrow> reach os G (fst (socket_server_listen os opaque host port backlog ss))"
| reach_bind: "reach os G ss \<Longrightarrow> ids_left ss \<Longrightarrow> reach os G (fst (socket_server_bind opaque fd ss))"
| reach_udp: "reach os G ss \<Longrightarrow> ids_left ss \<Longrightarrow> reach os G (fst (socket_server_udp os opaque host port ss))"
| reach_send: "reach os G ss \<Longrightarrow> i \<le> ss_alloc_id ss \<Longrightarrow> send_ok p b \<Longrightarrow> reach os (add_mset (so_id b) G) (fst (socket_server_send os p i b ss))"
| reach_udp_send: "reach os G ss \<Longrightarrow> i \<le> ss_alloc_id ss \<Longrightarrow> reach os (add_mset (so_id b) G) (fst (socket_server_udp_send os i a b ss))"
| reach_udp_connect: "reach os G ss \<Longrightarrow> i \<le> ss_alloc_id ss \<Longrightarrow> reach os G (fst (socket_server_udp_connect os i address port ss))"
| reach_start: "reach os G ss \<Longrightarrow> i \<le> ss_alloc_id ss \<Longrightarrow> reach os G (socket_server_start opaque i ss)"
| reach_close: "reach os G ss \<Longrightarrow> i \<le> ss_alloc_id ss \<Longrightarrow> reach os G (socket_server_close shutdown opaque i ss)"
| reach_nodelay: "reach os G ss \<Longrightarrow> i \<le> ss_alloc_id ss \<Longrightarrow> reach os G (socket_server_nodelay i ss)"
| reach_exit: "reach os G ss \<Longrightarrow> reach os G (socket_server_exit ss)"

lemma create_server:
  assumes "socket_server_create os = Some (tr, Some ss)"
  shows "server_ok {#} ss"
proof -
  let ?ss = "\<lparr>ss_recvctrl_fd = 0, ss_sendctrl_fd = 0, ss_checkctrl = True, ss_alloc_id = 0, ss_event_n = 0, ss_event_index = 0,
        ss_ev = [], ss_slot = (\<lambda>_. socket0), ss_pipe = [], ss_trace = []\<rparr>"
  from assms obtain fd0 fd1 tr' where "ss = ?ss\<lparr>ss_trace := tr', ss_recvctrl_fd := fd0, ss_sendctrl_fd := fd1\<rparr>"
    and "\<exists>a b c. tr' = tick (tick (tick [] CSpCreate a) CPipe b) (CSpAdd fd0 None) c"
    by (auto simp: socket_server_create_def sys_def Let_def tick_def split: if_splits answer.splits Option.bind_splits)
  moreover from this(2) have "reg tr' = {}" "freed tr' = {#}" by (auto simp: trace_tick)
  ultimately show ?thesis
    by (simp add: server_ok_def table_ok_def pipe_ok_def pipe_wf_def events_ok_def events_left_def accounted_def sock_ok_def reg_ok_def
        held_def waiting_def socket0_def)
qed

lemma reach_server:
  assumes "os_sane os" "reach os G ss"
  shows "server_ok G ss"
  using assms(2)
proof induction
  case (reach_create tr ss)
  then show ?case by (rule create_server)
next
  case (reach_turn G ss more' ss' more1 out)
  from poll_turn_server[OF assms(1) reach_turn.IH reach_turn.hyps(2), of more'] reach_turn.hyps(3) show ?case by auto
next
  case (reach_start G ss i opaque)
  from send_request_server[OF reach_start.IH, of "RStart i opaque"] reach_start.hyps show ?case
    by (simp add: socket_server_start_def creator_def about_def request_ok_def carried_def)
next
  case (reach_close G ss i shutdown opaque)
  from send_request_server[OF reach_close.IH, of "RClose i shutdown opaque"] reach_close.hyps show ?case
    by (simp add: socket_server_close_def creator_def about_def request_ok_def carried_def)
next
  case (reach_nodelay G ss i)
  from send_request_server[OF reach_nodelay.IH, of "RSetopt i TCP_NODELAY 1"] reach_nodelay.hyps show ?case
    by (simp add: socket_server_nodelay_def creator_def about_def request_ok_def carried_def)
next
  case (reach_exit G ss)
  from send_request_server[OF reach_exit.IH, of RExit] show ?case
    by (simp add: socket_server_exit_def creator_def about_def request_ok_def carried_def)
qed (auto intro: connect_server listen_server bind_server udp_server send_server udp_send_server udp_connect_server)

text \<open>A system for the examples: the pipe has descriptors 3 and 4, a connection succeeds at once on descriptor 5, and a write takes at most two bytes.\<close>

definition os_demo :: os_fun where
  "os_demo tr c = (case c of
       CPipe \<Rightarrow> APair 3 4
     | CGetaddrinfo _ _ \<Rightarrow> AAddrs [AddrV4 [0, 80] [127, 0, 0, 1]]
     | CSocket _ \<Rightarrow> ANum 5
     | CWrite _ b \<Rightarrow> ANum (min 2 (int (length b)))
     | CSpWait \<Rightarrow> AErr EINTR
     | _ \<Rightarrow> ANum 0)"

lemma os_demo_sane: "os_sane os_demo"
  by (simp add: os_sane_def os_demo_def)

text \<open>Its server, with one connection that was asked for and a package of three bytes.\<close>

definition demo0 :: socket_server where
  "demo0 = the (snd (the (socket_server_create os_demo)))"

definition demo1 :: socket_server where
  "demo1 = fst (socket_server_send os_demo PRIORITY_HIGH 1 (Plain 100 [7, 8, 9]) (fst (socket_server_connect os_demo 1 ''a'' 80 demo0)))"

lemma demo0_eq: "demo0 = \<lparr>ss_recvctrl_fd = 3, ss_sendctrl_fd = 4, ss_checkctrl = True, ss_alloc_id = 0, ss_event_n = 0, ss_event_index = 0,
    ss_ev = [], ss_slot = (\<lambda>_. socket0), ss_pipe = [], ss_trace = [(CSpCreate, ANum 0), (CPipe, APair 3 4), (CSpAdd 3 None, ANum 0)]\<rparr>"
  by (simp add: demo0_def socket_server_create_def sys_def os_demo_def failed_def Let_def)

lemma demo_reserve: "reserve_id demo0 = (reserved 1 demo0, 1)"
proof -
  have "MAX_SOCKET = Suc 65535" by (simp add: MAX_SOCKET_def)
  then have "reserve_id demo0 = reserve_loop (Suc 65535) demo0" by (simp only: reserve_id_def)
  also have "\<dots> = (reserved 1 demo0, 1)"
    unfolding reserve_loop.simps by (simp add: demo0_eq to_int32_def Let_def socket0_def reserved_def)
  finally show ?thesis .
qed

lemma demo0_pipe: "ss_pipe demo0 = []"
  by (simp add: demo0_eq)

lemma demo1_eq: "demo1 = (reserved 1 demo0)\<lparr>ss_pipe := [ROpen 1 80 1 ''a'', RSend PRIORITY_HIGH 1 (Plain 100 [7, 8, 9])]\<rparr>"
  by (simp add: demo1_def socket_server_connect_def open_request_def demo_reserve socket_server_send_def send_request_def reserved_def
      HASH_ID_def MAX_SOCKET_def demo0_pipe Let_def)

lemma demo1_reach: "reach os_demo {#(False, 100)#} demo1"
proof -
  have "socket_server_create os_demo = Some (fst (the (socket_server_create os_demo)), Some demo0)"
    by (simp add: demo0_def socket_server_create_def sys_def os_demo_def failed_def Let_def)
  from reach_connect[OF reach_create[OF this], of 1 "''a''" 80]
  have r: "reach os_demo {#} (fst (socket_server_connect os_demo 1 ''a'' 80 demo0))" by (simp add: ids_left_def demo0_eq MAX_SOCKET_def)
  have "(1::int) \<le> ss_alloc_id (fst (socket_server_connect os_demo 1 ''a'' 80 demo0))"
    by (simp add: socket_server_connect_def open_request_def demo_reserve send_request_def reserved_def)
  from reach_send[OF r this, of PRIORITY_HIGH "Plain 100 [7, 8, 9]"] show ?thesis by (simp add: demo1_def send_ok_def so_id_def)
qed

text \<open>The connection is made, and a part of the package is written.\<close>

definition demo2 :: socket_server where
  "demo2 = fst (the (poll_turn os_demo True demo1))"

definition demo3 :: socket_server where
  "demo3 = fst (the (poll_turn os_demo True demo2))"

lemma demo_turns:
  "poll_turn os_demo True demo1 = Some (demo2, True, Some (Some (SOCKET_OPEN, \<lparr>rm_id = 1, rm_opaque = 1, rm_ud = 0, rm_data = NoData\<rparr>)))"
  "ss_pipe demo2 = [RSend PRIORITY_HIGH 1 (Plain 100 [7, 8, 9])]" "sk_type (ss_slot demo2 1) = SOCKET_TYPE_CONNECTED"
  by (simp_all add: demo2_def demo1_eq poll_turn_def ctrl_cmd_def open_socket_def sys_def sysc_def os_demo_def new_fd_def check_wb_list_def failed_def
      reserved_def demo0_eq HASH_ID_def MAX_SOCKET_def socket0_def Let_def clear_closed_event_def answer_text_def)

lemma demo2_reach: "reach os_demo {#(False, 100)#} demo2"
  by (rule reach_turn[OF demo1_reach _ demo_turns(1)]) (simp add: demo1_eq ids_left_def reserved_def MAX_SOCKET_def)

lemma demo2_ids: "ids_left demo2"
  by (simp add: ids_left_def demo2_def demo1_eq poll_turn_def ctrl_cmd_def open_socket_def sys_def sysc_def os_demo_def new_fd_def check_wb_list_def failed_def
      reserved_def demo0_eq HASH_ID_def MAX_SOCKET_def socket0_def Let_def clear_closed_event_def answer_text_def)

lemma demo3_slot:
  "poll_turn os_demo True demo2 = Some (demo3, True, None)" "sk_type (ss_slot demo3 1) = SOCKET_TYPE_CONNECTED"
  "sk_protocol (ss_slot demo3 1) = PROTOCOL_TCP" "sk_fd (ss_slot demo3 1) = 5" "bytes_of (sk_high (ss_slot demo3 1)) = [9]"
  by (simp_all add: demo3_def demo2_def demo1_eq poll_turn_def ctrl_cmd_def open_socket_def sys_def sysc_def os_demo_def new_fd_def check_wb_list_def failed_def
      reserved_def demo0_eq HASH_ID_def MAX_SOCKET_def socket0_def Let_def clear_closed_event_def answer_text_def
      send_socket_def send_buffer_empty_def so_bytes_def append_sendbuffer_simps append_buffer_def make_buffer_def get_list_def set_list_def)

lemma demo3_reach: "reach os_demo {#(False, 100)#} demo3"
  by (rule reach_turn[OF demo2_reach demo2_ids demo3_slot(1)])

section \<open>Correctness\<close>

text \<open>C11: The socket thread never stops: in every state that can be reached, with any interleaving of its turns with the calls of
  other threads, the next turn of the loop of \<open>socket_server_poll\<close> ends without a failed assertion -- no request finds a socket that is only reserved, no
  event is for a socket that has been closed, the low list never begins with a partly sent buffer, and a slot is taken into use with empty lists -- and the loop that
  writes buffers ends.\<close>

theorem poll_turn_total:
  assumes "os_sane os" "reach os G ss" "ids_left ss"
  shows "\<exists>ss' more1 out. poll_turn os more' ss = Some (ss', more1, out)"
  using poll_turn_server[OF assms(1) reach_server[OF assms(1,2)] assms(3), of more'] by blast

theorem poll_turn_total_witness: "\<exists>ss' more1 out. poll_turn os_demo True demo3 = Some (ss', more1, out)"
proof -
  have "ids_left demo3"
    by (simp add: ids_left_def demo3_def demo2_def demo1_eq poll_turn_def ctrl_cmd_def open_socket_def sys_def sysc_def os_demo_def new_fd_def check_wb_list_def failed_def
      reserved_def demo0_eq HASH_ID_def MAX_SOCKET_def socket0_def Let_def clear_closed_event_def answer_text_def
      send_socket_def send_buffer_empty_def so_bytes_def append_sendbuffer_simps append_buffer_def make_buffer_def get_list_def set_list_def)
  then show ?thesis by (rule poll_turn_total[OF os_demo_sane demo3_reach])
qed

text \<open>C12: Every buffer that is handed to the server for sending is released exactly once: in every reachable state the buffers that were
  handed over are, with their number, those that have been released, those on the lists of a socket and those in a request that
  has not been read.\<close>

theorem buffers_accounted:
  assumes "os_sane os" "reach os G ss"
  shows "freed (ss_trace ss) + (\<Sum>k<MAX_SOCKET. held (ss_slot ss k)) + sum_list (map carried (ss_pipe ss)) = G"
  using reach_server[OF assms] by (simp add: server_ok_def accounted_def)

theorem buffers_accounted_witness:
  "freed (ss_trace demo3) + (\<Sum>k<MAX_SOCKET. held (ss_slot demo3 k)) + sum_list (map carried (ss_pipe demo3)) = {#(False, 100)#}"
  by (rule buffers_accounted[OF os_demo_sane demo3_reach])

text \<open>C14: The table of sockets is well formed in every reachable state: the value \<open>wb_size\<close> of a socket in use is the number of bytes that wait in its two lists,
  only a socket that can send has buffers, every buffer of the low list is whole, a socket is in the poll set only under its own descriptor and with a type that is
  polled, and a slot is reserved exactly while the one request that creates its socket is in the pipe.\<close>

theorem socket_table_wf:
  assumes "os_sane os" "reach os G ss"
  shows "(\<forall>k. sk_type (ss_slot ss k) \<notin> {SOCKET_TYPE_INVALID, SOCKET_TYPE_RESERVE} \<longrightarrow> sk_wb_size (ss_slot ss k) = int (pending (ss_slot ss k)))
    \<and> (\<forall>k. \<not> sending (sk_type (ss_slot ss k)) \<longrightarrow> send_buffer_empty (ss_slot ss k))
    \<and> (\<forall>k. \<forall>wb \<in> set (sk_low (ss_slot ss k)). sb_ptr wb = sb_buffer wb)
    \<and> (\<forall>fd k. (fd, k) \<in> reg (ss_trace ss) \<longrightarrow> fd = sk_fd (ss_slot ss k) \<and> polled (sk_type (ss_slot ss k)))
    \<and> (\<forall>i. (\<exists>r \<in> set (ss_pipe ss). creator r \<and> about r = Some i) \<longleftrightarrow> waiting (ss_slot ss (HASH_ID i)) = Some i)"
proof (intro conjI allI)
  have ok: "table_ok ss" "pipe_ok ss" using reach_server[OF assms] by (simp_all add: server_ok_def)
  have sk: "sock_ok (ss_slot ss k)" "reg_ok k (ss_slot ss k) (ss_trace ss)" for k using ok(1) by (simp_all add: table_ok_def)
  show "sk_type (ss_slot ss k) \<notin> {SOCKET_TYPE_INVALID, SOCKET_TYPE_RESERVE} \<longrightarrow> sk_wb_size (ss_slot ss k) = int (pending (ss_slot ss k))"
    and "\<forall>wb \<in> set (sk_low (ss_slot ss k)). sb_ptr wb = sb_buffer wb" for k
    using sk(1)[of k] by (auto simp: sock_ok_def)
  show "(fd, k) \<in> reg (ss_trace ss) \<longrightarrow> fd = sk_fd (ss_slot ss k) \<and> polled (sk_type (ss_slot ss k))" for fd k
    using sk(2)[of k] by (simp add: reg_ok_def)
  show "\<not> sending (sk_type (ss_slot ss k)) \<longrightarrow> send_buffer_empty (ss_slot ss k)" for k using buffers_sending[OF sk(1)] by blast
  have "pipe_wf (waiting \<circ> ss_slot ss) (ss_alloc_id ss) (ss_pipe ss)" using ok(2) by (simp add: pipe_ok_def)
  from pipe_wfD(3,6)[OF this] show "(\<exists>r \<in> set (ss_pipe ss). creator r \<and> about r = Some i) \<longleftrightarrow> waiting (ss_slot ss (HASH_ID i)) = Some i" for i
    by fastforce
qed

theorem socket_table_wf_witness: "sk_wb_size (ss_slot demo3 1) = int (pending (ss_slot demo3 1))"
  using socket_table_wf[OF os_demo_sane demo3_reach] demo3_slot(2) by simp

text \<open>C13: Sending the buffers of a TCP connection keeps packages whole and in order.  In every reachable state \<open>send_buffer\<close> returns; unless it reports that the socket
  was closed, the bytes \<open>W\<close> that the system took are, with what is left of the high list behind them, the bytes of the high list followed by those of whole packages from the
  front of the low list: no byte is lost, repeated or reordered, a low package is begun only when the high list is empty, and one that is begun is finished before any package that comes
  after.\<close>

theorem send_buffer_stream:
  assumes "os_sane os" "reach os G ss" "sending (sk_type (ss_slot ss k))" "sk_protocol (ss_slot ss k) = PROTOCOL_TCP"
  shows "\<exists>ss' r. send_buffer os k ss = Some (ss', r)
    \<and> (r = None \<and> (\<exists>W pre. written (sk_fd (ss_slot ss k)) (ss_trace ss') = written (sk_fd (ss_slot ss k)) (ss_trace ss) @ W
           \<and> sk_low (ss_slot ss k) = pre @ sk_low (ss_slot ss' k)
           \<and> W @ bytes_of (sk_high (ss_slot ss' k)) = bytes_of (sk_high (ss_slot ss k)) @ bytes_of pre)
       \<or> r = Some (SOCKET_CLOSE, close_message (ss_slot ss k)) \<and> sk_type (ss_slot ss' k) = SOCKET_TYPE_INVALID \<and> send_buffer_empty (ss_slot ss' k))"
proof -
  have "table_ok ss" using reach_server[OF assms(1,2)] by (simp add: server_ok_def)
  then have sk: "sock_ok (ss_slot ss k)" "reg_ok k (ss_slot ss k) (ss_trace ss)" by (simp_all add: table_ok_def)
  from send_buffer_upd[OF assms(1) sk(1) assms(3) sk(2), of ss] obtain s' tr' r where
    f: "send_buffer os k ss = Some (upd k s' tr' ss, r)" and out: "sent_out k (ss_slot ss k) (ss_trace ss) s' tr' r"
    unfolding upd_intros(1)[symmetric] by blast
  from out show ?thesis
    unfolding sent_out_def
  proof (elim disjE exE conjE)
    fix W
    assume "r = None" "buffers_sent (ss_slot ss k) s' W" "streamed (ss_slot ss k) (ss_trace ss) tr' W"
    then show ?thesis using f assms(4) unfolding buffers_sent_def streamed_def by fastforce
  next
    assume "list_closed k (ss_slot ss k) (ss_trace ss) s' tr' r"
    then show ?thesis using f by (auto simp: list_closed_def keeps_def sock_ok_def send_buffer_empty_def)
  qed
qed

theorem send_buffer_stream_witness:
  "\<exists>ss' r. send_buffer os_demo 1 demo3 = Some (ss', r)
    \<and> (r = None \<and> (\<exists>W pre. written 5 (ss_trace ss') = written 5 (ss_trace demo3) @ W
           \<and> sk_low (ss_slot demo3 1) = pre @ sk_low (ss_slot ss' 1) \<and> W @ bytes_of (sk_high (ss_slot ss' 1)) = [9] @ bytes_of pre)
       \<or> r = Some (SOCKET_CLOSE, close_message (ss_slot demo3 1)) \<and> sk_type (ss_slot ss' 1) = SOCKET_TYPE_INVALID \<and> send_buffer_empty (ss_slot ss' 1))"
  using send_buffer_stream[OF os_demo_sane demo3_reach _ demo3_slot(3)] demo3_slot by (simp add: sending_def)

section \<open>Limits\<close>

text \<open>The condition \<open>send_ok\<close> is needed: \<open>list_uncomplete\<close> compares the pointer into the data with the address that was handed over, which for a user object is that of
  the object.  A user object sent with low priority looks like a buffer that has been sent in part, and the next attempt to send stops the process.\<close>

lemma low_object_aborts:
  assumes "a \<noteq> c" "sk_low (ss_slot ss k) = []"
  shows "send_buffer os k (slot_put k (append_sendbuffer_low (UserObject a c bs) (ss_slot ss k)) ss) = None"
  using assms by (simp add: send_buffer_def append_sendbuffer_simps append_buffer_def make_buffer_def get_list_def set_list_def list_uncomplete_def)

text \<open>So does a request to close an id that is still reserved.\<close>

lemma close_reserved_aborts:
  assumes "sk_type (ss_slot ss (HASH_ID i)) = SOCKET_TYPE_RESERVE" "sk_id (ss_slot ss (HASH_ID i)) = i" "send_buffer_empty (ss_slot ss (HASH_ID i))"
  shows "close_socket os i shutdown opaque ss = None"
  using assms by (simp add: close_socket_def force_close_def)

text \<open>Data for a bound descriptor is put on a list without a request to be told when the descriptor can be written.\<close>

lemma bind_not_written:
  assumes "sk_type (ss_slot ss (HASH_ID i)) = SOCKET_TYPE_BIND" "sk_id (ss_slot ss (HASH_ID i)) = i" "sk_protocol (ss_slot ss (HASH_ID i)) = PROTOCOL_TCP"
  shows "\<exists>ss'. send_socket os i b PRIORITY_HIGH None ss = Some (ss', None) \<and> ss_trace ss' = ss_trace ss
    \<and> sk_high (ss_slot ss' (HASH_ID i)) = sk_high (ss_slot ss (HASH_ID i)) @ [make_buffer b 0 []]"
  using assms by (auto simp: send_socket_def Let_def append_sendbuffer_simps append_buffer_def get_list_def set_list_def)

end
