(* ===== verification/SkynetSocket.thy ===== *)
theory SkynetSocket
  imports Services SocketReach
begin

text \<open>
  The service side of the socket server, \<open>skynet-src/skynet_socket.c\<close>: the socket thread turns what
  \<open>socket_server_poll\<close> returns into a message for the service that owns the socket; services call the socket server with their
  handle as the owner.  The state is that of the node and that of the socket server; the block of data that a handler of the socket
  server has allocated enters the memory of the node when its message is made.
\<close>

section \<open>Forwarding\<close>

text \<open>\<open>sizeof(struct skynet_socket_message)\<close>.\<close>

definition SIZEOF_socket_message :: nat where "SIZEOF_socket_message = 24"

text \<open>The type of a message and whether its text follows it in the same block.\<close>

definition socket_message_type :: "sk_result \<Rightarrow> (int \<times> bool) option" where
  "socket_message_type t = (case t of
       SOCKET_EXIT \<Rightarrow> None
     | SOCKET_DATA \<Rightarrow> Some (1, False)
     | SOCKET_CLOSE \<Rightarrow> Some (3, False)
     | SOCKET_OPEN \<Rightarrow> Some (2, True)
     | SOCKET_ERROR \<Rightarrow> Some (5, True)
     | SOCKET_ACCEPT \<Rightarrow> Some (4, True)
     | SOCKET_UDP \<Rightarrow> Some (6, False))"

text \<open>The buffer of the message and the text behind it.  \<open>None\<close>: the length of something that is not a string would be taken, or a
  string that was not allocated would be handed over.\<close>

definition message_payload :: "bool \<Rightarrow> sk_data \<Rightarrow> node \<Rightarrow> (node \<times> ptr \<times> u8 list) option" where
  "message_payload padding d s =
     (if padding then
        (case d of
           SText t \<Rightarrow> Some (s, None, map (\<lambda>c. of_nat (of_char c)) (take 128 t))
         | NoData \<Rightarrow> Some (s, None, [])
         | SBytes _ \<Rightarrow> None)
      else
        (case d of
           SBytes bs \<Rightarrow> (let (s1, a) = mem_alloc (Bytes (map Some bs)) s in Some (s1, Some a, []))
         | NoData \<Rightarrow> Some (s, None, [])
         | SText _ \<Rightarrow> None))"

definition forward_message :: "services \<Rightarrow> int \<Rightarrow> bool \<Rightarrow> socket_message \<Rightarrow> node \<Rightarrow> node option" where
  "forward_message E type padding m s = do {
     (s1, buffer, text) \<leftarrow> message_payload padding (rm_data m) s;
     let (s2, sm) = mem_alloc (Socket \<lparr>sm_type = type, sm_id = rm_id m, sm_ud = rm_ud m, sm_buffer = buffer, sm_text = text\<rparr>) s1;
     let sz = of_nat (SIZEOF_socket_message + length text) OR push_bit MESSAGE_TYPE_SHIFT (ucast PTYPE_SOCKET);
     (s3, r) \<leftarrow> skynet_context_push E (of_nat (rm_opaque m)) \<lparr>msg_source = 0, msg_session = 0, msg_data = Some sm, msg_sz = sz\<rparr> s2;
     if r \<noteq> 0 then do {
       s4 \<leftarrow> skynet_free buffer s3;
       skynet_free (Some sm) s4 }
     else Some s3 }"

definition skynet_socket_poll :: "services \<Rightarrow> os_fun \<Rightarrow> node \<Rightarrow> socket_server \<Rightarrow> (node \<times> socket_server \<times> int) option" where
  "skynet_socket_poll E os s ss = do {
     (ss1, r, more') \<leftarrow> socket_server_poll os True ss;
     (case r of
        None \<Rightarrow> do { s1 \<leftarrow> skynet_error E None ''Unknown socket message type -1.'' s; Some (s1, ss1, -1) }
      | Some (t, m) \<Rightarrow>
          (case socket_message_type t of
             None \<Rightarrow> Some (s, ss1, 0)
           | Some (type, padding) \<Rightarrow> do {
               s1 \<leftarrow> forward_message E type padding m s;
               Some (s1, ss1, if more' then -1 else 1) })) }"

section \<open>The calls of services\<close>

text \<open>The global variable \<open>SOCKET_SERVER\<close> is the argument \<open>ss\<close>; the result of \<open>skynet_socket_init\<close> is its value.\<close>

definition skynet_socket_init :: "os_fun \<Rightarrow> socket_server option option" where
  "skynet_socket_init os = map_option snd (socket_server_create os)"

definition skynet_socket_exit :: "socket_server \<Rightarrow> socket_server" where
  "skynet_socket_exit ss = socket_server_exit ss"

definition skynet_socket_free :: "os_fun \<Rightarrow> socket_server \<Rightarrow> socket_server option" where
  "skynet_socket_free os ss = socket_server_release os ss"

text \<open>The warning lies on the stack and \<open>skynet_send\<close> copies it; the copy is made here.\<close>

definition check_wsz :: "services \<Rightarrow> addr \<Rightarrow> int \<Rightarrow> int \<Rightarrow> node \<Rightarrow> (node \<times> int) option" where
  "check_wsz E ctx id' wsz s =
     (if wsz < 0 then Some (s, -1)
      else if wsz > 1024 * 1024 then do {
        x \<leftarrow> nd_ctx s ctx;
        let (s1, tmp) = mem_alloc (Socket \<lparr>sm_type = 7, sm_id = id', sm_ud = to_int32 (wsz div 1024), sm_buffer = None, sm_text = []\<rparr>) s;
        (s2, _) \<leftarrow> skynet_send E (Some ctx) 0 (cx_handle x) (PTYPE_SOCKET OR PTYPE_TAG_DONTCOPY) 0 (Some tmp) (of_nat SIZEOF_socket_message) s1;
        Some (s2, 0) }
      else Some (s, 0))"

definition skynet_socket_send :: "services \<Rightarrow> os_fun \<Rightarrow> addr \<Rightarrow> int \<Rightarrow> sendbuf \<Rightarrow> node \<Rightarrow> socket_server \<Rightarrow> (node \<times> socket_server \<times> int) option" where
  "skynet_socket_send E os ctx id' b s ss = do {
     let (ss1, wsz) = socket_server_send os PRIORITY_HIGH id' b ss;
     (s1, r) \<leftarrow> check_wsz E ctx id' wsz s;
     Some (s1, ss1, r) }"

definition skynet_socket_send_lowpriority :: "os_fun \<Rightarrow> int \<Rightarrow> sendbuf \<Rightarrow> socket_server \<Rightarrow> socket_server" where
  "skynet_socket_send_lowpriority os id' b ss = fst (socket_server_send os PRIORITY_LOW id' b ss)"

text \<open>The owner is the handle of the calling service.\<close>

definition caller :: "addr \<Rightarrow> node \<Rightarrow> nat option" where
  "caller ctx s = map_option (unat \<circ> cx_handle) (nd_ctx s ctx)"

definition skynet_socket_listen :: "os_fun \<Rightarrow> addr \<Rightarrow> string option \<Rightarrow> int \<Rightarrow> int \<Rightarrow> node \<Rightarrow> socket_server \<Rightarrow> (socket_server \<times> int) option" where
  "skynet_socket_listen os ctx host port backlog s ss = do { source \<leftarrow> caller ctx s; Some (socket_server_listen os source host port backlog ss) }"

definition skynet_socket_connect :: "os_fun \<Rightarrow> addr \<Rightarrow> string \<Rightarrow> int \<Rightarrow> node \<Rightarrow> socket_server \<Rightarrow> (socket_server \<times> int) option" where
  "skynet_socket_connect os ctx host port s ss = do { source \<leftarrow> caller ctx s; Some (socket_server_connect os source host port ss) }"

definition skynet_socket_bind :: "addr \<Rightarrow> int \<Rightarrow> node \<Rightarrow> socket_server \<Rightarrow> (socket_server \<times> int) option" where
  "skynet_socket_bind ctx fd s ss = do { source \<leftarrow> caller ctx s; Some (socket_server_bind source fd ss) }"

text \<open>\<open>skynet_socket_close\<close> and \<open>skynet_socket_shutdown\<close>.\<close>

definition skynet_socket_close :: "bool \<Rightarrow> addr \<Rightarrow> int \<Rightarrow> node \<Rightarrow> socket_server \<Rightarrow> socket_server option" where
  "skynet_socket_close shutdown ctx id' s ss = do { source \<leftarrow> caller ctx s; Some (socket_server_close shutdown source id' ss) }"

definition skynet_socket_start :: "addr \<Rightarrow> int \<Rightarrow> node \<Rightarrow> socket_server \<Rightarrow> socket_server option" where
  "skynet_socket_start ctx id' s ss = do { source \<leftarrow> caller ctx s; Some (socket_server_start source id' ss) }"

definition skynet_socket_nodelay :: "int \<Rightarrow> socket_server \<Rightarrow> socket_server" where
  "skynet_socket_nodelay id' ss = socket_server_nodelay id' ss"

definition skynet_socket_udp_connect :: "os_fun \<Rightarrow> int \<Rightarrow> string \<Rightarrow> int \<Rightarrow> socket_server \<Rightarrow> socket_server \<times> int" where
  "skynet_socket_udp_connect os id' address port ss = socket_server_udp_connect os id' address port ss"

definition skynet_socket_udp :: "os_fun \<Rightarrow> addr \<Rightarrow> string option \<Rightarrow> int \<Rightarrow> node \<Rightarrow> socket_server \<Rightarrow> (socket_server \<times> int) option" where
  "skynet_socket_udp os ctx host port s ss = do { source \<leftarrow> caller ctx s; Some (socket_server_udp os source host port ss) }"

definition skynet_socket_udp_send ::
    "services \<Rightarrow> os_fun \<Rightarrow> addr \<Rightarrow> int \<Rightarrow> u8 list \<Rightarrow> sendbuf \<Rightarrow> node \<Rightarrow> socket_server \<Rightarrow> (node \<times> socket_server \<times> int) option" where
  "skynet_socket_udp_send E os ctx id' address b s ss = do {
     let (ss1, wsz) = socket_server_udp_send os id' address b ss;
     (s1, r) \<leftarrow> check_wsz E ctx id' wsz s;
     Some (s1, ss1, r) }"

definition skynet_socket_udp_address :: "skynet_socket_message \<Rightarrow> node \<Rightarrow> u8 list option option" where
  "skynet_socket_udp_address msg s =
     (if sm_type msg \<noteq> 6 then Some None
      else do {
        a \<leftarrow> sm_buffer msg;
        b \<leftarrow> nd_mem s a;
        (case b of
           Bytes bs \<Rightarrow> do {
             c_assert (None \<notin> set bs);
             Some (socket_server_udp_address \<lparr>rm_id = sm_id msg, rm_opaque = 0, rm_ud = sm_ud msg, rm_data = SBytes (map the bs)\<rparr>) }
         | _ \<Rightarrow> None) })"

section \<open>What the socket server reports\<close>

text \<open>The data of a report fits its type.\<close>

definition shaped :: "handled \<Rightarrow> bool" where
  "shaped r = (case r of None \<Rightarrow> True | Some (t, m) \<Rightarrow>
     (case t of
        SOCKET_DATA \<Rightarrow> (case rm_data m of SBytes bs \<Rightarrow> rm_ud m = int (length bs) | _ \<Rightarrow> False)
      | SOCKET_UDP \<Rightarrow> (case rm_data m of SBytes _ \<Rightarrow> True | _ \<Rightarrow> False)
      | SOCKET_CLOSE \<Rightarrow> rm_data m = NoData
      | SOCKET_EXIT \<Rightarrow> True
      | _ \<Rightarrow> (case rm_data m of SBytes _ \<Rightarrow> False | _ \<Rightarrow> True)))"

lemma shaped_simps [simp]:
  "shaped None" "shaped (Some (SOCKET_CLOSE, m)) \<longleftrightarrow> rm_data m = NoData"
  "shaped (Some (SOCKET_EXIT, m))"
  "shaped (Some (SOCKET_OPEN, m)) \<longleftrightarrow> (\<forall>bs. rm_data m \<noteq> SBytes bs)"
  "shaped (Some (SOCKET_ERROR, m)) \<longleftrightarrow> (\<forall>bs. rm_data m \<noteq> SBytes bs)"
  "shaped (Some (SOCKET_ACCEPT, m)) \<longleftrightarrow> (\<forall>bs. rm_data m \<noteq> SBytes bs)"
  "shaped (Some (SOCKET_UDP, m)) \<longleftrightarrow> (\<exists>bs. rm_data m = SBytes bs)"
  "shaped (Some (SOCKET_DATA, m)) \<longleftrightarrow> (\<exists>bs. rm_data m = SBytes bs \<and> rm_ud m = int (length bs))"
  by (auto simp: shaped_def split: sk_data.split)

lemma answer_text_shape [simp]: "answer_text a \<noteq> SBytes bs"
  by (simp add: answer_text_def split: answer.split)

lemma force_close_shape: "force_close os k ss = Some (ss', m) \<Longrightarrow> rm_data m = NoData"
  by (auto simp: force_close_def close_message_def Let_def split: if_splits)

lemma send_list_tcp_shaped:
  assumes "send_list_tcp os k p ss = Some x"
  shows "shaped (snd x)"
  by (rule send_list_tcp.raw_induct[where P = "\<lambda>os k p ss x. shaped (snd x)", OF _ assms])
    (auto simp: Let_def c_assert_def force_close_shape
      split: list.splits prod.splits answer.splits errno.splits if_splits Option.bind_splits)

lemma send_list_udp_shaped:
  assumes "send_list_udp os k p ss = Some x"
  shows "shaped (snd x)"
  by (rule send_list_udp.raw_induct[where P = "\<lambda>os k p ss x. shaped (snd x)", OF _ assms])
    (auto simp: Let_def split: list.splits prod.splits option.splits)

lemma send_list_shaped: "send_list os k p ss = Some x \<Longrightarrow> shaped (snd x)"
  using send_list_tcp_shaped send_list_udp_shaped by (auto simp: send_list_def split: if_splits)

lemma send_buffer_shaped: "send_buffer os k ss = Some x \<Longrightarrow> shaped (snd x)"
  by (auto simp: send_buffer_def c_assert_def Let_def force_close_shape dest!: send_list_shaped split: if_splits Option.bind_splits)

lemma send_socket_shaped: "send_socket os i b p a ss = Some x \<Longrightarrow> shaped (snd x)"
  by (auto simp: send_socket_def c_assert_def Let_def force_close_shape split: if_splits Option.bind_splits prod.splits option.splits)

lemma close_socket_shaped: "close_socket os i sh op ss = Some x \<Longrightarrow> shaped (snd x)"
  by (auto simp: close_socket_def c_assert_def Let_def force_close_shape dest!: send_buffer_shaped split: if_splits Option.bind_splits prod.splits option.splits)

lemma start_socket_shaped: "start_socket os i op ss = Some x \<Longrightarrow> shaped (snd x)"
  by (auto simp: start_socket_def Let_def force_close_shape split: if_splits Option.bind_splits prod.splits)

lemma creators_shaped:
  "bind_socket os i fd op ss = Some x \<Longrightarrow> shaped (snd x)" "listen_socket os i fd op ss = Some x \<Longrightarrow> shaped (snd x)"
  "open_socket os i port op host ss = Some x \<Longrightarrow> shaped (snd x)" "set_udp_address i a ss = Some x \<Longrightarrow> shaped (snd x)"
  by (auto simp: bind_socket_def listen_socket_def open_socket_def set_udp_address_def c_assert_def Let_def
      split: if_splits Option.bind_splits prod.splits option.splits answer.splits)

lemma ctrl_cmd_shaped: "ctrl_cmd os ss = Some x \<Longrightarrow> shaped (snd x)"
  by (auto simp: ctrl_cmd_def Let_def dest: creators_shaped send_socket_shaped close_socket_shaped start_socket_shaped
      split: list.splits request.splits Option.bind_splits)

lemma forward_shaped:
  "forward_message_tcp os k ss = Some x \<Longrightarrow> shaped (snd x)" "forward_message_udp os k ss = Some x \<Longrightarrow> shaped (snd x)"
  "report_connect os k ss = Some x \<Longrightarrow> shaped (snd x)"
  by (auto simp: forward_message_tcp_def forward_message_udp_def report_connect_def c_assert_def Let_def force_close_shape
      split: if_splits Option.bind_splits prod.splits answer.splits errno.splits)

lemma report_accept_shape:
  "report_accept os k ss = Some (ss', Inr m) \<Longrightarrow> \<forall>bs. rm_data m \<noteq> SBytes bs"
  "report_accept os k ss = Some (ss', Inl (Some m)) \<Longrightarrow> \<forall>bs. rm_data m \<noteq> SBytes bs"
  by (auto simp: report_accept_def Let_def split: if_splits Option.bind_splits prod.splits answer.splits option.splits)

lemma dispatch_event_shaped: "dispatch_event os e k ss = Some x \<Longrightarrow> shaped (snd x)"
  by (auto simp: dispatch_event_def Let_def dest!: forward_shaped send_buffer_shaped report_accept_shape
      split: socket_type.splits if_splits Option.bind_splits prod.splits sum.splits option.splits)

lemma socket_server_poll_shaped:
  assumes "socket_server_poll os more' ss = Some x"
  shows "shaped (fst (snd x))"
  by (rule socket_server_poll.raw_induct[where P = "\<lambda>os more' ss x. shaped (fst (snd x))", OF _ assms])
    (auto simp: Let_def dest!: ctrl_cmd_shaped dispatch_event_shaped split: if_splits Option.bind_splits prod.splits option.splits)

section \<open>Delivery\<close>

text \<open>The block of a message for a report.\<close>

definition socket_block :: "int \<Rightarrow> bool \<Rightarrow> socket_message \<Rightarrow> ptr \<Rightarrow> skynet_socket_message" where
  "socket_block type padding m buffer = \<lparr>sm_type = type, sm_id = rm_id m, sm_ud = rm_ud m, sm_buffer = buffer,
     sm_text = (case rm_data m of SText t \<Rightarrow> map (\<lambda>c. of_nat (of_char c)) (take 128 t) | _ \<Rightarrow> [])\<rparr>"

text \<open>Memory in which the buffer of a report has been placed.\<close>

definition with_data :: "socket_message \<Rightarrow> ptr \<Rightarrow> (addr \<rightharpoonup> block) \<Rightarrow> (addr \<rightharpoonup> block) \<Rightarrow> bool" where
  "with_data m buffer M M' \<longleftrightarrow> (case rm_data m of
       SBytes bs \<Rightarrow> \<exists>a. buffer = Some a \<and> M a = None \<and> M' = M(a \<mapsto> Bytes (map Some bs))
     | _ \<Rightarrow> buffer = None \<and> M' = M)"

definition payload_ok :: "bool \<Rightarrow> sk_data \<Rightarrow> bool" where
  "payload_ok padding d = (case d of NoData \<Rightarrow> True | SText _ \<Rightarrow> padding | SBytes _ \<Rightarrow> \<not> padding)"

lemma message_payload_spec:
  assumes "node_inv s" "payload_ok padding (rm_data m)"
  shows "\<exists>s1 buffer tx. message_payload padding (rm_data m) s = Some (s1, buffer, tx) \<and> node_inv s1 \<and> mailbox s1 = mailbox s
    \<and> with_data m buffer (nd_mem s) (nd_mem s1)
    \<and> tx = (case rm_data m of SText t \<Rightarrow> map (\<lambda>c. of_nat (of_char c)) (take 128 t) | _ \<Rightarrow> [])"
proof (cases "rm_data m")
  case (SBytes bs)
  obtain s1 a where a: "mem_alloc (Bytes (map Some bs)) s = (s1, a)" by fastforce
  from mem_alloc_spec[OF assms(1) a] SBytes assms(2) a show ?thesis by (auto simp: message_payload_def with_data_def payload_ok_def)
qed (use assms in \<open>auto simp: message_payload_def with_data_def payload_ok_def\<close>)

lemma forward_message_spec:
  assumes inv: "node_inv s" and ok: "payload_ok padding (rm_data m)"
  shows "\<exists>s' sm buffer M. forward_message E type padding m s = Some s' \<and> node_inv s' \<and> with_data m buffer (nd_mem s) M \<and> M sm = None
    \<and> (case mailbox s (of_nat (rm_opaque m)) of
         None \<Rightarrow> mailbox s' = mailbox s \<and> nd_mem s' = nd_mem s
       | Some ms \<Rightarrow> nd_mem s' = M(sm \<mapsto> Socket (socket_block type padding m buffer))
           \<and> mailbox s' = (mailbox s)(of_nat (rm_opaque m) \<mapsto> ms @ [\<lparr>msg_source = 0, msg_session = 0, msg_data = Some sm,
               msg_sz = of_nat (SIZEOF_socket_message + length (sm_text (socket_block type padding m buffer))) OR push_bit MESSAGE_TYPE_SHIFT (ucast PTYPE_SOCKET)\<rparr>]))"
proof -
  from message_payload_spec[OF assms] obtain s1 buffer tx where
    p: "message_payload padding (rm_data m) s = Some (s1, buffer, tx)" "node_inv s1" "mailbox s1 = mailbox s"
      "with_data m buffer (nd_mem s) (nd_mem s1)" "tx = sm_text (socket_block type padding m buffer)" by (auto simp: socket_block_def)
  let ?blk = "socket_block type padding m buffer"
  have blk: "\<lparr>sm_type = type, sm_id = rm_id m, sm_ud = rm_ud m, sm_buffer = buffer, sm_text = tx\<rparr> = ?blk" using p(5) by (simp add: socket_block_def)
  obtain s2 sm where a: "mem_alloc (Socket ?blk) s1 = (s2, sm)" by fastforce
  note al = mem_alloc_spec[OF p(2) a]
  define msg where "msg = \<lparr>msg_source = 0, msg_session = 0, msg_data = Some sm,
     msg_sz = of_nat (SIZEOF_socket_message + length (sm_text ?blk)) OR push_bit MESSAGE_TYPE_SHIFT (ucast PTYPE_SOCKET)\<rparr>"
  let ?h = "of_nat (rm_opaque m) :: u32"
  have run: "forward_message E type padding m s = do {
      (s3, r) \<leftarrow> skynet_context_push E ?h msg s2;
      if r \<noteq> 0 then do { s4 \<leftarrow> skynet_free buffer s3; skynet_free (Some sm) s4 } else Some s3 }"
    by (simp add: forward_message_def p(1) blk a msg_def Let_def p(5)[symmetric])
  from context_push_spec[OF al(1), of E ?h msg] obtain s3 r where
    c: "skynet_context_push E ?h msg s2 = Some (s3, r)" "node_inv s3" "same_but_queues s2 s3"
      "case mailbox s2 ?h of None \<Rightarrow> r = - 1 \<and> s3 = s2 | Some ms \<Rightarrow> r = 0 \<and> mailbox s3 = (mailbox s2)(?h \<mapsto> ms @ [msg])" by blast
  have mb: "mailbox s2 = mailbox s" using al(2) p(3) by simp
  show ?thesis
  proof (cases "mailbox s ?h")
    case (Some ms)
    then have "forward_message E type padding m s = Some s3" "mailbox s3 = (mailbox s)(?h \<mapsto> ms @ [msg])" using run c mb by simp_all
    moreover have "nd_mem s3 = (nd_mem s1)(sm \<mapsto> Socket ?blk)" using same_but_queues_fields(1)[OF c(3)] al(3) by simp
    ultimately show ?thesis using c(2) p(4) al(4) Some unfolding msg_def
      by (intro exI[of _ s3] exI[of _ sm] exI[of _ buffer] exI[of _ "nd_mem s1"]) simp
  next
    case None
    then have r: "r = - 1" "s3 = s2" using c(4) mb by simp_all
    obtain s4 where s4: "skynet_free buffer s2 = Some s4" "node_inv s4" "mailbox s4 = mailbox s"
      "nd_mem s4 = (nd_mem s)(sm \<mapsto> Socket ?blk)" "nd_mem s sm = None"
    proof (cases buffer)
      case None
      then have "nd_mem s1 = nd_mem s" using p(4) by (auto simp: with_data_def split: sk_data.splits)
      with None that[of s2] al mb show ?thesis by (simp add: skynet_free_def)
    next
      case (Some b)
      with p(4) obtain bs where b: "nd_mem s b = None" "nd_mem s1 = (nd_mem s)(b \<mapsto> Bytes (map Some bs))"
        by (auto simp: with_data_def split: sk_data.splits)
      with al(3,4) have ne: "sm \<noteq> b" "nd_mem s2 b \<noteq> None" "nd_mem s sm = None" by (auto split: if_splits)
      from skynet_free_spec[OF al(1) ne(2)] obtain s4 where
        f: "skynet_free (Some b) s2 = Some s4" "node_inv s4" "mailbox s4 = mailbox s2" "nd_mem s4 = (nd_mem s2)(b := None)" by blast
      have "(nd_mem s2)(b := None) = (nd_mem s)(sm \<mapsto> Socket ?blk)" using al(3) b ne by (auto simp: fun_eq_iff)
      with that[of s4] f mb Some ne(3) show ?thesis by simp
    qed
    have "nd_mem s4 sm \<noteq> None" using s4(4) by simp
    from skynet_free_spec[OF s4(2) this] obtain s5 where
      f: "skynet_free (Some sm) s4 = Some s5" "node_inv s5" "mailbox s5 = mailbox s4" "nd_mem s5 = (nd_mem s4)(sm := None)" by blast
    have "nd_mem s5 = nd_mem s" using f(4) s4(4,5) by (auto simp: fun_eq_iff)
    moreover have "forward_message E type padding m s = Some s5" using run c(1) r s4(1) f(1) by simp
    ultimately show ?thesis using f(2,3) s4(3) p(4) al(4) None
      by (intro exI[of _ s5] exI[of _ sm] exI[of _ buffer] exI[of _ "nd_mem s1"]) simp
  qed
qed

lemma shaped_payload: "shaped (Some (t, m)) \<Longrightarrow> socket_message_type t = Some (type, padding) \<Longrightarrow> payload_ok padding (rm_data m)"
  by (cases t) (auto simp: socket_message_type_def payload_ok_def split: sk_data.split)

text \<open>C15: What the socket server reports reaches the service that owns the socket.  When \<open>socket_server_poll\<close> returns a report other than the end, \<open>skynet_socket_poll\<close> adds exactly one
  message to the mailbox of the owner, with source and session 0 and the type of socket messages in its size; its block has the type, the id and the number of the report, the
  first 128 characters of its text behind it, and for data a pointer to a block with exactly the bytes that were read.  When the owner is gone no mailbox changes and both blocks are
  freed.  The report always has the kind of data its type asks for, so that nothing else can happen.\<close>

theorem socket_report_delivered:
  assumes inv: "node_inv s" and poll: "socket_server_poll os True ss = Some (ss1, Some (t, m), more')" and t: "socket_message_type t = Some (type, padding)"
  shows "\<exists>s' sm buffer M. skynet_socket_poll E os s ss = Some (s', ss1, if more' then -1 else 1) \<and> node_inv s'
    \<and> with_data m buffer (nd_mem s) M \<and> M sm = None
    \<and> (case mailbox s (of_nat (rm_opaque m)) of
         None \<Rightarrow> mailbox s' = mailbox s \<and> nd_mem s' = nd_mem s
       | Some ms \<Rightarrow> nd_mem s' = M(sm \<mapsto> Socket (socket_block type padding m buffer))
           \<and> mailbox s' = (mailbox s)(of_nat (rm_opaque m) \<mapsto> ms @ [\<lparr>msg_source = 0, msg_session = 0, msg_data = Some sm,
               msg_sz = of_nat (SIZEOF_socket_message + length (sm_text (socket_block type padding m buffer))) OR push_bit MESSAGE_TYPE_SHIFT (ucast PTYPE_SOCKET)\<rparr>]))"
proof -
  from socket_server_poll_shaped[OF poll] have "shaped (Some (t, m))" by simp
  from forward_message_spec[OF inv shaped_payload[OF this t], of E type] obtain s' where
    f: "forward_message E type padding m s = Some s'" and "\<exists>sm buffer M. node_inv s' \<and> with_data m buffer (nd_mem s) M \<and> M sm = None
      \<and> (case mailbox s (of_nat (rm_opaque m)) of
         None \<Rightarrow> mailbox s' = mailbox s \<and> nd_mem s' = nd_mem s
       | Some ms \<Rightarrow> nd_mem s' = M(sm \<mapsto> Socket (socket_block type padding m buffer))
           \<and> mailbox s' = (mailbox s)(of_nat (rm_opaque m) \<mapsto> ms @ [\<lparr>msg_source = 0, msg_session = 0, msg_data = Some sm,
               msg_sz = of_nat (SIZEOF_socket_message + length (sm_text (socket_block type padding m buffer))) OR push_bit MESSAGE_TYPE_SHIFT (ucast PTYPE_SOCKET)\<rparr>]))"
    by blast
  moreover have "skynet_socket_poll E os s ss = Some (s', ss1, if more' then -1 else 1)"
    by (simp add: skynet_socket_poll_def poll t f)
  ultimately show ?thesis by blast
qed

lemma demo_poll: "socket_server_poll os_demo True demo1
    = Some (demo2, Some (SOCKET_OPEN, \<lparr>rm_id = 1, rm_opaque = 1, rm_ud = 0, rm_data = NoData\<rparr>), True)"
  by (subst socket_server_poll_turn) (simp add: demo_turns)

theorem socket_report_delivered_witness:
  "\<exists>s' sm. skynet_socket_poll world0 os_demo node1 demo1 = Some (s', demo2, -1)
     \<and> nd_mem s' sm = Some (Socket \<lparr>sm_type = 2, sm_id = 1, sm_ud = 0, sm_buffer = None, sm_text = []\<rparr>)
     \<and> mailbox s' 1 = Some [\<lparr>msg_source = 0, msg_session = 0, msg_data = Some sm, msg_sz = 0x0600000000000018\<rparr>]"
proof -
  have t: "socket_message_type SOCKET_OPEN = Some (2, True)" by (simp add: socket_message_type_def)
  from socket_report_delivered[OF node1_spec(1) demo_poll t, of world0] show ?thesis
    by (auto simp: node1_spec(2) with_data_def socket_block_def SIZEOF_socket_message_def MESSAGE_TYPE_SHIFT_def PTYPE_SOCKET_def)
qed

end
