(* ===== verification/Linebuf.thy ===== *)
theory Linebuf
  imports Bytes
begin

text \<open>
  The read buffer of a socket in a Lua service, \<open>lualib-src/lua-socket.c\<close>: the blocks that arrive are chained in nodes from a pool, and are read by number of bytes, up to a
  separator, or all together.  A chain of nodes is the list from \<open>head\<close> to \<open>tail\<close>; a node is known by its number in the
  pool.  Blocks that are freed are noted in their order.  The integers are C \<open>int\<close>s: a size of \<open>2\<^sup>3\<^sup>1\<close> and more is a violation.
  The arguments have the types the calls ask for (a buffer, a pool table, a block with its length).
\<close>

section \<open>State\<close>

definition LARGE_PAGE_NODE :: nat where [cdefs]: "LARGE_PAGE_NODE = 12"

record buffer_node =
  bn_node :: nat
  bn_msg :: addr
  bn_data :: "u8 list"

record socket_buffer =
  sbf_size :: int
  sbf_offset :: int
  sbf_nodes :: "buffer_node list"

text \<open>The table of the pool: the free list, whose head is at index 1, and the number of nodes of each chunk, from index 2 on.\<close>

record buffer_pool =
  bp_free :: "nat list"
  bp_chunks :: "nat list"

record rbuf =
  rb_buf :: socket_buffer
  rb_pool :: buffer_pool
  rb_freed :: "addr list"

definition lnewbuffer :: socket_buffer where
  "lnewbuffer = \<lparr>sbf_size = 0, sbf_offset = 0, sbf_nodes = []\<rparr>"

section \<open>Operations\<close>

text \<open>The nodes of a new chunk are linked in their order.\<close>

definition lnewpool :: "nat \<Rightarrow> buffer_pool \<Rightarrow> buffer_pool" where
  "lnewpool sz p = p\<lparr>bp_free := [sum_list (bp_chunks p)..<sum_list (bp_chunks p) + sz], bp_chunks := bp_chunks p @ [sz]\<rparr>"

text \<open>\<open>lua_rawlen\<close> of the table, and the size of the next chunk.\<close>

definition pool_size :: "buffer_pool \<Rightarrow> nat" where
  "pool_size p =
     (let tsz = (if bp_chunks p = [] then 1 else 1 + length (bp_chunks p))
      in if tsz \<le> LARGE_PAGE_NODE - 3 then push_bit tsz 8 else push_bit (LARGE_PAGE_NODE - 3) 8)"

definition take_node :: "buffer_pool \<Rightarrow> (nat \<times> buffer_pool) option" where
  "take_node p =
     (let p1 = (if bp_free p = [] then lnewpool (pool_size p) p else p)
      in case bp_free p1 of [] \<Rightarrow> None | n # ns \<Rightarrow> Some (n, p1\<lparr>bp_free := ns\<rparr>))"

definition lpushbuffer :: "addr \<Rightarrow> u8 list \<Rightarrow> rbuf \<Rightarrow> (rbuf \<times> int) lr" where
  "lpushbuffer msg bs r =
     (case take_node (rb_pool r) of
        None \<Rightarrow> Bad
      | Some (n, p) \<Rightarrow>
          (let sb = rb_buf r; size = sbf_size sb + int (length bs)
           in if size \<ge> 2 ^ 31 then Bad
              else Ret (r\<lparr>rb_buf := sb\<lparr>sbf_size := size, sbf_nodes := sbf_nodes sb @ [\<lparr>bn_node = n, bn_msg = msg, bn_data = bs\<rparr>]\<rparr>,
                rb_pool := p\<rparr>, size)))"

definition return_free_node :: "rbuf \<Rightarrow> rbuf lr" where
  "return_free_node r =
     (case sbf_nodes (rb_buf r) of
        [] \<Rightarrow> Bad
      | n # ns \<Rightarrow> Ret (r\<lparr>rb_buf := (rb_buf r)\<lparr>sbf_offset := 0, sbf_nodes := ns\<rparr>,
          rb_pool := (rb_pool r)\<lparr>bp_free := bn_node n # bp_free (rb_pool r)\<rparr>, rb_freed := rb_freed r @ [bn_msg n]\<rparr>))"

text \<open>Reading \<open>len\<close> bytes at \<open>from\<close> in a node.\<close>

definition node_bytes :: "buffer_node \<Rightarrow> int \<Rightarrow> int \<Rightarrow> u8 list lr" where
  "node_bytes n from len =
     (if 0 \<le> len \<and> 0 \<le> from \<and> from + len \<le> int (length (bn_data n)) then Ret (take (nat len) (drop (nat from) (bn_data n))) else Bad)"

text \<open>The loop of \<open>pop_lstring\<close>; \<open>b\<close> is the Lua buffer.\<close>

function pop_loop :: "int \<Rightarrow> int \<Rightarrow> u8 list \<Rightarrow> rbuf \<Rightarrow> (rbuf \<times> u8 list) lr" where
  "pop_loop sz skip b r =
     (case sbf_nodes (rb_buf r) of
        [] \<Rightarrow> Bad
      | current # _ \<Rightarrow>
          (let offset = sbf_offset (rb_buf r); bytes = int (length (bn_data current)) - offset
           in if bytes \<ge> sz then
                lbind (if sz > skip then node_bytes current offset (sz - skip) else Ret []) (\<lambda>out.
                  let r1 = r\<lparr>rb_buf := (rb_buf r)\<lparr>sbf_offset := offset + sz\<rparr>\<rparr>
                  in if bytes = sz then lbind (return_free_node r1) (\<lambda>r2. Ret (r2, b @ out)) else Ret (r1, b @ out))
              else
                lbind (if sz - skip > 0 then node_bytes current offset (min (sz - skip) bytes) else Ret []) (\<lambda>out.
                  case return_free_node r of
                    Ret r1 \<Rightarrow> if sz - bytes = 0 then Ret (r1, b @ out) else pop_loop (sz - bytes) skip (b @ out) r1
                  | Raise \<Rightarrow> Raise
                  | Bad \<Rightarrow> Bad)))"
  by pat_completeness auto
termination
  by (relation "measure (\<lambda>(sz, skip, b, r). length (sbf_nodes (rb_buf r)))") (auto simp: return_free_node_def split: list.splits)

declare pop_loop.simps [simp del]

definition pop_lstring :: "int \<Rightarrow> int \<Rightarrow> rbuf \<Rightarrow> (rbuf \<times> u8 list) lr" where
  "pop_lstring sz skip r =
     (case sbf_nodes (rb_buf r) of
        [] \<Rightarrow> Bad
      | current # _ \<Rightarrow>
          (let offset = sbf_offset (rb_buf r); bytes = int (length (bn_data current)) - offset
           in if sz < bytes then
                lbind (node_bytes current offset (sz - skip)) (\<lambda>out. Ret (r\<lparr>rb_buf := (rb_buf r)\<lparr>sbf_offset := offset + sz\<rparr>\<rparr>, out))
              else if sz = bytes then
                lbind (node_bytes current offset (sz - skip)) (\<lambda>out. lbind (return_free_node r) (\<lambda>r1. Ret (r1, out)))
              else pop_loop sz skip [] r))"

text \<open>The first four bytes at most, as a number.\<close>

definition lheader :: "u8 list \<Rightarrow> int lr" where
  "lheader s = (if length s > 4 \<or> length s < 1 then Raise else Ret (int (foldl (\<lambda>sz x. push_bit 8 sz OR unat x) 0 s)))"

abbreviation add_size :: "int \<Rightarrow> rbuf \<Rightarrow> rbuf" where
  "add_size n r \<equiv> r\<lparr>rb_buf := (rb_buf r)\<lparr>sbf_size := sbf_size (rb_buf r) + n\<rparr>\<rparr>"

text \<open>\<open>None\<close> is \<open>nil\<close>; the second value is the size that is left.\<close>

definition lpopbuffer :: "int \<Rightarrow> rbuf \<Rightarrow> (rbuf \<times> u8 list option \<times> int) lr" where
  "lpopbuffer sz r =
     (if sbf_size (rb_buf r) < sz \<or> sz = 0 then Ret (r, None, sbf_size (rb_buf r))
      else lbind (pop_lstring sz 0 r) (\<lambda>(r1, out). let r2 = add_size (- sz) r1 in Ret (r2, Some out, sbf_size (rb_buf r2))))"

fun clear_loop :: "buffer_node list \<Rightarrow> rbuf \<Rightarrow> rbuf lr" where
  "clear_loop [] r = Ret r"
| "clear_loop (_ # ns) r = lbind (return_free_node r) (clear_loop ns)"

definition lclearbuffer :: "rbuf \<Rightarrow> rbuf lr" where
  "lclearbuffer r = lbind (clear_loop (sbf_nodes (rb_buf r)) r) (\<lambda>r1. Ret (r1\<lparr>rb_buf := (rb_buf r1)\<lparr>sbf_size := 0\<rparr>\<rparr>))"

fun readall_loop :: "buffer_node list \<Rightarrow> u8 list \<Rightarrow> rbuf \<Rightarrow> (rbuf \<times> u8 list) lr" where
  "readall_loop [] b r = Ret (r, b)"
| "readall_loop (current # ns) b r =
     lbind (node_bytes current (sbf_offset (rb_buf r)) (int (length (bn_data current)) - sbf_offset (rb_buf r))) (\<lambda>out.
       lbind (return_free_node r) (readall_loop ns (b @ out)))"

definition lreadall :: "rbuf \<Rightarrow> (rbuf \<times> u8 list) lr" where
  "lreadall r = lbind (readall_loop (sbf_nodes (rb_buf r)) [] r) (\<lambda>(r1, b). Ret (r1\<lparr>rb_buf := (rb_buf r1)\<lparr>sbf_size := 0\<rparr>\<rparr>, b))"

text \<open>A node that ends before \<open>from\<close> would move \<open>sep\<close> backwards.\<close>

fun check_sep :: "buffer_node list \<Rightarrow> int \<Rightarrow> u8 list \<Rightarrow> bool lr" where
  "check_sep [] from sep = Bad"
| "check_sep (node # next) from sep =
     (let sz = int (length (bn_data node)) - from
      in if sz \<ge> int (length sep) then lbind (node_bytes node from (int (length sep))) (\<lambda>x. Ret (x = sep))
         else if sz < 0 then Bad
         else lbind (node_bytes node from sz) (\<lambda>x.
           if x \<noteq> take (nat sz) sep then Ret False else check_sep next 0 (drop (nat sz) sep)))"

text \<open>The search of \<open>lreadline\<close> with \<open>n\<close> turns left: the position of the separator.\<close>

fun readline_scan :: "nat \<Rightarrow> int \<Rightarrow> buffer_node list \<Rightarrow> int \<Rightarrow> int \<Rightarrow> u8 list \<Rightarrow> int option lr" where
  "readline_scan 0 i current from bytes sep = Ret None"
| "readline_scan (Suc n) i current from bytes sep =
     lbind (check_sep current from sep) (\<lambda>found.
       if found then Ret (Some i)
       else if bytes - 1 = 0 then
         (case tl current of
            [] \<Rightarrow> Ret None
          | node # next \<Rightarrow> readline_scan n (i + 1) (node # next) 0 (int (length (bn_data node))) sep)
       else readline_scan n (i + 1) current (from + 1) (bytes - 1) sep)"

datatype line = NoLine | Found | Line "u8 list"

text \<open>\<open>check\<close>: no pool is given.\<close>

definition lreadline :: "bool \<Rightarrow> u8 list \<Rightarrow> rbuf \<Rightarrow> (rbuf \<times> line) lr" where
  "lreadline check sep r =
     (case sbf_nodes (rb_buf r) of
        [] \<Rightarrow> Ret (r, NoLine)
      | current # next \<Rightarrow>
          (let sb = rb_buf r; seplen = int (length sep); from = sbf_offset sb
           in lbind (readline_scan (nat (sbf_size sb - seplen + 1)) 0 (current # next) from (int (length (bn_data current)) - from) sep)
             (\<lambda>found. case found of
                None \<Rightarrow> Ret (r, NoLine)
              | Some i \<Rightarrow>
                  if check then Ret (r, Found)
                  else lbind (pop_lstring (i + seplen) seplen r) (\<lambda>(r1, out). Ret (add_size (- (i + seplen)) r1, Line out)))))"

section \<open>What the buffer stands for\<close>

definition content :: "rbuf \<Rightarrow> u8 list" where
  "content r = drop (nat (sbf_offset (rb_buf r))) (concat (map bn_data (sbf_nodes (rb_buf r))))"

text \<open>The blocks that were handed over, in their order: those freed and those in the chain.\<close>

definition rb_owned :: "rbuf \<Rightarrow> addr list" where
  "rb_owned r = rb_freed r @ map bn_msg (sbf_nodes (rb_buf r))"

text \<open>Every node of the pool is on the free list or in the chain, and on one place only.\<close>

definition pool_ok :: "rbuf \<Rightarrow> bool" where
  [inv_defs]: "pool_ok r \<longleftrightarrow> distinct (bp_free (rb_pool r) @ map bn_node (sbf_nodes (rb_buf r)))
     \<and> set (bp_free (rb_pool r) @ map bn_node (sbf_nodes (rb_buf r))) = {..<sum_list (bp_chunks (rb_pool r))}"

definition chain_ok :: "rbuf \<Rightarrow> bool" where
  [inv_defs]: "chain_ok r \<longleftrightarrow> (\<forall>n \<in> set (sbf_nodes (rb_buf r)). bn_data n \<noteq> []) \<and> pool_ok r
     \<and> (case sbf_nodes (rb_buf r) of [] \<Rightarrow> sbf_offset (rb_buf r) = 0
        | n # _ \<Rightarrow> 0 \<le> sbf_offset (rb_buf r) \<and> sbf_offset (rb_buf r) < int (length (bn_data n)))"

definition rbuf_ok :: "rbuf \<Rightarrow> bool" where
  [inv_defs]: "rbuf_ok r \<longleftrightarrow> chain_ok r \<and> sbf_size (rb_buf r) = int (length (content r)) \<and> sbf_size (rb_buf r) < 2 ^ 31"

text \<open>\<open>rb_reads r r' n\<close>: the first \<open>n\<close> bytes are gone.\<close>

definition rb_reads :: "rbuf \<Rightarrow> rbuf \<Rightarrow> nat \<Rightarrow> bool" where
  "rb_reads r r' n \<longleftrightarrow> chain_ok r' \<and> content r' = drop n (content r) \<and> rb_owned r' = rb_owned r \<and> sbf_size (rb_buf r') = sbf_size (rb_buf r)"

lemma content_Cons:
  assumes "sbf_nodes (rb_buf r) = n # ns" "sbf_offset (rb_buf r) \<le> int (length (bn_data n))"
  shows "content r = drop (nat (sbf_offset (rb_buf r))) (bn_data n) @ concat (map bn_data ns)"
  using assms by (simp add: content_def nat_le_iff)

lemma free_node_ok:
  assumes "chain_ok r" "sbf_nodes (rb_buf r) = n # ns"
  shows "\<exists>r'. return_free_node r = Ret r' \<and> chain_ok r' \<and> content r' = concat (map bn_data ns) \<and> rb_owned r' = rb_owned r
    \<and> sbf_size (rb_buf r') = sbf_size (rb_buf r) \<and> sbf_nodes (rb_buf r') = ns \<and> sbf_offset (rb_buf r') = 0"
  using assms by (auto simp: return_free_node_def chain_ok_def pool_ok_def content_def rb_owned_def split: list.split)

lemma free_node_offset:
  "sbf_nodes (rb_buf r) \<noteq> [] \<Longrightarrow> return_free_node (r\<lparr>rb_buf := (rb_buf r)\<lparr>sbf_offset := k\<rparr>\<rparr>) = return_free_node r"
  by (auto simp: return_free_node_def split: list.split)

lemma advance_ok:
  assumes "chain_ok r" "sbf_nodes (rb_buf r) = n # ns" "0 \<le> k" "sbf_offset (rb_buf r) + k < int (length (bn_data n))"
  shows "rb_reads r (r\<lparr>rb_buf := (rb_buf r)\<lparr>sbf_offset := sbf_offset (rb_buf r) + k\<rparr>\<rparr>) (nat k)"
  using assms by (auto simp: rb_reads_def chain_ok_def pool_ok_def content_def rb_owned_def nat_add_distrib add.commute)

lemma pop_loop_ok:
  assumes "chain_ok r" "0 \<le> skip" "0 < sz" "sz \<le> int (length (content r))"
  shows "\<exists>r'. pop_loop sz skip b r = Ret (r', b @ take (nat (sz - skip)) (content r)) \<and> rb_reads r r' (nat sz)"
  using assms
proof (induction "length (sbf_nodes (rb_buf r))" arbitrary: r sz b rule: less_induct)
  case less
  obtain n ns where n: "sbf_nodes (rb_buf r) = n # ns" using less.prems by (cases "sbf_nodes (rb_buf r)") (auto simp: content_def)
  define k where "k = sbf_offset (rb_buf r)"
  define d where "d = drop (nat k) (bn_data n)"
  have k: "0 \<le> k" "k < int (length (bn_data n))" using less.prems(1) n by (simp_all add: chain_ok_def k_def)
  have c: "content r = d @ concat (map bn_data ns)" using content_Cons[OF n] k by (simp add: k_def d_def)
  have bytes: "int (length (bn_data n)) - k = int (length d)" "0 < length d" using k by (simp_all add: d_def)
  have get: "node_bytes n k len = Ret (take (nat len) d)" if "0 \<le> len" "len \<le> int (length d)" for len
  proof -
    have "k + len \<le> int (length (bn_data n))" using that(2) bytes(1) by linarith
    with that(1) k(1) show ?thesis by (simp add: node_bytes_def d_def)
  qed
  from free_node_ok[OF less.prems(1) n] obtain r1 where f: "return_free_node r = Ret r1" "chain_ok r1" "content r1 = concat (map bn_data ns)"
    "rb_owned r1 = rb_owned r" "sbf_size (rb_buf r1) = sbf_size (rb_buf r)" "sbf_nodes (rb_buf r1) = ns" by blast
  show ?case
  proof (cases "sz \<le> int (length d)")
    case True
    have out: "(if sz > skip then node_bytes n k (sz - skip) else Ret []) = Ret (take (nat (sz - skip)) (content r))"
      using True less.prems(2) get[of "sz - skip"] by (simp add: c nat_le_iff)
    let ?r = "r\<lparr>rb_buf := (rb_buf r)\<lparr>sbf_offset := k + sz\<rparr>\<rparr>"
    show ?thesis
    proof (cases "sz = int (length d)")
      case eq: True
      have "return_free_node ?r = Ret r1" using f(1) n by (simp add: free_node_offset)
      then have "pop_loop sz skip b r = Ret (r1, b @ take (nat (sz - skip)) (content r))"
        by (subst pop_loop.simps) (simp add: n k_def[symmetric] Let_def bytes(1) eq[symmetric] out)
      moreover have "rb_reads r r1 (nat sz)" using f eq c by (simp add: rb_reads_def)
      ultimately show ?thesis by blast
    next
      case False
      then have "pop_loop sz skip b r = Ret (?r, b @ take (nat (sz - skip)) (content r))"
        using True by (subst pop_loop.simps) (simp add: n k_def[symmetric] Let_def bytes(1) out)
      moreover have "rb_reads r ?r (nat sz)" using advance_ok[OF less.prems(1) n, of sz] less.prems(3) True False bytes by (simp add: k_def)
      ultimately show ?thesis by blast
    qed
  next
    case False
    define x where "x = take (nat (sz - skip)) d"
    have "(if sz - skip > 0 then node_bytes n k (min (sz - skip) (int (length d))) else Ret []) = Ret x"
      using get[of "min (sz - skip) (int (length d))"] by (auto simp: x_def min_def)
    then have run: "pop_loop sz skip b r = pop_loop (sz - int (length d)) skip (b @ x) r1"
      using False by (subst pop_loop.simps) (cases "skip < sz"; simp add: n k_def[symmetric] Let_def bytes(1) f(1))
    have "length (sbf_nodes (rb_buf r1)) < length (sbf_nodes (rb_buf r))" using f(6) n by simp
    from less.hyps[OF this f(2) less.prems(2), of "sz - int (length d)" "b @ x"] False less.prems(4) c f(3) obtain r' where
      r': "pop_loop (sz - int (length d)) skip (b @ x) r1 = Ret (r', (b @ x) @ take (nat (sz - int (length d) - skip)) (content r1))"
      "rb_reads r1 r' (nat (sz - int (length d)))" by auto
    have nat: "nat (sz - int (length d) - skip) = nat (sz - skip) - length d" by simp
    have "x @ take (nat (sz - int (length d) - skip)) (content r1) = take (nat (sz - skip)) (content r)"
      unfolding nat x_def f(3) c by simp
    moreover have "rb_reads r r' (nat sz)" using r'(2) f c False by (auto simp: rb_reads_def nat_diff_distrib)
    ultimately show ?thesis using run r'(1) by simp
  qed
qed

lemma pop_lstring_ok:
  assumes "chain_ok r" "0 \<le> skip" "skip \<le> sz" "sz \<le> int (length (content r))" "content r \<noteq> []"
  shows "\<exists>r'. pop_lstring sz skip r = Ret (r', take (nat (sz - skip)) (content r)) \<and> rb_reads r r' (nat sz)"
proof -
  obtain n ns where n: "sbf_nodes (rb_buf r) = n # ns" using assms(5) by (cases "sbf_nodes (rb_buf r)") (auto simp: content_def)
  define k where "k = sbf_offset (rb_buf r)"
  define d where "d = drop (nat k) (bn_data n)"
  have k: "0 \<le> k" "k < int (length (bn_data n))" using assms(1) n by (simp_all add: chain_ok_def k_def)
  have c: "content r = d @ concat (map bn_data ns)" using content_Cons[OF n] k by (simp add: k_def d_def)
  have bytes: "int (length (bn_data n)) - k = int (length d)" using k by (simp add: d_def)
  have get: "node_bytes n k (sz - skip) = Ret (take (nat (sz - skip)) (content r))" if "sz \<le> int (length d)"
  proof -
    have "k + (sz - skip) \<le> int (length (bn_data n))" "0 \<le> sz - skip" "nat (sz - skip) \<le> length d" using that assms(2,3) bytes by linarith+
    with k(1) show ?thesis by (simp add: node_bytes_def d_def[symmetric] c)
  qed
  from free_node_ok[OF assms(1) n] obtain r1 where f: "return_free_node r = Ret r1" "chain_ok r1" "content r1 = concat (map bn_data ns)"
    "rb_owned r1 = rb_owned r" "sbf_size (rb_buf r1) = sbf_size (rb_buf r)" by blast
  have run: "pop_lstring sz skip r =
      (if sz < int (length d) then lbind (node_bytes n k (sz - skip)) (\<lambda>out. Ret (r\<lparr>rb_buf := (rb_buf r)\<lparr>sbf_offset := k + sz\<rparr>\<rparr>, out))
       else if sz = int (length d) then lbind (node_bytes n k (sz - skip)) (\<lambda>out. lbind (return_free_node r) (\<lambda>r1. Ret (r1, out)))
       else pop_loop sz skip [] r)"
    by (simp add: pop_lstring_def n Let_def k_def[symmetric] bytes)
  consider "sz < int (length d)" | "sz = int (length d)" | "sz > int (length d)" by linarith
  then show ?thesis
  proof cases
    case 1
    have "0 \<le> sz" using assms(2,3) by simp
    from advance_ok[OF assms(1) n this] 1 bytes get show ?thesis by (simp add: run k_def)
  next
    case 2
    moreover have "rb_reads r r1 (nat sz)" using f 2 c by (simp add: rb_reads_def)
    ultimately show ?thesis using run get f(1) by simp
  next
    case 3
    then show ?thesis using run pop_loop_ok[OF assms(1,2) _ assms(4), of "[]"] by simp
  qed
qed

section \<open>Reading lines\<close>

text \<open>The first position at which a string occurs in another one.\<close>

fun find_sub :: "'a list \<Rightarrow> 'a list \<Rightarrow> nat option" where
  "find_sub sep [] = (if sep = [] then Some 0 else None)"
| "find_sub sep (c # cs) = (if take (length sep) (c # cs) = sep then Some 0 else map_option Suc (find_sub sep cs))"

lemma find_sub_short: "length cs < length sep \<Longrightarrow> find_sub sep cs = None"
proof (induction cs)
  case (Cons c cs)
  have "take (length sep) (c # cs) \<noteq> sep"
  proof
    assume "take (length sep) (c # cs) = sep"
    then have "min (length (c # cs)) (length sep) = length sep" by (metis length_take)
    with Cons.prems show False by simp
  qed
  with Cons show ?case by simp
qed auto

lemma find_sub_Some:
  "find_sub sep cs = Some j \<Longrightarrow> take (length sep) (drop j cs) = sep \<and> j + length sep \<le> length cs \<and> (\<forall>i < j. take (length sep) (drop i cs) \<noteq> sep)"
proof (induction cs arbitrary: j)
  case Nil
  then show ?case by (auto split: if_splits)
next
  case (Cons c cs)
  show ?case
  proof (cases "take (length sep) (c # cs) = sep")
    case True
    then have "length sep \<le> length (c # cs)" by (metis length_take min.cobounded1)
    with True Cons.prems show ?thesis by simp
  next
    case False
    with Cons.prems obtain m where m: "find_sub sep cs = Some m" "j = Suc m" by auto
    from Cons.IH[OF m(1)] m(2) False show ?thesis by (auto simp: less_Suc_eq_0_disj)
  qed
qed

lemma find_sub_None: "find_sub sep cs = None \<Longrightarrow> i \<le> length cs \<Longrightarrow> take (length sep) (drop i cs) \<noteq> sep"
proof (induction cs arbitrary: i)
  case Nil
  then show ?case by (auto split: if_splits)
next
  case (Cons c cs)
  then show ?case by (cases i) (auto split: if_splits)
qed

lemma check_sep_ok:
  assumes "0 \<le> from" "from \<le> int (length (bn_data n))" "C = drop (nat from) (bn_data n) @ concat (map bn_data ns)" "length sep \<le> length C"
  shows "check_sep (n # ns) from sep = Ret (take (length sep) C = sep)"
  using assms
proof (induction ns arbitrary: n "from" sep C)
  case Nil
  then have "node_bytes n from (int (length sep)) = Ret (take (length sep) C)" "int (length sep) \<le> int (length (bn_data n)) - from"
    by (auto simp: node_bytes_def)
  then show ?case by (simp add: Let_def)
next
  case (Cons m ms)
  define d where "d = drop (nat from) (bn_data n)"
  have d: "int (length (bn_data n)) - from = int (length d)" using Cons.prems(1,2) by (simp add: d_def)
  have C: "C = d @ concat (map bn_data (m # ms))" using Cons.prems(3) by (simp add: d_def)
  have get: "node_bytes n from (int k) = Ret (take k d)" if "k \<le> length d" for k
  proof -
    have "from + int k \<le> int (length (bn_data n))" using that d by linarith
    with Cons.prems(1) show ?thesis by (simp add: node_bytes_def d_def)
  qed
  show ?case
  proof (cases "length sep \<le> length d")
    case True
    then show ?thesis using get[OF True] C by (simp add: Let_def d)
  next
    case False
    have run: "check_sep (n # m # ms) from sep = (if d \<noteq> take (length d) sep then Ret False else check_sep (m # ms) 0 (drop (length d) sep))"
      using False get[of "length d"] by (simp add: Let_def d)
    have ih: "check_sep (m # ms) 0 (drop (length d) sep) = Ret (take (length (drop (length d) sep)) (concat (map bn_data (m # ms))) = drop (length d) sep)"
      using Cons.prems(4) C by (intro Cons.IH) auto
    have "take (length sep) C = d @ take (length sep - length d) (concat (map bn_data (m # ms)))" using False C by simp
    moreover have "sep = take (length d) sep @ drop (length d) sep" by simp
    ultimately have "take (length sep) C = sep \<longleftrightarrow> d = take (length d) sep
        \<and> take (length sep - length d) (concat (map bn_data (m # ms))) = drop (length d) sep"
      using False by (metis append_eq_append_conv length_take min.absorb2 nat_le_linear)
    then show ?thesis using run ih by simp
  qed
qed

lemma readline_scan_ok:
  assumes "0 \<le> from" "from < int (length (bn_data c))" "\<forall>x \<in> set ns. bn_data x \<noteq> []" "C = drop (nat from) (bn_data c) @ concat (map bn_data ns)"
    and "n = length C + 1 - length sep"
  shows "readline_scan n i (c # ns) from (int (length (bn_data c)) - from) sep = Ret (map_option (\<lambda>j. i + int j) (find_sub sep C))"
  using assms
proof (induction n arbitrary: i c ns "from" C)
  case 0
  then show ?case by (simp add: find_sub_short)
next
  case (Suc n)
  have sep: "length sep \<le> length C" using Suc.prems(5) by simp
  have chk: "check_sep (c # ns) from sep = Ret (take (length sep) C = sep)"
    using Suc.prems(2) sep by (intro check_sep_ok[OF Suc.prems(1) _ Suc.prems(4)]) simp_all
  have "0 < length (drop (nat from) (bn_data c))" using Suc.prems(1,2) by simp
  then have "C \<noteq> []" using Suc.prems(4) by auto
  then obtain x C' where C: "C = x # C'" by (meson neq_Nil_conv)
  have C': "C' = drop (nat (from + 1)) (bn_data c) @ concat (map bn_data ns)"
  proof -
    have "C' = drop 1 C" by (simp add: C)
    also have "\<dots> = drop (nat (from + 1)) (bn_data c) @ concat (map bn_data ns)"
      using Suc.prems(1,2) \<open>0 < length (drop (nat from) (bn_data c))\<close> by (simp add: Suc.prems(4) nat_add_distrib Suc_le_eq)
    finally show ?thesis .
  qed
  have n: "n = length C' + 1 - length sep" using Suc.prems(5) C by simp
  show ?case
  proof (cases "take (length sep) C = sep")
    case True
    then show ?thesis using chk C by simp
  next
    case False
    then have fs: "map_option (\<lambda>j. i + int j) (find_sub sep C) = map_option (\<lambda>j. (i + 1) + int j) (find_sub sep C')"
      by (simp add: C option.map_comp comp_def algebra_simps)
    show ?thesis
    proof (cases "int (length (bn_data c)) - from - 1 = 0")
      case last: True
      then have C2: "C' = concat (map bn_data ns)" using C' by simp
      show ?thesis
      proof (cases ns)
        case Nil
        have "sep \<noteq> []" using False by auto
        with Nil C2 show ?thesis unfolding fs using chk False last by simp
      next
        case (Cons m ms)
        have "bn_data m \<noteq> []" using Suc.prems(3) Cons by simp
        then have "readline_scan n (i + 1) (m # ms) 0 (int (length (bn_data m)) - 0) sep = Ret (map_option (\<lambda>j. (i + 1) + int j) (find_sub sep C'))"
          using Suc.prems(3) Cons C2 n by (intro Suc.IH) auto
        then show ?thesis unfolding fs using chk False last Cons by simp
      qed
    next
      case more: False
      have "readline_scan n (i + 1) (c # ns) (from + 1) (int (length (bn_data c)) - (from + 1)) sep = Ret (map_option (\<lambda>j. (i + 1) + int j) (find_sub sep C'))"
        using Suc.prems(1-3) C' n more by (intro Suc.IH) auto
      moreover have "int (length (bn_data c)) - (from + 1) = int (length (bn_data c)) - from - 1" by simp
      ultimately show ?thesis unfolding fs using chk False more by simp
    qed
  qed
qed

section \<open>The operations\<close>

lemma take_node_ok:
  assumes "pool_ok r"
  shows "\<exists>n p. take_node (rb_pool r) = Some (n, p) \<and> distinct (n # bp_free p @ map bn_node (sbf_nodes (rb_buf r)))
    \<and> set (n # bp_free p @ map bn_node (sbf_nodes (rb_buf r))) = {..<sum_list (bp_chunks p)}"
proof (cases "bp_free (rb_pool r)")
  case (Cons n ns)
  then show ?thesis using assms by (auto simp: take_node_def Let_def pool_ok_def)
next
  case Nil
  let ?m = "sum_list (bp_chunks (rb_pool r))" and ?k = "pool_size (rb_pool r)"
  have "0 < ?k" by (simp add: pool_size_def Let_def push_bit_nat_def)
  then have u: "[?m..<?m + ?k] = ?m # [Suc ?m..<?m + ?k]" by (simp add: upt_conv_Cons)
  have used: "distinct (map bn_node (sbf_nodes (rb_buf r)))" "bn_node ` set (sbf_nodes (rb_buf r)) = {..<?m}"
    using assms Nil by (simp_all add: pool_ok_def)
  define p where "p = \<lparr>bp_free = [Suc ?m..<?m + ?k], bp_chunks = bp_chunks (rb_pool r) @ [?k]\<rparr>"
  have "take_node (rb_pool r) = Some (?m, p)" using Nil u by (simp add: take_node_def lnewpool_def p_def)
  moreover have "distinct (?m # bp_free p @ map bn_node (sbf_nodes (rb_buf r)))" unfolding p_def using used by auto
  moreover have "set (?m # bp_free p @ map bn_node (sbf_nodes (rb_buf r))) = insert ?m {Suc ?m..<?m + ?k} \<union> {..<?m}"
    unfolding p_def using used(2) by simp
  moreover have "insert ?m {Suc ?m..<?m + ?k} \<union> {..<?m} = {..<sum_list (bp_chunks p)}" unfolding p_def using \<open>0 < ?k\<close> by auto
  ultimately show ?thesis by (intro exI[of _ ?m] exI[of _ p]) simp
qed

lemma lpushbuffer_ok:
  assumes ok: "rbuf_ok r" and bs: "bs \<noteq> []" and size: "length (content r) + length bs < 2 ^ 31"
  shows "\<exists>r'. lpushbuffer msg bs r = Ret (r', int (length (content r) + length bs)) \<and> rbuf_ok r' \<and> content r' = content r @ bs \<and> rb_owned r' = rb_owned r @ [msg]"
proof -
  have ch: "chain_ok r" and sz: "sbf_size (rb_buf r) = int (length (content r))" using ok by (simp_all add: rbuf_ok_def)
  then obtain n p where t: "take_node (rb_pool r) = Some (n, p)" "distinct (n # bp_free p @ map bn_node (sbf_nodes (rb_buf r)))"
    "set (n # bp_free p @ map bn_node (sbf_nodes (rb_buf r))) = {..<sum_list (bp_chunks p)}" using take_node_ok[of r] by (auto simp: chain_ok_def)
  define r' where "r' = r\<lparr>rb_buf := (rb_buf r)\<lparr>sbf_size := sbf_size (rb_buf r) + int (length bs),
     sbf_nodes := sbf_nodes (rb_buf r) @ [\<lparr>bn_node = n, bn_msg = msg, bn_data = bs\<rparr>]\<rparr>, rb_pool := p\<rparr>"
  have off: "nat (sbf_offset (rb_buf r)) \<le> length (concat (map bn_data (sbf_nodes (rb_buf r))))"
    using ch by (auto simp: chain_ok_def split: list.splits)
  have c: "content r' = content r @ bs" using off by (simp add: content_def r'_def)
  have "pool_ok r'" using t(2,3) by (auto simp: pool_ok_def r'_def)
  then have "chain_ok r'" using ch bs by (auto simp: chain_ok_def r'_def split: list.splits)
  then have "rbuf_ok r'" using c sz size by (simp add: rbuf_ok_def r'_def)
  moreover have "lpushbuffer msg bs r = Ret (r', int (length (content r) + length bs))"
    using t(1) sz size by (simp add: lpushbuffer_def Let_def r'_def)
  moreover have "rb_owned r' = rb_owned r @ [msg]" by (simp add: rb_owned_def r'_def)
  ultimately show ?thesis using c by blast
qed

lemma size_frame [simp]:
  "chain_ok (r\<lparr>rb_buf := (rb_buf r)\<lparr>sbf_size := n\<rparr>\<rparr>) = chain_ok r" "content (r\<lparr>rb_buf := (rb_buf r)\<lparr>sbf_size := n\<rparr>\<rparr>) = content r"
  "rb_owned (r\<lparr>rb_buf := (rb_buf r)\<lparr>sbf_size := n\<rparr>\<rparr>) = rb_owned r"
  by (cases "sbf_nodes (rb_buf r)"; simp add: chain_ok_def pool_ok_def content_def rb_owned_def)+

lemma rb_reads_size:
  assumes "rbuf_ok r" "rb_reads r r' n" "n \<le> length (content r)"
  shows "rbuf_ok (add_size (- int n) r')" "content (add_size (- int n) r') = drop n (content r)" "rb_owned (add_size (- int n) r') = rb_owned r"
  using assms by (auto simp: rbuf_ok_def rb_reads_def)

lemma lpopbuffer_ok:
  assumes ok: "rbuf_ok r"
  shows "\<exists>r'. lpopbuffer (int n) r = Ret (r', if length (content r) < n \<or> n = 0 then (None, int (length (content r)))
      else (Some (take n (content r)), int (length (content r) - n)))
    \<and> rbuf_ok r' \<and> rb_owned r' = rb_owned r \<and> content r' = (if length (content r) < n then content r else drop n (content r))"
proof (cases "length (content r) < n \<or> n = 0")
  case True
  then show ?thesis using ok by (auto simp: lpopbuffer_def rbuf_ok_def)
next
  case False
  have ch: "chain_ok r" and sz: "sbf_size (rb_buf r) = int (length (content r))" using ok by (simp_all add: rbuf_ok_def)
  have "content r \<noteq> []" using False by auto
  with False pop_lstring_ok[OF ch, of 0 "int n"] obtain r' where
    p: "pop_lstring (int n) 0 r = Ret (r', take n (content r))" "rb_reads r r' n" by auto
  have "lpopbuffer (int n) r = Ret (add_size (- int n) r', Some (take n (content r)), int (length (content r) - n))"
    using False sz p by (simp add: lpopbuffer_def Let_def rb_reads_def of_nat_diff)
  then show ?thesis using False rb_reads_size[OF ok p(2)] by auto
qed

lemma clear_loop_ok:
  "chain_ok r \<Longrightarrow> sbf_nodes (rb_buf r) = ns \<Longrightarrow> \<exists>r'. clear_loop ns r = Ret r' \<and> chain_ok r' \<and> sbf_nodes (rb_buf r') = [] \<and> rb_owned r' = rb_owned r"
proof (induction ns arbitrary: r)
  case (Cons n ns)
  from free_node_ok[OF Cons.prems] obtain r1 where
    "return_free_node r = Ret r1" "chain_ok r1" "sbf_nodes (rb_buf r1) = ns" "rb_owned r1 = rb_owned r" by blast
  with Cons.IH[of r1] show ?case by auto
qed auto

lemma readall_loop_ok:
  "chain_ok r \<Longrightarrow> sbf_nodes (rb_buf r) = ns \<Longrightarrow>
    \<exists>r'. readall_loop ns b r = Ret (r', b @ content r) \<and> chain_ok r' \<and> sbf_nodes (rb_buf r') = [] \<and> rb_owned r' = rb_owned r"
proof (induction ns arbitrary: r b)
  case Nil
  then show ?case by (simp add: content_def)
next
  case (Cons n ns)
  define k where "k = sbf_offset (rb_buf r)"
  have k: "0 \<le> k" "k < int (length (bn_data n))" using Cons.prems by (simp_all add: chain_ok_def k_def)
  have c: "content r = drop (nat k) (bn_data n) @ concat (map bn_data ns)" using content_Cons[OF Cons.prems(2)] k by (simp add: k_def)
  have g: "node_bytes n k (int (length (bn_data n)) - k) = Ret (drop (nat k) (bn_data n))"
    using k by (simp add: node_bytes_def nat_diff_distrib)
  from free_node_ok[OF Cons.prems] obtain r1 where
    f: "return_free_node r = Ret r1" "chain_ok r1" "sbf_nodes (rb_buf r1) = ns" "rb_owned r1 = rb_owned r" "content r1 = concat (map bn_data ns)" by blast
  from Cons.IH[OF f(2,3), of "b @ drop (nat k) (bn_data n)"] f g c show ?case by (simp add: k_def[symmetric])
qed

lemma empty_ok:
  assumes "chain_ok r" "sbf_nodes (rb_buf r) = []"
  shows "rbuf_ok (r\<lparr>rb_buf := (rb_buf r)\<lparr>sbf_size := 0\<rparr>\<rparr>)" "content (r\<lparr>rb_buf := (rb_buf r)\<lparr>sbf_size := 0\<rparr>\<rparr>) = []"
    "rb_owned (r\<lparr>rb_buf := (rb_buf r)\<lparr>sbf_size := 0\<rparr>\<rparr>) = rb_owned r"
proof -
  have "content r = []" using assms by (simp add: content_def)
  with assms(1) show "rbuf_ok (r\<lparr>rb_buf := (rb_buf r)\<lparr>sbf_size := 0\<rparr>\<rparr>)" "content (r\<lparr>rb_buf := (rb_buf r)\<lparr>sbf_size := 0\<rparr>\<rparr>) = []"
    "rb_owned (r\<lparr>rb_buf := (rb_buf r)\<lparr>sbf_size := 0\<rparr>\<rparr>) = rb_owned r" by (simp_all add: rbuf_ok_def)
qed

lemma lclearbuffer_ok:
  assumes "rbuf_ok r"
  shows "\<exists>r'. lclearbuffer r = Ret r' \<and> rbuf_ok r' \<and> content r' = [] \<and> rb_owned r' = rb_owned r"
proof -
  have "chain_ok r" using assms by (simp add: rbuf_ok_def)
  from clear_loop_ok[OF this refl] obtain r1 where
    "clear_loop (sbf_nodes (rb_buf r)) r = Ret r1" "chain_ok r1" "sbf_nodes (rb_buf r1) = []" "rb_owned r1 = rb_owned r" by blast
  with empty_ok[of r1] show ?thesis by (simp add: lclearbuffer_def)
qed

lemma lreadall_ok:
  assumes "rbuf_ok r"
  shows "\<exists>r'. lreadall r = Ret (r', content r) \<and> rbuf_ok r' \<and> content r' = [] \<and> rb_owned r' = rb_owned r"
proof -
  have "chain_ok r" using assms by (simp add: rbuf_ok_def)
  from readall_loop_ok[OF this refl, of "[]"] obtain r1 where
    "readall_loop (sbf_nodes (rb_buf r)) [] r = Ret (r1, content r)" "chain_ok r1" "sbf_nodes (rb_buf r1) = []" "rb_owned r1 = rb_owned r" by auto
  with empty_ok[of r1] show ?thesis by (simp add: lreadall_def)
qed

lemma lreadline_ok:
  assumes ok: "rbuf_ok r" and sep: "sep \<noteq> []"
  shows "\<exists>r'. lreadline check sep r = Ret (r', case find_sub sep (content r) of None \<Rightarrow> NoLine
      | Some j \<Rightarrow> if check then Found else Line (take j (content r)))
    \<and> rbuf_ok r' \<and> rb_owned r' = rb_owned r \<and> content r' = (case find_sub sep (content r) of None \<Rightarrow> content r
      | Some j \<Rightarrow> if check then content r else drop (j + length sep) (content r))"
proof (cases "sbf_nodes (rb_buf r)")
  case Nil
  then have "content r = []" by (simp add: content_def)
  then show ?thesis using Nil ok sep by (simp add: lreadline_def)
next
  case (Cons c ns)
  have ch: "chain_ok r" and sz: "sbf_size (rb_buf r) = int (length (content r))" using ok by (simp_all add: rbuf_ok_def)
  define k where "k = sbf_offset (rb_buf r)"
  have k: "0 \<le> k" "k < int (length (bn_data c))" "\<forall>x \<in> set ns. bn_data x \<noteq> []" using ch Cons by (simp_all add: chain_ok_def k_def)
  have C: "content r = drop (nat k) (bn_data c) @ concat (map bn_data ns)" using content_Cons[OF Cons] k by (simp add: k_def)
  have n: "nat (int (length (content r)) - int (length sep) + 1) = length (content r) + 1 - length sep" by simp
  have scan: "readline_scan (length (content r) + 1 - length sep) 0 (c # ns) k (int (length (bn_data c)) - k) sep = Ret (map_option int (find_sub sep (content r)))"
    using readline_scan_ok[OF k C refl, of sep 0] by simp
  show ?thesis
  proof (cases "find_sub sep (content r)")
    case None
    then show ?thesis using Cons scan ok sz n by (simp add: lreadline_def Let_def k_def[symmetric])
  next
    case (Some j)
    from find_sub_Some[OF Some] have j: "j + length sep \<le> length (content r)" by blast
    show ?thesis
    proof (cases check)
      case True
      then show ?thesis using Cons scan ok sz n Some by (simp add: lreadline_def Let_def k_def[symmetric])
    next
      case False
      have "content r \<noteq> []" using j sep by auto
      with j pop_lstring_ok[OF ch, of "int (length sep)" "int j + int (length sep)"] obtain r' where
        p: "pop_lstring (int j + int (length sep)) (int (length sep)) r = Ret (r', take j (content r))" "rb_reads r r' (j + length sep)"
        by (auto simp: nat_add_distrib)
      note sized = rb_reads_size[OF ok p(2) j]
      have "lreadline check sep r = Ret (add_size (- int (j + length sep)) r', Line (take j (content r)))"
        using Cons scan sz n Some False p(1) by (simp add: lreadline_def Let_def k_def[symmetric])
      then show ?thesis using sized Some False by auto
    qed
  qed
qed

section \<open>Scripts of operations\<close>

datatype rop = RPush addr "u8 list" | RPop nat | RLine bool "u8 list" | RAll | RClear

datatype rout = OSize int | OPop "u8 list option" int | OLine line | OAll "u8 list" | ODone

definition rop_run :: "rop \<Rightarrow> rbuf \<Rightarrow> (rbuf \<times> rout) lr" where
  "rop_run op r = (case op of
       RPush msg bs \<Rightarrow> lbind (lpushbuffer msg bs r) (\<lambda>(r1, n). Ret (r1, OSize n))
     | RPop n \<Rightarrow> lbind (lpopbuffer (int n) r) (\<lambda>(r1, x, m). Ret (r1, OPop x m))
     | RLine check sep \<Rightarrow> lbind (lreadline check sep r) (\<lambda>(r1, x). Ret (r1, OLine x))
     | RAll \<Rightarrow> lbind (lreadall r) (\<lambda>(r1, x). Ret (r1, OAll x))
     | RClear \<Rightarrow> lbind (lclearbuffer r) (\<lambda>r1. Ret (r1, ODone)))"

text \<open>The specification: a string of bytes.\<close>

definition rop_spec :: "rop \<Rightarrow> u8 list \<Rightarrow> u8 list \<times> rout" where
  "rop_spec op c = (case op of
       RPush _ bs \<Rightarrow> (c @ bs, OSize (int (length c + length bs)))
     | RPop n \<Rightarrow> if length c < n \<or> n = 0 then (c, OPop None (int (length c))) else (drop n c, OPop (Some (take n c)) (int (length c - n)))
     | RLine check sep \<Rightarrow> (case find_sub sep c of
           None \<Rightarrow> (c, OLine NoLine)
         | Some j \<Rightarrow> if check then (c, OLine Found) else (drop (j + length sep) c, OLine (Line (take j c))))
     | RAll \<Rightarrow> ([], OAll c)
     | RClear \<Rightarrow> ([], ODone))"

fun run_all :: "rop list \<Rightarrow> rbuf \<Rightarrow> (rbuf \<times> rout list) lr" where
  "run_all [] r = Ret (r, [])"
| "run_all (op # ops) r = lbind (rop_run op r) (\<lambda>(r1, x). lbind (run_all ops r1) (\<lambda>(r2, xs). Ret (r2, x # xs)))"

fun spec_all :: "rop list \<Rightarrow> u8 list \<Rightarrow> u8 list \<times> rout list" where
  "spec_all [] c = (c, [])"
| "spec_all (op # ops) c = (let (c1, x) = rop_spec op c; (c2, xs) = spec_all ops c1 in (c2, x # xs))"

definition rop_ok :: "rop \<Rightarrow> bool" where
  "rop_ok op = (case op of RPush _ bs \<Rightarrow> bs \<noteq> [] | RLine _ sep \<Rightarrow> sep \<noteq> [] | _ \<Rightarrow> True)"

definition rop_size :: "rop \<Rightarrow> nat" where
  "rop_size op = (case op of RPush _ bs \<Rightarrow> length bs | _ \<Rightarrow> 0)"

definition rop_block :: "rop \<Rightarrow> addr list" where
  "rop_block op = (case op of RPush msg _ \<Rightarrow> [msg] | _ \<Rightarrow> [])"

definition rbuf0 :: rbuf where
  "rbuf0 = \<lparr>rb_buf = lnewbuffer, rb_pool = \<lparr>bp_free = [], bp_chunks = []\<rparr>, rb_freed = []\<rparr>"

lemma rbuf0_ok: "rbuf_ok rbuf0" "content rbuf0 = []" "rb_owned rbuf0 = []"
  by (simp_all add: rbuf0_def lnewbuffer_def rbuf_ok_def chain_ok_def pool_ok_def content_def rb_owned_def)

lemma rop_run_ok:
  assumes ok: "rbuf_ok r" and op: "rop_ok op" and size: "length (content r) + rop_size op < 2 ^ 31"
  shows "\<exists>r'. rop_run op r = Ret (r', snd (rop_spec op (content r))) \<and> rbuf_ok r' \<and> content r' = fst (rop_spec op (content r)) \<and> rb_owned r' = rb_owned r @ rop_block op"
proof (cases op)
  case (RPush msg bs)
  then show ?thesis using lpushbuffer_ok[OF ok, of bs msg] op size by (auto simp: rop_run_def rop_spec_def rop_ok_def rop_size_def rop_block_def)
next
  case (RPop n)
  then show ?thesis using lpopbuffer_ok[OF ok, of n] by (auto simp: rop_run_def rop_spec_def rop_block_def)
next
  case (RLine check sep)
  then have "sep \<noteq> []" using op by (simp add: rop_ok_def)
  from lreadline_ok[OF ok this, of check] RLine show ?thesis
    by (auto simp: rop_run_def rop_spec_def rop_block_def split: option.splits if_splits)
next
  case RAll
  then show ?thesis using lreadall_ok[OF ok] by (auto simp: rop_run_def rop_spec_def rop_block_def)
next
  case RClear
  then show ?thesis using lclearbuffer_ok[OF ok] by (auto simp: rop_run_def rop_spec_def rop_block_def)
qed

lemma rop_spec_length: "length (fst (rop_spec op c)) \<le> length c + rop_size op"
  by (auto simp: rop_spec_def rop_size_def split: rop.split option.split)

lemma run_all_ok:
  assumes "rbuf_ok r" "\<forall>op \<in> set ops. rop_ok op" "length (content r) + sum_list (map rop_size ops) < 2 ^ 31"
  shows "\<exists>r'. run_all ops r = Ret (r', snd (spec_all ops (content r))) \<and> rbuf_ok r' \<and> content r' = fst (spec_all ops (content r))
    \<and> rb_owned r' = rb_owned r @ concat (map rop_block ops)"
  using assms
proof (induction ops arbitrary: r)
  case (Cons op ops)
  obtain r1 where 1: "rop_run op r = Ret (r1, snd (rop_spec op (content r)))" "rbuf_ok r1" "content r1 = fst (rop_spec op (content r))"
    "rb_owned r1 = rb_owned r @ rop_block op" using rop_run_ok[OF Cons.prems(1), of op] Cons.prems(2,3) by auto
  have "length (content r1) + sum_list (map rop_size ops) < 2 ^ 31"
    using rop_spec_length[of op "content r"] Cons.prems(3) 1(3) by simp
  from Cons.IH[OF 1(2) _ this] Cons.prems(2) obtain r2 where 2: "run_all ops r1 = Ret (r2, snd (spec_all ops (content r1)))" "rbuf_ok r2"
    "content r2 = fst (spec_all ops (content r1))" "rb_owned r2 = rb_owned r1 @ concat (map rop_block ops)" by auto
  have "run_all (op # ops) r = Ret (r2, snd (rop_spec op (content r)) # snd (spec_all ops (content r1)))" using 1(1) 2(1) by simp
  moreover have "spec_all (op # ops) (content r) = (fst (spec_all ops (content r1)), snd (rop_spec op (content r)) # snd (spec_all ops (content r1)))"
    by (simp add: 1(3) split_def Let_def)
  ultimately show ?case using 2 1(4) by simp
qed simp

text \<open>C27: The read buffer of a socket behaves like a string of bytes.  On every script of pushes, reads of a number of bytes, reads up to a separator, tests for one, reads of
  everything and clears, each operation ends without a violation and returns what it returns on the string: the bytes from the front, the line in front of the first occurrence of the separator -- also when it
  lies across blocks -- with the separator removed, or nothing when there are too few bytes.  The blocks that were handed over are freed once each, in their order, or still in the
  chain, and every node of the pool is free or in the chain.  (Blocks and separators are not empty, and less than \<open>2\<^sup>3\<^sup>1\<close> bytes are handed over.)\<close>

theorem rbuf_refines:
  assumes "\<forall>op \<in> set ops. rop_ok op" "sum_list (map rop_size ops) < 2 ^ 31"
  shows "\<exists>r. run_all ops rbuf0 = Ret (r, snd (spec_all ops [])) \<and> content r = fst (spec_all ops [])
    \<and> rb_freed r @ map bn_msg (sbf_nodes (rb_buf r)) = concat (map rop_block ops) \<and> rbuf_ok r"
  using run_all_ok[OF rbuf0_ok(1) assms(1)] assms(2) unfolding rbuf0_ok by (auto simp: rb_owned_def)

theorem rbuf_refines_witness:
  "\<exists>r. run_all [RPush 100 [65, 66, 13], RLine False [13, 10], RPush 200 [10, 67], RLine False [13, 10], RPop 2] rbuf0
      = Ret (r, [OSize 3, OLine NoLine, OSize 5, OLine (Line [65, 66]), OPop None 1])
    \<and> content r = [67] \<and> rb_freed r @ map bn_msg (sbf_nodes (rb_buf r)) = [100, 200]"
  using rbuf_refines[of "[RPush 100 [65, 66, 13], RLine False [13, 10], RPush 200 [10, 67], RLine False [13, 10], RPop 2]"]
  by (auto simp: rop_ok_def rop_size_def rop_spec_def rop_block_def)

text \<open>What a line is: nothing in front of it contains the separator.\<close>

lemma line_first:
  assumes "rop_spec (RLine False sep) c = (c', OLine (Line l))"
  shows "c = l @ sep @ c' \<and> (\<forall>i < length l. take (length sep) (drop i c) \<noteq> sep)"
proof -
  obtain j where j: "find_sub sep c = Some j" "l = take j c" "c' = drop (j + length sep) c"
    using assms by (auto simp: rop_spec_def split: option.splits)
  from find_sub_Some[OF j(1)] have f: "take (length sep) (drop j c) = sep" "j + length sep \<le> length c" "\<forall>i < j. take (length sep) (drop i c) \<noteq> sep" by auto
  have "c = take j c @ drop j c" by simp
  also have "drop j c = sep @ drop (length sep) (drop j c)" by (metis f(1) append_take_drop_id)
  also have "drop (length sep) (drop j c) = c'" by (simp add: j(3) add.commute)
  finally have "c = l @ sep @ c'" unfolding j(2) .
  moreover have "length l = j" using f(2) by (simp add: j(2))
  ultimately show ?thesis using f(3) by blast
qed

text \<open>The size to read is not tested for its sign: a negative one is taken as a huge length.\<close>

lemma negative_pop_bad:
  assumes "rbuf_ok r" "content r \<noteq> []" "n < 0"
  shows "lpopbuffer n r = Bad"
proof -
  obtain c ns where c: "sbf_nodes (rb_buf r) = c # ns" using assms(2) by (cases "sbf_nodes (rb_buf r)") (auto simp: content_def)
  then have "n < int (length (bn_data c)) - sbf_offset (rb_buf r)" using assms(1,3) by (simp add: rbuf_ok_def chain_ok_def)
  moreover have "\<not> sbf_size (rb_buf r) < n" using assms(1,3) by (simp add: rbuf_ok_def)
  ultimately show ?thesis using assms(3) c by (simp add: lpopbuffer_def pop_lstring_def node_bytes_def Let_def)
qed

end
