(* ===== verification/Spec2Isabelle.thy ===== *)
theory Spec2Isabelle
  imports Dispatch Services Seri Gate Netpack Des Dh Base64 Sha1 Cluster HarborInv SkynetSocket Linebuf
begin

text \<open>
  \<^bold>\<open>Verification of the skynet server framework.\<close>

  The program (under \<open>src/depends/skynet\<close>) is an actor framework in C with services in Lua.  A process
  is a \<^emph>\<open>node\<close>.  Every service has a handle, a queue of messages and a callback; worker threads take
  queues from a global queue and run the callback on their messages.  A timer thread turns a wheel and
  posts responses; a socket thread owns all sockets, reads requests of the services from a pipe and events from the operating system, and
  posts what arrives as messages; gate services cut the byte streams of their sockets into packages; a harbor
  service carries messages to other nodes of the same network, and the cluster library does so between
  networks.  Values are passed between services in a serialized form.

  \<^bold>\<open>How the parts interact.\<close>  \<open>skynet_send\<close> (Server) looks the destination up in the handle storage
  (Handle), copies the message and pushes it into the queue of the destination (Mq), which puts the queue
  into the global queue when it was idle (Dispatch).  A handle of another node goes to the harbor
  service as a message (Server, then Harbor).  A tick of the timer (Timer) sends messages the same way
  (Server).  A service hands a buffer to the socket server, which puts a request into the pipe (Socket); the socket thread
  sends it, and turns what its poll loop reports into a message for the owner of the socket (SkynetSocket, then Server).  The message of a
  socket reaches a gate or a harbor service, whose answer is a list of sends and socket
  calls.  Lua services use the codecs of \<open>lualib-src\<close>.

  \<^bold>\<open>Theories and sources.\<close>
  \<^item> Prelude: machine integers, arrays with C's failures, collections of lemmas.  Cstr: the functions of
    the C library on strings that the sources use.  Bytes: layouts of integers in memory, results of C
    functions called from Lua.
  \<^item> Ring: circular arrays and the locale \<open>fifo\<close>, the contract of a first-in first-out queue, with
    the theorem that every provider agrees with a list on every sequence of operations.
  \<^item> Mq (\<open>skynet_mq.c\<close>): \<open>message_queue\<close> is \<open>struct message_queue\<close>, \<open>mqs\<close> the heap of queues with the global
    list; one function per C function; interpretations \<open>mq\<close> and \<open>gq\<close> of \<open>fifo\<close>.
  \<^item> Dispatch: the threads of \<open>skynet_context_message_dispatch\<close>, the senders and the retirement as a
    step relation \<open>sched_step\<close> on critical sections; mutual exclusion, no lost queue, no failed assertion.
  \<^item> Handle (\<open>skynet_handle.c\<close>): hash table and sorted names; locale \<open>registry\<close>, interpretation \<open>storage\<close>.
  \<^item> Timer (\<open>skynet_timer.c\<close>): the wheel; locale \<open>timer_service\<close>, interpretation \<open>wheel\<close>; the wheel refines a
    multiset of deadlines and every timeout fires exactly once.
  \<^item> Node, Server, Command (\<open>skynet_server.c\<close>, \<open>skynet_harbor.c\<close>, \<open>skynet_module.c\<close>, \<open>skynet_env.c\<close>, \<open>skynet_error.c\<close>,
    \<open>skynet_log.c\<close>, \<open>skynet_monitor.c\<close>): the state of a node as one record, the operations of services, the text commands.
    Mailbox gives the abstract view, a map from handles to lists of messages, with the
    locale \<open>mail_service\<close> and its interpretation \<open>mail\<close>; Services holds the properties, and the init function of the logger
    (\<open>service_logger.c\<close>) as an instance of the contract \<open>init_accepts\<close> under which a launch succeeds.
  \<^item> Seri (\<open>lua-seri.c\<close>): packing and unpacking of Lua values; equivalence with the format, round trip, safety on arbitrary bytes.
  \<^item> Netpack (\<open>lua-netpack.c\<close>): reassembly of packets per socket; interpretation \<open>npq\<close> of \<open>fifo\<close>; refinement of a
    specification on byte streams.
  \<^item> Databuffer, Gate (\<open>databuffer.h\<close>, \<open>hashid.h\<close>, \<open>service_gate.c\<close>): the gate service with its buffers; what it forwards, what it does without a receiver, and
    exactly which messages stop it.
  \<^item> Des, Crypt, Dh, Base64, Sha1 (\<open>lua-crypt.c\<close>, \<open>lsha1.c\<close>): ciphers, codecs, hashes, key exchange, compared with their
    mathematical definitions or their inverses.
  \<^item> Cluster (\<open>lua-cluster.c\<close>, and the collection of parts in \<open>clusterd.lua\<close> with its reset when a connection ends): requests and responses
    between networks; requests of several sessions arrive however their packets are interleaved.
  \<^item> Harbor, HarborQueue, HarborStream, HarborInv (\<open>service_harbor.c\<close>): the harbor service; interpretation \<open>hbq\<close> of \<open>fifo\<close>;
    independence from the cutting of the stream, delivery from node to node, the invariant of reachable
    states and exactly which inputs stop the service.

  \<^item> Socket (\<open>socket_server.c\<close>): the table of sockets, the lists of outgoing buffers, the requests, the poll loop and the calls of
    other threads, one function per C function.  SocketInv: every handler changes one slot; what it does to the buffers, the poll set and the type of the socket;
    \<open>reserve_id\<close>.  SocketReach: the step relation \<open>reach\<close> of the turns of the socket thread and the calls of other threads, and its invariant:
    no assertion fails, each buffer is released once, TCP streams keep packages whole and in order.
  \<^item> SkynetSocket (\<open>skynet_socket.c\<close>): reports of the socket server become messages of services; the composition with the
    mailboxes of Server.
  \<^item> Linebuf (\<open>lua-socket.c\<close>): the read buffers of sockets in Lua services, blocks chained in nodes of a pool; refinement of a string of
    bytes with the first occurrence of a separator, and no block freed twice or lost.

  \<^bold>\<open>Conventions.\<close>  A C function that may stop the process or access memory outside an object returns an
  option, and \<open>None\<close> is that event; a function called from Lua returns a value, a Lua error or a
  violation.  Fixed-width integers are words; \<open>int\<close> values that the code never lets overflow are
  integers, and where it can overflow the wrap-around or a violation is written out.  Loops that are not
  obviously bounded are \<open>partial_function (option)\<close>, and that they return is part of the theorems that use them.  Fuel is used
  in two places: the drain loop of Netpack, with one more than the capacity of its ring, which is an upper bound of its
  content, and the recursion of \<open>luaseri_unpack\<close>, with twice the number of bytes plus four.  Every call of the latter reads a byte or ends, and running out would be a violation, which the safety
  property of Seri excludes for all inputs; the depth of the C stack is not modelled.  The capacities of the growing queues of services and of the harbor service, and the threshold of the overload warning, are naturals: the
  \<open>int\<close> fields overflow only with more than \<open>2\<^sup>3\<^sup>0\<close> messages in one queue.  Lengths that a peer or a service can drive over \<open>2\<^sup>3\<^sup>1\<close> (Seri, Databuffer, Linebuf, Des, Cluster) are kept at their width.  Pointers whose identity matters (queues, contexts, message blocks) are addresses into maps; others are values.
  The clock, \<open>random\<close>, \<open>dlopen\<close>, the file system, the code of services, \<open>vsnprintf\<close> and the answers of the rest of the system
  to a service are arguments.  The operating system of the socket server is an argument \<open>os\<close>: a function from the calls made so far, with their answers, and the next call to
  its answer.  What the theorems assume of it is \<open>os_sane\<close>: reads and writes do not report more bytes than there are, a write is not interrupted forever, and waiting
  reports each member of the poll set at most once and nothing else.  The last holds for \<open>socket_epoll.h\<close>; \<open>socket_kqueue.h\<close> reports reading and writing of a socket as two events, and what follows from \<open>os_sane\<close> is not claimed for it.  The clients of the socket server use ids that were given out, send user objects with high priority only, and the
  31-bit counter of ids does not wrap around (\<open>ids_left\<close>); lemmas at the end of SocketReach show what happens otherwise.  A turn of the poll loop
  and a call of another thread are single steps; the race between the reservation of a slot by another thread and the clearing of its
  pending event inside one turn is outside this granularity, as is the retry of \<open>reserve_id\<close> when another thread takes the slot between its test and its compare-and-swap.  The pipe is a list of whole requests: failed reads and writes of it,
  and with them the assertion of \<open>block_readpipe\<close>, are left out.  In Server the registration of a context and the assignment of its handle (\<open>skynet_context_new\<close>) are one step; the code has a moment in between in which
  the registered context has handle 0.

  \<^bold>\<open>Not modelled.\<close>  The start of the process and its threads (\<open>skynet_start.c\<close>, \<open>skynet_main.c\<close>,
  \<open>skynet_daemon.c\<close>): system calls and thread creation.  The poll set (\<open>socket_epoll.h\<close>, \<open>socket_kqueue.h\<close>): system calls, part of the parameter \<open>os\<close>.  The allocator statistics (\<open>malloc_hook.c\<close>) and the vendored
  libraries under \<open>3rd\<close>.  The services that run Lua code or write log lines (\<open>service_snlua.c\<close>, the callback of \<open>service_logger.c\<close>) and
  the bindings that only pass arguments between Lua and the modelled functions (\<open>lua-skynet.c\<close>, \<open>lua-socket.c\<close> except its read buffers):
  their content is the Lua C API.  Drivers and codecs for other protocols and the data sharing libraries
  (bson, mongo, mysql, sproto, sharedata, stm, multicast, websocket): independent libraries of the same
  size as the ones modelled.  The Lua code of the example servers under \<open>src/server\<close>.
\<close>

end
